(* ===== verification/Ice_Prelude.thy ===== *)
theory Ice_Prelude
  imports Main "HOL-Library.Word"
begin

text \<open>
  Shared vocabulary of the development.  It fixes how the C++ types are read in HOL
  (\<open>Ice::Byte\<close>, \<open>Ice::Short\<close>, \<open>Ice::Int\<close>, \<open>Ice::Long\<close> are words of their width, a
  \<open>std::string\<close> is a list of characters, an exception is the left summand of a result), it
  gives the sequencing operator that replaces C++ exception propagation, the searches of
  \<open>std::string\<close> the sources use, and the native and the wire representation of integers.
\<close>

unbundle bit_operations_syntax

section \<open>Types\<close>

type_synonym byte = "8 word"
type_synonym ice_short = "16 word"
type_synonym ice_int = "32 word"
type_synonym ice_long = "64 word"

section \<open>Collections\<close>

named_theorems result_simps \<open>sequencing of computations that may throw\<close>
named_theorems wire_simps \<open>byte-level facts of the wire format\<close>

section \<open>Results: a left value is a thrown exception\<close>

definition andThen :: "'e + 'a \<Rightarrow> ('a \<Rightarrow> 'e + 'b) \<Rightarrow> 'e + 'b" where
  "andThen m f = (case m of Inl e \<Rightarrow> Inl e | Inr x \<Rightarrow> f x)"

lemma andThen_Inl [simp, result_simps]: "andThen (Inl e) f = Inl e"
  by (simp add: andThen_def)

lemma andThen_Inr [simp, result_simps]: "andThen (Inr x) f = f x"
  by (simp add: andThen_def)

lemma andThen_eq_Inr [result_simps]:
  "andThen m f = Inr y \<longleftrightarrow> (\<exists>x. m = Inr x \<and> f x = Inr y)"
  by (cases m) auto

lemma andThen_eq_Inl [result_simps]:
  "andThen m f = Inl e \<longleftrightarrow> m = Inl e \<or> (\<exists>x. m = Inr x \<and> f x = Inl e)"
  by (cases m) auto

lemma andThen_assoc: "andThen (andThen m f) g = andThen m (\<lambda>x. andThen (f x) g)"
  by (cases m) auto

lemma andThen_cong [fundef_cong]:
  "m = m' \<Longrightarrow> (\<And>x. m' = Inr x \<Longrightarrow> f x = f' x) \<Longrightarrow> andThen m f = andThen m' f'"
  by (cases m') auto


section \<open>Searches of \<open>std::string\<close>\<close>

text \<open>
  \<open>find_idx P s\<close> is the position of the first character that satisfies \<open>P\<close>;
  \<open>str_find P s pos\<close> starts at \<open>pos\<close>, as \<open>find\<close>, \<open>find_first_of\<close> and
  \<open>find_first_not_of\<close> do.  The value \<open>std::string::npos\<close> is \<open>None\<close>.
  \<open>str_rfind P s\<close> is the last such position (\<open>find_last_not_of\<close>).
\<close>

fun find_idx :: "('a \<Rightarrow> bool) \<Rightarrow> 'a list \<Rightarrow> nat option" where
  "find_idx P [] = None"
| "find_idx P (x # xs) = (if P x then Some 0 else map_option Suc (find_idx P xs))"

definition str_find :: "('a \<Rightarrow> bool) \<Rightarrow> 'a list \<Rightarrow> nat \<Rightarrow> nat option" where
  "str_find P s pos = map_option (\<lambda>k. k + pos) (find_idx P (drop pos s))"

fun str_rfind :: "('a \<Rightarrow> bool) \<Rightarrow> 'a list \<Rightarrow> nat option" where
  "str_rfind P [] = None"
| "str_rfind P (x # xs) =
     (case str_rfind P xs of Some k \<Rightarrow> Some (Suc k) | None \<Rightarrow> if P x then Some 0 else None)"

lemma find_idx_None_iff: "find_idx P xs = None \<longleftrightarrow> (\<forall>x \<in> set xs. \<not> P x)"
  by (induction xs) auto

lemma find_idx_SomeD:
  "find_idx P xs = Some k \<Longrightarrow> k < length xs \<and> P (xs ! k) \<and> (\<forall>j < k. \<not> P (xs ! j))"
proof (induction xs arbitrary: k)
  case Nil
  then show ?case by simp
next
  case (Cons x xs)
  then show ?case
    by (cases k) (auto simp: less_Suc_eq_0_disj split: if_splits)
qed

lemma find_idx_append_skip:
  "\<forall>u \<in> set us. \<not> P u \<Longrightarrow> find_idx P (us @ ys) = map_option (\<lambda>k. k + length us) (find_idx P ys)"
  by (induction us) (simp_all add: option.map_comp comp_def option.map_ident)

lemma find_idx_split:
  "find_idx P xs = Some k \<longleftrightarrow>
     (\<exists>us y vs. xs = us @ y # vs \<and> length us = k \<and> P y \<and> (\<forall>u \<in> set us. \<not> P u))"
proof
  assume *: "find_idx P xs = Some k"
  note d = find_idx_SomeD [OF *]
  have "xs = take k xs @ xs ! k # drop (Suc k) xs"
    using d by (simp add: id_take_nth_drop)
  moreover have "\<forall>u \<in> set (take k xs). \<not> P u"
    using d by (auto simp: in_set_conv_nth)
  moreover have "length (take k xs) = k" using d by simp
  ultimately show "\<exists>us y vs. xs = us @ y # vs \<and> length us = k \<and> P y \<and> (\<forall>u \<in> set us. \<not> P u)"
    using d by blast
next
  assume "\<exists>us y vs. xs = us @ y # vs \<and> length us = k \<and> P y \<and> (\<forall>u \<in> set us. \<not> P u)"
  then show "find_idx P xs = Some k"
    by (auto simp: find_idx_append_skip)
qed

lemma str_find_0 [simp]: "str_find P s 0 = find_idx P s"
  by (simp add: str_find_def option.map_ident)

lemma str_find_SomeD:
  assumes "str_find P s pos = Some k"
  shows "pos \<le> k" and "k < length s" and "P (s ! k)" and "pos \<le> j \<Longrightarrow> j < k \<Longrightarrow> \<not> P (s ! j)"
proof -
  from assms obtain m where m: "find_idx P (drop pos s) = Some m" and k: "k = m + pos"
    by (auto simp: str_find_def)
  note d = find_idx_SomeD [OF m]
  show "pos \<le> k" using k by simp
  show "k < length s" using d k by auto
  have le: "pos \<le> length s" using d by auto
  show "P (s ! k)" using d k le by (simp add: add.commute)
  show "\<not> P (s ! j)" if "pos \<le> j" "j < k"
  proof -
    have "j - pos < m" using that k by simp
    with d have "\<not> P (drop pos s ! (j - pos))" by blast
    then show ?thesis using that d k le by simp
  qed
qed

lemma str_find_decreases: "str_find P s pos = Some k \<Longrightarrow> length s - Suc k < length s - pos"
  using str_find_SomeD(1,2) [of P s pos k] by linarith

lemma str_find_None_iff: "str_find P s pos = None \<longleftrightarrow> (\<forall>x \<in> set (drop pos s). \<not> P x)"
  by (simp add: str_find_def find_idx_None_iff)

lemma str_find_NoneD:
  assumes "str_find P s pos = None" and "pos \<le> j" and "j < length s"
  shows "\<not> P (s ! j)"
proof -
  have "drop pos s ! (j - pos) \<in> set (drop pos s)" using assms by (intro nth_mem) simp
  with assms show ?thesis by (auto simp: str_find_None_iff)
qed

lemma str_rfind_None_iff [simp]: "str_rfind P xs = None \<longleftrightarrow> (\<forall>x \<in> set xs. \<not> P x)"
  by (induction xs) (auto split: option.splits)

lemma str_rfind_snoc [simp]: "P x \<Longrightarrow> str_rfind P (xs @ [x]) = Some (length xs)"
  by (induction xs) auto


section \<open>Bytes of integers\<close>

text \<open>
  \<open>le_bytes w\<close> lists the bytes of a word, least significant first; \<open>le_word\<close> reads them
  back.  \<open>obj_rep big w\<close> is the object representation of \<open>w\<close> in the memory of a
  big-endian or a little-endian machine, \<open>obj_of_rep big\<close> the value of such a region.
\<close>

definition le_bytes :: "'a::len word \<Rightarrow> byte list" where
  "le_bytes w = map (\<lambda>k. ucast (drop_bit (8 * k) w)) [0..<LENGTH('a) div 8]"

fun le_word :: "byte list \<Rightarrow> 'a::len word" where
  "le_word [] = 0"
| "le_word (b # bs) = ucast b OR push_bit 8 (le_word bs)"

definition obj_rep :: "bool \<Rightarrow> 'a::len word \<Rightarrow> byte list" where
  "obj_rep big w = (if big then rev (le_bytes w) else le_bytes w)"

definition obj_of_rep :: "bool \<Rightarrow> byte list \<Rightarrow> 'a::len word" where
  "obj_of_rep big bs = (if big then le_word (rev bs) else le_word bs)"

lemma length_le_bytes [simp]: "length (le_bytes (w :: 'a::len word)) = LENGTH('a) div 8"
  by (simp add: le_bytes_def)

lemma length_obj_rep [simp]: "length (obj_rep big (w :: 'a::len word)) = LENGTH('a) div 8"
  by (simp add: obj_rep_def)

lemma bit_le_word:
  "bit (le_word bs :: 'a::len word) n \<longleftrightarrow>
     n < LENGTH('a) \<and> n div 8 < length bs \<and> bit (bs ! (n div 8)) (n mod 8)"
proof (induction bs arbitrary: n)
  case Nil
  then show ?case by simp
next
  case (Cons b bs)
  show ?case
  proof (cases "n < 8")
    case True
    then show ?thesis by (auto simp: bit_simps)
  next
    case False
    then have "n div 8 = Suc ((n - 8) div 8)" "n mod 8 = (n - 8) mod 8"
      by (simp_all add: le_div_geq le_mod_geq)
    moreover have "\<not> bit b n" using False by (auto dest: bit_imp_le_length)
    ultimately show ?thesis using False Cons [of "n - 8"] by (auto simp: bit_simps)
  qed
qed

lemma le_word_le_bytes [simp, wire_simps]:
  assumes "8 dvd LENGTH('a)"
  shows "le_word (le_bytes (w :: 'a::len word)) = w"
proof (rule bit_word_eqI)
  fix n
  assume n: "n < LENGTH('a)"
  then have "n div 8 < LENGTH('a) div 8" using assms by (auto elim!: dvdE simp: less_mult_imp_div_less mult.commute)
  moreover have "8 * (n div 8) + n mod 8 = n" by simp
  ultimately show "bit (le_word (le_bytes w) :: 'a word) n = bit w n"
    using n by (simp add: bit_le_word le_bytes_def bit_simps)
qed

lemma le_bytes_le_word [simp, wire_simps]:
  assumes "8 dvd LENGTH('a)" and "length bs = LENGTH('a) div 8"
  shows "le_bytes (le_word bs :: 'a::len word) = bs"
proof (rule nth_equalityI)
  show "length (le_bytes (le_word bs :: 'a word)) = length bs" using assms by simp
next
  fix k
  assume "k < length (le_bytes (le_word bs :: 'a word))"
  then have k: "k < LENGTH('a) div 8" by simp
  show "le_bytes (le_word bs :: 'a word) ! k = bs ! k"
  proof (rule bit_word_eqI)
    fix n
    assume "n < LENGTH(8)"
    then have n: "n < 8" by simp
    have "8 * k + n < 8 * (LENGTH('a) div 8)" using k n by linarith
    then have "8 * k + n < LENGTH('a)" using assms(1) by simp
    then show "bit (le_bytes (le_word bs :: 'a word) ! k) n = bit (bs ! k) n"
      using k n assms(2) by (simp add: le_bytes_def bit_simps bit_le_word)
  qed
qed

lemma obj_of_rep_obj_rep [simp, wire_simps]:
  "8 dvd LENGTH('a) \<Longrightarrow> obj_of_rep big (obj_rep big (w :: 'a::len word)) = w"
  by (simp add: obj_of_rep_def obj_rep_def)


section \<open>Signed 32-bit values\<close>

lemma sint_if: "sint (w :: ice_int) = (if uint w < 2147483648 then uint w else uint w - 4294967296)"
proof -
  have u: "uint w < 4294967296" "0 \<le> uint w" using uint_lt2p [of w] by simp_all
  have e: "sint w = signed_take_bit 31 (uint w)" by (simp add: sint_uint)
  show ?thesis
  proof (cases "uint w < 2147483648")
    case True
    then have "signed_take_bit 31 (uint w) = uint w" using u(1) by (intro signed_take_bit_int_eq_self) (simp_all add: order_trans [of _ 0])
    then show ?thesis using True e by simp
  next
    case False
    have "signed_take_bit 31 (uint w) = signed_take_bit 31 (uint w - 4294967296)"
      by (rule signed_take_bit_eq_iff_take_bit_eq [THEN iffD2]) (simp add: take_bit_eq_mod)
    also have "\<dots> = uint w - 4294967296" using False u by (intro signed_take_bit_int_eq_self) simp_all
    finally show ?thesis using False e by simp
  qed
qed

lemma sint_word_of_int: "- 2147483648 \<le> k \<Longrightarrow> k < 2147483648 \<Longrightarrow> sint (word_of_int k :: ice_int) = k"
  by (simp add: sint_sbintrunc' signed_take_bit_int_eq_self)

lemma sint_word_of_nat: "n < 2147483648 \<Longrightarrow> sint (word_of_nat n :: ice_int) = int n"
  using sint_word_of_int [of "int n"] by simp

lemma sint_nonneg_iff: "0 \<le> sint (w :: ice_int) \<longleftrightarrow> unat w < 2147483648"
  using uint_lt2p [of w] by (auto simp: sint_if simp flip: uint_nat nat_uint_eq)

lemma sint_nonneg: "0 \<le> sint (w :: ice_int) \<Longrightarrow> sint w = int (unat w)"
  using uint_lt2p [of w] by (auto simp: sint_if split: if_splits)

lemma sint_small: "unat (w :: ice_int) < 2147483648 \<Longrightarrow> sint w = int (unat w)"
  by (simp add: sint_if nat_less_iff flip: nat_uint_eq)

lemma sint_pos_iff: "unat (w :: ice_int) < 2147483648 \<Longrightarrow> 0 < sint w \<longleftrightarrow> 0 < unat w"
  by (simp add: sint_if nat_less_iff word_gt_0 flip: nat_uint_eq)

lemma unat_plus_one: "unat (w :: ice_int) < 4294967295 \<Longrightarrow> unat (w + 1) = unat w + 1"
  by (simp add: unat_word_ariths)

lemma unat_less_one: "0 < unat (w :: ice_int) \<Longrightarrow> unat (w - 1) = unat w - 1"
  by (rule unat_minus_one) auto

end
