(* ===== verification/Base64.thy ===== *)
theory Base64
  imports Ice_Prelude
begin

text \<open>
  The Base64 codec \<^verbatim>\<open>src/Ice-3.1.1/src/IceUtil/Base64.cpp\<close>, used for the opaque endpoint data
  of stringified proxies.  Bytes are 8-bit words and keep their width: the shifts and masks are
  the ones of the source.
\<close>

section \<open>Model\<close>

definition b64_encodeChar :: "byte \<Rightarrow> char" where
  "b64_encodeChar uc =
     (if uc < 26 then char_of (65 + unat uc)
      else if uc < 52 then char_of (97 + unat (uc - 26))
      else if uc < 62 then char_of (48 + unat (uc - 52))
      else if uc = 62 then CHR ''+''
      else CHR ''/'')"

definition b64_decodeChar :: "char \<Rightarrow> byte" where
  "b64_decodeChar c =
     (let n = (of_char c :: nat) in
      if 65 \<le> n \<and> n \<le> 90 then of_nat (n - 65)
      else if 97 \<le> n \<and> n \<le> 122 then of_nat (n - 97 + 26)
      else if 48 \<le> n \<and> n \<le> 57 then of_nat (n - 48 + 52)
      else if c = CHR ''+'' then 62
      else 63)"

definition isBase64 :: "char \<Rightarrow> bool" where
  "isBase64 c =
     (let n = (of_char c :: nat) in
      (65 \<le> n \<and> n \<le> 90) \<or> (97 \<le> n \<and> n \<le> 122) \<or> (48 \<le> n \<and> n \<le> 57) \<or>
      c = CHR ''+'' \<or> c = CHR ''/'' \<or> c = CHR ''='')"

text \<open>
  The four 6-bit groups of three bytes (\<open>by4\<close> to \<open>by7\<close> in \<open>encode\<close>) and the three
  bytes of four groups (the arguments of \<open>push_back\<close> in \<open>decode\<close>).
\<close>

definition sext4 :: "byte \<Rightarrow> byte" where
  "sext4 by1 = drop_bit 2 by1"

definition sext5 :: "byte \<Rightarrow> byte \<Rightarrow> byte" where
  "sext5 by1 by2 = push_bit 4 (by1 AND 0x3) OR drop_bit 4 by2"

definition sext6 :: "byte \<Rightarrow> byte \<Rightarrow> byte" where
  "sext6 by2 by3 = push_bit 2 (by2 AND 0xf) OR drop_bit 6 by3"

definition sext7 :: "byte \<Rightarrow> byte" where
  "sext7 by3 = by3 AND 0x3f"

definition octet1 :: "byte \<Rightarrow> byte \<Rightarrow> byte" where
  "octet1 by1 by2 = push_bit 2 by1 OR drop_bit 4 by2"

definition octet2 :: "byte \<Rightarrow> byte \<Rightarrow> byte" where
  "octet2 by2 by3 = push_bit 4 (by2 AND 0xf) OR drop_bit 2 by3"

definition octet3 :: "byte \<Rightarrow> byte \<Rightarrow> byte" where
  "octet3 by3 by4 = push_bit 6 (by3 AND 0x3) OR by4"

text \<open>One round of the encoding loop consumes up to three bytes.\<close>

fun encodeLoop :: "byte list \<Rightarrow> string" where
  "encodeLoop [] = []"
| "encodeLoop (by1 # rest) =
     (let by2 = (if 1 \<le> length rest then rest ! 0 else 0);
          by3 = (if 2 \<le> length rest then rest ! 1 else 0)
      in [b64_encodeChar (sext4 by1), b64_encodeChar (sext5 by1 by2),
          if 1 \<le> length rest then b64_encodeChar (sext6 by2 by3) else CHR ''='',
          if 2 \<le> length rest then b64_encodeChar (sext7 by3) else CHR ''=''] @ encodeLoop (drop 2 rest))"

text \<open>Lines of 76 characters, separated by a carriage return and a newline.\<close>

function breakLines :: "string \<Rightarrow> string" where
  "breakLines s =
     (if length s > 76 then take 76 s @ [CHR 0x0D, CHR 0x0A] @ breakLines (drop 76 s) else s)"
  by pat_completeness auto
termination
  by (relation "measure length") auto

declare breakLines.simps [simp del]

definition b64_encode :: "byte list \<Rightarrow> string" where
  "b64_encode plainSeq = (if plainSeq = [] then [] else breakLines (encodeLoop plainSeq))"

text \<open>One round of the decoding loop consumes up to four characters; missing ones are \<open>'A'\<close>.\<close>

fun decodeLoop :: "string \<Rightarrow> byte list" where
  "decodeLoop [] = []"
| "decodeLoop (c1 # rest) =
     (let c2 = (if 1 \<le> length rest then rest ! 0 else CHR ''A'');
          c3 = (if 2 \<le> length rest then rest ! 1 else CHR ''A'');
          c4 = (if 3 \<le> length rest then rest ! 2 else CHR ''A'');
          by1 = b64_decodeChar c1; by2 = b64_decodeChar c2;
          by3 = b64_decodeChar c3; by4 = b64_decodeChar c4
      in [octet1 by1 by2]
         @ (if c3 \<noteq> CHR ''='' then [octet2 by2 by3] else [])
         @ (if c4 \<noteq> CHR ''='' then [octet3 by3 by4] else [])
         @ decodeLoop (drop 3 rest))"

definition b64_decode :: "string \<Rightarrow> byte list" where
  "b64_decode str = decodeLoop (filter isBase64 str)"

section \<open>Single characters\<close>

lemma b64_encodeChar_value:
  assumes "uc < (64 :: byte)"
  shows "(of_char (b64_encodeChar uc) :: nat) =
    (let k = unat uc in
     if k < 26 then 65 + k else if k < 52 then 71 + k else if k < 62 then k - 4
     else if k = 62 then 43 else 47)"
proof -
  have k: "unat uc < 64" using assms by (simp add: word_less_nat_alt)
  have sub: "unat (uc - 26) = unat uc - 26" if "26 \<le> unat uc"
    using that by (simp add: unat_sub word_le_nat_alt)
  have sub': "unat (uc - 52) = unat uc - 52" if "52 \<le> unat uc"
    using that by (simp add: unat_sub word_le_nat_alt)
  have eq: "uc = 62 \<longleftrightarrow> unat uc = 62" by (simp add: word_unat_eq_iff)
  show ?thesis
    using k by (auto simp: b64_encodeChar_def Let_def word_less_nat_alt sub sub' eq)
qed

lemma b64_encodeChar_cases:
  assumes "uc < (64 :: byte)"
  shows b64_decode_encodeChar: "b64_decodeChar (b64_encodeChar uc) = uc"
    and isBase64_encodeChar: "isBase64 (b64_encodeChar uc)"
    and encodeChar_not_pad: "b64_encodeChar uc \<noteq> CHR ''=''"
proof -
  note v = b64_encodeChar_value [OF assms]
  have k: "unat uc < 64" using assms by (simp add: word_less_nat_alt)
  have c: "b64_encodeChar uc = d \<longleftrightarrow> (of_char (b64_encodeChar uc) :: nat) = of_char d" for d
    by simp
  have w: "of_nat m = uc" if "m = unat uc" for m using that by simp
  show "b64_decodeChar (b64_encodeChar uc) = uc"
    using k by (auto simp: b64_decodeChar_def Let_def v c w word_unat_eq_iff split: if_splits)
  show "isBase64 (b64_encodeChar uc)"
    using k by (auto simp: isBase64_def Let_def v c)
  show "b64_encodeChar uc \<noteq> CHR ''=''"
    using k by (auto simp: Let_def v c)
qed


section \<open>Bits\<close>

lemma byte_masks: "(0x3 :: byte) = mask 2" "(0xf :: byte) = mask 4" "(0x3f :: byte) = mask 6"
  by (simp_all add: mask_eq_exp_minus_1)

lemma less64I: "x AND mask 6 = x \<Longrightarrow> x < (64 :: byte)"
  using word_and_le1 [of x "mask 6 :: byte"]
  by (simp add: and.commute mask_eq_exp_minus_1 word_le_nat_alt word_less_nat_alt)

lemma byte_eqI:
  fixes x y :: byte
  assumes "bit x 0 = bit y 0" "bit x 1 = bit y 1" "bit x 2 = bit y 2" "bit x 3 = bit y 3"
    "bit x 4 = bit y 4" "bit x 5 = bit y 5" "bit x 6 = bit y 6" "bit x 7 = bit y 7"
  shows "x = y"
proof (rule bit_word_eqI)
  fix n :: nat
  assume "n < LENGTH(8)"
  then have "n \<in> {0, 1, 2, 3, 4, 5, 6, 7}" by auto
  then show "bit x n = bit y n" using assms by auto
qed

lemma bit_byte_high: "8 \<le> n \<Longrightarrow> \<not> bit (b :: byte) n"
  by (auto dest: bit_imp_le_length)

lemma sextets: "sext4 b1 < 64" "sext5 b1 b2 < 64" "sext6 b2 b3 < 64" "sext7 b3 < 64"
  by (rule less64I byte_eqI;
      simp add: sext4_def sext5_def sext6_def sext7_def byte_masks bit_simps bit_byte_high)+

lemma octets:
  "octet1 (sext4 b1) (sext5 b1 b2) = b1"
  "octet2 (sext5 b1 b2) (sext6 b2 b3) = b2"
  "octet3 (sext6 b2 b3) (sext7 b3) = b3"
  by (rule byte_eqI; simp add: octet1_def octet2_def octet3_def sext4_def sext5_def sext6_def sext7_def
      byte_masks bit_simps bit_byte_high)+

lemmas sextet_chars = sextets [THEN b64_decode_encodeChar] sextets [THEN isBase64_encodeChar]
  sextets [THEN encodeChar_not_pad]

section \<open>Round trip\<close>

lemma decodeLoop_encodeLoop: "decodeLoop (encodeLoop bs) = bs"
proof (induction bs rule: encodeLoop.induct)
  case 1
  then show ?case by simp
next
  case (2 b1 rest)
  then have IH: "decodeLoop (encodeLoop (drop 2 rest)) = drop 2 rest" by simp
  consider "rest = []" | b2 where "rest = [b2]" | b2 b3 r where "rest = b2 # b3 # r"
    by (metis list.exhaust)
  then show ?case
    by cases (use IH in \<open>simp_all add: sextet_chars octets\<close>)
qed

lemma encodeLoop_alphabet: "\<forall>c \<in> set (encodeLoop bs). isBase64 c"
proof (induction bs rule: encodeLoop.induct)
  case 1
  then show ?case by simp
next
  case (2 b1 rest)
  have "isBase64 (CHR ''='')" by (simp add: isBase64_def)
  with 2 show ?case by (auto simp: Let_def sextet_chars)
qed

lemma filter_breakLines: "filter isBase64 (breakLines s) = filter isBase64 s"
proof (induction s rule: breakLines.induct)
  case (1 s)
  have crlf: "\<not> isBase64 (CHR 0x0D)" "\<not> isBase64 (CHR 0x0A)" by (simp_all add: isBase64_def)
  show ?case
  proof (cases "length s > 76")
    case True
    then have "filter isBase64 (breakLines s) = filter isBase64 (take 76 s @ drop 76 s)"
      using 1 crlf by (subst breakLines.simps) (simp only: filter_append filter.simps if_False simp_thms if_True append_Cons append_Nil)
    then show ?thesis by simp
  next
    case False
    then show ?thesis by (simp add: breakLines.simps [of s])
  qed
qed

text \<open>Decoding the Base64 text of any byte sequence gives the sequence back.\<close>

lemma base64_roundtrip: "b64_decode (b64_encode bs) = bs"
  using encodeLoop_alphabet [of bs]
  by (simp add: b64_decode_def b64_encode_def filter_breakLines decodeLoop_encodeLoop)

end
