(* ===== verification/StdMap.thy ===== *)
theory StdMap imports Ice_Prelude "HOL-Library.Char_ord" "HOL-Library.List_Lexorder" "HOL-Library.Product_Lexorder" begin

text \<open>
  \<open>std::map\<close> as the sources use it: an association list in key order, with iterators.  An
  iterator is the key of the node it points to, or \<open>None\<close> for \<open>end()\<close>; it stays valid until
  its node is erased.
\<close>

section \<open>Model\<close>

type_synonym ('k, 'v) smap = "('k \<times> 'v) list"

fun sm_find :: "'k::linorder \<Rightarrow> ('k, 'v) smap \<Rightarrow> 'v option" where
  "sm_find k [] = None"
| "sm_find k ((k', v) # m) = (if k = k' then Some v else sm_find k m)"

text \<open>\<open>insert\<close> does nothing when the key is there.\<close>

fun sm_insert :: "'k::linorder \<Rightarrow> 'v \<Rightarrow> ('k, 'v) smap \<Rightarrow> ('k, 'v) smap" where
  "sm_insert k v [] = [(k, v)]"
| "sm_insert k v ((k', v') # m) =
     (if k < k' then (k, v) # (k', v') # m
      else if k = k' then (k', v') # m
      else (k', v') # sm_insert k v m)"

text \<open>Assignment through an iterator or through \<open>operator[]\<close> of a present key.\<close>

fun sm_update :: "'k::linorder \<Rightarrow> 'v \<Rightarrow> ('k, 'v) smap \<Rightarrow> ('k, 'v) smap" where
  "sm_update k v [] = []"
| "sm_update k v ((k', v') # m) = (if k = k' then (k', v) # m else (k', v') # sm_update k v m)"

definition sm_erase :: "'k::linorder \<Rightarrow> ('k, 'v) smap \<Rightarrow> ('k, 'v) smap" where
  "sm_erase k m = filter (\<lambda>(k', v). k' \<noteq> k) m"

text \<open>The iterator after the node of \<open>k\<close>.\<close>

fun sm_next :: "'k::linorder \<Rightarrow> ('k, 'v) smap \<Rightarrow> 'k option" where
  "sm_next k [] = None"
| "sm_next k ((k', v) # m) = (if k < k' then Some k' else sm_next k m)"

definition sm_ok :: "('k::linorder, 'v) smap \<Rightarrow> bool" where
  "sm_ok m \<longleftrightarrow> sorted_wrt (<) (map fst m)"

definition iter_ok :: "('k::linorder, 'v) smap \<Rightarrow> 'k option \<Rightarrow> bool" where
  "iter_ok m it = (case it of None \<Rightarrow> True | Some k \<Rightarrow> sm_find k m \<noteq> None)"

section \<open>Laws\<close>

lemma sm_ok_simps [simp]: "sm_ok []" "sm_ok ((k, v) # m) \<longleftrightarrow> (\<forall>x \<in> fst ` set m. k < x) \<and> sm_ok m"
  by (auto simp: sm_ok_def)

lemma sm_find_map_of: "sm_find k m = map_of m k"
  by (induction k m rule: sm_find.induct) auto

lemma fst_sm_insert: "fst ` set (sm_insert k v m) = insert k (fst ` set m)"
  by (induction k v m rule: sm_insert.induct) auto

lemma fst_sm_update [simp]: "fst ` set (sm_update k v m) = fst ` set m"
  by (induction k v m rule: sm_update.induct) auto

lemma sm_insert_ok [simp]: "sm_ok m \<Longrightarrow> sm_ok (sm_insert k v m)"
  by (induction k v m rule: sm_insert.induct) (auto simp: fst_sm_insert)

lemma sm_update_ok [simp]: "sm_ok m \<Longrightarrow> sm_ok (sm_update k v m)"
  by (induction k v m rule: sm_update.induct) auto

lemma sm_erase_ok [simp]: "sm_ok m \<Longrightarrow> sm_ok (sm_erase k m)"
  by (induction m) (auto simp: sm_erase_def)

lemma sm_find_insert [simp]:
  "sm_find k (sm_insert k' v m) = (if k = k' \<and> sm_find k m = None then Some v else sm_find k m)" if "sm_ok m"
  using that
proof (induction k' v m rule: sm_insert.induct)
  case (1 k v)
  then show ?case by simp
next
  case (2 k1 v k' v' m)
  have "sm_find k1 m = None" if "k1 < k'"
  proof -
    have "k1 \<notin> fst ` set m" using "2.prems" that by force
    then show ?thesis by (simp add: sm_find_map_of map_of_eq_None_iff)
  qed
  then show ?case using 2 by auto
qed

lemma sm_find_update [simp]: "sm_find k (sm_update k' v m) = (if k = k' \<and> sm_find k m \<noteq> None then Some v else sm_find k m)"
  by (induction k' v m rule: sm_update.induct) auto

lemma sm_find_erase [simp]: "sm_find k (sm_erase k' m) = (if k = k' then None else sm_find k m)"
  by (induction m) (auto simp: sm_erase_def)

lemma sm_find_None: "sm_find k m = None \<longleftrightarrow> k \<notin> fst ` set m"
  by (simp add: sm_find_map_of map_of_eq_None_iff)

lemma sm_next_greater: "sm_next k m = Some k' \<Longrightarrow> k < k' \<and> sm_find k' m \<noteq> None"
  by (induction k m rule: sm_next.induct) (auto split: if_splits)

lemma iter_ok_end [simp]: "iter_ok m None"
  by (simp add: iter_ok_def)

lemma iter_ok_next: "iter_ok (sm_erase k m) (sm_next k m)"
  using sm_next_greater [of k m] by (cases "sm_next k m") (auto simp: iter_ok_def)

lemma iter_ok_insert: "sm_ok m \<Longrightarrow> iter_ok m it \<Longrightarrow> iter_ok (sm_insert k v m) it"
  by (auto simp: iter_ok_def split: option.splits)

lemma iter_ok_update: "iter_ok m it \<Longrightarrow> iter_ok (sm_update k v m) it"
  by (auto simp: iter_ok_def split: option.splits)

lemma iter_ok_erase: "iter_ok m it \<Longrightarrow> it \<noteq> Some k \<Longrightarrow> iter_ok (sm_erase k m) it"
  by (auto simp: iter_ok_def split: option.splits)

section \<open>The map as an interface\<close>

text \<open>What the users of a map rely on, independent of the representation.\<close>

locale assoc_map =
  fixes ok :: "'m \<Rightarrow> bool"
    and lookup :: "'k \<Rightarrow> 'm \<Rightarrow> 'v option"
    and ins :: "'k \<Rightarrow> 'v \<Rightarrow> 'm \<Rightarrow> 'm"
    and del :: "'k \<Rightarrow> 'm \<Rightarrow> 'm"
  assumes ins_ok: "ok m \<Longrightarrow> ok (ins k v m)"
    and del_ok: "ok m \<Longrightarrow> ok (del k m)"
    and lookup_ins: "ok m \<Longrightarrow> lookup k' m = None \<Longrightarrow> lookup k (ins k' v m) = (if k = k' then Some v else lookup k m)"
    and ins_present: "ok m \<Longrightarrow> lookup k m = Some v' \<Longrightarrow> lookup k'' (ins k v m) = lookup k'' m"
    and lookup_del: "ok m \<Longrightarrow> lookup k (del k' m) = (if k = k' then None else lookup k m)"
begin

text \<open>Reading a list of pairs into a map keeps the first value of every key.\<close>

lemma fold_insert_first:
  assumes "ok m"
  shows "lookup k (fold (\<lambda>(k, v). ins k v) kvs m) =
    (case lookup k m of Some v \<Rightarrow> Some v | None \<Rightarrow> map_of kvs k)"
  using assms
proof (induction kvs arbitrary: m)
  case Nil
  then show ?case by (cases "lookup k m") auto
next
  case (Cons kv kvs)
  obtain k' v where kv: "kv = (k', v)" by (cases kv)
  show ?case
  proof (cases "lookup k' m")
    case None
    then show ?thesis using Cons kv ins_ok lookup_ins [of m k' k v] by (auto split: option.splits)
  next
    case (Some v')
    then show ?thesis using Cons kv ins_ok ins_present [of m k' v' k v] by (auto split: option.splits)
  qed
qed

lemma fold_insert_ok: "ok m \<Longrightarrow> ok (fold (\<lambda>(k, v). ins k v) kvs m)"
  by (induction kvs arbitrary: m) (auto simp: ins_ok)

end

interpretation std_map: assoc_map sm_ok sm_find sm_insert sm_erase
  by unfold_locales auto

end
