(* ===== verification/LocalException.thy ===== *)
theory LocalException
  imports Ice_Prelude
begin

text \<open>
  The exceptions of the run time, as \<^verbatim>\<open>src/Ice-3.1.1/slice/Ice/LocalException.ice\<close> names them,
  and the other ways a C++ function fails to return: an \<open>assert\<close> that does not hold and an
  access outside the memory the code owns.
\<close>

datatype local_exception =
    UnmarshalOutOfBoundsException
  | MemoryLimitException
  | NegativeSizeException
  | MarshalException
  | EncapsulationException
  | UnsupportedEncodingException byte byte      \<comment> \<open>\<open>badMajor\<close>, \<open>badMinor\<close>\<close>
  | UnsupportedProtocolException byte byte
  | BadMagicException "byte list"
  | IllegalMessageSizeException
  | UnknownMessageException
  | UnknownRequestIdException
  | UnknownReplyStatusException
  | ConnectionNotValidatedException
  | CompressionException
  | ConnectionLostException
  | CloseConnectionException
  | ForcedCloseConnectionException
  | ConnectionTimeoutException
  | ConnectTimeoutException
  | CloseTimeoutException
  | TimeoutException
  | ObjectAdapterDeactivatedException string    \<comment> \<open>\<open>name\<close>\<close>
  | CommunicatorDestroyedException
  | SocketException
  | SyscallExn
  | DatagramLimitException
  | NoObjectFactoryException string string      \<comment> \<open>\<open>reason\<close>, \<open>type\<close>\<close>
  | FileException string                        \<comment> \<open>\<open>path\<close>\<close>
  | AlreadyRegisteredException string string    \<comment> \<open>\<open>kindOfObject\<close>, \<open>id\<close>\<close>
  | NotRegisteredException string string
  | IllegalServantException string              \<comment> \<open>\<open>reason\<close>\<close>
  | InitializationException string
  | IllegalIdentityException string string      \<comment> \<open>\<open>id\<close>: name and category\<close>
  | EndpointParseException string               \<comment> \<open>\<open>str\<close>\<close>
  | ObjectAdapterIdInUseException string        \<comment> \<open>\<open>id\<close>\<close>

datatype failure =
    Thrown local_exception
  | AssertionFailed
  | MemoryFault                 \<comment> \<open>a read or a write outside the object\<close>
  | ThreadLockedException       \<comment> \<open>a thread locks a mutex it holds; not a \<open>LocalException\<close>\<close>
  | NullHandleException         \<comment> \<open>a null \<open>Handle\<close> is dereferenced; not a \<open>LocalException\<close> either\<close>

abbreviation throw :: "local_exception \<Rightarrow> failure + 'a" where
  "throw e \<equiv> Inl (Thrown e)"

end
