(* ===== verification/Buffer.thy ===== *)
theory Buffer
  imports LocalException
begin

text \<open>
  The byte container behind every message,
  \<^verbatim>\<open>src/Ice-3.1.1/include/Ice/Buffer.h\<close> and \<^verbatim>\<open>src/Ice-3.1.1/src/Ice/Buffer.cpp\<close>, built with
  \<open>ICE_SMALL_MESSAGE_BUFFER_OPTIMIZATION\<close>: up to 64 bytes live in the object itself, larger
  contents on the heap.  The model keeps the two memory regions; a region is a list of bytes.
  The allocator is a parameter: \<open>alloc k\<close> is \<open>None\<close> when the request for \<open>k\<close> bytes
  fails, and otherwise gives the indeterminate byte at each offset of the new region.  When it fails, the container
  is left with a null pointer, and nobody uses it again.
\<close>

section \<open>Model\<close>

record container =
  c_fixed :: "byte list"          \<comment> \<open>\<open>_fixed\<close>, 64 bytes\<close>
  c_heap :: "byte list option"    \<comment> \<open>the region \<open>_buf\<close> points to, when it is not \<open>_fixed\<close>\<close>
  c_size :: nat
  c_capacity :: nat
  c_shrinkCounter :: int

type_synonym allocator = "nat \<Rightarrow> (nat \<Rightarrow> byte) option"

definition fixedSize :: nat where "fixedSize = 64"

definition c_buf :: "container \<Rightarrow> byte list" where
  "c_buf c = (case c_heap c of None \<Rightarrow> c_fixed c | Some h \<Rightarrow> h)"

text \<open>The constructor leaves \<open>_shrinkCounter\<close> and the bytes of \<open>_fixed\<close> uninitialised.\<close>

definition c_new :: "byte list \<Rightarrow> int \<Rightarrow> container" where
  "c_new junk counter =
     \<lparr>c_fixed = junk, c_heap = None, c_size = 0, c_capacity = fixedSize, c_shrinkCounter = counter\<rparr>"

definition c_clear :: "container \<Rightarrow> container" where
  "c_clear c = c\<lparr>c_heap := None, c_size := 0, c_capacity := fixedSize\<rparr>"

text \<open>
  \<open>reserve\<close> looks at what \<open>malloc\<close> returned only after it has copied the inline bytes to it, so that a failure is an
  access through a null pointer when there are any.
\<close>

definition c_reserve :: "allocator \<Rightarrow> nat \<Rightarrow> container \<Rightarrow> failure + container" where
  "c_reserve alloc n c =
     (if n = c_capacity c then Inr c
      else let cap = (if n > c_capacity c then max 240 (max n (2 * c_capacity c)) else n);
               c' = c\<lparr>c_capacity := cap\<rparr>
           in case c_heap c of
                Some h \<Rightarrow>
                  (case alloc cap of
                     None \<Rightarrow> throw SyscallExn
                   | Some new \<Rightarrow> Inr (c'\<lparr>c_heap := Some (take cap h @ drop (length h) (map new [0..<cap]))\<rparr>))
              | None \<Rightarrow>
                  if cap > fixedSize then
                    (case alloc cap of
                       None \<Rightarrow> if c_size c > 0 then Inl MemoryFault else throw SyscallExn
                     | Some new \<Rightarrow> Inr (c'\<lparr>c_heap := Some (take (c_size c) (c_fixed c) @ drop (c_size c) (map new [0..<cap]))\<rparr>))
                  else Inr c')"

definition c_resize :: "allocator \<Rightarrow> nat \<Rightarrow> container \<Rightarrow> failure + container" where
  "c_resize alloc n c =
     andThen (if n = 0 then Inr (c_clear c)
              else if n > c_capacity c then c_reserve alloc n c else Inr c)
       (\<lambda>c'. Inr (c'\<lparr>c_size := n\<rparr>))"

definition c_reset :: "allocator \<Rightarrow> container \<Rightarrow> failure + container" where
  "c_reset alloc c =
     andThen
       (if c_size c > 0 \<and> c_size c * 2 < c_capacity c then
          let c' = c\<lparr>c_shrinkCounter := c_shrinkCounter c + 1\<rparr>
          in if c_shrinkCounter c' > 2
             then andThen (c_reserve alloc (c_size c) c') (\<lambda>c''. Inr (c''\<lparr>c_shrinkCounter := 0\<rparr>))
             else Inr c'
        else Inr (c\<lparr>c_shrinkCounter := 0\<rparr>))
       (\<lambda>c'. Inr (c'\<lparr>c_size := 0\<rparr>))"

text \<open>Storing bytes at an offset of the buffer (\<open>operator[]\<close> and \<open>memcpy(&b[pos], ...)\<close>).\<close>

definition overwrite :: "nat \<Rightarrow> 'a list \<Rightarrow> 'a list \<Rightarrow> 'a list" where
  "overwrite pos new old = take pos old @ new @ drop (pos + length new) old"

definition c_store :: "nat \<Rightarrow> byte list \<Rightarrow> container \<Rightarrow> container" where
  "c_store pos bs c =
     (case c_heap c of
        None \<Rightarrow> c\<lparr>c_fixed := overwrite pos bs (c_fixed c)\<rparr>
      | Some h \<Rightarrow> c\<lparr>c_heap := Some (overwrite pos bs h)\<rparr>)"

definition c_push_back :: "allocator \<Rightarrow> byte \<Rightarrow> container \<Rightarrow> failure + container" where
  "c_push_back alloc v c =
     andThen (c_resize alloc (c_size c + 1) c) (\<lambda>c'. Inr (c_store (c_size c' - 1) [v] c'))"

definition c_swap :: "container \<Rightarrow> container \<Rightarrow> container \<times> container" where
  "c_swap c d =
     (let (cf, ch, df, dh) =
        (case c_heap c of
           None \<Rightarrow>
             (case c_heap d of
                None \<Rightarrow> (overwrite 0 (take (c_size d) (c_fixed d)) (c_fixed c), None,
                         overwrite 0 (take (c_size c) (c_fixed c)) (c_fixed d), None)
              | Some h \<Rightarrow> (c_fixed c, Some h, overwrite 0 (take (c_size c) (c_fixed c)) (c_fixed d), None))
         | Some k \<Rightarrow>
             (case c_heap d of
                None \<Rightarrow> (overwrite 0 (take (c_size d) (c_fixed d)) (c_fixed c), None, c_fixed d, Some k)
              | Some h \<Rightarrow> (c_fixed c, Some h, c_fixed d, Some k)))
      in (\<lparr>c_fixed = cf, c_heap = ch, c_size = c_size d, c_capacity = c_capacity d,
           c_shrinkCounter = c_shrinkCounter d\<rparr>,
          \<lparr>c_fixed = df, c_heap = dh, c_size = c_size c, c_capacity = c_capacity c,
           c_shrinkCounter = c_shrinkCounter c\<rparr>))"

text \<open>\<open>Buffer\<close>: a container and the iterator \<open>i\<close>, kept as an offset; \<open>Buffer::swap\<close>.\<close>

record buffer =
  bf_b :: container
  bf_i :: int

definition bf_swap :: "buffer \<Rightarrow> buffer \<Rightarrow> buffer \<times> buffer" where
  "bf_swap x y =
     (let pos = bf_i x; otherPos = bf_i y; (c, d) = c_swap (bf_b x) (bf_b y)
      in (\<lparr>bf_b = c, bf_i = otherPos\<rparr>, \<lparr>bf_b = d, bf_i = pos\<rparr>))"

section \<open>Invariant and abstraction\<close>

definition container_ok :: "container \<Rightarrow> bool" where
  "container_ok c \<longleftrightarrow>
     length (c_fixed c) = fixedSize \<and> c_size c \<le> c_capacity c \<and>
     (case c_heap c of None \<Rightarrow> c_capacity c \<le> fixedSize | Some h \<Rightarrow> length h = c_capacity c)"

definition contents :: "container \<Rightarrow> byte list" where
  "contents c = take (c_size c) (c_buf c)"

lemma length_overwrite [simp]:
  "pos + length new \<le> length old \<Longrightarrow> length (overwrite pos new old) = length old"
  by (simp add: overwrite_def)

lemma take_overwrite:
  assumes "pos + length bs \<le> n" and "n \<le> length xs"
  shows "take n (overwrite pos bs xs) = overwrite pos bs (take n xs)"
proof -
  have "min n pos = pos" "min n (length xs) = n" using assms by auto
  then show ?thesis using assms by (simp add: overwrite_def drop_take min.commute)
qed

lemma c_new_ok: "length junk = fixedSize \<Longrightarrow> container_ok (c_new junk k) \<and> contents (c_new junk k) = []"
  by (simp add: container_ok_def c_new_def contents_def)

lemma contents_length: "container_ok c \<Longrightarrow> length (contents c) = c_size c"
  by (auto simp: container_ok_def contents_def c_buf_def split: option.splits)

lemma c_clear_ok: "container_ok c \<Longrightarrow> container_ok (c_clear c) \<and> contents (c_clear c) = []"
  by (simp add: container_ok_def c_clear_def contents_def)

lemma c_reserve_ok:
  assumes "container_ok c" and "c_reserve alloc n c = Inr c'" and "c_size c \<le> n"
  shows "container_ok c' \<and> contents c' = contents c \<and> n \<le> c_capacity c'"
  using assms
  by (auto simp: c_reserve_def Let_def container_ok_def contents_def c_buf_def fixedSize_def
      split: option.splits if_splits)


lemma contents_shrink: "container_ok c \<Longrightarrow> n \<le> c_size c \<Longrightarrow> contents (c\<lparr>c_size := n\<rparr>) = take n (contents c)"
  by (auto simp: contents_def c_buf_def min_def split: option.splits)

lemma contents_grow:
  assumes "container_ok c" and "c_size c \<le> n" and "n \<le> c_capacity c"
  shows "container_ok (c\<lparr>c_size := n\<rparr>) \<and> take (c_size c) (contents (c\<lparr>c_size := n\<rparr>)) = contents c"
  using assms by (auto simp: container_ok_def contents_def c_buf_def min_def split: option.splits)

lemma c_resize_ok:
  assumes "container_ok c" and "c_resize alloc n c = Inr c'"
  shows "container_ok c'" and "c_size c' = n"
    and "take (min n (c_size c)) (contents c') = take (min n (c_size c)) (contents c)"
proof -
  show size: "c_size c' = n"
    using assms(2) by (auto simp: c_resize_def result_simps)
  consider (zero) "n = 0" | (keep) "0 < n" "n \<le> c_capacity c" | (grow) "c_capacity c < n" by linarith
  then have "container_ok c' \<and> take (min n (c_size c)) (contents c') = take (min n (c_size c)) (contents c)"
  proof cases
    case zero
    then show ?thesis
      using assms c_clear_ok [of c] by (auto simp: c_resize_def container_ok_def c_clear_def)
  next
    case keep
    then have c': "c' = c\<lparr>c_size := n\<rparr>" using assms(2) by (simp add: c_resize_def)
    show ?thesis
    proof (cases "n \<le> c_size c")
      case True
      then show ?thesis
        using assms(1) c' contents_shrink [of c n] by (auto simp: container_ok_def split: option.splits)
    next
      case False
      then show ?thesis
        using assms(1) c' keep contents_grow [of c n] contents_length [of c] by (simp add: min_def)
    qed
  next
    case grow
    have le: "c_size c \<le> n" using assms(1) grow by (simp add: container_ok_def)
    obtain d where d: "c_reserve alloc n c = Inr d" and c': "c' = d\<lparr>c_size := n\<rparr>"
      using assms(2) grow by (auto simp: c_resize_def result_simps)
    have res: "container_ok d" "contents d = contents c" "n \<le> c_capacity d"
      using c_reserve_ok [OF assms(1) d le] by auto
    have sz: "c_size d = c_size c"
      using contents_length res(1,2) assms(1) by metis
    show ?thesis
      using contents_grow [OF res(1), of n] res c' le sz contents_length [OF assms(1)]
      by (simp add: min.absorb2)
  qed
  then show "container_ok c'"
    and "take (min n (c_size c)) (contents c') = take (min n (c_size c)) (contents c)" by auto
qed

lemma c_store_ok:
  assumes "container_ok c" and "pos + length bs \<le> c_size c"
  shows "container_ok (c_store pos bs c) \<and> c_size (c_store pos bs c) = c_size c \<and>
    contents (c_store pos bs c) = overwrite pos bs (contents c)"
  using assms
  by (auto simp: container_ok_def c_store_def contents_def c_buf_def take_overwrite split: option.splits)

lemma c_swap_ok:
  assumes "container_ok c" and "container_ok d" and "c_swap c d = (c', d')"
  shows "container_ok c'" "container_ok d'" "contents c' = contents d" "contents d' = contents c"
  using assms
  by (auto simp: c_swap_def container_ok_def contents_def c_buf_def overwrite_def split: option.splits)

lemma c_reset_ok:
  assumes "container_ok c" and "c_reset alloc c = Inr c'"
  shows "container_ok c' \<and> contents c' = []"
proof -
  have ok: "container_ok (c\<lparr>c_shrinkCounter := k\<rparr>)" for k
    using assms(1) by (simp add: container_ok_def split: option.splits)
  have zero: "container_ok (d\<lparr>c_size := 0\<rparr>) \<and> contents (d\<lparr>c_size := 0\<rparr>) = []" if "container_ok d" for d
    using that by (auto simp: container_ok_def contents_def split: option.splits)
  have res: "container_ok (d\<lparr>c_shrinkCounter := k\<rparr>)"
    if "c_reserve alloc (c_size c) (c\<lparr>c_shrinkCounter := j\<rparr>) = Inr d" for d j k
    using c_reserve_ok [OF ok that] by (simp add: container_ok_def split: option.splits)
  show ?thesis
    using assms(2) ok res by (auto simp: c_reset_def Let_def result_simps intro!: zero split: if_splits)
qed


section \<open>The container as an interface\<close>

text \<open>
  What \<open>BasicStream\<close> relies on: growing the container keeps the old bytes, storing overwrites
  them in place.  The stream idiom \<^verbatim>\<open>pos = b.size(); b.resize(pos + n); memcpy(&b[pos], v, n)\<close>
  is then an append, whatever the new bytes were before the copy.
\<close>

locale byte_container =
  fixes ok :: "'c \<Rightarrow> bool"
    and bytes :: "'c \<Rightarrow> byte list"
    and resize :: "nat \<Rightarrow> 'c \<Rightarrow> 'e + 'c"
    and store :: "nat \<Rightarrow> byte list \<Rightarrow> 'c \<Rightarrow> 'c"
  assumes resize_ok: "ok c \<Longrightarrow> resize n c = Inr c' \<Longrightarrow> ok c'"
    and resize_length: "ok c \<Longrightarrow> resize n c = Inr c' \<Longrightarrow> length (bytes c') = n"
    and resize_keeps: "ok c \<Longrightarrow> resize n c = Inr c' \<Longrightarrow> length (bytes c) \<le> n
          \<Longrightarrow> take (length (bytes c)) (bytes c') = bytes c"
    and store_ok: "ok c \<Longrightarrow> pos + length bs \<le> length (bytes c) \<Longrightarrow> ok (store pos bs c)"
    and store_bytes: "ok c \<Longrightarrow> pos + length bs \<le> length (bytes c)
          \<Longrightarrow> bytes (store pos bs c) = overwrite pos bs (bytes c)"
begin

lemma append_idiom:
  assumes "ok c" and "resize (length (bytes c) + length bs) c = Inr c'"
  shows "ok (store (length (bytes c)) bs c') \<and> bytes (store (length (bytes c)) bs c') = bytes c @ bs"
proof -
  have len: "length (bytes c') = length (bytes c) + length bs"
    using assms by (rule resize_length)
  have keep: "take (length (bytes c)) (bytes c') = bytes c"
    using assms by (rule resize_keeps) simp
  show ?thesis
    using store_ok [of c' "length (bytes c)" bs] store_bytes [of c' "length (bytes c)" bs]
      resize_ok [OF assms] len keep by (simp add: overwrite_def)
qed

lemma patch_idiom:
  assumes "ok c" and "bytes c = xs @ old @ ys" and "length new = length old"
  shows "ok (store (length xs) new c) \<and> bytes (store (length xs) new c) = xs @ new @ ys"
  using assms store_ok [of c "length xs" new] store_bytes [of c "length xs" new]
  by (simp add: overwrite_def)

end

interpretation heap_container: byte_container container_ok contents "c_resize alloc" c_store
  for alloc
proof unfold_locales
  fix c c' :: container and n
  assume c: "container_ok c" and r: "c_resize alloc n c = Inr c'"
  note props = c_resize_ok [OF c r]
  show "container_ok c'" by (rule props(1))
  show len: "length (contents c') = n" using contents_length [OF props(1)] props(2) by simp
  show "take (length (contents c)) (contents c') = contents c" if "length (contents c) \<le> n"
    using props(3) that contents_length [OF c] by (simp add: min_def split: if_splits)
next
  fix c :: container and pos and bs :: "byte list"
  assume c: "container_ok c" and le: "pos + length bs \<le> length (contents c)"
  then have "pos + length bs \<le> c_size c" by (simp add: contents_length)
  from c_store_ok [OF c this] show "container_ok (c_store pos bs c)"
    and "contents (c_store pos bs c) = overwrite pos bs (contents c)" by auto
qed

section \<open>Properties\<close>

text \<open>The container operations as a command language; \<open>swap\<close> has a second container.\<close>

datatype container_op = Clear | Resize nat | Reset | PushBack byte | Store nat "byte list" | Swap

fun c_step :: "allocator \<Rightarrow> container_op \<Rightarrow> container \<times> container \<Rightarrow> failure + container \<times> container" where
  "c_step alloc Clear (c, d) = Inr (c_clear c, d)"
| "c_step alloc (Resize n) (c, d) = andThen (c_resize alloc n c) (\<lambda>c'. Inr (c', d))"
| "c_step alloc Reset (c, d) = andThen (c_reset alloc c) (\<lambda>c'. Inr (c', d))"
| "c_step alloc (PushBack v) (c, d) = andThen (c_push_back alloc v c) (\<lambda>c'. Inr (c', d))"
| "c_step alloc (Store pos bs) (c, d) = Inr (c_store pos bs c, d)"
| "c_step alloc Swap (c, d) = Inr (c_swap c d)"

text \<open>The contract: what each operation does to the sequences of bytes.\<close>

fun op_allowed :: "container_op \<Rightarrow> byte list \<Rightarrow> bool" where
  "op_allowed (Store pos bs) xs = (pos + length bs \<le> length xs)"
| "op_allowed _ xs = True"

fun op_spec :: "container_op \<Rightarrow> byte list \<times> byte list \<Rightarrow> byte list \<times> byte list \<Rightarrow> bool" where
  "op_spec Clear (xs, zs) r = (r = ([], zs))"
| "op_spec (Resize n) (xs, zs) (ys, zs') = (length ys = n \<and> take (min n (length xs)) ys = take n xs \<and> zs' = zs)"
| "op_spec Reset (xs, zs) r = (r = ([], zs))"
| "op_spec (PushBack v) (xs, zs) r = (r = (xs @ [v], zs))"
| "op_spec (Store pos bs) (xs, zs) r = (r = (overwrite pos bs xs, zs))"
| "op_spec Swap (xs, zs) r = (r = (zs, xs))"

lemma c_push_back_appends:
  assumes "container_ok c" and "c_push_back alloc v c = Inr c'"
  shows "container_ok c' \<and> contents c' = contents c @ [v]"
proof -
  obtain d where d: "c_resize alloc (c_size c + 1) c = Inr d" and c': "c' = c_store (c_size d - 1) [v] d"
    using assms(2) by (auto simp: c_push_back_def andThen_eq_Inr)
  have "c_size d = c_size c + 1" using c_resize_ok [OF assms(1) d] by simp
  then show ?thesis
    using heap_container.append_idiom [OF assms(1), of alloc "[v]" d] d c' contents_length [OF assms(1)]
    by simp
qed

text \<open>How an operation fails when memory runs out.\<close>

definition out_of_memory :: "allocator \<Rightarrow> container \<Rightarrow> failure \<Rightarrow> bool" where
  "out_of_memory alloc c f \<longleftrightarrow>
     (\<exists>k. alloc k = None) \<and> f = (if c_heap c = None \<and> contents c \<noteq> [] then MemoryFault else Thrown SyscallExn)"

lemma c_reserve_fails: "container_ok c \<Longrightarrow> c_reserve alloc n c = Inl f \<Longrightarrow> out_of_memory alloc c f"
  using contents_length [of c]
  by (auto simp: c_reserve_def out_of_memory_def Let_def split: if_splits option.splits)

lemma c_resize_fails: "container_ok c \<Longrightarrow> c_resize alloc n c = Inl f \<Longrightarrow> out_of_memory alloc c f"
  using c_reserve_fails [of c alloc n f] by (auto simp: c_resize_def andThen_eq_Inl split: if_splits)

lemma c_step_fails:
  assumes "container_ok c" and "c_step alloc op (c, d) = Inl f"
  shows "out_of_memory alloc c f"
proof (cases op)
  case Reset
  let ?c = "c\<lparr>c_shrinkCounter := c_shrinkCounter c + 1\<rparr>"
  have "container_ok ?c" using assms(1) by (simp add: container_ok_def split: option.splits)
  moreover have "contents ?c = contents c" by (simp add: contents_def c_buf_def split: option.split)
  then have "out_of_memory alloc ?c f = out_of_memory alloc c f" by (simp add: out_of_memory_def)
  moreover have "c_reserve alloc (c_size c) ?c = Inl f"
    using Reset assms(2) by (auto simp: c_reset_def Let_def andThen_eq_Inl split: if_splits)
  ultimately show ?thesis using c_reserve_fails [of ?c] by simp
qed (use assms c_resize_fails in \<open>auto simp: c_push_back_def andThen_eq_Inl\<close>)

text \<open>
  C38: every operation of the container, \<open>swap\<close> with another one included, keeps the representation invariant (the
  size fits the capacity, and the capacity is that of the region in use) and does to the stored sequences of bytes what
  its contract says, for any allocator: \<open>resize\<close> keeps the common prefix, \<open>push_back\<close> appends, \<open>memcpy\<close> overwrites,
  \<open>reset\<close> and \<open>clear\<close> empty, \<open>swap\<close> exchanges.  It fails only when an allocation does: with an exception, or, when the
  bytes were inline, by copying them to the null pointer that \<open>malloc\<close> returned.
\<close>

theorem container_refines_sequence:
  assumes "container_ok c" and "container_ok d" and "op_allowed op (contents c)"
  shows "case c_step alloc op (c, d) of
      Inr (c', d') \<Rightarrow> container_ok c' \<and> container_ok d' \<and> op_spec op (contents c, contents d) (contents c', contents d')
    | Inl f \<Rightarrow> (\<exists>k. alloc k = None) \<and> f = (if c_heap c = None \<and> contents c \<noteq> [] then MemoryFault else Thrown SyscallExn)"
proof (cases "c_step alloc op (c, d)")
  case (Inl f)
  then show ?thesis using c_step_fails [OF assms(1) Inl] by (simp add: out_of_memory_def)
next
  case (Inr r)
  obtain c' d' where r: "r = (c', d')" by (cases r)
  have "container_ok c' \<and> container_ok d' \<and> op_spec op (contents c, contents d) (contents c', contents d')"
  proof (cases op)
    case (Resize n)
    with Inr r have s: "c_resize alloc n c = Inr c'" "d' = d" by (auto simp: andThen_eq_Inr)
    from c_resize_ok [OF assms(1) s(1)] s(2) Resize show ?thesis
      using assms(2) contents_length [OF assms(1)] contents_length [of c'] by (simp add: min_def)
  next
    case Swap
    then have "c_swap c d = (c', d')" using Inr r by simp
    from c_swap_ok [OF assms(1,2) this] Swap show ?thesis by simp
  next
    case Clear
    then show ?thesis using Inr r assms(1,2) c_clear_ok [of c] by auto
  next
    case Reset
    then show ?thesis using Inr r assms(1,2) c_reset_ok [of c alloc] by (auto simp: andThen_eq_Inr)
  next
    case (PushBack v)
    then show ?thesis using Inr r assms(1,2) c_push_back_appends [of c alloc v] by (auto simp: andThen_eq_Inr)
  next
    case (Store pos bs)
    then show ?thesis using Inr r assms c_store_ok [of c pos bs] contents_length [OF assms(1)] by auto
  qed
  then show ?thesis using Inr r by simp
qed

theorem container_refines_sequence_witness:
  "let c = (c_new (replicate 64 0) 0)\<lparr>c_size := 64\<rparr>
   in container_ok c \<and> c_step (\<lambda>k. None) (PushBack 7) (c, c) = Inl MemoryFault \<and>
     (case c_step (\<lambda>k. Some (\<lambda>_. 255)) (PushBack 7) (c, c) of
        Inl _ \<Rightarrow> False
      | Inr (c', d') \<Rightarrow> container_ok c' \<and> contents c' = replicate 64 0 @ [7])"
proof -
  let ?c = "(c_new (replicate 64 0) 0)\<lparr>c_size := 64\<rparr>"
  have ok: "container_ok ?c" by (simp add: container_ok_def c_new_def fixedSize_def)
  have c: "contents ?c = replicate 64 0" "c_heap ?c = None" by (simp_all add: contents_def c_buf_def c_new_def)
  have run: "\<exists>r. c_step (\<lambda>k. Some (\<lambda>_. 255)) (PushBack 7) (?c, ?c) = Inr r" "\<exists>f. c_step (\<lambda>k. None) (PushBack 7) (?c, ?c) = Inl f"
    by (simp_all add: c_push_back_def c_resize_def c_reserve_def c_new_def fixedSize_def)
  then show ?thesis
    using container_refines_sequence [OF ok ok, of "PushBack 7" "\<lambda>k. Some (\<lambda>_. 255)"]
      container_refines_sequence [OF ok ok, of "PushBack 7" "\<lambda>k. None"] c ok
    by (auto simp del: c_step.simps split: sum.splits)
qed

text \<open>
  \<open>Buffer::swap\<close> exchanges the contents and the read positions of two buffers in all four
  combinations of inline and heap storage, and both stay well formed.\<close>

theorem buffer_swap_exchanges:
  assumes "container_ok (bf_b x)" and "container_ok (bf_b y)"
  shows "let (x', y') = bf_swap x y
         in container_ok (bf_b x') \<and> container_ok (bf_b y') \<and>
            contents (bf_b x') = contents (bf_b y) \<and> bf_i x' = bf_i y \<and>
            contents (bf_b y') = contents (bf_b x) \<and> bf_i y' = bf_i x"
proof -
  obtain c d where "c_swap (bf_b x) (bf_b y) = (c, d)" by (cases "c_swap (bf_b x) (bf_b y)")
  then show ?thesis using c_swap_ok [OF assms] by (simp add: bf_swap_def)
qed

theorem buffer_swap_exchanges_witness:
  "let x = \<lparr>bf_b = c_store 0 [1, 2] ((c_new (replicate 64 0) 0)\<lparr>c_size := 2\<rparr>), bf_i = 1\<rparr>;
       y = \<lparr>bf_b = \<lparr>c_fixed = replicate 64 9, c_heap = Some (replicate 70 5), c_size = 65,
                    c_capacity = 70, c_shrinkCounter = 0\<rparr>, bf_i = 3\<rparr>;
       (x', y') = bf_swap x y
   in contents (bf_b x') = replicate 65 5 \<and> contents (bf_b y') = [1, 2]"
proof -
  let ?x = "\<lparr>bf_b = c_store 0 [1, 2] ((c_new (replicate 64 0) 0)\<lparr>c_size := 2\<rparr>), bf_i = 1\<rparr>"
  let ?y = "\<lparr>bf_b = \<lparr>c_fixed = replicate 64 9, c_heap = Some (replicate 70 5), c_size = 65,
                    c_capacity = 70, c_shrinkCounter = 0\<rparr>, bf_i = 3\<rparr>"
  have "container_ok (bf_b ?x)" "container_ok (bf_b ?y)"
    by (simp_all add: container_ok_def c_store_def c_new_def fixedSize_def overwrite_def)
  from buffer_swap_exchanges [OF this] show ?thesis
    by (simp add: Let_def split_beta contents_def c_store_def c_new_def overwrite_def c_buf_def)
qed

end
