(* ===== verification/BasicStream.thy ===== *)
theory BasicStream
  imports Buffer LocalException
begin

text \<open>
  The marshaling engine, \<^verbatim>\<open>src/Ice-3.1.1/include/Ice/BasicStream.h\<close> and
  \<^verbatim>\<open>src/Ice-3.1.1/src/Ice/BasicStream.cpp\<close>: bytes, fixed-size types, sizes, blobs, strings and
  their sequences.  The stream's container is the sequence of its bytes (theory \<open>Buffer\<close>
  justifies that reading), the iterator \<open>i\<close> an offset that C++ pointer arithmetic may move
  anywhere.  A write returns the new stream or a failure, a read the value and the new stream.
  The flag \<open>big\<close> is the platform's \<open>ICE_BIG_ENDIAN\<close>; a \<open>Float\<close> or \<open>Double\<close> is its bit
  pattern.
\<close>

section \<open>State\<close>

record read_encaps =
  re_start :: int
  re_sz :: ice_int
  re_typeIdMap :: "(ice_int \<times> string) list option"
  re_typeIdIndex :: ice_int

record write_encaps =
  we_start :: nat
  we_typeIdMap :: "(string \<times> ice_int) list option"
  we_typeIdIndex :: ice_int

record stream =
  buf :: "byte list"                            \<comment> \<open>\<open>b\<close>\<close>
  rpos :: int                                   \<comment> \<open>\<open>i - b.begin()\<close>\<close>
  messageSizeMax :: nat
  readEncapsStack :: "read_encaps list"         \<comment> \<open>\<open>_currentReadEncaps\<close> first\<close>
  writeEncapsStack :: "write_encaps list"
  readSlice :: int
  writeSlice :: nat
  seqDataStack :: "(ice_int \<times> ice_int) list"    \<comment> \<open>\<open>numElements\<close>, \<open>minSize\<close>; innermost first\<close>

type_synonym writer = "stream \<Rightarrow> failure + stream"
type_synonym 'a reader = "stream \<Rightarrow> failure + 'a \<times> stream"

definition stream_new :: "nat \<Rightarrow> stream" where
  "stream_new maxSize =
     \<lparr>buf = [], rpos = 0, messageSizeMax = maxSize, readEncapsStack = [], writeEncapsStack = [],
      readSlice = 0, writeSlice = 0, seqDataStack = []\<rparr>"

definition rret :: "'a \<Rightarrow> 'a reader" where
  "rret x s = Inr (x, s)"

definition rbind :: "'a reader \<Rightarrow> ('a \<Rightarrow> 'b reader) \<Rightarrow> 'b reader" where
  "rbind m f s = andThen (m s) (\<lambda>(x, s'). f x s')"

definition wthen :: "writer \<Rightarrow> writer \<Rightarrow> writer" where
  "wthen v w s = andThen (v s) w"

section \<open>Growing the container and taking bytes from it\<close>

text \<open>\<open>BasicStream::resize\<close>; bytes past the old end are indeterminate and written as \<open>fill\<close>.\<close>

definition stream_resize :: "byte \<Rightarrow> nat \<Rightarrow> writer" where
  "stream_resize fill n s =
     (if n > messageSizeMax s then throw MemoryLimitException
      else Inr (s\<lparr>buf := take n (buf s) @ replicate (n - length (buf s)) fill\<rparr>))"

text \<open>The idiom \<^verbatim>\<open>pos = b.size(); resize(pos + n); memcpy(&b[pos], src, n)\<close>.\<close>

definition appendBytes :: "byte list \<Rightarrow> writer" where
  "appendBytes bs s =
     andThen (stream_resize 0 (length (buf s) + length bs) s)
       (\<lambda>s'. Inr (s'\<lparr>buf := overwrite (length (buf s)) bs (buf s')\<rparr>))"

text \<open>The idiom \<^verbatim>\<open>if(b.end() - i < n) throw; ... *i ...; i += n\<close>.\<close>

definition takeBytes :: "nat \<Rightarrow> byte list reader" where
  "takeBytes n s =
     (if int (length (buf s)) - rpos s < int n then throw UnmarshalOutOfBoundsException
      else if rpos s < 0 then Inl MemoryFault
      else Inr (take n (drop (nat (rpos s)) (buf s)), s\<lparr>rpos := rpos s + int n\<rparr>))"

definition write_Byte :: "byte \<Rightarrow> writer" where
  "write_Byte v s = Inr (s\<lparr>buf := buf s @ [v]\<rparr>)"

definition read_Byte :: "byte reader" where
  "read_Byte s =
     (if rpos s \<ge> int (length (buf s)) then throw UnmarshalOutOfBoundsException
      else if rpos s < 0 then Inl MemoryFault
      else Inr (buf s ! nat (rpos s), s\<lparr>rpos := rpos s + 1\<rparr>))"

definition write_bool :: "bool \<Rightarrow> writer" where
  "write_bool v s = Inr (s\<lparr>buf := buf s @ [if v then 1 else 0]\<rparr>)"

definition read_bool :: "bool reader" where
  "read_bool s =
     (if rpos s \<ge> int (length (buf s)) then throw UnmarshalOutOfBoundsException
      else if rpos s < 0 then Inl MemoryFault
      else Inr (buf s ! nat (rpos s) \<noteq> 0, s\<lparr>rpos := rpos s + 1\<rparr>))"

section \<open>Fixed-size types\<close>

text \<open>
  The two byte-order loops of the big-endian build.  \<open>swapOut\<close> is the writing loop,
  \<^verbatim>\<open>*dest++ = *src--\<close> \<open>k\<close> times and then \<^verbatim>\<open>src += 2 * k\<close>, over the memory of the
  array; \<open>swapIn\<close> the reading loop, \<^verbatim>\<open>*dest-- = *src++\<close> \<open>k\<close> times and then \<^verbatim>\<open>dest += 2 * k\<close>.
\<close>

fun swapOut :: "nat \<Rightarrow> nat \<Rightarrow> byte list \<Rightarrow> nat \<Rightarrow> byte list" where
  "swapOut k 0 mem src = []"
| "swapOut k (Suc j) mem src = map (\<lambda>m. mem ! (src - m)) [0..<k] @ swapOut k j mem (src + 2 * k - k)"

fun swapIn :: "nat \<Rightarrow> nat \<Rightarrow> byte list \<Rightarrow> nat \<Rightarrow> byte list \<Rightarrow> byte list" where
  "swapIn k 0 src dest mem = mem"
| "swapIn k (Suc j) src dest mem =
     swapIn k j (drop k src) (dest + 2 * k - k)
       (foldl (\<lambda>mem' m. mem'[dest - m := src ! m]) mem [0..<k])"

fun array_rep :: "bool \<Rightarrow> 'a::len word list \<Rightarrow> byte list" where
  "array_rep big [] = []"
| "array_rep big (x # xs) = obj_rep big x @ array_rep big xs"

fun array_of_rep :: "bool \<Rightarrow> nat \<Rightarrow> byte list \<Rightarrow> 'a::len word list" where
  "array_of_rep big 0 mem = []"
| "array_of_rep big (Suc j) mem =
     obj_of_rep big (take (LENGTH('a) div 8) mem) # array_of_rep big j (drop (LENGTH('a) div 8) mem)"

definition marshalArray :: "bool \<Rightarrow> 'a::len word list \<Rightarrow> byte list" where
  "marshalArray big xs =
     (if big then swapOut (LENGTH('a) div 8) (length xs) (array_rep big xs) (LENGTH('a) div 8 - 1)
      else array_rep big xs)"

definition writeFixed :: "bool \<Rightarrow> 'a::len word \<Rightarrow> writer" where
  "writeFixed big v = appendBytes (marshalArray big [v])"

definition readFixed :: "bool \<Rightarrow> 'a::len word reader" where
  "readFixed big =
     rbind (takeBytes (LENGTH('a) div 8))
       (\<lambda>bs. rret (obj_of_rep big
          (if big then swapIn (LENGTH('a) div 8) 1 bs (LENGTH('a) div 8 - 1) (replicate (LENGTH('a) div 8) 0)
           else bs)))"

definition write_Short :: "bool \<Rightarrow> ice_short \<Rightarrow> writer" where "write_Short = writeFixed"
definition read_Short :: "bool \<Rightarrow> ice_short reader" where "read_Short = readFixed"
definition write_Int :: "bool \<Rightarrow> ice_int \<Rightarrow> writer" where "write_Int = writeFixed"
definition read_Int :: "bool \<Rightarrow> ice_int reader" where "read_Int = readFixed"
definition write_Long :: "bool \<Rightarrow> ice_long \<Rightarrow> writer" where "write_Long = writeFixed"
definition read_Long :: "bool \<Rightarrow> ice_long reader" where "read_Long = readFixed"
definition write_Float :: "bool \<Rightarrow> ice_int \<Rightarrow> writer" where "write_Float = writeFixed"
definition read_Float :: "bool \<Rightarrow> ice_int reader" where "read_Float = readFixed"
definition write_Double :: "bool \<Rightarrow> ice_long \<Rightarrow> writer" where "write_Double = writeFixed"
definition read_Double :: "bool \<Rightarrow> ice_long reader" where "read_Double = readFixed"

section \<open>Sizes and blobs\<close>

definition writeSize :: "bool \<Rightarrow> ice_int \<Rightarrow> writer" where
  "writeSize big v s =
     (if sint v < 0 then Inl AssertionFailed
      else if sint v > 254 then andThen (write_Byte 255 s) (write_Int big v)
      else write_Byte (ucast v) s)"

definition rewriteSize :: "bool \<Rightarrow> ice_int \<Rightarrow> nat \<Rightarrow> writer" where
  "rewriteSize big v dest s =
     (if sint v < 0 then Inl AssertionFailed
      else if sint v > 254 then Inr (s\<lparr>buf := overwrite dest (255 # marshalArray big [v]) (buf s)\<rparr>)
      else Inr (s\<lparr>buf := overwrite dest [ucast v] (buf s)\<rparr>))"

definition readSize :: "bool \<Rightarrow> ice_int reader" where
  "readSize big =
     rbind read_Byte
       (\<lambda>b. if b = 255
            then rbind (read_Int big) (\<lambda>v s. if sint v < 0 then throw NegativeSizeException else Inr (v, s))
            else rret (ucast b))"

definition writeBlob :: "byte list \<Rightarrow> writer" where
  "writeBlob v s = (if v \<noteq> [] then appendBytes v s else Inr s)"

definition readBlob :: "ice_int \<Rightarrow> byte list reader" where
  "readBlob sz s = (if 0 < sint sz then takeBytes (nat (sint sz)) s else Inr ([], s))"

section \<open>Sequence checks\<close>

text \<open>The products and sums are C++ \<open>int\<close> arithmetic, 32 bits wide.\<close>

definition bytesLeft :: "stream \<Rightarrow> ice_int" where
  "bytesLeft s = word_of_int (int (length (buf s)) - rpos s)"

fun seqLoop :: "(ice_int \<times> ice_int) list \<Rightarrow> ice_int \<Rightarrow> ice_int" where
  "seqLoop [] acc = acc"
| "seqLoop ((numElements, minSize) # sd) acc = seqLoop sd (acc + (numElements - 1) * minSize)"

definition checkSeq :: "ice_int \<Rightarrow> writer" where
  "checkSeq left s =
     (if seqDataStack s = [] then Inl MemoryFault
      else if sint (seqLoop (seqDataStack s) 0) > sint left then throw UnmarshalOutOfBoundsException
      else Inr s)"

definition startSeq :: "ice_int \<Rightarrow> ice_int \<Rightarrow> writer" where
  "startSeq numElements minSize s =
     (if numElements = 0 then Inr s
      else let s' = s\<lparr>seqDataStack := (numElements, minSize) # seqDataStack s\<rparr>
           in if seqDataStack s = [] then
                (if sint (numElements * minSize) > sint (bytesLeft s) then throw UnmarshalOutOfBoundsException
                 else Inr s')
              else checkSeq (bytesLeft s) s')"

definition checkFixedSeq :: "ice_int \<Rightarrow> ice_int \<Rightarrow> writer" where
  "checkFixedSeq numElements elemSize s =
     (if seqDataStack s = [] then
        (if sint (numElements * elemSize) > sint (bytesLeft s) then throw UnmarshalOutOfBoundsException
         else Inr s)
      else checkSeq (bytesLeft s - numElements * elemSize) s)"

definition endElement :: writer where
  "endElement s =
     (case seqDataStack s of
        [] \<Rightarrow> Inl AssertionFailed
      | (n, m) # sd \<Rightarrow> Inr (s\<lparr>seqDataStack := (n - 1, m) # sd\<rparr>))"

definition endSeq :: "ice_int \<Rightarrow> writer" where
  "endSeq sz s =
     (if sz = 0 then Inr s
      else case seqDataStack s of
             [] \<Rightarrow> Inl AssertionFailed
           | _ # sd \<Rightarrow> Inr (s\<lparr>seqDataStack := sd\<rparr>))"

section \<open>Sequences of fixed-size types\<close>

definition writeFixedSeq :: "bool \<Rightarrow> 'a::len word list \<Rightarrow> writer" where
  "writeFixedSeq big xs s =
     (let sz = word_of_nat (length xs) :: ice_int
      in andThen (writeSize big sz s)
           (\<lambda>s'. if 0 < sint sz then appendBytes (marshalArray big xs) s' else Inr s'))"

text \<open>
  The bytes move from \<open>begin\<close> to \<open>i\<close>, where \<open>i\<close> has been advanced by the \<open>int\<close> product.
  The little-endian build copies exactly that range over a zeroed array of \<open>sz\<close> elements, the
  big-endian build runs its loop \<open>sz\<close> times.
\<close>

definition moveSeq :: "bool \<Rightarrow> ice_int \<Rightarrow> 'a::len word list reader" where
  "moveSeq big sz s =
     (let k = LENGTH('a) div 8; n = nat (sint sz);
          adv = sint (sz * word_of_nat k);
          begin = rpos s; i' = begin + adv;
          need = (if big then int (n * k) else adv)
      in if begin < 0 \<or> adv < 0 \<or> int (length (buf s)) < begin + need then Inl MemoryFault
         else let src = drop (nat begin) (buf s);
                  mem = (if big then swapIn k n src (k - 1) (replicate (n * k) 0)
                         else overwrite 0 (take (nat adv) src) (replicate (n * k) 0))
              in Inr (array_of_rep big n mem, s\<lparr>rpos := i'\<rparr>))"

definition readFixedSeq :: "bool \<Rightarrow> 'a::len word list reader" where
  "readFixedSeq big =
     rbind (readSize big)
       (\<lambda>sz s. if 0 < sint sz
               then andThen (checkFixedSeq sz (word_of_nat (LENGTH('a) div 8)) s) (moveSeq big sz)
               else Inr ([], s))"

text \<open>
  The variant that returns a pair of pointers: on \<open>i386\<close> they point into the buffer, which is
  then read in the native (little-endian) order.
\<close>

definition readFixedSeqPair :: "bool \<Rightarrow> bool \<Rightarrow> 'a::len word list reader" where
  "readFixedSeqPair x86 big =
     (if x86 then
        rbind (readSize big)
          (\<lambda>sz s. if 0 < sint sz
                  then andThen (checkFixedSeq sz (word_of_nat (LENGTH('a) div 8)) s)
                         (\<lambda>s. let adv = sint (sz * word_of_nat (LENGTH('a) div 8))
                              in if rpos s < 0 \<or> adv < 0 \<or> int (length (buf s)) < rpos s + adv
                                 then Inl MemoryFault
                                 else Inr (array_of_rep False (nat adv div (LENGTH('a) div 8)) (drop (nat (rpos s)) (buf s)),
                                           s\<lparr>rpos := rpos s + adv\<rparr>))
                  else Inr ([], s))
      else readFixedSeq big)"

definition write_ShortSeq :: "bool \<Rightarrow> ice_short list \<Rightarrow> writer" where "write_ShortSeq = writeFixedSeq"
definition read_ShortSeq :: "bool \<Rightarrow> ice_short list reader" where "read_ShortSeq = readFixedSeq"
definition read_ShortSeqPair :: "bool \<Rightarrow> bool \<Rightarrow> ice_short list reader" where "read_ShortSeqPair = readFixedSeqPair"
definition write_IntSeq :: "bool \<Rightarrow> ice_int list \<Rightarrow> writer" where "write_IntSeq = writeFixedSeq"
definition read_IntSeq :: "bool \<Rightarrow> ice_int list reader" where "read_IntSeq = readFixedSeq"
definition read_IntSeqPair :: "bool \<Rightarrow> bool \<Rightarrow> ice_int list reader" where "read_IntSeqPair = readFixedSeqPair"
definition write_LongSeq :: "bool \<Rightarrow> ice_long list \<Rightarrow> writer" where "write_LongSeq = writeFixedSeq"
definition read_LongSeq :: "bool \<Rightarrow> ice_long list reader" where "read_LongSeq = readFixedSeq"
definition read_LongSeqPair :: "bool \<Rightarrow> bool \<Rightarrow> ice_long list reader" where "read_LongSeqPair = readFixedSeqPair"
definition write_FloatSeq :: "bool \<Rightarrow> ice_int list \<Rightarrow> writer" where "write_FloatSeq = writeFixedSeq"
definition read_FloatSeq :: "bool \<Rightarrow> ice_int list reader" where "read_FloatSeq = readFixedSeq"
definition read_FloatSeqPair :: "bool \<Rightarrow> bool \<Rightarrow> ice_int list reader" where "read_FloatSeqPair = readFixedSeqPair"
definition write_DoubleSeq :: "bool \<Rightarrow> ice_long list \<Rightarrow> writer" where "write_DoubleSeq = writeFixedSeq"
definition read_DoubleSeq :: "bool \<Rightarrow> ice_long list reader" where "read_DoubleSeq = readFixedSeq"
definition read_DoubleSeqPair :: "bool \<Rightarrow> bool \<Rightarrow> ice_long list reader" where "read_DoubleSeqPair = readFixedSeqPair"

text \<open>Sequences of bytes and of booleans have no byte order.\<close>

definition write_ByteSeq :: "bool \<Rightarrow> byte list \<Rightarrow> writer" where
  "write_ByteSeq big xs s =
     (let sz = word_of_nat (length xs) :: ice_int
      in andThen (writeSize big sz s) (\<lambda>s'. if 0 < sint sz then appendBytes xs s' else Inr s'))"

definition moveBytes :: "ice_int \<Rightarrow> byte list reader" where
  "moveBytes sz s =
     (if rpos s < 0 \<or> int (length (buf s)) < rpos s + sint sz then Inl MemoryFault
      else Inr (take (nat (sint sz)) (drop (nat (rpos s)) (buf s)), s\<lparr>rpos := rpos s + sint sz\<rparr>))"

definition read_ByteSeq :: "bool \<Rightarrow> byte list reader" where
  "read_ByteSeq big =
     rbind (readSize big)
       (\<lambda>sz s. if 0 < sint sz then andThen (checkFixedSeq sz 1 s) (moveBytes sz) else Inr ([], s))"

definition write_boolSeq :: "bool \<Rightarrow> bool list \<Rightarrow> writer" where
  "write_boolSeq big xs s =
     (let sz = word_of_nat (length xs) :: ice_int
      in andThen (writeSize big sz s)
           (\<lambda>s'. if 0 < sint sz then appendBytes (map (\<lambda>v. if v then 1 else 0) xs) s' else Inr s'))"

definition read_boolSeq :: "bool \<Rightarrow> bool list reader" where
  "read_boolSeq big =
     rbind (readSize big)
       (\<lambda>sz s. if 0 < sint sz
               then andThen (checkFixedSeq sz 1 s)
                      (\<lambda>s'. rbind (moveBytes sz) (\<lambda>bs. rret (map (\<lambda>b. b \<noteq> 0) bs)) s')
               else Inr ([], s))"

section \<open>The wire format does not depend on the platform\<close>

lemma obj_rep_big: "obj_rep True w = rev (obj_rep False w)"
  by (simp add: obj_rep_def)

lemma length_array_rep [simp]:
  "length (array_rep big (xs :: 'a::len word list)) = length xs * (LENGTH('a) div 8)"
  by (induction xs) auto

lemma nth_desc: "k \<le> length xs \<Longrightarrow> map (\<lambda>m. xs ! (k - 1 - m)) [0..<k] = rev (take k xs)"
  by (rule nth_equalityI) (auto simp: rev_nth min_def)

lemma swapOut_shift:
  assumes "0 < k" and "k - 1 \<le> src"
  shows "swapOut k n (pre @ mem) (length pre + src) = swapOut k n mem src"
  using assms
proof (induction n arbitrary: src)
  case 0
  then show ?case by simp
next
  case (Suc n)
  have "map (\<lambda>m. (pre @ mem) ! (length pre + src - m)) [0..<k] = map (\<lambda>m. mem ! (src - m)) [0..<k]"
    using Suc.prems by (auto simp: nth_append)
  moreover have "length pre + src + 2 * k - k = length pre + (src + 2 * k - k)" by simp
  ultimately show ?case using Suc.IH [of "src + 2 * k - k"] Suc.prems by (simp add: add.left_commute)
qed

lemma swapOut_rev:
  assumes "0 < LENGTH('a) div 8"
  shows "swapOut (LENGTH('a) div 8) (length xs) (array_rep True (xs :: 'a::len word list)) (LENGTH('a) div 8 - 1)
         = array_rep False xs"
proof (induction xs)
  case Nil
  then show ?case by simp
next
  case (Cons x xs)
  let ?k = "LENGTH('a) div 8"
  have head: "map (\<lambda>m. (obj_rep True x @ array_rep True xs) ! (?k - 1 - m)) [0..<?k] = obj_rep False x"
  proof -
    have "map (\<lambda>m. (obj_rep True x @ array_rep True xs) ! (?k - 1 - m)) [0..<?k] =
          map (\<lambda>m. obj_rep True x ! (?k - 1 - m)) [0..<?k]"
      by (auto simp: nth_append)
    also have "\<dots> = rev (take ?k (obj_rep True x))" by (rule nth_desc) simp
    finally show ?thesis by (simp add: obj_rep_big)
  qed
  have src: "?k - 1 + 2 * ?k - ?k = length (obj_rep True x) + (?k - 1)" using assms by simp
  have rest: "swapOut ?k (length xs) (obj_rep True x @ array_rep True xs) (?k - 1 + 2 * ?k - ?k)
      = array_rep False xs"
    unfolding src using swapOut_shift [of ?k "?k - 1" "length xs" "obj_rep True x" "array_rep True xs"] Cons assms by simp
  show ?case by (simp only: length_Cons swapOut.simps array_rep.simps head rest)
qed

lemma marshalArray_wire:
  assumes "0 < LENGTH('a) div 8"
  shows "marshalArray big (xs :: 'a::len word list) = concat (map le_bytes xs)"
proof -
  have "array_rep False xs = concat (map le_bytes xs)" by (induction xs) (auto simp: obj_rep_def)
  then show ?thesis using swapOut_rev [OF assms, of xs] by (simp add: marshalArray_def)
qed

lemma foldl_desc:
  assumes "j \<le> k" and "dest = k - 1 + off" and "off + k \<le> length mem"
  shows "length (foldl (\<lambda>mem' m. mem'[dest - m := src ! m]) mem [0..<j]) = length mem \<and>
    (\<forall>i < length mem. foldl (\<lambda>mem' m. mem'[dest - m := src ! m]) mem [0..<j] ! i =
       (if dest < i + j \<and> i \<le> dest then src ! (dest - i) else mem ! i))"
  using assms
proof (induction j)
  case 0
  then show ?case by auto
next
  case (Suc j)
  then have IH: "length (foldl (\<lambda>mem' m. mem'[dest - m := src ! m]) mem [0..<j]) = length mem"
    "\<And>i. i < length mem \<Longrightarrow> foldl (\<lambda>mem' m. mem'[dest - m := src ! m]) mem [0..<j] ! i =
       (if dest < i + j \<and> i \<le> dest then src ! (dest - i) else mem ! i)"
    by auto
  have j: "dest - j < length mem" "j \<le> dest" using Suc.prems by auto
  then have "dest - i = j" if "i = dest - j" for i using that by simp
  then show ?case using IH j by (auto simp: nth_list_update)
qed

fun rev_chunks :: "nat \<Rightarrow> nat \<Rightarrow> byte list \<Rightarrow> byte list" where
  "rev_chunks k 0 src = []"
| "rev_chunks k (Suc n) src = rev (take k src) @ rev_chunks k n (drop k src)"

lemma foldl_desc_append:
  assumes "0 < k" and "k \<le> length src" and "k \<le> length rest"
  shows "foldl (\<lambda>mem' m. mem'[length pre + (k - 1) - m := src ! m]) (pre @ rest) [0..<k]
         = pre @ rev (take k src) @ drop k rest"
proof -
  have pre: "k \<le> k" "length pre + (k - 1) = k - 1 + length pre" "length pre + k \<le> length (pre @ rest)"
    using assms by auto
  note f = foldl_desc [OF pre, of src]
  show ?thesis
  proof (rule nth_equalityI)
    show "length (foldl (\<lambda>mem' m. mem'[length pre + (k - 1) - m := src ! m]) (pre @ rest) [0..<k]) =
      length (pre @ rev (take k src) @ drop k rest)" using f assms by auto
  next
    fix i
    assume i: "i < length (foldl (\<lambda>mem' m. mem'[length pre + (k - 1) - m := src ! m]) (pre @ rest) [0..<k])"
    then have i': "i < length (pre @ rest)" using f by simp
    from f i' have "foldl (\<lambda>mem' m. mem'[length pre + (k - 1) - m := src ! m]) (pre @ rest) [0..<k] ! i =
      (if length pre + (k - 1) < i + k \<and> i \<le> length pre + (k - 1)
       then src ! (length pre + (k - 1) - i) else (pre @ rest) ! i)" by blast
    then show "foldl (\<lambda>mem' m. mem'[length pre + (k - 1) - m := src ! m]) (pre @ rest) [0..<k] ! i =
        (pre @ rev (take k src) @ drop k rest) ! i"
    proof (cases "i < length pre")
      case True
      then have "\<not> length pre + (k - 1) < i + k" using assms(1) by simp
      with \<open>foldl _ _ _ ! i = _\<close> True show ?thesis by (simp only: if_False simp_thms nth_append if_True)
    next
      case False
      then obtain d where d: "i = length pre + d" using le_Suc_ex by (metis not_less)
      show ?thesis
      proof (cases "d < k")
        case True
        then have "length pre + (k - 1) - i = k - Suc d"
          and "length pre + (k - 1) < i + k \<and> i \<le> length pre + (k - 1)" using d by auto
        with True d \<open>foldl _ _ _ ! i = _\<close> show ?thesis using assms
          by (simp add: nth_append rev_nth min_def)
      next
        case False
        then have "\<not> (length pre + (k - 1) < i + k \<and> i \<le> length pre + (k - 1))" using d assms(1) by linarith
        with False d \<open>foldl _ _ _ ! i = _\<close> show ?thesis using assms i'
          by (simp add: nth_append min_def)
      qed
    qed
  qed
qed

lemma swapIn_chunks:
  assumes "0 < k" and "n * k \<le> length src" and "length rest = n * k"
  shows "swapIn k n src (length pre + (k - 1)) (pre @ rest) = pre @ rev_chunks k n src"
  using assms(2,3)
proof (induction n arbitrary: src pre rest)
  case 0
  then show ?case by simp
next
  case (Suc n)
  have k: "k \<le> length src" "k \<le> length rest" using Suc.prems by auto
  have dest: "length pre + (k - 1) + 2 * k - k = length (pre @ rev (take k src)) + (k - 1)"
    using assms(1) k by simp
  have "swapIn k n (drop k src) (length (pre @ rev (take k src)) + (k - 1))
      ((pre @ rev (take k src)) @ drop k rest) = (pre @ rev (take k src)) @ rev_chunks k n (drop k src)"
    by (rule Suc.IH) (use Suc.prems in auto)
  then show ?case
    by (simp only: swapIn.simps foldl_desc_append [OF assms(1) k] dest rev_chunks.simps append_assoc)
qed

lemma array_of_rev_chunks:
  assumes "n * (LENGTH('a) div 8) \<le> length src"
  shows "(array_of_rep True n (rev_chunks (LENGTH('a) div 8) n src) :: 'a::len word list) =
         array_of_rep False n src"
  using assms
proof (induction n arbitrary: src)
  case 0
  then show ?case by simp
next
  case (Suc n)
  let ?k = "LENGTH('a) div 8"
  have "?k \<le> length src" using Suc.prems by auto
  then have "length (rev (take ?k src)) = ?k" by simp
  then show ?case using Suc.IH [of "drop ?k src"] Suc.prems
    by (simp add: obj_of_rep_def)
qed


section \<open>Reading at a position\<close>

text \<open>
  \<open>at s pre bs post\<close>: the stream holds \<open>bs\<close> between \<open>pre\<close> and \<open>post\<close>, and the iterator
  is at its start.  \<open>skip s n\<close> advances the iterator.
\<close>

definition at :: "stream \<Rightarrow> byte list \<Rightarrow> byte list \<Rightarrow> byte list \<Rightarrow> bool" where
  "at s pre bs post \<longleftrightarrow> buf s = pre @ bs @ post \<and> rpos s = int (length pre)"

definition skip :: "stream \<Rightarrow> nat \<Rightarrow> stream" where
  "skip s n = s\<lparr>rpos := rpos s + int n\<rparr>"

lemma skip_simps [simp]:
  "buf (skip s n) = buf s" "rpos (skip s n) = rpos s + int n" "seqDataStack (skip s n) = seqDataStack s"
  "messageSizeMax (skip s n) = messageSizeMax s" "readEncapsStack (skip s n) = readEncapsStack s"
  "writeEncapsStack (skip s n) = writeEncapsStack s" "skip s 0 = s"
  by (simp_all add: skip_def)

lemma skip_skip [simp]: "skip (skip s m) n = skip s (m + n)"
  by (simp add: skip_def algebra_simps)

lemma at_append: "at s pre (bs @ cs) post \<Longrightarrow> at s pre bs (cs @ post)"
  by (simp add: at_def)

lemma at_next: "at s pre (bs @ cs) post \<Longrightarrow> at (skip s (length bs)) (pre @ bs) cs post"
  by (simp add: at_def)

lemma at_drop: "at s pre bs post \<Longrightarrow> drop (nat (rpos s)) (buf s) = bs @ post"
  by (simp add: at_def)

lemma takeBytes_at [wire_simps]: "at s pre bs post \<Longrightarrow> takeBytes (length bs) s = Inr (bs, skip s (length bs))"
  by (simp add: at_def takeBytes_def skip_def)

lemma read_Byte_at [wire_simps]: "at s pre [b] post \<Longrightarrow> read_Byte s = Inr (b, skip s 1)"
  by (simp add: at_def read_Byte_def skip_def)

lemma read_bool_at [wire_simps]: "at s pre [b] post \<Longrightarrow> read_bool s = Inr (b \<noteq> 0, skip s 1)"
  by (simp add: at_def read_bool_def skip_def)

lemma appendBytes_Inr:
  "appendBytes bs s = (if length (buf s) + length bs > messageSizeMax s then throw MemoryLimitException
                       else Inr (s\<lparr>buf := buf s @ bs\<rparr>))"
  by (simp add: appendBytes_def stream_resize_def overwrite_def)

lemma readFixed_at:
  assumes "at s pre (le_bytes v) post" and "8 dvd LENGTH('a)" and "0 < LENGTH('a) div 8"
  shows "readFixed big s = Inr (v :: 'a::len word, skip s (LENGTH('a) div 8))"
proof -
  have "swapIn (LENGTH('a) div 8) 1 (le_bytes v) (LENGTH('a) div 8 - 1) (replicate (LENGTH('a) div 8) 0) =
        rev (le_bytes v)"
    using swapIn_chunks [OF assms(3), of 1 "le_bytes v" "replicate (LENGTH('a) div 8) 0" "[]"] by simp
  moreover have "takeBytes (LENGTH('a) div 8) s = Inr (le_bytes v, skip s (LENGTH('a) div 8))"
    using takeBytes_at [OF assms(1)] by simp
  ultimately show ?thesis
    using assms(2) by (simp add: readFixed_def rbind_def rret_def obj_of_rep_def del: swapIn.simps)
qed

lemma writeFixed_eq:
  assumes "0 < LENGTH('a) div 8"
  shows "writeFixed big (v :: 'a::len word) = appendBytes (le_bytes v)"
  by (simp add: writeFixed_def marshalArray_wire [OF assms])

lemmas fixed_defs =
  write_Short_def read_Short_def write_Int_def read_Int_def write_Long_def read_Long_def
  write_Float_def read_Float_def write_Double_def read_Double_def

lemma write_Int_eq: "write_Int big v = appendBytes (le_bytes v)"
  by (simp add: write_Int_def writeFixed_eq)

lemma read_Int_at [wire_simps]: "at s pre (le_bytes v) post \<Longrightarrow> read_Int big s = Inr (v, skip s 4)"
  using readFixed_at [of s pre v post big] by (simp add: read_Int_def)


section \<open>Sizes on the wire\<close>

definition size_bytes :: "ice_int \<Rightarrow> byte list" where
  "size_bytes v = (if sint v > 254 then 255 # le_bytes v else [ucast v])"

lemma length_size_bytes: "length (size_bytes v) = (if sint v > 254 then 5 else 1)"
  by (simp add: size_bytes_def)

lemma small_size:
  assumes "0 \<le> sint (v :: ice_int)" and "sint v \<le> 254"
  shows "(ucast v :: byte) \<noteq> 255" and "(ucast (ucast v :: byte) :: ice_int) = v"
proof -
  have u: "unat v \<le> 254" using assms(2) sint_nonneg [OF assms(1)] by linarith
  show "(ucast v :: byte) \<noteq> 255" using u by (auto simp: word_unat_eq_iff unsigned_ucast_eq take_bit_eq_mod)
  show "(ucast (ucast v :: byte) :: ice_int) = v" using u by (simp add: word_unat_eq_iff unsigned_ucast_eq take_bit_eq_mod unat_mod_distrib)
qed

lemma writeSize_eq:
  assumes "0 \<le> sint v"
  shows "writeSize big v s =
    (if sint v > 254 \<and> length (buf s) + 5 > messageSizeMax s then throw MemoryLimitException
     else Inr (s\<lparr>buf := buf s @ size_bytes v\<rparr>))"
  using assms by (simp add: writeSize_def write_Byte_def write_Int_eq appendBytes_Inr size_bytes_def)

lemma readSize_at [wire_simps]:
  assumes "at s pre (size_bytes v) post" and "0 \<le> sint v"
  shows "readSize big s = Inr (v, skip s (length (size_bytes v)))"
proof (cases "sint v > 254")
  case True
  then have "at s pre ([255] @ le_bytes v) post" using assms by (simp add: size_bytes_def)
  note read_Byte_at [OF at_append [OF this]] read_Int_at [OF at_next [OF this], of big]
  then show ?thesis using True assms(2) by (simp add: readSize_def rbind_def size_bytes_def)
next
  case False
  then have "at s pre [ucast v] post" using assms by (simp add: size_bytes_def)
  from read_Byte_at [OF this] show ?thesis
    using False assms(2) by (simp add: readSize_def rbind_def rret_def size_bytes_def small_size)
qed

end
