(* ===== verification/WireCodec.thy ===== *)
theory WireCodec imports BasicStream begin

text \<open>
  The contract between the writing and the reading half of the stream, as a locale, and its
  instances: every type the stream marshals is written as a byte string that depends neither on
  the platform nor on the stream, and reading that byte string anywhere in a message gives the
  value back and leaves the iterator behind it.
\<close>

section \<open>Fixed-size sequences on the wire\<close>

lemma array_of_wire:
  assumes "8 dvd LENGTH('a)"
  shows "array_of_rep False (length xs) (concat (map le_bytes xs) @ ys) = (xs :: 'a::len word list)"
  using assms by (induction xs) (simp_all add: obj_of_rep_def)

lemma length_wire: "length (concat (map le_bytes (xs :: 'a::len word list))) = length xs * (LENGTH('a) div 8)"
  by (induction xs) auto

definition seq_ready :: "stream \<Rightarrow> bool" where
  "seq_ready s \<longleftrightarrow> seqDataStack s = [] \<and> length (buf s) < 2147483648"

lemma seq_ready_skip [simp]: "seq_ready (skip s n) = seq_ready s"
  by (simp add: seq_ready_def)

lemma bytesLeft_at:
  assumes "at s pre bs post" and "length (buf s) < 2147483648"
  shows "sint (bytesLeft s) = int (length bs + length post)"
proof -
  have "int (length (buf s)) - rpos s = int (length bs + length post)" using assms(1) by (simp add: at_def)
  moreover have "length bs + length post < 2147483648" using assms by (simp add: at_def)
  ultimately show ?thesis by (simp add: bytesLeft_def sint_word_of_nat del: of_nat_add)
qed

lemma sint_product: "n * k < 2147483648 \<Longrightarrow> sint (word_of_nat n * word_of_nat k :: ice_int) = int (n * k)"
  using sint_word_of_nat [of "n * k"] by simp

lemma size_product_small: "n * k < 2147483648 \<Longrightarrow> 0 < k \<Longrightarrow> n < (2147483648 :: nat)"
  by (rule le_less_trans [of n "n * k"]) auto

lemma checkFixedSeq_at:
  assumes "at s pre bs post" and "seq_ready s" and "length bs = n * k"
  shows "checkFixedSeq (word_of_nat n) (word_of_nat k) s = Inr s"
proof -
  have "n * k < 2147483648" using assms by (simp add: at_def seq_ready_def)
  then show ?thesis
    using assms bytesLeft_at [OF assms(1)] by (simp add: checkFixedSeq_def seq_ready_def sint_product)
qed

lemma moveSeq_at:
  assumes "at s pre (concat (map le_bytes xs)) post" and "seq_ready s"
    and "8 dvd LENGTH('a)" and "0 < LENGTH('a) div 8"
  shows "moveSeq big (word_of_nat (length xs)) s =
    Inr (xs :: 'a::len word list, skip s (length xs * (LENGTH('a) div 8)))"
proof -
  let ?k = "LENGTH('a) div 8" and ?n = "length xs"
  let ?src = "concat (map le_bytes xs) @ post"
  have small: "?n * ?k < 2147483648" using assms(1,2) by (simp add: at_def seq_ready_def length_wire)
  note n = sint_word_of_nat [OF size_product_small [OF small assms(4)]] and nk = sint_product [OF small]
  have len: "?n * ?k \<le> length ?src" by (simp add: length_wire)
  have "swapIn ?k ?n ?src (?k - 1) (replicate (?n * ?k) 0) = rev_chunks ?k ?n ?src"
    using swapIn_chunks [OF assms(4) len, of "replicate (?n * ?k) 0" "[]"] by simp
  then have mem: "(array_of_rep big ?n
        (if big then swapIn ?k ?n ?src (?k - 1) (replicate (?n * ?k) 0)
         else overwrite 0 (take (?n * ?k) ?src) (replicate (?n * ?k) 0)) :: 'a word list) = xs"
    using array_of_rev_chunks [OF len] array_of_wire [OF assms(3), of xs] array_of_wire [OF assms(3), of xs "[]"]
    by (simp add: overwrite_def length_wire)
  show ?thesis
    using assms(1) mem n nk
    by (cases big)
      (simp_all add: moveSeq_def Let_def at_drop [OF assms(1)] skip_def length_wire at_def del: of_nat_mult take_append)
qed

lemma readFixedSeq_at:
  assumes "at s pre (size_bytes (word_of_nat (length xs)) @ concat (map le_bytes xs)) post"
    and "seq_ready s" and "8 dvd LENGTH('a)" and "0 < LENGTH('a) div 8"
  shows "readFixedSeq big s = Inr (xs :: 'a::len word list,
      skip s (length (size_bytes (word_of_nat (length xs)) @ concat (map le_bytes xs))))"
proof -
  let ?sz = "word_of_nat (length xs) :: ice_int"
  let ?s = "skip s (length (size_bytes ?sz))"
  have "length xs * (LENGTH('a) div 8) < 2147483648"
    using assms(1,2) by (simp add: at_def seq_ready_def length_wire)
  then have n: "sint ?sz = int (length xs)"
    by (rule sint_word_of_nat [OF size_product_small [OF _ assms(4)]])
  have rd: "readSize big s = Inr (?sz, ?s)"
    using readSize_at [OF at_append [OF assms(1)]] n by simp
  note body = at_next [OF assms(1)]
  have "checkFixedSeq ?sz (word_of_nat (LENGTH('a) div 8)) ?s = Inr ?s"
    by (rule checkFixedSeq_at [OF body]) (simp_all add: assms(2) length_wire)
  then show ?thesis
    using rd n moveSeq_at [OF body _ assms(3,4)] assms(2)
    by (cases "xs = []") (simp_all add: readFixedSeq_def rbind_def length_wire)
qed

lemma writeFixedSeq_eq:
  assumes "0 < LENGTH('a) div 8" and "length xs < 2147483648"
  shows "writeFixedSeq big (xs :: 'a::len word list) s =
    andThen (writeSize big (word_of_nat (length xs)) s)
      (\<lambda>s'. if xs \<noteq> [] then appendBytes (concat (map le_bytes xs)) s' else Inr s')"
  by (simp add: writeFixedSeq_def Let_def marshalArray_wire [OF assms(1)] sint_word_of_nat [OF assms(2)] cong: if_cong)

section \<open>The contract\<close>

text \<open>The element-by-element loops of the sequence operations and of generated code.\<close>

fun writeAll :: "('a \<Rightarrow> writer) \<Rightarrow> 'a list \<Rightarrow> writer" where
  "writeAll wr [] s = Inr s"
| "writeAll wr (x # xs) s = andThen (wr x s) (writeAll wr xs)"

fun readN :: "'a reader \<Rightarrow> nat \<Rightarrow> 'a list reader" where
  "readN rd 0 s = Inr ([], s)"
| "readN rd (Suc n) s = rbind rd (\<lambda>x. rbind (readN rd n) (\<lambda>xs. rret (x # xs))) s"

locale wire_codec =
  fixes valid :: "'a \<Rightarrow> bool"
    and enc :: "'a \<Rightarrow> byte list"
    and wr :: "'a \<Rightarrow> writer"
    and rd :: "'a reader"
    and ready :: "stream \<Rightarrow> bool"
  assumes write_fits: "valid x \<Longrightarrow> length (buf s) + length (enc x) \<le> messageSizeMax s
          \<Longrightarrow> wr x s = Inr (s\<lparr>buf := buf s @ enc x\<rparr>)"
    and write_appends: "valid x \<Longrightarrow> wr x s = Inr s' \<Longrightarrow> s' = s\<lparr>buf := buf s @ enc x\<rparr>"
    and read_back: "valid x \<Longrightarrow> ready s \<Longrightarrow> at s pre (enc x) post
          \<Longrightarrow> rd s = Inr (x, skip s (length (enc x)))"
    and ready_skip: "ready s \<Longrightarrow> ready (skip s n)"
begin

lemma write_then_read:
  assumes "valid x" and "wr x s = Inr s'" and "ready (s'\<lparr>rpos := int (length (buf s))\<rparr>)"
  shows "rd (s'\<lparr>rpos := int (length (buf s))\<rparr>) = Inr (x, s'\<lparr>rpos := int (length (buf s'))\<rparr>)"
proof -
  have s': "s' = s\<lparr>buf := buf s @ enc x\<rparr>" using assms(1,2) by (rule write_appends)
  then have "at (s'\<lparr>rpos := int (length (buf s))\<rparr>) (buf s) (enc x) []" by (simp add: at_def)
  from read_back [OF assms(1,3) this] show ?thesis using s' by (simp add: skip_def)
qed

lemma write_all:
  assumes "list_all valid xs" and "length (buf s) + length (concat (map enc xs)) \<le> messageSizeMax s"
  shows "writeAll wr xs s = Inr (s\<lparr>buf := buf s @ concat (map enc xs)\<rparr>)"
  using assms by (induction xs arbitrary: s) (simp_all add: write_fits)

lemma write_all_appends:
  "list_all valid xs \<Longrightarrow> writeAll wr xs s = Inr s' \<Longrightarrow> s' = s\<lparr>buf := buf s @ concat (map enc xs)\<rparr>"
  by (induction xs arbitrary: s) (fastforce simp: andThen_eq_Inr dest!: write_appends)+

lemma read_all:
  assumes "list_all valid xs" and "ready s" and "at s pre (concat (map enc xs)) post"
  shows "readN rd (length xs) s = Inr (xs, skip s (length (concat (map enc xs))))"
  using assms
proof (induction xs arbitrary: s pre)
  case Nil
  then show ?case by simp
next
  case (Cons x xs)
  then have at: "at s pre (enc x @ concat (map enc xs)) post" by simp
  have "rd s = Inr (x, skip s (length (enc x)))"
    using Cons.prems by (intro read_back [OF _ _ at_append [OF at]]) simp_all
  moreover have "readN rd (length xs) (skip s (length (enc x))) =
      Inr (xs, skip (skip s (length (enc x))) (length (concat (map enc xs))))"
    using Cons.prems by (intro Cons.IH [OF _ _ at_next [OF at]]) (simp_all add: ready_skip)
  ultimately show ?case by (simp add: rbind_def rret_def)
qed

end

section \<open>Instances\<close>

interpretation byte_codec: wire_codec "\<lambda>_. True" "\<lambda>b. [b]" write_Byte read_Byte "\<lambda>_. True"
  by unfold_locales (auto simp: write_Byte_def wire_simps)

interpretation bool_codec: wire_codec "\<lambda>_. True" "\<lambda>v. [if v then 1 else 0]" write_bool read_bool "\<lambda>_. True"
  by unfold_locales (auto simp: write_bool_def wire_simps)

lemma fixed_codec:
  assumes "8 dvd LENGTH('a)" and "0 < LENGTH('a) div 8"
  shows "wire_codec (\<lambda>_. True) le_bytes (writeFixed big) (readFixed big :: 'a::len word reader) (\<lambda>_. True)"
  using readFixed_at [OF _ assms]
  by unfold_locales (auto simp: writeFixed_eq [OF assms(2)] appendBytes_Inr split: if_splits)

interpretation short_codec: wire_codec "\<lambda>_. True" le_bytes "write_Short big" "read_Short big" "\<lambda>_. True" for big
  unfolding fixed_defs by (rule fixed_codec) simp_all

interpretation int_codec: wire_codec "\<lambda>_. True" le_bytes "write_Int big" "read_Int big" "\<lambda>_. True" for big
  unfolding fixed_defs by (rule fixed_codec) simp_all

interpretation long_codec: wire_codec "\<lambda>_. True" le_bytes "write_Long big" "read_Long big" "\<lambda>_. True" for big
  unfolding fixed_defs by (rule fixed_codec) simp_all

interpretation float_codec: wire_codec "\<lambda>_. True" le_bytes "write_Float big" "read_Float big" "\<lambda>_. True" for big
  unfolding fixed_defs by (rule fixed_codec) simp_all

interpretation double_codec: wire_codec "\<lambda>_. True" le_bytes "write_Double big" "read_Double big" "\<lambda>_. True" for big
  unfolding fixed_defs by (rule fixed_codec) simp_all

interpretation size_codec: wire_codec "\<lambda>v. 0 \<le> sint v" size_bytes "writeSize big" "readSize big" "\<lambda>_. True" for big
  by unfold_locales (auto simp: writeSize_eq length_size_bytes wire_simps split: if_splits)

definition seq_bytes :: "'a::len word list \<Rightarrow> byte list" where
  "seq_bytes xs = size_bytes (word_of_nat (length xs)) @ concat (map le_bytes xs)"

definition seq_valid :: "nat \<Rightarrow> 'a list \<Rightarrow> bool" where
  "seq_valid k xs \<longleftrightarrow> length xs * k < 2147483648"

lemma size_write_then:
  assumes "n < 2147483648"
  shows "length (buf s) + length (size_bytes (word_of_nat n)) \<le> messageSizeMax s \<Longrightarrow>
      writeSize big (word_of_nat n) s = Inr (s\<lparr>buf := buf s @ size_bytes (word_of_nat n)\<rparr>)"
    and "writeSize big (word_of_nat n) s = Inr s' \<Longrightarrow> s' = s\<lparr>buf := buf s @ size_bytes (word_of_nat n)\<rparr>"
  using size_codec.write_fits [of "word_of_nat n" s big] size_codec.write_appends [of "word_of_nat n" big s s']
    sint_word_of_nat [OF assms] by simp_all

text \<open>Every sequence is a size followed by a body; an empty one has no body.\<close>

definition sized_write :: "bool \<Rightarrow> nat \<Rightarrow> byte list \<Rightarrow> writer" where
  "sized_write big n bs s =
     andThen (writeSize big (word_of_nat n) s) (\<lambda>s'. if 0 < n then appendBytes bs s' else Inr s')"

lemma sized_write:
  assumes "n < 2147483648" and "n = 0 \<Longrightarrow> bs = []"
  shows sized_write_fits: "length (buf s) + length (size_bytes (word_of_nat n) @ bs) \<le> messageSizeMax s \<Longrightarrow>
      sized_write big n bs s = Inr (s\<lparr>buf := buf s @ size_bytes (word_of_nat n) @ bs\<rparr>)"
    and sized_write_appends: "sized_write big n bs s = Inr s' \<Longrightarrow>
      s' = s\<lparr>buf := buf s @ size_bytes (word_of_nat n) @ bs\<rparr>"
proof -
  assume "length (buf s) + length (size_bytes (word_of_nat n) @ bs) \<le> messageSizeMax s"
  then show "sized_write big n bs s = Inr (s\<lparr>buf := buf s @ size_bytes (word_of_nat n) @ bs\<rparr>)"
    using assms(2) size_write_then(1) [OF assms(1), of s big]
    by (cases "n = 0") (simp_all add: sized_write_def appendBytes_Inr)
next
  assume "sized_write big n bs s = Inr s'"
  then obtain t where t: "writeSize big (word_of_nat n) s = Inr t"
    and s': "(if 0 < n then appendBytes bs t else Inr t) = Inr s'"
    by (auto simp: sized_write_def andThen_eq_Inr)
  from size_write_then(2) [OF assms(1) t] s' show "s' = s\<lparr>buf := buf s @ size_bytes (word_of_nat n) @ bs\<rparr>"
    using assms(2) by (auto simp: appendBytes_Inr split: if_splits)
qed

lemma sized_codec:
  assumes len: "\<And>x. valid x \<Longrightarrow> n x < 2147483648" and empty: "\<And>x. n x = 0 \<Longrightarrow> body x = []"
    and eq: "\<And>x s. valid x \<Longrightarrow> wr x s = sized_write big (n x) (body x) s"
    and rd: "\<And>x s pre post. valid x \<Longrightarrow> ready s \<Longrightarrow> at s pre (size_bytes (word_of_nat (n x)) @ body x) post
        \<Longrightarrow> rd s = Inr (x, skip s (length (size_bytes (word_of_nat (n x)) @ body x)))"
    and skip: "\<And>s n. ready s \<Longrightarrow> ready (skip s n)"
  shows "wire_codec valid (\<lambda>x. size_bytes (word_of_nat (n x)) @ body x) wr rd ready"
proof (unfold_locales, goal_cases)
  case (1 x s)
  then show ?case by (simp only: eq sized_write_fits [OF len empty])
next
  case (2 x s s')
  then show ?case using sized_write_appends [OF len empty] eq by simp
next
  case (3 x s pre post)
  then show ?case by (rule rd)
next
  case (4 s n)
  then show ?case by (rule skip)
qed

lemma fixed_seq_codec:
  assumes "8 dvd LENGTH('a)" and "0 < LENGTH('a) div 8"
  shows "wire_codec (seq_valid (LENGTH('a) div 8)) seq_bytes (writeFixedSeq big)
    (readFixedSeq big :: 'a::len word list reader) seq_ready"
proof -
  have len: "length x < 2147483648" if "seq_valid (LENGTH('a) div 8) x" for x :: "'a word list"
    using size_product_small [OF _ assms(2)] that by (simp add: seq_valid_def)
  have eq: "writeFixedSeq big x s = sized_write big (length x) (concat (map le_bytes x)) s"
    if "seq_valid (LENGTH('a) div 8) x" for x :: "'a word list" and s
    by (simp add: writeFixedSeq_eq [OF assms(2) len [OF that]] sized_write_def)
  show ?thesis unfolding seq_bytes_def
    by (rule sized_codec [OF len _ eq readFixedSeq_at [OF _ _ assms]]) simp_all
qed

lemmas fixed_seq_defs =
  write_ShortSeq_def read_ShortSeq_def write_IntSeq_def read_IntSeq_def write_LongSeq_def read_LongSeq_def
  write_FloatSeq_def read_FloatSeq_def write_DoubleSeq_def read_DoubleSeq_def

interpretation short_seq_codec: wire_codec "seq_valid 2" seq_bytes "write_ShortSeq big" "read_ShortSeq big" seq_ready for big
  unfolding fixed_seq_defs using fixed_seq_codec [where 'a = 16] by simp

interpretation int_seq_codec: wire_codec "seq_valid 4" seq_bytes "write_IntSeq big" "read_IntSeq big" seq_ready for big
  unfolding fixed_seq_defs using fixed_seq_codec [where 'a = 32] by simp

interpretation long_seq_codec: wire_codec "seq_valid 8" seq_bytes "write_LongSeq big" "read_LongSeq big" seq_ready for big
  unfolding fixed_seq_defs using fixed_seq_codec [where 'a = 64] by simp

interpretation float_seq_codec: wire_codec "seq_valid 4" seq_bytes "write_FloatSeq big" "read_FloatSeq big" seq_ready for big
  unfolding fixed_seq_defs using fixed_seq_codec [where 'a = 32] by simp

interpretation double_seq_codec: wire_codec "seq_valid 8" seq_bytes "write_DoubleSeq big" "read_DoubleSeq big" seq_ready for big
  unfolding fixed_seq_defs using fixed_seq_codec [where 'a = 64] by simp

text \<open>Bytes and booleans.\<close>

lemma moveBytes_at:
  assumes "at s pre bs post" and "length bs < 2147483648"
  shows "moveBytes (word_of_nat (length bs)) s = Inr (bs, skip s (length bs))"
  using assms(1) by (simp add: moveBytes_def sint_word_of_nat [OF assms(2)] at_drop [OF assms(1)] skip_def at_def)

lemma read_ByteSeq_at:
  assumes "at s pre (size_bytes (word_of_nat (length bs)) @ bs) post" and "seq_ready s"
  shows "read_ByteSeq big s = Inr (bs, skip s (length (size_bytes (word_of_nat (length bs)) @ bs)))"
proof -
  let ?s = "skip s (length (size_bytes (word_of_nat (length bs))))"
  have len: "length bs < 2147483648" using assms by (simp add: at_def seq_ready_def)
  note body = at_next [OF assms(1)]
  have "checkFixedSeq (word_of_nat (length bs)) 1 ?s = Inr ?s"
    using checkFixedSeq_at [OF body, of "length bs" 1] assms(2) by simp
  then show ?thesis
    using readSize_at [OF at_append [OF assms(1)], of big] moveBytes_at [OF body len] sint_word_of_nat [OF len]
    by (cases "bs = []") (simp_all add: read_ByteSeq_def rbind_def)
qed

lemma read_boolSeq_eq:
  "read_boolSeq big = rbind (read_ByteSeq big) (\<lambda>bs. rret (map (\<lambda>b. b \<noteq> 0) bs))"
  by (rule ext) (simp add: read_boolSeq_def read_ByteSeq_def rbind_def rret_def andThen_def split: sum.splits prod.splits)

interpretation byte_seq_codec:
  wire_codec "\<lambda>xs. length xs < 2147483648" "\<lambda>xs. size_bytes (word_of_nat (length xs)) @ xs"
    "write_ByteSeq big" "read_ByteSeq big" seq_ready for big
  by (rule sized_codec [where big = big])
    (simp_all add: write_ByteSeq_def sized_write_def sint_word_of_nat read_ByteSeq_at del: length_append)

interpretation bool_seq_codec:
  wire_codec "\<lambda>xs. length xs < 2147483648"
    "\<lambda>xs. size_bytes (word_of_nat (length xs)) @ map (\<lambda>v. if v then 1 else 0) xs"
    "write_boolSeq big" "read_boolSeq big" seq_ready for big
proof (rule sized_codec [where big = big], goal_cases)
  case (4 xs s pre post)
  have "map (\<lambda>b. b \<noteq> (0 :: byte)) (map (\<lambda>v. if v then 1 else 0) xs) = xs" by (induction xs) auto
  then show ?case
    using read_ByteSeq_at [of s pre "map (\<lambda>v. if v then 1 else 0) xs" post big] 4
    by (simp add: read_boolSeq_eq rbind_def rret_def del: map_map)
qed (simp_all add: write_boolSeq_def sized_write_def sint_word_of_nat)

section \<open>Reading untrusted bytes\<close>

definition stream_ok :: "stream \<Rightarrow> bool" where
  "stream_ok s \<longleftrightarrow> 0 \<le> rpos s \<and> rpos s \<le> int (length (buf s)) \<and> length (buf s) < 2147483648"

text \<open>
  \<open>safe_read rd\<close>: from a well-formed stream, \<open>rd\<close> throws or returns; it never leaves the
  message, and it changes nothing but the iterator, which it does not move back.
\<close>

definition safe_read :: "'a reader \<Rightarrow> bool" where
  "safe_read rd \<longleftrightarrow> (\<forall>s. stream_ok s \<longrightarrow>
     (case rd s of
        Inl (Thrown e) \<Rightarrow> True
      | Inl _ \<Rightarrow> False
      | Inr (x, s') \<Rightarrow> (\<exists>n. s' = skip s n) \<and> stream_ok s'))"

lemma safe_read_rret [simp]: "safe_read (rret x)"
  by (auto simp: safe_read_def rret_def intro: exI [of _ 0])

lemma safe_read_rbind:
  assumes "safe_read m" and "\<And>x. safe_read (f x)"
  shows "safe_read (rbind m f)"
  unfolding safe_read_def
proof (intro allI impI)
  fix s
  assume s: "stream_ok s"
  show "case rbind m f s of Inl (Thrown e) \<Rightarrow> True | Inl _ \<Rightarrow> False
      | Inr (x, s') \<Rightarrow> (\<exists>n. s' = skip s n) \<and> stream_ok s'"
  proof (cases "m s")
    case (Inl e)
    then show ?thesis using assms(1) s by (auto simp: safe_read_def rbind_def split: failure.splits)
  next
    case (Inr p)
    obtain x t where p: "p = (x, t)" by (cases p)
    from assms(1) s Inr p have "\<exists>n. t = skip s n" and t: "stream_ok t" by (auto simp: safe_read_def)
    then obtain n where n: "t = skip s n" by blast
    have "case f x t of Inl (Thrown e) \<Rightarrow> True | Inl _ \<Rightarrow> False | Inr (y, s') \<Rightarrow> (\<exists>n. s' = skip t n) \<and> stream_ok s'"
      using assms(2) [of x] t unfolding safe_read_def by blast
    then show ?thesis using Inr p n by (auto simp: rbind_def split: sum.splits failure.splits)
  qed
qed

lemma safe_read_takeBytes [simp]: "safe_read (takeBytes n)"
  by (auto simp: safe_read_def takeBytes_def stream_ok_def skip_def)

lemma read_Byte_takeBytes: "read_Byte = rbind (takeBytes 1) (\<lambda>bs. rret (hd bs))"
proof (rule ext)
  fix s
  show "read_Byte s = rbind (takeBytes 1) (\<lambda>bs. rret (hd bs)) s"
  proof (cases "rpos s \<ge> int (length (buf s)) \<or> rpos s < 0")
    case True
    then show ?thesis by (auto simp: read_Byte_def takeBytes_def rbind_def)
  next
    case False
    then have "nat (rpos s) < length (buf s)" by linarith
    then have "hd (take 1 (drop (nat (rpos s)) (buf s))) = buf s ! nat (rpos s)" by (simp add: hd_drop_conv_nth)
    with False show ?thesis by (simp add: read_Byte_def takeBytes_def rbind_def rret_def)
  qed
qed

lemma safe_read_Byte [simp]: "safe_read read_Byte"
  unfolding read_Byte_takeBytes by (intro safe_read_rbind) simp_all

lemma read_bool_Byte: "read_bool = rbind read_Byte (\<lambda>b. rret (b \<noteq> 0))"
  by (rule ext) (simp add: read_bool_def read_Byte_def rbind_def rret_def)

lemma safe_read_bool [simp]: "safe_read read_bool"
  unfolding read_bool_Byte by (intro safe_read_rbind) simp_all

lemma safe_readFixed [simp]: "safe_read (readFixed big)"
  unfolding readFixed_def by (intro safe_read_rbind) simp_all

lemma safe_read_Int [simp]: "safe_read (read_Int big)"
  by (simp add: read_Int_def)

lemma safe_read_guard: "safe_read (\<lambda>s. if P then throw e else Inr (x, s))"
  by (auto simp: safe_read_def intro: exI [of _ 0])

lemma safe_readSize [simp]: "safe_read (readSize big)"
  unfolding readSize_def by (intro safe_read_rbind) (simp_all add: safe_read_rbind safe_read_guard)

lemma safe_readD:
  assumes "safe_read rd" and "stream_ok s" and "rd s = Inr (x, s')"
  shows "\<exists>n. s' = skip s n" and "stream_ok s'"
  using assms by (auto simp: safe_read_def)

lemma readSize_nonneg: "readSize big s = Inr (v, s') \<Longrightarrow> 0 \<le> sint v"
proof -
  assume *: "readSize big s = Inr (v, s')"
  have small: "0 \<le> sint (ucast (b :: byte) :: ice_int)" for b
  proof -
    have "uint (ucast b :: ice_int) < 256"
      using uint_lt2p [of b] by (simp add: unsigned_ucast_eq take_bit_eq_mod)
    then show ?thesis by (simp add: sint_if)
  qed
  from * show ?thesis
    using small by (auto simp: readSize_def rbind_def rret_def andThen_eq_Inr split: if_splits)
qed

lemma bytesLeft_ok: "stream_ok s \<Longrightarrow> sint (bytesLeft s) = int (length (buf s)) - rpos s"
  unfolding stream_ok_def bytesLeft_def by (rule sint_word_of_int) linarith+

lemma length_array_of_rep [simp]: "length (array_of_rep big n mem) = n"
  by (induction n arbitrary: mem) auto

section \<open>Properties\<close>

lemma readFixedSeqPair_at:
  assumes "at s pre (seq_bytes xs) post" and "seq_ready s" and "8 dvd LENGTH('a)" and "0 < LENGTH('a) div 8"
  shows "readFixedSeqPair onI big s = Inr (xs :: 'a::len word list, skip s (length (seq_bytes xs)))"
proof (cases onI)
  case False
  then show ?thesis using readFixedSeq_at [OF _ assms(2-4)] assms(1) by (simp add: readFixedSeqPair_def seq_bytes_def)
next
  case True
  let ?sz = "word_of_nat (length xs) :: ice_int" and ?k = "LENGTH('a) div 8"
  let ?s = "skip s (length (size_bytes ?sz))"
  have whole: "at s pre (size_bytes ?sz @ concat (map le_bytes xs)) post" using assms(1) by (simp add: seq_bytes_def)
  note body = at_next [OF whole]
  have small: "length xs * ?k < 2147483648" using whole assms(2) by (simp add: at_def seq_ready_def length_wire)
  note n = sint_word_of_nat [OF size_product_small [OF small assms(4)]] and nk = sint_product [OF small]
  have rd: "readSize big s = Inr (?sz, ?s)" using readSize_at [OF at_append [OF whole]] n by simp
  have chk: "checkFixedSeq ?sz (word_of_nat ?k) ?s = Inr ?s"
    by (rule checkFixedSeq_at [OF body]) (simp_all add: assms(2) length_wire)
  have val: "array_of_rep False (nat (int (length xs * ?k)) div ?k) (drop (nat (rpos ?s)) (buf ?s)) = xs"
    using assms(4) at_drop [OF body] array_of_wire [OF assms(3)] by (simp del: of_nat_mult)
  have pos: "rpos ?s = int (length pre + length (size_bytes ?sz))"
    "int (length (buf ?s)) = rpos ?s + int (length xs * ?k) + int (length post)"
    using whole by (simp_all add: at_def length_wire)
  show ?thesis using True rd chk n nk val pos
    by (cases "xs = []")
      (simp_all add: readFixedSeqPair_def rbind_def Let_def seq_bytes_def length_wire skip_def del: of_nat_mult)
qed

lemma stream_new_simps [simp]:
  "buf (stream_new m) = []" "rpos (stream_new m) = 0" "seqDataStack (stream_new m) = []"
  "messageSizeMax (stream_new m) = m"
  by (simp_all add: stream_new_def)

text \<open>
  A sequence of a fixed-size type (\<open>Short\<close>, \<open>Int\<close>, \<open>Long\<close>, \<open>Float\<close>, \<open>Double\<close>)
  written by a machine of either byte order is read back unchanged by a machine of either byte
  order, with the iterator left at the end, both by the copying \<open>read(vector&)\<close> and by
  \<open>read(pair&, auto_array&)\<close>, in its \<open>i386\<close> build too.\<close>

lemma fixed_seq_cross_platform:
  assumes "8 dvd LENGTH('a)" and "0 < LENGTH('a) div 8" and "seq_valid (LENGTH('a) div 8) xs"
    and "writeFixedSeq bigW (xs :: 'a::len word list) s = Inr s'"
    and "seqDataStack s = []" and "length (buf s') < 2147483648"
  shows "readFixedSeq bigR (s'\<lparr>rpos := int (length (buf s))\<rparr>) = Inr (xs, s'\<lparr>rpos := int (length (buf s'))\<rparr>)
       \<and> readFixedSeqPair onI bigR (s'\<lparr>rpos := int (length (buf s))\<rparr>) = Inr (xs, s'\<lparr>rpos := int (length (buf s'))\<rparr>)"
proof -
  have s': "s' = s\<lparr>buf := buf s @ seq_bytes xs\<rparr>"
    by (rule wire_codec.write_appends [OF fixed_seq_codec [OF assms(1,2)] assms(3,4)])
  let ?r = "s'\<lparr>rpos := int (length (buf s))\<rparr>"
  have at: "at ?r (buf s) (seq_bytes xs) []" and ready: "seq_ready ?r"
    using s' assms(5,6) by (simp_all add: at_def seq_ready_def)
  have "skip ?r (length (seq_bytes xs)) = s'\<lparr>rpos := int (length (buf s'))\<rparr>" using s' by (simp add: skip_def)
  then show ?thesis
    using wire_codec.read_back [OF fixed_seq_codec [OF assms(1,2)] assms(3) ready at]
      readFixedSeqPair_at [OF at ready assms(1,2)] by simp
qed

lemma fixed_seq_cross_platform_witness:
  "let xs = [0x12345678, 0xFFFFFFFE] :: ice_int list; s = stream_new 1000
   in (case writeFixedSeq True xs s of
         Inl _ \<Rightarrow> False
       | Inr s' \<Rightarrow> readFixedSeq False (s'\<lparr>rpos := 0\<rparr>) = Inr (xs, s'\<lparr>rpos := 9\<rparr>))"
proof -
  let ?xs = "[0x12345678, 0xFFFFFFFE] :: ice_int list" and ?s = "stream_new 1000"
  have w: "writeFixedSeq True ?xs ?s = Inr (?s\<lparr>buf := seq_bytes ?xs\<rparr>)"
    using wire_codec.write_fits [OF fixed_seq_codec, of ?xs ?s True]
    by (simp add: seq_valid_def stream_new_def seq_bytes_def length_size_bytes)
  have l: "length (seq_bytes ?xs) = 9"
    by (simp add: seq_bytes_def length_size_bytes)
  show ?thesis
    using fixed_seq_cross_platform [OF _ _ _ w, where bigR = False and onI = False] l
    by (simp add: w Let_def seq_valid_def)
qed

text \<open>
  An unmarshaled sequence of a fixed-size type occupies bytes that are really in the message,
  as long as its size in bytes is an \<open>int\<close>: no element comes from outside the message and the
  iterator stays inside it.\<close>

lemma readFixedSeq_bounded:
  assumes "stream_ok s" and "seqDataStack s = []" and "readFixedSeq big s = Inr (xs :: 'a::len word list, s')"
    and "length xs * (LENGTH('a) div 8) < 2147483648"
  shows "int (length xs * (LENGTH('a) div 8)) \<le> int (length (buf s)) - rpos s \<and> stream_ok s' \<and> rpos s < rpos s'"
proof -
  from assms(3) obtain sz t where sz: "readSize big s = Inr (sz, t)"
    and rest: "(if 0 < sint sz then andThen (checkFixedSeq sz (word_of_nat (LENGTH('a) div 8)) t) (moveSeq big sz)
                else Inr ([], t)) = Inr (xs, s')"
    by (auto simp: readFixedSeq_def rbind_def andThen_eq_Inr)
  obtain m where m: "t = skip s m" and t: "stream_ok t"
    using safe_readD [OF safe_readSize assms(1) sz] by blast
  have adv: "rpos s < rpos t"
    using sz by (auto simp: readSize_def rbind_def rret_def andThen_eq_Inr read_Byte_def readFixed_def read_Int_def
        takeBytes_def split: if_splits)
  show ?thesis
  proof (cases "0 < sint sz")
    case False
    then show ?thesis using rest t adv assms(1) by (auto simp: stream_ok_def)
  next
    case True
    let ?k = "LENGTH('a) div 8"
    have n: "length xs = nat (sint sz)" and c: "checkFixedSeq sz (word_of_nat ?k) t = Inr t"
      and s': "s' = t\<lparr>rpos := rpos t + sint (sz * word_of_nat ?k)\<rparr>"
      using rest True m assms(2)
      by (auto simp: andThen_eq_Inr checkFixedSeq_def moveSeq_def Let_def split: if_splits)
    have "sz = word_of_nat (length xs)" using n True sint_nonneg [of sz] by simp
    then have p: "sint (sz * word_of_nat ?k) = int (length xs * ?k)" using sint_product [OF assms(4)] by simp
    have "int (length xs * ?k) \<le> int (length (buf t)) - rpos t"
      using c m assms(2) p bytesLeft_ok [OF t] by (simp add: checkFixedSeq_def split: if_splits)
    then show ?thesis using s' p t adv m by (simp add: stream_ok_def del: of_nat_mult)
  qed
qed

lemma readFixedSeq_bounded_witness:
  "let s = (stream_new 100)\<lparr>buf := [1, 7, 0, 9]\<rparr>
   in (case readFixedSeq False s of
         Inl _ \<Rightarrow> False
       | Inr (xs :: ice_short list, s') \<Rightarrow> int (length xs * 2) \<le> int (length (buf s)) - rpos s \<and> stream_ok s')"
proof -
  let ?s = "(stream_new 100)\<lparr>buf := [1, 7, 0, 9]\<rparr>"
  have r: "readFixedSeq False ?s = Inr ([7 :: ice_short], ?s\<lparr>rpos := 3\<rparr>)" by code_simp
  have "stream_ok ?s" by (simp add: stream_ok_def stream_new_def)
  then show ?thesis using readFixedSeq_bounded [OF _ _ r] r by (simp add: stream_new_def)
qed

text \<open>
  The check on sequence sizes is a 32-bit product.  For elements of four bytes, the element
  count 0x40000001 passes it in a message with four bytes left, although such a sequence occupies
  more than 4 GB; for the same message a count of 2 is refused.\<close>

lemma checkFixedSeq_overflow:
  "let s = (stream_new 100)\<lparr>buf := [1, 2, 3, 4]\<rparr>
   in checkFixedSeq 0x40000001 4 s = Inr s \<and> sint (0x40000001 :: ice_int) * 4 > 4294967296 \<and>
      checkFixedSeq 2 4 s = throw UnmarshalOutOfBoundsException"
  by code_simp

text \<open>
  Reading a byte, a boolean, a fixed-size value, a size or a blob from any well-formed message
  returns a value or throws; it never reads outside the message, and the only part of the stream
  that changes is the iterator, which moves forward inside the message.\<close>

theorem primitive_reads_safe:
  "safe_read read_Byte \<and> safe_read read_bool \<and> safe_read (read_Short big) \<and> safe_read (read_Int big) \<and>
   safe_read (read_Long big) \<and> safe_read (read_Float big) \<and> safe_read (read_Double big) \<and>
   safe_read (readSize big) \<and> safe_read (readBlob sz)"
proof -
  have "safe_read (readBlob sz)"
    using safe_read_takeBytes [of "nat (sint sz)"] by (auto simp: safe_read_def readBlob_def intro: exI [of _ 0])
  then show ?thesis by (simp add: fixed_defs)
qed

end
