(* ===== verification/StreamString.thy ===== *)
theory StreamString imports WireCodec begin

text \<open>
  Strings, wide strings and their sequences on the stream
  (\<^verbatim>\<open>src/Ice-3.1.1/include/Ice/BasicStream.h\<close>, \<^verbatim>\<open>src/Ice-3.1.1/src/Ice/BasicStream.cpp\<close>).
  The string converter is a plug-in of the application and a parameter here.  \<open>toUTF8\<close> is seen
  through its calls of \<open>UTF8Buffer::getMoreBytes\<close>: the list of (bytes asked for, bytes then
  stored); \<open>fromUTF8\<close> decodes or throws.  Converters work on \<open>char\<close> or \<open>wchar_t\<close>, the type
  variable \<open>'c\<close>.
\<close>

section \<open>Model\<close>

definition byte_of_char :: "char \<Rightarrow> byte" where
  "byte_of_char c = word_of_nat (of_char c)"

definition char_of_byte :: "byte \<Rightarrow> char" where
  "char_of_byte b = char_of (unat b)"

record 'c converter =
  toUTF8 :: "'c list \<Rightarrow> failure + (nat \<times> byte list) list"
  fromUTF8 :: "byte list \<Rightarrow> failure + 'c list"

text \<open>
  The converter's calls of \<open>getMoreBytes\<close>.  Every call gives back the unused rest of the
  previous chunk before it grows the stream; the caller does so after the last one.
\<close>

fun getMoreBytes :: "(nat \<times> byte list) list \<Rightarrow> writer" where
  "getMoreBytes [] s = Inr s"
| "getMoreBytes ((howMany, used) # chunks) s =
     (if howMany = 0 then Inl AssertionFailed
      else andThen (stream_resize 0 (length (buf s) + howMany) s)
        (\<lambda>s'. if howMany < length used then Inl MemoryFault
              else getMoreBytes chunks
                     (s'\<lparr>buf := take (length (buf s) + length used) (overwrite (length (buf s)) used (buf s'))\<rparr>)))"

definition memmove :: "nat \<Rightarrow> nat \<Rightarrow> nat \<Rightarrow> byte list \<Rightarrow> byte list" where
  "memmove dest src n mem = overwrite dest (take n (drop src mem)) mem"

text \<open>The correction of the size, when the guess was wrong.\<close>

definition fixSize :: "bool \<Rightarrow> ice_int \<Rightarrow> nat \<Rightarrow> nat \<Rightarrow> writer" where
  "fixSize big guessedSize firstIndex actual s =
     (let actualSize = word_of_nat actual :: ice_int
      in if guessedSize = actualSize then Inr s
         else andThen
           (if sint guessedSize \<le> 254 \<and> sint actualSize > 254 then
              andThen (stream_resize 0 (length (buf s) + 4) s)
                (\<lambda>s3. Inr (s3\<lparr>buf := memmove (firstIndex + 4) firstIndex actual (buf s3)\<rparr>))
            else if sint guessedSize > 254 \<and> sint actualSize \<le> 254 then
              stream_resize 0 (length (buf s) - 4)
                (s\<lparr>buf := memmove (firstIndex - 4) firstIndex actual (buf s)\<rparr>)
            else Inr s)
           (rewriteSize big actualSize
              (if sint guessedSize \<le> 254 then firstIndex - 1 else firstIndex - 1 - 4)))"

definition writeConverted :: "bool \<Rightarrow> 'c converter \<Rightarrow> 'c list \<Rightarrow> writer" where
  "writeConverted big conv v s =
     (let guessedSize = word_of_nat (length v) :: ice_int
      in andThen (writeSize big guessedSize s) (\<lambda>s1.
         let firstIndex = length (buf s1)
         in andThen (toUTF8 conv v) (\<lambda>chunks.
            andThen (getMoreBytes chunks s1) (\<lambda>s2.
            let lastIndex = length (buf s2)
            in fixSize big guessedSize firstIndex (lastIndex - firstIndex) s2))))"

definition write_string :: "bool \<Rightarrow> char converter option \<Rightarrow> bool \<Rightarrow> string \<Rightarrow> writer" where
  "write_string big stringConverter convert v s =
     (let sz = word_of_nat (length v) :: ice_int
      in case (if convert \<and> 0 < sint sz then stringConverter else None) of
           Some conv \<Rightarrow> writeConverted big conv v s
         | None \<Rightarrow>
             andThen (writeSize big sz s)
               (\<lambda>s'. if 0 < sint sz then appendBytes (map byte_of_char v) s' else Inr s'))"

definition read_string :: "bool \<Rightarrow> char converter option \<Rightarrow> bool \<Rightarrow> string reader" where
  "read_string big stringConverter convert =
     rbind (readSize big)
       (\<lambda>sz s. if 0 < sint sz
               then rbind (takeBytes (nat (sint sz)))
                      (\<lambda>bs s'. case (if convert then stringConverter else None) of
                                 Some conv \<Rightarrow> andThen (fromUTF8 conv bs) (\<lambda>v. Inr (v, s'))
                               | None \<Rightarrow> Inr (map char_of_byte bs, s')) s
               else Inr ([], s))"

definition write_wstring :: "bool \<Rightarrow> 'w converter \<Rightarrow> 'w list \<Rightarrow> writer" where
  "write_wstring big wstringConverter v s =
     (if v = [] then writeSize big 0 s else writeConverted big wstringConverter v s)"

definition read_wstring :: "bool \<Rightarrow> 'w converter \<Rightarrow> 'w list reader" where
  "read_wstring big wstringConverter =
     rbind (readSize big)
       (\<lambda>sz s. if 0 < sint sz
               then rbind (takeBytes (nat (sint sz)))
                      (\<lambda>bs s'. andThen (fromUTF8 wstringConverter bs) (\<lambda>v. Inr (v, s'))) s
               else Inr ([], s))"

text \<open>Sequences: a size and the elements one by one, with the sequence checks while reading.\<close>

definition writeElems :: "bool \<Rightarrow> ('a \<Rightarrow> writer) \<Rightarrow> 'a list \<Rightarrow> writer" where
  "writeElems big wr xs s =
     (let sz = word_of_nat (length xs) :: ice_int
      in andThen (writeSize big sz s) (\<lambda>s'. if 0 < sint sz then writeAll wr xs s' else Inr s'))"

fun elemLoop :: "'a reader \<Rightarrow> nat \<Rightarrow> 'a list reader" where
  "elemLoop rd 0 s = Inr ([], s)"
| "elemLoop rd (Suc j) s =
     andThen (rd s) (\<lambda>(x, s1).
     andThen (checkSeq (bytesLeft s1) s1) (\<lambda>s2.
     andThen (endElement s2) (\<lambda>s3.
     andThen (elemLoop rd j s3) (\<lambda>(xs, s4). Inr (x # xs, s4)))))"

definition readElems :: "bool \<Rightarrow> 'a reader \<Rightarrow> 'a list reader" where
  "readElems big rd =
     rbind (readSize big)
       (\<lambda>sz s. if 0 < sint sz
               then andThen (startSeq sz 1 s) (\<lambda>s1.
                    andThen (elemLoop rd (nat (sint sz)) s1) (\<lambda>(xs, s2).
                    andThen (endSeq sz s2) (\<lambda>s3. Inr (xs, s3))))
               else Inr ([], s))"

definition write_stringSeq :: "bool \<Rightarrow> char converter option \<Rightarrow> bool \<Rightarrow> string list \<Rightarrow> writer" where
  "write_stringSeq big stringConverter convert = writeElems big (write_string big stringConverter convert)"

definition read_stringSeq :: "bool \<Rightarrow> char converter option \<Rightarrow> bool \<Rightarrow> string list reader" where
  "read_stringSeq big stringConverter convert = readElems big (read_string big stringConverter convert)"

definition write_wstringSeq :: "bool \<Rightarrow> 'w converter \<Rightarrow> 'w list list \<Rightarrow> writer" where
  "write_wstringSeq big wstringConverter = writeElems big (write_wstring big wstringConverter)"

definition read_wstringSeq :: "bool \<Rightarrow> 'w converter \<Rightarrow> 'w list list reader" where
  "read_wstringSeq big wstringConverter = readElems big (read_wstring big wstringConverter)"

section \<open>Plain strings\<close>

lemma char_of_byte_of_char [simp]: "char_of_byte (byte_of_char c) = c"
proof -
  have "of_char c < (256 :: nat)" by (metis char_of_char mod_less_divisor of_char_of zero_less_numeral)
  then show ?thesis by (simp add: char_of_byte_def byte_of_char_def unat_of_nat)
qed

lemma byte_of_char_of_byte [simp]: "byte_of_char (char_of_byte b) = b"
  using unsigned_less [of b, where 'a = nat] by (simp add: char_of_byte_def byte_of_char_def)

definition string_bytes :: "string \<Rightarrow> byte list" where
  "string_bytes v = size_bytes (word_of_nat (length v)) @ map byte_of_char v"

lemma read_sized:
  assumes "at s pre (size_bytes (word_of_nat (length bs)) @ bs) post" and "length bs < 2147483648"
  shows "readSize big s = Inr (word_of_nat (length bs), skip s (length (size_bytes (word_of_nat (length bs)))))"
    and "takeBytes (length bs) (skip s (length (size_bytes (word_of_nat (length bs))))) =
         Inr (bs, skip s (length (size_bytes (word_of_nat (length bs)) @ bs)))"
  using readSize_at [OF at_append [OF assms(1)]] takeBytes_at [OF at_next [OF assms(1)]] sint_word_of_nat [OF assms(2)]
  by simp_all

interpretation string_codec:
  wire_codec "\<lambda>v. length v < 2147483648" string_bytes "write_string big None convert" "read_string big None convert"
    "\<lambda>_. True" for big convert
  unfolding string_bytes_def
proof (rule sized_codec [where big = big], goal_cases)
  case (4 v s pre post)
  then show ?case using read_sized(1) [of s pre "map byte_of_char v" post big]
      read_sized(2) [of s pre "map byte_of_char v" post] sint_word_of_nat [of "length v"]
    by (cases "v = []") (simp_all add: read_string_def rbind_def comp_def)
qed (simp_all add: write_string_def sized_write_def sint_word_of_nat)

section \<open>Converted strings\<close>

text \<open>A converter behaves when it asks for at least one byte and stores at most what it asked for.\<close>

definition chunks_ok :: "(nat \<times> byte list) list \<Rightarrow> bool" where
  "chunks_ok chunks = list_all (\<lambda>(howMany, used). 0 < howMany \<and> length used \<le> howMany) chunks"

lemma getMoreBytes_appends:
  "getMoreBytes chunks s = Inr s' \<Longrightarrow> s' = s\<lparr>buf := buf s @ concat (map snd chunks)\<rparr>"
proof (induction chunks s rule: getMoreBytes.induct)
  case (1 s)
  then show ?case by simp
next
  case (2 howMany used chunks s)
  then show ?case
    by (auto simp: andThen_eq_Inr stream_resize_def overwrite_def split: if_splits)
qed

lemma getMoreBytes_fits:
  assumes "chunks_ok chunks" and "length (buf s) + sum_list (map fst chunks) \<le> messageSizeMax s"
  shows "getMoreBytes chunks s = Inr (s\<lparr>buf := buf s @ concat (map snd chunks)\<rparr>)"
  using assms
proof (induction chunks s rule: getMoreBytes.induct)
  case (1 s)
  then show ?case by simp
next
  case (2 howMany used chunks s)
  then show ?case by (auto simp: chunks_ok_def stream_resize_def overwrite_def)
qed

lemma move_forward:
  assumes "length z = 5"
  shows "overwrite (length P) z (memmove (Suc (length P) + 4) (Suc (length P)) (length u)
      (P @ x # u @ replicate 4 f)) = P @ z @ u"
proof -
  have "Suc (length P) + 4 = length (P @ [x]) + 4" by simp
  then have "take (Suc (length P) + 4) (P @ x # u @ replicate 4 f) = P @ x # take 4 (u @ replicate 4 f)"
    by simp
  moreover have "length (take 4 (u @ replicate 4 f)) = 4" by simp
  moreover have "take (length u) (u @ replicate 4 f) = u" by simp
  ultimately have "memmove (Suc (length P) + 4) (Suc (length P)) (length u) (P @ x # u @ replicate 4 f) =
      P @ x # take 4 (u @ replicate 4 f) @ u"
    by (simp add: memmove_def overwrite_def del: take_append)
  then show ?thesis using assms by (simp add: overwrite_def)
qed

lemma move_back:
  assumes "length y = 5" and "length z = 1"
  shows "overwrite (length P) z (take (length P + 5 + length u - 4)
      (memmove (length P + 5 - 4) (length P + 5) (length u) (P @ y @ u))) = P @ z @ u"
  using assms by (simp add: memmove_def overwrite_def)


definition utf8_bytes :: "byte list \<Rightarrow> byte list" where
  "utf8_bytes u = size_bytes (word_of_nat (length u)) @ u"

lemma rewriteSize_bytes:
  "0 \<le> sint v \<Longrightarrow> rewriteSize big v dest s = Inr (s\<lparr>buf := overwrite dest (size_bytes v) (buf s)\<rparr>)"
  by (simp add: rewriteSize_def size_bytes_def marshalArray_wire)

lemma fix_guess:
  assumes g: "0 \<le> sint guessed" and len: "length u < 2147483648"
    and s2: "s2 = s\<lparr>buf := P @ size_bytes guessed @ u\<rparr>" and first: "firstIndex = length P + length (size_bytes guessed)"
    and r: "r = fixSize big guessed firstIndex (length u) s2"
  shows "r = throw MemoryLimitException \<or> r = Inr (s\<lparr>buf := P @ utf8_bytes u\<rparr>)"
    and "length P + 9 + length u \<le> messageSizeMax s \<Longrightarrow> r = Inr (s\<lparr>buf := P @ utf8_bytes u\<rparr>)"
proof -
  define actual where a: "actual = (word_of_nat (length u) :: ice_int)"
  have sa: "sint actual = int (length u)" using sint_word_of_nat [OF len] a by simp
  then have act: "0 \<le> sint actual" by simp
  note res = r [unfolded fixSize_def Let_def, folded a]
  have sb: "utf8_bytes u = size_bytes actual @ u" using a by (simp add: utf8_bytes_def)
  consider (same) "guessed = actual"
    | (grow) "guessed \<noteq> actual" "sint guessed \<le> 254" "sint actual > 254"
    | (shrink) "guessed \<noteq> actual" "sint guessed > 254" "sint actual \<le> 254"
    | (small) "guessed \<noteq> actual" "sint guessed \<le> 254" "sint actual \<le> 254"
    | (big) "guessed \<noteq> actual" "sint guessed > 254" "sint actual > 254" by linarith
  then have "(r = throw MemoryLimitException \<or> r = Inr (s\<lparr>buf := P @ utf8_bytes u\<rparr>)) \<and>
    (length P + 9 + length u \<le> messageSizeMax s \<longrightarrow> r = Inr (s\<lparr>buf := P @ utf8_bytes u\<rparr>))"
  proof cases
    case same
    then show ?thesis using res s2 sb by auto
  next
    case grow
    have len5: "length (size_bytes actual) = 5" and sg: "size_bytes guessed = [ucast guessed]"
      using grow by (simp_all add: length_size_bytes size_bytes_def)
    have "overwrite (length P) (size_bytes actual) (memmove (Suc (length P) + 4) (Suc (length P)) (length u)
        (P @ ucast guessed # u @ replicate 4 0)) = P @ utf8_bytes u"
      using move_forward [OF len5] sb by simp
    then show ?thesis using grow res s2 first act sg
      by (cases "messageSizeMax s < 5 + (length P + length u)") (auto simp: stream_resize_def rewriteSize_bytes)
  next
    case shrink
    have len1: "length (size_bytes actual) = 1" and sg: "length (size_bytes guessed) = 5"
      using shrink by (simp_all add: length_size_bytes)
    show ?thesis using shrink res s2 first act sg move_back [OF sg len1, of P u] sb
      by (auto simp: stream_resize_def rewriteSize_bytes memmove_def overwrite_def)
  next
    case small
    then show ?thesis using res s2 first act sb
      by (auto simp: rewriteSize_bytes length_size_bytes overwrite_def size_bytes_def)
  next
    case big
    then show ?thesis using res s2 first act sb
      by (auto simp: rewriteSize_bytes length_size_bytes overwrite_def size_bytes_def)
  qed
  then show "r = throw MemoryLimitException \<or> r = Inr (s\<lparr>buf := P @ utf8_bytes u\<rparr>)"
    and "length P + 9 + length u \<le> messageSizeMax s \<Longrightarrow> r = Inr (s\<lparr>buf := P @ utf8_bytes u\<rparr>)" by auto
qed


lemma writeConverted_result:
  assumes "toUTF8 conv v = Inr chunks" and "u = concat (map snd chunks)"
    and "length v < 2147483648" and "length u < 2147483648"
  shows writeConverted_appends: "writeConverted big conv v s = Inr s' \<Longrightarrow> s' = s\<lparr>buf := buf s @ utf8_bytes u\<rparr>"
    and writeConverted_fits: "chunks_ok chunks \<Longrightarrow>
      length (buf s) + 9 + length u + sum_list (map fst chunks) \<le> messageSizeMax s \<Longrightarrow>
      writeConverted big conv v s = Inr (s\<lparr>buf := buf s @ utf8_bytes u\<rparr>)"
proof -
  let ?g = "word_of_nat (length v) :: ice_int"
  have g: "0 \<le> sint ?g" using sint_word_of_nat [OF assms(3)] by simp
  assume w: "writeConverted big conv v s = Inr s'"
  then obtain s1 s2 where s1: "writeSize big ?g s = Inr s1" and s2: "getMoreBytes chunks s1 = Inr s2"
    by (auto simp: writeConverted_def Let_def andThen_eq_Inr assms(1))
  have e1: "s1 = s\<lparr>buf := buf s @ size_bytes ?g\<rparr>" using size_write_then(2) [OF assms(3) s1] .
  have e2: "s2 = s\<lparr>buf := buf s @ size_bytes ?g @ u\<rparr>" using getMoreBytes_appends [OF s2] e1 assms(2) by simp
  note s2' = s2 [unfolded e1 e2]
  show "s' = s\<lparr>buf := buf s @ utf8_bytes u\<rparr>"
    using fix_guess(1) [OF g assms(4) refl refl refl, where P = "buf s" and s = s and big = big] w
    by (auto simp: writeConverted_def Let_def assms(1) s1 s2' e1)
next
  let ?g = "word_of_nat (length v) :: ice_int"
  have g: "0 \<le> sint ?g" using sint_word_of_nat [OF assms(3)] by simp
  assume ok: "chunks_ok chunks" and room: "length (buf s) + 9 + length u + sum_list (map fst chunks) \<le> messageSizeMax s"
  have s1: "writeSize big ?g s = Inr (s\<lparr>buf := buf s @ size_bytes ?g\<rparr>)"
    using room by (intro size_write_then(1) [OF assms(3)]) (simp add: length_size_bytes)
  have s2: "getMoreBytes chunks (s\<lparr>buf := buf s @ size_bytes ?g\<rparr>) = Inr (s\<lparr>buf := buf s @ size_bytes ?g @ u\<rparr>)"
    using getMoreBytes_fits [OF ok, of "s\<lparr>buf := buf s @ size_bytes ?g\<rparr>"] room assms(2)
    by (simp add: length_size_bytes split: if_splits)
  show "writeConverted big conv v s = Inr (s\<lparr>buf := buf s @ utf8_bytes u\<rparr>)"
    using fix_guess(2) [OF g assms(4) refl refl refl, of "buf s" s big] room
    by (simp add: writeConverted_def Let_def assms(1) s1 s2)
qed


section \<open>Sequences of variable-length elements\<close>

text \<open>
  An element that occupies at least one byte can be the element of a sequence read with the
  checks of \<open>startSeq\<close>, \<open>checkSeq\<close>, \<open>endElement\<close> and \<open>endSeq\<close>.
\<close>

locale elem_codec = wire_codec +
  assumes enc_nonempty: "valid x \<Longrightarrow> enc x \<noteq> []"
    and ready_stack: "ready s \<Longrightarrow> ready (s\<lparr>seqDataStack := sd\<rparr>)"
begin

lemma elems_length: "list_all valid xs \<Longrightarrow> length xs \<le> length (concat (map enc xs))"
proof (induction xs)
  case Nil
  then show ?case by simp
next
  case (Cons x xs)
  then have "enc x \<noteq> []" using enc_nonempty by simp
  with Cons show ?case by (cases "enc x") auto
qed

lemma elemLoop_back:
  assumes "list_all valid xs" and "ready s" and "at s pre (concat (map enc xs)) post"
    and "length (buf s) < 2147483648" and "seqDataStack s = [(word_of_nat (length xs), 1)]"
  shows "elemLoop rd (length xs) s =
    Inr (xs, (skip s (length (concat (map enc xs))))\<lparr>seqDataStack := [(0, 1)]\<rparr>)"
  using assms
proof (induction xs arbitrary: s pre)
  case Nil
  then show ?case by simp
next
  case (Cons x xs)
  let ?s1 = "skip s (length (enc x))"
  have at: "at s pre (enc x @ concat (map enc xs)) post" using Cons.prems(3) by simp
  have rd: "rd s = Inr (x, ?s1)" using Cons.prems by (intro read_back [OF _ _ at_append [OF at]]) simp_all
  note body = at_next [OF at]
  have n: "length xs \<le> length (concat (map enc xs))" using Cons.prems(1) elems_length by simp
  have small: "length xs < 2147483648" using n Cons.prems(3,4) by (simp add: at_def)
  have st: "seqDataStack s = [(1 + word_of_nat (length xs), 1)]" using Cons.prems(5) by simp
  have chk: "checkSeq (bytesLeft ?s1) ?s1 = Inr ?s1"
    using n bytesLeft_at [OF body] Cons.prems(4) sint_word_of_nat [OF small] by (simp add: checkSeq_def st)
  have e: "endElement ?s1 = Inr (?s1\<lparr>seqDataStack := [(word_of_nat (length xs), 1)]\<rparr>)"
    by (simp add: endElement_def st)
  let ?s3 = "?s1\<lparr>seqDataStack := [(word_of_nat (length xs), 1)]\<rparr>"
  have "at ?s3 (pre @ enc x) (concat (map enc xs)) post" using body by (simp add: at_def)
  then have "elemLoop rd (length xs) ?s3 = Inr (xs, (skip ?s3 (length (concat (map enc xs))))\<lparr>seqDataStack := [(0, 1)]\<rparr>)"
    using Cons.prems by (intro Cons.IH) (simp_all add: ready_skip ready_stack)
  then show ?case using rd chk e by (simp add: skip_def algebra_simps)
qed

lemma readElems_back:
  assumes "list_all valid xs" and "ready s" and "at s pre (size_bytes (word_of_nat (length xs)) @ concat (map enc xs)) post"
    and "seq_ready s"
  shows "readElems big rd s =
    Inr (xs, skip s (length (size_bytes (word_of_nat (length xs)) @ concat (map enc xs))))"
proof (cases "xs = []")
  case True
  then show ?thesis using readSize_at [OF at_append [OF assms(3)], of big] by (simp add: readElems_def rbind_def)
next
  case False
  let ?sz = "word_of_nat (length xs) :: ice_int"
  let ?t = "skip s (length (size_bytes ?sz))" and ?u = "(skip s (length (size_bytes ?sz)))\<lparr>seqDataStack := [(?sz, 1)]\<rparr>"
  note body = at_next [OF assms(3)]
  have buf: "length (buf s) < 2147483648" and st: "seqDataStack s = []" using assms(4) by (simp_all add: seq_ready_def)
  have n: "length xs \<le> length (concat (map enc xs))" using assms(1) by (rule elems_length)
  have small: "length xs < 2147483648" using n buf assms(3) by (simp add: at_def)
  have sz: "sint ?sz = int (length xs)" by (rule sint_word_of_nat [OF small])
  have nz: "?sz \<noteq> 0" using sz False by auto
  have rd: "readSize big s = Inr (?sz, ?t)" using readSize_at [OF at_append [OF assms(3)]] sz by simp
  have start: "startSeq ?sz 1 ?t = Inr ?u"
    using bytesLeft_at [OF body] buf n st nz sz by (simp add: startSeq_def Let_def)
  have "at ?u (pre @ size_bytes ?sz) (concat (map enc xs)) post" using body by (simp add: at_def)
  then have "elemLoop rd (length xs) ?u = Inr (xs, (skip ?u (length (concat (map enc xs))))\<lparr>seqDataStack := [(0, 1)]\<rparr>)"
    using assms(1,2) buf by (intro elemLoop_back) (simp_all add: ready_skip ready_stack)
  moreover have "endSeq ?sz ((skip ?u (length (concat (map enc xs))))\<lparr>seqDataStack := [(0, 1)]\<rparr>) =
      Inr (skip s (length (size_bytes ?sz @ concat (map enc xs))))"
    using nz st by (simp add: endSeq_def skip_def algebra_simps)
  ultimately show ?thesis using rd start sz False by (simp add: readElems_def rbind_def)
qed

end

lemma size_bytes_nonempty [simp]: "size_bytes v \<noteq> []"
  by (simp add: size_bytes_def)

interpretation string_elem:
  elem_codec "\<lambda>v. length v < 2147483648" string_bytes "write_string big None convert" "read_string big None convert"
    "\<lambda>_. True" for big convert
  by unfold_locales (simp_all add: string_bytes_def)

section \<open>Reading untrusted strings\<close>

lemma safe_read_sized:
  assumes "\<And>bs. safe_read (f bs)"
  shows "safe_read (rbind (readSize big)
    (\<lambda>sz s. if 0 < sint sz then rbind (takeBytes (nat (sint sz))) f s else Inr (x, s)))"
proof (rule safe_read_rbind [OF safe_readSize])
  fix sz :: ice_int
  show "safe_read (\<lambda>s. if 0 < sint sz then rbind (takeBytes (nat (sint sz))) f s else Inr (x, s))"
    using safe_read_rbind [OF safe_read_takeBytes assms] safe_read_rret [of x]
    by (cases "0 < sint sz") (simp_all add: rret_def [abs_def])
qed

lemma safe_read_string: "safe_read (read_string big None convert)"
proof -
  have "safe_read (\<lambda>s. Inr (map char_of_byte bs, s))" for bs
    using safe_read_rret [of "map char_of_byte bs"] by (simp add: rret_def [abs_def])
  from safe_read_sized [where f = "\<lambda>bs s. Inr (map char_of_byte bs, s)" and big = big and x = "[]", OF this]
  show ?thesis by (simp add: read_string_def cong: if_cong)
qed

lemma elemLoop_safe:
  assumes "safe_read rd" and "stream_ok s" and "seqDataStack s = [(w, 1)]"
  shows "case elemLoop rd j s of Inl (Thrown e) \<Rightarrow> True | Inl _ \<Rightarrow> False
      | Inr (xs, s') \<Rightarrow> length xs = j \<and> stream_ok s' \<and> (\<exists>n w'. s' = (skip s n)\<lparr>seqDataStack := [(w', 1)]\<rparr>)"
  using assms(2,3)
proof (induction j arbitrary: s w)
  case 0
  then have "s = (skip s 0)\<lparr>seqDataStack := [(w, 1)]\<rparr>" by simp
  then have "\<exists>n w'. s = (skip s n)\<lparr>seqDataStack := [(w', 1)]\<rparr>" by blast
  with 0 show ?case by simp
next
  case (Suc j)
  show ?case
  proof (cases "rd s")
    case (Inl e)
    then show ?thesis using assms(1) Suc.prems by (auto simp: safe_read_def split: failure.splits)
  next
    case (Inr p)
    then obtain x s1 where p: "rd s = Inr (x, s1)" by (cases p) simp
    then obtain n where n: "s1 = skip s n" and s1: "stream_ok s1"
      using safe_readD [OF assms(1) Suc.prems(1)] by blast
    show ?thesis
    proof (cases "checkSeq (bytesLeft s1) s1")
      case (Inl e)
      then show ?thesis using p n Suc.prems(2) by (auto simp: checkSeq_def split: if_splits)
    next
      case (Inr s2)
      then have s2: "s2 = s1" by (auto simp: checkSeq_def split: if_splits)
      let ?s3 = "s1\<lparr>seqDataStack := [(w - 1, 1)]\<rparr>"
      have e: "endElement s1 = Inr ?s3" using n Suc.prems(2) by (simp add: endElement_def)
      have "stream_ok ?s3" using s1 by (simp add: stream_ok_def)
      from Suc.IH [OF this, of "w - 1"] have "case elemLoop rd j ?s3 of Inl (Thrown e) \<Rightarrow> True | Inl _ \<Rightarrow> False
          | Inr (xs, s') \<Rightarrow> length xs = j \<and> stream_ok s' \<and> (\<exists>m w'. s' = (skip ?s3 m)\<lparr>seqDataStack := [(w', 1)]\<rparr>)"
        by simp
      moreover have "(skip ?s3 m)\<lparr>seqDataStack := sd\<rparr> = (skip s (n + m))\<lparr>seqDataStack := sd\<rparr>" for m sd
        using n by (simp add: skip_def)
      ultimately show ?thesis using p Inr s2 e by (auto split: sum.splits failure.splits)
    qed
  qed
qed

lemma readElems_safe:
  assumes "safe_read rd" and "stream_ok s" and "seqDataStack s = []"
  shows "case readElems big rd s of Inl (Thrown e) \<Rightarrow> True | Inl _ \<Rightarrow> False
      | Inr (xs, s') \<Rightarrow> int (length xs) \<le> int (length (buf s)) - rpos s \<and> stream_ok s' \<and> (\<exists>n. s' = skip s n)"
proof (cases "readSize big s")
  case (Inl e)
  then show ?thesis using safe_readSize [of big] assms(2) by (auto simp: safe_read_def readElems_def rbind_def split: failure.splits)
next
  case (Inr p)
  then obtain sz t where t: "readSize big s = Inr (sz, t)" by (cases p) simp
  then obtain n where n: "t = skip s n" and ok: "stream_ok t" using safe_readD [OF safe_readSize assms(2)] by blast
  show ?thesis
  proof (cases "0 < sint sz")
    case False
    then show ?thesis using t n ok assms(2) by (auto simp: readElems_def rbind_def stream_ok_def)
  next
    case True
    show ?thesis
    proof (cases "sint sz > sint (bytesLeft t)")
      case big: True
      then show ?thesis using t n True assms(3) by (auto simp: readElems_def rbind_def startSeq_def Let_def)
    next
      case False
      let ?u = "t\<lparr>seqDataStack := [(sz, 1)]\<rparr>"
      have start: "startSeq sz 1 t = Inr ?u" using False True n assms(3) by (auto simp: startSeq_def Let_def)
      have "stream_ok ?u" using ok by (simp add: stream_ok_def)
      note loop = elemLoop_safe [OF assms(1) this, of sz "nat (sint sz)"]
      have "sint sz \<le> int (length (buf s)) - rpos s" using False bytesLeft_ok [OF ok] n by simp
      moreover have "sz \<noteq> 0" using True by auto
      moreover have "(skip ?u m)\<lparr>seqDataStack := []\<rparr> = skip s (n + m)" for m
        using n assms(3) by (simp add: skip_def)
      moreover have "stream_ok (v\<lparr>seqDataStack := sd\<rparr>) = stream_ok v" for v sd by (simp add: stream_ok_def)
      moreover have "stream_ok (skip ?u m) = stream_ok (skip s (n + m))" for m using n by (simp add: stream_ok_def add.assoc)
      ultimately show ?thesis using t True start loop
        by (auto simp: readElems_def rbind_def endSeq_def split: sum.splits failure.splits)
    qed
  qed
qed

section \<open>Properties\<close>

text \<open>
  Writing a string through a converter leaves exactly the size of the converted bytes followed
  by those bytes, although the size is written before the conversion as a guess: whether the guess
  was right, too small or too large, and whether or not the correction changes the size field from
  one byte to five or back.\<close>

theorem writeConverted_layout:
  assumes "toUTF8 conv v = Inr chunks" and "chunks_ok chunks"
    and "length v < 2147483648" and "length (concat (map snd chunks)) < 2147483648"
    and "length (buf s) + 9 + length (concat (map snd chunks)) + sum_list (map fst chunks) \<le> messageSizeMax s"
  shows "writeConverted big conv v s =
    Inr (s\<lparr>buf := buf s @ size_bytes (word_of_nat (length (concat (map snd chunks)))) @ concat (map snd chunks)\<rparr>)"
  using writeConverted_fits [OF assms(1) refl assms(3,4,2,5)] by (simp add: utf8_bytes_def)

theorem writeConverted_layout_witness:
  "writeConverted True \<lparr>toUTF8 = \<lambda>v. Inr [(400, concat (map (\<lambda>c. [195, byte_of_char c]) v))], fromUTF8 = \<lambda>_. Inr []\<rparr>
     (replicate 200 CHR ''x'') (stream_new 10000) =
   Inr ((stream_new 10000)\<lparr>buf := [255, 0x90, 1, 0, 0] @ concat (replicate 200 [195, 120])\<rparr>)"
proof -
  let ?conv = "\<lparr>toUTF8 = \<lambda>v. Inr [(400, concat (map (\<lambda>c. [195, byte_of_char c]) v))], fromUTF8 = \<lambda>_. Inr []\<rparr>"
  let ?u = "concat (map (\<lambda>c. [195, byte_of_char c]) (replicate 200 CHR ''x''))"
  have u: "?u = concat (replicate 200 [195, 120])" by (simp add: byte_of_char_def)
  have l: "length (concat (replicate n [195, 120 :: byte])) = 2 * n" for n by (induction n) auto
  have b: "size_bytes (400 :: ice_int) = [255, 0x90, 1, 0, 0]" by code_simp
  show ?thesis
    using writeConverted_layout [of ?conv "replicate 200 CHR ''x''" "[(400, ?u)]" "stream_new 10000" True]
    by (simp add: chunks_ok_def l [of 200, simplified] b u [simplified])
qed

text \<open>
  A sequence of strings written to a stream is read back unchanged, with the sequence stack
  and the iterator as after a complete read.\<close>

theorem stringSeq_roundtrip:
  assumes "length xs < 2147483648" and "list_all (\<lambda>v. length v < 2147483648) xs"
    and "write_stringSeq bigW None convert xs s = Inr s'"
    and "seqDataStack s = []" and "length (buf s') < 2147483648"
  shows "read_stringSeq bigR None convert (s'\<lparr>rpos := int (length (buf s))\<rparr>) =
         Inr (xs, s'\<lparr>rpos := int (length (buf s'))\<rparr>)"
proof -
  let ?body = "concat (map string_bytes xs)"
  from assms(3) obtain t where t: "writeSize bigW (word_of_nat (length xs)) s = Inr t"
    and s'': "(if xs \<noteq> [] then writeAll (write_string bigW None convert) xs t else Inr t) = Inr s'"
    by (auto simp: write_stringSeq_def writeElems_def Let_def andThen_eq_Inr sint_word_of_nat [OF assms(1)])
  have "t = s\<lparr>buf := buf s @ size_bytes (word_of_nat (length xs))\<rparr>" by (rule size_write_then(2) [OF assms(1) t])
  then have s': "s' = s\<lparr>buf := buf s @ size_bytes (word_of_nat (length xs)) @ ?body\<rparr>"
    using s'' string_codec.write_all_appends [OF assms(2), of bigW convert t s'] by (auto split: if_splits)
  let ?r = "s'\<lparr>rpos := int (length (buf s))\<rparr>"
  have "at ?r (buf s) (size_bytes (word_of_nat (length xs)) @ ?body) []" "seq_ready ?r"
    using s' assms(4,5) by (simp_all add: at_def seq_ready_def)
  then have "readElems bigR (read_string bigR None convert) ?r =
      Inr (xs, skip ?r (length (size_bytes (word_of_nat (length xs)) @ ?body)))"
    by (intro string_elem.readElems_back [OF assms(2)]) simp_all
  moreover have "skip ?r (length (size_bytes (word_of_nat (length xs)) @ ?body)) = s'\<lparr>rpos := int (length (buf s'))\<rparr>"
    using s' by (simp add: skip_def)
  ultimately show ?thesis by (simp only: read_stringSeq_def)
qed

theorem stringSeq_roundtrip_witness:
  "case write_stringSeq False None True [''ab'', [], ''c''] (stream_new 100) of
     Inl _ \<Rightarrow> False
   | Inr s' \<Rightarrow> read_stringSeq True None True (s'\<lparr>rpos := 0\<rparr>) = Inr ([''ab'', [], ''c''], s'\<lparr>rpos := 7\<rparr>)"
proof -
  have w: "write_stringSeq False None True [''ab'', [], ''c''] (stream_new 100) =
      Inr ((stream_new 100)\<lparr>buf := [3, 2, 97, 98, 0, 1, 99]\<rparr>)" by code_simp
  show ?thesis using stringSeq_roundtrip [OF _ _ w, of True] by (simp add: w)
qed

text \<open>
  Whatever bytes a message holds, reading a sequence of strings returns or throws, keeps the
  iterator inside the message, and never builds more elements than there are bytes left: the size
  announced by the sender is checked before anything is allocated.\<close>

lemma stringSeq_untrusted:
  assumes "stream_ok s" and "seqDataStack s = []"
  shows "case read_stringSeq big None convert s of
           Inl (Thrown e) \<Rightarrow> True
         | Inl _ \<Rightarrow> False
         | Inr (xs, s') \<Rightarrow> int (length xs) \<le> int (length (buf s)) - rpos s \<and> stream_ok s' \<and> (\<exists>n. s' = skip s n)"
  unfolding read_stringSeq_def by (rule readElems_safe [OF safe_read_string assms])

lemma stringSeq_untrusted_witness:
  "let s = (stream_new 100)\<lparr>buf := [255, 255, 255, 255, 127, 1, 97]\<rparr>
   in (case read_stringSeq False None True s of Inl (Thrown e) \<Rightarrow> True | Inl _ \<Rightarrow> False | Inr (xs, s') \<Rightarrow> stream_ok s')"
  using stringSeq_untrusted [of "(stream_new 100)\<lparr>buf := [255, 255, 255, 255, 127, 1, 97]\<rparr>" False True]
  by (auto simp: stream_ok_def Let_def split: sum.splits failure.splits)

end
