(* ===== verification/StreamEncaps.thy ===== *)
theory StreamEncaps imports StreamString begin

text \<open>
  Encapsulations, slices, type ids and user exceptions on the stream
  (\<^verbatim>\<open>src/Ice-3.1.1/include/Ice/BasicStream.h\<close>, \<^verbatim>\<open>src/Ice-3.1.1/src/Ice/BasicStream.cpp\<close>).
  The stacks of encapsulations are lists, the current one first; \<open>typeIdMap\<close> is \<open>None\<close> until
  object marshaling allocates it.  User exception factories and object unmarshaling are
  parameters of \<open>throwException\<close>.
\<close>

section \<open>Model\<close>

definition encodingMajor :: byte where "encodingMajor = 1"
definition encodingMinor :: byte where "encodingMinor = 0"

definition startWriteEncaps :: "bool \<Rightarrow> writer" where
  "startWriteEncaps big s =
     (let encaps = \<lparr>we_start = length (buf s), we_typeIdMap = None, we_typeIdIndex = 0\<rparr>
      in andThen (write_Int big 0 (s\<lparr>writeEncapsStack := encaps # writeEncapsStack s\<rparr>)) (\<lambda>s1.
         andThen (write_Byte encodingMajor s1) (write_Byte encodingMinor)))"

definition endWriteEncaps :: "bool \<Rightarrow> writer" where
  "endWriteEncaps big s =
     (case writeEncapsStack s of
        [] \<Rightarrow> Inl AssertionFailed
      | encaps # rest \<Rightarrow>
          let start = we_start encaps; sz = word_of_nat (length (buf s) - start) :: ice_int
          in Inr (s\<lparr>buf := overwrite start (marshalArray big [sz]) (buf s), writeEncapsStack := rest\<rparr>))"

text \<open>The size field of an encapsulation or a slice: read and checked for sign.\<close>

definition readCount :: "bool \<Rightarrow> ice_int reader" where
  "readCount big = rbind (read_Int big) (\<lambda>sz s. if sint sz < 0 then throw NegativeSizeException else Inr (sz, s))"

definition startReadEncaps :: "bool \<Rightarrow> writer" where
  "startReadEncaps big s =
     (let start = rpos s
      in andThen (readCount big s) (\<lambda>(sz, s1).
         if rpos s1 - 4 + sint sz > int (length (buf s1)) then throw UnmarshalOutOfBoundsException
         else andThen (read_Byte s1) (\<lambda>(eMajor, s2).
              andThen (read_Byte s2) (\<lambda>(eMinor, s3).
              if eMajor \<noteq> encodingMajor \<or> unat eMinor > unat encodingMinor
              then throw (UnsupportedEncodingException eMajor eMinor)
              else Inr (s3\<lparr>readEncapsStack :=
                     \<lparr>re_start = start, re_sz = sz, re_typeIdMap = None, re_typeIdIndex = 0\<rparr> # readEncapsStack s3\<rparr>)))))"

definition endReadEncaps :: writer where
  "endReadEncaps s =
     (case readEncapsStack s of
        [] \<Rightarrow> Inl AssertionFailed
      | encaps # rest \<Rightarrow> Inr (s\<lparr>rpos := re_start encaps + sint (re_sz encaps), readEncapsStack := rest\<rparr>))"

definition checkReadEncaps :: writer where
  "checkReadEncaps s =
     (case readEncapsStack s of
        [] \<Rightarrow> Inl AssertionFailed
      | encaps # _ \<Rightarrow>
          if rpos s \<noteq> re_start encaps + sint (re_sz encaps) then throw EncapsulationException else Inr s)"

definition getReadEncapsSize :: "ice_int reader" where
  "getReadEncapsSize s =
     (case readEncapsStack s of [] \<Rightarrow> Inl AssertionFailed | encaps # _ \<Rightarrow> Inr (re_sz encaps - 4 - 2, s))"

definition skipEncaps :: "bool \<Rightarrow> writer" where
  "skipEncaps big s =
     andThen (readCount big s) (\<lambda>(sz, s1).
       if rpos s1 - 4 + sint sz > int (length (buf s1)) then throw UnmarshalOutOfBoundsException
       else Inr (s1\<lparr>rpos := rpos s1 + (sint sz - 4)\<rparr>))"

definition startWriteSlice :: "bool \<Rightarrow> writer" where
  "startWriteSlice big s = andThen (write_Int big 0 s) (\<lambda>s1. Inr (s1\<lparr>writeSlice := length (buf s1)\<rparr>))"

definition endWriteSlice :: "bool \<Rightarrow> writer" where
  "endWriteSlice big s =
     (let sz = word_of_nat (length (buf s) - writeSlice s + 4) :: ice_int
      in Inr (s\<lparr>buf := overwrite (writeSlice s - 4) (marshalArray big [sz]) (buf s)\<rparr>))"

definition startReadSlice :: "bool \<Rightarrow> writer" where
  "startReadSlice big s = andThen (readCount big s) (\<lambda>(sz, s1). Inr (s1\<lparr>readSlice := rpos s1\<rparr>))"

definition endReadSlice :: writer where
  "endReadSlice s = Inr s"

definition skipSlice :: "bool \<Rightarrow> writer" where
  "skipSlice big s =
     andThen (readCount big s) (\<lambda>(sz, s1).
       let s2 = s1\<lparr>rpos := rpos s1 + (sint sz - 4)\<rparr>
       in if rpos s2 > int (length (buf s2)) then throw UnmarshalOutOfBoundsException else Inr s2)"

text \<open>\<open>std::map::insert\<close> leaves an existing entry alone.\<close>

definition map_insert :: "'k \<Rightarrow> 'v \<Rightarrow> ('k \<times> 'v) list \<Rightarrow> ('k \<times> 'v) list" where
  "map_insert k v m = (if map_of m k = None then (k, v) # m else m)"

definition writeTypeId :: "bool \<Rightarrow> string \<Rightarrow> writer" where
  "writeTypeId big tid s =
     (case writeEncapsStack s of
        [] \<Rightarrow> Inl MemoryFault
      | encaps # rest \<Rightarrow>
          (case we_typeIdMap encaps of
             None \<Rightarrow> Inl MemoryFault
           | Some m \<Rightarrow>
               (case map_of m tid of
                  Some index \<Rightarrow> andThen (write_bool True s) (writeSize big index)
                | None \<Rightarrow>
                    let index = we_typeIdIndex encaps + 1;
                        encaps' = encaps\<lparr>we_typeIdIndex := index, we_typeIdMap := Some (map_insert tid index m)\<rparr>
                    in andThen (write_bool False (s\<lparr>writeEncapsStack := encaps' # rest\<rparr>))
                         (write_string big None False tid))))"

definition readTypeId :: "bool \<Rightarrow> string reader" where
  "readTypeId big =
     rbind read_bool (\<lambda>isIndex s.
       if isIndex then
         rbind (readSize big) (\<lambda>index s1.
           case readEncapsStack s1 of
             [] \<Rightarrow> Inl MemoryFault
           | encaps # _ \<Rightarrow>
               (case re_typeIdMap encaps of
                  None \<Rightarrow> Inl MemoryFault
                | Some m \<Rightarrow>
                    (case map_of m index of
                       None \<Rightarrow> throw UnmarshalOutOfBoundsException
                     | Some tid \<Rightarrow> Inr (tid, s1)))) s
       else
         rbind (read_string big None False) (\<lambda>tid s1.
           case readEncapsStack s1 of
             [] \<Rightarrow> Inl MemoryFault
           | encaps # rest \<Rightarrow>
               (case re_typeIdMap encaps of
                  None \<Rightarrow> Inl MemoryFault
                | Some m \<Rightarrow>
                    let index = re_typeIdIndex encaps + 1;
                        encaps' = encaps\<lparr>re_typeIdIndex := index, re_typeIdMap := Some (map_insert index tid m)\<rparr>
                    in Inr (tid, s1\<lparr>readEncapsStack := encaps' # rest\<rparr>))) s)"

section \<open>Slicing of user exceptions\<close>

text \<open>
  \<open>factory\<close> gives, for a type id the receiver knows, the reader of the exception
  (\<open>createAndThrow\<close> followed by \<open>__read\<close>), and \<open>pending\<close> is \<open>readPendingObjects\<close>.  The
  loop has no bound of its own in the code; it ends because each round that goes on consumes at
  least one byte.
\<close>

lemma readCount_moves:
  assumes "readCount big s = Inr (sz, s')"
  shows "s' = skip s 4" and "0 \<le> sint sz" and "rpos s \<ge> 0"
  using assms
  by (auto simp: readCount_def rbind_def rret_def andThen_eq_Inr read_Int_def readFixed_def takeBytes_def skip_def
      split: if_splits)

lemma readSize_moves:
  assumes "readSize big s = Inr (sz, s')"
  shows "\<exists>n > 0. s' = skip s n"
  using assms
  by (auto simp: readSize_def rbind_def rret_def andThen_eq_Inr read_Byte_def read_Int_def readFixed_def takeBytes_def
      skip_def split: if_splits intro: exI [of _ 1] exI [of _ 5])

lemma takeBytes_moves: "takeBytes n s = Inr (bs, t) \<Longrightarrow> t = skip s n"
  by (auto simp: takeBytes_def skip_def split: if_splits)

lemma read_string_moves:
  assumes "read_string big None convert s = Inr (v, s')"
  shows "\<exists>n > 0. s' = skip s n"
proof -
  from assms obtain sz t where t: "readSize big s = Inr (sz, t)" and "s' = t \<or> (\<exists>m. s' = skip t m)"
    by (fastforce simp: read_string_def rbind_def andThen_eq_Inr dest: takeBytes_moves split: if_splits)
  moreover from readSize_moves [OF t] obtain n where "0 < n" "t = skip s n" by blast
  ultimately show ?thesis by auto
qed

lemma skipSlice_moves:
  assumes "skipSlice big s = Inr s'"
  shows "\<exists>n. s' = skip s n" and "rpos s' \<le> int (length (buf s'))"
proof -
  from assms obtain sz t where t: "readCount big s = Inr (sz, t)"
    and s': "s' = t\<lparr>rpos := rpos t + (sint sz - 4)\<rparr>" and le: "rpos s' \<le> int (length (buf s'))"
    by (auto simp: skipSlice_def andThen_eq_Inr Let_def split: if_splits)
  note m = readCount_moves [OF t]
  have "s' = skip s (nat (sint sz))" using s' m by (simp add: skip_def)
  then show "\<exists>n. s' = skip s n" by blast
  show "rpos s' \<le> int (length (buf s'))" by (rule le)
qed

text \<open>A round that goes on has read at least the size of the next type id.\<close>

lemma round_consumes:
  assumes "skipSlice big s = Inr s1" and "read_string big None False s1 = Inr (tid, s2)"
  shows "nat (int (length (buf s2)) - rpos s2) < nat (int (length (buf s)) - rpos s)"
proof -
  obtain m where m: "s1 = skip s m" using skipSlice_moves [OF assms(1)] by blast
  have le: "rpos s1 \<le> int (length (buf s1))" by (rule skipSlice_moves(2) [OF assms(1)])
  obtain n where n: "0 < n" "s2 = skip s1 n" using read_string_moves [OF assms(2)] by blast
  have "rpos s1 < int (length (buf s1))"
  proof (rule ccontr)
    assume "\<not> rpos s1 < int (length (buf s1))"
    then have "readSize big s1 = throw UnmarshalOutOfBoundsException"
      by (simp add: readSize_def rbind_def read_Byte_def)
    then show False using assms(2) by (simp add: read_string_def rbind_def)
  qed
  then show ?thesis using m n by simp
qed

function throwLoop :: "bool \<Rightarrow> (string \<Rightarrow> 'x reader option) \<Rightarrow> writer \<Rightarrow> bool \<Rightarrow> string \<Rightarrow> 'x reader" where
  "throwLoop big factory pending usesClasses tid s =
     (case factory tid of
        Some rd \<Rightarrow> andThen (rd s) (\<lambda>(ex, s1). andThen (if usesClasses then pending s1 else Inr s1) (\<lambda>s2. Inr (ex, s2)))
      | None \<Rightarrow>
          andThen (skipSlice big s) (\<lambda>s1.
          andThen (read_string big None False s1) (\<lambda>(tid', s2). throwLoop big factory pending usesClasses tid' s2)))"
  by pat_completeness auto

termination throwLoop
  by (relation "measure (\<lambda>(big, factory, pending, usesClasses, tid, s). nat (int (length (buf s)) - rpos s))")
     (auto dest: round_consumes)

declare throwLoop.simps [simp del]

text \<open>
  The same loop as the code has it, a \<open>while(true)\<close> with nothing to end it, run for at most \<open>n\<close> rounds; \<open>None\<close>
  when it is not done by then.
\<close>

fun throwRounds ::
  "nat \<Rightarrow> bool \<Rightarrow> (string \<Rightarrow> 'x reader option) \<Rightarrow> writer \<Rightarrow> bool \<Rightarrow> string \<Rightarrow> stream \<Rightarrow> (failure + 'x \<times> stream) option" where
  "throwRounds 0 big factory pending usesClasses tid s = None"
| "throwRounds (Suc n) big factory pending usesClasses tid s =
     (case factory tid of
        Some rd \<Rightarrow>
          Some (andThen (rd s) (\<lambda>(ex, s1). andThen (if usesClasses then pending s1 else Inr s1) (\<lambda>s2. Inr (ex, s2))))
      | None \<Rightarrow>
          (case skipSlice big s of
             Inl e \<Rightarrow> Some (Inl e)
           | Inr s1 \<Rightarrow>
               (case read_string big None False s1 of
                  Inl e \<Rightarrow> Some (Inl e)
                | Inr (tid', s2) \<Rightarrow> throwRounds n big factory pending usesClasses tid' s2)))"

definition throwException :: "bool \<Rightarrow> (string \<Rightarrow> 'x reader option) \<Rightarrow> writer \<Rightarrow> 'x reader" where
  "throwException big factory pending =
     rbind read_bool (\<lambda>usesClasses.
     rbind (read_string big None False) (\<lambda>tid. throwLoop big factory pending usesClasses tid))"

section \<open>Encapsulations and slices on the wire\<close>

lemma readCount_at:
  assumes "at s pre (le_bytes v) post" and "0 \<le> sint v"
  shows "readCount big s = Inr (v, skip s 4)"
  using read_Int_at [OF assms(1)] assms(2) by (simp add: readCount_def rbind_def)

lemma safe_readCount: "safe_read (readCount big)"
  unfolding readCount_def by (intro safe_read_rbind safe_read_Int safe_read_guard)

definition encaps_bytes :: "byte list \<Rightarrow> byte list" where
  "encaps_bytes body = le_bytes (word_of_nat (6 + length body) :: ice_int) @ [encodingMajor, encodingMinor] @ body"

definition slice_bytes :: "byte list \<Rightarrow> byte list" where
  "slice_bytes body = le_bytes (word_of_nat (4 + length body) :: ice_int) @ body"

lemma marshal_Int: "marshalArray big [v :: ice_int] = le_bytes v"
  by (simp add: marshalArray_wire)

lemma overwrite_middle:
  "length new = length old \<Longrightarrow> overwrite (length xs) new (xs @ old @ ys) = xs @ new @ ys"
  by (simp add: overwrite_def)

lemma write_encaps:
  assumes "startWriteEncaps big s = Inr s1" and "s2 = s1\<lparr>buf := buf s1 @ body\<rparr>" and "endWriteEncaps big s2 = Inr s3"
  shows "s3 = s\<lparr>buf := buf s @ encaps_bytes body\<rparr>"
proof -
  have s1: "s1 = s\<lparr>buf := buf s @ le_bytes (0 :: ice_int) @ [encodingMajor, encodingMinor],
      writeEncapsStack := \<lparr>we_start = length (buf s), we_typeIdMap = None, we_typeIdIndex = 0\<rparr> # writeEncapsStack s\<rparr>"
    using assms(1) by (auto simp: startWriteEncaps_def Let_def andThen_eq_Inr write_Int_eq appendBytes_Inr write_Byte_def
        split: if_splits)
  have len: "length (buf s2) - length (buf s) = 6 + length body" using s1 assms(2) by simp
  have b: "buf s2 = buf s @ le_bytes (0 :: ice_int) @ [encodingMajor, encodingMinor] @ body" using s1 assms(2) by simp
  have "overwrite (length (buf s)) (le_bytes (word_of_nat (6 + length body) :: ice_int)) (buf s2) = buf s @ encaps_bytes body"
    unfolding b encaps_bytes_def by (rule overwrite_middle) simp
  then show ?thesis using assms(2,3) s1 len
    by (simp add: endWriteEncaps_def Let_def marshal_Int)
qed

lemma startReadEncaps_at:
  assumes "at s pre (encaps_bytes body) post" and "6 + length body < 2147483648"
  shows "startReadEncaps big s = Inr ((skip s 6)\<lparr>readEncapsStack :=
    \<lparr>re_start = rpos s, re_sz = word_of_nat (6 + length body), re_typeIdMap = None, re_typeIdIndex = 0\<rparr> # readEncapsStack s\<rparr>)"
proof -
  let ?sz = "word_of_nat (6 + length body) :: ice_int"
  have sz: "sint ?sz = int (6 + length body)" by (rule sint_word_of_nat [OF assms(2)])
  have at: "at s pre (le_bytes ?sz @ ([encodingMajor] @ [encodingMinor] @ body)) post"
    using assms(1) by (simp add: encaps_bytes_def)
  have c: "readCount big s = Inr (?sz, skip s 4)" using readCount_at [OF at_append [OF at]] sz by simp
  have at4: "at (skip s 4) (pre @ le_bytes ?sz) ([encodingMajor] @ [encodingMinor] @ body) post"
    using at_next [OF at] by simp
  have b1: "read_Byte (skip s 4) = Inr (encodingMajor, skip s 5)" using read_Byte_at [OF at_append [OF at4]] by simp
  have "at (skip s 5) (pre @ le_bytes ?sz @ [encodingMajor]) ([encodingMinor] @ body) post"
    using at_next [OF at4] by simp
  from read_Byte_at [OF at_append [OF this]] have b2: "read_Byte (skip s 5) = Inr (encodingMinor, skip s 6)" by simp
  have "rpos s + sint ?sz \<le> int (length (buf s))" using assms(1) sz by (simp add: at_def encaps_bytes_def)
  then show ?thesis using c b1 b2 by (simp add: startReadEncaps_def Let_def)
qed

text \<open>
  An encapsulation around any body is framed by its total size and the encoding version, and
  the reader sees exactly it: \<open>startReadEncaps\<close> stops at the body and reports its length,
  \<open>checkReadEncaps\<close> accepts the end of the body, and both \<open>endReadEncaps\<close> and
  \<open>skipEncaps\<close> continue right behind it with the stack of encapsulations restored.\<close>

lemma encaps_roundtrip:
  assumes "startWriteEncaps bigW s = Inr s1" and "endWriteEncaps bigW (s1\<lparr>buf := buf s1 @ body\<rparr>) = Inr s2"
    and "6 + length body < 2147483648" and "r = s2\<lparr>rpos := int (length (buf s))\<rparr>"
  shows "\<exists>r1. writeEncapsStack s2 = writeEncapsStack s \<and> take (length (buf s)) (buf s2) = buf s \<and>
     startReadEncaps bigR r = Inr r1 \<and> drop (nat (rpos r1)) (buf r1) = body \<and>
     getReadEncapsSize r1 = Inr (word_of_nat (length body), r1) \<and>
     checkReadEncaps (skip r1 (length body)) = Inr (skip r1 (length body)) \<and>
     endReadEncaps r1 = Inr (s2\<lparr>rpos := int (length (buf s2))\<rparr>) \<and>
     skipEncaps bigR r = Inr (s2\<lparr>rpos := int (length (buf s2))\<rparr>)"
proof -
  let ?sz = "word_of_nat (6 + length body) :: ice_int"
  have s2: "s2 = s\<lparr>buf := buf s @ encaps_bytes body\<rparr>" by (rule write_encaps [OF assms(1) refl assms(2)])
  have at: "at r (buf s) (encaps_bytes body) []" using s2 assms(4) by (simp add: at_def)
  have sz: "sint ?sz = int (6 + length body)" by (rule sint_word_of_nat [OF assms(3)])
  have len: "length (buf s2) = length (buf s) + 6 + length body" using s2 by (simp add: encaps_bytes_def)
  have "readCount bigR r = Inr (?sz, skip r 4)"
    using readCount_at [of r "buf s" ?sz _ bigR] at sz by (simp add: at_def encaps_bytes_def)
  then have skip: "skipEncaps bigR r = Inr (s2\<lparr>rpos := int (length (buf s2))\<rparr>)"
    using sz len assms(4) by (simp add: skipEncaps_def skip_def)
  have "?sz - 4 - 2 = (word_of_nat (length body) :: ice_int)" by simp
  then show ?thesis
    using startReadEncaps_at [OF at assms(3), of bigR] skip s2 sz len assms(4)
    by (simp add: getReadEncapsSize_def checkReadEncaps_def endReadEncaps_def encaps_bytes_def skip_def nat_add_distrib)
qed

lemma encaps_roundtrip_witness:
  "let s = (stream_new 100)\<lparr>buf := [9]\<rparr>
   in (case startWriteEncaps True s of
         Inl _ \<Rightarrow> False
       | Inr s1 \<Rightarrow> (case endWriteEncaps True (s1\<lparr>buf := buf s1 @ [5, 6, 7]\<rparr>) of
           Inl _ \<Rightarrow> False
         | Inr s2 \<Rightarrow> skipEncaps False (s2\<lparr>rpos := 1\<rparr>) = Inr (s2\<lparr>rpos := 10\<rparr>)))"
proof -
  let ?s = "(stream_new 100)\<lparr>buf := [9]\<rparr>"
  define s1 where "s1 = ?s\<lparr>buf := [9, 0, 0, 0, 0, 1, 0],
    writeEncapsStack := [\<lparr>we_start = 1, we_typeIdMap = None, we_typeIdIndex = 0\<rparr>]\<rparr>"
  define s2 where "s2 = ?s\<lparr>buf := [9, 9, 0, 0, 0, 1, 0, 5, 6, 7]\<rparr>"
  have 1: "startWriteEncaps True ?s = Inr s1" unfolding s1_def by code_simp
  have 2: "endWriteEncaps True (s1\<lparr>buf := buf s1 @ [5, 6, 7]\<rparr>) = Inr s2" unfolding s1_def s2_def by code_simp
  have "length (buf s2) = 10" by (simp add: s2_def)
  then show ?thesis using encaps_roundtrip [OF 1 2 _ refl, of False] 1 2 by (auto simp: Let_def)
qed

text \<open>
  Whatever a message holds, opening an encapsulation that the code accepts leaves the iterator
  inside the message, and closing it does too, at any later iterator position; skipping it goes
  forward by exactly the announced size.\<close>

lemma encaps_untrusted:
  assumes "stream_ok s"
  shows "(case startReadEncaps big s of
            Inl (Thrown e) \<Rightarrow> True
          | Inl _ \<Rightarrow> False
          | Inr r \<Rightarrow> stream_ok r \<and> rpos r = rpos s + 6 \<and>
              (\<exists>q. endReadEncaps (r\<lparr>rpos := p\<rparr>) = Inr q \<and> stream_ok q \<and> readEncapsStack q = readEncapsStack s))
       \<and> (case skipEncaps big s of
            Inl (Thrown e) \<Rightarrow> True
          | Inl _ \<Rightarrow> False
          | Inr r \<Rightarrow> stream_ok r \<and> (\<exists>sz. r = skip s sz))"
proof (cases "readCount big s")
  case (Inl e)
  then show ?thesis using safe_readCount [of big] assms
    by (auto simp: safe_read_def startReadEncaps_def skipEncaps_def Let_def split: failure.splits)
next
  case (Inr q)
  then obtain sz t where q: "readCount big s = Inr (sz, t)" by (cases q) simp
  note t = readCount_moves [OF q]
  have ok: "stream_ok t" by (rule safe_readD(2) [OF safe_readCount assms q])
  show ?thesis
  proof (cases "rpos s + sint sz > int (length (buf s))")
    case True
    then show ?thesis using q t by (simp add: startReadEncaps_def skipEncaps_def)
  next
    case False
    have "t\<lparr>rpos := rpos t + (sint sz - 4)\<rparr> = skip s (nat (sint sz))" using t by (simp add: skip_def)
    moreover have "stream_ok (skip s (nat (sint sz)))" using False t assms by (simp add: stream_ok_def)
    ultimately have skip: "skipEncaps big s = Inr (skip s (nat (sint sz)))" "stream_ok (skip s (nat (sint sz)))"
      using q t False by (simp_all add: skipEncaps_def)
    have "int (length (buf s)) < 2147483648" using assms by (simp add: stream_ok_def)
    then show ?thesis using q t False ok skip assms
      by (auto simp: startReadEncaps_def Let_def read_Byte_def stream_ok_def endReadEncaps_def)
  qed
qed

lemma encaps_untrusted_witness:
  "let s = (stream_new 100)\<lparr>buf := [200, 0, 0, 0, 1, 0]\<rparr>
   in (case startReadEncaps False s of Inl (Thrown e) \<Rightarrow> True | Inl _ \<Rightarrow> False | Inr r \<Rightarrow> stream_ok r)"
  using encaps_untrusted [where s = "(stream_new 100)\<lparr>buf := [200, 0, 0, 0, 1, 0]\<rparr>" and big = False and p = 0]
  by (simp add: stream_ok_def Let_def split: sum.splits failure.splits)

lemma write_slice:
  assumes "startWriteSlice big s = Inr s1" and "endWriteSlice big (s1\<lparr>buf := buf s1 @ body\<rparr>) = Inr s2"
  shows "buf s2 = buf s @ slice_bytes body"
proof -
  have s1: "s1 = s\<lparr>buf := buf s @ le_bytes (0 :: ice_int), writeSlice := length (buf s) + 4\<rparr>"
    using assms(1) by (auto simp: startWriteSlice_def andThen_eq_Inr write_Int_eq appendBytes_Inr split: if_splits)
  have "overwrite (length (buf s)) (le_bytes (word_of_nat (4 + length body) :: ice_int))
      (buf s @ le_bytes (0 :: ice_int) @ body) = buf s @ slice_bytes body"
    unfolding slice_bytes_def by (rule overwrite_middle) simp
  then show ?thesis using assms(2) s1 by (auto simp: endWriteSlice_def Let_def marshal_Int add.commute)
qed

lemma skipSlice_at:
  assumes "at s pre (slice_bytes body) post" and "4 + length body < 2147483648"
  shows "skipSlice big s = Inr (skip s (length (slice_bytes body)))"
proof -
  let ?sz = "word_of_nat (4 + length body) :: ice_int"
  have sz: "sint ?sz = int (4 + length body)" by (rule sint_word_of_nat [OF assms(2)])
  have "readCount big s = Inr (?sz, skip s 4)"
    using readCount_at [OF at_append [OF assms(1) [unfolded slice_bytes_def]]] sz by simp
  then show ?thesis using assms(1) sz by (simp add: skipSlice_def Let_def at_def slice_bytes_def skip_def)
qed

text \<open>The wire form of an exception: a flag, then per slice its type id and its slice.\<close>

definition unknown_slices :: "(string \<times> byte list) list \<Rightarrow> byte list" where
  "unknown_slices slices = concat (map (\<lambda>(tid, body). string_bytes tid @ slice_bytes body) slices)"

lemma throwLoop_finds:
  assumes "list_all (\<lambda>(tid, body). factory tid = None \<and> length tid < 2147483648 \<and> 4 + length body < 2147483648) slices"
    and "length tid < 2147483648"
    and "at s pre (unknown_slices slices @ string_bytes tid) post"
  shows "rbind (read_string big None False) (throwLoop big factory pending usesClasses) s =
    throwLoop big factory pending usesClasses tid (skip s (length (unknown_slices slices @ string_bytes tid)))"
  using assms(1,3)
proof (induction slices arbitrary: s pre)
  case Nil
  then have "at s pre (string_bytes tid) post" by (simp add: unknown_slices_def)
  from string_codec.read_back [OF assms(2) TrueI this, of big False] show ?case
    by (simp add: rbind_def unknown_slices_def)
next
  case (Cons sl slices)
  obtain t body where sl: "sl = (t, body)" by (cases sl)
  define rest where "rest = unknown_slices slices @ string_bytes tid"
  have at: "at s pre (string_bytes t @ (slice_bytes body @ rest)) post"
    using Cons.prems(2) sl by (simp add: unknown_slices_def rest_def)
  have ok: "factory t = None" "length t < 2147483648" "4 + length body < 2147483648" using Cons.prems(1) sl by auto
  have rd: "read_string big None False s = Inr (t, skip s (length (string_bytes t)))"
    by (rule string_codec.read_back [OF ok(2) TrueI at_append [OF at]])
  let ?s1 = "skip s (length (string_bytes t))"
  let ?s2 = "skip ?s1 (length (slice_bytes body))"
  have at1: "at ?s1 (pre @ string_bytes t) (slice_bytes body @ rest) post" by (rule at_next [OF at])
  have skip: "skipSlice big ?s1 = Inr ?s2" by (rule skipSlice_at [OF at_append [OF at1] ok(3)])
  have "rbind (read_string big None False) (throwLoop big factory pending usesClasses) s =
      rbind (read_string big None False) (throwLoop big factory pending usesClasses) ?s2"
    using rd skip ok(1) by (subst (2) rbind_def) (simp add: rbind_def throwLoop.simps [of big factory pending usesClasses t])
  also have "\<dots> = throwLoop big factory pending usesClasses tid (skip ?s2 (length rest))"
    unfolding rest_def
    by (rule Cons.IH [OF _ at_next [OF at1, unfolded rest_def]]) (use Cons.prems(1) sl in simp)
  finally show ?case by (simp add: unknown_slices_def sl rest_def add.assoc)
qed

text \<open>
  A user exception whose most derived types the receiver does not know is sliced: the loop
  skips one slice after the other and ends at the first type id that has a factory, whose reader
  then runs exactly behind that type id.\<close>

lemma throwException_slices:
  assumes "list_all (\<lambda>(tid, body). factory tid = None \<and> length tid < 2147483648 \<and> 4 + length body < 2147483648) slices"
    and "length tid < 2147483648" and "factory tid = Some rd"
    and "at s pre ((if usesClasses then 1 else 0) # unknown_slices slices @ string_bytes tid) post"
  shows "throwException big factory pending s =
    andThen (rd (skip s (1 + length (unknown_slices slices @ string_bytes tid))))
      (\<lambda>(ex, s1). andThen (if usesClasses then pending s1 else Inr s1) (\<lambda>s2. Inr (ex, s2)))"
proof -
  let ?flag = "if usesClasses then 1 else 0 :: byte"
  have at: "at s pre ([?flag] @ (unknown_slices slices @ string_bytes tid)) post" using assms(4) by simp
  have b: "read_bool s = Inr (usesClasses, skip s 1)" using read_bool_at [OF at_append [OF at]] by simp
  have at1: "at (skip s 1) (pre @ [?flag]) (unknown_slices slices @ string_bytes tid) post" using at_next [OF at] by simp
  note throwLoop_finds [OF assms(1,2) at1, of big pending usesClasses]
  then have "throwException big factory pending s =
      throwLoop big factory pending usesClasses tid (skip s (1 + length (unknown_slices slices @ string_bytes tid)))"
    using b by (simp add: throwException_def rbind_def)
  then show ?thesis by (simp add: throwLoop.simps [of _ _ _ _ tid] assms(3))
qed

lemma throwException_slices_witness:
  "throwException True (\<lambda>tid. if tid = ''::B'' then Some read_Byte else None) Inr
     ((stream_new 100)\<lparr>buf := [0, 3, 58, 58, 68, 6, 0, 0, 0, 1, 2, 3, 58, 58, 66, 77]\<rparr>) =
   Inr (77, (stream_new 100)\<lparr>buf := [0, 3, 58, 58, 68, 6, 0, 0, 0, 1, 2, 3, 58, 58, 66, 77], rpos := 16\<rparr>)"
proof -
  let ?s = "(stream_new 100)\<lparr>buf := [0, 3, 58, 58, 68, 6, 0, 0, 0, 1, 2, 3, 58, 58, 66, 77]\<rparr>"
  let ?f = "\<lambda>tid. if tid = ''::B'' then Some read_Byte else None"
  have b: "0 # unknown_slices [(''::D'', [1, 2])] @ string_bytes ''::B'' =
      [0, 3, 58, 58, 68, 6, 0, 0, 0, 1, 2, 3, 58, 58, 66]" by code_simp
  have "at ?s [] ((if False then 1 else 0) # unknown_slices [(''::D'', [1, 2])] @ string_bytes ''::B'') [77]"
    by (simp add: at_def b)
  then have "throwException True ?f Inr ?s =
      andThen (read_Byte (skip ?s (1 + length (unknown_slices [(''::D'', [1, 2])] @ string_bytes ''::B''))))
        (\<lambda>(ex, s1). andThen (if False then Inr s1 else Inr s1) (\<lambda>s2. Inr (ex, s2)))"
    by (intro throwException_slices) simp_all
  moreover have "length (unknown_slices [(''::D'', [1, 2])] @ string_bytes ''::B'') = 14" by code_simp
  ultimately show ?thesis by (simp add: read_Byte_def skip_def)
qed

text \<open>
  C35: the loop over the slices of a user exception has no bound in the code, but it ends on every input, trusted or
  not: however the slice sizes and type ids are chosen, it needs at most one round more than there are bytes left, and its
  result is then the one of the recursive definition.
\<close>

theorem throwLoop_terminates:
  assumes "nat (int (length (buf s)) - rpos s) < n"
  shows "throwRounds n big factory pending usesClasses tid s = Some (throwLoop big factory pending usesClasses tid s)"
  using assms
proof (induction n big factory pending usesClasses tid s rule: throwRounds.induct)
  case (2 n big factory pending usesClasses tid s)
  show ?case
  proof (cases "factory tid")
    case None
    have "throwRounds n big factory pending usesClasses tid' s2 = Some (throwLoop big factory pending usesClasses tid' s2)"
      if "skipSlice big s = Inr s1" "read_string big None False s1 = Inr (tid', s2)" for s1 tid' s2
      using "2.IH" [OF None that refl] round_consumes [OF that] "2.prems" by simp
    then show ?thesis
      using None by (auto simp: throwLoop.simps [of _ _ _ _ tid] split: sum.splits)
  qed (simp add: throwLoop.simps [of _ _ _ _ tid])
qed simp

theorem throwLoop_terminates_witness:
  "throwRounds 7 False (\<lambda>_. None :: byte reader option) Inr False ''::X''
     ((stream_new 100)\<lparr>buf := [4, 0, 0, 0, 0, 9]\<rparr>) = Some (throw UnmarshalOutOfBoundsException)"
proof -
  let ?s = "(stream_new 100)\<lparr>buf := [4, 0, 0, 0, 0, 9]\<rparr>"
  have "throwRounds 7 False (\<lambda>_. None :: byte reader option) Inr False ''::X'' ?s =
      Some (throwLoop False (\<lambda>_. None) Inr False ''::X'' ?s)"
    by (rule throwLoop_terminates) (simp add: stream_new_def)
  moreover have "throwLoop False (\<lambda>_. None :: byte reader option) Inr False ''::X'' ?s = throw UnmarshalOutOfBoundsException"
    by code_simp
  ultimately show ?thesis by simp
qed

end
