(* ===== verification/Protocol.thy ===== *)
theory Protocol imports StreamEncaps begin

text \<open>
  Constants of the Ice protocol, \<^verbatim>\<open>src/Ice-3.1.1/include/Ice/Protocol.h\<close> and
  \<^verbatim>\<open>src/Ice-3.1.1/src/Ice/Protocol.cpp\<close>: the fourteen bytes of the header (magic number, protocol and
  encoding version, message type, compression status, message size) and the message types.
\<close>

definition headerSize :: nat where "headerSize = 14"
definition magic :: "byte list" where "magic = [0x49, 0x63, 0x65, 0x50]"
definition protocolMajor :: byte where "protocolMajor = 1"
definition protocolMinor :: byte where "protocolMinor = 0"
definition requestMsg :: byte where "requestMsg = 0"
definition requestBatchMsg :: byte where "requestBatchMsg = 1"
definition replyMsg :: byte where "replyMsg = 2"
definition validateConnectionMsg :: byte where "validateConnectionMsg = 3"
definition closeConnectionMsg :: byte where "closeConnectionMsg = 4"

definition requestHdr :: "byte list" where
  "requestHdr =
     magic @ [protocolMajor, protocolMinor, encodingMajor, encodingMinor, requestMsg, 0, 0, 0, 0, 0, 0, 0, 0, 0]"

definition requestBatchHdr :: "byte list" where
  "requestBatchHdr =
     magic @ [protocolMajor, protocolMinor, encodingMajor, encodingMinor, requestBatchMsg, 0, 0, 0, 0, 0, 0, 0, 0, 0]"

definition replyHdr :: "byte list" where
  "replyHdr = magic @ [protocolMajor, protocolMinor, encodingMajor, encodingMinor, replyMsg, 0, 0, 0, 0, 0]"

text \<open>A message that is a header only: validate and close connection.\<close>

definition headerMessage :: "bool \<Rightarrow> byte \<Rightarrow> byte \<Rightarrow> byte list" where
  "headerMessage big messageType compress =
     magic @ [protocolMajor, protocolMinor, encodingMajor, encodingMinor, messageType, compress] @
     marshalArray big [word_of_nat headerSize :: ice_int]"

lemma length_headers [simp]:
  "length requestHdr = 18" "length requestBatchHdr = 18" "length replyHdr = 14" "length (headerMessage big t k) = 14"
  by (simp_all add: requestHdr_def requestBatchHdr_def replyHdr_def headerMessage_def magic_def marshalArray_wire)

end
