(* ===== verification/ConnectionState.thy ===== *)
theory ConnectionState imports StdMap Protocol begin

text \<open>
  The state machine of a connection, \<^verbatim>\<open>src/Ice-3.1.1/src/Ice/ConnectionI.cpp\<close>: the states, the
  transitions of \<open>setState\<close>, registration with the thread pool, graceful shutdown, and the
  closing of the transceiver.  The operations run under the connection's monitor, so each is an
  atomic action on the state; the state survives a thrown exception, as it does in C++.  The
  transceiver and the clock are parameters, collected in the record \<open>io\<close>: one value of it gives
  the outcomes of the calls made by one action.  What the connection does to the outside is a log.
\<close>

section \<open>States\<close>

datatype conn_state = StateNotValidated | StateActive | StateHolding | StateClosing | StateClosed

fun state_num :: "conn_state \<Rightarrow> nat" where
  "state_num StateNotValidated = 0"
| "state_num StateActive = 1"
| "state_num StateHolding = 2"
| "state_num StateClosing = 3"
| "state_num StateClosed = 4"

lemma state_num_inject: "state_num a = state_num b \<longleftrightarrow> a = b"
  by (cases a; cases b) auto

text \<open>The code compares states by the order of the enumeration.\<close>

instantiation conn_state :: linorder
begin

definition less_eq_conn_state :: "conn_state \<Rightarrow> conn_state \<Rightarrow> bool" where
  "less_eq_conn_state a b \<longleftrightarrow> state_num a \<le> state_num b"

definition less_conn_state :: "conn_state \<Rightarrow> conn_state \<Rightarrow> bool" where
  "less_conn_state a b \<longleftrightarrow> state_num a < state_num b"

instance
  by standard (auto simp: less_eq_conn_state_def less_conn_state_def state_num_inject)

end

lemmas state_order = less_eq_conn_state_def less_conn_state_def

section \<open>The connection\<close>

datatype message_kind = ValidateMsg | CloseMsg | RequestMsg | BatchMsg | ReplyMsg

datatype 'q conn_event =
    Wrote message_kind "byte list"
  | TransceiverClosed
  | RequestFailed 'q local_exception        \<comment> \<open>\<open>finished(ex)\<close> of an outstanding request\<close>
  | RequestReplied 'q stream                \<comment> \<open>\<open>finished(stream)\<close>\<close>

record io =
  io_now :: int                                     \<comment> \<open>in milliseconds\<close>
  io_initialize :: "local_exception option"
  io_read :: "local_exception + byte list"
  io_write :: "byte list \<Rightarrow> local_exception option"
  io_close :: "local_exception option"
  io_shutdownWrite :: "local_exception option"
  io_shutdownReadWrite :: "local_exception option"

record 'q connection =
  conn_datagram :: bool
  conn_threadPerConnection :: bool
  conn_adapter :: bool                              \<comment> \<open>\<open>_adapter\<close> and \<open>_servantManager\<close> are not null\<close>
  conn_servantManager :: bool
  conn_acmTimeout :: int
  conn_acmAbsoluteTimeout :: int
  conn_timeout :: int
  conn_compressionLevel :: int
  conn_transceiver :: bool                          \<comment> \<open>\<open>_transceiver\<close> is not null\<close>
  conn_registeredWithPool :: bool
  conn_finishedCount :: int
  conn_nextRequestId :: ice_int
  conn_requests :: "(int, 'q) smap"
  conn_requestsHint :: "int option"
  conn_asyncRequests :: "(int, 'q \<times> int) smap"
  conn_asyncRequestsHint :: "int option"
  conn_exception :: "local_exception option"
  conn_batchStream :: stream
  conn_batchStreamInUse :: bool
  conn_batchRequestNum :: ice_int
  conn_batchRequestCompress :: bool
  conn_dispatchCount :: ice_int
  conn_state :: conn_state
  conn_log :: "'q conn_event list"

definition connection_new ::
  "nat \<Rightarrow> bool \<Rightarrow> bool \<Rightarrow> bool \<Rightarrow> bool \<Rightarrow> int \<Rightarrow> int \<Rightarrow> int \<Rightarrow> int \<Rightarrow> 'q connection" where
  "connection_new maxSize dgram threadPerConn adapter manager serverACM clientACM tmo level =
     \<lparr>conn_datagram = dgram, conn_threadPerConnection = threadPerConn, conn_adapter = adapter,
      conn_servantManager = (adapter \<and> manager),
      conn_acmTimeout = (if dgram then 0 else if adapter then serverACM else clientACM),
      conn_acmAbsoluteTimeout = 0, conn_timeout = tmo,
      conn_compressionLevel = (if level < 1 then 1 else if level > 9 then 9 else level),
      conn_transceiver = True, conn_registeredWithPool = False, conn_finishedCount = 0, conn_nextRequestId = 1,
      conn_requests = [], conn_requestsHint = None, conn_asyncRequests = [], conn_asyncRequestsHint = None,
      conn_exception = None, conn_batchStream = stream_new maxSize, conn_batchStreamInUse = False,
      conn_batchRequestNum = 0, conn_batchRequestCompress = False, conn_dispatchCount = 0,
      conn_state = StateNotValidated, conn_log = []\<rparr>"

section \<open>Actions\<close>

type_synonym ('q, 'a) action = "'q connection \<Rightarrow> (failure + 'a) \<times> 'q connection"

definition aret :: "'a \<Rightarrow> ('q, 'a) action" where
  "aret x c = (Inr x, c)"

definition afail :: "failure \<Rightarrow> ('q, 'a) action" where
  "afail e c = (Inl e, c)"

definition abind :: "('q, 'a) action \<Rightarrow> ('a \<Rightarrow> ('q, 'b) action) \<Rightarrow> ('q, 'b) action" where
  "abind m f c = (case m c of (Inl e, c') \<Rightarrow> (Inl e, c') | (Inr x, c') \<Rightarrow> f x c')"

text \<open>\<open>catch(const LocalException& ex)\<close>.\<close>

definition acatch :: "('q, 'a) action \<Rightarrow> (local_exception \<Rightarrow> ('q, 'a) action) \<Rightarrow> ('q, 'a) action" where
  "acatch m h c = (case m c of (Inl (Thrown e), c') \<Rightarrow> h e c' | r \<Rightarrow> r)"

definition amodify :: "('q connection \<Rightarrow> 'q connection) \<Rightarrow> ('q, unit) action" where
  "amodify f c = (Inr (), f c)"

definition alog :: "'q conn_event \<Rightarrow> ('q, unit) action" where
  "alog e = amodify (\<lambda>c. c\<lparr>conn_log := conn_log c @ [e]\<rparr>)"

text \<open>A call of the transceiver, through a handle that must not be null.\<close>

definition transceiverCall :: "local_exception option \<Rightarrow> ('q, unit) action" where
  "transceiverCall r c =
     (if \<not> conn_transceiver c then (Inl NullHandleException, c)
      else case r of None \<Rightarrow> (Inr (), c) | Some e \<Rightarrow> (Inl (Thrown e), c))"

definition transceiverWrite :: "io \<Rightarrow> message_kind \<Rightarrow> byte list \<Rightarrow> ('q, unit) action" where
  "transceiverWrite io kind bs = abind (transceiverCall (io_write io bs)) (\<lambda>_. alog (Wrote kind bs))"

section \<open>The thread pool\<close>

definition registerWithPool :: "('q, unit) action" where
  "registerWithPool c =
     (if conn_threadPerConnection c then (Inl AssertionFailed, c)
      else if \<not> conn_registeredWithPool c then
        if \<not> conn_transceiver c then (Inl NullHandleException, c)
        else (Inr (), c\<lparr>conn_registeredWithPool := True\<rparr>)
      else (Inr (), c))"

definition unregisterWithPool :: "('q, unit) action" where
  "unregisterWithPool c =
     (if conn_threadPerConnection c then (Inl AssertionFailed, c)
      else if conn_registeredWithPool c then
        if \<not> conn_transceiver c then (Inl NullHandleException, c)
        else (Inr (), c\<lparr>conn_registeredWithPool := False, conn_finishedCount := conn_finishedCount c + 1\<rparr>)
      else (Inr (), c))"

section \<open>Changing the state\<close>

definition initiateShutdown :: "bool \<Rightarrow> io \<Rightarrow> ('q, unit) action" where
  "initiateShutdown big io c =
     (if conn_state c \<noteq> StateClosing \<or> conn_dispatchCount c \<noteq> 0 then (Inl AssertionFailed, c)
      else if \<not> conn_datagram c then transceiverWrite io CloseMsg (headerMessage big closeConnectionMsg 1) c
      else (Inr (), c))"

definition enter :: "conn_state \<Rightarrow> ('q, bool) action" where
  "enter state c = (Inr True, c\<lparr>conn_state := state\<rparr>)"

text \<open>
  \<open>setState(State)\<close> up to the assignment of \<open>_state\<close>; the result tells whether the state was
  switched, that is, whether the function goes on behind the \<open>switch\<close>.
\<close>

definition targetState :: "conn_state \<Rightarrow> 'q connection \<Rightarrow> conn_state" where
  "targetState state c =
     (let state1 = (if conn_datagram c \<and> state = StateClosing then StateClosed else state)
      in if conn_state c = StateNotValidated \<and> state1 = StateClosing then StateClosed else state1)"

definition closeTransceiver :: "io \<Rightarrow> ('q, unit) action" where
  "closeTransceiver io =
     abind (acatch (transceiverCall (io_close io)) (\<lambda>_. aret ())) (\<lambda>_.
     abind (alog TransceiverClosed) (\<lambda>_. amodify (\<lambda>c. c\<lparr>conn_transceiver := False\<rparr>)))"

definition switchState :: "io \<Rightarrow> conn_state \<Rightarrow> ('q, bool) action" where
  "switchState io state0 c =
     (let state = targetState state0 c; pool = \<not> conn_threadPerConnection c
      in if conn_state c = state then (Inr False, c)
         else case state of
           StateNotValidated \<Rightarrow> (Inl AssertionFailed, c)
         | StateActive \<Rightarrow>
             if conn_state c \<noteq> StateHolding \<and> conn_state c \<noteq> StateNotValidated then (Inr False, c)
             else abind (if pool then registerWithPool else aret ()) (\<lambda>_. enter state) c
         | StateHolding \<Rightarrow>
             if conn_state c \<noteq> StateActive \<and> conn_state c \<noteq> StateNotValidated then (Inr False, c)
             else abind (if pool then unregisterWithPool else aret ()) (\<lambda>_. enter state) c
         | StateClosing \<Rightarrow>
             if conn_state c = StateClosed then (Inr False, c)
             else abind (if pool then registerWithPool else aret ()) (\<lambda>_. enter state) c
         | StateClosed \<Rightarrow>
             if \<not> pool then abind (transceiverCall (io_shutdownReadWrite io)) (\<lambda>_. enter state) c
             else if conn_state c = StateNotValidated then
               if conn_registeredWithPool c then (Inl AssertionFailed, c)
               else abind (closeTransceiver io) (\<lambda>_. enter state) c
             else
               abind registerWithPool (\<lambda>_. abind unregisterWithPool (\<lambda>_.
               abind (transceiverCall (io_shutdownWrite io)) (\<lambda>_. enter state))) c)"

text \<open>The first half of \<open>setState(State, const LocalException&)\<close>.\<close>

definition recordException :: "local_exception \<Rightarrow> ('q, unit) action" where
  "recordException ex c =
     (case conn_exception c of
        Some _ \<Rightarrow> (Inr (), c)
      | None \<Rightarrow> if conn_state c = StateClosed then (Inl AssertionFailed, c)
                else (Inr (), c\<lparr>conn_exception := Some ex\<rparr>))"

text \<open>\<open>setState(StateClosed, ex)\<close>; the tail of \<open>setState\<close> does nothing in the closed state.\<close>

definition setClosed :: "io \<Rightarrow> local_exception \<Rightarrow> ('q, unit) action" where
  "setClosed io ex c =
     (if conn_state c = StateClosed then (Inr (), c)
      else abind (recordException ex) (\<lambda>_. abind (switchState io StateClosed) (\<lambda>_. aret ())) c)"

text \<open>\<open>setState(State)\<close>.\<close>

definition setState :: "bool \<Rightarrow> io \<Rightarrow> conn_state \<Rightarrow> ('q, unit) action" where
  "setState big io state =
     abind (switchState io state) (\<lambda>switched c.
       if switched \<and> conn_state c = StateClosing \<and> conn_dispatchCount c = 0
       then acatch (initiateShutdown big io) (setClosed io) c
       else (Inr (), c))"

text \<open>\<open>setState(State, const LocalException&)\<close>.\<close>

definition setStateEx :: "bool \<Rightarrow> io \<Rightarrow> conn_state \<Rightarrow> local_exception \<Rightarrow> ('q, unit) action" where
  "setStateEx big io state ex c =
     (if state \<noteq> StateClosing \<and> state \<noteq> StateClosed then (Inl AssertionFailed, c)
      else if conn_state c = state then (Inr (), c)
      else abind (recordException ex) (\<lambda>_. setState big io state) c)"

lemma setStateEx_Closed: "setStateEx big io StateClosed ex = setClosed io ex"
proof (rule ext)
  fix c :: "'q connection"
  have closed: "switchState io StateClosed c' = (Inr True, c'') \<Longrightarrow> conn_state c'' = StateClosed" for c' c'' :: "'q connection"
    by (auto simp: switchState_def Let_def targetState_def abind_def enter_def split: if_splits prod.splits sum.splits)
  show "setStateEx big io StateClosed ex c = setClosed io ex c"
    by (auto simp: setStateEx_def setClosed_def setState_def abind_def aret_def dest: closed split: prod.splits sum.splits)
qed

section \<open>Operations\<close>

definition acmReset :: "io \<Rightarrow> 'q connection \<Rightarrow> 'q connection" where
  "acmReset io c =
     (if conn_acmTimeout c > 0 then c\<lparr>conn_acmAbsoluteTimeout := io_now io + 1000 * conn_acmTimeout c\<rparr> else c)"

text \<open>
  A loop \<^verbatim>\<open>while(cond) wait();\<close> leaves when the condition is false: the action is enabled then
  and blocked otherwise, the value \<open>None\<close>.
\<close>

definition when_ready :: "('q connection \<Rightarrow> bool) \<Rightarrow> ('q, 'a) action \<Rightarrow> 'q connection \<Rightarrow> ((failure + 'a) \<times> 'q connection) option" where
  "when_ready ready act c = (if ready c then Some (act c) else None)"

definition activate :: "bool \<Rightarrow> io \<Rightarrow> 'q connection \<Rightarrow> ((failure + unit) \<times> 'q connection) option" where
  "activate big io = when_ready (\<lambda>c. conn_state c \<noteq> StateNotValidated) (setState big io StateActive)"

definition hold :: "bool \<Rightarrow> io \<Rightarrow> 'q connection \<Rightarrow> ((failure + unit) \<times> 'q connection) option" where
  "hold big io = when_ready (\<lambda>c. conn_state c \<noteq> StateNotValidated) (setState big io StateHolding)"

datatype destruction_reason = ObjectAdapterDeactivated | CommunicatorDestroyed

definition destroy :: "bool \<Rightarrow> io \<Rightarrow> destruction_reason \<Rightarrow> ('q, unit) action" where
  "destroy big io reason =
     (case reason of
        ObjectAdapterDeactivated \<Rightarrow> setStateEx big io StateClosing (ObjectAdapterDeactivatedException [])
      | CommunicatorDestroyed \<Rightarrow> setStateEx big io StateClosing CommunicatorDestroyedException)"

definition close :: "bool \<Rightarrow> io \<Rightarrow> bool \<Rightarrow> 'q connection \<Rightarrow> ((failure + unit) \<times> 'q connection) option" where
  "close big io force =
     (if force then when_ready (\<lambda>_. True) (setStateEx big io StateClosed ForcedCloseConnectionException)
      else when_ready (\<lambda>c. conn_requests c = [] \<and> conn_asyncRequests c = [])
             (setStateEx big io StateClosing CloseConnectionException))"

definition isDestroyed :: "'q connection \<Rightarrow> bool" where
  "isDestroyed c \<longleftrightarrow> conn_state c \<ge> StateClosing"

text \<open>\<open>isFinished\<close> without a thread per connection, when the monitor could be entered.\<close>

definition isFinished :: "('q, bool) action" where
  "isFinished c =
     (if conn_transceiver c \<or> conn_dispatchCount c \<noteq> 0 then (Inr False, c)
      else if conn_state c \<noteq> StateClosed then (Inl AssertionFailed, c)
      else (Inr True, c))"

definition throwConnException :: "('q, unit) action" where
  "throwConnException c =
     (case conn_exception c of
        None \<Rightarrow> (Inr (), c)
      | Some ex \<Rightarrow> if conn_state c \<ge> StateClosing then (Inl (Thrown ex), c) else (Inl AssertionFailed, c))"

text \<open>One pass of the second loop of \<open>waitUntilFinished\<close> with an expired wait.\<close>

definition closeTimeout :: "bool \<Rightarrow> io \<Rightarrow> 'q connection \<Rightarrow> ((failure + unit) \<times> 'q connection) option" where
  "closeTimeout big io =
     when_ready (\<lambda>c. conn_state c \<ge> StateClosing \<and> conn_dispatchCount c = 0 \<and> conn_transceiver c \<and>
                     conn_state c \<noteq> StateClosed \<and> conn_timeout c \<ge> 0)
       (setStateEx big io StateClosed CloseTimeoutException)"

definition monitor :: "bool \<Rightarrow> io \<Rightarrow> ('q, unit) action" where
  "monitor big io c =
     (if conn_state c \<noteq> StateActive then (Inr (), c)
      else if \<exists>(k, q, t) \<in> set (conn_asyncRequests c). t > 0 \<and> t \<le> io_now io
        then setStateEx big io StateClosed TimeoutException c
      else if conn_acmTimeout c > 0 \<and> conn_requests c = [] \<and> conn_asyncRequests c = [] \<and>
              \<not> conn_batchStreamInUse c \<and> buf (conn_batchStream c) = [] \<and> conn_dispatchCount c = 0 \<and>
              io_now io \<ge> conn_acmAbsoluteTimeout c
        then setStateEx big io StateClosing ConnectionTimeoutException c
      else (Inr (), c))"

definition connException :: "io \<Rightarrow> local_exception \<Rightarrow> ('q, unit) action" where
  "connException io ex = setClosed io ex"

text \<open>
  \<open>finished\<close>, called by the thread pool once for every unregistration.  The outstanding
  requests are told outside the monitor; \<open>_exception\<close> must be set then.
\<close>

definition failRequests :: "('q, unit) action" where
  "failRequests c =
     (if conn_state c = StateClosed \<or> conn_state c = StateClosing then
        let outstanding = map snd (conn_requests c) @ map (fst \<circ> snd) (conn_asyncRequests c);
            c1 = c\<lparr>conn_requests := [], conn_requestsHint := None,
                   conn_asyncRequests := [], conn_asyncRequestsHint := None\<rparr>
        in case conn_exception c of
             None \<Rightarrow> if outstanding = [] then (Inr (), c1) else (Inl MemoryFault, c1)
           | Some ex \<Rightarrow> (Inr (), c1\<lparr>conn_log := conn_log c1 @ map (\<lambda>q. RequestFailed q ex) outstanding\<rparr>)
      else (Inr (), c))"

definition finished_conn :: "io \<Rightarrow> ('q, unit) action" where
  "finished_conn io c =
     (if conn_threadPerConnection c then (Inl AssertionFailed, c)
      else let c1 = c\<lparr>conn_finishedCount := conn_finishedCount c - 1\<rparr>
        in if conn_finishedCount c1 = 0 \<and> conn_state c1 = StateClosed then
             if \<not> conn_transceiver c1 then (Inl NullHandleException, c1)
             else
               let c2 = c1\<lparr>conn_transceiver := False, conn_log := conn_log c1 @ [TransceiverClosed]\<rparr>
               in abind failRequests
                    (\<lambda>_. case io_close io of None \<Rightarrow> aret () | Some e \<Rightarrow> afail (Thrown e)) c2
           else failRequests c1)"

section \<open>Invariant\<close>

definition closes_sent :: "'q conn_event list \<Rightarrow> nat" where
  "closes_sent log = length (filter (\<lambda>e. case e of Wrote k _ \<Rightarrow> k = CloseMsg | _ \<Rightarrow> False) log)"

definition times_closed :: "'q conn_event list \<Rightarrow> nat" where
  "times_closed log = length (filter (\<lambda>e. case e of TransceiverClosed \<Rightarrow> True | _ \<Rightarrow> False) log)"

text \<open>For connections served by a thread pool.\<close>

definition life_inv :: "'q connection \<Rightarrow> bool" where
  "life_inv c \<longleftrightarrow>
     \<not> conn_threadPerConnection c \<and>
     (conn_exception c \<noteq> None) = (conn_state c \<ge> StateClosing) \<and>
     conn_registeredWithPool c = (conn_state c = StateActive \<or> conn_state c = StateClosing) \<and>
     (conn_transceiver c \<or> conn_state c = StateClosed) \<and>
     0 \<le> conn_finishedCount c \<and>
     (conn_state c = StateNotValidated \<longrightarrow> conn_finishedCount c = 0 \<and> conn_dispatchCount c = 0) \<and>
     (conn_state c = StateClosed \<longrightarrow> conn_transceiver c = (0 < conn_finishedCount c)) \<and>
     times_closed (conn_log c) = (if conn_transceiver c then 0 else 1) \<and>
     (conn_datagram c \<longrightarrow> conn_state c \<noteq> StateClosing)"

definition shutdown_inv :: "'q connection \<Rightarrow> bool" where
  "shutdown_inv c \<longleftrightarrow>
     closes_sent (conn_log c) \<le> 1 \<and>
     (conn_state c < StateClosing \<longrightarrow> closes_sent (conn_log c) = 0) \<and>
     (conn_state c = StateClosing \<and> conn_dispatchCount c \<noteq> 0 \<longrightarrow> closes_sent (conn_log c) = 0)"

definition tables_inv :: "'q connection \<Rightarrow> bool" where
  "tables_inv c \<longleftrightarrow>
     sm_ok (conn_requests c) \<and> iter_ok (conn_requests c) (conn_requestsHint c) \<and>
     sm_ok (conn_asyncRequests c) \<and> iter_ok (conn_asyncRequests c) (conn_asyncRequestsHint c)"

definition conn_inv :: "'q connection \<Rightarrow> bool" where
  "conn_inv c \<longleftrightarrow> life_inv c \<and> shutdown_inv c \<and> tables_inv c"

text \<open>The operations rely on the write side of the socket being shut down without an error.\<close>

definition io_ok :: "io \<Rightarrow> bool" where
  "io_ok io \<longleftrightarrow> io_shutdownWrite io = None"

lemma log_counts [simp]:
  "closes_sent (xs @ ys) = closes_sent xs + closes_sent ys"
  "times_closed (xs @ ys) = times_closed xs + times_closed ys"
  "closes_sent [Wrote k bs] = (if k = CloseMsg then 1 else 0)" "times_closed [Wrote k bs] = 0"
  "closes_sent [TransceiverClosed] = 0" "times_closed [TransceiverClosed] = 1"
  "closes_sent [RequestReplied q s] = 0" "times_closed [RequestReplied q s] = 0"
  "closes_sent [] = 0" "times_closed [] = 0"
  by (simp_all add: closes_sent_def times_closed_def)

lemma failed_counts [simp]:
  "closes_sent (map (\<lambda>q. RequestFailed q ex) qs) = 0" "times_closed (map (\<lambda>q. RequestFailed q ex) qs) = 0"
  by (induction qs) (simp_all add: closes_sent_def times_closed_def)

lemma connection_new_inv: "\<not> tpc \<Longrightarrow> conn_inv (connection_new m d tpc a sm sa ca t l)"
  by (simp add: connection_new_def conn_inv_def life_inv_def shutdown_inv_def tables_inv_def
      closes_sent_def times_closed_def state_order)

text \<open>
  \<open>keeps act\<close>: from a state that satisfies the invariant the action ends in one, and it fails
  only by throwing an Ice exception: no assertion is violated and no null pointer is used.
\<close>

definition keeps :: "('q, 'a) action \<Rightarrow> bool" where
  "keeps act \<longleftrightarrow> (\<forall>c. conn_inv c \<longrightarrow>
     conn_inv (snd (act c)) \<and> (case fst (act c) of Inl (Thrown _) \<Rightarrow> True | Inl _ \<Rightarrow> False | Inr _ \<Rightarrow> True))"

lemma keepsI: "(\<And>c. conn_inv c \<Longrightarrow> \<exists>x c'. act c = (Inr x, c') \<and> conn_inv c') \<Longrightarrow> keeps act"
  unfolding keeps_def by fastforce

lemmas action_defs = abind_def aret_def afail_def acatch_def amodify_def alog_def transceiverCall_def
  transceiverWrite_def registerWithPool_def unregisterWithPool_def enter_def closeTransceiver_def

lemmas inv_defs = conn_inv_def life_inv_def shutdown_inv_def tables_inv_def state_order

lemma setClosed_result:
  assumes inv: "conn_inv c" and io: "io_ok io"
  shows "\<exists>c'. setClosed io ex c = (Inr (), c') \<and> conn_inv c' \<and> conn_state c' = StateClosed \<and>
    conn_dispatchCount c' = conn_dispatchCount c \<and> conn_requests c' = conn_requests c \<and>
    conn_asyncRequests c' = conn_asyncRequests c \<and> closes_sent (conn_log c') = closes_sent (conn_log c) \<and>
    (conn_exception c' = (case conn_exception c of None \<Rightarrow> Some ex | Some e \<Rightarrow> Some e))"
proof (cases "conn_state c = StateClosed")
  case True
  then show ?thesis using inv by (auto simp: setClosed_def inv_defs split: option.splits)
next
  case False
  then show ?thesis using inv io
    by (cases "conn_state c")
      (auto simp: setClosed_def recordException_def switchState_def targetState_def Let_def action_defs io_ok_def inv_defs
        split: option.splits)
qed

lemma setClosed_keeps: "io_ok io \<Longrightarrow> keeps (setClosed io ex)"
  by (rule keepsI) (use setClosed_result in blast)

lemma setStateEx_Closed_keeps: "io_ok io \<Longrightarrow> keeps (setStateEx big io StateClosed ex)"
  by (simp add: setStateEx_Closed setClosed_keeps)

lemma switch_Active:
  assumes "conn_inv c"
  shows "\<exists>b c'. switchState io StateActive c = (Inr b, c') \<and> conn_inv c' \<and> (b \<longrightarrow> conn_state c' = StateActive)"
  using assms
  by (cases "conn_state c") (auto simp: switchState_def targetState_def Let_def action_defs inv_defs)

lemma switch_Holding:
  assumes "conn_inv c"
  shows "\<exists>b c'. switchState io StateHolding c = (Inr b, c') \<and> conn_inv c' \<and> (b \<longrightarrow> conn_state c' = StateHolding)"
  using assms
  by (cases "conn_state c") (auto simp: switchState_def targetState_def Let_def action_defs inv_defs)

lemma setState_Active_keeps: "keeps (setState big io StateActive)"
  unfolding keeps_def
proof (intro allI impI)
  fix c :: "'a connection"
  assume "conn_inv c"
  from switch_Active [OF this, of io] obtain b c' where "switchState io StateActive c = (Inr b, c')" "conn_inv c'"
    "b \<longrightarrow> conn_state c' = StateActive" by blast
  then show "conn_inv (snd (setState big io StateActive c)) \<and>
      (case fst (setState big io StateActive c) of Inl (Thrown _) \<Rightarrow> True | Inl _ \<Rightarrow> False | Inr _ \<Rightarrow> True)"
    by (auto simp: setState_def abind_def)
qed

lemma setState_Holding_keeps: "keeps (setState big io StateHolding)"
  unfolding keeps_def
proof (intro allI impI)
  fix c :: "'a connection"
  assume "conn_inv c"
  from switch_Holding [OF this, of io] obtain b c' where "switchState io StateHolding c = (Inr b, c')" "conn_inv c'"
    "b \<longrightarrow> conn_state c' = StateHolding" by blast
  then show "conn_inv (snd (setState big io StateHolding c)) \<and>
      (case fst (setState big io StateHolding c) of Inl (Thrown _) \<Rightarrow> True | Inl _ \<Rightarrow> False | Inr _ \<Rightarrow> True)"
    by (auto simp: setState_def abind_def)
qed

text \<open>Starting the shutdown, from a closing connection that has not sent its close message.\<close>

lemma initiateShutdown_result:
  assumes inv: "conn_inv c" and st: "conn_state c = StateClosing" and zero: "conn_dispatchCount c = 0"
    and unsent: "closes_sent (conn_log c) = 0" and io: "io_ok io"
  shows "\<exists>c'. acatch (initiateShutdown big io) (setClosed io) c = (Inr (), c') \<and> conn_inv c' \<and>
    conn_state c' \<ge> StateClosing \<and>
    (io_write io (headerMessage big closeConnectionMsg 1) = None \<longrightarrow>
       conn_state c' = StateClosing \<and> closes_sent (conn_log c') = 1)"
proof (cases "io_write io (headerMessage big closeConnectionMsg 1)")
  case None
  have "\<not> conn_datagram c" "conn_transceiver c" using inv st by (auto simp: inv_defs)
  then show ?thesis using None inv st zero unsent
    by (auto simp: initiateShutdown_def action_defs inv_defs)
next
  case (Some e)
  have "\<not> conn_datagram c" "conn_transceiver c" using inv st by (auto simp: inv_defs)
  then have "initiateShutdown big io c = (Inl (Thrown e), c)"
    using Some st zero by (simp add: initiateShutdown_def action_defs)
  then show ?thesis using setClosed_result [OF inv io, of e] Some by (auto simp: acatch_def state_order)
qed

lemma setStateEx_Closing_result:
  assumes inv: "conn_inv c" and io: "io_ok io"
  shows "\<exists>c'. setStateEx big io StateClosing ex c = (Inr (), c') \<and> conn_inv c' \<and> conn_state c' \<ge> StateClosing"
proof (cases "conn_state c \<ge> StateClosing")
  case True
  then have "setStateEx big io StateClosing ex c = (Inr (), c)"
    using inv by (cases "conn_state c")
      (auto simp: setStateEx_def setState_def recordException_def switchState_def targetState_def Let_def action_defs inv_defs
        split: option.splits)
  then show ?thesis using inv True by simp
next
  case early: False
  let ?c1 = "c\<lparr>conn_exception := Some ex\<rparr>"
  have none: "conn_exception c = None" and neq: "conn_state c \<noteq> StateClosing" "conn_state c \<noteq> StateClosed"
    using inv early by (auto simp: inv_defs)
  have start: "setStateEx big io StateClosing ex c = setState big io StateClosing ?c1"
    using none neq by (simp add: setStateEx_def recordException_def abind_def)
  show ?thesis
  proof (cases "conn_datagram c \<or> conn_state c = StateNotValidated")
    case True
    then have "targetState StateClosing ?c1 = StateClosed" by (auto simp: targetState_def)
    moreover have "targetState StateClosed ?c1 = StateClosed" by (auto simp: targetState_def)
    ultimately have sw: "switchState io StateClosing ?c1 = switchState io StateClosed ?c1"
      by (simp add: switchState_def)
    obtain c' where c': "setClosed io ex c = (Inr (), c')" "conn_inv c'" "conn_state c' = StateClosed"
      using setClosed_result [OF inv io, of ex] by blast
    from c'(1) obtain b where "switchState io StateClosed ?c1 = (Inr b, c')"
      using neq none by (auto simp: setClosed_def recordException_def abind_def aret_def split: prod.splits sum.splits)
    then show ?thesis using start sw c' by (simp add: setState_def abind_def state_order)
  next
    case False
    let ?c2 = "c\<lparr>conn_exception := Some ex, conn_registeredWithPool := True, conn_state := StateClosing\<rparr>"
    have sw: "switchState io StateClosing ?c1 = (Inr True, ?c2)"
      using False early inv neq
      by (cases "conn_state c") (auto simp: switchState_def targetState_def Let_def action_defs inv_defs)
    have unsent: "closes_sent (conn_log c) = 0" and inv2: "conn_inv ?c2"
      using inv early False by (cases "conn_state c"; auto simp: inv_defs)+
    show ?thesis
    proof (cases "conn_dispatchCount c = 0")
      case True
      then show ?thesis using start sw initiateShutdown_result [OF inv2 _ _ _ io, of big] unsent
        by (auto simp: setState_def abind_def)
    next
      case False
      then show ?thesis using start sw inv2 by (simp add: setState_def abind_def state_order)
    qed
  qed
qed

lemma setStateEx_Closing_keeps: "io_ok io \<Longrightarrow> keeps (setStateEx big io StateClosing ex)"
  by (rule keepsI) (use setStateEx_Closing_result in blast)

lemma failRequests_result:
  assumes "conn_inv c"
  shows "\<exists>c'. failRequests c = (Inr (), c') \<and> conn_inv c' \<and> conn_state c' = conn_state c \<and>
    conn_transceiver c' = conn_transceiver c \<and> conn_finishedCount c' = conn_finishedCount c \<and>
    (conn_state c \<ge> StateClosing \<longrightarrow> conn_requests c' = [] \<and> conn_asyncRequests c' = [])"
proof (cases "conn_exception c")
  case None
  then have "\<not> conn_state c \<ge> StateClosing" using assms by (simp add: conn_inv_def life_inv_def)
  moreover from this have "conn_state c \<noteq> StateClosed" "conn_state c \<noteq> StateClosing" by (auto simp: state_order)
  ultimately show ?thesis using assms by (simp add: failRequests_def)
next
  case (Some ex)
  let ?qs = "map snd (conn_requests c) @ map (fst \<circ> snd) (conn_asyncRequests c)"
  let ?c' = "c\<lparr>conn_requests := [], conn_requestsHint := None, conn_asyncRequests := [], conn_asyncRequestsHint := None,
    conn_log := conn_log c @ map (\<lambda>q. RequestFailed q ex) ?qs\<rparr>"
  have st: "conn_state c = StateClosed \<or> conn_state c = StateClosing"
    using Some assms by (cases "conn_state c") (simp_all add: conn_inv_def life_inv_def state_order)
  then have "failRequests c = (Inr (), ?c')" using Some by (auto simp: failRequests_def Let_def)
  moreover have "conn_inv ?c'"
    using assms unfolding conn_inv_def life_inv_def shutdown_inv_def tables_inv_def
    by (simp del: map_append)
  ultimately show ?thesis by auto
qed

lemma finished_keeps:
  assumes inv: "conn_inv c" and pos: "0 < conn_finishedCount c"
  shows "conn_inv (snd (finished_conn io c)) \<and>
    (case fst (finished_conn io c) of Inl (Thrown _) \<Rightarrow> True | Inl _ \<Rightarrow> False | Inr _ \<Rightarrow> True)"
proof -
  let ?c1 = "c\<lparr>conn_finishedCount := conn_finishedCount c - 1\<rparr>"
  have pool: "\<not> conn_threadPerConnection c" using inv by (simp add: inv_defs)
  show ?thesis
  proof (cases "conn_finishedCount c = 1 \<and> conn_state c = StateClosed")
    case True
    let ?c2 = "?c1\<lparr>conn_transceiver := False, conn_log := conn_log c @ [TransceiverClosed]\<rparr>"
    have tr: "conn_transceiver c" using inv pos True by (auto simp: inv_defs)
    have "conn_inv ?c2" using inv True tr by (auto simp: inv_defs)
    then obtain c' where "failRequests ?c2 = (Inr (), c')" "conn_inv c'" using failRequests_result by blast
    then show ?thesis using True tr pool
      by (auto simp: finished_conn_def Let_def abind_def aret_def afail_def split: option.splits)
  next
    case False
    have "conn_inv ?c1" using inv pos False by (auto simp: inv_defs)
    then obtain c' where "failRequests ?c1 = (Inr (), c')" "conn_inv c'" using failRequests_result by blast
    then show ?thesis using False pool by (auto simp: finished_conn_def Let_def)
  qed
qed

end
