(* ===== verification/Compression.thy ===== *)
theory Compression imports Protocol begin

text \<open>
  Framing and compression of messages, \<^verbatim>\<open>src/Ice-3.1.1/src/Ice/ConnectionI.cpp\<close>: \<open>doCompress\<close>,
  \<open>doUncompress\<close>, the code that fills in the header before a message is written, and the code
  that opens a received message.  The two functions of libbz2 are a parameter, the record
  \<open>bzip2\<close>; what is documented of them is \<open>bz_ok\<close>.
\<close>

section \<open>Model\<close>

text \<open>
  \<open>bz_compress level room source\<close> and \<open>bz_decompress room source\<close> are an error code or the bytes
  stored at the destination, which has room for \<open>room\<close> bytes.
\<close>

record bzip2 =
  bz_compress :: "int \<Rightarrow> nat \<Rightarrow> byte list \<Rightarrow> int + byte list"
  bz_decompress :: "nat \<Rightarrow> byte list \<Rightarrow> int + byte list"

definition bz_ok :: "bzip2 \<Rightarrow> bool" where
  "bz_ok bz \<longleftrightarrow>
     (\<forall>level room src z. bz_compress bz level room src = Inr z \<longrightarrow>
        length z \<le> room \<and> (\<forall>room' \<ge> length src. bz_decompress bz room' z = Inr src)) \<and>
     (\<forall>room z out. bz_decompress bz room z = Inr out \<longrightarrow> length out \<le> room)"

text \<open>The idiom \<^verbatim>\<open>copy(p, p + sizeof(Int), b.begin() + pos)\<close>, \<open>reverse_copy\<close> on a big-endian machine.\<close>

definition patchInt :: "bool \<Rightarrow> ice_int \<Rightarrow> nat \<Rightarrow> byte list \<Rightarrow> failure + byte list" where
  "patchInt big v pos b =
     (if length b < pos + 4 then Inl MemoryFault
      else Inr (overwrite pos (if big then rev (obj_rep big v) else obj_rep big v) b))"

definition setByte :: "nat \<Rightarrow> byte \<Rightarrow> byte list \<Rightarrow> failure + byte list" where
  "setByte pos v b = (if length b \<le> pos then Inl MemoryFault else Inr (b[pos := v]))"

text \<open>
  The result is the uncompressed message with the size filled in, and the compressed one.  The
  product with 1.01 is exact after truncation for lengths below $2^{32}$.
\<close>

definition doCompress :: "bool \<Rightarrow> bzip2 \<Rightarrow> int \<Rightarrow> byte list \<Rightarrow> failure + byte list \<times> byte list" where
  "doCompress big bz level ub =
     (if length ub < headerSize then Inl MemoryFault
      else let body = drop headerSize ub; room = (101 * length body) div 100 + 600
        in case bz_compress bz level room body of
             Inl _ \<Rightarrow> throw CompressionException
           | Inr z \<Rightarrow>
               let cb = replicate (headerSize + 4) 0 @ z
               in andThen (patchInt big (word_of_nat (length cb)) 10 ub) (\<lambda>ub1.
                  andThen (patchInt big (word_of_nat (length ub1)) headerSize cb) (\<lambda>cb1.
                    Inr (ub1, overwrite 0 (take headerSize ub1) cb1))))"

text \<open>The bytes that decompression does not write are indeterminate, \<open>fill\<close>.\<close>

definition doUncompress :: "bool \<Rightarrow> bzip2 \<Rightarrow> byte \<Rightarrow> stream \<Rightarrow> stream \<Rightarrow> failure + stream" where
  "doUncompress big bz fill cs us =
     andThen (read_Int big (cs\<lparr>rpos := int headerSize\<rparr>)) (\<lambda>(uncompressedSize, _).
       if sint uncompressedSize \<le> int headerSize then throw IllegalMessageSizeException
       else andThen (stream_resize fill (nat (sint uncompressedSize)) us) (\<lambda>us1.
         case bz_decompress bz (nat (sint uncompressedSize) - headerSize) (drop (headerSize + 4) (buf cs)) of
           Inl _ \<Rightarrow> throw CompressionException
         | Inr body \<Rightarrow>
             Inr (us1\<lparr>buf := overwrite 0 (take headerSize (buf cs)) (overwrite headerSize body (buf us1))\<rparr>)))"

text \<open>
  Filling in the header.  The stream \<open>os\<close> belongs to the caller and keeps what was stored in it
  when the call fails, so it is part of the result; the bytes are those handed to the transceiver.
\<close>

definition prepareMessage :: "bool \<Rightarrow> bzip2 \<Rightarrow> int \<Rightarrow> bool \<Rightarrow> byte list \<Rightarrow> byte list \<times> (failure + byte list)" where
  "prepareMessage big bz level compress os =
     (if compress \<and> length os \<ge> 100 then
        let os1 = os[9 := 2]
        in case doCompress big bz level os1 of
             Inl e \<Rightarrow> (os1, Inl e)
           | Inr (os2, cstream) \<Rightarrow> (os2, Inr cstream)
      else case (if compress then setByte 9 1 os else Inr os) of
          Inl e \<Rightarrow> (os, Inl e)
        | Inr os1 \<Rightarrow>
            (case patchInt big (word_of_nat (length os1)) 10 os1 of
               Inl e \<Rightarrow> (os1, Inl e)
             | Inr os2 \<Rightarrow> (os2, Inr os2)))"

text \<open>The beginning of \<open>parseMessage\<close>: message type, compression status, and the stream to go on with.\<close>

definition openMessage :: "bool \<Rightarrow> bzip2 \<Rightarrow> byte \<Rightarrow> stream \<Rightarrow> failure + (byte \<times> byte) \<times> stream" where
  "openMessage big bz fill s =
     (if rpos s \<noteq> int (length (buf s)) then Inl AssertionFailed
      else andThen (read_Byte (s\<lparr>rpos := 8\<rparr>)) (\<lambda>(messageType, s1).
           andThen (read_Byte s1) (\<lambda>(compress, s2).
           andThen
             (if compress = 2 then
                andThen (doUncompress big bz fill s2 (stream_new (messageSizeMax s2))) (\<lambda>us. Inr (s2\<lparr>buf := buf us\<rparr>))
              else Inr s2)
             (\<lambda>s3. Inr ((messageType, compress), s3\<lparr>rpos := int headerSize\<rparr>)))))"

section \<open>Lemmas\<close>

lemma patchInt_eq: "pos + 4 \<le> length b \<Longrightarrow> patchInt big v pos b = Inr (overwrite pos (le_bytes v) b)"
  by (auto simp: patchInt_def obj_rep_def)

lemma patchInt_Inr: "patchInt big v pos b = Inr b' \<longleftrightarrow> pos + 4 \<le> length b \<and> b' = overwrite pos (le_bytes v) b"
  by (auto simp: patchInt_def obj_rep_def)

lemma overwrite_at: "length pre = pos \<Longrightarrow> length old = length new \<Longrightarrow> overwrite pos new (pre @ old @ post) = pre @ new @ post"
  by (simp add: overwrite_def)

lemma doCompress_Inr:
  assumes "doCompress big bz level ub = Inr (ub', cb)"
  obtains z where "bz_compress bz level ((101 * length (drop headerSize ub)) div 100 + 600) (drop headerSize ub) = Inr z"
    "headerSize \<le> length ub" "ub' = overwrite 10 (le_bytes (word_of_nat (18 + length z) :: ice_int)) ub"
    "cb = take headerSize ub' @ le_bytes (word_of_nat (length ub) :: ice_int) @ z"
proof -
  let ?body = "drop headerSize ub"
  from assms obtain z where z: "bz_compress bz level ((101 * length ?body) div 100 + 600) ?body = Inr z"
    and ub: "headerSize \<le> length ub" "ub' = overwrite 10 (le_bytes (word_of_nat (18 + length z) :: ice_int)) ub"
    and cb: "cb = overwrite 0 (take headerSize ub') (overwrite headerSize (le_bytes (word_of_nat (length ub') :: ice_int))
                   (replicate (headerSize + 4) 0 @ z))"
    by (auto simp: doCompress_def Let_def andThen_eq_Inr patchInt_Inr headerSize_def split: if_splits sum.splits)
  have len: "length ub' = length ub" using ub by (simp add: headerSize_def)
  have "cb = take headerSize ub' @ le_bytes (word_of_nat (length ub) :: ice_int) @ z"
    using cb ub(1) len by (simp add: headerSize_def overwrite_def)
  then show thesis using that z ub by blast
qed

lemma doUncompress_Inr:
  assumes cs: "buf cs = hdr @ le_bytes (usize :: ice_int) @ z" "length hdr = headerSize"
    and usize: "int headerSize < sint usize" "nat (sint usize) \<le> messageSizeMax us"
    and us: "buf us = []" and bz: "bz_decompress bz (nat (sint usize) - headerSize) z = Inr body"
    and fits: "length body \<le> nat (sint usize) - headerSize"
  shows "doUncompress big bz fill cs us =
    Inr (us\<lparr>buf := hdr @ body @ replicate (nat (sint usize) - headerSize - length body) fill\<rparr>)"
proof -
  have "at (cs\<lparr>rpos := int headerSize\<rparr>) hdr (le_bytes usize) z" using cs by (simp add: at_def)
  note rd = read_Int_at [OF this, of big]
  have d: "drop (headerSize + 4) (buf cs) = z" using cs by simp
  have k: "nat (sint usize) = headerSize + (nat (sint usize) - headerSize)" using usize by linarith
  have "overwrite 0 hdr (overwrite headerSize body (replicate (nat (sint usize)) fill)) =
      hdr @ body @ replicate (nat (sint usize) - headerSize - length body) fill"
    using cs(2) fits k by (simp add: overwrite_def)
  then show ?thesis
    using rd d bz usize us cs unfolding doUncompress_def by (simp add: stream_resize_def)
qed

lemma prepareMessage_plain:
  assumes "headerSize \<le> length os" "\<not> (compress \<and> 100 \<le> length os)"
  shows "prepareMessage big bz level compress os =
    (let os2 = overwrite 10 (le_bytes (word_of_nat (length os) :: ice_int)) (if compress then os[9 := 1] else os)
     in (os2, Inr os2))"
  using assms by (auto simp: prepareMessage_def setByte_def patchInt_eq Let_def headerSize_def)

lemma openMessage_plain:
  assumes "headerSize \<le> length bytes" "bytes ! 9 \<noteq> 2" "buf s = bytes" "rpos s = int (length bytes)"
  shows "openMessage big bz fill s = Inr ((bytes ! 8, bytes ! 9), s\<lparr>rpos := int headerSize\<rparr>)"
  using assms by (simp add: openMessage_def read_Byte_def headerSize_def)

lemma openMessage_compressed:
  assumes "headerSize \<le> length bytes" "bytes ! 9 = 2" "buf s = bytes" "rpos s = int (length bytes)"
    and "doUncompress big bz fill (s\<lparr>rpos := 10\<rparr>) (stream_new (messageSizeMax s)) = Inr us"
  shows "openMessage big bz fill s = Inr ((bytes ! 8, 2), s\<lparr>buf := buf us, rpos := int headerSize\<rparr>)"
  using assms by (simp add: openMessage_def read_Byte_def headerSize_def)

lemma overwrite_parts:
  assumes "pos + length new \<le> length old"
  shows "k \<le> pos \<Longrightarrow> take k (overwrite pos new old) = take k old"
    and "take (length new) (drop pos (overwrite pos new old)) = new"
    and "pos + length new \<le> k \<Longrightarrow> drop k (overwrite pos new old) = drop k old"
    and "i < pos \<Longrightarrow> overwrite pos new old ! i = old ! i"
  using assms by (auto simp: overwrite_def nth_append min_def)

text \<open>What the receiver sees of a message.\<close>

definition opened :: "byte list \<Rightarrow> byte \<Rightarrow> (byte \<times> byte) \<times> stream \<Rightarrow> bool" where
  "opened os k r \<longleftrightarrow>
     fst r = (os ! 8, k) \<and> take 8 (buf (snd r)) = take 8 os \<and> drop headerSize (buf (snd r)) = drop headerSize os \<and>
     length (buf (snd r)) = length os \<and> rpos (snd r) = int headerSize"

lemma compressed_roundtrip:
  assumes bz: "bz_ok bz" and len: "headerSize < length os" "length os < 2147483648"
    and c: "doCompress big bz level os = Inr (os', bytes)" and nine: "os ! 9 = 2"
    and s: "buf s = bytes" "rpos s = int (length bytes)" "length os \<le> messageSizeMax s"
  shows "(\<exists>r. openMessage big' bz fill s = Inr r \<and> opened os 2 r) \<and>
    take 4 (drop 10 bytes) = le_bytes (word_of_nat (length bytes) :: ice_int)"
proof -
  let ?u = "word_of_nat (length os) :: ice_int"
  from c obtain z where z: "bz_compress bz level ((101 * length (drop headerSize os)) div 100 + 600) (drop headerSize os) = Inr z"
    and os': "os' = overwrite 10 (le_bytes (word_of_nat (18 + length z) :: ice_int)) os"
    and bytes: "bytes = take headerSize os' @ le_bytes ?u @ z"
    by (rule doCompress_Inr)
  note ov = overwrite_parts [of 10 "le_bytes (word_of_nat (18 + length z) :: ice_int)" os, folded os', simplified]
  have l': "length os' = length os" using len os' by (simp add: headerSize_def)
  have hdr: "length (take headerSize os') = headerSize" using len l' by simp
  have usz: "nat (sint ?u) = length os" using len by (simp add: sint_word_of_nat)
  have dec: "bz_decompress bz (nat (sint ?u) - headerSize) z = Inr (drop headerSize os)"
    using bz [unfolded bz_ok_def, THEN conjunct1, rule_format, OF z] usz by simp
  have un: "doUncompress big' bz fill (s\<lparr>rpos := 10\<rparr>) (stream_new (messageSizeMax s)) =
      Inr (stream_new (messageSizeMax s)\<lparr>buf := take headerSize os' @ drop headerSize os @
        replicate (nat (sint ?u) - headerSize - length (drop headerSize os)) fill\<rparr>)"
  proof (rule doUncompress_Inr [OF _ hdr _ _ _ dec])
    show "buf (s\<lparr>rpos := 10\<rparr>) = take headerSize os' @ le_bytes ?u @ z" using s bytes by simp
    show "int headerSize < sint ?u" using len by (simp add: sint_word_of_nat)
    show "nat (sint ?u) \<le> messageSizeMax (stream_new (messageSizeMax s))" using usz s by (simp add: stream_new_def)
    show "buf (stream_new (messageSizeMax s)) = []" by (simp add: stream_new_def)
    show "length (drop headerSize os) \<le> nat (sint ?u) - headerSize" using usz by simp
  qed
  have b8: "bytes ! 8 = os ! 8" "bytes ! 9 = 2"
    using bytes hdr ov(4) [of 8] ov(4) [of 9] len nine by (simp_all add: nth_append headerSize_def)
  have "openMessage big' bz fill s = Inr ((bytes ! 8, 2), s\<lparr>buf := take headerSize os' @ drop headerSize os, rpos := int headerSize\<rparr>)"
    using openMessage_compressed [of bytes s big' bz fill] un bytes hdr s b8 usz by simp
  moreover have "take 8 (take headerSize os') = take 8 os" using ov(1) [of 8] len by (simp add: headerSize_def)
  moreover have "take 4 (drop 10 bytes) = le_bytes (word_of_nat (length bytes) :: ice_int)"
    using bytes ov(2) len hdr by (simp add: headerSize_def drop_take)
  ultimately show ?thesis using b8 len hdr by (simp add: opened_def headerSize_def)
qed

lemma message_opened:
  assumes bz: "bz_ok bz" and len: "headerSize < length os" "length os < 2147483648" and nine: "os ! 9 = 0"
    and prep: "prepareMessage big bz level compress os = (os', Inr bytes)"
    and s: "buf s = bytes" "rpos s = int (length bytes)" "length os \<le> messageSizeMax s"
  shows "(\<exists>r. openMessage big' bz fill s = Inr r \<and>
       opened os (if compress then if length os \<ge> 100 then 2 else 1 else 0) r) \<and>
    take 4 (drop 10 bytes) = le_bytes (word_of_nat (length bytes) :: ice_int)"
proof (cases "compress \<and> 100 \<le> length os")
  case True
  then have "doCompress big bz level (os[9 := 2]) = Inr (os', bytes)"
    using prep by (auto simp: prepareMessage_def Let_def split: sum.splits prod.splits)
  from compressed_roundtrip [OF bz _ _ this _ s(1,2), of big' fill] len s(3)
  show ?thesis using True by (simp add: opened_def headerSize_def)
next
  case False
  let ?os = "if compress then os[9 := 1] else os"
  have bytes: "bytes = overwrite 10 (le_bytes (word_of_nat (length os) :: ice_int)) ?os"
    using prep prepareMessage_plain [of os compress big bz level] len False by (auto simp: Let_def)
  note ov = overwrite_parts [of 10 "le_bytes (word_of_nat (length os) :: ice_int)" ?os, folded bytes, simplified]
  have l: "length bytes = length os" using bytes len by (simp add: headerSize_def)
  have b: "bytes ! 8 = os ! 8" "bytes ! 9 = (if compress then 1 else 0)"
    using ov(4) [of 8] ov(4) [of 9] len nine by (simp_all add: headerSize_def)
  then have "openMessage big' bz fill s = Inr ((bytes ! 8, bytes ! 9), s\<lparr>rpos := int headerSize\<rparr>)"
    using len l s by (intro openMessage_plain) auto
  moreover have "take 8 bytes = take 8 os" "drop headerSize bytes = drop headerSize os"
      "take 4 (drop 10 bytes) = le_bytes (word_of_nat (length bytes) :: ice_int)"
    using ov(1) [of 8] ov(2) ov(3) [of headerSize] len l by (simp_all add: headerSize_def)
  ultimately show ?thesis using b l s False by (simp add: opened_def)
qed

text \<open>
  C18: a message framed by a sender of either byte order, compressed or not, is opened by a receiver
  of either byte order as the same message: same message type, same version bytes, same body, and
  the compression status the sender chose.  The size field of the bytes on the wire is their
  number, so that the receiver knows where the message ends.
\<close>

theorem message_roundtrip:
  assumes bz: "bz_ok bz" and len: "headerSize < length os" "length os < 2147483648" and nine: "os ! 9 = 0"
    and prep: "prepareMessage big bz level compress os = (os', Inr bytes)"
    and s: "buf s = bytes" "rpos s = int (length bytes)" "length os \<le> messageSizeMax s"
  shows "(\<exists>r. openMessage big' bz fill s = Inr r \<and>
       opened os (if compress then if length os \<ge> 100 then 2 else 1 else 0) r) \<and>
    take 4 (drop 10 bytes) = le_bytes (word_of_nat (length bytes) :: ice_int)"
  using assms by (rule message_opened)

text \<open>A compressor that stores, for the instances below.\<close>

definition store_bz :: bzip2 where
  "store_bz = \<lparr>bz_compress = (\<lambda>level room src. if length src \<le> room then Inr src else Inl (-8)),
               bz_decompress = (\<lambda>room src. if length src \<le> room then Inr src else Inl (-8))\<rparr>"

lemma store_bz_ok: "bz_ok store_bz"
  by (auto simp: bz_ok_def store_bz_def split: if_splits)

text \<open>A request of 100 bytes: the request header and zeros.\<close>

definition sample_request :: "byte list" where
  "sample_request = requestHdr @ replicate 82 0"

lemma sample_request_props: "length sample_request = 100" "sample_request ! 9 = 0"
  by (simp_all add: sample_request_def requestHdr_def magic_def)

lemma sample_compressed: "\<exists>os' bytes. prepareMessage True store_bz 1 True sample_request = (os', Inr bytes)"
proof -
  have "doCompress True store_bz 1 (sample_request[9 := 2]) \<noteq> Inl e" for e
    using sample_request_props by (simp add: doCompress_def Let_def store_bz_def patchInt_eq headerSize_def)
  then show ?thesis using sample_request_props
    by (auto simp: prepareMessage_def Let_def split: sum.splits)
qed

theorem message_roundtrip_witness:
  "\<exists>os' bytes r. prepareMessage True store_bz 1 True sample_request = (os', Inr bytes) \<and>
     openMessage False store_bz 0 (stream_new 1000\<lparr>buf := bytes, rpos := int (length bytes)\<rparr>) = Inr r \<and>
     opened sample_request 2 r"
proof -
  obtain os' bytes where p: "prepareMessage True store_bz 1 True sample_request = (os', Inr bytes)"
    using sample_compressed by blast
  show ?thesis
    using message_roundtrip [OF store_bz_ok _ _ _ p, of "stream_new 1000\<lparr>buf := bytes, rpos := int (length bytes)\<rparr>" False 0]
      p sample_request_props by (simp add: headerSize_def stream_new_def)
qed

text \<open>
  The compression status is never reset.  An asynchronous invocation that was compressed and
  is then retried over a connection without compression (the stream is the same one) goes out
  uncompressed with the status that says it is compressed, and no receiver can open it as what
  it was: the four bytes behind the header are taken for the uncompressed size, and here, where
  they are a request id of at most fourteen, the message is refused.
\<close>

lemma retry_keeps_compress_status:
  assumes first: "prepareMessage big bz level True os = (os', r)" and len: "100 \<le> length os" "length os < 2147483648"
    and retry: "prepareMessage big bz level False (overwrite headerSize (le_bytes requestId) os') = (os'', Inr bytes)"
    and rid: "0 < sint (requestId :: ice_int)" "sint requestId \<le> 14"
    and s: "buf s = bytes" "rpos s = int (length bytes)"
  shows "bytes ! 9 = 2 \<and> drop 18 bytes = drop 18 os \<and> openMessage big' bz fill s = throw IllegalMessageSizeException"
proof -
  have os': "length os' = length os \<and> os' ! 9 = 2 \<and> drop 18 os' = drop 18 os"
  proof (cases "doCompress big bz level (os[9 := 2])")
    case (Inl e)
    then have "os' = os[9 := 2]" using first len by (auto simp: prepareMessage_def Let_def)
    then show ?thesis using len by simp
  next
    case (Inr p)
    obtain os2 cb where p: "p = (os2, cb)" by fastforce
    then have "os' = os2" using first len Inr by (simp add: prepareMessage_def Let_def)
    with Inr p have "doCompress big bz level (os[9 := 2]) = Inr (os', cb)" by simp
    then obtain w :: ice_int where "os' = overwrite 10 (le_bytes w) (os[9 := 2])" by (rule doCompress_Inr) blast
    then show ?thesis using len overwrite_parts [of 10 "le_bytes w" "os[9 := 2]"] by simp
  qed
  let ?os1 = "overwrite headerSize (le_bytes requestId) os'"
  note ov1 = overwrite_parts [of headerSize "le_bytes requestId" os', simplified]
  have os1: "length ?os1 = length os" "?os1 ! 9 = 2" "take 4 (drop 14 ?os1) = le_bytes requestId" "drop 18 ?os1 = drop 18 os"
    using os' len ov1 by (simp_all add: headerSize_def)
  have bytes: "bytes = overwrite 10 (le_bytes (word_of_nat (length os) :: ice_int)) ?os1"
    using retry prepareMessage_plain [of ?os1 False big bz level] len os1 by (simp add: Let_def headerSize_def)
  note ov = overwrite_parts [of 10 "le_bytes (word_of_nat (length os) :: ice_int)" ?os1, folded bytes, simplified]
  have b: "length bytes = length os" "bytes ! 9 = 2" "drop 14 bytes = drop 14 ?os1" "drop 18 bytes = drop 18 os"
    using bytes os1 len ov by simp_all
  let ?s = "s\<lparr>rpos := int headerSize\<rparr>"
  have "bytes = take 14 bytes @ le_bytes requestId @ drop 18 bytes"
  proof -
    have "bytes = take 14 bytes @ take 4 (drop 14 bytes) @ drop 4 (drop 14 bytes)"
      by (metis append_take_drop_id)
    moreover have "take 4 (drop 14 bytes) = le_bytes requestId" using b(3) os1(3) by simp
    ultimately show ?thesis by (simp del: append_take_drop_id)
  qed
  then have "at ?s (take 14 bytes) (le_bytes requestId) (drop 18 bytes)"
    using s b len by (simp add: at_def headerSize_def)
  note rd = read_Int_at [OF this, of big']
  have "doUncompress big' bz fill (s\<lparr>rpos := 10\<rparr>) us = throw IllegalMessageSizeException" for us
    using rd rid by (simp add: doUncompress_def headerSize_def)
  then have "openMessage big' bz fill s = throw IllegalMessageSizeException"
    using s b len by (simp add: openMessage_def read_Byte_def)
  then show ?thesis using b by simp
qed

lemma retry_keeps_compress_status_witness:
  "\<exists>os' r os'' bytes. prepareMessage True store_bz 1 True sample_request = (os', r) \<and>
     prepareMessage True store_bz 1 False (overwrite headerSize (le_bytes (2 :: ice_int)) os') = (os'', Inr bytes) \<and>
     openMessage False store_bz 0 (stream_new 1000\<lparr>buf := bytes, rpos := int (length bytes)\<rparr>) =
       throw IllegalMessageSizeException"
proof -
  obtain os' cb where p: "prepareMessage True store_bz 1 True sample_request = (os', Inr cb)"
    using sample_compressed by blast
  then have "doCompress True store_bz 1 (sample_request[9 := 2]) = Inr (os', cb)"
    using sample_request_props by (auto simp: prepareMessage_def Let_def split: sum.splits)
  then have "length os' = 100" by (rule doCompress_Inr) (simp add: sample_request_props)
  then obtain bytes where q:
    "prepareMessage True store_bz 1 False (overwrite headerSize (le_bytes (2 :: ice_int)) os') = (bytes, Inr bytes)"
    using prepareMessage_plain [of "overwrite headerSize (le_bytes (2 :: ice_int)) os'" False True store_bz 1]
    by (auto simp: headerSize_def Let_def)
  show ?thesis
    using retry_keeps_compress_status [OF p _ _ q, of "stream_new 1000\<lparr>buf := bytes, rpos := int (length bytes)\<rparr>" False 0]
      p q sample_request_props by (simp add: sint_word_of_nat stream_new_def)
qed

end
