(* ===== verification/ConnectionIO.thy ===== *)
theory ConnectionIO imports ConnectionState Compression "HOL-Library.Sublist" begin

text \<open>
  Sending and receiving on a connection, \<^verbatim>\<open>src/Ice-3.1.1/src/Ice/ConnectionI.cpp\<close>: validation of a
  new connection, twoway, oneway and asynchronous requests, batches, responses, and the parsing
  of a received message.  Each critical section is an action of its own, because other threads
  run between them: the part of a send that runs under the connection's monitor, the writing
  itself, which runs under the send mutex, and the handler of a failed write.
\<close>

section \<open>Writing\<close>

text \<open>The block under the send mutex, the same in all functions that write a message.\<close>

definition transmit :: "bool \<Rightarrow> bzip2 \<Rightarrow> io \<Rightarrow> message_kind \<Rightarrow> bool \<Rightarrow> byte list \<Rightarrow> ('q, unit) action" where
  "transmit big bz io kind compress os c =
     (if \<not> conn_transceiver c then
        (case conn_exception c of None \<Rightarrow> (Inl AssertionFailed, c) | Some ex \<Rightarrow> (Inl (Thrown ex), c))
      else case snd (prepareMessage big bz (conn_compressionLevel c) compress os) of
          Inl e \<Rightarrow> (Inl e, c)
        | Inr bytes \<Rightarrow> transceiverWrite io kind bytes c)"

text \<open>What is left in the caller's stream.\<close>

definition streamAfter :: "bool \<Rightarrow> bzip2 \<Rightarrow> bool \<Rightarrow> byte list \<Rightarrow> 'q connection \<Rightarrow> byte list" where
  "streamAfter big bz compress os c =
     (if \<not> conn_transceiver c then os else fst (prepareMessage big bz (conn_compressionLevel c) compress os))"

text \<open>\<open>setState(StateClosed, ex); assert(_exception.get()); _exception->ice_throw();\<close>\<close>

definition rethrow :: "('q, 'a) action" where
  "rethrow c = (case conn_exception c of None \<Rightarrow> (Inl AssertionFailed, c) | Some ex \<Rightarrow> (Inl (Thrown ex), c))"

definition closeAndThrow :: "io \<Rightarrow> local_exception \<Rightarrow> ('q, 'a) action" where
  "closeAndThrow io ex = abind (setClosed io ex) (\<lambda>_. rethrow)"

section \<open>Requests\<close>

definition newRequestId :: "('q, ice_int) action" where
  "newRequestId c =
     (let requestId = conn_nextRequestId c
      in if sint requestId \<le> 0 then (Inr 1, c\<lparr>conn_nextRequestId := 2\<rparr>)
         else (Inr requestId, c\<lparr>conn_nextRequestId := requestId + 1\<rparr>))"

text \<open>
  The first critical section of \<open>sendRequest\<close>.  The result is a left value when
  \<open>LocalExceptionWrapper(ex, true)\<close> is thrown, which tells the caller to try again; otherwise the
  request id and the stream with the id filled in.
\<close>

definition beginRequest ::
  "bool \<Rightarrow> io \<Rightarrow> 'q option \<Rightarrow> byte list \<Rightarrow> ('q, local_exception + ice_int \<times> byte list) action" where
  "beginRequest big io out os c =
     (if out \<noteq> None \<and> conn_datagram c then (Inl AssertionFailed, c)
      else case conn_exception c of
          Some ex \<Rightarrow> (Inr (Inl ex), c)
        | None \<Rightarrow>
            if \<not> conn_state c > StateNotValidated \<or> \<not> conn_state c < StateClosing then (Inl AssertionFailed, c)
            else (case out of
                None \<Rightarrow> (Inr (Inr (0, os)), acmReset io c)
              | Some q \<Rightarrow>
                  abind newRequestId (\<lambda>requestId c1.
                    case patchInt big requestId headerSize os of
                      Inl e \<Rightarrow> (Inl e, c1)
                    | Inr os' \<Rightarrow>
                        (Inr (Inr (requestId, os')),
                         acmReset io (c1\<lparr>conn_requests := sm_insert (sint requestId) q (conn_requests c1),
                                        conn_requestsHint := Some (sint requestId)\<rparr>))) c))"

definition eraseRequest :: "int \<Rightarrow> 'q connection \<Rightarrow> 'q connection" where
  "eraseRequest k c =
     c\<lparr>conn_requests := sm_erase k (conn_requests c),
       conn_requestsHint := (if conn_requestsHint c = Some k then sm_next k (conn_requests c) else conn_requestsHint c)\<rparr>"

definition eraseAsyncRequest :: "int \<Rightarrow> 'q connection \<Rightarrow> 'q connection" where
  "eraseAsyncRequest k c =
     c\<lparr>conn_asyncRequests := sm_erase k (conn_asyncRequests c),
       conn_asyncRequestsHint :=
         (if conn_asyncRequestsHint c = Some k then sm_next k (conn_asyncRequests c) else conn_asyncRequestsHint c)\<rparr>"

text \<open>The handler of \<open>sendRequest\<close>.\<close>

definition requestFailed :: "io \<Rightarrow> 'q option \<Rightarrow> ice_int \<Rightarrow> local_exception \<Rightarrow> ('q, unit) action" where
  "requestFailed io out requestId ex =
     abind (setClosed io ex) (\<lambda>_ c.
       if conn_exception c = None then (Inl AssertionFailed, c)
       else case out of
           None \<Rightarrow> rethrow c
         | Some _ \<Rightarrow>
             (case sm_find (sint requestId) (conn_requests c) of
                None \<Rightarrow> (Inr (), c)
              | Some _ \<Rightarrow> rethrow (eraseRequest (sint requestId) c)))"

text \<open>The function when no other thread comes between; \<open>Some ex\<close> is the wrapped exception.\<close>

definition sendRequest ::
  "bool \<Rightarrow> bzip2 \<Rightarrow> io \<Rightarrow> 'q option \<Rightarrow> bool \<Rightarrow> byte list \<Rightarrow> ('q, local_exception option) action" where
  "sendRequest big bz io out compress os =
     abind (beginRequest big io out os) (\<lambda>r.
       case r of
         Inl ex \<Rightarrow> aret (Some ex)
       | Inr (requestId, os') \<Rightarrow>
           abind (acatch (transmit big bz io RequestMsg compress os') (requestFailed io out requestId)) (\<lambda>_. aret None))"

definition beginAsyncRequest ::
  "bool \<Rightarrow> io \<Rightarrow> 'q \<Rightarrow> byte list \<Rightarrow> ('q, local_exception + ice_int \<times> byte list) action" where
  "beginAsyncRequest big io out os c =
     (if conn_datagram c then (Inl AssertionFailed, c)
      else case conn_exception c of
          Some ex \<Rightarrow> (Inr (Inl ex), c)
        | None \<Rightarrow>
            if \<not> conn_state c > StateNotValidated \<or> \<not> conn_state c < StateClosing then (Inl AssertionFailed, c)
            else abind newRequestId (\<lambda>requestId c1.
                case patchInt big requestId headerSize os of
                  Inl e \<Rightarrow> (Inl e, c1)
                | Inr os' \<Rightarrow>
                    let t = (if conn_timeout c1 > 0 then io_now io + conn_timeout c1 else 0)
                    in (Inr (Inr (requestId, os')),
                        acmReset io (c1\<lparr>conn_asyncRequests := sm_insert (sint requestId) (out, t) (conn_asyncRequests c1),
                                       conn_asyncRequestsHint := Some (sint requestId)\<rparr>))) c)"

definition asyncRequestFailed :: "io \<Rightarrow> ice_int \<Rightarrow> local_exception \<Rightarrow> ('q, unit) action" where
  "asyncRequestFailed io requestId ex =
     abind (setClosed io ex) (\<lambda>_ c.
       if conn_exception c = None then (Inl AssertionFailed, c)
       else case sm_find (sint requestId) (conn_asyncRequests c) of
           None \<Rightarrow> (Inr (), c)
         | Some _ \<Rightarrow> rethrow (eraseAsyncRequest (sint requestId) c))"

definition sendAsyncRequest ::
  "bool \<Rightarrow> bzip2 \<Rightarrow> io \<Rightarrow> 'q \<Rightarrow> bool \<Rightarrow> byte list \<Rightarrow> ('q, local_exception option) action" where
  "sendAsyncRequest big bz io out compress os =
     abind (beginAsyncRequest big io out os) (\<lambda>r.
       case r of
         Inl ex \<Rightarrow> aret (Some ex)
       | Inr (requestId, os') \<Rightarrow>
           abind (acatch (transmit big bz io RequestMsg compress os') (asyncRequestFailed io requestId)) (\<lambda>_. aret None))"

section \<open>Batches\<close>

text \<open>
  \<open>prepareBatchRequest\<close> hands the batch stream to the caller, in exchange for the caller's stream.
\<close>

definition prepareBatchRequest ::
  "io \<Rightarrow> stream \<Rightarrow> 'q connection \<Rightarrow> ((failure + stream) \<times> 'q connection) option" where
  "prepareBatchRequest io os =
     when_ready (\<lambda>c. \<not> (conn_batchStreamInUse c \<and> conn_exception c = None)) (\<lambda>c.
       if conn_exception c \<noteq> None then rethrow c
       else if \<not> conn_state c > StateNotValidated \<or> \<not> conn_state c < StateClosing then (Inl AssertionFailed, c)
       else case (if buf (conn_batchStream c) = [] then writeBlob requestBatchHdr (conn_batchStream c)
                  else Inr (conn_batchStream c)) of
           Inl (Thrown ex) \<Rightarrow> abind (setClosed io ex) (\<lambda>_. afail (Thrown ex)) c
         | Inl f \<Rightarrow> (Inl f, c)
         | Inr bs \<Rightarrow> (Inr bs, c\<lparr>conn_batchStreamInUse := True, conn_batchStream := os\<rparr>))"

text \<open>The result is what is left in the caller's stream.\<close>

definition finishBatchRequest :: "stream \<Rightarrow> bool \<Rightarrow> ('q, stream) action" where
  "finishBatchRequest os compress c =
     (let c1 = c\<lparr>conn_batchStream := os, conn_batchRequestNum := conn_batchRequestNum c + 1,
                 conn_batchRequestCompress := (conn_batchRequestCompress c \<or> compress)\<rparr>
      in if \<not> conn_batchStreamInUse c1 then (Inl AssertionFailed, c1)
         else (Inr (conn_batchStream c), c1\<lparr>conn_batchStreamInUse := False\<rparr>))"

definition resetBatch :: "'q connection \<Rightarrow> 'q connection" where
  "resetBatch c =
     c\<lparr>conn_batchStream := stream_new (messageSizeMax (conn_batchStream c)), conn_batchRequestNum := 0,
       conn_batchRequestCompress := False\<rparr>"

definition abortBatchRequest :: "('q, unit) action" where
  "abortBatchRequest c =
     (let c1 = resetBatch c
      in if \<not> conn_batchStreamInUse c1 then (Inl AssertionFailed, c1)
         else (Inr (), c1\<lparr>conn_batchStreamInUse := False\<rparr>))"

text \<open>The three sections of \<open>flushBatchRequests\<close>; the first tells whether there is something to send.\<close>

definition beginFlush :: "io \<Rightarrow> 'q connection \<Rightarrow> ((failure + bool) \<times> 'q connection) option" where
  "beginFlush io =
     when_ready (\<lambda>c. \<not> (conn_batchStreamInUse c \<and> conn_exception c = None)) (\<lambda>c.
       if conn_exception c \<noteq> None then rethrow c
       else if buf (conn_batchStream c) = [] then (Inr False, c)
       else if \<not> conn_state c > StateNotValidated \<or> \<not> conn_state c < StateClosing then (Inl AssertionFailed, c)
       else (Inr True, acmReset io (c\<lparr>conn_batchStream := (conn_batchStream c)\<lparr>rpos := 0\<rparr>, conn_batchStreamInUse := True\<rparr>)))"

definition sendBatch :: "bool \<Rightarrow> bzip2 \<Rightarrow> io \<Rightarrow> ('q, unit) action" where
  "sendBatch big bz io c =
     (if \<not> conn_transceiver c then rethrow c
      else case patchInt big (conn_batchRequestNum c) headerSize (buf (conn_batchStream c)) of
          Inl e \<Rightarrow> (Inl e, c)
        | Inr os \<Rightarrow>
            transmit big bz io BatchMsg (conn_batchRequestCompress c) os
              (c\<lparr>conn_batchStream := (conn_batchStream c)\<lparr>buf := streamAfter big bz (conn_batchRequestCompress c) os c\<rparr>\<rparr>))"

definition endFlush :: "('q, unit) action" where
  "endFlush c = (Inr (), (resetBatch c)\<lparr>conn_batchStreamInUse := False\<rparr>)"

definition flushBatchRequests ::
  "bool \<Rightarrow> bzip2 \<Rightarrow> io \<Rightarrow> 'q connection \<Rightarrow> ((failure + unit) \<times> 'q connection) option" where
  "flushBatchRequests big bz io c =
     map_option (\<lambda>r. case r of
         (Inl e, c1) \<Rightarrow> (Inl e, c1)
       | (Inr False, c1) \<Rightarrow> (Inr (), c1)
       | (Inr True, c1) \<Rightarrow> abind (acatch (sendBatch big bz io) (closeAndThrow io)) (\<lambda>_. endFlush) c1)
       (beginFlush io c)"

section \<open>Responses\<close>

definition endDispatch :: "bool \<Rightarrow> io \<Rightarrow> bool \<Rightarrow> ('q, unit) action" where
  "endDispatch big io acm c =
     (if \<not> conn_state c > StateNotValidated then (Inl AssertionFailed, c)
      else acatch
        (\<lambda>c1. if conn_state c1 = StateClosing \<and> conn_dispatchCount c1 = 0
              then abind (initiateShutdown big io) (\<lambda>_ c2. (Inr (), if acm then acmReset io c2 else c2)) c1
              else (Inr (), if acm then acmReset io c1 else c1))
        (setClosed io)
        (c\<lparr>conn_dispatchCount := conn_dispatchCount c - 1\<rparr>))"

definition sendResponse :: "bool \<Rightarrow> bzip2 \<Rightarrow> io \<Rightarrow> byte list \<Rightarrow> byte \<Rightarrow> ('q, unit) action" where
  "sendResponse big bz io os compressFlag =
     abind (acatch (transmit big bz io ReplyMsg (compressFlag > 0) os) (setClosed io)) (\<lambda>_. endDispatch big io True)"

definition sendNoResponse :: "bool \<Rightarrow> io \<Rightarrow> ('q, unit) action" where
  "sendNoResponse big io = endDispatch big io False"

definition setAdapter :: "bool option \<Rightarrow> ('q, unit) action" where
  "setAdapter adapter c =
     (if conn_exception c \<noteq> None then rethrow c
      else if \<not> conn_state c < StateClosing then (Inl AssertionFailed, c)
      else case adapter of
          None \<Rightarrow> (Inr (), c\<lparr>conn_adapter := False, conn_servantManager := False\<rparr>)
        | Some manager \<Rightarrow> (Inr (), c\<lparr>conn_adapter := manager, conn_servantManager := manager\<rparr>))"

section \<open>Validation\<close>

text \<open>\<open>validate\<close> without a thread per connection.  The server has the active role.\<close>

definition beginValidate :: "('q, bool) action" where
  "beginValidate c =
     (if conn_state c \<noteq> StateNotValidated \<and> conn_state c \<noteq> StateClosed then (Inl AssertionFailed, c)
      else if conn_state c = StateClosed then rethrow c
      else (Inr (conn_adapter c), c))"

text \<open>\<open>catch(const TimeoutException&)\<close>, which the other timeouts extend.\<close>

definition connectTimeout :: "local_exception \<Rightarrow> local_exception" where
  "connectTimeout ex =
     (if ex \<in> {TimeoutException, ConnectTimeoutException, CloseTimeoutException, ConnectionTimeoutException}
      then ConnectTimeoutException else ex)"

definition checkValidateHeader :: "bool \<Rightarrow> unit reader" where
  "checkValidateHeader big =
     rbind read_Byte (\<lambda>m0. rbind read_Byte (\<lambda>m1. rbind read_Byte (\<lambda>m2. rbind read_Byte (\<lambda>m3.
       if [m0, m1, m2, m3] \<noteq> magic then (\<lambda>_. throw (BadMagicException [m0, m1, m2, m3]))
       else rbind read_Byte (\<lambda>pMajor. rbind read_Byte (\<lambda>pMinor.
         if pMajor \<noteq> protocolMajor then (\<lambda>_. throw (UnsupportedProtocolException pMajor pMinor))
         else rbind read_Byte (\<lambda>eMajor. rbind read_Byte (\<lambda>eMinor.
           if eMajor \<noteq> encodingMajor then (\<lambda>_. throw (UnsupportedEncodingException eMajor eMinor))
           else rbind read_Byte (\<lambda>messageType.
             if messageType \<noteq> validateConnectionMsg then (\<lambda>_. throw ConnectionNotValidatedException)
             else rbind read_Byte (\<lambda>compress. rbind (read_Int big) (\<lambda>size.
               if sint size \<noteq> int headerSize then (\<lambda>_. throw IllegalMessageSizeException)
               else rret ())))))))))))"

definition handshake :: "bool \<Rightarrow> io \<Rightarrow> bool \<Rightarrow> ('q, unit) action" where
  "handshake big io active c =
     (if active then
        if \<not> conn_transceiver c then rethrow c
        else acatch
          (abind (transceiverCall (io_initialize io)) (\<lambda>_.
             transceiverWrite io ValidateMsg (headerMessage big validateConnectionMsg 0)))
          (\<lambda>ex. afail (Thrown (connectTimeout ex))) c
      else
        abind
          (acatch
            (abind (transceiverCall (io_initialize io)) (\<lambda>_.
             abind (transceiverCall (case io_read io of Inl e \<Rightarrow> Some e | Inr _ \<Rightarrow> None)) (\<lambda>_. aret (io_read io))))
            (\<lambda>ex. afail (Thrown (connectTimeout ex))))
          (\<lambda>r c1. case r of
               Inl _ \<Rightarrow> (Inl AssertionFailed, c1)
             | Inr bytes \<Rightarrow>
                 if length bytes \<noteq> headerSize then (Inl AssertionFailed, c1)
                 else (case checkValidateHeader big (stream_new headerSize\<lparr>buf := bytes\<rparr>) of
                         Inl e \<Rightarrow> (Inl e, c1)
                       | Inr _ \<Rightarrow> (Inr (), c1))) c)"

definition endValidate :: "bool \<Rightarrow> io \<Rightarrow> ('q, unit) action" where
  "endValidate big io c = setState big io StateHolding (acmReset io c)"

definition validate :: "bool \<Rightarrow> io \<Rightarrow> ('q, unit) action" where
  "validate big io c =
     (if conn_datagram c then endValidate big io c
      else abind beginValidate (\<lambda>active.
           abind (acatch (handshake big io active) (closeAndThrow io)) (\<lambda>_. endValidate big io)) c)"

section \<open>Receiving\<close>

record 'q parsed =
  pm_invokeNum :: ice_int
  pm_requestId :: ice_int
  pm_compress :: byte
  pm_servantManager :: bool
  pm_adapter :: bool
  pm_outAsync :: "'q option"
  pm_stream :: stream

definition nothingParsed :: "stream \<Rightarrow> 'q parsed" where
  "nothingParsed s =
     \<lparr>pm_invokeNum = 0, pm_requestId = 0, pm_compress = 0, pm_servantManager = False, pm_adapter = False,
      pm_outAsync = None, pm_stream = s\<rparr>"

text \<open>Is the request the hint points to the one we look for?\<close>

definition hintMatch :: "(int, 'v) smap \<Rightarrow> int option \<Rightarrow> int \<Rightarrow> failure + 'v option" where
  "hintMatch m hint k =
     (case hint of
        None \<Rightarrow> Inr None
      | Some h \<Rightarrow>
          (case sm_find h m of
             None \<Rightarrow> Inl MemoryFault
           | Some v \<Rightarrow> Inr (if h = k then Some v else None)))"

definition replyTarget :: "int \<Rightarrow> 'q connection \<Rightarrow> failure + 'q option \<times> ('q \<times> int) option" where
  "replyTarget requestId c =
     andThen (hintMatch (conn_requests c) (conn_requestsHint c) requestId) (\<lambda>p.
     andThen (if p = None then hintMatch (conn_asyncRequests c) (conn_asyncRequestsHint c) requestId else Inr None) (\<lambda>q.
       let p1 = (if p = None \<and> q = None then sm_find requestId (conn_requests c) else p);
           q1 = (if p1 = None \<and> q = None then sm_find requestId (conn_asyncRequests c) else q)
       in Inr (p1, q1)))"

text \<open>
  The case \<open>replyMsg\<close>.  \<open>accept q stream\<close> is the outcome of \<open>Outgoing::finished\<close>, which runs
  before the request is erased.
\<close>

definition handleReply ::
  "bool \<Rightarrow> ('q \<Rightarrow> stream \<Rightarrow> local_exception option) \<Rightarrow> byte \<Rightarrow> stream \<Rightarrow> ('q, 'q parsed) action" where
  "handleReply big accept compress s c =
     (case read_Int big s of
        Inl e \<Rightarrow> (Inl e, c)
      | Inr (requestId, s1) \<Rightarrow>
          let r = (nothingParsed s1)\<lparr>pm_requestId := requestId, pm_compress := compress\<rparr>
          in case replyTarget (sint requestId) c of
               Inl e \<Rightarrow> (Inl e, c)
             | Inr (Some q, _) \<Rightarrow>
                 (case accept q s1 of
                    Some e \<Rightarrow> (Inl (Thrown e), c)
                  | None \<Rightarrow> (Inr r, eraseRequest (sint requestId) (c\<lparr>conn_log := conn_log c @ [RequestReplied q s1]\<rparr>)))
             | Inr (None, Some (q, t)) \<Rightarrow> (Inr (r\<lparr>pm_outAsync := Some q\<rparr>), eraseAsyncRequest (sint requestId) c)
             | Inr (None, None) \<Rightarrow> (Inl (Thrown UnknownRequestIdException), c))"

definition handleRequest :: "bool \<Rightarrow> byte \<Rightarrow> stream \<Rightarrow> ('q, 'q parsed) action" where
  "handleRequest big compress s c =
     (if conn_state c = StateClosing then (Inr ((nothingParsed s)\<lparr>pm_compress := compress\<rparr>), c)
      else case read_Int big s of
          Inl e \<Rightarrow> (Inl e, c)
        | Inr (requestId, s1) \<Rightarrow>
            (Inr ((nothingParsed s1)\<lparr>pm_invokeNum := 1, pm_requestId := requestId, pm_compress := compress,
                    pm_servantManager := conn_servantManager c, pm_adapter := conn_adapter c\<rparr>),
             c\<lparr>conn_dispatchCount := conn_dispatchCount c + 1\<rparr>))"

definition handleBatch :: "bool \<Rightarrow> byte \<Rightarrow> stream \<Rightarrow> ('q, 'q parsed) action" where
  "handleBatch big compress s c =
     (if conn_state c = StateClosing then (Inr ((nothingParsed s)\<lparr>pm_compress := compress\<rparr>), c)
      else case read_Int big s of
          Inl e \<Rightarrow> (Inl e, c)
        | Inr (invokeNum, s1) \<Rightarrow>
            if sint invokeNum < 0 then (Inl (Thrown NegativeSizeException), c)
            else (Inr ((nothingParsed s1)\<lparr>pm_invokeNum := invokeNum, pm_compress := compress,
                         pm_servantManager := conn_servantManager c, pm_adapter := conn_adapter c\<rparr>),
                  c\<lparr>conn_dispatchCount := conn_dispatchCount c + invokeNum\<rparr>))"

text \<open>The handlers of \<open>parseMessage\<close>.  \<open>exception(ex)\<close> locks the monitor, which the thread holds.\<close>

definition parseFailed :: "io \<Rightarrow> stream \<Rightarrow> local_exception \<Rightarrow> ('q, 'q parsed) action" where
  "parseFailed io s ex c =
     (if ex \<in> {SocketException, ConnectionLostException} then (Inl ThreadLockedException, c)
      else if conn_datagram c then (Inr (nothingParsed s), c)
      else abind (setClosed io ex) (\<lambda>_. aret (nothingParsed s)) c)"

definition parseBody ::
  "bool \<Rightarrow> bzip2 \<Rightarrow> byte \<Rightarrow> ('q \<Rightarrow> stream \<Rightarrow> local_exception option) \<Rightarrow> io \<Rightarrow> stream \<Rightarrow> ('q, 'q parsed) action" where
  "parseBody big bz fill accept io stream c =
     (case openMessage big bz fill stream of
        Inl e \<Rightarrow> (Inl e, c)
      | Inr ((messageType, compress), s) \<Rightarrow>
          let r = (nothingParsed s)\<lparr>pm_compress := compress\<rparr>
          in if messageType = closeConnectionMsg then
               if conn_datagram c then (Inr r, c)
               else abind (setClosed io CloseConnectionException) (\<lambda>_. aret r) c
             else if messageType = requestMsg then handleRequest big compress s c
             else if messageType = requestBatchMsg then handleBatch big compress s c
             else if messageType = replyMsg then handleReply big accept compress s c
             else if messageType = validateConnectionMsg then (Inr r, c)
             else (Inl (Thrown UnknownMessageException), c))"

definition parseMessage ::
  "bool \<Rightarrow> bzip2 \<Rightarrow> byte \<Rightarrow> ('q \<Rightarrow> stream \<Rightarrow> local_exception option) \<Rightarrow> io \<Rightarrow> stream \<Rightarrow> ('q, 'q parsed) action" where
  "parseMessage big bz fill accept io stream c =
     (if \<not> (conn_state c > StateNotValidated \<and> conn_state c < StateClosed) then (Inl AssertionFailed, c)
      else acatch (parseBody big bz fill accept io stream) (parseFailed io stream) (acmReset io c))"

text \<open>The critical section of \<open>message\<close>; \<open>None\<close> when the connection is closed and there is nothing more to do.\<close>

definition receiveMessage ::
  "bool \<Rightarrow> bzip2 \<Rightarrow> byte \<Rightarrow> ('q \<Rightarrow> stream \<Rightarrow> local_exception option) \<Rightarrow> io \<Rightarrow> stream \<Rightarrow> ('q, 'q parsed option) action" where
  "receiveMessage big bz fill accept io stream c =
     (if conn_threadPerConnection c then (Inl AssertionFailed, c)
      else if conn_state c = StateClosed then (Inr None, c)
      else abind (parseMessage big bz fill accept io stream)
             (\<lambda>r c1. (Inr (if conn_state c1 = StateClosed then None else Some r), c1)) c)"

text \<open>The end of \<open>invokeAll\<close>, for the invocations that were not answered.\<close>

definition dropDispatches :: "ice_int \<Rightarrow> ('q, unit) action" where
  "dropDispatches invokeNum c =
     (if sint invokeNum > 0 then
        if \<not> sint (conn_dispatchCount c) > 0 then (Inl AssertionFailed, c)
        else let c1 = c\<lparr>conn_dispatchCount := conn_dispatchCount c - invokeNum\<rparr>
             in if \<not> sint (conn_dispatchCount c1) \<ge> 0 then (Inl AssertionFailed, c1) else (Inr (), c1)
      else (Inr (), c))"

section \<open>What no action undoes\<close>

text \<open>
  \<open>obeys R act\<close>: the action relates every state to its successor.  For a preorder the
  combinators inherit it from their parts.
\<close>

definition obeys :: "('q connection \<Rightarrow> 'q connection \<Rightarrow> bool) \<Rightarrow> ('q, 'a) action \<Rightarrow> bool" where
  "obeys R act \<longleftrightarrow> (\<forall>c. R c (snd (act c)))"

lemma obeysI: "(\<And>c. R c (snd (act c))) \<Longrightarrow> obeys R act"
  by (simp add: obeys_def)

lemma obeysD: "obeys R act \<Longrightarrow> R c (snd (act c))"
  by (simp add: obeys_def)

lemma obeys_abind:
  assumes "transp R" "obeys R m" "\<And>x. obeys R (f x)"
  shows "obeys R (abind m f)"
proof (rule obeysI)
  fix c
  obtain r c' where mc: "m c = (r, c')" by fastforce
  have rc: "R c c'" using obeysD [OF assms(2), of c] mc by simp
  show "R c (snd (abind m f c))"
  proof (cases r)
    case (Inl e)
    then show ?thesis using rc mc by (simp add: abind_def)
  next
    case (Inr x)
    then show ?thesis using transpD [OF assms(1) rc obeysD [OF assms(3)]] mc by (simp add: abind_def)
  qed
qed

lemma obeys_acatch:
  assumes "transp R" "obeys R m" "\<And>e. obeys R (h e)"
  shows "obeys R (acatch m h)"
proof (rule obeysI)
  fix c
  obtain r c' where mc: "m c = (r, c')" by fastforce
  have rc: "R c c'" using obeysD [OF assms(2), of c] mc by simp
  show "R c (snd (acatch m h c))"
  proof (cases "\<exists>e. r = Inl (Thrown e)")
    case True
    then obtain e where "acatch m h c = h e c'" using mc by (auto simp: acatch_def)
    then show ?thesis using rc transpD [OF assms(1)] obeysD [OF assms(3)] by metis
  next
    case False
    then have "acatch m h c = (r, c')" using mc by (auto simp: acatch_def split: sum.splits failure.splits)
    then show ?thesis using rc by simp
  qed
qed

text \<open>
  Closing is final: the state never leaves \<open>StateClosing\<close> but for \<open>StateClosed\<close>, and never that
  one; the exception is immutable once set; a closed transceiver does not come back.  And no request
  is left behind: before validation and behind a closed transceiver the tables are empty (\<open>idle\<close>).
\<close>

definition idle :: "'q connection \<Rightarrow> bool" where
  "idle c \<longleftrightarrow>
     (conn_state c = StateNotValidated \<or> \<not> conn_transceiver c \<longrightarrow> conn_requests c = [] \<and> conn_asyncRequests c = [])"

definition advance :: "'q connection \<Rightarrow> 'q connection \<Rightarrow> bool" where
  "advance c c' \<longleftrightarrow>
     (conn_state c \<ge> StateClosing \<longrightarrow> conn_state c' \<ge> conn_state c) \<and>
     (conn_exception c \<noteq> None \<longrightarrow> conn_exception c' = conn_exception c) \<and>
     (conn_transceiver c' \<longrightarrow> conn_transceiver c) \<and>
     (conn_state c' = StateNotValidated \<longrightarrow> conn_state c = StateNotValidated) \<and>
     prefix (conn_log c) (conn_log c') \<and> (idle c \<longrightarrow> idle c')"

lemma advance_refl [simp]: "advance c c"
  by (simp add: advance_def)

lemma advance_trans: "advance a b \<Longrightarrow> advance b c \<Longrightarrow> advance a c"
  unfolding advance_def by (auto intro: order.trans prefix_order.trans)

lemma advance_transp: "transp advance"
  by (rule transpI) (rule advance_trans)

text \<open>Only sending and dispatching touch the batch stream and the dispatch count.\<close>

definition frame :: "'q connection \<Rightarrow> 'q connection \<Rightarrow> bool" where
  "frame c c' \<longleftrightarrow>
     conn_dispatchCount c' = conn_dispatchCount c \<and> conn_batchStream c' = conn_batchStream c \<and>
     conn_batchStreamInUse c' = conn_batchStreamInUse c"

lemma frame_refl [simp]: "frame c c"
  by (simp add: frame_def)

lemma frame_transp: "transp frame"
  by (rule transpI) (simp add: frame_def)

definition quiet :: "'q connection \<Rightarrow> 'q connection \<Rightarrow> bool" where
  "quiet c c' \<longleftrightarrow> advance c c' \<and> frame c c'"

lemma quiet_transp: "transp quiet"
  using advance_trans transpD [OF frame_transp] unfolding quiet_def by (intro transpI) blast

lemma quiet_refl [simp]: "quiet c c"
  by (simp add: quiet_def)

lemmas quiet_abind = obeys_abind [OF quiet_transp]
lemmas quiet_acatch = obeys_acatch [OF quiet_transp]
lemmas quiet_defs = quiet_def advance_def frame_def idle_def

lemma quiet_basic [simp]:
  "obeys quiet (aret x)" "obeys quiet (afail e)" "obeys quiet (alog ev)" "obeys quiet (transceiverCall r)"
  "obeys quiet registerWithPool" "obeys quiet unregisterWithPool" "obeys quiet rethrow"
  by (rule obeysI; simp add: quiet_defs action_defs rethrow_def split: option.splits)+

lemma rethrow_state [simp]: "snd (rethrow c) = c"
  by (simp add: rethrow_def split: option.splits)

lemma quiet_transceiverWrite [simp]: "obeys quiet (transceiverWrite io kind bs)"
  unfolding transceiverWrite_def by (intro quiet_abind) simp_all

lemma quiet_recordException [simp]: "obeys quiet (recordException ex)"
  by (rule obeysI) (simp add: recordException_def quiet_defs split: option.splits)

lemma quiet_switchState [simp]: "obeys quiet (switchState io state)"
proof (rule obeysI)
  fix c :: "'q connection"
  show "quiet c (snd (switchState io state c))"
    by (cases "conn_state c"; cases "targetState state c")
      (auto simp: switchState_def Let_def action_defs quiet_defs state_order split: option.splits)
qed

lemma quiet_setClosed [simp]: "obeys quiet (setClosed io ex)"
proof (rule obeysI)
  fix c :: "'q connection"
  have "quiet c (snd (abind (recordException ex) (\<lambda>_. abind (switchState io StateClosed) (\<lambda>_. aret ())) c))"
    by (rule obeysD, intro quiet_abind) simp_all
  then show "quiet c (snd (setClosed io ex c))" by (simp add: setClosed_def)
qed

lemma quiet_initiateShutdown [simp]: "obeys quiet (initiateShutdown big io)"
  using quiet_transceiverWrite by (auto simp: obeys_def initiateShutdown_def)

lemma quiet_setState [simp]: "obeys quiet (setState big io state)"
  unfolding setState_def
proof (intro quiet_abind quiet_switchState obeysI)
  fix switched and c :: "'q connection"
  have "quiet c (snd (acatch (initiateShutdown big io) (setClosed io) c))"
    by (rule obeysD, intro quiet_acatch) simp_all
  then show "quiet c (snd (if switched \<and> conn_state c = StateClosing \<and> conn_dispatchCount c = 0
       then acatch (initiateShutdown big io) (setClosed io) c else (Inr (), c)))"
    by simp
qed

lemma quiet_setStateEx [simp]: "obeys quiet (setStateEx big io state ex)"
proof (rule obeysI)
  fix c :: "'q connection"
  have "quiet c (snd (abind (recordException ex) (\<lambda>_. setState big io state) c))"
    by (rule obeysD, intro quiet_abind) simp_all
  then show "quiet c (snd (setStateEx big io state ex c))" by (auto simp: setStateEx_def)
qed

lemma quiet_acmReset [simp]: "quiet c (acmReset io c)"
  by (simp add: acmReset_def quiet_defs)

lemma quiet_closeAndThrow [simp]: "obeys quiet (closeAndThrow io ex)"
  unfolding closeAndThrow_def by (intro quiet_abind) simp_all

lemma quiet_transmit [simp]: "obeys quiet (transmit big bz io kind compress os)"
  using quiet_transceiverWrite by (auto simp: obeys_def transmit_def split: option.splits sum.splits)

lemma quiet_failRequests [simp]: "obeys quiet failRequests"
  by (rule obeysI) (simp add: failRequests_def Let_def quiet_defs split: option.splits)

lemma quiet_finished [simp]: "obeys quiet (finished_conn io)"
proof (rule obeysI)
  fix c :: "'q connection"
  let ?c1 = "c\<lparr>conn_finishedCount := conn_finishedCount c - 1\<rparr>"
  have c1: "quiet c ?c1" by (simp add: quiet_defs)
  moreover have "quiet ?c1 (snd (failRequests ?c1))" by (rule obeysD) simp
  ultimately have f: "quiet c (snd (failRequests ?c1))" by (rule transpD [OF quiet_transp])
  have "quiet c (snd (finished_conn io c))" if "conn_state c = StateClosed" "conn_finishedCount c = 1"
    using that
    by (auto simp: finished_conn_def failRequests_def Let_def abind_def aret_def afail_def quiet_defs split: option.splits)
  then show "quiet c (snd (finished_conn io c))"
    using f c1 by (cases "conn_state c = StateClosed \<and> conn_finishedCount c = 1") (auto simp: finished_conn_def Let_def)
qed

section \<open>The invariant is kept\<close>

text \<open>A result other than a violated assertion, a bad memory access or a self-deadlock.\<close>

definition orderly :: "failure + 'a \<Rightarrow> bool" where
  "orderly r = (case r of Inl (Thrown _) \<Rightarrow> True | Inl _ \<Rightarrow> False | Inr _ \<Rightarrow> True)"

lemma orderly_simps [simp]:
  "orderly (Inr x)" "orderly (throw e)" "\<not> orderly (Inl AssertionFailed)" "\<not> orderly (Inl MemoryFault)"
  "\<not> orderly (Inl ThreadLockedException)" "\<not> orderly (Inl NullHandleException)"
  by (simp_all add: orderly_def)

lemma orderly_andThen: "orderly m \<Longrightarrow> (\<And>x. m = Inr x \<Longrightarrow> orderly (f x)) \<Longrightarrow> orderly (andThen m f)"
  by (cases m) (auto simp: orderly_def split: failure.splits)

lemma read_Int_orderly: "0 \<le> rpos s \<Longrightarrow> orderly (read_Int big s)"
  unfolding read_Int_def readFixed_def rbind_def
  by (rule orderly_andThen) (auto simp: takeBytes_def rret_def)

lemma read_Byte_orderly: "0 \<le> rpos s \<Longrightarrow> orderly (read_Byte s)"
  by (simp add: read_Byte_def)

definition keeps_at :: "'q connection \<Rightarrow> ('q, 'a) action \<Rightarrow> bool" where
  "keeps_at c act \<longleftrightarrow> conn_inv (snd (act c)) \<and> orderly (fst (act c))"

lemma keeps_at: "keeps act \<Longrightarrow> conn_inv c \<Longrightarrow> keeps_at c act"
  by (simp add: keeps_def keeps_at_def orderly_def)

lemma keeps_at_abind:
  assumes "keeps_at c m" "\<And>x c'. m c = (Inr x, c') \<Longrightarrow> conn_inv c' \<Longrightarrow> keeps_at c' (f x)"
  shows "keeps_at c (abind m f)"
proof (cases "m c")
  case (Pair r c')
  then show ?thesis using assms by (cases r) (auto simp: keeps_at_def abind_def orderly_def split: failure.splits)
qed

lemma keeps_at_acatch:
  assumes "keeps_at c m" "\<And>e c'. m c = (throw e, c') \<Longrightarrow> conn_inv c' \<Longrightarrow> keeps_at c' (h e)"
  shows "keeps_at c (acatch m h)"
proof (cases "m c")
  case (Pair r c')
  then show ?thesis using assms
    by (cases r) (auto simp: keeps_at_def acatch_def split: failure.splits)
qed

lemma keeps_at_aret [simp]: "keeps_at c (aret x) = conn_inv c" "keeps_at c (afail (Thrown e)) = conn_inv c"
  by (simp_all add: keeps_at_def aret_def afail_def)

text \<open>Fields the invariant does not mention.\<close>

lemma conn_inv_update [simp]:
  "conn_inv (c\<lparr>conn_nextRequestId := n\<rparr>) = conn_inv c"
  "conn_inv (c\<lparr>conn_acmAbsoluteTimeout := t\<rparr>) = conn_inv c"
  "conn_inv (c\<lparr>conn_batchStream := s\<rparr>) = conn_inv c"
  "conn_inv (c\<lparr>conn_batchStreamInUse := b\<rparr>) = conn_inv c"
  "conn_inv (c\<lparr>conn_batchRequestNum := n\<rparr>) = conn_inv c"
  "conn_inv (c\<lparr>conn_batchRequestCompress := b\<rparr>) = conn_inv c"
  "conn_inv (c\<lparr>conn_adapter := b\<rparr>) = conn_inv c"
  "conn_inv (c\<lparr>conn_servantManager := b\<rparr>) = conn_inv c"
  by (simp_all add: conn_inv_def life_inv_def shutdown_inv_def tables_inv_def)

lemma conn_inv_acmReset [simp]: "conn_inv (acmReset io c) = conn_inv c"
  by (simp add: acmReset_def)

lemma acmReset_fields [simp]:
  "conn_state (acmReset io c) = conn_state c" "conn_exception (acmReset io c) = conn_exception c"
  "conn_dispatchCount (acmReset io c) = conn_dispatchCount c" "conn_batchStream (acmReset io c) = conn_batchStream c"
  "conn_batchStreamInUse (acmReset io c) = conn_batchStreamInUse c" "conn_datagram (acmReset io c) = conn_datagram c"
  "conn_requests (acmReset io c) = conn_requests c" "conn_asyncRequests (acmReset io c) = conn_asyncRequests c"
  "conn_requestsHint (acmReset io c) = conn_requestsHint c" "conn_asyncRequestsHint (acmReset io c) = conn_asyncRequestsHint c"
  "conn_log (acmReset io c) = conn_log c" "conn_transceiver (acmReset io c) = conn_transceiver c"
  by (simp_all add: acmReset_def)

lemma inv_exception: "conn_inv c \<Longrightarrow> conn_exception c \<noteq> None \<longleftrightarrow> conn_state c \<ge> StateClosing"
  by (simp add: conn_inv_def life_inv_def)

lemma inv_transceiver: "conn_inv c \<Longrightarrow> \<not> conn_transceiver c \<Longrightarrow> conn_exception c \<noteq> None"
  by (auto simp: inv_defs)

lemma not_early: "\<not> conn_state c > StateNotValidated \<longleftrightarrow> conn_state c = StateNotValidated"
  by (cases "conn_state c") (simp_all add: state_order)

lemma not_late: "\<not> (s :: conn_state) < StateClosing \<longleftrightarrow> s \<ge> StateClosing"
  by (simp add: not_less)

lemma rethrow_keeps: "conn_inv c \<Longrightarrow> conn_exception c \<noteq> None \<Longrightarrow> keeps_at c rethrow"
  by (auto simp: keeps_at_def rethrow_def)

lemma closed_exception: "io_ok io \<Longrightarrow> conn_inv c \<Longrightarrow> setClosed io ex c = (r, c') \<Longrightarrow>
    conn_inv c' \<and> conn_exception c' \<noteq> None \<and> conn_state c' = StateClosed"
  using setClosed_result [of c io ex] by (auto split: option.splits)

lemma setClosed_keeps_at: "io_ok io \<Longrightarrow> conn_inv c \<Longrightarrow> keeps_at c (setClosed io ex)"
  by (rule keeps_at [OF setClosed_keeps])

lemma closeAndThrow_keeps: "io_ok io \<Longrightarrow> conn_inv c \<Longrightarrow> keeps_at c (closeAndThrow io ex)"
  unfolding closeAndThrow_def
  by (intro keeps_at_abind setClosed_keeps_at) (auto dest: closed_exception intro: rethrow_keeps)

lemma prepareMessage_fails:
  assumes "headerSize \<le> length os" "snd (prepareMessage big bz level compress os) = Inl e"
  shows "e = Thrown CompressionException"
proof (cases "compress \<and> 100 \<le> length os")
  case True
  then have "doCompress big bz level (os[9 := 2]) = Inl e"
    using assms(2) by (auto simp: prepareMessage_def Let_def split: sum.splits)
  then show ?thesis using assms(1)
    by (auto simp: doCompress_def Let_def patchInt_eq headerSize_def split: if_splits sum.splits)
next
  case False
  then show ?thesis using assms prepareMessage_plain [OF assms(1) False, of big bz level] by (simp add: Let_def)
qed

lemma transceiverWrite_keeps:
  assumes "conn_inv c" "conn_transceiver c" "kind \<noteq> CloseMsg"
  shows "keeps_at c (transceiverWrite io kind bs)"
  using assms by (auto simp: keeps_at_def action_defs inv_defs split: option.splits)

lemma transmit_keeps:
  assumes "conn_inv c" "kind \<noteq> CloseMsg" "headerSize \<le> length os"
  shows "keeps_at c (transmit big bz io kind compress os)"
proof (cases "conn_transceiver c")
  case True
  note w = transceiverWrite_keeps [OF assms(1) True assms(2), of io]
  show ?thesis
  proof (cases "snd (prepareMessage big bz (conn_compressionLevel c) compress os)")
    case (Inl e)
    then show ?thesis using True assms(1) prepareMessage_fails [OF assms(3) Inl] by (simp add: keeps_at_def transmit_def)
  next
    case (Inr bytes)
    then show ?thesis using True w [of bytes] by (simp add: keeps_at_def transmit_def)
  qed
next
  case False
  then show ?thesis using assms(1) inv_transceiver [OF assms(1) False] by (auto simp: keeps_at_def transmit_def)
qed

section \<open>Requests and batches keep the invariant\<close>

lemma iter_ok_Some_insert: "sm_ok m \<Longrightarrow> iter_ok (sm_insert k v m) (Some k)"
  by (simp add: iter_ok_def) 

lemma iter_ok_erased: "iter_ok m it \<Longrightarrow> iter_ok (sm_erase k m) (if it = Some k then sm_next k m else it)"
  by (simp add: iter_ok_next iter_ok_erase)

lemma conn_inv_tables:
  "conn_inv (c\<lparr>conn_requests := m, conn_requestsHint := h\<rparr>) \<longleftrightarrow>
     life_inv c \<and> shutdown_inv c \<and> sm_ok m \<and> iter_ok m h \<and>
     sm_ok (conn_asyncRequests c) \<and> iter_ok (conn_asyncRequests c) (conn_asyncRequestsHint c)"
  "conn_inv (c\<lparr>conn_asyncRequests := m', conn_asyncRequestsHint := h\<rparr>) \<longleftrightarrow>
     life_inv c \<and> shutdown_inv c \<and> sm_ok m' \<and> iter_ok m' h \<and>
     sm_ok (conn_requests c) \<and> iter_ok (conn_requests c) (conn_requestsHint c)"
  by (auto simp: conn_inv_def life_inv_def shutdown_inv_def tables_inv_def)

lemma conn_inv_insert:
  assumes "conn_inv c"
  shows "conn_inv (c\<lparr>conn_requests := sm_insert k q (conn_requests c), conn_requestsHint := Some k\<rparr>)"
    and "conn_inv (c\<lparr>conn_asyncRequests := sm_insert k v (conn_asyncRequests c), conn_asyncRequestsHint := Some k\<rparr>)"
  using assms [unfolded conn_inv_def tables_inv_def] unfolding conn_inv_tables by (simp_all add: iter_ok_Some_insert)

lemma conn_inv_erase:
  assumes "conn_inv c"
  shows "conn_inv (eraseRequest k c)" and "conn_inv (eraseAsyncRequest k c)"
  using assms [unfolded conn_inv_def tables_inv_def] unfolding eraseRequest_def eraseAsyncRequest_def conn_inv_tables
  by (simp_all add: iter_ok_next iter_ok_erase)

lemma newRequestId_result:
  "\<exists>requestId next. newRequestId c = (Inr requestId, c\<lparr>conn_nextRequestId := next\<rparr>) \<and> 0 < sint requestId"
  by (auto simp: newRequestId_def Let_def)

lemma beginRequest_keeps:
  assumes inv: "conn_inv c" and st: "conn_state c \<noteq> StateNotValidated" and os: "headerSize + 4 \<le> length os"
    and dg: "out \<noteq> None \<longrightarrow> \<not> conn_datagram c"
  shows "keeps_at c (beginRequest big io out os)"
proof (cases "conn_exception c")
  case None
  obtain rid nx where id: "newRequestId c = (Inr rid, c\<lparr>conn_nextRequestId := nx\<rparr>)" using newRequestId_result by blast
  show ?thesis using None inv st dg id inv_exception [OF inv] conn_inv_insert(1) [of "c\<lparr>conn_nextRequestId := nx\<rparr>"]
      patchInt_eq [OF os, of big rid]
    by (auto simp: keeps_at_def beginRequest_def not_early not_late abind_def split: option.splits)
next
  case (Some ex)
  then show ?thesis using inv dg by (auto simp: keeps_at_def beginRequest_def)
qed

lemma beginAsyncRequest_keeps:
  assumes inv: "conn_inv c" and st: "conn_state c \<noteq> StateNotValidated" and os: "headerSize + 4 \<le> length os"
    and dg: "\<not> conn_datagram c"
  shows "keeps_at c (beginAsyncRequest big io q os)"
proof (cases "conn_exception c")
  case None
  obtain rid nx where id: "newRequestId c = (Inr rid, c\<lparr>conn_nextRequestId := nx\<rparr>)" using newRequestId_result by blast
  show ?thesis using None inv st dg id inv_exception [OF inv] conn_inv_insert(2) [of "c\<lparr>conn_nextRequestId := nx\<rparr>"]
      patchInt_eq [OF os, of big rid]
    by (auto simp: keeps_at_def beginAsyncRequest_def not_early not_late abind_def Let_def)
next
  case (Some ex)
  then show ?thesis using inv dg by (auto simp: keeps_at_def beginAsyncRequest_def)
qed

lemma erase_exception [simp]:
  "conn_exception (eraseRequest k c) = conn_exception c" "conn_exception (eraseAsyncRequest k c) = conn_exception c"
  by (simp_all add: eraseRequest_def eraseAsyncRequest_def)

lemma requestFailed_keeps:
  assumes "io_ok io" "conn_inv c"
  shows "keeps_at c (requestFailed io out rid ex)"
  unfolding requestFailed_def
proof (intro keeps_at_abind setClosed_keeps_at [OF assms])
  fix x c'
  assume "setClosed io ex c = (Inr x, c')"
  note c' = closed_exception [OF assms this]
  have "keeps_at c' rethrow" "keeps_at (eraseRequest (sint rid) c') rethrow"
    using c' conn_inv_erase(1) [of c'] by (auto intro: rethrow_keeps)
  then show "keeps_at c' (\<lambda>c. if conn_exception c = None then (Inl AssertionFailed, c)
       else case out of None \<Rightarrow> rethrow c
         | Some _ \<Rightarrow> (case sm_find (sint rid) (conn_requests c) of
                None \<Rightarrow> (Inr (), c) | Some _ \<Rightarrow> rethrow (eraseRequest (sint rid) c)))"
    using c' by (auto simp: keeps_at_def split: option.splits)
qed

lemma asyncRequestFailed_keeps:
  assumes "io_ok io" "conn_inv c"
  shows "keeps_at c (asyncRequestFailed io rid ex)"
  unfolding asyncRequestFailed_def
proof (intro keeps_at_abind setClosed_keeps_at [OF assms])
  fix x c'
  assume "setClosed io ex c = (Inr x, c')"
  note c' = closed_exception [OF assms this]
  have "keeps_at (eraseAsyncRequest (sint rid) c') rethrow"
    using c' conn_inv_erase(2) [of c'] by (auto intro: rethrow_keeps)
  then show "keeps_at c' (\<lambda>c. if conn_exception c = None then (Inl AssertionFailed, c)
       else case sm_find (sint rid) (conn_asyncRequests c) of
           None \<Rightarrow> (Inr (), c) | Some _ \<Rightarrow> rethrow (eraseAsyncRequest (sint rid) c))"
    using c' by (auto simp: keeps_at_def split: option.splits)
qed

definition batch_ok :: "'q connection \<Rightarrow> bool" where
  "batch_ok c \<longleftrightarrow>
     (\<not> conn_batchStreamInUse c \<longrightarrow> buf (conn_batchStream c) = [] \<or> headerSize + 4 \<le> length (buf (conn_batchStream c)))"

lemma writeBlob_outcome: "writeBlob bs s = Inl e \<Longrightarrow> e = Thrown MemoryLimitException"
  by (auto simp: writeBlob_def appendBytes_Inr split: if_splits)

lemma prepareBatchRequest_keeps:
  fixes c :: "'q connection"
  assumes inv: "conn_inv c" and st: "conn_state c \<noteq> StateNotValidated" and io: "io_ok io"
    and run: "prepareBatchRequest io os c = Some (r, c')"
  shows "conn_inv c' \<and> orderly r \<and> (batch_ok c \<longrightarrow> batch_ok c') \<and> conn_dispatchCount c' = conn_dispatchCount c \<and>
    advance c c'"
proof (cases "conn_exception c")
  case (Some ex)
  then show ?thesis using run inv by (auto simp: prepareBatchRequest_def when_ready_def rethrow_def)
next
  case None
  have st': "conn_state c > StateNotValidated" "conn_state c < StateClosing"
    using None inv_exception [OF inv] not_early [of c] not_late [of "conn_state c"] st by simp_all
  let ?w = "if buf (conn_batchStream c) = [] then writeBlob requestBatchHdr (conn_batchStream c) else Inr (conn_batchStream c)"
  show ?thesis
  proof (cases ?w)
    case (Inl e)
    then have e: "e = Thrown MemoryLimitException" by (auto dest: writeBlob_outcome split: if_splits)
    let ?act = "abind (setClosed io MemoryLimitException) (\<lambda>_. afail (Thrown MemoryLimitException)) :: ('q, stream) action"
    have k: "keeps_at c ?act" by (intro keeps_at_abind setClosed_keeps_at io inv) simp
    have q: "quiet c (snd (?act c))" by (rule obeysD, intro quiet_abind) simp_all
    have "?act c = (r, c')"
      using run None st' Inl e by (simp add: prepareBatchRequest_def when_ready_def split: if_splits)
    then show ?thesis using k q by (simp add: keeps_at_def quiet_def frame_def batch_ok_def)
  next
    case (Inr bs)
    then have "c' = c\<lparr>conn_batchStreamInUse := True, conn_batchStream := os\<rparr>" "r = Inr bs"
      using run None st' by (auto simp: prepareBatchRequest_def when_ready_def split: if_splits)
    then show ?thesis using inv by (simp add: batch_ok_def advance_def idle_def)
  qed
qed

lemma finishBatchRequest_keeps:
  "conn_inv c \<Longrightarrow> conn_batchStreamInUse c \<Longrightarrow> headerSize + 4 \<le> length (buf os) \<Longrightarrow>
     finishBatchRequest os compress c = (r, c') \<Longrightarrow>
     conn_inv c' \<and> orderly r \<and> batch_ok c' \<and> conn_dispatchCount c' = conn_dispatchCount c"
  by (auto simp: finishBatchRequest_def Let_def batch_ok_def)

lemma resetBatch_inv [simp]: "conn_inv (resetBatch c) = conn_inv c" "conn_dispatchCount (resetBatch c) = conn_dispatchCount c"
  "buf (conn_batchStream (resetBatch c)) = []" "conn_batchStreamInUse (resetBatch c) = conn_batchStreamInUse c"
  by (simp_all add: resetBatch_def stream_new_def)

lemma abortBatchRequest_keeps:
  "conn_inv c \<Longrightarrow> conn_batchStreamInUse c \<Longrightarrow> abortBatchRequest c = (r, c') \<Longrightarrow>
     conn_inv c' \<and> orderly r \<and> batch_ok c' \<and> conn_dispatchCount c' = conn_dispatchCount c"
  by (auto simp: abortBatchRequest_def Let_def batch_ok_def)

lemma endFlush_keeps:
  "conn_inv c \<Longrightarrow> endFlush c = (r, c') \<Longrightarrow>
     conn_inv c' \<and> orderly r \<and> batch_ok c' \<and> conn_dispatchCount c' = conn_dispatchCount c"
  by (auto simp: endFlush_def batch_ok_def)

lemma beginFlush_keeps:
  assumes inv: "conn_inv c" and st: "conn_state c \<noteq> StateNotValidated" and run: "beginFlush io c = Some (r, c')"
  shows "conn_inv c' \<and> orderly r \<and> (batch_ok c \<longrightarrow> batch_ok c') \<and> conn_dispatchCount c' = conn_dispatchCount c"
  using assms inv_exception [OF inv] not_early [of c] not_late [of "conn_state c"]
  by (auto simp: beginFlush_def when_ready_def rethrow_def batch_ok_def split: if_splits)

lemma sendBatch_keeps:
  assumes inv: "conn_inv c" and flushing: "headerSize + 4 \<le> length (buf (conn_batchStream c))"
  shows "keeps_at c (sendBatch big bz io)"
proof (cases "conn_transceiver c")
  case True
  obtain os where os: "patchInt big (conn_batchRequestNum c) headerSize (buf (conn_batchStream c)) = Inr os"
    "headerSize \<le> length os"
    using patchInt_eq [OF flushing, of big] flushing by simp
  let ?c = "c\<lparr>conn_batchStream := (conn_batchStream c)\<lparr>buf := streamAfter big bz (conn_batchRequestCompress c) os c\<rparr>\<rparr>"
  have "keeps_at ?c (transmit big bz io BatchMsg (conn_batchRequestCompress c) os)"
    using inv os(2) by (intro transmit_keeps) simp_all
  then show ?thesis using True os(1) by (simp add: keeps_at_def sendBatch_def)
next
  case False
  then show ?thesis using rethrow_keeps [OF inv inv_transceiver [OF inv False]] by (simp add: keeps_at_def sendBatch_def)
qed

lemma sendBatch_frame:
  "conn_batchStreamInUse (snd (sendBatch big bz io c)) = conn_batchStreamInUse c \<and>
   conn_dispatchCount (snd (sendBatch big bz io c)) = conn_dispatchCount c \<and> advance c (snd (sendBatch big bz io c))"
proof (cases "conn_transceiver c \<and> (\<exists>os. patchInt big (conn_batchRequestNum c) headerSize (buf (conn_batchStream c)) = Inr os)")
  case True
  then obtain os where os: "patchInt big (conn_batchRequestNum c) headerSize (buf (conn_batchStream c)) = Inr os" by blast
  let ?c = "c\<lparr>conn_batchStream := (conn_batchStream c)\<lparr>buf := streamAfter big bz (conn_batchRequestCompress c) os c\<rparr>\<rparr>"
  have q: "quiet ?c (snd (transmit big bz io BatchMsg (conn_batchRequestCompress c) os ?c))" by (rule obeysD) simp
  then show ?thesis using True os by (simp add: sendBatch_def quiet_defs)
next
  case False
  then show ?thesis by (auto simp: sendBatch_def rethrow_def split: option.splits sum.splits)
qed

section \<open>Responses and received messages keep the invariant\<close>

text \<open>A dispatch ends while one is outstanding.\<close>

lemma endDispatch_keeps:
  assumes inv: "conn_inv c" and out: "conn_dispatchCount c \<noteq> 0" and io: "io_ok io"
  shows "keeps_at c (endDispatch big io acm) \<and> fst (endDispatch big io acm c) = Inr () \<and>
    conn_dispatchCount (snd (endDispatch big io acm c)) = conn_dispatchCount c - 1"
proof -
  let ?c = "c\<lparr>conn_dispatchCount := conn_dispatchCount c - 1\<rparr>"
  let ?m = "\<lambda>c1. if conn_state c1 = StateClosing \<and> conn_dispatchCount c1 = 0
              then abind (initiateShutdown big io) (\<lambda>_ c2. (Inr (), if acm then acmReset io c2 else c2)) c1
              else (Inr (), if acm then acmReset io c1 else c1)"
  have st: "conn_state c \<noteq> StateNotValidated" using inv out by (auto simp: inv_defs)
  have inv': "conn_inv ?c" using inv out st unfolding conn_inv_def life_inv_def shutdown_inv_def tables_inv_def by simp
  have run: "endDispatch big io acm c = acatch ?m (setClosed io) ?c"
    using st by (simp add: endDispatch_def not_early)
  show ?thesis
  proof (cases "conn_state ?c = StateClosing \<and> conn_dispatchCount ?c = 0")
    case True
    have unsent: "closes_sent (conn_log ?c) = 0" using inv out True by (simp add: conn_inv_def shutdown_inv_def)
    have tr: "conn_transceiver c" "\<not> conn_datagram c" using inv True by (auto simp: inv_defs)
    let ?bs = "headerMessage big closeConnectionMsg 1"
    show ?thesis
    proof (cases "io_write io ?bs")
      case None
      have "conn_inv (?c\<lparr>conn_log := conn_log c @ [Wrote CloseMsg ?bs]\<rparr>)"
        using inv' unsent True by (simp add: conn_inv_def life_inv_def shutdown_inv_def tables_inv_def state_order)
      then show ?thesis using run True None tr
        by (simp add: keeps_at_def acatch_def abind_def initiateShutdown_def action_defs)
    next
      case (Some e)
      then have "endDispatch big io acm c = setClosed io e ?c"
        using run True tr by (simp add: acatch_def abind_def initiateShutdown_def action_defs)
      then show ?thesis using setClosed_result [OF inv' io, of e] by (auto simp: keeps_at_def)
    qed
  next
    case False
    then have "endDispatch big io acm c = (Inr (), if acm then acmReset io ?c else ?c)"
      using run by (auto simp: acatch_def)
    then show ?thesis using inv' by (simp add: keeps_at_def)
  qed
qed

text \<open>\<open>catch(const LocalException& ex) { setState(StateClosed, ex); }\<close> lets nothing through.\<close>

lemma catch_and_close:
  assumes "keeps_at c m" and io: "io_ok io"
  obtains c' where "acatch m (setClosed io) c = (Inr (), c')" "conn_inv c'"
proof (cases "m c")
  case (Pair r c1)
  have c1: "conn_inv c1" "orderly r" using assms Pair by (simp_all add: keeps_at_def)
  show thesis
  proof (cases r)
    case (Inl f)
    then obtain e where "f = Thrown e" using c1 by (cases f) auto
    then show thesis using that setClosed_result [OF c1(1) io, of e] Pair Inl by (auto simp: acatch_def)
  next
    case (Inr x)
    then show thesis using that c1 Pair by (simp add: acatch_def)
  qed
qed

lemma sendResponse_keeps:
  assumes inv: "conn_inv c" and out: "conn_dispatchCount c \<noteq> 0" and io: "io_ok io" and os: "headerSize \<le> length os"
  shows "keeps_at c (sendResponse big bz io os compressFlag) \<and>
    conn_dispatchCount (snd (sendResponse big bz io os compressFlag c)) = conn_dispatchCount c - 1"
proof -
  let ?send = "acatch (transmit big bz io ReplyMsg (compressFlag > 0) os) (setClosed io)"
  have "keeps_at c (transmit big bz io ReplyMsg (compressFlag > 0) os)" by (rule transmit_keeps [OF inv _ os]) simp
  then obtain c' where c': "?send c = (Inr (), c')" "conn_inv c'" by (rule catch_and_close [OF _ io])
  have "quiet c (snd (?send c))" by (rule obeysD, intro quiet_acatch) simp_all
  then have count: "conn_dispatchCount c' = conn_dispatchCount c" using c'(1) by (simp add: quiet_def frame_def)
  have "sendResponse big bz io os compressFlag c = endDispatch big io True c'"
    using c'(1) by (simp add: sendResponse_def abind_def)
  then show ?thesis using endDispatch_keeps [OF c'(2) _ io, of big True] count out by (simp add: keeps_at_def)
qed

lemma sendNoResponse_keeps:
  assumes "conn_inv c" "conn_dispatchCount c \<noteq> 0" "io_ok io"
  shows "keeps_at c (sendNoResponse big io) \<and>
    conn_dispatchCount (snd (sendNoResponse big io c)) = conn_dispatchCount c - 1"
  using endDispatch_keeps [OF assms] by (simp add: sendNoResponse_def)

lemma setAdapter_keeps: "conn_inv c \<Longrightarrow> keeps_at c (setAdapter a)"
  using inv_exception [of c] by (auto simp: keeps_at_def setAdapter_def rethrow_def not_late split: option.splits)

lemma quiet_setAdapter [simp]: "obeys quiet (setAdapter a)"
  by (rule obeysI) (simp add: setAdapter_def rethrow_def quiet_defs split: option.splits)

section \<open>Validation keeps the invariant\<close>

lemma beginValidate_keeps:
  "conn_inv c \<Longrightarrow> conn_state c = StateNotValidated \<or> conn_state c = StateClosed \<Longrightarrow> keeps_at c beginValidate"
  using inv_exception [of c] by (auto simp: keeps_at_def beginValidate_def rethrow_def state_order)

lemma quiet_beginValidate [simp]: "obeys quiet beginValidate"
  by (rule obeysI) (simp add: beginValidate_def rethrow_def split: option.splits)

lemma checkValidateHeader_outcome:
  assumes "length bytes = headerSize"
  shows "orderly (checkValidateHeader big (stream_new n\<lparr>buf := bytes\<rparr>))"
proof -
  obtain a b d e f g h i j k sz where bytes: "bytes = [a, b, d, e, f, g, h, i, j, k] @ sz" "length sz = 4"
    using assms by (auto simp: headerSize_def numeral_eq_Suc length_Suc_conv intro: that [of _ _ _ _ _ _ _ _ _ _ "[_, _, _, _]"])
  show ?thesis using bytes
    by (auto simp: checkValidateHeader_def rbind_def read_Byte_def rret_def stream_new_def
        intro!: orderly_andThen read_Int_orderly)
qed

lemma handshake_keeps:
  assumes inv: "conn_inv c" and bytes: "\<And>bs. io_read io = Inr bs \<Longrightarrow> length bs = headerSize"
    and client: "\<not> active \<Longrightarrow> conn_transceiver c"
  shows "keeps_at c (handshake big io active)"
proof (cases "conn_transceiver c")
  case False
  then have active using client by blast
  then show ?thesis using rethrow_keeps [OF inv inv_transceiver [OF inv False]] False
    by (simp add: keeps_at_def handshake_def)
next
  case tr: True
  note w = transceiverWrite_keeps [OF inv tr, of ValidateMsg io]
  show ?thesis
  proof (cases "io_initialize io")
    case (Some e)
    then show ?thesis using tr inv by (simp add: keeps_at_def handshake_def abind_def acatch_def transceiverCall_def afail_def)
  next
    case None
    show ?thesis
    proof (cases active)
      case True
      have "keeps_at c (acatch (abind (transceiverCall (io_initialize io)) (\<lambda>_. transceiverWrite io ValidateMsg
          (headerMessage big validateConnectionMsg 0))) (\<lambda>ex. afail (Thrown (connectTimeout ex))))"
        using tr None w inv
        by (intro keeps_at_acatch keeps_at_abind) (auto simp: keeps_at_def transceiverCall_def afail_def)
      then show ?thesis using True tr by (simp add: keeps_at_def handshake_def)
    next
      case False
      show ?thesis
      proof (cases "io_read io")
        case (Inl e)
        then show ?thesis using False None tr inv
          by (simp add: keeps_at_def handshake_def abind_def acatch_def transceiverCall_def afail_def aret_def)
      next
        case (Inr bs)
        note o = checkValidateHeader_outcome [OF bytes [OF Inr], of big headerSize]
        show ?thesis using False None tr inv Inr bytes [OF Inr] o
          by (auto simp: keeps_at_def handshake_def abind_def acatch_def transceiverCall_def afail_def aret_def orderly_def
              split: sum.splits failure.splits)
      qed
    qed
  qed
qed

lemma endValidate_keeps: "conn_inv c \<Longrightarrow> keeps_at c (endValidate big io)"
  using keeps_at [OF setState_Holding_keeps, of "acmReset io c" big io] by (simp add: keeps_at_def endValidate_def)

end
