(* ===== verification/ConnectionReceive.thy ===== *)
theory ConnectionReceive imports ConnectionIO begin

text \<open>
  What receiving a message does to a connection (\<open>message\<close> and \<open>parseMessage\<close> of
  \<^verbatim>\<open>src/Ice-3.1.1/src/Ice/ConnectionI.cpp\<close>): whatever the bytes are, the invariant is kept, no
  assertion is violated, and the dispatch count grows by the number of invocations handed out.
\<close>

section \<open>Opening a message\<close>

text \<open>Exceptions of the socket layer, which \<open>parseMessage\<close> catches first.\<close>

definition is_socket :: "local_exception \<Rightarrow> bool" where
  "is_socket ex \<longleftrightarrow> ex = SocketException \<or> ex = ConnectionLostException"

text \<open>A result that is a value or an exception that is not one of the socket layer.\<close>

definition marshal_failure :: "failure \<Rightarrow> bool" where
  "marshal_failure f = (case f of Thrown e \<Rightarrow> \<not> is_socket e | _ \<Rightarrow> False)"

definition marshal_outcome :: "failure + 'a \<Rightarrow> bool" where
  "marshal_outcome r = (case r of Inl f \<Rightarrow> marshal_failure f | Inr _ \<Rightarrow> True)"

lemma marshal_outcome_simps [simp]:
  "marshal_outcome (Inr x)" "marshal_outcome (Inl f) = marshal_failure f"
  "marshal_failure (Thrown e) \<longleftrightarrow> \<not> is_socket e" "\<not> marshal_failure AssertionFailed" "\<not> marshal_failure MemoryFault"
  "\<not> marshal_failure ThreadLockedException" "\<not> marshal_failure NullHandleException"
  by (simp_all add: marshal_outcome_def marshal_failure_def)

lemma marshal_outcome_andThen:
  "marshal_outcome m \<Longrightarrow> (\<And>x. m = Inr x \<Longrightarrow> marshal_outcome (f x)) \<Longrightarrow> marshal_outcome (andThen m f)"
  by (cases m) auto

lemma read_Byte_marshal: "0 \<le> rpos s \<Longrightarrow> marshal_outcome (read_Byte s)"
  by (simp add: read_Byte_def is_socket_def)

lemma read_Int_marshal: "0 \<le> rpos s \<Longrightarrow> marshal_outcome (read_Int big s)"
  unfolding read_Int_def readFixed_def rbind_def
  by (rule marshal_outcome_andThen) (auto simp: takeBytes_def rret_def is_socket_def)

lemma doUncompress_marshal: "marshal_outcome (doUncompress big bz fill cs us)"
  unfolding doUncompress_def
  by (rule marshal_outcome_andThen)
    (auto simp: stream_resize_def is_socket_def intro!: read_Int_marshal marshal_outcome_andThen split: sum.splits)

lemma openMessage_marshal: "rpos s = int (length (buf s)) \<Longrightarrow> marshal_outcome (openMessage big bz fill s)"
  unfolding openMessage_def
  by (auto simp: read_Byte_def is_socket_def intro!: marshal_outcome_andThen doUncompress_marshal)

lemma openMessage_rpos: "openMessage big bz fill s = Inr (r, s') \<Longrightarrow> rpos s' = int headerSize"
  by (auto simp: openMessage_def andThen_eq_Inr split: if_splits)

section \<open>Finding the request of a reply\<close>

lemma hintMatch_eq: "iter_ok m hint \<Longrightarrow> hintMatch m hint k = Inr (if hint = Some k then sm_find k m else None)"
  by (auto simp: hintMatch_def iter_ok_def split: option.splits)

text \<open>The hints only say where to look first, unless both tables know the id.\<close>

lemma replyTarget_eq:
  assumes "tables_inv c"
  shows "\<exists>p q. replyTarget k c = Inr (p, q) \<and>
    (p = sm_find k (conn_requests c) \<or> p = None \<and> q = sm_find k (conn_asyncRequests c) \<and> q \<noteq> None) \<and>
    (p = None \<longrightarrow> q = sm_find k (conn_asyncRequests c))"
proof -
  have h: "iter_ok (conn_requests c) (conn_requestsHint c)" "iter_ok (conn_asyncRequests c) (conn_asyncRequestsHint c)"
    using assms by (simp_all add: tables_inv_def)
  show ?thesis
    by (auto simp: replyTarget_def hintMatch_eq [OF h(1)] hintMatch_eq [OF h(2)] Let_def)
qed

section \<open>Parsing\<close>

definition parse_result :: "'q connection \<Rightarrow> (failure + 'q parsed) \<times> 'q connection \<Rightarrow> bool" where
  "parse_result c rc \<longleftrightarrow>
     conn_inv (snd rc) \<and> marshal_outcome (fst rc) \<and> advance c (snd rc) \<and>
     conn_batchStream (snd rc) = conn_batchStream c \<and> conn_batchStreamInUse (snd rc) = conn_batchStreamInUse c \<and>
     (case fst rc of
        Inl _ \<Rightarrow> snd rc = c
      | Inr p \<Rightarrow> 0 \<le> sint (pm_invokeNum p) \<and> conn_dispatchCount (snd rc) = conn_dispatchCount c + pm_invokeNum p \<and>
          (conn_state (snd rc) = conn_state c \<or> pm_invokeNum p = 0 \<and> pm_outAsync p = None))"

lemma conn_inv_dispatch:
  assumes "conn_inv c" "conn_state c \<noteq> StateNotValidated" "conn_state c \<noteq> StateClosing"
  shows "conn_inv (c\<lparr>conn_dispatchCount := d\<rparr>)"
  using assms unfolding conn_inv_def life_inv_def shutdown_inv_def tables_inv_def by simp

lemma handleRequest_result:
  assumes "conn_inv c" "conn_state c \<noteq> StateNotValidated" "0 \<le> rpos s"
  shows "parse_result c (handleRequest big compress s c)"
  using assms read_Int_marshal [OF assms(3), of big] conn_inv_dispatch [of c]
  by (auto simp: parse_result_def handleRequest_def nothingParsed_def advance_def idle_def split: sum.splits)

lemma handleBatch_result:
  assumes "conn_inv c" "conn_state c \<noteq> StateNotValidated" "0 \<le> rpos s"
  shows "parse_result c (handleBatch big compress s c)"
  using assms read_Int_marshal [OF assms(3), of big] conn_inv_dispatch [of c]
  by (auto simp: parse_result_def handleBatch_def nothingParsed_def advance_def idle_def is_socket_def split: sum.splits)

lemma erase_fields [simp]:
  "conn_state (eraseRequest k c) = conn_state c" "conn_state (eraseAsyncRequest k c) = conn_state c"
  "conn_transceiver (eraseRequest k c) = conn_transceiver c" "conn_transceiver (eraseAsyncRequest k c) = conn_transceiver c"
  "conn_log (eraseRequest k c) = conn_log c" "conn_log (eraseAsyncRequest k c) = conn_log c"
  "conn_batchStream (eraseRequest k c) = conn_batchStream c" "conn_batchStream (eraseAsyncRequest k c) = conn_batchStream c"
  "conn_batchStreamInUse (eraseRequest k c) = conn_batchStreamInUse c"
  "conn_batchStreamInUse (eraseAsyncRequest k c) = conn_batchStreamInUse c"
  "conn_dispatchCount (eraseRequest k c) = conn_dispatchCount c"
  "conn_dispatchCount (eraseAsyncRequest k c) = conn_dispatchCount c"
  by (simp_all add: eraseRequest_def eraseAsyncRequest_def)

lemma conn_inv_replied: "conn_inv c \<Longrightarrow> conn_inv (c\<lparr>conn_log := conn_log c @ [RequestReplied q s]\<rparr>)"
  unfolding conn_inv_def life_inv_def shutdown_inv_def tables_inv_def by simp

text \<open>\<open>Outgoing::finished\<close> fails, if at all, while unmarshaling.\<close>

definition accept_ok :: "('q \<Rightarrow> stream \<Rightarrow> local_exception option) \<Rightarrow> bool" where
  "accept_ok accept \<longleftrightarrow> (\<forall>q s e. accept q s = Some e \<longrightarrow> \<not> is_socket e)"

lemma handleReply_result:
  assumes inv: "conn_inv c" and pos: "0 \<le> rpos s" and acc: "accept_ok accept"
  shows "parse_result c (handleReply big accept compress s c)"
proof (cases "read_Int big s")
  case (Inl e)
  then show ?thesis using inv read_Int_marshal [OF pos, of big] by (simp add: parse_result_def handleReply_def)
next
  case (Inr rs)
  obtain rid s1 where rs: "rs = (rid, s1)" by fastforce
  obtain p q where t: "replyTarget (sint rid) c = Inr (p, q)" using replyTarget_eq inv by (force simp: conn_inv_def)
  note inv' = conn_inv_erase(1) [OF conn_inv_replied [OF inv]] conn_inv_erase(2) [OF inv]
  show ?thesis
  proof (cases p)
    case (Some out)
    then show ?thesis using t Inr rs inv inv' acc
      by (auto simp: parse_result_def handleReply_def Let_def accept_ok_def advance_def idle_def eraseRequest_def eraseAsyncRequest_def sm_erase_def nothingParsed_def split: option.splits)
  next
    case None
    then show ?thesis using t Inr rs inv inv'
      by (auto simp: parse_result_def handleReply_def Let_def advance_def idle_def eraseRequest_def eraseAsyncRequest_def sm_erase_def nothingParsed_def is_socket_def split: option.splits)
  qed
qed

lemma parseBody_result:
  assumes inv: "conn_inv c" and st: "conn_state c \<noteq> StateNotValidated" and io: "io_ok io" and acc: "accept_ok accept"
    and s: "rpos s = int (length (buf s))"
  shows "parse_result c (parseBody big bz fill accept io s c)"
proof (cases "openMessage big bz fill s")
  case (Inl e)
  then show ?thesis using inv openMessage_marshal [OF s, of big bz fill] by (simp add: parse_result_def parseBody_def)
next
  case (Inr r)
  obtain t k s1 where r: "r = ((t, k), s1)" by (cases r) auto
  have pos: "0 \<le> rpos s1" using openMessage_rpos [of big bz fill s] Inr r by simp
  obtain c' where closed: "setClosed io CloseConnectionException c = (Inr (), c')" "conn_inv c'"
    "conn_dispatchCount c' = conn_dispatchCount c"
    using setClosed_result [OF inv io, of CloseConnectionException] by blast
  have "quiet c (snd (setClosed io CloseConnectionException c))" by (rule obeysD) simp
  then have q: "advance c c'" "conn_batchStream c' = conn_batchStream c" "conn_batchStreamInUse c' = conn_batchStreamInUse c"
    using closed by (simp_all add: quiet_def frame_def)
  show ?thesis
    using Inr r inv closed q handleRequest_result [OF inv st pos, of big k] handleBatch_result [OF inv st pos, of big k]
      handleReply_result [OF inv pos acc, of big k]
    by (auto simp: parseBody_def Let_def abind_def aret_def parse_result_def nothingParsed_def is_socket_def)
qed

definition received :: "'q connection \<Rightarrow> (failure + 'q parsed option) \<Rightarrow> 'q connection \<Rightarrow> bool" where
  "received c r c' \<longleftrightarrow>
     conn_inv c' \<and> advance c c' \<and> conn_batchStream c' = conn_batchStream c \<and> conn_batchStreamInUse c' = conn_batchStreamInUse c \<and>
     (case r of
        Inr (Some p) \<Rightarrow> 0 \<le> sint (pm_invokeNum p) \<and> conn_dispatchCount c' = conn_dispatchCount c + pm_invokeNum p
      | Inr None \<Rightarrow> conn_dispatchCount c' = conn_dispatchCount c \<and> conn_state c' = StateClosed
      | Inl _ \<Rightarrow> False)"

lemma receiveMessage_result:
  assumes inv: "conn_inv c" and st: "conn_state c \<noteq> StateNotValidated" and io: "io_ok io" and acc: "accept_ok accept"
    and s: "rpos s = int (length (buf s))"
  shows "received c (fst (receiveMessage big bz fill accept io s c)) (snd (receiveMessage big bz fill accept io s c))"
proof (cases "conn_state c = StateClosed")
  case True
  then show ?thesis using inv by (auto simp: received_def receiveMessage_def inv_defs)
next
  case alive: False
  let ?c = "acmReset io c"
  have pool: "\<not> conn_threadPerConnection c" using inv by (simp add: conn_inv_def life_inv_def)
  have st': "conn_state c > StateNotValidated" "conn_state c < StateClosed"
    using st alive by (cases "conn_state c"; simp add: state_order)+
  have adv: "advance c ?c" using quiet_acmReset [of c io] by (simp add: quiet_def)
  obtain r c1 where body: "parseBody big bz fill accept io s ?c = (r, c1)" by fastforce
  have res: "parse_result ?c (r, c1)" using parseBody_result [of ?c io accept s big bz fill] inv st io acc s body by simp
  show ?thesis
  proof (cases r)
    case (Inr p)
    have "receiveMessage big bz fill accept io s c = (Inr (if conn_state c1 = StateClosed then None else Some p), c1)"
      using pool alive st' body Inr by (simp add: receiveMessage_def abind_def parseMessage_def acatch_def)
    then show ?thesis using res Inr alive adv advance_trans [OF adv] by (auto simp: received_def parse_result_def)
  next
    case (Inl f)
    then obtain e where e: "f = Thrown e" "\<not> is_socket e" "c1 = ?c" using res
      by (cases f) (auto simp: parse_result_def)
    show ?thesis
    proof (cases "conn_datagram c")
      case True
      then have "receiveMessage big bz fill accept io s c = (Inr (Some (nothingParsed s)), ?c)"
        using pool alive st' body Inl e
        by (simp add: receiveMessage_def abind_def parseMessage_def acatch_def parseFailed_def is_socket_def)
      then show ?thesis using inv adv by (simp add: received_def nothingParsed_def)
    next
      case False
      obtain c2 where c2: "setClosed io e ?c = (Inr (), c2)" "conn_inv c2" "conn_state c2 = StateClosed"
        "conn_dispatchCount c2 = conn_dispatchCount c"
        using setClosed_result [of ?c io e] inv io by auto
      have "quiet ?c (snd (setClosed io e ?c))" by (rule obeysD) simp
      then have q: "advance ?c c2" "conn_batchStream c2 = conn_batchStream c" "conn_batchStreamInUse c2 = conn_batchStreamInUse c"
        using c2 by (simp_all add: quiet_def frame_def)
      have "receiveMessage big bz fill accept io s c = (Inr None, c2)"
        using False pool alive st' body Inl e c2
        by (simp add: receiveMessage_def abind_def aret_def parseMessage_def acatch_def parseFailed_def is_socket_def)
      then show ?thesis using c2 q advance_trans [OF adv] by (auto simp: received_def)
    qed
  qed
qed

end
