(* ===== verification/ConnectionSteps.thy ===== *)
theory ConnectionSteps imports ConnectionReceive begin

text \<open>
  A connection under any interleaving of the threads that use it: the critical sections of
  \<^verbatim>\<open>src/Ice-3.1.1/src/Ice/ConnectionI.cpp\<close> as the rules of a step relation, the states that can be
  reached from a new connection, and what holds in all of them.
\<close>

section \<open>Steps\<close>

text \<open>
  A state is a connection and the number of requests being dispatched, that is, handed to
  \<open>invokeAll\<close> and not answered.  A step is labelled with the failure of its section, if any.  The guards are
  what the callers guarantee: requests are sent on validated connections, messages have at
  least a header and a request id, \<open>finished\<close> runs once for every unregistration, a dispatch
  ends that has begun, a batch is handed back by the thread that was given it, and fewer than
  $2^{31}$ requests are dispatched at a time.
\<close>

type_synonym 'q world = "'q connection \<times> nat"

definition outcome :: "failure + 'a \<Rightarrow> failure option" where
  "outcome r = (case r of Inl f \<Rightarrow> Some f | Inr _ \<Rightarrow> None)"

inductive conn_section :: "bool \<Rightarrow> bzip2 \<Rightarrow> byte \<Rightarrow> 'q world \<Rightarrow> failure option \<Rightarrow> 'q world \<Rightarrow> bool" for big bz fill where
  begin_validate: "conn_state c = StateNotValidated \<or> conn_state c = StateClosed \<Longrightarrow> beginValidate c = (r, c') \<Longrightarrow>
    conn_section big bz fill (c, n) (outcome r) (c', n)"
| handshake: "(\<And>bs. io_read io = Inr bs \<Longrightarrow> length bs = headerSize) \<Longrightarrow> (\<not> active \<Longrightarrow> conn_transceiver c) \<Longrightarrow>
    handshake big io active c = (r, c') \<Longrightarrow> conn_section big bz fill (c, n) (outcome r) (c', n)"
| close_throw: "io_ok io \<Longrightarrow> closeAndThrow io ex c = (r :: failure + unit, c') \<Longrightarrow>
    conn_section big bz fill (c, n) (outcome r) (c', n)"
| end_validate: "endValidate big io c = (r, c') \<Longrightarrow> conn_section big bz fill (c, n) (outcome r) (c', n)"
| activate: "activate big io c = Some (r, c') \<Longrightarrow> conn_section big bz fill (c, n) (outcome r) (c', n)"
| hold: "hold big io c = Some (r, c') \<Longrightarrow> conn_section big bz fill (c, n) (outcome r) (c', n)"
| destroy: "io_ok io \<Longrightarrow> destroy big io reason c = (r, c') \<Longrightarrow> conn_section big bz fill (c, n) (outcome r) (c', n)"
| close: "io_ok io \<Longrightarrow> close big io force c = Some (r, c') \<Longrightarrow> conn_section big bz fill (c, n) (outcome r) (c', n)"
| close_timeout: "io_ok io \<Longrightarrow> closeTimeout big io c = Some (r, c') \<Longrightarrow> conn_section big bz fill (c, n) (outcome r) (c', n)"
| monitor: "io_ok io \<Longrightarrow> monitor big io c = (r, c') \<Longrightarrow> conn_section big bz fill (c, n) (outcome r) (c', n)"
| exception: "io_ok io \<Longrightarrow> connException io ex c = (r, c') \<Longrightarrow> conn_section big bz fill (c, n) (outcome r) (c', n)"
| finished: "0 < conn_finishedCount c \<Longrightarrow> finished_conn io c = (r, c') \<Longrightarrow> conn_section big bz fill (c, n) (outcome r) (c', n)"
| begin_oneway: "conn_state c \<noteq> StateNotValidated \<Longrightarrow> headerSize + 4 \<le> length os \<Longrightarrow>
    beginRequest big io None os c = (r, c') \<Longrightarrow> conn_section big bz fill (c, n) (outcome r) (c', n)"
| transmit: "kind \<noteq> CloseMsg \<Longrightarrow> headerSize \<le> length os \<Longrightarrow> transmit big bz io kind compress os c = (r, c') \<Longrightarrow>
    conn_section big bz fill (c, n) (outcome r) (c', n)"
| oneway_failed: "io_ok io \<Longrightarrow> requestFailed io None rid ex c = (r, c') \<Longrightarrow> conn_section big bz fill (c, n) (outcome r) (c', n)"
| begin_async: "conn_state c \<noteq> StateNotValidated \<Longrightarrow> headerSize + 4 \<le> length os \<Longrightarrow> \<not> conn_datagram c \<Longrightarrow>
    beginAsyncRequest big io q os c = (r, c') \<Longrightarrow> conn_section big bz fill (c, n) (outcome r) (c', n)"
| async_failed: "io_ok io \<Longrightarrow> asyncRequestFailed io rid ex c = (r, c') \<Longrightarrow> conn_section big bz fill (c, n) (outcome r) (c', n)"
| prepare_batch: "conn_state c \<noteq> StateNotValidated \<Longrightarrow> io_ok io \<Longrightarrow> prepareBatchRequest io s c = Some (r, c') \<Longrightarrow>
    conn_section big bz fill (c, n) (outcome r) (c', n)"
| finish_batch: "conn_batchStreamInUse c \<Longrightarrow> headerSize + 4 \<le> length (buf s) \<Longrightarrow> finishBatchRequest s compress c = (r, c') \<Longrightarrow>
    conn_section big bz fill (c, n) (outcome r) (c', n)"
| abort_batch: "conn_batchStreamInUse c \<Longrightarrow> abortBatchRequest c = (r, c') \<Longrightarrow> conn_section big bz fill (c, n) (outcome r) (c', n)"
| begin_flush: "conn_state c \<noteq> StateNotValidated \<Longrightarrow> beginFlush io c = Some (r, c') \<Longrightarrow>
    conn_section big bz fill (c, n) (outcome r) (c', n)"
| send_batch: "conn_batchStreamInUse c \<Longrightarrow> headerSize + 4 \<le> length (buf (conn_batchStream c)) \<Longrightarrow>
    sendBatch big bz io c = (r, c') \<Longrightarrow> conn_section big bz fill (c, n) (outcome r) (c', n)"
| end_flush: "conn_batchStreamInUse c \<Longrightarrow> endFlush c = (r, c') \<Longrightarrow> conn_section big bz fill (c, n) (outcome r) (c', n)"
| set_adapter: "setAdapter a c = (r, c') \<Longrightarrow> conn_section big bz fill (c, n) (outcome r) (c', n)"
| end_dispatch: "io_ok io \<Longrightarrow> endDispatch big io acm c = (r, c') \<Longrightarrow> conn_section big bz fill (c, Suc n) (outcome r) (c', n)"
| drop_dispatches: "conn_state c = StateClosed \<Longrightarrow> 0 < unat k \<Longrightarrow> unat k \<le> n \<Longrightarrow> dropDispatches k c = (r, c') \<Longrightarrow>
    conn_section big bz fill (c, n) (outcome r) (c', n - unat k)"

text \<open>The sections that hand an \<open>Outgoing\<close> in or out, and all of them.\<close>

inductive conn_step :: "bool \<Rightarrow> bzip2 \<Rightarrow> byte \<Rightarrow> 'q world \<Rightarrow> failure option \<Rightarrow> 'q world \<Rightarrow> bool" for big bz fill where
  of_section: "conn_section big bz fill w fo w' \<Longrightarrow> conn_step big bz fill w fo w'"
| begin_request: "conn_state c \<noteq> StateNotValidated \<Longrightarrow> headerSize + 4 \<le> length os \<Longrightarrow> (out \<noteq> None \<longrightarrow> \<not> conn_datagram c) \<Longrightarrow>
    beginRequest big io out os c = (r, c') \<Longrightarrow> conn_step big bz fill (c, n) (outcome r) (c', n)"
| request_failed: "io_ok io \<Longrightarrow> requestFailed io out rid ex c = (r, c') \<Longrightarrow> conn_step big bz fill (c, n) (outcome r) (c', n)"
| receive: "conn_state c \<noteq> StateNotValidated \<Longrightarrow> io_ok io \<Longrightarrow> accept_ok accept \<Longrightarrow> rpos s = int (length (buf s)) \<Longrightarrow>
    receiveMessage big bz fill accept io s c = (r, c') \<Longrightarrow>
    k = (case r of Inr (Some p) \<Rightarrow> unat (pm_invokeNum p) | _ \<Rightarrow> 0) \<Longrightarrow> n + k < 2147483648 \<Longrightarrow>
    conn_step big bz fill (c, n) (outcome r) (c', n + k)"

inductive conn_reachable :: "bool \<Rightarrow> bzip2 \<Rightarrow> byte \<Rightarrow> 'q world \<Rightarrow> bool" for big bz fill where
  new: "conn_reachable big bz fill (connection_new maxSize dgram False adapter manager serverACM clientACM tmo level, 0)"
| step: "conn_reachable big bz fill w \<Longrightarrow> conn_step big bz fill w fo w' \<Longrightarrow> conn_reachable big bz fill w'"

inductive conn_steps :: "bool \<Rightarrow> bzip2 \<Rightarrow> byte \<Rightarrow> 'q world \<Rightarrow> 'q world \<Rightarrow> bool" for big bz fill where
  steps_refl: "conn_steps big bz fill w w"
| steps_snoc: "conn_steps big bz fill w w' \<Longrightarrow> conn_step big bz fill w' fo w'' \<Longrightarrow> conn_steps big bz fill w w''"

section \<open>Every step\<close>

definition world_inv :: "'q world \<Rightarrow> bool" where
  "world_inv w \<longleftrightarrow>
     conn_inv (fst w) \<and> sint (conn_dispatchCount (fst w)) = int (snd w) \<and> batch_ok (fst w) \<and> idle (fst w)"

definition step_ok :: "'q world \<Rightarrow> failure option \<Rightarrow> 'q world \<Rightarrow> bool" where
  "step_ok w fo w' \<longleftrightarrow>
     world_inv w' \<and> advance (fst w) (fst w') \<and> (case fo of None \<Rightarrow> True | Some (Thrown _) \<Rightarrow> True | Some _ \<Rightarrow> False)"

lemma outcome_ok [simp]:
  "(case outcome r of None \<Rightarrow> True | Some (Thrown _) \<Rightarrow> True | Some _ \<Rightarrow> False) = orderly r"
  by (auto simp: outcome_def orderly_def split: sum.splits failure.splits)

lemma step_okI:
  assumes "world_inv (c, n)" "conn_inv c'" "orderly r" "advance c c'"
    and "sint (conn_dispatchCount c') = int n'" "batch_ok c'"
  shows "step_ok (c, n) (outcome r) (c', n')"
  using assms by (auto simp: step_ok_def world_inv_def advance_def)

text \<open>For the sections that leave the batch and the dispatch count alone.\<close>

lemma quiet_step:
  assumes "world_inv (c, n)" "keeps_at c act" "quiet c (snd (act c))" "act c = (r, c')"
  shows "step_ok (c, n) (outcome r) (c', n)"
  using assms by (intro step_okI) (auto simp: keeps_at_def quiet_def frame_def batch_ok_def world_inv_def)

lemma quiet_act:
  assumes "world_inv (c, n)" "keeps_at c act" "obeys quiet act" "act c = (r, c')"
  shows "step_ok (c, n) (outcome r) (c', n)"
  using quiet_step [OF assms(1,2) obeysD [OF assms(3)] assms(4)] .

lemma quiet_option:
  assumes "when_ready P act c = Some (r, c')" "world_inv (c, n)" "keeps_at c act" "obeys quiet act"
  shows "step_ok (c, n) (outcome r) (c', n)"
  using assms by (intro quiet_step [where act = act]) (auto simp: when_ready_def obeysD split: if_splits)

lemma world_invD: "world_inv (c, n) \<Longrightarrow> conn_inv c" "world_inv (c, n) \<Longrightarrow> batch_ok c"
    "world_inv (c, n) \<Longrightarrow> sint (conn_dispatchCount c) = int n"
  by (simp_all add: world_inv_def)

text \<open>For the sections that only change the batch.\<close>

lemma batch_step:
  assumes "world_inv (c, n)"
    and "conn_inv c' \<and> orderly r \<and> (batch_ok c \<longrightarrow> batch_ok c') \<and> conn_dispatchCount c' = conn_dispatchCount c"
    and "advance c c'"
  shows "step_ok (c, n) (outcome r) (c', n)"
  using assms by (intro step_okI) (auto simp: world_inv_def)

lemma sint_add: "- 2147483648 \<le> sint a + sint b \<Longrightarrow> sint a + sint b < 2147483648 \<Longrightarrow> sint (a + b :: ice_int) = sint a + sint b"
  using sint_word_of_int [of "sint a + sint b"] by simp

lemma sint_sub: "- 2147483648 \<le> sint a - sint b \<Longrightarrow> sint a - sint b < 2147483648 \<Longrightarrow> sint (a - b :: ice_int) = sint a - sint b"
  using sint_word_of_int [of "sint a - sint b"] by simp

lemma quiet_handshake: "quiet c (snd (handshake big io active c))"
proof (cases active)
  case True
  have "quiet c (snd (acatch (abind (transceiverCall (io_initialize io)) (\<lambda>_.
      transceiverWrite io ValidateMsg (headerMessage big validateConnectionMsg 0))) (\<lambda>ex. afail (Thrown (connectTimeout ex))) c))"
    by (rule obeysD, intro quiet_acatch quiet_abind) simp_all
  then show ?thesis using True by (simp add: handshake_def)
next
  case False
  then show ?thesis
    by (auto simp: handshake_def action_defs split: option.splits sum.splits)
qed

lemma quiet_endValidate: "quiet c (snd (endValidate big io c))"
  using transpD [OF quiet_transp quiet_acmReset obeysD [OF quiet_setState]] by (simp add: endValidate_def)

lemma quiet_monitor: "obeys quiet (monitor big io)"
  using obeysD [OF quiet_setStateEx] by (auto simp: obeys_def monitor_def)

lemma monitor_keeps: "io_ok io \<Longrightarrow> conn_inv c \<Longrightarrow> keeps_at c (monitor big io)"
proof -
  assume io: "io_ok io" and inv: "conn_inv c"
  have "keeps_at c (setStateEx big io StateClosed TimeoutException)"
    "keeps_at c (setStateEx big io StateClosing ConnectionTimeoutException)"
    using keeps_at [OF setStateEx_Closed_keeps [OF io] inv] keeps_at [OF setStateEx_Closing_keeps [OF io] inv] by blast+
  then show ?thesis using inv by (auto simp: keeps_at_def monitor_def)
qed

lemma quiet_requestFailed: "obeys quiet (requestFailed io out rid ex)"
  unfolding requestFailed_def
  by (intro quiet_abind quiet_setClosed, rule obeysI)
    (auto simp: rethrow_def quiet_defs eraseRequest_def sm_erase_def split: option.splits)

lemma quiet_asyncRequestFailed: "obeys quiet (asyncRequestFailed io rid ex)"
  unfolding asyncRequestFailed_def
  by (intro quiet_abind quiet_setClosed, rule obeysI)
    (auto simp: rethrow_def quiet_defs eraseAsyncRequest_def sm_erase_def split: option.splits)

text \<open>A request is entered only while the transceiver is open.\<close>

lemma quiet_beginRequest:
  assumes inv: "conn_inv c" and st: "conn_state c \<noteq> StateNotValidated"
  shows "quiet c (snd (beginRequest big io out os c))" "quiet c (snd (beginAsyncRequest big io q os c))"
proof -
  obtain rid nx where id: "newRequestId c = (Inr rid, c\<lparr>conn_nextRequestId := nx\<rparr>)" using newRequestId_result by blast
  have tr: "conn_exception c = None \<Longrightarrow> conn_transceiver c" using inv_transceiver [OF inv] by blast
  show "quiet c (snd (beginRequest big io out os c))" "quiet c (snd (beginAsyncRequest big io q os c))"
    using st tr id
    by (auto simp: beginRequest_def beginAsyncRequest_def abind_def Let_def quiet_defs acmReset_def split: option.splits sum.splits)
qed

text \<open>Ending a dispatch is quiet but for the count.\<close>

lemma endDispatch_frame:
  fixes c :: "'q connection"
  shows "quiet (c\<lparr>conn_dispatchCount := conn_dispatchCount c - 1\<rparr>) (snd (endDispatch big io acm c)) \<or> snd (endDispatch big io acm c) = c"
proof (cases "conn_state c = StateNotValidated")
  case True
  then show ?thesis by (simp add: endDispatch_def not_early)
next
  case False
  let ?c = "c\<lparr>conn_dispatchCount := conn_dispatchCount c - 1\<rparr>"
  let ?m = "\<lambda>c1 :: 'q connection. if conn_state c1 = StateClosing \<and> conn_dispatchCount c1 = 0
              then abind (initiateShutdown big io) (\<lambda>_ c2. (Inr (), if acm then acmReset io c2 else c2)) c1
              else (Inr (), if acm then acmReset io c1 else c1)"
  have t: "obeys quiet (\<lambda>c2 :: 'q connection. (Inr () :: failure + unit, if acm then acmReset io c2 else c2))"
    by (rule obeysI) simp
  have "obeys quiet (abind (initiateShutdown big io)
      (\<lambda>_ c2 :: 'q connection. (Inr () :: failure + unit, if acm then acmReset io c2 else c2)))"
    by (intro quiet_abind quiet_initiateShutdown t)
  then have m: "obeys quiet ?m" by (auto simp: obeys_def)
  have "quiet ?c (snd (acatch ?m (setClosed io) ?c))" by (rule obeysD, rule quiet_acatch [OF m]) simp
  then show ?thesis using False by (simp add: endDispatch_def not_early)
qed

lemma advance_endDispatch: "advance c (snd (endDispatch big io acm c))"
proof -
  have "advance c (c\<lparr>conn_dispatchCount := conn_dispatchCount c - 1\<rparr>)" by (simp add: advance_def idle_def)
  then show ?thesis using endDispatch_frame [of c big io acm] advance_trans by (auto simp: quiet_def)
qed

lemma advance_batch:
  "advance c (snd (finishBatchRequest s compress c))" "advance c (snd (abortBatchRequest c))" "advance c (snd (endFlush c))"
  by (simp_all add: finishBatchRequest_def abortBatchRequest_def endFlush_def resetBatch_def Let_def advance_def idle_def)

lemma advance_beginFlush: "beginFlush io c = Some (r, c') \<Longrightarrow> advance c c'"
  by (auto simp: beginFlush_def when_ready_def rethrow_def acmReset_def advance_def idle_def split: if_splits option.splits)

lemma receive_step:
  assumes w: "world_inv (c, n)" and st: "conn_state c \<noteq> StateNotValidated" and io: "io_ok io" and acc: "accept_ok accept"
    and s: "rpos s = int (length (buf s))" and run: "receiveMessage big bz fill accept io s c = (r, c')"
    and k: "k = (case r of Inr (Some p) \<Rightarrow> unat (pm_invokeNum p) | _ \<Rightarrow> 0)" and few: "n + k < 2147483648"
  shows "step_ok (c, n) (outcome r) (c', n + k)"
proof -
  note inv = world_invD(1) [OF w] and cnt = world_invD(3) [OF w]
  have rec: "received c r c'" using receiveMessage_result [OF inv st io acc s, of big bz fill] run by simp
  show ?thesis
  proof (rule step_okI [OF w])
    show "conn_inv c'" "advance c c'" using rec by (simp_all add: received_def)
    show "orderly r" using rec by (cases r) (auto simp: received_def)
    show "batch_ok c'" using rec world_invD(2) [OF w] by (simp add: received_def batch_ok_def)
    show "sint (conn_dispatchCount c') = int (n + k)"
    proof (cases "\<exists>p. r = Inr (Some p)")
      case True
      then obtain p where p: "r = Inr (Some p)" by blast
      then have "0 \<le> sint (pm_invokeNum p)" and d: "conn_dispatchCount c' = conn_dispatchCount c + pm_invokeNum p"
        using rec by (simp_all add: received_def)
      then have "sint (pm_invokeNum p) = int k" using sint_nonneg k p by simp
      then show ?thesis using d cnt few sint_add [of "conn_dispatchCount c" "pm_invokeNum p"] by simp
    next
      case False
      then show ?thesis using rec k cnt by (auto simp: received_def split: sum.splits option.splits)
    qed
  qed
qed

lemma end_dispatch_step:
  assumes w: "world_inv (c, Suc n)" and io: "io_ok io" and run: "endDispatch big io acm c = (r, c')"
  shows "step_ok (c, Suc n) (outcome r) (c', n)"
proof (rule step_okI [OF w])
  note inv = world_invD(1) [OF w] and cnt = world_invD(3) [OF w]
  have nz: "conn_dispatchCount c \<noteq> 0" using cnt by auto
  note k = endDispatch_keeps [OF inv nz io, of big acm]
  show "conn_inv c'" "orderly r" using k run by (simp_all add: keeps_at_def)
  show "advance c c'" using advance_endDispatch [of c big io acm] run by simp
  have "conn_dispatchCount c' = conn_dispatchCount c - 1" using k run by simp
  then show "sint (conn_dispatchCount c') = int n"
    using cnt sint_sub [of "conn_dispatchCount c" 1] sint_lt [of "conn_dispatchCount c"] by simp
  have "frame (c\<lparr>conn_dispatchCount := conn_dispatchCount c - 1\<rparr>) c' \<or> c' = c"
    using endDispatch_frame [of c big io acm] run by (auto simp: quiet_def)
  then show "batch_ok c'" using world_invD(2) [OF w] by (auto simp: frame_def batch_ok_def)
qed

lemma drop_step:
  assumes w: "world_inv (c, n)" and st: "conn_state c = StateClosed" and k: "0 < unat k" "unat k \<le> n"
    and run: "dropDispatches k c = (r, c')"
  shows "step_ok (c, n) (outcome r) (c', n - unat k)"
proof -
  note inv = world_invD(1) [OF w] and cnt = world_invD(3) [OF w]
  have "int n < 2147483648" using cnt sint_lt [of "conn_dispatchCount c"] by simp
  then have "0 \<le> sint k" using k by (simp add: sint_nonneg_iff)
  then have sk: "sint k = int (unat k)" by (rule sint_nonneg)
  have "sint (conn_dispatchCount c) - sint k = int (n - unat k)" using cnt sk k(2) by (simp only: of_nat_diff)
  moreover have "int (n - unat k) < 2147483648" using \<open>int n < 2147483648\<close> by linarith
  ultimately have d: "sint (conn_dispatchCount c - k) = int (n - unat k)"
    using sint_sub [of "conn_dispatchCount c" k] by simp
  have rc: "r = Inr () \<and> c' = c\<lparr>conn_dispatchCount := conn_dispatchCount c - k\<rparr>"
  proof -
    have "0 < sint k" "0 < sint (conn_dispatchCount c)" "0 \<le> sint (conn_dispatchCount c - k)"
      using sk k cnt d by (simp_all only: of_nat_0_less_iff of_nat_0_le_iff)
    then show ?thesis using run by (simp add: dropDispatches_def Let_def)
  qed
  show ?thesis using rc d inv st world_invD(2) [OF w]
    by (intro step_okI [OF w]) (auto simp: batch_ok_def advance_def idle_def intro!: conn_inv_dispatch)
qed

lemma section_world:
  assumes step: "conn_section big bz fill w fo w'" and w: "world_inv w"
  shows "step_ok w fo w'"
  using step w
proof cases
  case (begin_validate c r c' n)
  then show ?thesis using w by (auto intro!: quiet_act [where act = beginValidate] beginValidate_keeps dest: world_invD)
next
  case (handshake io active c r c' n)
  then show ?thesis using w
    by (auto intro!: quiet_step [where act = "ConnectionIO.handshake big io active"] handshake_keeps quiet_handshake dest: world_invD)
next
  case (close_throw io ex c r c' n)
  then show ?thesis using w
    by (auto intro!: quiet_act [where act = "closeAndThrow io ex"] closeAndThrow_keeps dest: world_invD)
next
  case (end_validate io c r c' n)
  then show ?thesis using w
    by (auto intro!: quiet_step [where act = "endValidate big io"] endValidate_keeps quiet_endValidate dest: world_invD)
next
  case (activate io c r c' n)
  then show ?thesis using w unfolding ConnectionState.activate_def
    by (auto intro!: quiet_option keeps_at [OF setState_Active_keeps] dest: world_invD)
next
  case (hold io c r c' n)
  then show ?thesis using w unfolding ConnectionState.hold_def
    by (auto intro!: quiet_option keeps_at [OF setState_Holding_keeps] dest: world_invD)
next
  case (destroy io reason c r c' n)
  obtain ex where ex: "ConnectionState.destroy big io reason c = setStateEx big io StateClosing ex c"
    by (cases reason) (auto simp: ConnectionState.destroy_def)
  with destroy w show ?thesis
    by (auto intro!: quiet_act [where act = "setStateEx big io StateClosing ex"] keeps_at [OF setStateEx_Closing_keeps] dest: world_invD)
next
  case (close io force c r c' n)
  then show ?thesis using w unfolding ConnectionState.close_def
    by (cases force) (auto intro!: quiet_option keeps_at [OF setStateEx_Closed_keeps] keeps_at [OF setStateEx_Closing_keeps] dest: world_invD)
next
  case (close_timeout io c r c' n)
  then show ?thesis using w unfolding closeTimeout_def
    by (auto intro!: quiet_option keeps_at [OF setStateEx_Closed_keeps] dest: world_invD)
next
  case (monitor io c r c' n)
  then show ?thesis using w
    by (auto intro!: quiet_act [where act = "ConnectionState.monitor big io"] monitor_keeps quiet_monitor dest: world_invD)
next
  case (exception io ex c r c' n)
  then show ?thesis using w
    by (auto simp: connException_def intro!: quiet_act [where act = "setClosed io ex"] setClosed_keeps_at dest: world_invD)
next
  case (finished c io r c' n)
  then show ?thesis using w finished_keeps [of c io]
    by (auto simp: keeps_at_def orderly_def intro!: quiet_act [where act = "finished_conn io"] dest: world_invD)
next
  case (begin_oneway c os io r c' n)
  then show ?thesis using w
    by (auto intro!: quiet_step [where act = "beginRequest big io None os"] beginRequest_keeps quiet_beginRequest dest: world_invD)
next
  case (transmit kind os io compress c r c' n)
  then show ?thesis using w
    by (auto intro!: quiet_act [where act = "ConnectionIO.transmit big bz io kind compress os"] transmit_keeps dest: world_invD)
next
  case (oneway_failed io rid ex c r c' n)
  then show ?thesis using w
    by (auto intro!: quiet_act [where act = "requestFailed io None rid ex"] requestFailed_keeps quiet_requestFailed dest: world_invD)
next
  case (begin_async c os io q r c' n)
  then show ?thesis using w
    by (auto intro!: quiet_step [where act = "beginAsyncRequest big io q os"] beginAsyncRequest_keeps quiet_beginRequest dest: world_invD)
next
  case (async_failed io rid ex c r c' n)
  then show ?thesis using w
    by (auto intro!: quiet_act [where act = "asyncRequestFailed io rid ex"] asyncRequestFailed_keeps quiet_asyncRequestFailed dest: world_invD)
next
  case (prepare_batch c io s r c' n)
  have inv: "world_inv (c, n)" using w prepare_batch by simp
  then show ?thesis using prepare_batch prepareBatchRequest_keeps [of c io s r c'] world_invD(1) [OF inv]
    by (auto intro!: batch_step)
next
  case (finish_batch c s compress r c' n)
  have inv: "world_inv (c, n)" using w finish_batch by simp
  then show ?thesis using finish_batch finishBatchRequest_keeps [of c s compress r c'] advance_batch(1) [of c s compress]
      world_invD(1) [OF inv] by (auto intro!: batch_step)
next
  case (abort_batch c r c' n)
  have inv: "world_inv (c, n)" using w abort_batch by simp
  then show ?thesis using abort_batch abortBatchRequest_keeps [of c r c'] advance_batch(2) [of c]
      world_invD(1) [OF inv] by (auto intro!: batch_step)
next
  case (begin_flush c io r c' n)
  have inv: "world_inv (c, n)" using w begin_flush by simp
  then show ?thesis using begin_flush beginFlush_keeps [of c io r c'] advance_beginFlush [of io c r c']
      world_invD(1) [OF inv] by (auto intro!: batch_step)
next
  case (send_batch c io r c' n)
  have inv: "world_inv (c, n)" using w send_batch by simp
  then show ?thesis using send_batch sendBatch_keeps [of c big bz io] sendBatch_frame [of big bz io c] world_invD(1) [OF inv]
    by (auto simp: keeps_at_def batch_ok_def intro!: batch_step)
next
  case (end_flush c r c' n)
  have inv: "world_inv (c, n)" using w end_flush by simp
  then show ?thesis using end_flush endFlush_keeps [of c r c'] advance_batch(3) [of c]
      world_invD(1) [OF inv] by (auto intro!: batch_step)
next
  case (set_adapter a c r c' n)
  then show ?thesis using w
    by (auto intro!: quiet_act [where act = "setAdapter a"] setAdapter_keeps dest: world_invD)
next
  case (end_dispatch io acm c r c' n)
  then show ?thesis using w end_dispatch_step by blast
next
  case (drop_dispatches c k n r c')
  then show ?thesis using w drop_step by blast
qed

lemma step_world:
  assumes step: "conn_step big bz fill w fo w'" and w: "world_inv w"
  shows "step_ok w fo w'"
  using step w
proof cases
  case of_section
  then show ?thesis using section_world w by blast
next
  case (begin_request c os out io r c' n)
  then show ?thesis using w
    by (auto intro!: quiet_step [where act = "beginRequest big io out os"] beginRequest_keeps quiet_beginRequest dest: world_invD)
next
  case (request_failed io out rid ex c r c' n)
  then show ?thesis using w
    by (auto intro!: quiet_act [where act = "requestFailed io out rid ex"] requestFailed_keeps quiet_requestFailed dest: world_invD)
next
  case (receive c io accept s r c' k n)
  then show ?thesis using w receive_step by blast
qed

section \<open>Reachable states\<close>

lemma new_world: "world_inv (connection_new maxSize dgram False adapter manager serverACM clientACM tmo level, 0)"
  using connection_new_inv [of False maxSize dgram adapter manager serverACM clientACM tmo level]
  by (simp add: world_inv_def batch_ok_def idle_def connection_new_def stream_new_def)

lemma reachable_world: "conn_reachable big bz fill w \<Longrightarrow> world_inv w"
  by (induction rule: conn_reachable.induct) (use new_world step_world step_ok_def in blast)+

lemma steps_advance: "conn_steps big bz fill w w' \<Longrightarrow> world_inv w \<Longrightarrow> world_inv w' \<and> advance (fst w) (fst w')"
proof (induction rule: conn_steps.induct)
  case (steps_refl w)
  then show ?case by simp
next
  case (steps_snoc w w' fo w'')
  then show ?case using step_world [OF steps_snoc.hyps(2)] advance_trans unfolding step_ok_def by blast
qed

end
