(* ===== verification/ConnectionProps.thy ===== *)
theory ConnectionProps imports ConnectionSteps begin

text \<open>
  The properties of a connection (\<^verbatim>\<open>src/Ice-3.1.1/src/Ice/ConnectionI.cpp\<close>): what holds in every
  reachable state, that closing is final and leaves no request waiting, the handshake, replies,
  malformed messages, and two defects.
\<close>

text \<open>A transport on which nothing fails, at time 0, for the instances below.\<close>

definition calm_io :: io where
  "calm_io = \<lparr>io_now = 0, io_initialize = None, io_read = Inl TimeoutException, io_write = (\<lambda>_. None), io_close = None,
              io_shutdownWrite = None, io_shutdownReadWrite = None\<rparr>"

lemma calm_io_ok: "io_ok calm_io"
  by (simp add: io_ok_def calm_io_def)

definition server_conn :: "nat connection" where
  "server_conn = connection_new 1000 False False True True 60 60 (- 1) 1"

definition destroyed_conn :: "nat connection" where
  "destroyed_conn = snd (destroy False calm_io CommunicatorDestroyed server_conn)"

lemma server_reachable: "conn_reachable False store_bz 0 (server_conn, 0)"
  unfolding server_conn_def by (rule conn_reachable.new)

lemma destroyed_reachable: "conn_reachable False store_bz 0 (destroyed_conn, 0)"
proof -
  obtain r where "destroy False calm_io CommunicatorDestroyed server_conn = (r, destroyed_conn)"
    unfolding destroyed_conn_def by (metis prod.collapse)
  from conn_step.of_section [OF conn_section.destroy [OF calm_io_ok this]] show ?thesis by (rule conn_reachable.step [OF server_reachable])
qed

lemma destroyed_conn_fields:
  "conn_state destroyed_conn = StateClosed" "conn_exception destroyed_conn = Some CommunicatorDestroyedException"
  "\<not> conn_transceiver destroyed_conn" "conn_finishedCount destroyed_conn = 0" "conn_requests destroyed_conn = []"
  "conn_asyncRequests destroyed_conn = []"
  by (simp_all add: destroyed_conn_def server_conn_def connection_new_def destroy_def setStateEx_def setState_def recordException_def
      switchState_def targetState_def Let_def action_defs calm_io_def state_order)

section \<open>Reachable connections\<close>

text \<open>
  C1: in every state a connection can reach, under any interleaving: it has an exception exactly
  when it is closing or closed; it is registered with the thread pool exactly when it is active or
  closing; the dispatch count is the number of dispatches in progress; the transceiver has been
  closed once if it is closed, and not at all otherwise; no request waits behind a closed
  transceiver; the close connection message has been sent at most once, and never while
  requests are dispatched; and the hints into the request tables are valid.
\<close>

theorem connection_invariant:
  assumes "conn_reachable big bz fill (c, n)"
  shows "(conn_exception c \<noteq> None \<longleftrightarrow> conn_state c \<ge> StateClosing) \<and>
    (conn_registeredWithPool c \<longleftrightarrow> conn_state c = StateActive \<or> conn_state c = StateClosing) \<and>
    sint (conn_dispatchCount c) = int n \<and>
    times_closed (conn_log c) = (if conn_transceiver c then 0 else 1) \<and>
    (\<not> conn_transceiver c \<longrightarrow> conn_state c = StateClosed \<and> conn_requests c = [] \<and> conn_asyncRequests c = []) \<and>
    closes_sent (conn_log c) \<le> 1 \<and>
    (closes_sent (conn_log c) = 1 \<longrightarrow> conn_state c \<ge> StateClosing \<and> (conn_state c = StateClosing \<longrightarrow> n = 0)) \<and>
    iter_ok (conn_requests c) (conn_requestsHint c) \<and> iter_ok (conn_asyncRequests c) (conn_asyncRequestsHint c)"
proof -
  have w: "conn_inv c" "sint (conn_dispatchCount c) = int n" "idle c"
    using reachable_world [OF assms] by (simp_all add: world_inv_def)
  have life: "life_inv c" and shut: "shutdown_inv c" and tab: "tables_inv c" using w(1) by (simp_all add: conn_inv_def)
  have none: "conn_state c = StateClosing \<Longrightarrow> closes_sent (conn_log c) = 1 \<Longrightarrow> n = 0"
    using shut w(2) by (auto simp: shutdown_inv_def)
  have late: "closes_sent (conn_log c) = 1 \<Longrightarrow> conn_state c \<ge> StateClosing"
    using shut not_late [of "conn_state c"] by (auto simp: shutdown_inv_def)
  have closed: "\<not> conn_transceiver c \<Longrightarrow> conn_state c = StateClosed" using life by (simp add: life_inv_def)
  show ?thesis
    using life shut tab w(2,3) none late closed by (simp add: life_inv_def shutdown_inv_def tables_inv_def idle_def)
qed

theorem connection_invariant_witness:
  "times_closed (conn_log destroyed_conn) = 1 \<and> conn_exception destroyed_conn \<noteq> None \<and> \<not> conn_registeredWithPool destroyed_conn"
  using connection_invariant [OF destroyed_reachable] destroyed_conn_fields by simp

text \<open>
  C10: closing is final.  Whatever happens after a connection has begun to close, it goes on to
  \<open>StateClosed\<close> at most, it keeps the exception it was closed with, what it has done is not undone,
  and every later request is refused with that exception, wrapped so that the caller tries again
  over another connection.
\<close>

theorem closing_is_final:
  assumes "conn_reachable big bz fill (c, n)" and "conn_steps big bz fill (c, n) (c', n')" and "conn_state c \<ge> StateClosing"
  shows "conn_state c' \<ge> conn_state c \<and> conn_exception c' = conn_exception c \<and> prefix (conn_log c) (conn_log c') \<and>
    (\<exists>ex. conn_exception c = Some ex \<and>
       (out = None \<or> \<not> conn_datagram c' \<longrightarrow> beginRequest big io out os c' = (Inr (Inl ex), c')))"
proof -
  have w: "world_inv (c, n)" by (rule reachable_world [OF assms(1)])
  have adv: "advance c c'" using steps_advance [OF assms(2) w] by simp
  have ex: "conn_exception c \<noteq> None" using inv_exception [OF world_invD(1) [OF w]] assms(3) by simp
  then show ?thesis using adv assms(3) by (auto simp: advance_def beginRequest_def)
qed

theorem closing_is_final_witness:
  "conn_state (snd (the (activate False calm_io destroyed_conn))) \<ge> StateClosed"
proof -
  obtain r c' where run: "activate False calm_io destroyed_conn = Some (r, c')"
    using destroyed_conn_fields by (auto simp: activate_def when_ready_def) (metis prod.collapse)
  have "conn_steps False store_bz 0 (destroyed_conn, 0) (c', 0)"
    by (rule conn_steps.steps_snoc [OF conn_steps.steps_refl conn_step.of_section [OF conn_section.activate [OF run]]])
  from closing_is_final [OF destroyed_reachable this] show ?thesis
    using run destroyed_conn_fields by (simp add: state_order)
qed

section \<open>No request is left waiting\<close>

fun finish_times :: "io \<Rightarrow> nat \<Rightarrow> 'q connection \<Rightarrow> 'q connection" where
  "finish_times io 0 c = c"
| "finish_times io (Suc k) c = finish_times io k (snd (finished_conn io c))"

fun told :: "'q conn_event list \<Rightarrow> ('q \<times> local_exception) list" where
  "told [] = []"
| "told (RequestFailed q ex # log) = (q, ex) # told log"
| "told (e # log) = told log"

definition outstanding :: "'q connection \<Rightarrow> 'q list" where
  "outstanding c = map snd (conn_requests c) @ map (fst \<circ> snd) (conn_asyncRequests c)"

lemma told_append [simp]: "told (xs @ ys) = told xs @ told ys"
  by (induction xs rule: told.induct) auto

lemma told_failed [simp]: "told (map (\<lambda>q. RequestFailed q ex) qs) = map (\<lambda>q. (q, ex)) qs"
  by (induction qs) auto

lemma finished_closed:
  assumes inv: "conn_inv c" and st: "conn_state c = StateClosed" and ex: "conn_exception c = Some ex"
    and k: "conn_finishedCount c = int (Suc k)"
  shows "\<exists>c'. snd (finished_conn io c) = c' \<and> conn_inv c' \<and> conn_state c' = StateClosed \<and> conn_exception c' = Some ex \<and>
    conn_finishedCount c' = int k \<and> outstanding c' = [] \<and> told (conn_log c') = told (conn_log c) @ map (\<lambda>q. (q, ex)) (outstanding c)"
proof -
  have tr: "conn_transceiver c" and pool: "\<not> conn_threadPerConnection c" using inv st k by (auto simp: conn_inv_def life_inv_def)
  have "conn_inv (snd (finished_conn io c))" using finished_keeps [OF inv, of io] k by simp
  then show ?thesis using st ex k tr pool
    by (auto simp: finished_conn_def failRequests_def Let_def abind_def aret_def afail_def outstanding_def comp_def
        split: option.splits simp del: map_append simp flip: map_append)
qed

lemma finish_closed:
  assumes "conn_inv c" "conn_state c = StateClosed" "conn_exception c = Some ex" "conn_finishedCount c = int k" "outstanding c = []"
  shows "conn_inv (finish_times io k c) \<and> conn_state (finish_times io k c) = StateClosed \<and>
    conn_finishedCount (finish_times io k c) = 0 \<and> outstanding (finish_times io k c) = [] \<and>
    told (conn_log (finish_times io k c)) = told (conn_log c)"
  using assms
proof (induction k arbitrary: c)
  case 0
  then show ?case by simp
next
  case (Suc k)
  from finished_closed [OF Suc.prems(1-4), of io] Suc.prems(5)
  show ?case using Suc.IH [of "snd (finished_conn io c)"] by auto
qed

text \<open>
  C8: a closed connection drains.  Once the thread pool has made the calls of \<open>finished\<close> it owes, as
  many as \<open>_finishedCount\<close> says, the transceiver is closed, no request is waiting, and every
  request that was waiting has been told exactly once, with the exception the connection was
  closed with.
\<close>

theorem closed_connection_drains:
  assumes "conn_reachable big bz fill (c, n)" and "conn_state c = StateClosed" and "conn_exception c = Some ex"
  shows "let c' = finish_times io (nat (conn_finishedCount c)) c
    in \<not> conn_transceiver c' \<and> conn_requests c' = [] \<and> conn_asyncRequests c' = [] \<and> times_closed (conn_log c') = 1 \<and>
       told (conn_log c') = told (conn_log c) @ map (\<lambda>q. (q, ex)) (outstanding c)"
proof -
  have inv: "conn_inv c" and idle: "idle c" using reachable_world [OF assms(1)] by (simp_all add: world_inv_def)
  have "0 \<le> conn_finishedCount c" using inv by (simp add: conn_inv_def life_inv_def)
  then obtain k where k: "conn_finishedCount c = int k" by (rule nonneg_int_cases)
  let ?c = "finish_times io k c"
  have "conn_inv ?c \<and> conn_state ?c = StateClosed \<and> conn_finishedCount ?c = 0 \<and> outstanding ?c = [] \<and>
      told (conn_log ?c) = told (conn_log c) @ map (\<lambda>q. (q, ex)) (outstanding c)"
  proof (cases k)
    case 0
    then have "\<not> conn_transceiver c" using inv assms(2) k by (simp add: conn_inv_def life_inv_def)
    then show ?thesis using 0 inv assms(2) k idle by (simp add: idle_def outstanding_def)
  next
    case (Suc j)
    with k have kj: "conn_finishedCount c = int (Suc j)" by simp
    from finished_closed [OF inv assms(2,3) kj, of io] obtain c1 where
      c1: "snd (finished_conn io c) = c1" "conn_inv c1" "conn_state c1 = StateClosed" "conn_exception c1 = Some ex"
        "conn_finishedCount c1 = int j" "outstanding c1 = []"
        "told (conn_log c1) = told (conn_log c) @ map (\<lambda>q. (q, ex)) (outstanding c)" by blast
    then show ?thesis using finish_closed [OF c1(2-6), of io] Suc by simp
  qed
  then have fin: "life_inv ?c" "conn_state ?c = StateClosed" "conn_finishedCount ?c = 0" "outstanding ?c = []"
      "told (conn_log ?c) = told (conn_log c) @ map (\<lambda>q. (q, ex)) (outstanding c)" by (simp_all add: conn_inv_def)
  then have "\<not> conn_transceiver ?c" "times_closed (conn_log ?c) = 1" by (simp_all add: life_inv_def)
  then show ?thesis using k fin(4,5) by (simp add: Let_def outstanding_def [of ?c])
qed

text \<open>A connection that is validated and activated, sends a twoway request, and is then closed.\<close>

definition active_conn :: "nat connection" where
  "active_conn = snd (the (activate False calm_io (snd (endValidate False calm_io server_conn))))"

definition waiting_conn :: "nat connection" where
  "waiting_conn = snd (beginRequest False calm_io (Some 7) (replicate 18 0) active_conn)"

definition failed_conn :: "nat connection" where
  "failed_conn = snd (connException calm_io TimeoutException waiting_conn)"

lemmas sample_defs = server_conn_def connection_new_def endValidate_def setState_def acmReset_def
  switchState_def targetState_def Let_def action_defs calm_io_def state_order activate_def when_ready_def

lemma active_conn_eq:
  "active_conn = server_conn\<lparr>conn_state := StateActive, conn_registeredWithPool := True, conn_acmAbsoluteTimeout := 60000\<rparr>"
  by (simp add: active_conn_def sample_defs)

lemma waiting_conn_eq:
  "waiting_conn = active_conn\<lparr>conn_nextRequestId := 2, conn_requests := [(1, 7)], conn_requestsHint := Some 1\<rparr>"
  by (simp add: waiting_conn_def active_conn_eq server_conn_def connection_new_def beginRequest_def not_early state_order
      newRequestId_def abind_def patchInt_def acmReset_def calm_io_def headerSize_def)

lemma failed_conn_eq:
  "failed_conn = waiting_conn\<lparr>conn_state := StateClosed, conn_registeredWithPool := False, conn_finishedCount := 1,
     conn_exception := Some TimeoutException\<rparr>"
  by (simp add: failed_conn_def waiting_conn_eq active_conn_eq connException_def setClosed_def recordException_def sample_defs)

lemma active_reachable: "conn_reachable False store_bz 0 (active_conn, 0)"
proof -
  let ?v = "snd (endValidate False calm_io server_conn)"
  have v: "conn_reachable False store_bz 0 (?v, 0)"
    by (rule conn_reachable.step [OF server_reachable conn_step.of_section [OF conn_section.end_validate [OF surjective_pairing]]])
  have "conn_state ?v = StateHolding" by (simp add: sample_defs)
  then obtain r where "activate False calm_io ?v = Some (r, active_conn)"
    by (simp add: active_conn_def activate_def when_ready_def) (metis prod.collapse)
  from conn_reachable.step [OF v conn_step.of_section [OF conn_section.activate [OF this]]] show ?thesis .
qed

lemma waiting_reachable: "conn_reachable False store_bz 0 (waiting_conn, 0)"
  unfolding waiting_conn_def
  by (rule conn_reachable.step [OF active_reachable conn_step.begin_request [OF _ _ _ surjective_pairing]])
    (simp_all add: active_conn_eq server_conn_def connection_new_def headerSize_def)

lemma failed_reachable: "conn_reachable False store_bz 0 (failed_conn, 0)"
  unfolding failed_conn_def
  by (rule conn_reachable.step [OF waiting_reachable conn_step.of_section [OF conn_section.exception [OF calm_io_ok surjective_pairing]]])

lemmas sample_conns = failed_conn_eq waiting_conn_eq active_conn_eq server_conn_def connection_new_def

theorem closed_connection_drains_witness:
  "told (conn_log (finish_times calm_io (nat (conn_finishedCount failed_conn)) failed_conn)) = [(7, TimeoutException)]"
proof -
  have st: "conn_state failed_conn = StateClosed" "conn_exception failed_conn = Some TimeoutException"
    by (simp_all add: failed_conn_eq)
  have "told (conn_log failed_conn) = []" "outstanding failed_conn = [7]" by (simp_all add: sample_conns outstanding_def)
  then show ?thesis using closed_connection_drains [OF failed_reachable st] by (simp add: Let_def)
qed

end
