(* ===== verification/ConnectionMessages.thy ===== *)
theory ConnectionMessages imports ConnectionProps begin

text \<open>
  What the messages of the protocol do to a connection (\<^verbatim>\<open>src/Ice-3.1.1/src/Ice/ConnectionI.cpp\<close>): the
  handshake of a new connection, replies and the requests they belong to, messages that are not
  understood, and the defects found in the handlers.
\<close>

section \<open>Received bytes\<close>

text \<open>An uncompressed message as the thread pool delivers it: version bytes, type, size, body.\<close>

definition delivered :: "stream \<Rightarrow> byte \<Rightarrow> byte list \<Rightarrow> bool" where
  "delivered s messageType body \<longleftrightarrow>
     (\<exists>hdr k sz. buf s = hdr @ [messageType, k] @ sz @ body \<and> length hdr = 8 \<and> length sz = 4 \<and> k \<noteq> 2) \<and>
     rpos s = int (length (buf s))"

lemma delivered_open:
  assumes "delivered s t body"
  obtains k pre where "openMessage big bz fill s = Inr ((t, k), s\<lparr>rpos := int headerSize\<rparr>)"
    "at (s\<lparr>rpos := int headerSize\<rparr>) pre body []"
proof -
  obtain hdr k sz where b: "buf s = hdr @ [t, k] @ sz @ body" "length hdr = 8" "length sz = 4" "k \<noteq> 2"
    and r: "rpos s = int (length (buf s))"
    using assms by (auto simp: delivered_def)
  have "buf s ! 8 = t" "buf s ! 9 = k" "headerSize \<le> length (buf s)"
    using b by (simp_all add: nth_append headerSize_def)
  then have "openMessage big bz fill s = Inr ((t, k), s\<lparr>rpos := int headerSize\<rparr>)"
    using openMessage_plain [of "buf s" s big bz fill] b r by simp
  moreover have "at (s\<lparr>rpos := int headerSize\<rparr>) (hdr @ [t, k] @ sz) body []"
    using b by (simp add: at_def headerSize_def)
  ultimately show thesis by (rule that)
qed

lemma alive_states: "conn_state c > StateNotValidated \<and> conn_state c < StateClosed \<longleftrightarrow>
    conn_state c \<in> {StateActive, StateHolding, StateClosing}"
  by (cases "conn_state c") (simp_all add: state_order)

text \<open>Receiving, when the body of \<open>parseMessage\<close> ends normally or throws.\<close>

lemma receive_normal:
  assumes "\<not> conn_threadPerConnection c" "conn_state c \<in> {StateActive, StateHolding, StateClosing}"
    and "parseBody big bz fill accept io s (acmReset io c) = (Inr p, c')" "conn_state c' \<noteq> StateClosed"
  shows "receiveMessage big bz fill accept io s c = (Inr (Some p), c')"
  using assms alive_states [of c]
  by (auto simp: receiveMessage_def parseMessage_def abind_def acatch_def)

lemma receive_thrown:
  assumes "\<not> conn_threadPerConnection c" "conn_state c \<in> {StateActive, StateHolding, StateClosing}"
    and "parseBody big bz fill accept io s (acmReset io c) = (throw e, c')"
  shows "receiveMessage big bz fill accept io s c =
    abind (parseFailed io s e) (\<lambda>r c1. (Inr (if conn_state c1 = StateClosed then None else Some r), c1)) c'"
  using assms alive_states [of c]
  by (auto simp: receiveMessage_def parseMessage_def abind_def acatch_def)

section \<open>Replies\<close>

text \<open>
  C11: a reply reaches the request it answers.  When the id of the reply is that of a waiting twoway
  request, and of no asynchronous one, that request is told the reply, once, and leaves the
  table, and no other request is affected; the hint is used only when it is right.
\<close>

theorem reply_delivered:
  assumes inv: "conn_reachable big bz fill (c, n)" and st: "conn_state c \<in> {StateActive, StateHolding, StateClosing}"
    and msg: "delivered s replyMsg (le_bytes (requestId :: ice_int) @ body)"
    and q: "sm_find (sint requestId) (conn_requests c) = Some q" and async: "sm_find (sint requestId) (conn_asyncRequests c) = None"
    and acc: "\<And>s'. accept q s' = None"
  shows "\<exists>p c'. receiveMessage big bz fill accept io s c = (Inr (Some p), c') \<and>
    conn_log c' = conn_log c @ [RequestReplied q (s\<lparr>rpos := int (headerSize + 4)\<rparr>)] \<and>
    (\<forall>k. sm_find k (conn_requests c') = (if k = sint requestId then None else sm_find k (conn_requests c))) \<and>
    conn_asyncRequests c' = conn_asyncRequests c \<and> conn_state c' = conn_state c \<and> pm_invokeNum p = 0 \<and> pm_outAsync p = None"
proof -
  let ?c = "acmReset io c" and ?s = "s\<lparr>rpos := int headerSize\<rparr>"
  have cinv: "conn_inv c" using reachable_world [OF inv] by (simp add: world_inv_def)
  have pool: "\<not> conn_threadPerConnection c" and tab: "tables_inv ?c"
    using cinv by (simp_all add: conn_inv_def life_inv_def tables_inv_def)
  obtain k pre where o: "openMessage big bz fill s = Inr ((replyMsg, k), ?s)"
    and at: "at ?s pre (le_bytes requestId @ body) []" using delivered_open [OF msg] by metis
  have rd: "read_Int big ?s = Inr (requestId, s\<lparr>rpos := int (headerSize + 4)\<rparr>)"
    using read_Int_at [OF at_append [OF at], of big] by (simp add: skip_def)
  obtain p' q' where t: "replyTarget (sint requestId) ?c = Inr (p', q')" "p' = Some q"
    using replyTarget_eq [OF tab, of "sint requestId"] q async by auto
  let ?c' = "eraseRequest (sint requestId) (?c\<lparr>conn_log := conn_log c @ [RequestReplied q (s\<lparr>rpos := int (headerSize + 4)\<rparr>)]\<rparr>)"
  have body: "parseBody big bz fill accept io s ?c =
      (Inr ((nothingParsed (s\<lparr>rpos := int (headerSize + 4)\<rparr>))\<lparr>pm_requestId := requestId, pm_compress := k\<rparr>), ?c')"
    using o rd t acc
    by (simp add: parseBody_def handleReply_def Let_def replyMsg_def closeConnectionMsg_def requestMsg_def requestBatchMsg_def)
  have "receiveMessage big bz fill accept io s c =
      (Inr (Some ((nothingParsed (s\<lparr>rpos := int (headerSize + 4)\<rparr>))\<lparr>pm_requestId := requestId, pm_compress := k\<rparr>)), ?c')"
    by (rule receive_normal [OF pool st body]) (use st in \<open>auto simp: eraseRequest_def\<close>)
  then show ?thesis by (simp add: eraseRequest_def nothingParsed_def)
qed

text \<open>A reply with status \<open>DispatchOK\<close> to the request of \<open>waiting_conn\<close>.\<close>

definition sample_reply :: stream where
  "sample_reply = stream_new 1000\<lparr>buf := replyHdr @ [1, 0, 0, 0] @ [0], rpos := 19\<rparr>"

lemma sample_reply_delivered: "delivered sample_reply replyMsg (le_bytes (1 :: ice_int) @ [0])"
proof -
  have "le_bytes (1 :: ice_int) = [1, 0, 0, 0]" by (simp add: le_bytes_def upt_rec) 
  moreover have "replyHdr = (magic @ [protocolMajor, protocolMinor, encodingMajor, encodingMinor]) @ [replyMsg, 0] @ [0, 0, 0, 0]"
    by (simp add: replyHdr_def)
  ultimately show ?thesis unfolding delivered_def sample_reply_def
    by (intro conjI exI [of _ "magic @ [protocolMajor, protocolMinor, encodingMajor, encodingMinor]"] exI [of _ 0] exI [of _ "[0, 0, 0, 0]"])
      (simp_all add: magic_def stream_new_def)
qed

theorem reply_delivered_witness:
  "\<exists>p c'. receiveMessage False store_bz 0 (\<lambda>_ _. None) calm_io sample_reply waiting_conn = (Inr (Some p), c') \<and>
     conn_log c' = conn_log waiting_conn @ [RequestReplied 7 (sample_reply\<lparr>rpos := 18\<rparr>)]"
  using reply_delivered [OF waiting_reachable _ sample_reply_delivered, of 7 "\<lambda>_ _. None" calm_io]
  by (auto simp: sample_conns headerSize_def)

section \<open>Messages that are not understood\<close>

text \<open>
  What becomes of a connection that refuses a message with an exception: all of its state.  The exception counts when
  there is none yet; the connection leaves the thread pool, which owes it one more call of \<open>finished\<close>; it is closed, unless
  shutting down the socket fails.  A datagram connection ignores the message.  In any case the time of its
  active connection management starts anew.
\<close>

definition refused ::
  "io \<Rightarrow> stream \<Rightarrow> local_exception \<Rightarrow> 'q connection \<Rightarrow> (failure + 'q parsed option) \<times> 'q connection" where
  "refused io s e c =
     (let c1 = acmReset io c;
          c2 = c1\<lparr>conn_exception := Some (case conn_exception c of None \<Rightarrow> e | Some e' \<Rightarrow> e'),
                  conn_registeredWithPool := False, conn_finishedCount := conn_finishedCount c + 1\<rparr>
      in if conn_datagram c then (Inr (Some (nothingParsed s)), c1)
         else case io_shutdownWrite io of
           None \<Rightarrow> (Inr None, c2\<lparr>conn_state := StateClosed\<rparr>)
         | Some e' \<Rightarrow> (throw e', c2))"

lemma setClosed_exact:
  assumes inv: "conn_inv c" and st: "conn_state c \<in> {StateActive, StateHolding, StateClosing}"
  shows "setClosed io e c =
    (let c2 = c\<lparr>conn_exception := Some (case conn_exception c of None \<Rightarrow> e | Some e' \<Rightarrow> e'),
                conn_registeredWithPool := False, conn_finishedCount := conn_finishedCount c + 1\<rparr>
     in case io_shutdownWrite io of None \<Rightarrow> (Inr (), c2\<lparr>conn_state := StateClosed\<rparr>) | Some e' \<Rightarrow> (throw e', c2))"
  using inv st
  by (cases "conn_state c")
    (auto simp: setClosed_def recordException_def switchState_def targetState_def Let_def action_defs inv_defs
      split: option.splits intro!: connection.equality)

lemma receive_refuses:
  assumes inv: "conn_inv c" and st: "conn_state c \<in> {StateActive, StateHolding, StateClosing}" and e: "\<not> is_socket e"
    and body: "parseBody big bz fill accept io s (acmReset io c) = (throw e, acmReset io c)"
  shows "receiveMessage big bz fill accept io s c = refused io s e c"
proof -
  have pool: "\<not> conn_threadPerConnection c" using inv by (simp add: conn_inv_def life_inv_def)
  have fin: "conn_finishedCount (acmReset io c) = conn_finishedCount c" by (simp add: acmReset_def)
  show ?thesis
  proof (cases "conn_datagram c")
    case True
    then show ?thesis using receive_thrown [OF pool st body] e st
      by (auto simp: parseFailed_def is_socket_def abind_def aret_def refused_def Let_def)
  next
    case False
    then show ?thesis
      using receive_thrown [OF pool st body] e setClosed_exact [of "acmReset io c" io e] inv st fin
      by (simp add: parseFailed_def is_socket_def abind_def aret_def refused_def Let_def split: option.splits)
  qed
qed

text \<open>
  C13: a message that is not understood is refused with the exception that says why: an unknown message type, a reply
  with an id nobody waits for, a request that ends before its id, a batch with a negative number of requests.  What
  becomes of the connection is given field by field, whether it is one for datagrams or not, and whether the socket can be
  shut down or not; in particular no request is told, no table, batch or counter of dispatches changes, and nothing is
  handed to a dispatcher.
\<close>

theorem bad_messages_close:
  assumes reach: "conn_reachable big bz fill (c, n)" and st: "conn_state c \<in> {StateActive, StateHolding, StateClosing}"
    and msg: "delivered s t body"
  shows "(t > closeConnectionMsg \<longrightarrow>
      receiveMessage big bz fill accept io s c = refused io s UnknownMessageException c) \<and>
    (t = replyMsg \<and> body = le_bytes (k :: ice_int) @ rest \<and> sm_find (sint k) (conn_requests c) = None \<and>
      sm_find (sint k) (conn_asyncRequests c) = None \<longrightarrow>
      receiveMessage big bz fill accept io s c = refused io s UnknownRequestIdException c) \<and>
    (t = requestMsg \<and> length body < 4 \<and> conn_state c \<noteq> StateClosing \<longrightarrow>
      receiveMessage big bz fill accept io s c = refused io s UnmarshalOutOfBoundsException c) \<and>
    (t = requestBatchMsg \<and> body = le_bytes k @ rest \<and> sint k < 0 \<and> conn_state c \<noteq> StateClosing \<longrightarrow>
      receiveMessage big bz fill accept io s c = refused io s NegativeSizeException c)"
proof -
  let ?c = "acmReset io c" and ?s = "s\<lparr>rpos := int headerSize\<rparr>"
  have inv: "conn_inv c" using reachable_world [OF reach] by (simp add: world_inv_def)
  have tab: "tables_inv ?c" using inv by (simp add: conn_inv_def tables_inv_def)
  note close = receive_refuses [OF inv st, of _ big bz fill accept io s]
  note types = closeConnectionMsg_def requestMsg_def requestBatchMsg_def replyMsg_def validateConnectionMsg_def
  obtain z pre where o: "openMessage big bz fill s = Inr ((t, z), ?s)" and at: "at ?s pre body []"
    using delivered_open [OF msg] by metis
  have rd: "read_Int big ?s = Inr (k, skip ?s 4)" if "body = le_bytes k @ rest"
    using read_Int_at [OF at_append, of ?s pre k rest "[]" big] at that by simp
  have short: "read_Int big ?s = throw UnmarshalOutOfBoundsException" if "length body < 4"
    using at that by (simp add: at_def read_Int_def readFixed_def rbind_def takeBytes_def)
  have "parseBody big bz fill accept io s ?c = (throw UnknownMessageException, ?c)" if "t > closeConnectionMsg"
    using o that by (auto simp: parseBody_def types Let_def)
  moreover have "parseBody big bz fill accept io s ?c = (throw UnknownRequestIdException, ?c)"
    if "t = replyMsg" "body = le_bytes k @ rest" "sm_find (sint k) (conn_requests c) = None" "sm_find (sint k) (conn_asyncRequests c) = None"
    using o rd that replyTarget_eq [OF tab, of "sint k"] by (auto simp: parseBody_def types handleReply_def Let_def)
  moreover have "parseBody big bz fill accept io s ?c = (throw UnmarshalOutOfBoundsException, ?c)"
    if "t = requestMsg" "length body < 4" "conn_state c \<noteq> StateClosing"
    using o short that by (simp add: parseBody_def types handleRequest_def)
  moreover have "parseBody big bz fill accept io s ?c = (throw NegativeSizeException, ?c)"
    if "t = requestBatchMsg" "body = le_bytes k @ rest" "sint k < 0" "conn_state c \<noteq> StateClosing"
    using o rd that by (simp add: parseBody_def types handleBatch_def)
  ultimately show ?thesis by (auto intro!: close simp: is_socket_def)
qed

lemma header_delivered:
  "delivered (stream_new 1000\<lparr>buf := headerMessage big t 0, rpos := 14\<rparr>) t []"
  unfolding delivered_def
  by (intro conjI exI [of _ "magic @ [protocolMajor, protocolMinor, encodingMajor, encodingMinor]"] exI [of _ 0]
      exI [of _ "marshalArray big [word_of_nat headerSize :: ice_int]"])
    (simp_all add: headerMessage_def magic_def stream_new_def marshalArray_wire)

theorem bad_messages_close_witness:
  "receiveMessage False store_bz 0 (\<lambda>_ _. None) calm_io
      (stream_new 1000\<lparr>buf := headerMessage False 9 0, rpos := 14\<rparr>) active_conn =
    (Inr None, active_conn\<lparr>conn_exception := Some UnknownMessageException, conn_registeredWithPool := False,
       conn_finishedCount := 1, conn_state := StateClosed\<rparr>)"
  using bad_messages_close [OF active_reachable _ header_delivered, of 9 "\<lambda>_ _. None" calm_io]
  by (simp add: sample_conns closeConnectionMsg_def refused_def acmReset_def calm_io_def)

section \<open>The handshake\<close>

lemma validate_header_accepted:
  "checkValidateHeader big' (stream_new n\<lparr>buf := headerMessage big validateConnectionMsg 0\<rparr>) =
     Inr ((), stream_new n\<lparr>buf := headerMessage big validateConnectionMsg 0, rpos := 14\<rparr>)"
proof -
  let ?s = "stream_new n\<lparr>buf := headerMessage big validateConnectionMsg 0\<rparr>"
  have bytes: "headerMessage big validateConnectionMsg 0 =
      [0x49, 0x63, 0x65, 0x50, protocolMajor, protocolMinor, encodingMajor, encodingMinor, validateConnectionMsg, 0] @
      le_bytes (14 :: ice_int)"
    by (simp add: headerMessage_def magic_def headerSize_def marshalArray_wire)
  have "at (?s\<lparr>rpos := 10\<rparr>) [0x49, 0x63, 0x65, 0x50, protocolMajor, protocolMinor, encodingMajor, encodingMinor, validateConnectionMsg, 0]
      (le_bytes (14 :: ice_int)) []"
    by (simp add: at_def bytes)
  from read_Int_at [OF this, of big']
  have "read_Int big' (?s\<lparr>rpos := 10\<rparr>) = Inr (14, ?s\<lparr>rpos := 14\<rparr>)" by (simp add: skip_def)
  then show ?thesis
    by (simp add: checkValidateHeader_def rbind_def read_Byte_def rret_def bytes stream_new_def magic_def headerSize_def)
qed

text \<open>
  C14: the two ends of a connection understand each other's handshake.  The server end writes one
  message and holds; the client end that reads those bytes, on a machine of either byte
  order, holds too; an end that times out is closed and reports a connect timeout.
\<close>

theorem validate_handshake:
  assumes srv: "conn_state c = StateNotValidated" "conn_adapter c" "\<not> conn_datagram c" "conn_inv c"
    and cli: "conn_state d = StateNotValidated" "\<not> conn_adapter d" "\<not> conn_datagram d" "conn_inv d"
    and io: "io_ok io" "io_initialize io = None" and hello: "hello = headerMessage big validateConnectionMsg 0"
  shows "(io_write io hello = None \<longrightarrow>
      (\<exists>c'. validate big io c = (Inr (), c') \<and> conn_state c' = StateHolding \<and> conn_log c' = conn_log c @ [Wrote ValidateMsg hello])) \<and>
    (io_read io = Inr hello \<longrightarrow>
      (\<exists>d'. validate big' io d = (Inr (), d') \<and> conn_state d' = StateHolding \<and> conn_log d' = conn_log d)) \<and>
    (io_read io = Inl TimeoutException \<longrightarrow>
      (\<exists>d'. validate big' io d = (throw ConnectTimeoutException, d') \<and> conn_state d' = StateClosed))"
proof (intro conjI impI)
  have c: "conn_transceiver c" "\<not> conn_threadPerConnection c" "\<not> conn_registeredWithPool c"
    and d: "conn_transceiver d" "\<not> conn_threadPerConnection d" "\<not> conn_registeredWithPool d" "conn_exception d = None"
    using srv cli by (auto simp: inv_defs)
  note steps = validate_def beginValidate_def handshake_def endValidate_def setState_def switchState_def targetState_def
  {
    assume "io_write io hello = None"
    then show "\<exists>c'. validate big io c = (Inr (), c') \<and> conn_state c' = StateHolding \<and> conn_log c' = conn_log c @ [Wrote ValidateMsg hello]"
      using srv io c hello by (simp add: steps action_defs acmReset_def Let_def)
  next
    assume "io_read io = Inr hello"
    then show "\<exists>d'. validate big' io d = (Inr (), d') \<and> conn_state d' = StateHolding \<and> conn_log d' = conn_log d"
      using cli io d hello validate_header_accepted [where big' = big' and n = headerSize and big = big]
      by (simp add: steps action_defs acmReset_def Let_def headerSize_def)
  next
    assume "io_read io = Inl TimeoutException"
    then have "validate big' io d = closeAndThrow io ConnectTimeoutException d"
      using cli io d
      by (auto simp: validate_def beginValidate_def handshake_def action_defs connectTimeout_def closeAndThrow_def rethrow_def
          split: prod.splits sum.splits option.splits)
    moreover obtain d' where "setClosed io ConnectTimeoutException d = (Inr (), d')" "conn_state d' = StateClosed"
        "conn_exception d' = Some ConnectTimeoutException"
      using setClosed_result [OF cli(4) io(1), of ConnectTimeoutException] d by auto
    ultimately show "\<exists>d'. validate big' io d = (throw ConnectTimeoutException, d') \<and> conn_state d' = StateClosed"
      by (simp add: closeAndThrow_def rethrow_def abind_def)
  }
qed

definition client_conn :: "nat connection" where
  "client_conn = connection_new 1000 False False False False 60 60 (- 1) 1"

theorem validate_handshake_witness:
  "\<exists>c'. validate True calm_io server_conn = (Inr (), c') \<and> conn_state c' = StateHolding \<and>
     conn_log c' = [Wrote ValidateMsg (headerMessage True validateConnectionMsg 0)]"
proof -
  have "conn_inv server_conn" "conn_inv client_conn"
    unfolding server_conn_def client_conn_def by (simp_all add: connection_new_inv)
  then show ?thesis
    using validate_handshake [where c = server_conn and d = client_conn and io = calm_io and big = True, OF _ _ _ _ _ _ _ _ calm_io_ok _ refl]
    by (simp add: server_conn_def client_conn_def connection_new_def calm_io_def)
qed

section \<open>Sending a twoway request\<close>

text \<open>
  \<open>sendRequest\<close> on a validated connection reports its failure in exactly one way.  Either the
  connection was closed already, nothing is done and the caller is told to try again; or the
  request was written and waits in the table under a positive id; or writing failed, the
  connection is closed, the exception is thrown, and the request is not in the table, so that it
  will not be told a second time.  The hypothesis on the id excludes an id that is still in use
  when the counter has wrapped around.
\<close>

lemma sendRequest_outcome:
  assumes reach: "conn_reachable big bz fill (c, n)" and st: "conn_state c \<noteq> StateNotValidated" and dg: "\<not> conn_datagram c"
    and io: "io_ok io" and os: "headerSize + 4 \<le> length os"
    and fresh: "\<And>rid c1. newRequestId c = (Inr rid, c1) \<Longrightarrow> sm_find (sint rid) (conn_requests c) = None"
  shows "case sendRequest big bz io (Some q) compress os c of
      (Inr (Some ex), c') \<Rightarrow> c' = c \<and> conn_exception c = Some ex
    | (Inr None, c') \<Rightarrow>
        (\<exists>k > 0. \<forall>j. sm_find j (conn_requests c') = (if j = k then Some q else sm_find j (conn_requests c))) \<and>
        (\<exists>bs. conn_log c' = conn_log c @ [Wrote RequestMsg bs]) \<and> conn_state c' = conn_state c
    | (Inl f, c') \<Rightarrow>
        conn_state c' = StateClosed \<and> (\<exists>ex. f = Thrown ex \<and> conn_exception c' = Some ex) \<and>
        (\<forall>j. sm_find j (conn_requests c') = sm_find j (conn_requests c))"
proof -
  have inv: "conn_inv c" using reachable_world [OF reach] by (simp add: world_inv_def)
  have ok: "sm_ok (conn_requests c)" using inv by (simp add: conn_inv_def tables_inv_def)
  show ?thesis
  proof (cases "conn_exception c")
    case (Some ex)
    then show ?thesis using dg by (simp add: sendRequest_def beginRequest_def abind_def aret_def)
  next
    case None
    obtain rid nx where id: "newRequestId c = (Inr rid, c\<lparr>conn_nextRequestId := nx\<rparr>)" and pos: "0 < sint rid"
      using newRequestId_result by blast
    have new: "sm_find (sint rid) (conn_requests c) = None" by (rule fresh [OF id])
    let ?os = "overwrite headerSize (le_bytes rid) os"
    define c1 where "c1 = acmReset io (c\<lparr>conn_nextRequestId := nx, conn_requests := sm_insert (sint rid) q (conn_requests c),
        conn_requestsHint := Some (sint rid)\<rparr>)"
    have started: "beginRequest big io (Some q) os c = (Inr (Inr (rid, ?os)), c1)"
      using None inv_exception [OF inv] st dg id not_early [of c] not_late [of "conn_state c"] patchInt_eq [OF os, of big rid]
      by (simp add: beginRequest_def abind_def c1_def)
    have inv1: "conn_inv c1"
      using beginRequest_keeps [OF inv st os, of "Some q" big io] dg started by (simp add: keeps_at_def)
    have find1: "sm_find j (conn_requests c1) = (if j = sint rid then Some q else sm_find j (conn_requests c))" for j
      using ok new by (simp add: c1_def)
    have c1: "conn_exception c1 = None" "conn_log c1 = conn_log c" "conn_state c1 = conn_state c"
      using None by (simp_all add: c1_def)
    have tr: "conn_transceiver c1" using inv_transceiver [OF inv1] c1 by auto
    have len: "headerSize \<le> length ?os" using os by simp
    note keep = transmit_keeps [OF inv1 _ len, of RequestMsg big bz io compress]
    obtain r c2 where t: "transmit big bz io RequestMsg compress ?os c1 = (r, c2)" by fastforce
    show ?thesis
    proof (cases r)
      case (Inr x)
      then obtain bs where "c2 = c1\<lparr>conn_log := conn_log c1 @ [Wrote RequestMsg bs]\<rparr>"
        using t tr by (auto simp: transmit_def action_defs split: sum.splits option.splits)
      moreover have "sendRequest big bz io (Some q) compress os c = (Inr None, c2)"
        using started t Inr by (simp add: sendRequest_def abind_def acatch_def aret_def)
      ultimately show ?thesis using find1 c1 pos by auto
    next
      case (Inl f)
      then obtain e where e: "f = Thrown e" using keep t by (cases f) (auto simp: keeps_at_def)
      have c2: "c2 = c1" using t Inl tr by (auto simp: transmit_def action_defs split: sum.splits option.splits)
      obtain c3 where c3: "setClosed io e c1 = (Inr (), c3)" "conn_state c3 = StateClosed" "conn_requests c3 = conn_requests c1"
          "conn_exception c3 = Some e"
        using setClosed_result [OF inv1 io, of e] c1 by auto
      have "sendRequest big bz io (Some q) compress os c = (throw e, eraseRequest (sint rid) c3)"
        using started t Inl e c2 c3 find1 [of "sint rid"]
        by (simp add: sendRequest_def abind_def acatch_def requestFailed_def rethrow_def)
      then show ?thesis using c3 find1 new by (simp add: eraseRequest_def)
    qed
  qed
qed

lemma sendRequest_outcome_witness:
  "\<exists>c'. sendRequest False store_bz calm_io (Some 8) False (replicate 18 0) active_conn = (Inr None, c') \<and>
     (\<exists>k > 0. \<forall>j. sm_find j (conn_requests c') = (if j = k then Some 8 else None))"
proof -
  let ?run = "sendRequest False store_bz calm_io (Some 8) False (replicate 18 0) active_conn"
  have f: "conn_state active_conn \<noteq> StateNotValidated" "\<not> conn_datagram active_conn"
      "headerSize + 4 \<le> length (replicate 18 (0 :: byte))" "conn_requests active_conn = []"
    by (simp_all add: sample_conns headerSize_def)
  have "fst ?run = Inr None"
    by (simp add: sendRequest_def beginRequest_def abind_def acatch_def aret_def sample_conns state_order newRequestId_def
        patchInt_def headerSize_def acmReset_def transmit_def prepareMessage_def action_defs calm_io_def)
  then obtain c' where run: "?run = (Inr None, c')" by (metis prod.collapse)
  then show ?thesis
    using sendRequest_outcome [OF active_reachable f(1,2) calm_io_ok f(3), where q = 8 and compress = False, unfolded run] f(4) by auto
qed

section \<open>Defects\<close>

text \<open>
  C21: a graceful close by the peer can make the receiving thread lock the monitor it already
  holds.  \<open>setState(StateClosed)\<close> shuts the write side of the socket down, which may throw a
  \<open>SocketException\<close>; \<open>parseMessage\<close> catches it and calls \<open>exception(ex)\<close>, which locks the monitor.  The
  connection is left active, out of the thread pool, with an exception set.
\<close>

theorem close_message_self_deadlock:
  assumes inv: "conn_inv c" and st: "conn_state c = StateActive" and dg: "\<not> conn_datagram c"
    and fail: "io_shutdownWrite io = Some SocketException" and msg: "delivered s closeConnectionMsg body"
  shows "\<exists>c'. receiveMessage big bz fill accept io s c = (Inl ThreadLockedException, c') \<and> conn_state c' = StateActive \<and>
    conn_exception c' = Some CloseConnectionException \<and> \<not> conn_registeredWithPool c'"
proof -
  let ?c = "acmReset io c"
  have c: "conn_transceiver c" "\<not> conn_threadPerConnection c" "conn_registeredWithPool c" "conn_exception c = None"
    using inv st by (auto simp: inv_defs)
  have c': "conn_transceiver ?c" "\<not> conn_threadPerConnection ?c" "conn_registeredWithPool ?c"
    using c by (simp_all add: acmReset_def)
  obtain k pre where o: "openMessage big bz fill s = Inr ((closeConnectionMsg, k), s\<lparr>rpos := int headerSize\<rparr>)"
    using delivered_open [OF msg] by metis
  define c2 where "c2 = ?c\<lparr>conn_exception := Some CloseConnectionException, conn_registeredWithPool := False,
      conn_finishedCount := conn_finishedCount ?c + 1\<rparr>"
  have "setClosed io CloseConnectionException ?c = (throw SocketException, c2)"
    using st c c' fail
    by (simp add: setClosed_def recordException_def switchState_def targetState_def Let_def action_defs c2_def)
  then have "parseBody big bz fill accept io s ?c = (throw SocketException, c2)"
    using o dg by (simp add: parseBody_def abind_def Let_def)
  from receive_thrown [OF c(2) _ this] have "receiveMessage big bz fill accept io s c = (Inl ThreadLockedException, c2)"
    using st by (simp add: parseFailed_def abind_def)
  then show ?thesis using st by (simp add: c2_def)
qed

theorem close_message_self_deadlock_witness:
  "fst (receiveMessage False store_bz 0 (\<lambda>_ _. None) (calm_io\<lparr>io_shutdownWrite := Some SocketException\<rparr>)
     (stream_new 1000\<lparr>buf := headerMessage False closeConnectionMsg 0, rpos := 14\<rparr>) active_conn) = Inl ThreadLockedException"
proof -
  have "conn_inv active_conn" using reachable_world [OF active_reachable] by (simp add: world_inv_def)
  moreover have "conn_state active_conn = StateActive" "\<not> conn_datagram active_conn" by (simp_all add: sample_conns)
  ultimately show ?thesis
    using close_message_self_deadlock [OF _ _ _ _ header_delivered [of False], of active_conn
        "calm_io\<lparr>io_shutdownWrite := Some SocketException\<rparr>" False store_bz 0 "\<lambda>_ _. None"]
    by auto
qed

lemma receive_batch:
  assumes "\<not> conn_threadPerConnection c" "conn_state c = StateActive"
    and msg: "delivered s requestBatchMsg (le_bytes (k :: ice_int) @ rest)" and k: "0 \<le> sint k"
  shows "\<exists>p. receiveMessage big bz fill accept io s c =
    (Inr (Some p), (acmReset io c)\<lparr>conn_dispatchCount := conn_dispatchCount c + k\<rparr>) \<and> pm_invokeNum p = k"
proof -
  let ?s = "s\<lparr>rpos := int headerSize\<rparr>"
  obtain z pre where o: "openMessage big bz fill s = Inr ((requestBatchMsg, z), ?s)" and at: "at ?s pre (le_bytes k @ rest) []"
    using delivered_open [OF msg] by metis
  have rd: "read_Int big ?s = Inr (k, skip ?s 4)" using read_Int_at [OF at_append [OF at], of big] by simp
  let ?p = "(nothingParsed (skip ?s 4))\<lparr>pm_invokeNum := k, pm_compress := z, pm_servantManager := conn_servantManager (acmReset io c),
      pm_adapter := conn_adapter (acmReset io c)\<rparr>"
  have "parseBody big bz fill accept io s (acmReset io c) = (Inr ?p, (acmReset io c)\<lparr>conn_dispatchCount := conn_dispatchCount c + k\<rparr>)"
    using o rd k assms(2)
    by (simp add: parseBody_def handleBatch_def Let_def closeConnectionMsg_def requestMsg_def requestBatchMsg_def)
  from receive_normal [OF assms(1) _ this] assms(2) show ?thesis by auto
qed

text \<open>
  C22: the dispatch count is not protected against overflow.  The number of requests in a batch is
  taken from the message: two batches that claim $2^{31} - 1$ requests each make the count
  negative, and the assertions at the end of \<open>invokeAll\<close> fail; a third one that claims two
  makes it zero, so that the connection believes that nothing is being dispatched.
\<close>

theorem dispatch_count_overflow:
  assumes pool: "\<not> conn_threadPerConnection c" and st: "conn_state c = StateActive" and zero: "conn_dispatchCount c = 0"
    and msg: "delivered s requestBatchMsg (le_bytes (0x7FFFFFFF :: ice_int) @ rest)"
    and two: "delivered s' requestBatchMsg (le_bytes (2 :: ice_int) @ rest)"
    and recv: "recv = (\<lambda>m d. snd (receiveMessage big bz fill accept io m d))"
  shows "sint (conn_dispatchCount (recv s (recv s c))) = - 2 \<and>
    fst (dropDispatches 0x7FFFFFFF (recv s (recv s c))) = Inl AssertionFailed \<and>
    conn_dispatchCount (recv s' (recv s (recv s c))) = 0"
proof -
  let ?upd = "\<lambda>d k. (acmReset io d)\<lparr>conn_dispatchCount := conn_dispatchCount d + k\<rparr>"
  have one: "recv s d = ?upd d 0x7FFFFFFF" "recv s' d = ?upd d 2"
    if "\<not> conn_threadPerConnection d" "conn_state d = StateActive" for d
    using receive_batch [OF that msg, of big bz fill accept io] receive_batch [OF that two, of big bz fill accept io]
    by (auto simp: recv sint_if)
  have tpc: "conn_threadPerConnection (acmReset io d) = conn_threadPerConnection d" for d :: "'a connection" by (simp add: acmReset_def)
  have c1: "recv s c = ?upd c 0x7FFFFFFF" by (rule one(1) [OF pool st])
  have c2: "recv s (recv s c) = ?upd (?upd c 0x7FFFFFFF) 0x7FFFFFFF" using one(1) [of "?upd c 0x7FFFFFFF"] pool st c1 tpc by simp
  have c3: "recv s' (recv s (recv s c)) = ?upd (?upd (?upd c 0x7FFFFFFF) 0x7FFFFFFF) 2"
    using one(2) [of "?upd (?upd c 0x7FFFFFFF) 0x7FFFFFFF"] pool st c2 tpc by simp
  show ?thesis unfolding c3 unfolding c2 by (simp add: zero dropDispatches_def Let_def sint_if)
qed

definition sample_batch :: "ice_int \<Rightarrow> stream" where
  "sample_batch k = stream_new 1000\<lparr>buf := take 14 requestBatchHdr @ le_bytes k, rpos := 18\<rparr>"

lemma sample_batch_delivered: "delivered (sample_batch k) requestBatchMsg (le_bytes k @ [])"
  unfolding delivered_def sample_batch_def
  by (intro conjI exI [of _ "magic @ [protocolMajor, protocolMinor, encodingMajor, encodingMinor]"] exI [of _ 0] exI [of _ "[0, 0, 0, 0]"])
    (simp_all add: requestBatchHdr_def magic_def stream_new_def)

theorem dispatch_count_overflow_witness:
  "let recv = (\<lambda>k d. snd (receiveMessage False store_bz 0 (\<lambda>_ _. None) calm_io (sample_batch k) d))
   in sint (conn_dispatchCount (recv 0x7FFFFFFF (recv 0x7FFFFFFF active_conn))) = - 2"
  using dispatch_count_overflow [of active_conn, OF _ _ _ sample_batch_delivered sample_batch_delivered]
  by (simp add: sample_conns Let_def)

end
