(* ===== verification/StringUtil.thy ===== *)
theory StringUtil
  imports LocalException
begin

text \<open>
  The string helpers of \<^verbatim>\<open>src/Ice-3.1.1/src/IceUtil/StringUtil.cpp\<close>: the escape sequences
  used in stringified identities, facets and proxies, the search for a closing quote, and the
  wildcard match used to validate property names.  A \<open>std::string\<close> is a list of
  characters, positions are natural numbers, \<open>std::string::npos\<close> is \<open>None\<close>, and an
  \<open>IllegalArgumentException\<close> is a left value that carries its reason.
\<close>

section \<open>Model\<close>

datatype illegal_argument = IllegalArgumentException string

abbreviation BSLASH :: char where "BSLASH \<equiv> CHR 0x5C"
abbreviation SQUOTE :: char where "SQUOTE \<equiv> CHR 0x27"
abbreviation DQUOTE :: char where "DQUOTE \<equiv> CHR 0x22"

text \<open>The do-while loop of \<open>toOctalString\<close>: \<open>n & 7\<close> is \<open>n mod 8\<close>, \<open>n >>= 3\<close> is \<open>n div 8\<close>.\<close>

fun octalLoop :: "nat \<Rightarrow> string \<Rightarrow> string" where
  "octalLoop n s =
     (let s' = char_of (48 + n mod 8) # s; n' = n div 8
      in if n' \<noteq> 0 then octalLoop n' s' else s')"

declare octalLoop.simps [simp del]

definition toOctalString :: "nat \<Rightarrow> string" where
  "toOctalString n = octalLoop n []"

text \<open>What \<open>encodeChar(b, s, special)\<close> appends to \<open>s\<close>.\<close>

definition encodeChar :: "char \<Rightarrow> string \<Rightarrow> string" where
  "encodeChar b special =
     (if b = BSLASH then [BSLASH, BSLASH]
      else if b = SQUOTE then [BSLASH, SQUOTE]
      else if b = DQUOTE then [BSLASH, DQUOTE]
      else if b = CHR 0x08 then [BSLASH, CHR ''b'']
      else if b = CHR 0x0C then [BSLASH, CHR ''f'']
      else if b = CHR 0x0A then [BSLASH, CHR ''n'']
      else if b = CHR 0x0D then [BSLASH, CHR ''r'']
      else if b = CHR 0x09 then [BSLASH, CHR ''t'']
      else let i = (of_char b :: nat) in
        if \<not> (i \<ge> 32 \<and> i \<le> 126) then
          let octal = toOctalString i
          in [BSLASH] @ replicate (3 - length octal) (CHR ''0'') @ octal
        else if b \<in> set special then [BSLASH, b]
        else [b])"

definition escapeString :: "string \<Rightarrow> string \<Rightarrow> illegal_argument + string" where
  "escapeString s special =
     (if \<exists>c \<in> set special. (of_char c :: nat) < 32 \<or> (of_char c :: nat) > 126
      then Inl (IllegalArgumentException ''special characters must be in ASCII range 32-126'')
      else Inr (concat (map (\<lambda>b. encodeChar b special) s)))"

definition checkChar :: "char \<Rightarrow> illegal_argument + char" where
  "checkChar c =
     (if \<not> ((of_char c :: nat) \<ge> 32 \<and> (of_char c :: nat) \<le> 126)
      then Inl (IllegalArgumentException ''illegal input character'') else Inr c)"

text \<open>The octal loop of \<open>decodeChar\<close>: at most \<open>k\<close> more digits, from position \<open>start\<close>.\<close>

fun octLoop :: "string \<Rightarrow> nat \<Rightarrow> nat \<Rightarrow> nat \<Rightarrow> int \<Rightarrow> int \<times> nat" where
  "octLoop s 0 start fin oct = (oct, start)"
| "octLoop s (Suc k) start fin oct =
     (if start < fin then
        let charVal = int (of_char (s ! start)) - 48
        in if charVal < 0 \<or> charVal > 7 then (oct, start)
           else octLoop s k (start + 1) fin (oct * 8 + charVal)
      else (oct, start))"

definition isOctalDigit :: "char \<Rightarrow> bool" where
  "isOctalDigit c \<longleftrightarrow> 48 \<le> (of_char c :: nat) \<and> (of_char c :: nat) \<le> 55"

text \<open>\<open>decodeChar(s, start, end, nextStart)\<close>: the character and the value of \<open>nextStart\<close>.\<close>

definition decodeChar :: "string \<Rightarrow> nat \<Rightarrow> nat \<Rightarrow> illegal_argument + char \<times> nat" where
  "decodeChar s start fin =
     (if s ! start \<noteq> BSLASH then
        andThen (checkChar (s ! start)) (\<lambda>c. Inr (c, start + 1))
      else if start + 1 = fin then
        Inl (IllegalArgumentException ''trailing backslash in argument'')
      else let e = s ! (start + 1) in
        if e = BSLASH \<or> e = SQUOTE \<or> e = DQUOTE then Inr (e, start + 2)
        else if e = CHR ''b'' then Inr (CHR 0x08, start + 2)
        else if e = CHR ''f'' then Inr (CHR 0x0C, start + 2)
        else if e = CHR ''n'' then Inr (CHR 0x0A, start + 2)
        else if e = CHR ''r'' then Inr (CHR 0x0D, start + 2)
        else if e = CHR ''t'' then Inr (CHR 0x09, start + 2)
        else if isOctalDigit e then
          (case octLoop s 3 (start + 1) fin 0 of (oct, next) \<Rightarrow>
             if oct > 255 then Inl (IllegalArgumentException ''octal value out of range'')
             else Inr (char_of (nat oct), next))
        else andThen (checkChar e) (\<lambda>c. Inr (c, start + 2)))"

lemma octLoop_mono: "octLoop s k start fin oct = (r, next) \<Longrightarrow> start \<le> next"
  by (induction k arbitrary: start oct) (auto simp: Let_def split: if_splits dest: Suc_leD)

lemma decodeChar_progress: "decodeChar s start fin = Inr (c, next) \<Longrightarrow> start < next"
  by (auto simp: decodeChar_def Let_def result_simps split: if_splits prod.splits dest!: octLoop_mono)

text \<open>
  \<open>decodeString(s, start, end, sb)\<close>: the exception that stopped the loop, if any, and the
  contents of \<open>sb\<close> at that point.
\<close>

function decodeString :: "string \<Rightarrow> nat \<Rightarrow> nat \<Rightarrow> string \<Rightarrow> illegal_argument option \<times> string" where
  "decodeString s start fin sb =
     (if start < fin then
        (case decodeChar s start fin of
           Inl e \<Rightarrow> (Some e, sb)
         | Inr (c, next) \<Rightarrow> decodeString s next fin (sb @ [c]))
      else (None, sb))"
  by pat_completeness auto
termination
  by (relation "measure (\<lambda>(s, start, fin, sb). fin - start)") (auto dest: decodeChar_progress)

declare decodeString.simps [simp del]

text \<open>\<open>unescapeString(s, start, end, result)\<close>: the returned flag and the final \<open>result\<close>.\<close>

definition unescapeString :: "string \<Rightarrow> nat \<Rightarrow> nat \<Rightarrow> illegal_argument + bool \<times> string" where
  "unescapeString s start fin =
     (if fin > length s then
        Inl (IllegalArgumentException ''end offset must be <= s.size()'')
      else if start > fin then
        Inl (IllegalArgumentException ''start offset must <= end offset'')
      else (case decodeString s start fin [] of
              (None, result) \<Rightarrow> Inr (True, result)
            | (Some e, result) \<Rightarrow> Inr (False, result)))"


text \<open>
  \<open>checkQuote(s, start)\<close>.  Reading a constant string at its size yields the null character,
  so the first read is total up to \<open>start = s.size()\<close>.
\<close>

definition charAt :: "string \<Rightarrow> nat \<Rightarrow> char" where
  "charAt s k = (if k < length s then s ! k else CHR 0x00)"

function quoteLoop :: "char \<Rightarrow> string \<Rightarrow> nat \<Rightarrow> nat option" where
  "quoteLoop q s start =
     (if start < length s then
        (case str_find (\<lambda>c. c = q) s start of
           None \<Rightarrow> None
         | Some pos \<Rightarrow> if s ! (pos - 1) \<noteq> BSLASH then Some pos else quoteLoop q s (pos + 1))
      else None)"
  by pat_completeness auto
termination
  by (relation "measure (\<lambda>(q, s, start). length s - start)") (auto dest: str_find_SomeD(1))

declare quoteLoop.simps [simp del]

definition checkQuote :: "string \<Rightarrow> nat \<Rightarrow> nat option" where
  "checkQuote s start =
     (let quoteChar = charAt s start
      in if quoteChar = DQUOTE \<or> quoteChar = SQUOTE then quoteLoop quoteChar s (start + 1) else Some 0)"

text \<open>
  \<open>match(s, pat, matchPeriod)\<close>, which asserts that neither string is empty.  The do-while loop tests
  its condition after the body, so a call of \<open>matchLoop\<close> starts with both indices in range.
  \<open>starSkip\<close> is the inner while loop.
\<close>

function starSkip :: "string \<Rightarrow> bool \<Rightarrow> nat \<Rightarrow> nat" where
  "starSkip s matchPeriod sIndex =
     (if sIndex < length s \<and> (matchPeriod \<or> s ! sIndex \<noteq> CHR ''.'')
      then starSkip s matchPeriod (sIndex + 1) else sIndex)"
  by pat_completeness auto
termination
  by (relation "measure (\<lambda>(s, m, k). length s - k)") auto

declare starSkip.simps [simp del]

function matchLoop :: "string \<Rightarrow> string \<Rightarrow> bool \<Rightarrow> nat \<Rightarrow> nat \<Rightarrow> bool" where
  "matchLoop s pat matchPeriod sIndex patIndex =
     (if sIndex < length s \<and> patIndex < length pat then
        if pat ! patIndex = CHR ''*'' then
          if \<not> matchPeriod \<and> s ! sIndex = CHR ''.'' then False
          else matchLoop s pat matchPeriod (starSkip s matchPeriod sIndex) (patIndex + 1)
        else if pat ! patIndex \<noteq> s ! sIndex then False
        else matchLoop s pat matchPeriod (sIndex + 1) (patIndex + 1)
      else sIndex = length s \<and> patIndex = length pat)"
  by pat_completeness auto
termination
  by (relation "measure (\<lambda>(s, pat, m, sk, pk). length pat - pk)") auto

declare matchLoop.simps [simp del]

definition match :: "string \<Rightarrow> string \<Rightarrow> bool \<Rightarrow> failure + bool" where
  "match s pat matchPeriod =
     (if s = [] \<or> pat = [] then Inl AssertionFailed
      else Inr (if CHR ''*'' \<notin> set pat then s = pat else matchLoop s pat matchPeriod 0 0))"

section \<open>Escape sequences\<close>

lemma octalLoop_small:
  "i < 256 \<Longrightarrow> replicate (3 - length (toOctalString i)) (CHR ''0'') @ toOctalString i =
     [char_of (48 + i div 64), char_of (48 + i div 8 mod 8), char_of (48 + i mod 8)]"
proof -
  assume i: "i < 256"
  have z: "CHR ''0'' = char_of (48::nat)" by code_simp
  consider "i < 8" | "8 \<le> i" "i < 64" | "64 \<le> i" by linarith
  then show ?thesis
  proof cases
    case 1
    then show ?thesis
      by (simp add: toOctalString_def octalLoop.simps [of i] z numeral_3_eq_3)
  next
    case 2
    then have "i div 8 \<noteq> 0" "i div 8 div 8 = 0" "i div 64 = 0" "i div 8 mod 8 = i div 8"
      by auto
    then show ?thesis
      by (simp add: toOctalString_def octalLoop.simps [of i] octalLoop.simps [of "i div 8"] z Let_def)
  next
    case 3
    then have "i div 8 \<noteq> 0" "i div 8 div 8 = i div 64" "i div 64 \<noteq> 0" "i div 64 div 8 = 0" "i div 64 mod 8 = i div 64"
      using i by auto
    then show ?thesis
      by (simp add: toOctalString_def octalLoop.simps [of i] octalLoop.simps [of "i div 8"]
          octalLoop.simps [of "i div 64"] Let_def)
  qed
qed


text \<open>Characters a client may pass in \<open>special\<close> without changing what an escape means.\<close>

definition plainSpecial :: "string \<Rightarrow> bool" where
  "plainSpecial special \<longleftrightarrow>
     (\<forall>c \<in> set special. c \<notin> set ''bfnrt'' \<and> \<not> isOctalDigit c \<and>
        32 \<le> (of_char c :: nat) \<and> (of_char c :: nat) \<le> 126)"

lemma of_char_octal [simp]:
  "k < 8 \<Longrightarrow> (of_char (char_of (48 + k) :: char) :: nat) = 48 + k" for k :: nat
  by simp

lemma octLoop_three:
  assumes "fin \<ge> length pre + 3" and "a < 8" "b < 8" "c < 8"
  shows "octLoop (pre @ char_of (48 + a) # char_of (48 + b) # char_of (48 + c) # post) 3 (length pre) fin 0
    = (int (a * 64 + b * 8 + c), length pre + 3)"
  using assms by (simp add: numeral_3_eq_3 nth_append algebra_simps)


lemma decodeChar_octal:
  fixes i :: nat
  assumes i: "i < 256" and fin: "fin \<ge> length pre + 4"
  shows "decodeChar (pre @ BSLASH # char_of (48 + i div 64) # char_of (48 + i div 8 mod 8) # char_of (48 + i mod 8) # post)
           (length pre) fin = Inr (char_of i, length pre + 4)"
proof -
  let ?s = "pre @ BSLASH # char_of (48 + i div 64) # char_of (48 + i div 8 mod 8) # char_of (48 + i mod 8) # post"
  let ?d = "char_of (48 + i div 64) :: char"
  have d: "(of_char ?d :: nat) = 48 + i div 64" using i by simp
  have neq: "?d \<noteq> BSLASH" "?d \<noteq> SQUOTE" "?d \<noteq> DQUOTE" "?d \<noteq> CHR ''b''" "?d \<noteq> CHR ''f''"
    "?d \<noteq> CHR ''n''" "?d \<noteq> CHR ''r''" "?d \<noteq> CHR ''t''"
    using i by (auto dest!: arg_cong [where f = "of_char :: char \<Rightarrow> nat"])
  have oct: "isOctalDigit ?d" using d i by (auto simp: isOctalDigit_def)
  have loop: "octLoop ?s 3 (length pre + 1) fin 0 = (int i, length pre + 4)"
  proof -
    have "octLoop ((pre @ [BSLASH]) @ char_of (48 + i div 64) # char_of (48 + i div 8 mod 8) # char_of (48 + i mod 8) # post)
        3 (length (pre @ [BSLASH])) fin 0 = (int (i div 64 * 64 + i div 8 mod 8 * 8 + i mod 8), length (pre @ [BSLASH]) + 3)"
      by (rule octLoop_three [of "pre @ [BSLASH]" fin "i div 64" "i div 8 mod 8" "i mod 8" post])
        (use i fin in simp_all)
    moreover have "i div 64 = i div 8 div 8" by (simp flip: div_mult2_eq)
    then have "i div 64 * 64 + i div 8 mod 8 * 8 + i mod 8 = i"
      using div_mult_mod_eq [of "i div 8" 8] div_mult_mod_eq [of i 8] by linarith
    ultimately show ?thesis by simp
  qed
  show ?thesis
    using neq oct loop fin i by (simp add: decodeChar_def nth_append)
qed

lemma encodeChar_named:
  "encodeChar BSLASH special = [BSLASH, BSLASH]"
  "encodeChar SQUOTE special = [BSLASH, SQUOTE]"
  "encodeChar DQUOTE special = [BSLASH, DQUOTE]"
  "encodeChar (CHR 0x08) special = [BSLASH, CHR ''b'']"
  "encodeChar (CHR 0x0C) special = [BSLASH, CHR ''f'']"
  "encodeChar (CHR 0x0A) special = [BSLASH, CHR ''n'']"
  "encodeChar (CHR 0x0D) special = [BSLASH, CHR ''r'']"
  "encodeChar (CHR 0x09) special = [BSLASH, CHR ''t'']"
  by (simp_all add: encodeChar_def)

lemma decodeChar_encodeChar:
  assumes sp: "plainSpecial special" and fin: "fin \<ge> length pre + length (encodeChar b special)"
  shows "decodeChar (pre @ encodeChar b special @ post) (length pre) fin
           = Inr (b, length pre + length (encodeChar b special))"
proof -
  let ?i = "of_char b :: nat"
  let ?named = "{BSLASH, SQUOTE, DQUOTE, CHR 0x08, CHR 0x0C, CHR 0x0A, CHR 0x0D, CHR 0x09}"
  consider (named) "b \<in> ?named" | (octal) "b \<notin> ?named" "\<not> (32 \<le> ?i \<and> ?i \<le> 126)"
    | (print) "b \<notin> ?named" "32 \<le> ?i \<and> ?i \<le> 126"
    by argo
  then show ?thesis
  proof cases
    case named
    then show ?thesis
      using fin by (elim insertE emptyE) (simp_all add: encodeChar_named decodeChar_def nth_append)
  next
    case octal
    have i: "?i < 256" by simp
    have enc: "encodeChar b special = BSLASH # char_of (48 + ?i div 64) # char_of (48 + ?i div 8 mod 8) # [char_of (48 + ?i mod 8)]"
      using octal octalLoop_small [OF i] by (auto simp: encodeChar_def Let_def)
    show ?thesis
      using decodeChar_octal [OF i, of pre fin post] fin by (simp add: enc)
  next
    case print
    show ?thesis
    proof (cases "b \<in> set special")
      case True
      then have "b \<notin> set ''bfnrt''" "\<not> isOctalDigit b" using sp by (auto simp: plainSpecial_def)
      then show ?thesis
        using print True fin by (auto simp: encodeChar_def decodeChar_def checkChar_def nth_append)
    next
      case False
      then show ?thesis
        using print fin by (auto simp: encodeChar_def decodeChar_def checkChar_def nth_append)
    qed
  qed
qed

lemma encodeChar_nonempty: "encodeChar b special \<noteq> []"
  by (simp add: encodeChar_def Let_def)

lemma decodeString_escaped:
  assumes sp: "plainSpecial special"
  shows "decodeString (pre @ concat (map (\<lambda>b. encodeChar b special) s) @ post) (length pre)
           (length pre + length (concat (map (\<lambda>b. encodeChar b special) s))) sb = (None, sb @ s)"
proof (induction s arbitrary: pre sb)
  case Nil
  then show ?case by (simp add: decodeString.simps)
next
  case (Cons b s)
  let ?e = "encodeChar b special" and ?r = "concat (map (\<lambda>b. encodeChar b special) s)"
  have "decodeChar (pre @ ?e @ (?r @ post)) (length pre) (length pre + length ?e + length ?r)
      = Inr (b, length pre + length ?e)"
    by (rule decodeChar_encodeChar [OF sp]) simp
  moreover have "length ?e > 0" by (simp add: encodeChar_nonempty)
  moreover have "decodeString ((pre @ ?e) @ ?r @ post) (length (pre @ ?e)) (length (pre @ ?e) + length ?r) (sb @ [b])
      = (None, (sb @ [b]) @ s)"
    by (rule Cons.IH)
  ultimately show ?case
    by (subst decodeString.simps) (simp add: add.assoc)
qed

lemma escapeString_Inr:
  assumes "plainSpecial special"
  shows "escapeString s special = Inr (concat (map (\<lambda>b. encodeChar b special) s))"
  using assms by (fastforce simp: escapeString_def plainSpecial_def)

lemma unescapeString_escaped:
  assumes "plainSpecial special" and "escapeString s special = Inr e"
  shows "unescapeString (pre @ e @ post) (length pre) (length pre + length e) = Inr (True, s)"
  using assms decodeString_escaped [OF assms(1), of pre s post "[]"]
  by (simp add: unescapeString_def escapeString_Inr)

text \<open>
  Un-escaping the whole output of \<open>escapeString\<close> gives back the original string,
  for every string and every set of special characters that does not clash with the letters and
  digits that have a meaning after a backslash.
\<close>

lemma unescape_escape:
  assumes "plainSpecial special"
  shows "\<exists>e. escapeString s special = Inr e \<and> unescapeString e 0 (length e) = Inr (True, s)"
  using unescapeString_escaped [OF assms escapeString_Inr [OF assms], of "[]" s "[]"]
  by (simp add: escapeString_Inr [OF assms])


lemma unescape_escape_witness:
  "\<exists>e. escapeString [CHR ''a'', CHR ''/'', CHR 0x0A, CHR 0x01, CHR ''3''] ''/'' = Inr e
     \<and> unescapeString e 0 (length e) = Inr (True, [CHR ''a'', CHR ''/'', CHR 0x0A, CHR 0x01, CHR ''3''])"
  by (rule unescape_escape) (simp add: plainSpecial_def isOctalDigit_def)

lemma encodeChar_printable:
  assumes "c \<in> set (encodeChar b special)"
  shows "32 \<le> (of_char c :: nat) \<and> (of_char c :: nat) \<le> 126"
proof (cases "b \<in> {BSLASH, SQUOTE, DQUOTE, CHR 0x08, CHR 0x0C, CHR 0x0A, CHR 0x0D, CHR 0x09}")
  case True
  then show ?thesis
    using assms by (elim insertE emptyE) (auto simp: encodeChar_named)
next
  case False
  let ?i = "of_char b :: nat"
  have i: "?i < 256" by simp
  have "?i div 64 < 8" using i by linarith
  moreover have "?i div 8 mod 8 < 8" "?i mod 8 < 8" by simp_all
  ultimately show ?thesis
    using assms False octalLoop_small [OF i]
    by (auto simp: encodeChar_def Let_def split: if_splits)
qed

text \<open>
  The output of \<open>escapeString\<close> consists of printable ASCII characters only, whatever
  bytes the argument holds.
\<close>

theorem escapeString_printable:
  assumes "escapeString s special = Inr e" and "c \<in> set e"
  shows "32 \<le> (of_char c :: nat) \<and> (of_char c :: nat) \<le> 126"
  using assms by (auto simp: escapeString_def dest: encodeChar_printable split: if_splits)

theorem escapeString_printable_witness:
  "32 \<le> (of_char (CHR ''0'') :: nat) \<and> (of_char (CHR ''0'') :: nat) \<le> 126"
  by (rule escapeString_printable [of "[CHR 0x01]" "[]" "[BSLASH, CHR ''0'', CHR ''0'', CHR ''1'']"])
    code_simp+

section \<open>Closing quotes\<close>

lemma quoteLoop_spec:
  assumes "start > 0"
  shows "case quoteLoop q s start of
           Some p \<Rightarrow> start \<le> p \<and> p < length s \<and> s ! p = q \<and> s ! (p - 1) \<noteq> BSLASH \<and>
                     (\<forall>j. start \<le> j \<and> j < p \<and> s ! j = q \<longrightarrow> s ! (j - 1) = BSLASH)
         | None \<Rightarrow> \<forall>j. start \<le> j \<and> j < length s \<and> s ! j = q \<longrightarrow> s ! (j - 1) = BSLASH"
  using assms
proof (induction q s start rule: quoteLoop.induct)
  case (1 q s start)
  show ?case
  proof (cases "start < length s")
    case False
    then show ?thesis by (auto simp: quoteLoop.simps [of q s start])
  next
    case True
    show ?thesis
    proof (cases "str_find (\<lambda>c. c = q) s start")
      case None
      then have "s ! j \<noteq> q" if "start \<le> j" "j < length s" for j
        using that str_find_NoneD [OF None] by blast
      with None True show ?thesis by (auto simp: quoteLoop.simps [of q s start])
    next
      case (Some pos)
      note f = str_find_SomeD [OF Some]
      show ?thesis
      proof (cases "s ! (pos - 1) = BSLASH")
        case False
        with Some True f show ?thesis by (auto simp: quoteLoop.simps [of q s start])
      next
        case bs: True
        have unfold: "quoteLoop q s start = quoteLoop q s (pos + 1)"
          using Some True bs by (simp add: quoteLoop.simps [of q s start])
        have step: "s ! (j - 1) = BSLASH" if "start \<le> j" "j < pos + 1" "s ! j = q" for j
          using that f(4) bs by (cases "j = pos") auto
        from 1(1) [OF True Some] bs
        show ?thesis
          unfolding unfold using step f(1)
          by (auto split: option.splits) (metis Suc_leI not_less)+
      qed
    qed
  qed
qed


text \<open>
  on a string that starts with a quote at \<open>start\<close>, \<open>checkQuote\<close> returns the position
  of the first later quote of the same kind that is not directly preceded by a backslash, and
  \<open>npos\<close> exactly when there is none; on any other character it returns 0.
\<close>

theorem checkQuote_spec:
  "case checkQuote s start of
     None \<Rightarrow> charAt s start \<in> {DQUOTE, SQUOTE} \<and>
       (\<forall>j. start < j \<and> j < length s \<and> s ! j = charAt s start \<longrightarrow> s ! (j - 1) = BSLASH)
   | Some p \<Rightarrow>
       if charAt s start \<in> {DQUOTE, SQUOTE} then
         start < p \<and> p < length s \<and> s ! p = charAt s start \<and> s ! (p - 1) \<noteq> BSLASH \<and>
         (\<forall>j. start < j \<and> j < p \<and> s ! j = charAt s start \<longrightarrow> s ! (j - 1) = BSLASH)
       else p = 0"
  using quoteLoop_spec [where start = "start + 1" and q = "charAt s start" and s = s]
  by (auto simp: checkQuote_def Let_def Suc_le_eq split: option.splits)

theorem checkQuote_spec_witness:
  "case checkQuote [DQUOTE, CHR ''a'', BSLASH, DQUOTE, CHR ''b'', DQUOTE] 0 of
     None \<Rightarrow> False
   | Some p \<Rightarrow> p = 5 \<and> [DQUOTE, CHR ''a'', BSLASH, DQUOTE, CHR ''b'', DQUOTE] ! (p - 1) \<noteq> BSLASH"
proof -
  have "checkQuote [DQUOTE, CHR ''a'', BSLASH, DQUOTE, CHR ''b'', DQUOTE] 0 = Some 5" by code_simp
  then show ?thesis
    using checkQuote_spec [of "[DQUOTE, CHR ''a'', BSLASH, DQUOTE, CHR ''b'', DQUOTE]" 0]
    by (simp add: charAt_def)
qed

section \<open>Wildcards\<close>

text \<open>
  The declarative reading of the comment above \<open>match\<close>: a star stands for any non-empty
  sequence of characters, without a period unless \<open>matchPeriod\<close> holds.
\<close>

fun glob :: "bool \<Rightarrow> string \<Rightarrow> string \<Rightarrow> bool" where
  "glob m s [] = (s = [])"
| "glob m s (p # ps) =
     (if p = CHR ''*'' then
        \<exists>k \<in> {1..length s}. (\<forall>c \<in> set (take k s). m \<or> c \<noteq> CHR ''.'') \<and> glob m (drop k s) ps
      else s \<noteq> [] \<and> hd s = p \<and> glob m (tl s) ps)"

text \<open>
  Every star ends the pattern or, when a star does not stand for periods, comes before one: the greedy star of the code
  stops where it has to.
\<close>

fun starsDelimited :: "bool \<Rightarrow> string \<Rightarrow> bool" where
  "starsDelimited m [] = True"
| "starsDelimited m (p # ps) =
     ((p = CHR ''*'' \<longrightarrow> ps = [] \<or> \<not> m \<and> hd ps = CHR ''.'') \<and> starsDelimited m ps)"

lemma starSkip_run:
  assumes "k \<le> length s"
  shows "starSkip s m k = k + length (takeWhile (\<lambda>c. m \<or> c \<noteq> CHR ''.'') (drop k s))"
  using assms
proof (induction s m k rule: starSkip.induct)
  case (1 s m k)
  show ?case
  proof (cases "k < length s \<and> (m \<or> s ! k \<noteq> CHR ''.'')")
    case True
    then have "drop k s = s ! k # drop (Suc k) s" by (simp add: Cons_nth_drop_Suc)
    with True 1 show ?thesis by (simp add: starSkip.simps [of s m k])
  next
    case False
    then have "starSkip s m k = k" by (auto simp: starSkip.simps [of s m k])
    moreover have "takeWhile (\<lambda>c. m \<or> c \<noteq> CHR ''.'') (drop k s) = []"
      using False 1(2) by (auto simp: takeWhile_eq_Nil_iff hd_drop_conv_nth)
    ultimately show ?thesis by simp
  qed
qed

lemma glob_star:
  "glob m s (CHR ''*'' # ps) \<longleftrightarrow>
     (\<exists>k. 1 \<le> k \<and> k \<le> length s \<and> (\<forall>c \<in> set (take k s). m \<or> c \<noteq> CHR ''.'') \<and> glob m (drop k s) ps)"
  by (simp only: glob.simps atLeastAtMost_iff Bex_def simp_thms if_True conj_assoc)

lemma glob_lit [simp]:
  "p \<noteq> CHR ''*'' \<Longrightarrow> glob m s (p # ps) \<longleftrightarrow> s \<noteq> [] \<and> hd s = p \<and> glob m (tl s) ps"
  by simp

declare glob.simps(2) [simp del]

lemma glob_no_star: "CHR ''*'' \<notin> set pat \<Longrightarrow> glob m s pat = (s = pat)"
proof (induction pat arbitrary: s)
  case Nil
  then show ?case by simp
next
  case (Cons p ps)
  then have "p \<noteq> CHR ''*''" and IH: "\<And>t. glob m t ps = (t = ps)" by auto
  then show ?case by (cases s) (simp_all add: IH)
qed

lemma matchLoop_sound:
  assumes "matchLoop s pat m sk pk" and "sk \<le> length s" and "pk \<le> length pat"
  shows "glob m (drop sk s) (drop pk pat)"
  using assms
proof (induction s pat m sk pk rule: matchLoop.induct)
  case (1 s pat m sk pk)
  show ?case
  proof (cases "sk < length s \<and> pk < length pat")
    case False
    then show ?thesis using 1(3) by (auto simp: matchLoop.simps [of s pat m sk pk])
  next
    case True
    have dp: "drop pk pat = pat ! pk # drop (Suc pk) pat"
      and ds: "drop sk s = s ! sk # drop (Suc sk) s"
      using True by (simp_all add: Cons_nth_drop_Suc)
    show ?thesis
    proof (cases "pat ! pk = CHR ''*''")
      case star: True
      let ?run = "takeWhile (\<lambda>c. m \<or> c \<noteq> CHR ''.'') (drop sk s)"
      have nodot: "m \<or> s ! sk \<noteq> CHR ''.''" and rest: "matchLoop s pat m (starSkip s m sk) (pk + 1)"
        using 1(3) True star by (auto simp: matchLoop.simps [of s pat m sk pk] split: if_splits)
      have skip: "starSkip s m sk = sk + length ?run" using True by (simp add: starSkip_run)
      have len: "length ?run \<le> length s - sk" by (metis length_drop length_takeWhile_le)
      have pos: "1 \<le> length ?run" using nodot ds by simp
      have "glob m (drop (starSkip s m sk) s) (drop (pk + 1) pat)"
        using 1(1) [OF True star] nodot rest True len skip by auto
      then have "glob m (drop (length ?run) (drop sk s)) (drop (Suc pk) pat)"
        by (simp add: skip add.commute)
      moreover have "\<forall>c \<in> set (take (length ?run) (drop sk s)). m \<or> c \<noteq> CHR ''.''"
        by (subst takeWhile_eq_take [symmetric]) (auto dest: set_takeWhileD)
      moreover have "length ?run \<le> length (drop sk s)" using len by simp
      ultimately show ?thesis
        unfolding dp star glob_star using pos by blast
    next
      case False
      then have "pat ! pk = s ! sk" and "matchLoop s pat m (sk + 1) (pk + 1)"
        using 1(3) True by (auto simp: matchLoop.simps [of s pat m sk pk] split: if_splits)
      then show ?thesis
        using 1(2) [OF True False] True False by (auto simp: dp ds)
    qed
  qed
qed


abbreviation starred :: "bool \<Rightarrow> char \<Rightarrow> bool" where
  "starred m c \<equiv> m \<or> c \<noteq> CHR ''.''"

lemma glob_star_greedy:
  assumes g: "glob m xs (CHR ''*'' # ps)" and ps: "ps = [] \<or> \<not> m \<and> hd ps = CHR ''.''"
  shows "takeWhile (starred m) xs \<noteq> []" and "glob m (dropWhile (starred m) xs) ps"
proof -
  from g obtain k where k: "1 \<le> k" "k \<le> length xs" and nodot: "\<forall>c \<in> set (take k xs). starred m c"
    and rest: "glob m (drop k xs) ps"
    by (auto simp only: glob_star simp_thms)
  have stop: "takeWhile (starred m) (drop k xs) = []"
    using ps rest by (cases ps) (auto simp: takeWhile_eq_Nil_iff)
  have "takeWhile (starred m) xs = take k xs"
  proof -
    have "takeWhile (starred m) (take k xs @ drop k xs) = take k xs @ takeWhile (starred m) (drop k xs)"
      using nodot by (intro takeWhile_append2) blast
    then show ?thesis using stop by simp
  qed
  moreover have "dropWhile (starred m) xs = drop k xs"
  proof -
    have "dropWhile (starred m) (take k xs @ drop k xs) = dropWhile (starred m) (drop k xs)"
      using nodot by (intro dropWhile_append2) blast
    then show ?thesis using stop by (simp add: dropWhile_eq_self_iff takeWhile_eq_Nil_iff)
  qed
  ultimately show "takeWhile (starred m) xs \<noteq> []" and "glob m (dropWhile (starred m) xs) ps"
    using k rest by auto
qed

lemma starsDelimited_drop: "starsDelimited m pat \<Longrightarrow> starsDelimited m (drop k pat)"
proof (induction pat arbitrary: k)
  case (Cons p ps)
  then show ?case by (cases k) auto
qed simp

lemma matchLoop_complete:
  assumes "glob m (drop sk s) (drop pk pat)" and "starsDelimited m pat"
    and "sk \<le> length s" and "pk \<le> length pat"
  shows "matchLoop s pat m sk pk"
  using assms
proof (induction s pat m sk pk rule: matchLoop.induct)
  case (1 s pat m sk pk)
  show ?case
  proof (cases "sk < length s \<and> pk < length pat")
    case False
    show ?thesis
    proof (cases "pk = length pat")
      case True
      then show ?thesis using 1(3,5) by (subst matchLoop.simps) simp
    next
      case pk: False
      then have "drop pk pat = pat ! pk # drop (Suc pk) pat" and "drop sk s = []"
        using False 1(5,6) by (simp_all add: Cons_nth_drop_Suc)
      then show ?thesis using 1(3) by (cases "pat ! pk = CHR ''*''") (auto simp: glob_star)
    qed
  next
    case True
    have dp: "drop pk pat = pat ! pk # drop (Suc pk) pat"
      and ds: "drop sk s = s ! sk # drop (Suc sk) s"
      using True by (simp_all add: Cons_nth_drop_Suc)
    show ?thesis
    proof (cases "pat ! pk = CHR ''*''")
      case star: True
      have "starsDelimited m (drop pk pat)" using 1(4) by (rule starsDelimited_drop)
      then have ps: "drop (Suc pk) pat = [] \<or> \<not> m \<and> hd (drop (Suc pk) pat) = CHR ''.''"
        using star by (simp add: dp)
      note g = glob_star_greedy [OF _ ps, of "drop sk s"]
      have nodot: "starred m (s ! sk)" and rest: "glob m (dropWhile (starred m) (drop sk s)) (drop (Suc pk) pat)"
        using g 1(3) star by (simp_all add: dp ds split: if_splits)
      have "starSkip s m sk = sk + length (takeWhile (starred m) (drop sk s))"
        using True by (simp add: starSkip_run)
      moreover have "sk + length (takeWhile (starred m) (drop sk s)) \<le> length s"
        using length_takeWhile_le [of "starred m" "drop sk s"] True by simp linarith
      ultimately have "matchLoop s pat m (starSkip s m sk) (pk + 1)"
        using 1(1) [OF True star] nodot rest 1(4) True by (simp add: dropWhile_eq_drop add.commute)
      then show ?thesis
        using True star nodot by (simp add: matchLoop.simps [of s pat m sk pk])
    next
      case False
      then have "matchLoop s pat m (sk + 1) (pk + 1)"
        using 1 True by (auto simp: dp ds)
      then show ?thesis
        using True False 1(3) by (auto simp: dp ds matchLoop.simps [of s pat m sk pk])
    qed
  qed
qed

text \<open>When a star stands for periods as well, it takes all that is left, and nothing matches behind it.\<close>

lemma matchLoop_rest:
  assumes "matchLoop s pat True sk pk" and "sk \<le> length s" and "pk \<le> length pat"
  shows "starsDelimited True (drop pk pat)"
  using assms
proof (induction s pat True sk pk rule: matchLoop.induct)
  case (1 s pat sk pk)
  show ?case
  proof (cases "sk < length s \<and> pk < length pat")
    case False
    then show ?thesis using 1(3) by (auto simp: matchLoop.simps [of s pat True sk pk])
  next
    case True
    have dp: "drop pk pat = pat ! pk # drop (Suc pk) pat" using True by (simp add: Cons_nth_drop_Suc)
    show ?thesis
    proof (cases "pat ! pk = CHR ''*''")
      case star: True
      have "starSkip s True sk = length s" using True by (simp add: starSkip_run takeWhile_eq_all_conv [THEN iffD2])
      then have "matchLoop s pat True (length s) (pk + 1)"
        using 1(3) True star by (simp add: matchLoop.simps [of s pat True sk pk])
      then have "pk + 1 = length pat" by (subst (asm) matchLoop.simps) simp
      then show ?thesis by (simp add: dp)
    next
      case False
      then have "pat ! pk = s ! sk" "matchLoop s pat True (sk + 1) (pk + 1)"
        using 1(3) True by (simp_all add: matchLoop.simps [of s pat True sk pk] split: if_splits)
      then show ?thesis using 1(2) [OF True False] False True by (simp add: dp)
    qed
  qed
qed

text \<open>
  C40: what \<open>match\<close> accepts, in both of its modes.  An empty string or pattern violates an assertion.  Otherwise the code
  never accepts a string that the documented wildcard semantics rejects; and when every star of the pattern ends it or,
  with \<open>matchPeriod\<close> off, precedes a period (the shape of all property names), it accepts exactly the strings that the
  semantics accepts.  With \<open>matchPeriod\<close> on, a pattern with a star elsewhere matches nothing at all.
\<close>

theorem match_glob:
  "(s = [] \<or> pat = [] \<longrightarrow> match s pat m = Inl AssertionFailed) \<and>
   (s \<noteq> [] \<and> pat \<noteq> [] \<longrightarrow>
      (\<exists>b. match s pat m = Inr b \<and> (b \<longrightarrow> glob m s pat) \<and> (starsDelimited m pat \<longrightarrow> b = glob m s pat) \<and>
         (m \<and> \<not> starsDelimited m pat \<longrightarrow> \<not> b)))"
proof (cases "s = [] \<or> pat = []")
  case False
  let ?b = "if CHR ''*'' \<notin> set pat then s = pat else matchLoop s pat m 0 0"
  have nostar: "CHR ''*'' \<notin> set pat \<Longrightarrow> starsDelimited m pat" by (induction pat) auto
  have "?b \<longrightarrow> glob m s pat" using matchLoop_sound [of s pat m 0 0] glob_no_star [of pat m s] by auto
  moreover have "starsDelimited m pat \<longrightarrow> ?b = glob m s pat"
    using matchLoop_sound [of s pat m 0 0] matchLoop_complete [of m 0 s 0 pat] glob_no_star [of pat m s] by auto
  moreover have "m \<and> \<not> starsDelimited m pat \<longrightarrow> \<not> ?b" using matchLoop_rest [of s pat 0 0] nostar by (cases m) auto
  moreover have "match s pat m = Inr ?b" using False by (simp add: match_def)
  ultimately show ?thesis using False by blast
qed (auto simp: match_def)

theorem match_glob_witness:
  "match ''Ice.x.y'' ''Ice.*.y'' False = Inr True \<and> match ''a.b'' ''*.b'' True = Inr False \<and> glob True ''a.b'' ''*.b''"
proof -
  have "starsDelimited False ''Ice.*.y''" "glob False ''Ice.x.y'' ''Ice.*.y''" "glob True ''a.b'' ''*.b''" by code_simp+
  then show ?thesis using match_glob [of "''Ice.x.y''" "''Ice.*.y''" False] match_glob [of "''a.b''" "''*.b''" True] by auto
qed

end
