(* ===== verification/Identity.thy ===== *)
theory Identity
  imports StringUtil
begin

text \<open>
  Object identities and their stringified form,
  \<^verbatim>\<open>src/Ice-3.1.1/src/Ice/IdentityUtil.cpp\<close>.  The server registers its two servants under
  \<open>stringToIdentity("SerialPort")\<close> and \<open>stringToIdentity("Driver")\<close>, and every
  identity a client names travels through these two functions.
\<close>

section \<open>Model\<close>

record identity =
  name :: string
  category :: string

datatype identity_error = IdentityParseException string | UnescapeError illegal_argument

abbreviation SLASH :: char where "SLASH \<equiv> CHR ''/''"

text \<open>
  The search for the unescaped separator.  The result is \<open>Inl ()\<close> when a second unescaped
  slash is found; otherwise the position of the separator, if there is one.
\<close>

function slashLoop :: "string \<Rightarrow> nat \<Rightarrow> nat option \<Rightarrow> unit + nat option" where
  "slashLoop s pos slash =
     (case str_find (\<lambda>c. c = SLASH) s pos of
        None \<Rightarrow> Inr slash
      | Some p \<Rightarrow>
          if p = 0 \<or> s ! (p - 1) \<noteq> BSLASH then
            (case slash of
               None \<Rightarrow> slashLoop s (p + 1) (Some p)
             | Some _ \<Rightarrow> Inl ())
          else slashLoop s (p + 1) slash)"
  by pat_completeness auto
termination
  by (relation "measure (\<lambda>(s, pos, slash). length s - pos)") (auto dest: str_find_decreases)

declare slashLoop.simps [simp del]

text \<open>One \<open>unescapeString\<close> call of \<open>stringToIdentity\<close> with its check.\<close>

definition unescapePart :: "string \<Rightarrow> nat \<Rightarrow> nat \<Rightarrow> identity_error + string" where
  "unescapePart s start fin =
     (case unescapeString s start fin of
        Inl e \<Rightarrow> Inl (UnescapeError e)
      | Inr (ok, r) \<Rightarrow> if \<not> ok then Inl (IdentityParseException s) else Inr r)"

definition stringToIdentity :: "string \<Rightarrow> identity_error + identity" where
  "stringToIdentity s =
     (case slashLoop s 0 None of
        Inl _ \<Rightarrow> Inl (IdentityParseException s)
      | Inr None \<Rightarrow>
          andThen (unescapePart s 0 (length s)) (\<lambda>n. Inr \<lparr>name = n, category = []\<rparr>)
      | Inr (Some slash) \<Rightarrow>
          andThen (unescapePart s 0 slash) (\<lambda>c.
            if slash + 1 < length s then
              andThen (unescapePart s (slash + 1) (length s)) (\<lambda>n. Inr \<lparr>name = n, category = c\<rparr>)
            else Inr \<lparr>name = [], category = c\<rparr>))"

definition identityToString :: "identity \<Rightarrow> illegal_argument + string" where
  "identityToString ident =
     (if category ident = [] then escapeString (name ident) [SLASH]
      else andThen (escapeString (category ident) [SLASH]) (\<lambda>c.
             andThen (escapeString (name ident) [SLASH]) (\<lambda>n. Inr (c @ [SLASH] @ n))))"


section \<open>The separator\<close>

text \<open>All slashes from position \<open>pos\<close> on are escaped, except perhaps at \<open>p\<close>.\<close>

definition slashesEscaped :: "string \<Rightarrow> nat \<Rightarrow> nat option \<Rightarrow> bool" where
  "slashesEscaped s pos p \<longleftrightarrow>
     (\<forall>j. pos \<le> j \<and> j < length s \<and> s ! j = SLASH \<and> Some j \<noteq> p \<longrightarrow> 0 < j \<and> s ! (j - 1) = BSLASH)"

lemma slashLoop_escaped:
  "slashesEscaped s pos None \<Longrightarrow> slashLoop s pos slash = Inr slash"
proof (induction s pos slash rule: slashLoop.induct)
  case (1 s pos slash)
  show ?case
  proof (cases "str_find (\<lambda>c. c = SLASH) s pos")
    case None
    then show ?thesis by (simp add: slashLoop.simps [of s pos slash])
  next
    case (Some p)
    note f = str_find_SomeD [OF Some]
    have esc: "\<not> (p = 0 \<or> s ! (p - 1) \<noteq> BSLASH)"
      using 1(3) f by (auto simp: slashesEscaped_def)
    have "slashesEscaped s (p + 1) None" using 1(3) f(1) by (auto simp: slashesEscaped_def)
    with 1(2) [OF Some esc] have "slashLoop s (p + 1) slash = Inr slash" by simp
    then show ?thesis using Some esc by (simp add: slashLoop.simps [of s pos slash])
  qed
qed

lemma slashLoop_found:
  assumes "slashesEscaped s pos (Some p)" and "pos \<le> p" and "p < length s" and "s ! p = SLASH"
    and "p = 0 \<or> s ! (p - 1) \<noteq> BSLASH"
  shows "slashLoop s pos None = Inr (Some p)"
  using assms
proof (induction s pos "None :: nat option" rule: slashLoop.induct)
  case (1 s pos)
  obtain q where q: "str_find (\<lambda>c. c = SLASH) s pos = Some q"
    using str_find_NoneD [of "\<lambda>c. c = SLASH" s pos p] "1.prems"(2-4)
    by (cases "str_find (\<lambda>c. c = SLASH) s pos") auto
  note f = str_find_SomeD [OF q]
  show ?case
  proof (cases "q = p")
    case True
    have "slashesEscaped s (p + 1) None" using "1.prems"(1,2) by (auto simp: slashesEscaped_def)
    then have "slashLoop s (p + 1) (Some p) = Inr (Some p)" by (rule slashLoop_escaped)
    then show ?thesis using q True "1.prems"(5) by (simp add: slashLoop.simps [of s pos None])
  next
    case False
    then have less: "q < p" using f(4) [of p] "1.prems"(2,4) by fastforce
    have esc: "\<not> (q = 0 \<or> s ! (q - 1) \<noteq> BSLASH)"
      using "1.prems"(1) f False by (auto simp: slashesEscaped_def)
    have "slashesEscaped s (q + 1) (Some p)" using "1.prems"(1) f(1) by (auto simp: slashesEscaped_def)
    then have "slashLoop s (q + 1) None = Inr (Some p)"
      using 1(1) [OF q esc] less "1.prems"(3-5) by simp
    then show ?thesis using q esc by (simp add: slashLoop.simps [of s pos None])
  qed
qed

lemma slashesEscaped_append:
  assumes "slashesEscaped xs 0 None" and "slashesEscaped ys 0 None"
  shows "slashesEscaped (xs @ ys) 0 None"
  unfolding slashesEscaped_def
proof (intro allI impI)
  fix j
  assume j: "0 \<le> j \<and> j < length (xs @ ys) \<and> (xs @ ys) ! j = SLASH \<and> Some j \<noteq> None"
  show "0 < j \<and> (xs @ ys) ! (j - 1) = BSLASH"
  proof (cases "j < length xs")
    case True
    with j assms(1) show ?thesis by (auto simp: slashesEscaped_def nth_append)
  next
    case False
    then have "ys ! (j - length xs) = SLASH" "j - length xs < length ys"
      using j by (auto simp: nth_append)
    then have "0 < j - length xs" "ys ! (j - length xs - 1) = BSLASH"
      using assms(2) by (auto simp: slashesEscaped_def)
    then show ?thesis using False by (auto simp: nth_append)
  qed
qed


section \<open>Round trip\<close>

abbreviation escaped :: "string \<Rightarrow> string" where
  "escaped s \<equiv> concat (map (\<lambda>b. encodeChar b [SLASH]) s)"

lemma plainSpecial_slash: "plainSpecial [SLASH]"
  by (simp add: plainSpecial_def isOctalDigit_def)

lemmas escape_slash = escapeString_Inr [OF plainSpecial_slash]

lemma encodeChar_slashes: "slashesEscaped (encodeChar b [SLASH]) 0 None"
proof (cases "b = SLASH")
  case True
  then have "encodeChar b [SLASH] = [BSLASH, SLASH]" by (simp add: encodeChar_def)
  then show ?thesis by (auto simp: slashesEscaped_def less_Suc_eq)
next
  case False
  have "SLASH \<notin> set (encodeChar b [SLASH])"
  proof (cases "b \<in> {BSLASH, SQUOTE, DQUOTE, CHR 0x08, CHR 0x0C, CHR 0x0A, CHR 0x0D, CHR 0x09}")
    case True
    then show ?thesis by (elim insertE emptyE) (simp_all add: encodeChar_named)
  next
    case notnamed: False
    let ?i = "of_char b :: nat"
    have i: "?i < 256" by simp
    then have "?i div 64 < 8" by linarith
    then have "SLASH \<notin> {char_of (48 + ?i div 64), char_of (48 + ?i div 8 mod 8), char_of (48 + ?i mod 8)}"
      by (auto dest!: arg_cong [where f = "of_char :: char \<Rightarrow> nat"])
    then show ?thesis
      using notnamed False octalLoop_small [OF i] by (auto simp: encodeChar_def Let_def)
  qed
  then show ?thesis by (auto simp: slashesEscaped_def dest: nth_mem)
qed

lemma escaped_slashes: "slashesEscaped (escaped s) 0 None"
  by (induction s) (auto simp: slashesEscaped_append encodeChar_slashes, simp add: slashesEscaped_def)

lemma last_encodeChar: "last (encodeChar b [SLASH]) = BSLASH \<longleftrightarrow> b = BSLASH"
proof (cases "b \<in> {BSLASH, SQUOTE, DQUOTE, CHR 0x08, CHR 0x0C, CHR 0x0A, CHR 0x0D, CHR 0x09}")
  case True
  then show ?thesis by (elim insertE emptyE) (simp_all add: encodeChar_named)
next
  case False
  let ?i = "of_char b :: nat"
  have i: "?i < 256" by simp
  have "char_of (48 + ?i mod 8) \<noteq> BSLASH"
    by (auto dest!: arg_cong [where f = "of_char :: char \<Rightarrow> nat"])
  then show ?thesis
    using False octalLoop_small [OF i] by (auto simp: encodeChar_def Let_def split: if_splits)
qed

lemma last_escaped: "s \<noteq> [] \<Longrightarrow> last (escaped s) = BSLASH \<longleftrightarrow> last s = BSLASH"
  by (induction s rule: rev_induct) (simp_all add: last_append encodeChar_nonempty last_encodeChar)

lemma escaped_nonempty: "s \<noteq> [] \<Longrightarrow> escaped s \<noteq> []"
  by (cases s) (simp_all add: encodeChar_nonempty)

lemma unescapePart_escaped:
  "unescapePart (pre @ escaped s @ post) (length pre) (length pre + length (escaped s)) = Inr s"
  using unescapeString_escaped [OF plainSpecial_slash escape_slash, of pre s post]
  by (simp add: unescapePart_def)

lemma stringToIdentity_name: "stringToIdentity (escaped n) = Inr \<lparr>name = n, category = []\<rparr>"
  using unescapePart_escaped [of "[]" n "[]"]
  by (simp add: stringToIdentity_def slashLoop_escaped escaped_slashes)

lemma slashesEscaped_joined:
  "slashesEscaped (escaped c @ SLASH # escaped n) 0 (Some (length (escaped c)))"
  unfolding slashesEscaped_def
proof (intro allI impI)
  fix j
  let ?c = "escaped c" and ?n = "escaped n"
  assume j: "0 \<le> j \<and> j < length (?c @ SLASH # ?n) \<and> (?c @ SLASH # ?n) ! j = SLASH \<and> Some j \<noteq> Some (length ?c)"
  consider "j < length ?c" | "length ?c < j" using j by (metis nat_neq_iff)
  then show "0 < j \<and> (?c @ SLASH # ?n) ! (j - 1) = BSLASH"
  proof cases
    case 1
    then show ?thesis using j escaped_slashes [of c] by (auto simp: slashesEscaped_def nth_append)
  next
    case 2
    define k where "k = j - Suc (length ?c)"
    have k: "j = Suc (length ?c) + k" using 2 by (simp add: k_def)
    have "?n ! k = SLASH" "k < length ?n" using j k by (simp_all add: nth_append)
    then have "0 < k" "?n ! (k - 1) = BSLASH"
      using escaped_slashes [of n] by (auto simp: slashesEscaped_def)
    then show ?thesis using k by (simp add: nth_append nth_Cons')
  qed
qed

lemma stringToIdentity_joined:
  assumes "c \<noteq> []"
  shows "stringToIdentity (escaped c @ SLASH # escaped n) = Inr \<lparr>name = n, category = c\<rparr>
    \<longleftrightarrow> last c \<noteq> BSLASH"
proof -
  let ?c = "escaped c" and ?n = "escaped n"
  let ?s = "?c @ SLASH # ?n"
  have last_at: "?s ! (length ?c - 1) = last ?c" and pos: "0 < length ?c"
    using escaped_nonempty [OF assms] by (simp_all add: nth_append last_conv_nth)
  show ?thesis
  proof (cases "last c = BSLASH")
    case True
    then have "slashesEscaped ?s 0 None"
      using slashesEscaped_joined [of c n] last_at pos last_escaped [OF assms]
      by (auto simp: slashesEscaped_def)
    then have "slashLoop ?s 0 None = Inr None" by (rule slashLoop_escaped)
    then show ?thesis using True assms
      by (auto simp: stringToIdentity_def andThen_def split: sum.splits)
  next
    case False
    have "slashLoop ?s 0 None = Inr (Some (length ?c))"
      using slashesEscaped_joined False last_at last_escaped [OF assms]
      by (intro slashLoop_found) auto
    moreover have "unescapePart ?s 0 (length ?c) = Inr c"
      using unescapePart_escaped [of "[]" c "SLASH # ?n"] by simp
    moreover have "unescapePart ?s (length ?c + 1) (length ?s) = Inr n"
      using unescapePart_escaped [of "?c @ [SLASH]" n "[]"] by simp
    moreover have "n = []" if "\<not> length ?c + 1 < length ?s"
      using that escaped_nonempty [of n] by auto
    ultimately show ?thesis using False by (auto simp: stringToIdentity_def)
  qed
qed

text \<open>
  C39: every identity has a stringified form, and parsing that form gives the identity back
  exactly when the category does not end in a backslash.  (With such a category the separator
  is taken for an escaped slash, because the parser looks only at the one character before it.)
\<close>

theorem identity_roundtrip:
  "\<exists>s. identityToString ident = Inr s \<and>
     (stringToIdentity s = Inr ident) = (\<not> (category ident \<noteq> [] \<and> last (category ident) = BSLASH))"
  using stringToIdentity_name [of "name ident"] stringToIdentity_joined [of "category ident" "name ident"]
  by (cases "category ident = []") (auto simp: identityToString_def escape_slash)

end
