(* ===== verification/ServantManager.thy ===== *)
theory ServantManager imports StdMap Identity LocalException begin

text \<open>
  The active servant map of an object adapter, \<^verbatim>\<open>src/Ice-3.1.1/src/Ice/ServantManager.cpp\<close>.
  Both maps come with a hint, an iterator to the node used last, which lookups try first.  The
  model keeps the hints; the lemmas show that they are always valid iterators and never change
  what a lookup answers.  Servants and locators are opaque values; \<open>deactivate\<close> of a locator is
  application code, and what \<open>destroy\<close> does about it is the list of calls it makes.
\<close>

section \<open>Model\<close>

type_synonym ident_key = "string \<times> string"
type_synonym 'o facet_map = "(string, 'o) smap"

definition ident_key :: "identity \<Rightarrow> ident_key" where
  "ident_key ident = (name ident, category ident)"

record ('o, 'l) servant_manager =
  sm_instance :: bool                                        \<comment> \<open>\<open>_instance\<close> is not null\<close>
  servantMapMap :: "(ident_key, 'o facet_map) smap"
  servantMapMapHint :: "ident_key option"
  locatorMap :: "(string, 'l) smap"
  locatorMapHint :: "string option"

definition servant_manager_new :: "('o, 'l) servant_manager" where
  "servant_manager_new =
     \<lparr>sm_instance = True, servantMapMap = [], servantMapMapHint = None, locatorMap = [], locatorMapHint = None\<rparr>"

text \<open>The text of the exceptions; the escape characters used here cannot be rejected.\<close>

definition escaped :: "illegal_argument + string \<Rightarrow> string" where
  "escaped r = (case r of Inr t \<Rightarrow> t | Inl _ \<Rightarrow> [])"

definition servantId :: "identity \<Rightarrow> string \<Rightarrow> string" where
  "servantId ident facet =
     escaped (identityToString ident) @ (if facet \<noteq> [] then '' -f '' @ escaped (escapeString facet []) else [])"

text \<open>
  The common start of the operations: the hint if it points to the key, otherwise a search.
  Dereferencing a hint that is not valid is a memory fault.
\<close>

definition hinted :: "('k::linorder, 'v) smap \<Rightarrow> 'k option \<Rightarrow> 'k \<Rightarrow> failure + 'v option" where
  "hinted m hint k =
     (case hint of
        None \<Rightarrow> Inr (sm_find k m)
      | Some h \<Rightarrow>
          (case sm_find h m of
             None \<Rightarrow> Inl MemoryFault
           | Some v \<Rightarrow> if h \<noteq> k then Inr (sm_find k m) else Inr (Some v)))"

definition addServant ::
  "'o \<Rightarrow> identity \<Rightarrow> string \<Rightarrow> ('o, 'l) servant_manager \<Rightarrow> failure + ('o, 'l) servant_manager" where
  "addServant obj ident facet sm =
     (if \<not> sm_instance sm then Inl AssertionFailed
      else let k = ident_key ident
        in andThen (hinted (servantMapMap sm) (servantMapMapHint sm) k) (\<lambda>p.
           case p of
             None \<Rightarrow>
               Inr (sm\<lparr>servantMapMap := sm_update k (sm_insert facet obj []) (sm_insert k [] (servantMapMap sm)),
                       servantMapMapHint := Some k\<rparr>)
           | Some facets \<Rightarrow>
               if sm_find facet facets \<noteq> None
               then throw (AlreadyRegisteredException ''servant'' (servantId ident facet))
               else Inr (sm\<lparr>servantMapMap := sm_update k (sm_insert facet obj facets) (servantMapMap sm),
                            servantMapMapHint := Some k\<rparr>)))"

text \<open>Erasing the node of \<open>k\<close>; when the hint points to it, the hint moves to the next node.\<close>

definition eraseHinted :: "ident_key \<Rightarrow> ('o, 'l) servant_manager \<Rightarrow> ('o, 'l) servant_manager" where
  "eraseHinted k sm =
     sm\<lparr>servantMapMap := sm_erase k (servantMapMap sm),
        servantMapMapHint := (if servantMapMapHint sm = Some k then sm_next k (servantMapMap sm)
                              else servantMapMapHint sm)\<rparr>"

definition removeServant ::
  "identity \<Rightarrow> string \<Rightarrow> ('o, 'l) servant_manager \<Rightarrow> failure + 'o \<times> ('o, 'l) servant_manager" where
  "removeServant ident facet sm =
     (if \<not> sm_instance sm then Inl AssertionFailed
      else let k = ident_key ident
        in andThen (hinted (servantMapMap sm) (servantMapMapHint sm) k) (\<lambda>p.
           case p of
             None \<Rightarrow> throw (NotRegisteredException ''servant'' (servantId ident facet))
           | Some facets \<Rightarrow>
               (case sm_find facet facets of
                  None \<Rightarrow> throw (NotRegisteredException ''servant'' (servantId ident facet))
                | Some servant \<Rightarrow>
                    let facets' = sm_erase facet facets;
                        sm' = sm\<lparr>servantMapMap := sm_update k facets' (servantMapMap sm)\<rparr>
                    in Inr (servant, if facets' = [] then eraseHinted k sm' else sm'))))"

definition removeAllFacets ::
  "identity \<Rightarrow> ('o, 'l) servant_manager \<Rightarrow> failure + 'o facet_map \<times> ('o, 'l) servant_manager" where
  "removeAllFacets ident sm =
     (if \<not> sm_instance sm then Inl AssertionFailed
      else let k = ident_key ident
        in andThen (hinted (servantMapMap sm) (servantMapMapHint sm) k) (\<lambda>p.
           case p of
             None \<Rightarrow> throw (NotRegisteredException ''servant'' (servantId ident []))
           | Some facets \<Rightarrow> Inr (facets, eraseHinted k sm)))"

definition findServant ::
  "identity \<Rightarrow> string \<Rightarrow> ('o, 'l) servant_manager \<Rightarrow> failure + 'o option \<times> ('o, 'l) servant_manager" where
  "findServant ident facet sm =
     (let k = ident_key ident
      in andThen (hinted (servantMapMap sm) (servantMapMapHint sm) k) (\<lambda>p.
         case p of
           None \<Rightarrow> Inr (None, sm)
         | Some facets \<Rightarrow>
             (case sm_find facet facets of
                None \<Rightarrow> Inr (None, sm)
              | Some servant \<Rightarrow> Inr (Some servant, sm\<lparr>servantMapMapHint := Some k\<rparr>))))"

definition findAllFacets ::
  "identity \<Rightarrow> ('o, 'l) servant_manager \<Rightarrow> failure + 'o facet_map \<times> ('o, 'l) servant_manager" where
  "findAllFacets ident sm =
     (if \<not> sm_instance sm then Inl AssertionFailed
      else let k = ident_key ident
        in andThen (hinted (servantMapMap sm) (servantMapMapHint sm) k) (\<lambda>p.
           case p of
             None \<Rightarrow> Inr ([], sm)
           | Some facets \<Rightarrow> Inr (facets, sm\<lparr>servantMapMapHint := Some k\<rparr>)))"

definition hasServant :: "identity \<Rightarrow> ('o, 'l) servant_manager \<Rightarrow> failure + bool \<times> ('o, 'l) servant_manager" where
  "hasServant ident sm =
     (let k = ident_key ident
      in andThen (hinted (servantMapMap sm) (servantMapMapHint sm) k) (\<lambda>p.
         case p of
           None \<Rightarrow> Inr (False, sm)
         | Some facets \<Rightarrow>
             if facets = [] then Inl AssertionFailed else Inr (True, sm\<lparr>servantMapMapHint := Some k\<rparr>)))"

definition addServantLocator ::
  "'l \<Rightarrow> string \<Rightarrow> ('o, 'l) servant_manager \<Rightarrow> failure + ('o, 'l) servant_manager" where
  "addServantLocator locator cat sm =
     (if \<not> sm_instance sm then Inl AssertionFailed
      else andThen (hinted (locatorMap sm) (locatorMapHint sm) cat) (\<lambda>p.
        case p of
          Some _ \<Rightarrow> throw (AlreadyRegisteredException ''servant locator'' (escaped (escapeString cat [])))
        | None \<Rightarrow> Inr (sm\<lparr>locatorMap := sm_insert cat locator (locatorMap sm), locatorMapHint := Some cat\<rparr>)))"

definition findServantLocator ::
  "string \<Rightarrow> ('o, 'l) servant_manager \<Rightarrow> failure + 'l option \<times> ('o, 'l) servant_manager" where
  "findServantLocator cat sm =
     andThen (hinted (locatorMap sm) (locatorMapHint sm) cat) (\<lambda>p.
       case p of
         None \<Rightarrow> Inr (None, sm)
       | Some locator \<Rightarrow> Inr (Some locator, sm\<lparr>locatorMapHint := Some cat\<rparr>))"

text \<open>\<open>destroy\<close>, with the calls of \<open>deactivate(category)\<close> it makes, in order.\<close>

definition servantManager_destroy ::
  "('o, 'l) servant_manager \<Rightarrow> failure + (string \<times> 'l) list \<times> ('o, 'l) servant_manager" where
  "servantManager_destroy sm =
     (if \<not> sm_instance sm then Inl AssertionFailed
      else Inr (locatorMap sm,
                \<lparr>sm_instance = False, servantMapMap = [], servantMapMapHint = None,
                 locatorMap = [], locatorMapHint = None\<rparr>))"

section \<open>Invariant and abstraction\<close>

definition manager_ok :: "('o, 'l) servant_manager \<Rightarrow> bool" where
  "manager_ok sm \<longleftrightarrow>
     sm_ok (servantMapMap sm) \<and> iter_ok (servantMapMap sm) (servantMapMapHint sm) \<and>
     sm_ok (locatorMap sm) \<and> iter_ok (locatorMap sm) (locatorMapHint sm) \<and>
     (\<forall>k facets. sm_find k (servantMapMap sm) = Some facets \<longrightarrow> sm_ok facets \<and> facets \<noteq> [])"

text \<open>What is registered: servants by identity and facet, locators by category.\<close>

definition servants :: "('o, 'l) servant_manager \<Rightarrow> ident_key \<times> string \<Rightarrow> 'o option" where
  "servants sm = (\<lambda>(k, facet). case sm_find k (servantMapMap sm) of None \<Rightarrow> None | Some facets \<Rightarrow> sm_find facet facets)"

definition locators :: "('o, 'l) servant_manager \<Rightarrow> string \<Rightarrow> 'l option" where
  "locators sm = (\<lambda>cat. sm_find cat (locatorMap sm))"

lemma hinted_transparent: "iter_ok m hint \<Longrightarrow> hinted m hint k = Inr (sm_find k m)"
  by (auto simp: hinted_def iter_ok_def split: option.splits)

lemma facets_ok: "manager_ok sm \<Longrightarrow> sm_find k (servantMapMap sm) = Some facets \<Longrightarrow> sm_ok facets \<and> facets \<noteq> []"
  unfolding manager_ok_def by blast

lemma sm_insert_nonempty [simp]: "sm_insert k v m \<noteq> []"
  by (cases m) (auto split: if_splits)

section \<open>Each operation against the abstraction\<close>

lemma servants_find: "servants sm (k, facet) = (case sm_find k (servantMapMap sm) of None \<Rightarrow> None | Some facets \<Rightarrow> sm_find facet facets)"
  by (simp add: servants_def)

lemma addServant_spec:
  assumes ok: "manager_ok sm" and inst: "sm_instance sm"
  shows "case addServant obj ident facet sm of
      Inl e \<Rightarrow> servants sm (ident_key ident, facet) \<noteq> None \<and>
               e = Thrown (AlreadyRegisteredException ''servant'' (servantId ident facet))
    | Inr sm' \<Rightarrow> servants sm (ident_key ident, facet) = None \<and>
        manager_ok sm' \<and> sm_instance sm' \<and> locators sm' = locators sm \<and>
        servants sm' = (servants sm)((ident_key ident, facet) \<mapsto> obj)"
proof -
  let ?k = "ident_key ident"
  have h: "hinted (servantMapMap sm) (servantMapMapHint sm) ?k = Inr (sm_find ?k (servantMapMap sm))"
    and m: "sm_ok (servantMapMap sm)"
    using ok by (simp_all add: hinted_transparent manager_ok_def)
  show ?thesis
  proof (cases "sm_find ?k (servantMapMap sm)")
    case None
    let ?m' = "sm_update ?k (sm_insert facet obj []) (sm_insert ?k [] (servantMapMap sm))"
    let ?sm' = "sm\<lparr>servantMapMap := ?m', servantMapMapHint := Some ?k\<rparr>"
    have "manager_ok ?sm'"
      using ok m None by (auto simp: manager_ok_def iter_ok_def split: if_splits)
    moreover have "servants ?sm' = (servants sm)((?k, facet) \<mapsto> obj)"
      using m None by (auto simp: servants_def fun_eq_iff split: option.splits)
    ultimately show ?thesis
      using h inst None by (simp add: addServant_def Let_def servants_find locators_def)
  next
    case (Some facets)
    note fok = facets_ok [OF ok Some]
    show ?thesis
    proof (cases "sm_find facet facets")
      case None
      let ?m' = "sm_update ?k (sm_insert facet obj facets) (servantMapMap sm)"
      let ?sm' = "sm\<lparr>servantMapMap := ?m', servantMapMapHint := Some ?k\<rparr>"
      have "manager_ok ?sm'"
        using ok m Some fok by (auto simp: manager_ok_def iter_ok_def split: if_splits)
      moreover have "servants ?sm' = (servants sm)((?k, facet) \<mapsto> obj)"
        using m Some None fok by (auto simp: servants_def fun_eq_iff split: option.splits)
      ultimately show ?thesis
        using h inst Some None by (simp add: addServant_def Let_def servants_find locators_def)
    next
      case (Some obj')
      with \<open>sm_find ?k (servantMapMap sm) = Some facets\<close> show ?thesis
        using h inst by (simp add: addServant_def Let_def servants_find)
    qed
  qed
qed

lemma eraseHinted_ok:
  assumes "sm_ok (servantMapMap sm)" and "iter_ok (servantMapMap sm) (servantMapMapHint sm)"
    and "sm_ok (locatorMap sm)" and "iter_ok (locatorMap sm) (locatorMapHint sm)"
    and "\<forall>k' facets. k' \<noteq> k \<longrightarrow> sm_find k' (servantMapMap sm) = Some facets \<longrightarrow> sm_ok facets \<and> facets \<noteq> []"
  shows "manager_ok (eraseHinted k sm)"
  using assms iter_ok_next [of k "servantMapMap sm"]
  by (auto simp: eraseHinted_def manager_ok_def iter_ok_erase split: if_splits)

lemma servants_eraseHinted: "servants (eraseHinted k sm) (k', f) = (if k' = k then None else servants sm (k', f))"
  by (simp add: servants_def eraseHinted_def)

lemma sm_erase_Nil: "sm_erase f facets = [] \<Longrightarrow> f' \<noteq> f \<Longrightarrow> sm_find f' facets = None"
  by (metis sm_find.simps(1) sm_find_erase)

lemma removeServant_spec:
  assumes ok: "manager_ok sm" and inst: "sm_instance sm"
  shows "case removeServant ident facet sm of
      Inl e \<Rightarrow> servants sm (ident_key ident, facet) = None \<and>
               e = Thrown (NotRegisteredException ''servant'' (servantId ident facet))
    | Inr (obj, sm') \<Rightarrow> servants sm (ident_key ident, facet) = Some obj \<and>
        manager_ok sm' \<and> sm_instance sm' \<and> locators sm' = locators sm \<and>
        servants sm' = (servants sm)((ident_key ident, facet) := None)"
proof -
  let ?k = "ident_key ident"
  have h: "hinted (servantMapMap sm) (servantMapMapHint sm) ?k = Inr (sm_find ?k (servantMapMap sm))"
    and m: "sm_ok (servantMapMap sm)"
    using ok by (simp_all add: hinted_transparent manager_ok_def)
  show ?thesis
  proof (cases "servants sm (?k, facet)")
    case None
    then show ?thesis using h inst by (auto simp: removeServant_def Let_def servants_find split: option.splits)
  next
    case (Some obj)
    then obtain facets where f: "sm_find ?k (servantMapMap sm) = Some facets" and o: "sm_find facet facets = Some obj"
      by (auto simp: servants_find split: option.splits)
    note fok = facets_ok [OF ok f]
    let ?f' = "sm_erase facet facets"
    let ?sm1 = "sm\<lparr>servantMapMap := sm_update ?k ?f' (servantMapMap sm)\<rparr>"
    let ?sm' = "if ?f' = [] then eraseHinted ?k ?sm1 else ?sm1"
    have "manager_ok ?sm'"
    proof (cases "?f' = []")
      case True
      have "manager_ok (eraseHinted ?k ?sm1)"
        by (rule eraseHinted_ok) (use ok m in \<open>auto simp: manager_ok_def intro: iter_ok_update split: if_splits\<close>)
      then show ?thesis using True by simp
    next
      case False
      then show ?thesis using ok m fok by (auto simp: manager_ok_def intro: iter_ok_update split: if_splits)
    qed
    moreover have "servants ?sm' = (servants sm)((?k, facet) := None)"
      using f o sm_erase_Nil [of facet facets]
      by (auto simp: fun_eq_iff servants_eraseHinted) (auto simp: servants_def split: option.splits)
    moreover have "locators ?sm' = locators sm" "sm_instance ?sm'"
      using inst by (simp_all add: locators_def eraseHinted_def)
    moreover have "removeServant ident facet sm = Inr (obj, ?sm')"
      using h inst f o by (simp add: removeServant_def Let_def)
    ultimately show ?thesis using Some by simp
  qed
qed

lemma removeAllFacets_spec:
  assumes ok: "manager_ok sm" and inst: "sm_instance sm"
  shows "case removeAllFacets ident sm of
      Inl e \<Rightarrow> (\<forall>facet. servants sm (ident_key ident, facet) = None) \<and>
               e = Thrown (NotRegisteredException ''servant'' (servantId ident []))
    | Inr (facets, sm') \<Rightarrow> facets \<noteq> [] \<and> (\<forall>facet. sm_find facet facets = servants sm (ident_key ident, facet)) \<and>
        manager_ok sm' \<and> sm_instance sm' \<and> locators sm' = locators sm \<and>
        servants sm' = (\<lambda>(k, facet). if k = ident_key ident then None else servants sm (k, facet))"
proof -
  let ?k = "ident_key ident"
  have h: "hinted (servantMapMap sm) (servantMapMapHint sm) ?k = Inr (sm_find ?k (servantMapMap sm))"
    using ok by (simp add: hinted_transparent manager_ok_def)
  show ?thesis
  proof (cases "sm_find ?k (servantMapMap sm)")
    case None
    then show ?thesis using h inst by (simp add: removeAllFacets_def Let_def servants_find)
  next
    case (Some facets)
    have "manager_ok (eraseHinted ?k sm)"
      by (rule eraseHinted_ok) (use ok in \<open>auto simp: manager_ok_def\<close>)
    moreover have "servants (eraseHinted ?k sm) = (\<lambda>(k, facet). if k = ?k then None else servants sm (k, facet))"
      by (auto simp: fun_eq_iff servants_eraseHinted)
    moreover have "locators (eraseHinted ?k sm) = locators sm" "sm_instance (eraseHinted ?k sm)"
      using inst by (simp_all add: locators_def eraseHinted_def)
    ultimately show ?thesis
      using h inst Some facets_ok [OF ok Some] by (simp add: removeAllFacets_def Let_def servants_find)
  qed
qed

text \<open>Lookups: only the hint may change.\<close>

definition same_contents :: "('o, 'l) servant_manager \<Rightarrow> ('o, 'l) servant_manager \<Rightarrow> bool" where
  "same_contents sm sm' \<longleftrightarrow>
     manager_ok sm' \<and> sm_instance sm' = sm_instance sm \<and> servants sm' = servants sm \<and> locators sm' = locators sm"

lemma same_contents_refl: "manager_ok sm \<Longrightarrow> same_contents sm sm"
  by (simp add: same_contents_def)

lemma same_contents_hint:
  "manager_ok sm \<Longrightarrow> sm_find k (servantMapMap sm) \<noteq> None \<Longrightarrow> same_contents sm (sm\<lparr>servantMapMapHint := Some k\<rparr>)"
  unfolding same_contents_def manager_ok_def servants_def locators_def by (simp add: iter_ok_def)

lemma same_contents_locator_hint:
  "manager_ok sm \<Longrightarrow> sm_find k (locatorMap sm) \<noteq> None \<Longrightarrow> same_contents sm (sm\<lparr>locatorMapHint := Some k\<rparr>)"
  unfolding same_contents_def manager_ok_def servants_def locators_def by (simp add: iter_ok_def)

lemma hinted_servants: "manager_ok sm \<Longrightarrow>
    hinted (servantMapMap sm) (servantMapMapHint sm) k = Inr (sm_find k (servantMapMap sm))"
  by (simp add: hinted_transparent manager_ok_def)

lemma hinted_locators: "manager_ok sm \<Longrightarrow>
    hinted (locatorMap sm) (locatorMapHint sm) k = Inr (sm_find k (locatorMap sm))"
  by (simp add: hinted_transparent manager_ok_def)

lemma findServant_spec:
  assumes "manager_ok sm"
  shows "\<exists>sm'. findServant ident facet sm = Inr (servants sm (ident_key ident, facet), sm') \<and> same_contents sm sm'"
  using same_contents_refl [OF assms] same_contents_hint [OF assms, of "ident_key ident"]
  by (auto simp: findServant_def Let_def hinted_servants [OF assms] servants_find split: option.splits)

lemma findAllFacets_spec:
  assumes "manager_ok sm" and "sm_instance sm"
  shows "\<exists>facets sm'. findAllFacets ident sm = Inr (facets, sm') \<and> same_contents sm sm' \<and>
    (\<forall>facet. sm_find facet facets = servants sm (ident_key ident, facet))"
  using same_contents_refl [OF assms(1)] same_contents_hint [OF assms(1), of "ident_key ident"] assms(2)
  by (auto simp: findAllFacets_def Let_def hinted_servants [OF assms(1)] servants_find split: option.splits)

lemma nonempty_has: "facets \<noteq> [] \<Longrightarrow> \<exists>facet. sm_find facet facets \<noteq> None"
  by (cases facets) (auto intro!: exI)

lemma hasServant_spec:
  assumes "manager_ok sm"
  shows "\<exists>sm'. hasServant ident sm = Inr (\<exists>facet. servants sm (ident_key ident, facet) \<noteq> None, sm') \<and> same_contents sm sm'"
proof (cases "sm_find (ident_key ident) (servantMapMap sm)")
  case None
  then show ?thesis using same_contents_refl [OF assms]
    by (simp add: hasServant_def Let_def hinted_servants [OF assms] servants_find)
next
  case (Some facets)
  have "facets \<noteq> []" using facets_ok [OF assms Some] by simp
  then have "\<exists>facet. servants sm (ident_key ident, facet) \<noteq> None" using Some nonempty_has [of facets] by (simp add: servants_find)
  then show ?thesis
    using \<open>facets \<noteq> []\<close> Some same_contents_hint [OF assms, of "ident_key ident"]
    by (simp add: hasServant_def Let_def hinted_servants [OF assms])
qed

lemma addServantLocator_spec:
  assumes ok: "manager_ok sm" and inst: "sm_instance sm"
  shows "case addServantLocator locator cat sm of
      Inl e \<Rightarrow> locators sm cat \<noteq> None \<and>
               e = Thrown (AlreadyRegisteredException ''servant locator'' (escaped (escapeString cat [])))
    | Inr sm' \<Rightarrow> locators sm cat = None \<and> manager_ok sm' \<and> sm_instance sm' \<and> servants sm' = servants sm \<and>
        locators sm' = (locators sm)(cat \<mapsto> locator)"
proof -
  have m: "sm_ok (locatorMap sm)" using ok by (simp add: manager_ok_def)
  show ?thesis
  proof (cases "sm_find cat (locatorMap sm)")
    case None
    let ?sm' = "sm\<lparr>locatorMap := sm_insert cat locator (locatorMap sm), locatorMapHint := Some cat\<rparr>"
    have "manager_ok ?sm'" using ok m None unfolding manager_ok_def by (simp add: iter_ok_def)
    moreover have "locators ?sm' = (locators sm)(cat \<mapsto> locator)"
      using m None by (auto simp: locators_def fun_eq_iff)
    ultimately show ?thesis using None inst
      by (simp add: addServantLocator_def hinted_locators [OF ok] locators_def servants_def)
  next
    case (Some l)
    then show ?thesis using inst by (simp add: addServantLocator_def hinted_locators [OF ok] locators_def)
  qed
qed

lemma findServantLocator_spec:
  assumes "manager_ok sm"
  shows "\<exists>sm'. findServantLocator cat sm = Inr (locators sm cat, sm') \<and> same_contents sm sm'"
  using same_contents_refl [OF assms] same_contents_locator_hint [OF assms, of cat]
  by (auto simp: findServantLocator_def hinted_locators [OF assms] locators_def split: option.splits)

section \<open>The registry as an interface\<close>

text \<open>What dispatch and the server rely on, whatever caching the registry does.\<close>

locale servant_registry =
  fixes valid :: "'k \<Rightarrow> bool"
    and inv :: "'m \<Rightarrow> bool"
    and look :: "'m \<Rightarrow> 'k \<Rightarrow> 'o option"
    and add :: "'o \<Rightarrow> 'k \<Rightarrow> 'm \<Rightarrow> failure + 'm"
    and remove :: "'k \<Rightarrow> 'm \<Rightarrow> failure + 'o \<times> 'm"
    and find :: "'k \<Rightarrow> 'm \<Rightarrow> failure + 'o option \<times> 'm"
  assumes add_new: "valid k \<Longrightarrow> inv m \<Longrightarrow> look m k = None \<Longrightarrow> \<exists>m'. add x k m = Inr m' \<and> inv m' \<and> look m' = (look m)(k \<mapsto> x)"
    and add_dup: "valid k \<Longrightarrow> inv m \<Longrightarrow> look m k \<noteq> None \<Longrightarrow> \<exists>e. add x k m = throw e"
    and remove_present: "valid k \<Longrightarrow> inv m \<Longrightarrow> look m k = Some x \<Longrightarrow>
          \<exists>m'. remove k m = Inr (x, m') \<and> inv m' \<and> look m' = (look m)(k := None)"
    and find_answer: "valid k \<Longrightarrow> inv m \<Longrightarrow> \<exists>m'. find k m = Inr (look m k, m') \<and> inv m' \<and> look m' = look m"
begin

fun add_all :: "('k \<times> 'o) list \<Rightarrow> 'm \<Rightarrow> failure + 'm" where
  "add_all [] m = Inr m"
| "add_all ((k, x) # kxs) m = andThen (add x k m) (add_all kxs)"

lemma add_all_registers:
  assumes "inv m" and "distinct (map fst kxs)" and "\<forall>k \<in> fst ` set kxs. valid k \<and> look m k = None"
  shows "\<exists>m'. add_all kxs m = Inr m' \<and> inv m' \<and> look m' = look m ++ map_of kxs"
  using assms
proof (induction kxs arbitrary: m)
  case Nil
  then show ?case by simp
next
  case (Cons kx kxs)
  obtain k x where kx: "kx = (k, x)" by (cases kx)
  from Cons.prems kx obtain m1 where m1: "add x k m = Inr m1" "inv m1" "look m1 = (look m)(k \<mapsto> x)"
    using add_new [of k m x] by auto
  have "\<forall>k' \<in> fst ` set kxs. valid k' \<and> look m1 k' = None" using Cons.prems kx m1(3) by force
  then obtain m' where m': "add_all kxs m1 = Inr m'" "inv m'" "look m' = look m1 ++ map_of kxs"
    using Cons.IH [OF m1(2)] Cons.prems(2) kx by auto
  have "k \<notin> dom (map_of kxs)" using Cons.prems(2) kx by (simp add: dom_map_of_conv_image_fst)
  then have "look m1 ++ map_of kxs = look m ++ map_of (kx # kxs)"
    using m1(3) kx by (auto simp: map_add_def fun_eq_iff dom_def split: option.splits)
  moreover have "add_all (kx # kxs) m = Inr m'" using m1 m' kx by simp
  ultimately show ?case using m'(2,3) by metis
qed

lemma add_then_find:
  assumes "valid k" and "inv m" and "look m k = None" and "add x k m = Inr m1"
  shows "\<exists>m'. find k m1 = Inr (Some x, m') \<and> inv m'"
  using add_new [OF assms(1-3), of x] assms(4) find_answer [OF assms(1), of m1] by auto

end

definition manager_look :: "('o, 'l) servant_manager \<Rightarrow> identity \<times> string \<Rightarrow> 'o option" where
  "manager_look sm = (\<lambda>(ident, facet). servants sm (ident_key ident, facet))"

lemma ident_key_inject: "ident_key a = ident_key b \<longleftrightarrow> a = b"
  by (auto simp: ident_key_def intro: identity.equality)

lemma manager_look_update:
  "servants sm' = (servants sm)((ident_key ident, facet) := v) \<Longrightarrow>
     manager_look sm' = (manager_look sm)((ident, facet) := v)"
  by (rule ext) (auto simp: manager_look_def ident_key_inject split: if_splits)

lemma manager_look_key: "manager_look sm (ident, facet) = servants sm (ident_key ident, facet)"
  by (simp add: manager_look_def)

interpretation active_servants:
  servant_registry "\<lambda>_. True" "\<lambda>sm. manager_ok sm \<and> sm_instance sm" manager_look
    "\<lambda>obj (ident, facet). addServant obj ident facet" "\<lambda>(ident, facet). removeServant ident facet"
    "\<lambda>(ident, facet). findServant ident facet"
proof (unfold_locales, goal_cases)
  case (1 k m x)
  obtain ident facet where k: "k = (ident, facet)" by (cases k)
  from 1 show ?case using addServant_spec [of m, where obj = x and ident = ident and facet = facet] k
    by (auto simp: manager_look_key intro: manager_look_update split: sum.splits)
next
  case (2 k m x)
  obtain ident facet where k: "k = (ident, facet)" by (cases k)
  from 2 show ?case using addServant_spec [of m, where obj = x and ident = ident and facet = facet] k
    by (auto simp: manager_look_def split: sum.splits)
next
  case (3 k m x)
  obtain ident facet where k: "k = (ident, facet)" by (cases k)
  from 3 show ?case using removeServant_spec [of m ident facet] k
    by (auto simp: manager_look_key intro: manager_look_update split: sum.splits)
next
  case (4 k m)
  obtain ident facet where k: "k = (ident, facet)" by (cases k)
  from 4 show ?case using findServant_spec [of m ident facet] k
    by (auto simp: manager_look_def same_contents_def)
qed

section \<open>Reachable managers\<close>

inductive manager_step :: "('o, 'l) servant_manager \<Rightarrow> ('o, 'l) servant_manager \<Rightarrow> bool" where
  add: "addServant obj ident facet sm = Inr sm' \<Longrightarrow> manager_step sm sm'"
| remove: "removeServant ident facet sm = Inr (obj, sm') \<Longrightarrow> manager_step sm sm'"
| removeAll: "removeAllFacets ident sm = Inr (facets, sm') \<Longrightarrow> manager_step sm sm'"
| find: "findServant ident facet sm = Inr (r, sm') \<Longrightarrow> manager_step sm sm'"
| findAll: "findAllFacets ident sm = Inr (facets, sm') \<Longrightarrow> manager_step sm sm'"
| has: "hasServant ident sm = Inr (r, sm') \<Longrightarrow> manager_step sm sm'"
| addLocator: "addServantLocator loc cat sm = Inr sm' \<Longrightarrow> manager_step sm sm'"
| findLocator: "findServantLocator cat sm = Inr (l, sm') \<Longrightarrow> manager_step sm sm'"
| destroy: "servantManager_destroy sm = Inr (calls, sm') \<Longrightarrow> manager_step sm sm'"

inductive_cases manager_stepE: "manager_step sm sm'"

lemma needs_instance:
  "addServant obj ident facet sm = Inr sm' \<Longrightarrow> sm_instance sm"
  "removeServant ident facet sm = Inr p \<Longrightarrow> sm_instance sm"
  "removeAllFacets ident sm = Inr q \<Longrightarrow> sm_instance sm"
  "findAllFacets ident sm = Inr q \<Longrightarrow> sm_instance sm"
  "addServantLocator loc cat sm = Inr sm' \<Longrightarrow> sm_instance sm"
  by (auto simp: addServant_def removeServant_def removeAllFacets_def findAllFacets_def addServantLocator_def
      split: if_splits)

lemma manager_step_ok: "manager_step sm sm' \<Longrightarrow> manager_ok sm \<Longrightarrow> manager_ok sm'"
proof (induction rule: manager_step.induct)
  case (add obj ident facet sm sm')
  then show ?case using addServant_spec [OF add.prems needs_instance(1) [OF add.hyps], where obj = obj and ident = ident and facet = facet] by simp
next
  case (remove ident facet sm obj sm')
  then show ?case using removeServant_spec [OF remove.prems needs_instance(2) [OF remove.hyps], of ident facet] by simp
next
  case (removeAll ident sm facets sm')
  then show ?case using removeAllFacets_spec [OF removeAll.prems needs_instance(3) [OF removeAll.hyps], of ident] by simp
next
  case (find ident facet sm r sm')
  then show ?case using findServant_spec [OF find.prems, of ident facet] by (auto simp: same_contents_def)
next
  case (findAll ident sm facets sm')
  then show ?case using findAllFacets_spec [OF findAll.prems needs_instance(4) [OF findAll.hyps], of ident]
    by (auto simp: same_contents_def)
next
  case (has ident sm r sm')
  then show ?case using hasServant_spec [OF has.prems, of ident] by (auto simp: same_contents_def)
next
  case (addLocator loc cat sm sm')
  then show ?case using addServantLocator_spec [OF addLocator.prems needs_instance(5) [OF addLocator.hyps], where locator = loc and cat = cat] by simp
next
  case (findLocator cat sm l sm')
  then show ?case using findServantLocator_spec [OF findLocator.prems, of cat] by (auto simp: same_contents_def)
next
  case (destroy sm calls sm')
  then show ?case by (auto simp: servantManager_destroy_def manager_ok_def split: if_splits)
qed

lemma new_manager_ok: "manager_ok servant_manager_new"
  by (simp add: manager_ok_def servant_manager_new_def)

section \<open>Properties\<close>

text \<open>
  C37: after any sequence of operations on a new servant manager, the two hints point to nodes that
  exist, every registered identity has at least one facet (the assertion of \<open>hasServant\<close>), and a
  lookup answers exactly what is registered: the hints never change an answer.\<close>

theorem servant_lookup_correct:
  assumes "manager_step\<^sup>*\<^sup>* servant_manager_new sm"
  shows "manager_ok sm \<and>
    (\<exists>sm'. findServant ident facet sm = Inr (servants sm (ident_key ident, facet), sm') \<and> servants sm' = servants sm) \<and>
    (\<exists>sm'. hasServant ident sm = Inr (\<exists>f. servants sm (ident_key ident, f) \<noteq> None, sm') \<and> servants sm' = servants sm) \<and>
    (\<exists>sm'. findServantLocator cat sm = Inr (locators sm cat, sm') \<and> locators sm' = locators sm)"
proof -
  from assms have ok: "manager_ok sm"
    by (induction rule: rtranclp_induct) (auto intro: new_manager_ok manager_step_ok)
  then show ?thesis
    using findServant_spec [OF ok, of ident facet] hasServant_spec [OF ok, of ident] findServantLocator_spec [OF ok, of cat]
    unfolding same_contents_def by blast
qed

theorem servant_lookup_correct_witness:
  "let sm = servant_manager_new :: (nat, nat) servant_manager; i = \<lparr>name = ''Driver'', category = []\<rparr>
   in (case addServant 7 i [] sm of
         Inl _ \<Rightarrow> False
       | Inr sm1 \<Rightarrow> (case findServant i [] sm1 of Inl _ \<Rightarrow> False | Inr (r, _) \<Rightarrow> r = servants sm1 (ident_key i, [])))"
proof -
  let ?sm = "servant_manager_new :: (nat, nat) servant_manager" and ?i = "\<lparr>name = ''Driver'', category = []\<rparr>"
  obtain sm1 where a: "addServant 7 ?i [] ?sm = Inr sm1"
    by (simp add: addServant_def Let_def hinted_def servant_manager_new_def)
  then have "manager_step\<^sup>*\<^sup>* ?sm sm1" by (blast intro: manager_step.add)
  from servant_lookup_correct [OF this, of ?i "[]" "[]"] a show ?thesis by auto
qed

text \<open>
  \<open>addServant\<close> followed by \<open>findServant\<close> returns the servant that was added, for every
  identity and facet and every state of the manager in use; adding the same identity and facet
  again throws \<open>AlreadyRegisteredException\<close> and \<open>removeServant\<close> returns that servant and makes
  the pair free again.\<close>

theorem add_find_remove_servant:
  assumes "manager_ok sm" and "sm_instance sm" and "servants sm (ident_key ident, facet) = None"
  shows "\<exists>sm1. addServant obj ident facet sm = Inr sm1 \<and>
    (\<exists>sm2. findServant ident facet sm1 = Inr (Some obj, sm2)) \<and>
    addServant obj' ident facet sm1 = throw (AlreadyRegisteredException ''servant'' (servantId ident facet)) \<and>
    (\<exists>sm3. removeServant ident facet sm1 = Inr (obj, sm3) \<and> servants sm3 = servants sm)"
proof -
  obtain sm1 where a: "addServant obj ident facet sm = Inr sm1" and ok: "manager_ok sm1" and i: "sm_instance sm1"
    and s: "servants sm1 = (servants sm)((ident_key ident, facet) \<mapsto> obj)"
    using addServant_spec [OF assms(1,2), where obj = obj and ident = ident and facet = facet] assms(3) by (auto split: sum.splits)
  have "\<exists>sm2. findServant ident facet sm1 = Inr (Some obj, sm2)"
    using active_servants.add_then_find [of sm "(ident, facet)" obj sm1] assms a by (auto simp: manager_look_def)
  moreover have "addServant obj' ident facet sm1 = throw (AlreadyRegisteredException ''servant'' (servantId ident facet))"
    using addServant_spec [OF ok i, where obj = obj' and ident = ident and facet = facet] s by (auto split: sum.splits)
  moreover have "\<exists>sm3. removeServant ident facet sm1 = Inr (obj, sm3) \<and> servants sm3 = servants sm"
    using removeServant_spec [OF ok i, of ident facet] s assms(3) by (auto simp: fun_upd_idem split: sum.splits)
  ultimately show ?thesis using a by blast
qed

theorem add_find_remove_servant_witness:
  "\<exists>sm1. addServant (7 :: nat) \<lparr>name = ''SerialPort'', category = []\<rparr> [] (servant_manager_new :: (nat, nat) servant_manager) = Inr sm1 \<and>
    (\<exists>sm2. findServant \<lparr>name = ''SerialPort'', category = []\<rparr> [] sm1 = Inr (Some 7, sm2))"
  using add_find_remove_servant [of "servant_manager_new :: (nat, nat) servant_manager" "\<lparr>name = ''SerialPort'', category = []\<rparr>" "[]" 7 8]
    new_manager_ok by (auto simp: servant_manager_new_def servants_def)

end
