(* ===== verification/Incoming.thy ===== *)
theory Incoming imports ServantManager Protocol begin

text \<open>
  Dispatch of one request, \<^verbatim>\<open>src/Ice-3.1.1/src/Ice/Incoming.cpp\<close>.  The application's servants and
  servant locators, and the marshaling of \<open>Ice::Identity\<close> that \<open>slice2cpp\<close> generates, are
  parameters, bundled in the record \<open>dispatch_env\<close>.  The visible effects of \<open>invoke\<close> are the
  calls on the locator and on the connection, as a list; an exception that propagates to the
  caller (the connection, which closes) is a left value.
\<close>

section \<open>Model\<close>

datatype dispatch_status =
    DispatchOK | DispatchUserException | DispatchObjectNotExist | DispatchFacetNotExist
  | DispatchOperationNotExist | DispatchUnknownLocalException | DispatchUnknownUserException
  | DispatchUnknownException | DispatchAsync

fun status_byte :: "dispatch_status \<Rightarrow> byte" where
  "status_byte DispatchOK = 0"
| "status_byte DispatchUserException = 1"
| "status_byte DispatchObjectNotExist = 2"
| "status_byte DispatchFacetNotExist = 3"
| "status_byte DispatchOperationNotExist = 4"
| "status_byte DispatchUnknownLocalException = 5"
| "status_byte DispatchUnknownUserException = 6"
| "status_byte DispatchUnknownException = 7"
| "status_byte DispatchAsync = 8"

datatype request_failed = ObjectNotExistException | FacetNotExistException | OperationNotExistException | OtherRequestFailed

text \<open>
  What application code may throw, by the handler that catches it.  A string is the text the
  handler marshals: the field \<open>unknown\<close>, or what the exception prints.
\<close>

datatype dispatch_exn =
    RequestFailedException request_failed identity string string      \<comment> \<open>\<open>id\<close>, \<open>facet\<close>, \<open>operation\<close>\<close>
  | UnknownLocalException string
  | UnknownUserException string
  | UnknownException string
  | OtherLocalException string
  | UserExn string
  | IceException string
  | StdException string
  | OtherCppException

record current =
  cur_id :: identity
  cur_facet :: string
  cur_operation :: string
  cur_mode :: byte
  cur_ctx :: "(string, string) smap"
  cur_requestId :: ice_int

record ('o, 'l, 'c) dispatch_env =
  readIdentity :: "identity reader"
  writeIdentity :: "identity \<Rightarrow> writer"
  dispatch :: "'o \<Rightarrow> current \<Rightarrow> stream \<Rightarrow> stream \<Rightarrow> (dispatch_exn + dispatch_status) \<times> stream \<times> stream"
  locate :: "'l \<Rightarrow> current \<Rightarrow> dispatch_exn + 'o option \<times> 'c"
  finished :: "'l \<Rightarrow> current \<Rightarrow> 'o \<Rightarrow> 'c \<Rightarrow> dispatch_exn option"
  converter_of :: "char converter option"

datatype ('o, 'l, 'c) dispatch_effect =
    Finished 'l 'o 'c
  | SendResponse stream byte
  | SendNoResponse

text \<open>Reading the \<open>Current\<close>.\<close>

fun ctxLoop :: "bool \<Rightarrow> char converter option \<Rightarrow> nat \<Rightarrow> (string, string) smap \<Rightarrow> (string, string) smap reader" where
  "ctxLoop big conv 0 ctx s = Inr (ctx, s)"
| "ctxLoop big conv (Suc sz) ctx s =
     rbind (read_string big conv True) (\<lambda>k.
     rbind (read_string big conv True) (\<lambda>v. ctxLoop big conv sz (sm_insert k v ctx))) s"

definition facetOfPath :: "string list \<Rightarrow> string reader" where
  "facetOfPath facetPath s =
     (case facetPath of
        [] \<Rightarrow> Inr ([], s)
      | [f] \<Rightarrow> Inr (f, s)
      | _ \<Rightarrow> throw MarshalException)"

definition readCurrent :: "bool \<Rightarrow> ('o, 'l, 'c) dispatch_env \<Rightarrow> ice_int \<Rightarrow> current reader" where
  "readCurrent big env requestId =
     rbind (readIdentity env) (\<lambda>ident.
     rbind (read_stringSeq big (converter_of env) True) (\<lambda>facetPath.
     rbind (facetOfPath facetPath) (\<lambda>facet.
     rbind (read_string big None False) (\<lambda>operation.
     rbind read_Byte (\<lambda>mode.
     rbind (readSize big) (\<lambda>sz.
     rbind (ctxLoop big (converter_of env) (nat (sint sz)) []) (\<lambda>ctx.
     rret \<lparr>cur_id = ident, cur_facet = facet, cur_operation = operation, cur_mode = mode, cur_ctx = ctx,
           cur_requestId = requestId\<rparr>)))))))"

text \<open>\<open>_os.b.resize(n)\<close>, the container's own resize.\<close>

definition buf_resize :: "nat \<Rightarrow> stream \<Rightarrow> stream" where
  "buf_resize n s = s\<lparr>buf := take n (buf s) @ replicate (n - length (buf s)) 0\<rparr>"

definition writeFacetPath :: "bool \<Rightarrow> char converter option \<Rightarrow> string \<Rightarrow> writer" where
  "writeFacetPath big conv facet = write_stringSeq big conv True (if facet = [] then [] else [facet])"

definition writeFailedRequest ::
  "bool \<Rightarrow> ('o, 'l, 'c) dispatch_env \<Rightarrow> identity \<Rightarrow> string \<Rightarrow> string \<Rightarrow> writer" where
  "writeFailedRequest big env ident facet operation s =
     andThen (writeIdentity env ident s) (\<lambda>s1.
     andThen (writeFacetPath big (converter_of env) facet s1) (write_string big None False operation))"

text \<open>
  The common body of the handlers: close the request's encapsulation, and either rewrite the
  reply from the status byte on and send it, or report that there is none.
\<close>

definition reply ::
  "bool \<Rightarrow> bool \<Rightarrow> byte \<Rightarrow> stream \<Rightarrow> stream \<Rightarrow> dispatch_status \<Rightarrow> writer \<Rightarrow> failure + ('o, 'l, 'c) dispatch_effect list \<times> stream" where
  "reply big response compress istr os status body =
     andThen (endReadEncaps istr) (\<lambda>istr1.
       if response then
         andThen (endWriteEncaps big os) (\<lambda>os1.
         andThen (write_Byte (status_byte status) (buf_resize (headerSize + 4) os1)) (\<lambda>os2.
         andThen (body os2) (\<lambda>os3. Inr ([SendResponse os3 compress], istr1))))
       else Inr ([SendNoResponse], istr1))"

definition handleException ::
  "bool \<Rightarrow> ('o, 'l, 'c) dispatch_env \<Rightarrow> bool \<Rightarrow> byte \<Rightarrow> current \<Rightarrow> stream \<Rightarrow> stream \<Rightarrow> dispatch_exn
     \<Rightarrow> failure + ('o, 'l, 'c) dispatch_effect list \<times> stream" where
  "handleException big env response compress cur istr os ex =
     (case ex of
        RequestFailedException kind ident facet operation \<Rightarrow>
          let ident' = (if name ident = [] then cur_id cur else ident);
              facet' = (if facet = [] \<and> cur_facet cur \<noteq> [] then cur_facet cur else facet);
              operation' = (if operation = [] \<and> cur_operation cur \<noteq> [] then cur_operation cur else operation);
              body = writeFailedRequest big env ident' facet' operation'
          in (case kind of
                ObjectNotExistException \<Rightarrow> reply big response compress istr os DispatchObjectNotExist body
              | FacetNotExistException \<Rightarrow> reply big response compress istr os DispatchFacetNotExist body
              | OperationNotExistException \<Rightarrow> reply big response compress istr os DispatchOperationNotExist body
              | OtherRequestFailed \<Rightarrow>
                  if response then andThen (endReadEncaps istr) (\<lambda>_. Inl AssertionFailed)
                  else reply big response compress istr os DispatchObjectNotExist body)
      | UnknownLocalException t \<Rightarrow>
          reply big response compress istr os DispatchUnknownLocalException (write_string big None False t)
      | UnknownUserException t \<Rightarrow>
          reply big response compress istr os DispatchUnknownUserException (write_string big None False t)
      | UnknownException t \<Rightarrow>
          reply big response compress istr os DispatchUnknownException (write_string big None False t)
      | OtherLocalException t \<Rightarrow>
          reply big response compress istr os DispatchUnknownLocalException (write_string big None False t)
      | UserExn t \<Rightarrow>
          reply big response compress istr os DispatchUnknownUserException (write_string big None False t)
      | IceException t \<Rightarrow>
          reply big response compress istr os DispatchUnknownException (write_string big None False t)
      | StdException t \<Rightarrow>
          reply big response compress istr os DispatchUnknownException
            (write_string big None False (''std::exception: '' @ t))
      | OtherCppException \<Rightarrow>
          reply big response compress istr os DispatchUnknownException
            (write_string big None False ''unknown c++ exception''))"

text \<open>
  Finding the servant: the active map, then the locator of the category, then the default
  locator.  The result is the servant and, when a locator was asked, the locator and its cookie.
\<close>

definition findLocator ::
  "string \<Rightarrow> ('o, 'l) servant_manager \<Rightarrow> failure + 'l option \<times> ('o, 'l) servant_manager" where
  "findLocator cat mgr =
     andThen (findServantLocator cat mgr) (\<lambda>(l, mgr1).
       if Option.is_none l \<and> cat \<noteq> [] then findServantLocator [] mgr1 else Inr (l, mgr1))"

definition findTarget ::
  "('o, 'l, 'c) dispatch_env \<Rightarrow> current \<Rightarrow> ('o, 'l) servant_manager option
     \<Rightarrow> failure + (dispatch_exn + 'o option \<times> ('l \<times> 'c) option) \<times> ('o, 'l) servant_manager option" where
  "findTarget env cur servantManager =
     (case servantManager of
        None \<Rightarrow> Inr (Inr (None, None), None)
      | Some mgr \<Rightarrow>
          andThen (findServant (cur_id cur) (cur_facet cur) mgr) (\<lambda>(servant, mgr1).
            case servant of
              Some obj \<Rightarrow> Inr (Inr (Some obj, None), Some mgr1)
            | None \<Rightarrow>
                andThen (findLocator (category (cur_id cur)) mgr1) (\<lambda>(l, mgr2).
                  case l of
                    None \<Rightarrow> Inr (Inr (None, None), Some mgr2)
                  | Some loc \<Rightarrow>
                      (case locate env loc cur of
                         Inl ex \<Rightarrow> Inr (Inl ex, Some mgr2)
                       | Inr (obj, cookie) \<Rightarrow> Inr (Inr (obj, Some (loc, cookie)), Some mgr2)))))"

text \<open>The status when there is no servant.\<close>

definition notFound ::
  "current \<Rightarrow> ('o, 'l) servant_manager option \<Rightarrow> failure + dispatch_status \<times> ('o, 'l) servant_manager option" where
  "notFound cur servantManager =
     (case servantManager of
        None \<Rightarrow> Inr (DispatchObjectNotExist, None)
      | Some mgr \<Rightarrow>
          andThen (hasServant (cur_id cur) mgr) (\<lambda>(has, mgr1).
            Inr (if has then DispatchFacetNotExist else DispatchObjectNotExist, Some mgr1)))"

text \<open>The end of \<open>invoke\<close>, after a dispatch that did not throw.\<close>

definition finishReply ::
  "bool \<Rightarrow> ('o, 'l, 'c) dispatch_env \<Rightarrow> bool \<Rightarrow> byte \<Rightarrow> current \<Rightarrow> stream \<Rightarrow> stream \<Rightarrow> dispatch_status
     \<Rightarrow> failure + ('o, 'l, 'c) dispatch_effect list \<times> stream" where
  "finishReply big env response compress cur istr os status =
     andThen (endReadEncaps istr) (\<lambda>istr1.
       if status = DispatchAsync then Inr ([], istr1)
       else if response then
         andThen (endWriteEncaps big os) (\<lambda>os1.
         andThen
           (if status \<noteq> DispatchOK \<and> status \<noteq> DispatchUserException then
              if status \<noteq> DispatchObjectNotExist \<and> status \<noteq> DispatchFacetNotExist \<and> status \<noteq> DispatchOperationNotExist
              then Inl AssertionFailed
              else andThen (write_Byte (status_byte status) (buf_resize (headerSize + 4) os1))
                     (writeFailedRequest big env (cur_id cur) (cur_facet cur) (cur_operation cur))
            else if length (buf os1) \<le> headerSize + 4 then Inl MemoryFault
            else Inr (os1\<lparr>buf := (buf os1)[headerSize + 4 := status_byte status]\<rparr>))
           (\<lambda>os2. Inr ([SendResponse os2 compress], istr1)))
       else Inr ([SendNoResponse], istr1))"

text \<open>The part of \<open>invoke\<close> inside the two \<open>try\<close> blocks and after them.\<close>

definition runServant ::
  "bool \<Rightarrow> ('o, 'l, 'c) dispatch_env \<Rightarrow> bool \<Rightarrow> byte \<Rightarrow> current \<Rightarrow> stream \<Rightarrow> stream \<Rightarrow> 'o \<Rightarrow> ('l \<times> 'c) option
     \<Rightarrow> failure + ('o, 'l, 'c) dispatch_effect list \<times> stream" where
  "runServant big env response compress cur istr os obj located =
     (let (r, istr1, os1) = dispatch env obj cur istr os;
          runFinished = (case located of None \<Rightarrow> None | Some (loc, cookie) \<Rightarrow> finished env loc cur obj cookie);
          calls = (case located of None \<Rightarrow> [] | Some (loc, cookie) \<Rightarrow> [Finished loc obj cookie])
      in case r of
           Inl ex \<Rightarrow>
             andThen (handleException big env response compress cur istr1 os1
                        (case runFinished of None \<Rightarrow> ex | Some ex' \<Rightarrow> ex'))
               (\<lambda>(eff, istr2). Inr (calls @ eff, istr2))
         | Inr status \<Rightarrow>
             if status = DispatchAsync then finishReply big env response compress cur istr1 os1 status
             else (case runFinished of
                     None \<Rightarrow> andThen (finishReply big env response compress cur istr1 os1 status) (\<lambda>(eff, istr2). Inr (calls @ eff, istr2))
                   | Some ex \<Rightarrow> andThen (handleException big env response compress cur istr1 os1 ex) (\<lambda>(eff, istr2). Inr (calls @ eff, istr2))))"

definition invoke ::
  "bool \<Rightarrow> ('o, 'l, 'c) dispatch_env \<Rightarrow> bool \<Rightarrow> byte \<Rightarrow> ice_int \<Rightarrow> stream \<Rightarrow> stream \<Rightarrow> ('o, 'l) servant_manager option
     \<Rightarrow> failure + ('o, 'l, 'c) dispatch_effect list \<times> stream \<times> ('o, 'l) servant_manager option" where
  "invoke big env response compress requestId istr os servantManager =
     andThen (readCurrent big env requestId istr) (\<lambda>(cur, istr1).
     andThen (startReadEncaps big istr1) (\<lambda>istr2.
     andThen (if response then
                if length (buf os) \<noteq> headerSize + 4 then Inl AssertionFailed
                else andThen (write_Byte 0 os) (startWriteEncaps big)
              else Inr os) (\<lambda>os1.
     andThen (findTarget env cur servantManager) (\<lambda>(target, mgr1).
       case target of
         Inl ex \<Rightarrow>
           andThen (handleException big env response compress cur istr2 os1 ex) (\<lambda>(eff, istr3). Inr (eff, istr3, mgr1))
       | Inr (Some obj, located) \<Rightarrow>
           andThen (runServant big env response compress cur istr2 os1 obj located) (\<lambda>(eff, istr3). Inr (eff, istr3, mgr1))
       | Inr (None, _) \<Rightarrow>
           andThen (notFound cur mgr1) (\<lambda>(status, mgr2).
           andThen (finishReply big env response compress cur istr2 os1 status) (\<lambda>(eff, istr3). Inr (eff, istr3, mgr2)))))))"

section \<open>Exactly one answer\<close>

fun is_send :: "('o, 'l, 'c) dispatch_effect \<Rightarrow> bool" where
  "is_send (Finished _ _ _) = False"
| "is_send (SendResponse _ _) = True"
| "is_send SendNoResponse = True"

definition one_answer :: "bool \<Rightarrow> byte \<Rightarrow> ('o, 'l, 'c) dispatch_effect list \<Rightarrow> bool" where
  "one_answer response compress eff \<longleftrightarrow>
     (if response then \<exists>os. eff = [SendResponse os compress] else eff = [SendNoResponse])"

lemma reply_answer: "reply big response compress istr os status body = Inr (eff, istr') \<Longrightarrow> one_answer response compress eff"
  by (auto simp: reply_def one_answer_def andThen_eq_Inr split: if_splits)

lemma handleException_answer:
  "handleException big env response compress cur istr os ex = Inr (eff, istr') \<Longrightarrow> one_answer response compress eff"
  by (auto simp: handleException_def Let_def andThen_eq_Inr dest: reply_answer
      split: dispatch_exn.splits request_failed.splits if_splits)

lemma finishReply_answer:
  "finishReply big env response compress cur istr os status = Inr (eff, istr') \<Longrightarrow>
     (if status = DispatchAsync then eff = [] else one_answer response compress eff)"
  by (auto simp: finishReply_def one_answer_def andThen_eq_Inr split: if_splits)

lemma one_answer_sends:
  "one_answer response compress eff \<Longrightarrow> filter is_send eff = eff \<and> (\<exists>e. eff = [e])"
  by (auto simp: one_answer_def split: if_splits)

lemma runServant_answer:
  assumes "runServant big env response compress cur istr os obj located = Inr (eff, istr')"
  shows "(\<exists>is1 os1. dispatch env obj cur istr os = (Inr DispatchAsync, is1, os1)) \<and> eff = [] \<or>
    one_answer response compress (filter is_send eff) \<and>
    filter (\<lambda>e. \<not> is_send e) eff = (case located of None \<Rightarrow> [] | Some (loc, cookie) \<Rightarrow> [Finished loc obj cookie])"
proof -
  obtain r is1 os1 where d: "dispatch env obj cur istr os = (r, is1, os1)" by (cases "dispatch env obj cur istr os")
  show ?thesis
  proof (cases "r = Inr DispatchAsync")
    case True
    then show ?thesis using assms d finishReply_answer [of big env response compress cur is1 os1 DispatchAsync eff istr']
      by (simp add: runServant_def)
  next
    case False
    have "\<exists>tail. one_answer response compress tail \<and>
        eff = (case located of None \<Rightarrow> [] | Some (loc, cookie) \<Rightarrow> [Finished loc obj cookie]) @ tail"
      using assms d False
      by (auto simp: runServant_def Let_def andThen_eq_Inr dest!: handleException_answer finishReply_answer
          split: sum.splits option.splits if_splits)
    then obtain tail where t: "one_answer response compress tail"
      and e: "eff = (case located of None \<Rightarrow> [] | Some (loc, cookie) \<Rightarrow> [Finished loc obj cookie]) @ tail" by blast
    have "filter is_send tail = tail" "filter (\<lambda>e. \<not> is_send e) tail = []"
      using t by (auto simp: one_answer_def split: if_splits)
    then show ?thesis using t e by (auto split: option.splits)
  qed
qed

lemma invoke_answer:
  assumes "invoke big env response compress requestId istr os servantManager = Inr (eff, istr', mgr)"
  shows "one_answer response compress (filter is_send eff) \<and> length (filter (\<lambda>e. \<not> is_send e) eff) \<le> 1 \<or>
    eff = [] \<and> (\<exists>obj cur is1 os1 is2 os2. dispatch env obj cur is1 os1 = (Inr DispatchAsync, is2, os2))"
proof -
  from assms obtain cur is2 os1 target mgr1 where
    fin: "(case target of
         Inl ex \<Rightarrow> andThen (handleException big env response compress cur is2 os1 ex) (\<lambda>(eff, istr3). Inr (eff, istr3, mgr1))
       | Inr (Some obj, located) \<Rightarrow>
           andThen (runServant big env response compress cur is2 os1 obj located) (\<lambda>(eff, istr3). Inr (eff, istr3, mgr1))
       | Inr (None, _) \<Rightarrow>
           andThen (notFound cur mgr1) (\<lambda>(status, mgr2).
           andThen (finishReply big env response compress cur is2 os1 status) (\<lambda>(eff, istr3). Inr (eff, istr3, mgr2)))) = Inr (eff, istr', mgr)"
    by (auto simp: invoke_def andThen_eq_Inr)
  have single: "one_answer response compress (filter is_send e) \<and> filter (\<lambda>x. \<not> is_send x) e = []"
    if "one_answer response compress e" for e :: "('a, 'b, 'c) dispatch_effect list"
    using that by (auto simp: one_answer_def split: if_splits)
  show ?thesis
  proof (cases target)
    case (Inl ex)
    then have "one_answer response compress eff" using fin by (auto simp: andThen_eq_Inr dest: handleException_answer)
    from single [OF this] show ?thesis by simp
  next
    case (Inr p)
    obtain servant located where p: "p = (servant, located)" by (cases p)
    show ?thesis
    proof (cases servant)
      case None
      then obtain status mgr2 where n: "notFound cur mgr1 = Inr (status, mgr2)"
        and f: "finishReply big env response compress cur is2 os1 status = Inr (eff, istr')"
        using fin Inr p by (auto simp: andThen_eq_Inr)
      have "status \<noteq> DispatchAsync" using n by (auto simp: notFound_def andThen_eq_Inr split: option.splits if_splits)
      then have "one_answer response compress eff" using finishReply_answer [OF f] by simp
      from single [OF this] show ?thesis by simp
    next
      case (Some obj)
      then have r: "runServant big env response compress cur is2 os1 obj located = Inr (eff, istr')"
        using fin Inr p by (auto simp: andThen_eq_Inr)
      from runServant_answer [OF r] show ?thesis by (auto split: option.splits)
    qed
  qed
qed

text \<open>
  What \<open>invoke\<close> knows when the target has been looked up: the \<open>Current\<close>, the two streams a
  dispatch gets, and the target.  \<open>dispatched\<close> is then what the dispatch gave; without a servant
  the status comes from \<open>notFound\<close>, and it is never \<open>DispatchAsync\<close>.\<close>

definition invoke_target ::
  "bool \<Rightarrow> ('o, 'l, 'c) dispatch_env \<Rightarrow> bool \<Rightarrow> ice_int \<Rightarrow> stream \<Rightarrow> stream \<Rightarrow> ('o, 'l) servant_manager option
     \<Rightarrow> failure + current \<times> stream \<times> stream \<times> (dispatch_exn + 'o option \<times> ('l \<times> 'c) option) \<times> ('o, 'l) servant_manager option" where
  "invoke_target big env response requestId istr os servantManager =
     andThen (readCurrent big env requestId istr) (\<lambda>(cur, istr1).
     andThen (startReadEncaps big istr1) (\<lambda>istr2.
     andThen (if response then
                if length (buf os) \<noteq> headerSize + 4 then Inl AssertionFailed
                else andThen (write_Byte 0 os) (startWriteEncaps big)
              else Inr os) (\<lambda>os1.
     andThen (findTarget env cur servantManager) (\<lambda>(target, mgr1). Inr (cur, istr2, os1, target, mgr1)))))"

definition dispatched ::
  "('o, 'l, 'c) dispatch_env \<Rightarrow> current \<Rightarrow> stream \<Rightarrow> stream \<Rightarrow> dispatch_exn + 'o option \<times> ('l \<times> 'c) option
     \<Rightarrow> (dispatch_exn + dispatch_status) \<times> stream \<times> stream" where
  "dispatched env cur istr os target =
     (case target of
        Inl ex \<Rightarrow> (Inl ex, istr, os)
      | Inr (None, _) \<Rightarrow> (Inr DispatchObjectNotExist, istr, os)
      | Inr (Some obj, _) \<Rightarrow> dispatch env obj cur istr os)"

fun locator_calls :: "dispatch_exn + 'o option \<times> ('l \<times> 'c) option \<Rightarrow> ('o, 'l, 'c) dispatch_effect list" where
  "locator_calls (Inr (Some obj, Some (loc, cookie))) = [Finished loc obj cookie]"
| "locator_calls _ = []"

fun finish_quiet :: "('o, 'l, 'c) dispatch_env \<Rightarrow> current \<Rightarrow> dispatch_exn + 'o option \<times> ('l \<times> 'c) option \<Rightarrow> bool" where
  "finish_quiet env cur (Inr (Some obj, Some (loc, cookie))) \<longleftrightarrow> finished env loc cur obj cookie = None"
| "finish_quiet env cur _ \<longleftrightarrow> True"

text \<open>\<open>invoke\<close> from there on.\<close>

definition invoke_rest ::
  "bool \<Rightarrow> ('o, 'l, 'c) dispatch_env \<Rightarrow> bool \<Rightarrow> byte \<Rightarrow> current \<Rightarrow> stream \<Rightarrow> stream
     \<Rightarrow> dispatch_exn + 'o option \<times> ('l \<times> 'c) option \<Rightarrow> ('o, 'l) servant_manager option
     \<Rightarrow> failure + ('o, 'l, 'c) dispatch_effect list \<times> stream \<times> ('o, 'l) servant_manager option" where
  "invoke_rest big env response compress cur istr os target mgr1 =
     (case target of
         Inl ex \<Rightarrow>
           andThen (handleException big env response compress cur istr os ex) (\<lambda>(eff, istr3). Inr (eff, istr3, mgr1))
       | Inr (Some obj, located) \<Rightarrow>
           andThen (runServant big env response compress cur istr os obj located) (\<lambda>(eff, istr3). Inr (eff, istr3, mgr1))
       | Inr (None, _) \<Rightarrow>
           andThen (notFound cur mgr1) (\<lambda>(status, mgr2).
           andThen (finishReply big env response compress cur istr os status) (\<lambda>(eff, istr3). Inr (eff, istr3, mgr2))))"

lemma invoke_via_target:
  "invoke_target big env response requestId istr os mgr = Inr (cur, is1, os1, target, mgr1) \<Longrightarrow>
     invoke big env response compress requestId istr os mgr = invoke_rest big env response compress cur is1 os1 target mgr1"
  by (clarsimp simp: invoke_target_def invoke_def invoke_rest_def andThen_eq_Inr split del: if_split)

lemma invoke_rest_answer:
  assumes "invoke_rest big env response compress cur is1 os1 target mgr1 = Inr (eff, istr', mgr')"
  shows "if fst (dispatched env cur is1 os1 target) = Inr DispatchAsync then eff = []
         else \<exists>ans. eff = locator_calls target @ ans \<and> one_answer response compress ans"
proof (cases target)
  case (Inl ex)
  then show ?thesis using assms by (auto simp: invoke_rest_def dispatched_def andThen_eq_Inr dest: handleException_answer)
next
  case (Inr p)
  obtain servant located where p: "p = (servant, located)" by (cases p)
  show ?thesis
  proof (cases servant)
    case None
    then obtain status mgr2 where n: "notFound cur mgr1 = Inr (status, mgr2)"
      and f: "finishReply big env response compress cur is1 os1 status = Inr (eff, istr')"
      using assms Inr p by (auto simp: invoke_rest_def andThen_eq_Inr)
    have "status \<noteq> DispatchAsync" using n by (auto simp: notFound_def andThen_eq_Inr split: option.splits if_splits)
    then show ?thesis using finishReply_answer [OF f] None Inr p by (simp add: dispatched_def)
  next
    case (Some obj)
    then have r: "runServant big env response compress cur is1 os1 obj located = Inr (eff, istr')"
      using assms Inr p by (auto simp: invoke_rest_def andThen_eq_Inr)
    have l: "locator_calls target = (case located of None \<Rightarrow> [] | Some (loc, cookie) \<Rightarrow> [Finished loc obj cookie])"
      using Some Inr p by (auto split: option.splits)
    obtain q is2 os2 where d: "dispatch env obj cur is1 os1 = (q, is2, os2)" by (cases "dispatch env obj cur is1 os1")
    have e: "fst (dispatched env cur is1 os1 target) = q" using d Some Inr p by (simp add: dispatched_def)
    show ?thesis
    proof (cases "q = Inr DispatchAsync")
      case True
      then show ?thesis using r d e finishReply_answer [of big env response compress cur is2 os2 DispatchAsync eff istr']
        by (simp add: runServant_def)
    next
      case False
      then show ?thesis using r d unfolding e l
        by (auto simp: runServant_def Let_def andThen_eq_Inr dest!: handleException_answer finishReply_answer
            split: sum.splits option.splits if_splits)
    qed
  qed
qed

text \<open>A oneway request is answered as soon as the encapsulation of the request can be left.\<close>

lemma handleException_oneway:
  "endReadEncaps istr = Inr istr1 \<Longrightarrow>
     handleException big env False compress cur istr os ex = Inr ([SendNoResponse], istr1)"
  by (cases ex) (simp_all add: handleException_def reply_def Let_def split: request_failed.splits)

lemma finishReply_oneway:
  "endReadEncaps istr = Inr istr1 \<Longrightarrow>
     finishReply big env False compress cur istr os status = Inr (if status = DispatchAsync then [] else [SendNoResponse], istr1)"
  by (simp add: finishReply_def)

lemma notFound_total:
  "\<forall>m. mgr = Some m \<longrightarrow> manager_ok m \<Longrightarrow> \<exists>status mgr'. notFound cur mgr = Inr (status, mgr')"
proof (cases mgr)
  case (Some m)
  assume "\<forall>m. mgr = Some m \<longrightarrow> manager_ok m"
  with Some show ?thesis using hasServant_spec [of m "cur_id cur"] by (auto simp: notFound_def)
qed (simp add: notFound_def)

lemma findTarget_keeps:
  assumes "findTarget env cur mgr = Inr (target, mgr1)" and "\<forall>m. mgr = Some m \<longrightarrow> manager_ok m"
  shows "\<forall>m. mgr1 = Some m \<longrightarrow> manager_ok m"
proof (cases mgr)
  case None
  then show ?thesis using assms(1) by (simp add: findTarget_def)
next
  case (Some m)
  then have ok: "manager_ok m" using assms(2) by simp
  obtain m1 where m1: "findServant (cur_id cur) (cur_facet cur) m = Inr (servants m (ident_key (cur_id cur), cur_facet cur), m1)"
    and ok1: "manager_ok m1" using findServant_spec [OF ok, of "cur_id cur" "cur_facet cur"] by (auto simp: same_contents_def)
  obtain m2 where m2: "findServantLocator (category (cur_id cur)) m1 = Inr (locators m1 (category (cur_id cur)), m2)"
    and ok2: "manager_ok m2" using findServantLocator_spec [OF ok1, of "category (cur_id cur)"] by (auto simp: same_contents_def)
  obtain m3 where m3: "findServantLocator [] m2 = Inr (locators m2 [], m3)"
    and ok3: "manager_ok m3" using findServantLocator_spec [OF ok2, of "[]"] by (auto simp: same_contents_def)
  show ?thesis using assms(1) Some ok1 ok2 ok3 m1 m2 m3
    by (auto simp: findTarget_def findLocator_def split: option.splits if_splits sum.splits)
qed

lemma invoke_rest_oneway:
  assumes "\<forall>m. mgr1 = Some m \<longrightarrow> manager_ok m" and "dispatched env cur is1 os1 target = (r, is2, os2)"
    and "endReadEncaps is2 = Inr is3"
  shows "\<exists>mgr'. invoke_rest big env False compress cur is1 os1 target mgr1 =
    Inr (if r = Inr DispatchAsync then [] else locator_calls target @ [SendNoResponse], is3, mgr')"
proof (cases target)
  case (Inl ex)
  then show ?thesis using assms(2,3) by (auto simp: invoke_rest_def dispatched_def handleException_oneway)
next
  case (Inr p)
  obtain servant located where p: "p = (servant, located)" by (cases p)
  show ?thesis
  proof (cases servant)
    case None
    obtain status mgr2 where n: "notFound cur mgr1 = Inr (status, mgr2)" using notFound_total [OF assms(1)] by blast
    then have "status \<noteq> DispatchAsync" by (auto simp: notFound_def andThen_eq_Inr split: option.splits if_splits)
    then show ?thesis using n assms(2,3) None Inr p by (auto simp: invoke_rest_def dispatched_def finishReply_oneway)
  next
    case (Some obj)
    then have "dispatch env obj cur is1 os1 = (r, is2, os2)" using assms(2) Inr p by (simp add: dispatched_def)
    then show ?thesis using assms(3) Some Inr p
      by (auto simp: invoke_rest_def runServant_def Let_def handleException_oneway finishReply_oneway
          split: sum.splits option.splits prod.splits)
  qed
qed

text \<open>A twoway request whose dispatch ended well, or with a user exception.\<close>

lemma invoke_rest_twoway:
  assumes "dispatched env cur is1 os1 target = (Inr status, is2, os2)" and "status = DispatchOK \<or> status = DispatchUserException"
    and "endReadEncaps is2 = Inr is3" and "endWriteEncaps big os2 = Inr os3" and "headerSize + 4 < length (buf os3)"
    and "finish_quiet env cur target"
  shows "invoke_rest big env True compress cur is1 os1 target mgr1 =
    Inr (locator_calls target @ [SendResponse (os3\<lparr>buf := (buf os3)[headerSize + 4 := status_byte status]\<rparr>) compress], is3, mgr1)"
proof -
  obtain obj located where t: "target = Inr (Some obj, located)" and d: "dispatch env obj cur is1 os1 = (Inr status, is2, os2)"
    using assms(1,2) by (auto simp: dispatched_def split: sum.splits prod.splits option.splits)
  have "finishReply big env True compress cur is2 os2 status =
      Inr ([SendResponse (os3\<lparr>buf := (buf os3)[headerSize + 4 := status_byte status]\<rparr>) compress], is3)"
    using assms(2-5) by (auto simp: finishReply_def)
  then show ?thesis using assms(2,6) t d
    by (cases located) (auto simp: invoke_rest_def runServant_def)
qed

text \<open>
  C34: let \<open>invoke\<close> have read the header of a request and looked up its target, in a consistent
  servant manager.  When it returns, a servant that answered \<open>DispatchAsync\<close> has been sent nothing
  yet, and any other request was answered exactly once, after the \<open>finished\<close> call of the locator that
  was asked, if any: with \<open>sendResponse\<close> for a twoway and \<open>sendNoResponse\<close> for a oneway request.  It
  does return for every oneway request whose dispatch left the encapsulation of the request so that
  it can be closed, exception or not; and for every twoway request whose dispatch ended well or with
  a user exception, if moreover the encapsulation of the reply can be closed and \<open>finished\<close> does not
  throw, the answer being the reply the servant wrote with the status byte in its place.  When
  \<open>invoke\<close> does not return, an exception has left it and no answer was sent; \<open>invokeAll_accounts\<close>
  says what the connection then does.\<close>

theorem invoke_answers_once:
  assumes header: "invoke_target big env response requestId istr os servantManager = Inr (cur, is1, os1, target, mgr1)"
    and ok: "\<forall>m. servantManager = Some m \<longrightarrow> manager_ok m"
    and d: "dispatched env cur is1 os1 target = (r, is2, os2)"
  shows "(\<forall>eff istr' mgr'. invoke big env response compress requestId istr os servantManager = Inr (eff, istr', mgr') \<longrightarrow>
      (if r = Inr DispatchAsync then eff = []
       else \<exists>ans. eff = locator_calls target @ ans \<and> one_answer response compress ans)) \<and>
    (\<forall>is3. \<not> response \<and> endReadEncaps is2 = Inr is3 \<longrightarrow>
      (\<exists>mgr'. invoke big env response compress requestId istr os servantManager =
         Inr (if r = Inr DispatchAsync then [] else locator_calls target @ [SendNoResponse], is3, mgr'))) \<and>
    (\<forall>status is3 os3. response \<and> r = Inr status \<and> status \<in> {DispatchOK, DispatchUserException} \<and>
        endReadEncaps is2 = Inr is3 \<and> endWriteEncaps big os2 = Inr os3 \<and> headerSize + 4 < length (buf os3) \<and>
        finish_quiet env cur target \<longrightarrow>
      invoke big env response compress requestId istr os servantManager =
        Inr (locator_calls target @
             [SendResponse (os3\<lparr>buf := (buf os3)[headerSize + 4 := status_byte status]\<rparr>) compress], is3, mgr1))"
proof -
  have rest: "invoke big env response compress requestId istr os servantManager =
      invoke_rest big env response compress cur is1 os1 target mgr1"
    by (rule invoke_via_target [OF header])
  have ok1: "\<forall>m. mgr1 = Some m \<longrightarrow> manager_ok m"
    using header by (auto simp: invoke_target_def andThen_eq_Inr dest: findTarget_keeps [OF _ ok])
  show ?thesis unfolding rest
    using invoke_rest_answer [of big env response compress cur is1 os1 target mgr1] d
      invoke_rest_oneway [OF ok1 d] invoke_rest_twoway [of env cur is1 os1 target _ is2 os2 _ big _ compress mgr1]
    by auto
qed

section \<open>A plain environment\<close>

text \<open>
  The marshaling that \<open>slice2cpp\<close> generates for \<open>Identity\<close> (its two strings in order) and
  a servant that answers every operation with an empty result: the concrete instance on which the
  hypotheses about the parameters are seen to hold.
\<close>

definition plain_env :: "bool \<Rightarrow> (nat, nat, nat) dispatch_env" where
  "plain_env big =
     \<lparr>readIdentity = rbind (read_string big None True) (\<lambda>n. rbind (read_string big None True)
        (\<lambda>c. rret \<lparr>name = n, category = c\<rparr>)),
      writeIdentity = (\<lambda>i s. andThen (write_string big None True (name i) s) (write_string big None True (category i))),
      dispatch = (\<lambda>obj cur istr ostr. (Inr DispatchOK, istr, ostr)),
      locate = (\<lambda>l cur. Inr (None, 0)), finished = (\<lambda>l cur obj c. None), converter_of = None\<rparr>"

definition identity_valid :: "identity \<Rightarrow> bool" where
  "identity_valid i \<longleftrightarrow> length (name i) < 2147483648 \<and> length (category i) < 2147483648"

definition identity_bytes :: "identity \<Rightarrow> byte list" where
  "identity_bytes i = string_bytes (name i) @ string_bytes (category i)"

interpretation plain_identity:
  wire_codec identity_valid identity_bytes "writeIdentity (plain_env big)" "readIdentity (plain_env big)" "\<lambda>_. True" for big
proof (unfold_locales, goal_cases)
  case (1 x s)
  then show ?case
    by (simp add: plain_env_def identity_valid_def identity_bytes_def string_codec.write_fits)
next
  case (2 x s s')
  then show ?case
    by (auto simp: plain_env_def identity_valid_def identity_bytes_def andThen_eq_Inr dest!: string_codec.write_appends)
next
  case (3 x s pre post)
  then have at: "at s pre (string_bytes (name x) @ string_bytes (category x)) post" by (simp add: identity_bytes_def)
  from 3(1) show ?case
    using string_codec.read_back [OF _ _ at_append [OF at], of big True] string_codec.read_back [OF _ _ at_next [OF at], of big True]
    by (simp add: plain_env_def identity_valid_def identity_bytes_def rbind_def rret_def)
qed simp

theorem invoke_answers_once_witness:
  "let mgr = (servant_manager_new :: (nat, nat) servant_manager)
         \<lparr>servantMapMap := [((''A'', []), [([], 5)])]\<rparr>;
       istr = (stream_new 100)\<lparr>buf := [1, 65, 0, 0, 2, 111, 112, 0, 0, 6, 0, 0, 0, 1, 0]\<rparr>;
       os = (stream_new 100)\<lparr>buf := replicate 18 9\<rparr>
   in (\<exists>os' istr' mgr'. invoke False (plain_env False) True 0 1 istr os (Some mgr) = Inr ([SendResponse os' 0], istr', mgr') \<and>
        buf os' = replicate 18 9 @ [0] @ encaps_bytes [])"
proof -
  let ?mgr = "(servant_manager_new :: (nat, nat) servant_manager)\<lparr>servantMapMap := [((''A'', []), [([], 5)])]\<rparr>"
  let ?is = "(stream_new 100)\<lparr>buf := [1, 65, 0, 0, 2, 111, 112, 0, 0, 6, 0, 0, 0, 1, 0]\<rparr>"
  let ?os = "(stream_new 100)\<lparr>buf := replicate 18 9\<rparr>"
  have "case invoke_target False (plain_env False) True 1 ?is ?os (Some ?mgr) of Inl _ \<Rightarrow> False
    | Inr (cur, is1, os1, target, _) \<Rightarrow> target = Inr (Some 5, None) \<and>
        (case endReadEncaps is1 of Inl _ \<Rightarrow> False | Inr _ \<Rightarrow>
        (case endWriteEncaps False os1 of Inl _ \<Rightarrow> False | Inr os3 \<Rightarrow>
           19 \<le> length (buf os3) \<and> (buf os3)[18 := 0] = replicate 18 9 @ [0] @ encaps_bytes []))"
    by code_simp
  then obtain cur is1 os1 mgr1 is3 os3 where
    h: "invoke_target False (plain_env False) True 1 ?is ?os (Some ?mgr) = Inr (cur, is1, os1, Inr (Some 5, None), mgr1)"
    and e: "endReadEncaps is1 = Inr is3" "endWriteEncaps False os1 = Inr os3" "19 \<le> length (buf os3)"
      "(buf os3)[18 := 0] = replicate 18 9 @ [0] @ encaps_bytes []"
    by (auto split: sum.splits)
  have ok: "\<forall>m. Some ?mgr = Some m \<longrightarrow> manager_ok m"
    by (simp add: manager_ok_def servant_manager_new_def iter_ok_def)
  have "dispatched (plain_env False) cur is1 os1 (Inr (Some 5, None)) = (Inr DispatchOK, is1, os1)"
    by (simp add: dispatched_def plain_env_def)
  from invoke_answers_once [OF h ok this, of 0] e show ?thesis
    by (auto simp: headerSize_def Let_def)
qed

section \<open>Reading the request header\<close>

definition request_valid :: "(identity \<Rightarrow> bool) \<Rightarrow> identity \<Rightarrow> string \<Rightarrow> string \<Rightarrow> (string \<times> string) list \<Rightarrow> bool" where
  "request_valid valid ident facet operation ctx \<longleftrightarrow>
     valid ident \<and> length facet < 2147483648 \<and> length operation < 2147483648 \<and> length ctx < 2147483648 \<and>
     list_all (\<lambda>(k, v). length k < 2147483648 \<and> length v < 2147483648) ctx"

definition ctx_bytes :: "(string \<times> string) list \<Rightarrow> byte list" where
  "ctx_bytes ctx = concat (map (\<lambda>(k, v). string_bytes k @ string_bytes v) ctx)"

definition facet_bytes :: "string \<Rightarrow> byte list" where
  "facet_bytes facet = (let path = (if facet = [] then [] else [facet])
     in size_bytes (word_of_nat (length path)) @ concat (map string_bytes path))"

definition request_bytes :: "(identity \<Rightarrow> byte list) \<Rightarrow> identity \<Rightarrow> string \<Rightarrow> string \<Rightarrow> byte \<Rightarrow> (string \<times> string) list \<Rightarrow> byte list" where
  "request_bytes enc ident facet operation mode ctx =
     enc ident @ facet_bytes facet @ string_bytes operation @ [mode] @ size_bytes (word_of_nat (length ctx)) @ ctx_bytes ctx"

lemma ctxLoop_at:
  assumes "list_all (\<lambda>(k, v). length k < 2147483648 \<and> length v < 2147483648) kvs" and "at s pre (ctx_bytes kvs) post"
  shows "ctxLoop big None (length kvs) ctx s =
    Inr (fold (\<lambda>(k, v). sm_insert k v) kvs ctx, skip s (length (ctx_bytes kvs)))"
  using assms
proof (induction kvs arbitrary: s pre ctx)
  case Nil
  then show ?case by (simp add: ctx_bytes_def)
next
  case (Cons kv kvs)
  obtain k v where kv: "kv = (k, v)" by (cases kv)
  have at: "at s pre (string_bytes k @ (string_bytes v @ ctx_bytes kvs)) post"
    using Cons.prems(2) kv by (simp add: ctx_bytes_def)
  note at2 = at_next [OF at]
  have "read_string big None True s = Inr (k, skip s (length (string_bytes k)))"
    using Cons.prems(1) kv by (intro string_codec.read_back [OF _ _ at_append [OF at]]) simp_all
  moreover have "read_string big None True (skip s (length (string_bytes k))) =
      Inr (v, skip (skip s (length (string_bytes k))) (length (string_bytes v)))"
    using Cons.prems(1) kv by (intro string_codec.read_back [OF _ _ at_append [OF at2]]) simp_all
  moreover note Cons.IH [OF _ at_next [OF at2], of "sm_insert k v ctx"]
  ultimately show ?case using Cons.prems(1) kv by (simp add: rbind_def ctx_bytes_def add.assoc)
qed

lemma facet_at:
  assumes "at s pre (facet_bytes facet) post" and "length facet < 2147483648" and "seq_ready s"
  shows "rbind (read_stringSeq big None True) facetOfPath s = Inr (facet, skip s (length (facet_bytes facet)))"
proof -
  let ?path = "if facet = [] then [] else [facet]"
  have "at s pre (size_bytes (word_of_nat (length ?path)) @ concat (map string_bytes ?path)) post"
    using assms(1) by (simp add: facet_bytes_def Let_def)
  moreover have "list_all (\<lambda>v. length v < 2147483648) ?path" using assms(2) by simp
  ultimately have "readElems big (read_string big None True) s =
      Inr (?path, skip s (length (size_bytes (word_of_nat (length ?path)) @ concat (map string_bytes ?path))))"
    using assms(3) by (intro string_elem.readElems_back) simp_all
  then show ?thesis by (simp add: read_stringSeq_def rbind_def facetOfPath_def facet_bytes_def Let_def)
qed

text \<open>
  The header of a well-formed request is read back field by field: the identity, the facet
  (through the one-element facet path kept for old peers), the operation, the mode, and the
  context, in which the first of several entries with the same key counts.  What the generated
  marshaling of an identity has to satisfy is the contract of the stream's own types.\<close>

lemma readCurrent_request:
  assumes codec: "wire_codec valid enc (writeIdentity env) (readIdentity env) (\<lambda>_. True)"
    and conv: "converter_of env = None" and ok: "request_valid valid ident facet operation ctx"
    and at: "at s pre (request_bytes enc ident facet operation mode ctx) post" and ready: "seq_ready s"
  shows "\<exists>cur. readCurrent big env requestId s =
      Inr (cur, skip s (length (request_bytes enc ident facet operation mode ctx))) \<and>
    cur_id cur = ident \<and> cur_facet cur = facet \<and> cur_operation cur = operation \<and> cur_mode cur = mode \<and>
    cur_requestId cur = requestId \<and> sm_ok (cur_ctx cur) \<and> (\<forall>k. sm_find k (cur_ctx cur) = map_of ctx k)"
proof -
  have v: "valid ident" "length facet < 2147483648" "length operation < 2147483648" "length ctx < 2147483648"
    "list_all (\<lambda>(k, v). length k < 2147483648 \<and> length v < 2147483648) ctx"
    using ok by (simp_all add: request_valid_def)
  let ?a = "enc ident" and ?b = "facet_bytes facet" and ?c = "string_bytes operation"
    and ?d = "size_bytes (word_of_nat (length ctx))" and ?e = "ctx_bytes ctx"
  have at1: "at s pre (?a @ (?b @ (?c @ ([mode] @ (?d @ ?e))))) post" using at by (simp add: request_bytes_def)
  note at2 = at_next [OF at1] note at3 = at_next [OF at2] note at4 = at_next [OF at3] note at5 = at_next [OF at4]
  note at6 = at_next [OF at5]
  have r1: "readIdentity env s = Inr (ident, skip s (length ?a))"
    by (rule wire_codec.read_back [OF codec v(1) TrueI at_append [OF at1]])
  let ?s1 = "skip s (length ?a)"
  have r2: "rbind (read_stringSeq big None True) facetOfPath ?s1 = Inr (facet, skip ?s1 (length ?b))"
    by (rule facet_at [OF at_append [OF at2] v(2)]) (simp add: ready)
  then obtain path t where r2': "read_stringSeq big None True ?s1 = Inr (path, t)"
    "facetOfPath path t = Inr (facet, skip ?s1 (length ?b))"
    by (auto simp: rbind_def andThen_eq_Inr)
  let ?s2 = "skip ?s1 (length ?b)"
  have r3: "read_string big None False ?s2 = Inr (operation, skip ?s2 (length ?c))"
    by (rule string_codec.read_back [OF v(3) TrueI at_append [OF at3]])
  let ?s3 = "skip ?s2 (length ?c)"
  have r4: "read_Byte ?s3 = Inr (mode, skip ?s3 1)" by (rule read_Byte_at [OF at_append [OF at4]])
  let ?s4 = "skip ?s3 1"
  have n: "sint (word_of_nat (length ctx) :: ice_int) = int (length ctx)" by (rule sint_word_of_nat [OF v(4)])
  have r5: "readSize big ?s4 = Inr (word_of_nat (length ctx), skip ?s4 (length ?d))"
    using readSize_at [OF at_append [OF at5]] n by simp
  let ?s5 = "skip ?s4 (length ?d)"
  have r6: "ctxLoop big None (length ctx) [] ?s5 =
      Inr (fold (\<lambda>(k, v). sm_insert k v) ctx [], skip ?s5 (length ?e))"
    using ctxLoop_at [OF v(5)] at6 by simp
  have "readCurrent big env requestId s =
      Inr (\<lparr>cur_id = ident, cur_facet = facet, cur_operation = operation, cur_mode = mode,
            cur_ctx = fold (\<lambda>(k, v). sm_insert k v) ctx [], cur_requestId = requestId\<rparr>, skip ?s5 (length ?e))"
    using r1 r2' r3 r4 r5 r6 n conv
    by (simp add: readCurrent_def rbind_def rret_def del: skip_skip)
  moreover have "skip ?s5 (length ?e) = skip s (length (request_bytes enc ident facet operation mode ctx))"
    by (simp add: request_bytes_def add.assoc)
  moreover have "sm_find k (fold (\<lambda>(k, v). sm_insert k v) ctx []) = map_of ctx k" for k
    using std_map.fold_insert_first [of "[]" k ctx] by simp
  moreover have "sm_ok (fold (\<lambda>(k, v). sm_insert k v) ctx [])" using std_map.fold_insert_ok [of "[]"] by simp
  ultimately show ?thesis by simp
qed

section \<open>Requests for objects that do not exist\<close>

lemma startReadEncaps_stack:
  "startReadEncaps big s = Inr s' \<Longrightarrow> \<exists>q. endReadEncaps s' = Inr q"
  by (auto simp: startReadEncaps_def Let_def andThen_eq_Inr endReadEncaps_def split: if_splits)

lemma startWriteEncaps_fits:
  "length (buf s) + 6 \<le> messageSizeMax s \<Longrightarrow> \<exists>s'. startWriteEncaps big s = Inr s' \<and> messageSizeMax s' = messageSizeMax s \<and>
     (\<exists>s''. endWriteEncaps big s' = Inr s'')"
  by (simp add: startWriteEncaps_def Let_def write_Int_eq appendBytes_Inr write_Byte_def endWriteEncaps_def)

lemma write_empty_encaps:
  assumes "startWriteEncaps big s = Inr s1" and "endWriteEncaps big s1 = Inr s2"
  shows "s2 = s\<lparr>buf := buf s @ encaps_bytes []\<rparr>"
  using write_encaps [OF assms(1), of s1 "[]" s2] assms(2) by simp

lemma facet_path_codec:
  assumes "length facet < 2147483648"
    and "length (buf s) + length (facet_bytes facet) \<le> messageSizeMax s"
  shows "writeFacetPath big None facet s = Inr (s\<lparr>buf := buf s @ facet_bytes facet\<rparr>)"
proof (cases "facet = []")
  case True
  then show ?thesis using assms(2) size_write_then(1) [of 0 s big]
    by (simp add: writeFacetPath_def write_stringSeq_def writeElems_def facet_bytes_def)
next
  case False
  then have "writeSize big 1 s = Inr (s\<lparr>buf := buf s @ size_bytes 1\<rparr>)"
    using assms(2) size_write_then(1) [of 1 s big] by (simp add: facet_bytes_def)
  then show ?thesis using False assms
    by (simp add: writeFacetPath_def write_stringSeq_def writeElems_def facet_bytes_def string_codec.write_fits)
qed

lemma writeFailedRequest_fits:
  assumes "wire_codec valid enc (writeIdentity env) (readIdentity env) (\<lambda>_. True)" and "converter_of env = None"
    and "valid ident" and "length facet < 2147483648" and "length operation < 2147483648"
    and "length (buf s) + length (enc ident @ facet_bytes facet @ string_bytes operation) \<le> messageSizeMax s"
  shows "writeFailedRequest big env ident facet operation s =
    Inr (s\<lparr>buf := buf s @ enc ident @ facet_bytes facet @ string_bytes operation\<rparr>)"
proof -
  have "writeIdentity env ident s = Inr (s\<lparr>buf := buf s @ enc ident\<rparr>)"
    using assms(6) by (intro wire_codec.write_fits [OF assms(1,3)]) simp
  then show ?thesis using assms(2,4,5,6)
    by (simp add: writeFailedRequest_def facet_path_codec string_codec.write_fits)
qed

lemma findTarget_nothing:
  assumes ok: "manager_ok mgr" and none: "servants mgr (ident_key (cur_id cur), cur_facet cur) = None"
    and l: "locators mgr (category (cur_id cur)) = None" "locators mgr [] = None"
  shows "\<exists>mgr'. findTarget env cur (Some mgr) = Inr (Inr (None, None), Some mgr') \<and> same_contents mgr mgr'"
proof -
  obtain m1 where m1: "findServant (cur_id cur) (cur_facet cur) mgr = Inr (None, m1)" "same_contents mgr m1"
    using findServant_spec [OF ok, of "cur_id cur" "cur_facet cur"] none by auto
  then have ok1: "manager_ok m1" and l1: "locators m1 = locators mgr" by (simp_all add: same_contents_def)
  obtain m2 where m2: "findServantLocator (category (cur_id cur)) m1 = Inr (None, m2)" "same_contents m1 m2"
    using findServantLocator_spec [OF ok1, of "category (cur_id cur)"] l l1 by auto
  then have ok2: "manager_ok m2" and l2: "locators m2 = locators mgr" using l1 by (simp_all add: same_contents_def)
  obtain m3 where m3: "findServantLocator [] m2 = Inr (None, m3)" "same_contents m2 m3"
    using findServantLocator_spec [OF ok2, of "[]"] l l2 by auto
  have "same_contents mgr m2" "same_contents mgr m3" using m1 m2 m3 by (simp_all add: same_contents_def)
  then show ?thesis using m1(1) m2(1) m3(1)
    by (cases "category (cur_id cur) = []") (auto simp: findTarget_def findLocator_def)
qed

text \<open>The answer to a request nobody serves.\<close>

lemma invoke_missing:
  assumes codec: "wire_codec valid enc (writeIdentity env) (readIdentity env) (\<lambda>_. True)" "converter_of env = None"
    and hdr: "readCurrent big env requestId istr = Inr (cur, is1)" "startReadEncaps big is1 = Inr is2"
    and cur: "valid (cur_id cur)" "length (cur_facet cur) < 2147483648" "length (cur_operation cur) < 2147483648"
    and mgr: "manager_ok mgr" "servants mgr (ident_key (cur_id cur), cur_facet cur) = None"
      "locators mgr (category (cur_id cur)) = None" "locators mgr [] = None"
    and os: "length (buf os) = headerSize + 4"
      "25 + length (enc (cur_id cur) @ facet_bytes (cur_facet cur) @ string_bytes (cur_operation cur)) \<le> messageSizeMax os"
  shows "\<exists>mgr' os' istr'. invoke big env True compress requestId istr os (Some mgr) = Inr ([SendResponse os' compress], istr', Some mgr') \<and>
    endReadEncaps is2 = Inr istr' \<and>
    same_contents mgr mgr' \<and>
    buf os' = buf os @ [status_byte (if \<exists>f. servants mgr (ident_key (cur_id cur), f) \<noteq> None
                                     then DispatchFacetNotExist else DispatchObjectNotExist)] @
              enc (cur_id cur) @ facet_bytes (cur_facet cur) @ string_bytes (cur_operation cur)"
proof -
  obtain m1 where m1: "findTarget env cur (Some mgr) = Inr (Inr (None, None), Some m1)" "same_contents mgr m1"
    using findTarget_nothing [OF mgr] by blast
  then have ok1: "manager_ok m1" and s1: "servants m1 = servants mgr" by (simp_all add: same_contents_def)
  let ?has = "\<exists>f. servants mgr (ident_key (cur_id cur), f) \<noteq> None"
  define status where "status = (if ?has then DispatchFacetNotExist else DispatchObjectNotExist)"
  have st: "status = DispatchFacetNotExist \<or> status = DispatchObjectNotExist" by (simp add: status_def)
  obtain m2 where m2: "hasServant (cur_id cur) m1 = Inr (?has, m2)" "same_contents m1 m2"
    using hasServant_spec [OF ok1, of "cur_id cur"] s1 by auto
  have nf: "notFound cur (Some m1) = Inr (status, Some m2)" using m2(1) by (simp add: notFound_def status_def)
  obtain q where q: "endReadEncaps is2 = Inr q" using startReadEncaps_stack [OF hdr(2)] by blast
  let ?os0 = "os\<lparr>buf := buf os @ [0]\<rparr>"
  obtain os1 os2 where os1: "startWriteEncaps big ?os0 = Inr os1" and os2: "endWriteEncaps big os1 = Inr os2"
    using startWriteEncaps_fits [of ?os0 big] os by (auto simp: headerSize_def)
  have e: "os2 = ?os0\<lparr>buf := buf ?os0 @ encaps_bytes []\<rparr>" by (rule write_empty_encaps [OF os1 os2])
  have trunc: "buf_resize (headerSize + 4) os2 = os" using e os(1) by (simp add: buf_resize_def)
  let ?os3 = "os\<lparr>buf := buf os @ [status_byte status]\<rparr>"
  let ?body = "enc (cur_id cur) @ facet_bytes (cur_facet cur) @ string_bytes (cur_operation cur)"
  have w: "writeFailedRequest big env (cur_id cur) (cur_facet cur) (cur_operation cur) ?os3 =
      Inr (?os3\<lparr>buf := buf ?os3 @ ?body\<rparr>)"
    using os by (intro writeFailedRequest_fits [OF codec cur]) (simp add: headerSize_def)
  have "finishReply big env True compress cur is2 os1 status =
      Inr ([SendResponse (?os3\<lparr>buf := buf ?os3 @ ?body\<rparr>) compress], q)"
    using q os2 trunc w st by (auto simp: finishReply_def write_Byte_def)
  then have "invoke big env True compress requestId istr os (Some mgr) =
      Inr ([SendResponse (?os3\<lparr>buf := buf ?os3 @ ?body\<rparr>) compress], q, Some m2)"
    using hdr os(1) os1 m1(1) nf by (simp add: invoke_def write_Byte_def)
  moreover have "same_contents mgr m2" using m1(2) m2(2) by (simp add: same_contents_def)
  ultimately show ?thesis using q by (auto simp: status_def)
qed

text \<open>
  A twoway request whose identity and facet are not registered, and for which no locator of
  its category and no default locator exists, is answered with the status \<open>FacetNotExist\<close> when
  the identity has another facet and \<open>ObjectNotExist\<close> otherwise, followed by the identity, the
  facet and the operation of the request, in a reply whose header is untouched.\<close>

lemma invoke_not_found:
  assumes codec: "wire_codec valid enc (writeIdentity env) (readIdentity env) (\<lambda>_. True)" "converter_of env = None"
    and hdr: "readCurrent big env requestId istr = Inr (cur, is1)" "startReadEncaps big is1 = Inr is2"
    and cur: "valid (cur_id cur)" "length (cur_facet cur) < 2147483648" "length (cur_operation cur) < 2147483648"
    and mgr: "manager_ok mgr" "servants mgr (ident_key (cur_id cur), cur_facet cur) = None"
      "locators mgr (category (cur_id cur)) = None" "locators mgr [] = None"
    and os: "length (buf os) = headerSize + 4"
      "25 + length (enc (cur_id cur) @ facet_bytes (cur_facet cur) @ string_bytes (cur_operation cur)) \<le> messageSizeMax os"
  shows "\<exists>mgr' os' istr'. invoke big env True compress requestId istr os (Some mgr) = Inr ([SendResponse os' compress], istr', Some mgr') \<and>
    endReadEncaps is2 = Inr istr' \<and>
    same_contents mgr mgr' \<and>
    buf os' = buf os @ [status_byte (if \<exists>f. servants mgr (ident_key (cur_id cur), f) \<noteq> None
                                     then DispatchFacetNotExist else DispatchObjectNotExist)] @
              enc (cur_id cur) @ facet_bytes (cur_facet cur) @ string_bytes (cur_operation cur)"
  using assms by (rule invoke_missing)

lemma invoke_not_found_witness:
  "\<exists>mgr' os' istr'. invoke False (plain_env False) True 0 1
       ((stream_new 100)\<lparr>buf := [1, 65, 0, 0, 2, 111, 112, 0, 0, 6, 0, 0, 0, 1, 0]\<rparr>)
       ((stream_new 100)\<lparr>buf := replicate 18 9\<rparr>) (Some servant_manager_new) = Inr ([SendResponse os' 0], istr', Some mgr') \<and>
     buf os' = replicate 18 9 @ [2] @ [1, 65, 0, 0, 2, 111, 112]"
proof -
  let ?i = "\<lparr>name = ''A'', category = []\<rparr>"
  let ?cur = "\<lparr>cur_id = ?i, cur_facet = [], cur_operation = ''op'', cur_mode = 0, cur_ctx = [], cur_requestId = 1\<rparr>"
  let ?is = "(stream_new 100)\<lparr>buf := [1, 65, 0, 0, 2, 111, 112, 0, 0, 6, 0, 0, 0, 1, 0]\<rparr>"
  let ?os = "(stream_new 100)\<lparr>buf := replicate 18 9\<rparr>"
  have 1: "readCurrent False (plain_env False) 1 ?is = Inr (?cur, ?is\<lparr>rpos := 9\<rparr>)" by code_simp
  have "case startReadEncaps False (?is\<lparr>rpos := 9\<rparr>) of Inl _ \<Rightarrow> False | Inr _ \<Rightarrow> True" by code_simp
  then obtain is2 where 2: "startReadEncaps False (?is\<lparr>rpos := 9\<rparr>) = Inr is2" by (auto split: sum.splits)
  have b: "identity_bytes ?i = [1, 65, 0]" "facet_bytes [] = [0]" "string_bytes ''op'' = [2, 111, 112]" by code_simp+
  have "\<exists>mgr' os' istr'. invoke False (plain_env False) True 0 1 ?is ?os (Some servant_manager_new) =
      Inr ([SendResponse os' 0], istr', Some mgr') \<and> endReadEncaps is2 = Inr istr' \<and> same_contents servant_manager_new mgr' \<and>
    buf os' = buf ?os @ [status_byte (if \<exists>f. servants (servant_manager_new :: (nat, nat) servant_manager) (ident_key (cur_id ?cur), f) \<noteq> None
        then DispatchFacetNotExist else DispatchObjectNotExist)] @
      identity_bytes (cur_id ?cur) @ facet_bytes (cur_facet ?cur) @ string_bytes (cur_operation ?cur)"
    by (rule invoke_not_found [OF plain_identity.wire_codec_axioms _ 1 2])
      (simp_all add: plain_env_def identity_valid_def new_manager_ok [unfolded servant_manager_new_def] servants_def locators_def servant_manager_new_def headerSize_def b)
  then show ?thesis by (auto simp: b servants_def servant_manager_new_def)
qed

end
