(* ===== verification/ConnectionDispatch.thy ===== *)
theory ConnectionDispatch imports ConnectionMessages Incoming begin

text \<open>
  \<open>invokeAll\<close> of \<^verbatim>\<open>src/Ice-3.1.1/src/Ice/ConnectionI.cpp\<close>: the loop that dispatches the requests of a
  message, the place where a connection and the dispatcher meet.  What a servant sends back
  through the connection is played on it in the order in which \<open>invoke\<close> does it.
\<close>

section \<open>Model\<close>

fun playEffects ::
  "bool \<Rightarrow> bzip2 \<Rightarrow> io \<Rightarrow> ('o, 'l, 'k) dispatch_effect list \<Rightarrow> ('q, unit) action" where
  "playEffects big bz io [] = aret ()"
| "playEffects big bz io (SendResponse os compress # effs) =
     abind (sendResponse big bz io (buf os) compress) (\<lambda>_. playEffects big bz io effs)"
| "playEffects big bz io (SendNoResponse # effs) = abind (sendNoResponse big io) (\<lambda>_. playEffects big bz io effs)"
| "playEffects big bz io (Finished _ _ _ # effs) = playEffects big bz io effs"

text \<open>
  One pass of the loop with \<open>Suc n\<close> invocations to go.  The result tells what is left in the stream and the
  servant manager, and whether the request was left to an asynchronous servant.
\<close>

definition invokeOne ::
  "bool \<Rightarrow> bzip2 \<Rightarrow> io \<Rightarrow> ('o, 'l, 'k) dispatch_env \<Rightarrow> byte \<Rightarrow> ice_int \<Rightarrow> nat \<Rightarrow> stream \<Rightarrow> ('o, 'l) servant_manager option
     \<Rightarrow> ('q, stream \<times> ('o, 'l) servant_manager option \<times> bool) action" where
  "invokeOne big bz io env compress requestId n s mgr c =
     (let response = (\<not> conn_datagram c \<and> requestId \<noteq> 0);
          os = (if response then
                  if n \<noteq> 0 then Inl AssertionFailed
                  else andThen (writeBlob replyHdr (stream_new (messageSizeMax s))) (write_Int big requestId)
                else Inr (stream_new (messageSizeMax s)))
      in case andThen os (\<lambda>os1. invoke big env response compress requestId s os1 mgr) of
           Inl f \<Rightarrow> (Inl f, c)
         | Inr (effs, s', mgr') \<Rightarrow>
             abind (playEffects big bz io effs) (\<lambda>_. aret (s', mgr', filter is_send effs = [])) c)"

text \<open>
  The loop and its handlers.  The result is the number of requests left to asynchronous servants.
\<close>

fun invokeAll ::
  "bool \<Rightarrow> bzip2 \<Rightarrow> io \<Rightarrow> ('o, 'l, 'k) dispatch_env \<Rightarrow> byte \<Rightarrow> ice_int \<Rightarrow> nat \<Rightarrow> stream \<Rightarrow> ('o, 'l) servant_manager option
     \<Rightarrow> ('q, nat) action" where
  "invokeAll big bz io env compress requestId 0 s mgr c = (Inr 0, c)"
| "invokeAll big bz io env compress requestId (Suc n) s mgr c =
     (case invokeOne big bz io env compress requestId n s mgr c of
        (Inl (Thrown e), c1) \<Rightarrow>
          abind (setClosed io e) (\<lambda>_. abind (dropDispatches (word_of_nat (Suc n))) (\<lambda>_. aret 0)) c1
      | (Inl f, c1) \<Rightarrow> (Inl f, c1)
      | (Inr (s', mgr', async), c1) \<Rightarrow>
          abind (invokeAll big bz io env compress requestId n s' mgr') (\<lambda>k. aret (if async then Suc k else k)) c1)"

section \<open>Accounting\<close>

lemma transmit_inv: "conn_inv c \<Longrightarrow> kind \<noteq> CloseMsg \<Longrightarrow> conn_inv (snd (transmit big bz io kind compress os c))"
  using transceiverWrite_keeps [of c kind io]
  by (auto simp: transmit_def keeps_at_def split: option.splits sum.splits)

lemma sendResponse_result:
  assumes inv: "conn_inv c" and out: "conn_dispatchCount c \<noteq> 0" and io: "io_ok io"
    and run: "sendResponse big bz io os compress c = (r, c')"
  shows "(r = Inr () \<and> conn_inv c' \<and> conn_dispatchCount c' = conn_dispatchCount c - 1) \<or> (\<exists>f. r = Inl f \<and> (\<nexists>e. f = Thrown e))"
proof -
  let ?send = "acatch (transmit big bz io ReplyMsg (compress > 0) os) (setClosed io)"
  obtain r1 c1 where t: "transmit big bz io ReplyMsg (compress > 0) os c = (r1, c1)" by fastforce
  have c1: "conn_inv c1" using transmit_inv [OF inv, of ReplyMsg big bz io "compress > 0" os] t by simp
  have "quiet c (snd (?send c))" by (rule obeysD, intro quiet_acatch) simp_all
  then have count: "?send c = (Inr (), c2) \<Longrightarrow> conn_dispatchCount c2 = conn_dispatchCount c" for c2
    by (simp add: quiet_def frame_def)
  have good: "?thesis" if "?send c = (Inr (), c2)" "conn_inv c2" for c2
  proof -
    have "endDispatch big io True c2 = (r, c')" using run that by (simp add: sendResponse_def abind_def)
    then show ?thesis using endDispatch_keeps [OF that(2) _ io, of big True] count [OF that(1)] out by (simp add: keeps_at_def)
  qed
  show ?thesis
  proof (cases "\<exists>f. r1 = Inl f \<and> (\<nexists>e. f = Thrown e)")
    case True
    then obtain f where "r1 = Inl f" "\<nexists>e. f = Thrown e" by blast
    then have "sendResponse big bz io os compress c = (Inl f, c1)"
      using t by (cases f) (auto simp: sendResponse_def abind_def acatch_def)
    then show ?thesis using run \<open>\<nexists>e. f = Thrown e\<close> by auto
  next
    case False
    show ?thesis
    proof (cases r1)
      case (Inl f)
      then obtain e where "r1 = throw e" using False by blast
      then show ?thesis using t setClosed_result [OF c1 io, of e] good by (auto simp: acatch_def)
    next
      case (Inr u)
      then show ?thesis using t c1 good by (auto simp: acatch_def)
    qed
  qed
qed

text \<open>Playing the effects of one request takes one off the dispatch count, unless nothing was sent.\<close>

lemma playEffects_none: "filter is_send effs = [] \<Longrightarrow> playEffects big bz io effs c = (Inr (), c)"
  by (induction effs) (auto simp: aret_def split: if_splits elim!: is_send.elims)

lemma playEffects_one:
  assumes inv: "conn_inv c" and io: "io_ok io" and out: "conn_dispatchCount c \<noteq> 0"
    and one: "filter is_send effs = [e]" and run: "playEffects big bz io effs c = (r, c')"
  shows "(r = Inr () \<and> conn_inv c' \<and> conn_dispatchCount c' = conn_dispatchCount c - 1) \<or> (\<exists>f. r = Inl f \<and> (\<nexists>e. f = Thrown e))"
  using one run
proof (induction effs)
  case Nil
  then show ?case by simp
next
  case (Cons x effs)
  show ?case
  proof (cases x)
    case (Finished l ob k)
    then show ?thesis using Cons by simp
  next
    case (SendResponse os k)
    then have rest: "filter is_send effs = []" using Cons.prems by simp
    obtain r1 c1 where s: "sendResponse big bz io (buf os) k c = (r1, c1)" by fastforce
    then have "(r, c') = (r1, c1)"
      using Cons.prems(2) SendResponse playEffects_none [OF rest, of big bz io c1] by (auto simp: abind_def split: sum.splits)
    then show ?thesis using sendResponse_result [OF inv out io s] by simp
  next
    case SendNoResponse
    then have rest: "filter is_send effs = []" using Cons.prems by simp
    obtain c1 where s: "sendNoResponse big io c = (Inr (), c1)" "conn_inv c1" "conn_dispatchCount c1 = conn_dispatchCount c - 1"
      using endDispatch_keeps [OF inv out io, of big False]
      by (cases "sendNoResponse big io c") (auto simp: sendNoResponse_def keeps_at_def)
    then show ?thesis using Cons.prems(2) SendNoResponse playEffects_none [OF rest, of big bz io c1] by (auto simp: abind_def)
  qed
qed

lemma invoke_sends:
  assumes "invoke big env response compress requestId s os mgr = Inr (effs, s', mgr')"
  shows "filter is_send effs = [] \<or> (\<exists>e. filter is_send effs = [e])"
  using invoke_answer [OF assms] by (auto simp: one_answer_def split: if_splits)

lemma invokeOne_result:
  assumes inv: "conn_inv c" and io: "io_ok io" and out: "conn_dispatchCount c \<noteq> 0"
    and run: "invokeOne big bz io env compress requestId n s mgr c = (r, c')"
  shows "case r of
      Inr (s', mgr', async) \<Rightarrow> conn_inv c' \<and> conn_dispatchCount c' = conn_dispatchCount c - (if async then 0 else 1)
    | Inl f \<Rightarrow> (\<exists>e. f = Thrown e) \<longrightarrow> c' = c"
proof -
  let ?response = "\<not> conn_datagram c \<and> requestId \<noteq> 0"
  let ?os = "if ?response then if n \<noteq> 0 then Inl AssertionFailed
       else andThen (writeBlob replyHdr (stream_new (messageSizeMax s))) (write_Int big requestId)
     else Inr (stream_new (messageSizeMax s))"
  show ?thesis
  proof (cases "andThen ?os (\<lambda>os1. invoke big env ?response compress requestId s os1 mgr)")
    case (Inl f)
    then show ?thesis using run by (auto simp: invokeOne_def Let_def)
  next
    case (Inr x)
    obtain effs s' mgr' where x: "x = (effs, s', mgr')" by (cases x)
    have sends: "filter is_send effs = [] \<or> (\<exists>e. filter is_send effs = [e])"
      using Inr x by (auto simp: andThen_eq_Inr dest: invoke_sends)
    obtain r1 c1 where p: "playEffects big bz io effs c = (r1, c1)" by fastforce
    have rc: "(r, c') = abind (playEffects big bz io effs) (\<lambda>_. aret (s', mgr', filter is_send effs = [])) c"
      using run Inr x unfolding invokeOne_def Let_def by simp
    from sends show ?thesis
    proof (elim disjE exE)
      assume "filter is_send effs = []"
      then show ?thesis using rc playEffects_none [of effs big bz io c] inv by (simp add: abind_def aret_def)
    next
      fix e
      assume "filter is_send effs = [e]"
      then show ?thesis using rc p playEffects_one [OF inv io out _ p] by (auto simp: abind_def aret_def)
    qed
  qed
qed

text \<open>
  C12: the dispatch count is right after a message has been dispatched.  Of the requests the message
  was counted for, those whose servant answered, those whose dispatch failed and those behind a
  failed one have been taken off again, and only the ones left to an asynchronous servant, which
  will be answered later, still count.
\<close>

theorem invokeAll_accounts:
  assumes "conn_inv c" and "io_ok io" and "n \<le> unat (conn_dispatchCount c)" and "unat (conn_dispatchCount c) < 2147483648"
    and "invokeAll big bz io env compress requestId n s mgr c = (Inr k, c')"
  shows "conn_inv c' \<and> k \<le> n \<and> unat (conn_dispatchCount c') = unat (conn_dispatchCount c) - n + k"
  using assms
proof (induction n arbitrary: s mgr c k)
  case 0
  then show ?case by simp
next
  case (Suc n)
  have out: "conn_dispatchCount c \<noteq> 0" using Suc.prems(3) by auto
  obtain r c1 where one: "invokeOne big bz io env compress requestId n s mgr c = (r, c1)" by fastforce
  note res = invokeOne_result [OF Suc.prems(1,2) out one]
  show ?case
  proof (cases r)
    case (Inl f)
    then obtain e where e: "f = Thrown e" using Suc.prems(5) one by (cases f) auto
    then have c1: "c1 = c" using res Inl by simp
    obtain c2 where c2: "setClosed io e c = (Inr (), c2)" "conn_inv c2" "conn_state c2 = StateClosed"
        "conn_dispatchCount c2 = conn_dispatchCount c"
      using setClosed_result [OF Suc.prems(1,2), of e] by blast
    have small: "unat (word_of_nat (Suc n) :: ice_int) = Suc n" using Suc.prems(3,4) by (simp add: unat_of_nat del: of_nat_Suc)
    have le: "(word_of_nat (Suc n) :: ice_int) \<le> conn_dispatchCount c" using small Suc.prems(3) by (simp add: word_le_nat_alt del: of_nat_Suc)
    have d: "unat (conn_dispatchCount c - word_of_nat (Suc n)) = unat (conn_dispatchCount c) - Suc n"
      using small le by (simp add: unat_sub del: of_nat_Suc)
    have pos: "0 < sint (word_of_nat (Suc n) :: ice_int)" "0 < sint (conn_dispatchCount c)"
        "0 \<le> sint (conn_dispatchCount c - word_of_nat (Suc n))"
      by (intro sint_pos_iff [THEN iffD2] sint_nonneg_iff [THEN iffD2]; use small d Suc.prems(3,4) in linarith)+
    have "invokeAll big bz io env compress requestId (Suc n) s mgr c =
        (Inr 0, c2\<lparr>conn_dispatchCount := conn_dispatchCount c - word_of_nat (Suc n)\<rparr>)"
      using one Inl e c1 c2(1,4) pos
      by (simp add: abind_def aret_def dropDispatches_def Let_def del: of_nat_Suc)
    then have "k = 0" and c': "c' = c2\<lparr>conn_dispatchCount := conn_dispatchCount c - word_of_nat (Suc n)\<rparr>"
      using Suc.prems(5) by simp_all
    then show ?thesis using c2 d conn_inv_dispatch [OF c2(2)] by simp
  next
    case (Inr x)
    obtain s' mgr' async where x: "x = (s', mgr', async)" by (cases x)
    have c1: "conn_inv c1" "conn_dispatchCount c1 = conn_dispatchCount c - (if async then 0 else 1)"
      using res Inr x by simp_all
    have u: "unat (conn_dispatchCount c1) = unat (conn_dispatchCount c) - (if async then 0 else 1)"
      using c1(2) out by (simp add: unat_minus_one)
    obtain j where j: "invokeAll big bz io env compress requestId n s' mgr' c1 = (Inr j, c')" "k = (if async then Suc j else j)"
      using Suc.prems(5) one Inr x by (auto simp: abind_def aret_def split: prod.splits sum.splits)
    have "n \<le> unat (conn_dispatchCount c1)" "unat (conn_dispatchCount c1) < 2147483648"
      using u Suc.prems(3,4) by (auto split: if_splits)
    from Suc.IH [OF c1(1) Suc.prems(2) this j(1)] show ?thesis using u j(2) Suc.prems(3) by (auto split: if_splits)
  qed
qed

text \<open>A batch of two requests with nothing in it: the first dispatch fails, both are taken off the count.\<close>

definition batch_conn :: "nat connection" where
  "batch_conn = active_conn\<lparr>conn_dispatchCount := 2\<rparr>"

lemma batch_conn_inv: "conn_inv batch_conn"
proof -
  have "conn_inv active_conn" using reachable_world [OF active_reachable] by (simp add: world_inv_def)
  then show ?thesis unfolding batch_conn_def by (rule conn_inv_dispatch) (simp_all add: sample_conns)
qed

lemma batch_fails:
  "\<exists>c'. invokeAll False store_bz calm_io (plain_env False) 0 0 2 (sample_batch 2) None batch_conn = (Inr 0, c')"
proof -
  have "read_string False None True (sample_batch 2) = throw UnmarshalOutOfBoundsException"
    by (simp add: read_string_def readSize_def rbind_def read_Byte_def sample_batch_def stream_new_def requestBatchHdr_def magic_def)
  then have one: "invokeOne False store_bz calm_io (plain_env False) 0 0 (Suc 0) (sample_batch 2) None batch_conn =
      (throw UnmarshalOutOfBoundsException, batch_conn)"
    by (simp add: invokeOne_def Let_def invoke_def readCurrent_def plain_env_def rbind_def batch_conn_def)
  obtain c2 where "setClosed calm_io UnmarshalOutOfBoundsException batch_conn = (Inr (), c2)" "conn_dispatchCount c2 = 2"
    using setClosed_result [OF batch_conn_inv calm_io_ok, of UnmarshalOutOfBoundsException] by (auto simp: batch_conn_def)
  then show ?thesis using one by (simp add: numeral_2_eq_2 abind_def aret_def dropDispatches_def sint_if)
qed

theorem invokeAll_accounts_witness:
  "\<exists>c'. invokeAll False store_bz calm_io (plain_env False) 0 0 2 (sample_batch 2) None batch_conn = (Inr 0, c') \<and>
     unat (conn_dispatchCount c') = 0"
proof -
  obtain c' where run: "invokeAll False store_bz calm_io (plain_env False) 0 0 2 (sample_batch 2) None batch_conn = (Inr 0, c')"
    using batch_fails by blast
  show ?thesis using invokeAll_accounts [OF batch_conn_inv calm_io_ok _ _ run] run by (simp add: batch_conn_def)
qed

end
