(* ===== verification/ConnectionRobust.thy ===== *)
theory ConnectionRobust imports ConnectionProps begin

text \<open>
  What every section of \<^verbatim>\<open>src/Ice-3.1.1/src/Ice/ConnectionI.cpp\<close> keeps when the transceiver may fail in any way, also when
  the write side of the socket is shut down, which leaves a connection with an exception in a state
  that is not closing: an invariant weaker than that of \<open>ConnectionState\<close>, and the failures a
  section may end with.
\<close>

section \<open>What holds with a failing transceiver\<close>

text \<open>With \<open>calm\<close>, no shutdown of the write side has failed so far.\<close>

definition robust :: "bool \<Rightarrow> 'q connection \<Rightarrow> bool" where
  "robust calm c \<longleftrightarrow>
     \<not> conn_threadPerConnection c \<and>
     (conn_state c \<ge> StateClosing \<longrightarrow> conn_exception c \<noteq> None) \<and>
     (calm \<longrightarrow> conn_exception c \<noteq> None \<longrightarrow> conn_state c \<ge> StateClosing) \<and>
     (conn_registeredWithPool c \<longrightarrow> conn_state c = StateActive \<or> conn_state c = StateClosing) \<and>
     (conn_transceiver c \<or> conn_state c = StateClosed) \<and>
     0 \<le> conn_finishedCount c \<and>
     (conn_state c = StateNotValidated \<longrightarrow> conn_finishedCount c = 0 \<and> conn_dispatchCount c = 0) \<and>
     (conn_state c = StateClosed \<longrightarrow> conn_transceiver c = (0 < conn_finishedCount c)) \<and>
     (conn_datagram c \<longrightarrow> conn_state c \<noteq> StateClosing) \<and>
     tables_inv c"

definition robust_at :: "bool \<Rightarrow> 'q connection \<Rightarrow> ('q, 'a) action \<Rightarrow> bool" where
  "robust_at calm c act \<longleftrightarrow> robust calm (snd (act c)) \<and> orderly (fst (act c))"

lemmas robust_defs = robust_def tables_inv_def state_order

lemma robust_update [simp]:
  "robust k (c\<lparr>conn_nextRequestId := n\<rparr>) = robust k c"
  "robust k (c\<lparr>conn_acmAbsoluteTimeout := t\<rparr>) = robust k c"
  "robust k (c\<lparr>conn_batchStream := s\<rparr>) = robust k c"
  "robust k (c\<lparr>conn_batchStreamInUse := b\<rparr>) = robust k c"
  "robust k (c\<lparr>conn_batchRequestNum := m\<rparr>) = robust k c"
  "robust k (c\<lparr>conn_batchRequestCompress := b\<rparr>) = robust k c"
  "robust k (c\<lparr>conn_adapter := b\<rparr>) = robust k c"
  "robust k (c\<lparr>conn_servantManager := b\<rparr>) = robust k c"
  "robust k (c\<lparr>conn_log := l\<rparr>) = robust k c"
  by (simp_all add: robust_def tables_inv_def)

lemma robust_acmReset [simp]: "robust k (acmReset io c) = robust k c"
  by (simp add: acmReset_def)

lemma robust_exception: "robust k c \<Longrightarrow> conn_state c \<ge> StateClosing \<Longrightarrow> conn_exception c \<noteq> None"
  by (simp add: robust_def)

lemma robust_transceiver: "robust k c \<Longrightarrow> \<not> conn_transceiver c \<Longrightarrow> conn_exception c \<noteq> None"
  by (auto simp: robust_defs)

lemma robust_open: "robust k c \<Longrightarrow> conn_exception c = None \<Longrightarrow> conn_state c < StateClosing \<and> conn_transceiver c"
  by (auto simp: robust_defs)

lemma robust_atD: "robust_at k c act \<Longrightarrow> act c = (r, c') \<Longrightarrow> robust k c' \<and> orderly r"
  by (simp add: robust_at_def)

lemma robust_at_abind:
  assumes "robust_at k c m" "\<And>x c'. m c = (Inr x, c') \<Longrightarrow> robust k c' \<Longrightarrow> robust_at k c' (f x)"
  shows "robust_at k c (abind m f)"
proof (cases "m c")
  case (Pair r c')
  then show ?thesis using assms by (cases r) (auto simp: robust_at_def abind_def orderly_def split: failure.splits)
qed

lemma robust_at_acatch:
  assumes "robust_at k c m" "\<And>e c'. m c = (throw e, c') \<Longrightarrow> robust k c' \<Longrightarrow> robust_at k c' (h e)"
  shows "robust_at k c (acatch m h)"
proof (cases "m c")
  case (Pair r c')
  then show ?thesis using assms by (cases r) (auto simp: robust_at_def acatch_def split: failure.splits)
qed

lemma robust_at_basic [simp]: "robust_at k c (aret x) = robust k c" "robust_at k c (afail (Thrown e)) = robust k c"
  by (simp_all add: robust_at_def aret_def afail_def)

lemma robust_rethrow: "robust k c \<Longrightarrow> conn_exception c \<noteq> None \<Longrightarrow> robust_at k c rethrow"
  by (auto simp: robust_at_def rethrow_def)

subsection \<open>Changing the state\<close>

text \<open>What \<open>setClosed\<close> does, before and after validation.\<close>

lemma setClosed_fresh:
  assumes "conn_state c = StateNotValidated" and "\<not> conn_registeredWithPool c" and "conn_transceiver c" and "\<not> conn_threadPerConnection c"
  shows "setClosed io ex c =
    (Inr (), c\<lparr>conn_exception := Some (case conn_exception c of None \<Rightarrow> ex | Some e \<Rightarrow> e),
               conn_log := conn_log c @ [TransceiverClosed], conn_transceiver := False, conn_state := StateClosed\<rparr>)"
  using assms
  by (cases "io_close io")
    (auto simp: setClosed_def recordException_def switchState_def targetState_def Let_def action_defs
      split: option.splits intro!: connection.equality)

lemma setClosed_running:
  assumes "conn_state c \<in> {StateActive, StateHolding, StateClosing}" and "conn_transceiver c" and "\<not> conn_threadPerConnection c"
  shows "setClosed io ex c =
    (let c1 = c\<lparr>conn_exception := Some (case conn_exception c of None \<Rightarrow> ex | Some e \<Rightarrow> e),
                conn_registeredWithPool := False, conn_finishedCount := conn_finishedCount c + 1\<rparr>
     in case io_shutdownWrite io of None \<Rightarrow> (Inr (), c1\<lparr>conn_state := StateClosed\<rparr>) | Some e \<Rightarrow> (throw e, c1))"
proof -
  have "conn_state c \<noteq> StateClosed" "conn_state c \<noteq> StateNotValidated" using assms(1) by auto
  then show ?thesis using assms(2,3)
    by (cases "conn_registeredWithPool c")
      (auto simp: setClosed_def recordException_def switchState_def targetState_def Let_def action_defs
        split: option.splits intro!: connection.equality)
qed

lemma setClosed_closed: "conn_state c = StateClosed \<Longrightarrow> setClosed io ex c = (Inr (), c)"
  by (simp add: setClosed_def)

text \<open>
  Closing a connection fails only with what the shutdown of the write side throws; otherwise the
  connection is closed and has an exception.
\<close>

lemma setClosed_robust:
  assumes rob: "robust k c" and io: "k \<longrightarrow> io_ok io" and run: "setClosed io ex c = (r, c')"
  shows "robust k c'"
    and "case r of Inr _ \<Rightarrow> conn_state c' = StateClosed \<and> conn_exception c' \<noteq> None
      | Inl f \<Rightarrow> \<exists>e. f = Thrown e \<and> io_shutdownWrite io = Some e"
proof -
  consider "conn_state c = StateClosed" | "conn_state c = StateNotValidated" |
      "conn_state c \<in> {StateActive, StateHolding, StateClosing}" by (cases "conn_state c") auto
  then have "robust k c' \<and> (case r of Inr _ \<Rightarrow> conn_state c' = StateClosed \<and> conn_exception c' \<noteq> None
      | Inl f \<Rightarrow> \<exists>e. f = Thrown e \<and> io_shutdownWrite io = Some e)"
  proof cases
    case 1
    then show ?thesis using rob run by (auto simp: setClosed_closed robust_defs)
  next
    case 2
    have "\<not> conn_registeredWithPool c" "conn_transceiver c" "\<not> conn_threadPerConnection c"
      using rob 2 by (auto simp: robust_def)
    from setClosed_fresh [OF 2 this, of io ex] run rob 2 show ?thesis by (auto simp: robust_defs)
  next
    case 3
    then have t: "conn_transceiver c" "\<not> conn_threadPerConnection c" using rob by (auto simp: robust_def)
    note e = setClosed_running [OF 3 t, of io ex, unfolded run Let_def]
    show ?thesis
    proof (cases "io_shutdownWrite io")
      case None
      then show ?thesis using e rob 3 t by (auto simp: robust_defs)
    next
      case (Some x)
      then have "\<not> k" using io by (simp add: io_ok_def)
      then show ?thesis using e Some rob 3 t by (auto simp: robust_defs)
    qed
  qed
  then show "robust k c'" and "case r of Inr _ \<Rightarrow> conn_state c' = StateClosed \<and> conn_exception c' \<noteq> None
      | Inl f \<Rightarrow> \<exists>e. f = Thrown e \<and> io_shutdownWrite io = Some e" by blast+
qed

lemma setClosed_at: "robust k c \<Longrightarrow> k \<longrightarrow> io_ok io \<Longrightarrow> robust_at k c (setClosed io ex)"
  using setClosed_robust [of k c io ex] by (cases "setClosed io ex c") (force simp: robust_at_def orderly_def split: sum.splits)

lemma setClosed_done:
  "robust k c \<Longrightarrow> k \<longrightarrow> io_ok io \<Longrightarrow> setClosed io ex c = (Inr x, c') \<Longrightarrow>
     robust k c' \<and> conn_state c' = StateClosed \<and> conn_exception c' \<noteq> None"
  using setClosed_robust [of k c io ex "Inr x" c'] by simp

lemma closeAndThrow_at: "robust k c \<Longrightarrow> k \<longrightarrow> io_ok io \<Longrightarrow> robust_at k c (closeAndThrow io ex)"
  unfolding closeAndThrow_def
  by (intro robust_at_abind setClosed_at) (auto dest: setClosed_done intro: robust_rethrow)

lemma setStateEx_Closed_at: "robust k c \<Longrightarrow> k \<longrightarrow> io_ok io \<Longrightarrow> robust_at k c (setStateEx big io StateClosed ex)"
  by (simp add: setStateEx_Closed setClosed_at)

text \<open>Activating and holding.\<close>

lemma switch_robust:
  assumes "robust k c" and "state = StateActive \<or> state = StateHolding"
  shows "\<exists>b c'. switchState io state c = (Inr b, c') \<and> robust k c' \<and> (b \<longrightarrow> conn_state c' = state)"
  using assms
  by (cases "conn_state c"; cases "conn_registeredWithPool c")
    (auto simp: switchState_def targetState_def Let_def action_defs robust_defs)

lemma setState_at:
  assumes "robust k c" and "state = StateActive \<or> state = StateHolding"
  shows "robust_at k c (setState big io state)"
proof -
  obtain b c' where "switchState io state c = (Inr b, c')" "robust k c'" "b \<longrightarrow> conn_state c' = state"
    using switch_robust [OF assms, of io] by blast
  then show ?thesis using assms(2) by (auto simp: robust_at_def setState_def abind_def)
qed

text \<open>A graceful shutdown.\<close>

lemma initiateShutdown_at:
  assumes "robust k c" and "conn_state c = StateClosing" and "conn_dispatchCount c = 0"
  shows "robust_at k c (initiateShutdown big io)"
proof -
  have "conn_transceiver c" using assms(1,2) by (auto simp: robust_def)
  then show ?thesis using assms by (auto simp: robust_at_def initiateShutdown_def action_defs split: option.splits)
qed

lemma recordException_robust:
  "conn_state c \<noteq> StateClosed \<Longrightarrow> recordException ex c =
     (Inr (), c\<lparr>conn_exception := Some (case conn_exception c of None \<Rightarrow> ex | Some e \<Rightarrow> e)\<rparr>)"
  by (auto simp: recordException_def split: option.splits intro!: connection.equality)

text \<open>A connection that was not validated, and one for datagrams, is closed at once.\<close>

lemma setStateEx_Closing_closes:
  assumes rob: "robust k c" and io: "k \<longrightarrow> io_ok io" and st: "conn_datagram c \<or> conn_state c = StateNotValidated"
    and neq: "conn_state c \<noteq> StateClosing" "conn_state c \<noteq> StateClosed"
  shows "setStateEx big io StateClosing ex c = setClosed io ex c"
proof -
  let ?c1 = "c\<lparr>conn_exception := Some (case conn_exception c of None \<Rightarrow> ex | Some e \<Rightarrow> e)\<rparr>"
  have "targetState StateClosing ?c1 = targetState StateClosed ?c1" using st by (auto simp: targetState_def)
  then have sw: "switchState io StateClosing ?c1 = switchState io StateClosed ?c1" by (simp add: switchState_def)
  obtain r c' where run: "setClosed io ex c = (r, c')" by fastforce
  then have "abind (switchState io StateClosed) (\<lambda>_. aret ()) ?c1 = (r, c')"
    using neq recordException_robust [OF neq(2), of ex] by (simp add: setClosed_def abind_def)
  then have "setState big io StateClosing ?c1 = (r, c')"
    using sw setClosed_robust(2) [OF rob io run]
    by (auto simp: setState_def abind_def aret_def split: prod.splits sum.splits)
  then show ?thesis using run neq recordException_robust [OF neq(2), of ex] by (simp add: setStateEx_def abind_def)
qed

lemma setStateEx_Closing_late:
  assumes "robust k c" and "conn_state c = StateClosing \<or> conn_state c = StateClosed"
  shows "setStateEx big io StateClosing ex c = (Inr (), c)"
proof -
  obtain e where "conn_exception c = Some e" using assms by (auto simp: robust_defs)
  then show ?thesis using assms(2)
    by (elim disjE) (simp_all add: setStateEx_def setState_def recordException_def switchState_def targetState_def Let_def abind_def)
qed

lemma setStateEx_Closing_at:
  assumes rob: "robust k c" and io: "k \<longrightarrow> io_ok io"
  shows "robust_at k c (setStateEx big io StateClosing ex)"
proof (cases "conn_state c = StateClosing \<or> conn_state c = StateClosed")
  case True
  then show ?thesis using setStateEx_Closing_late [OF rob True, of big io ex] rob by (simp add: robust_at_def)
next
  case early: False
  then have neq: "conn_state c \<noteq> StateClosing" "conn_state c \<noteq> StateClosed" by simp_all
  show ?thesis
  proof (cases "conn_datagram c \<or> conn_state c = StateNotValidated")
    case True
    then show ?thesis using setStateEx_Closing_closes [OF rob io True neq, of big ex] setClosed_at [OF rob io, of ex]
      by (simp add: robust_at_def)
  next
    case False
    let ?c1 = "c\<lparr>conn_exception := Some (case conn_exception c of None \<Rightarrow> ex | Some e \<Rightarrow> e)\<rparr>"
    let ?c2 = "?c1\<lparr>conn_registeredWithPool := True, conn_state := StateClosing\<rparr>"
    have start: "setStateEx big io StateClosing ex c = setState big io StateClosing ?c1"
      using neq recordException_robust [OF neq(2), of ex] by (simp add: setStateEx_def abind_def)
    have tr: "conn_transceiver c" "\<not> conn_threadPerConnection c" using rob neq by (auto simp: robust_def)
    have sw: "switchState io StateClosing ?c1 = (Inr True, ?c2)"
      using False neq tr
      by (cases "conn_state c"; cases "conn_registeredWithPool c")
        (auto simp: switchState_def targetState_def Let_def action_defs intro!: connection.equality)
    have rob2: "robust k ?c2" using rob False neq tr by (auto simp: robust_defs)
    have "robust_at k ?c2 (acatch (initiateShutdown big io) (setClosed io))" if "conn_dispatchCount c = 0"
      using rob2 that io by (intro robust_at_acatch initiateShutdown_at setClosed_at) simp_all
    then show ?thesis using start sw rob2 by (simp add: robust_at_def setState_def abind_def)
  qed
qed

subsection \<open>The other sections\<close>

lemma monitor_at: "robust k c \<Longrightarrow> k \<longrightarrow> io_ok io \<Longrightarrow> robust_at k c (monitor big io)"
  using setStateEx_Closed_at [of k c io big TimeoutException] setStateEx_Closing_at [of k c io big ConnectionTimeoutException]
  by (simp add: robust_at_def monitor_def)

lemma destroy_at: "robust k c \<Longrightarrow> k \<longrightarrow> io_ok io \<Longrightarrow> robust_at k c (destroy big io reason)"
  using setStateEx_Closing_at [of k c io big] by (cases reason) (simp_all add: destroy_def)

lemma failRequests_robust:
  assumes "robust k c"
  shows "\<exists>c'. failRequests c = (Inr (), c') \<and> robust k c' \<and> conn_state c' = conn_state c"
proof (cases "conn_state c = StateClosed \<or> conn_state c = StateClosing")
  case True
  then obtain ex where "conn_exception c = Some ex" using assms by (auto simp: robust_defs)
  then show ?thesis using True assms by (auto simp: failRequests_def Let_def robust_def tables_inv_def)
next
  case False
  then show ?thesis using assms by (auto simp: failRequests_def)
qed

lemma finished_at:
  assumes rob: "robust k c" and pos: "0 < conn_finishedCount c"
  shows "robust_at k c (finished_conn io)"
proof -
  let ?c1 = "c\<lparr>conn_finishedCount := conn_finishedCount c - 1\<rparr>"
  have pool: "\<not> conn_threadPerConnection c" using rob by (simp add: robust_def)
  show ?thesis
  proof (cases "conn_finishedCount c = 1 \<and> conn_state c = StateClosed")
    case True
    let ?c2 = "?c1\<lparr>conn_transceiver := False, conn_log := conn_log c @ [TransceiverClosed]\<rparr>"
    have tr: "conn_transceiver c" using rob pos True by (auto simp: robust_def)
    have "robust k ?c2" using rob True tr by (auto simp: robust_def tables_inv_def)
    then obtain c' where "failRequests ?c2 = (Inr (), c')" "robust k c'" using failRequests_robust by blast
    then show ?thesis using True tr pool
      by (auto simp: robust_at_def finished_conn_def Let_def abind_def aret_def afail_def split: option.splits)
  next
    case False
    have "robust k ?c1" using rob pos False by (auto simp: robust_def tables_inv_def)
    then obtain c' where "failRequests ?c1 = (Inr (), c')" "robust k c'" using failRequests_robust by blast
    then show ?thesis using False pool by (auto simp: robust_at_def finished_conn_def Let_def)
  qed
qed

lemma transceiverWrite_at: "robust k c \<Longrightarrow> conn_transceiver c \<Longrightarrow> robust_at k c (transceiverWrite io kind bs)"
  by (auto simp: robust_at_def action_defs split: option.splits)

lemma transmit_at:
  assumes rob: "robust k c" and os: "headerSize \<le> length os"
  shows "robust_at k c (transmit big bz io kind compress os)"
proof (cases "conn_transceiver c")
  case True
  show ?thesis
  proof (cases "snd (prepareMessage big bz (conn_compressionLevel c) compress os)")
    case (Inl e)
    then show ?thesis using True rob prepareMessage_fails [OF os Inl] by (simp add: robust_at_def transmit_def)
  next
    case (Inr bytes)
    then show ?thesis using True transceiverWrite_at [OF rob True, of io kind bytes] by (simp add: robust_at_def transmit_def)
  qed
next
  case False
  then show ?thesis using rob robust_transceiver [OF rob False] by (auto simp: robust_at_def transmit_def)
qed

lemma robust_tables:
  assumes "robust k c"
  shows "robust k (c\<lparr>conn_requests := sm_insert i q (conn_requests c), conn_requestsHint := Some i\<rparr>)"
    and "robust k (c\<lparr>conn_asyncRequests := sm_insert i v (conn_asyncRequests c), conn_asyncRequestsHint := Some i\<rparr>)"
    and "robust k (eraseRequest i c)" and "robust k (eraseAsyncRequest i c)"
  using assms
  by (simp_all add: robust_def tables_inv_def iter_ok_Some_insert eraseRequest_def eraseAsyncRequest_def iter_ok_next iter_ok_erase)

lemma beginRequest_at:
  assumes rob: "robust k c" and st: "conn_state c \<noteq> StateNotValidated" and os: "headerSize + 4 \<le> length os"
    and dg: "out \<noteq> None \<longrightarrow> \<not> conn_datagram c"
  shows "robust_at k c (beginRequest big io out os)"
proof (cases "conn_exception c")
  case None
  obtain rid nx where id: "newRequestId c = (Inr rid, c\<lparr>conn_nextRequestId := nx\<rparr>)" using newRequestId_result by blast
  show ?thesis using None rob st dg id robust_open [OF rob None] robust_tables(1) [of k "c\<lparr>conn_nextRequestId := nx\<rparr>"]
      patchInt_eq [OF os, of big rid]
    by (auto simp: robust_at_def beginRequest_def not_early not_late abind_def split: option.splits)
next
  case (Some ex)
  then show ?thesis using rob dg by (auto simp: robust_at_def beginRequest_def)
qed

lemma beginAsyncRequest_at:
  assumes rob: "robust k c" and st: "conn_state c \<noteq> StateNotValidated" and os: "headerSize + 4 \<le> length os"
    and dg: "\<not> conn_datagram c"
  shows "robust_at k c (beginAsyncRequest big io q os)"
proof (cases "conn_exception c")
  case None
  obtain rid nx where id: "newRequestId c = (Inr rid, c\<lparr>conn_nextRequestId := nx\<rparr>)" using newRequestId_result by blast
  show ?thesis using None rob st dg id robust_open [OF rob None] robust_tables(2) [of k "c\<lparr>conn_nextRequestId := nx\<rparr>"]
      patchInt_eq [OF os, of big rid]
    by (auto simp: robust_at_def beginAsyncRequest_def not_early not_late abind_def Let_def)
next
  case (Some ex)
  then show ?thesis using rob dg by (auto simp: robust_at_def beginAsyncRequest_def)
qed

lemma requestFailed_at:
  assumes "robust k c" "k \<longrightarrow> io_ok io"
  shows "robust_at k c (requestFailed io out rid ex)"
  unfolding requestFailed_def
proof (intro robust_at_abind setClosed_at [OF assms])
  fix x c'
  assume "setClosed io ex c = (Inr x, c')"
  note c' = setClosed_done [OF assms this]
  have "robust_at k c' rethrow" "robust_at k (eraseRequest (sint rid) c') rethrow"
    using c' robust_tables(3) [of k c'] by (auto intro: robust_rethrow)
  then show "robust_at k c' (\<lambda>c. if conn_exception c = None then (Inl AssertionFailed, c)
       else case out of None \<Rightarrow> rethrow c
         | Some _ \<Rightarrow> (case sm_find (sint rid) (conn_requests c) of
                None \<Rightarrow> (Inr (), c) | Some _ \<Rightarrow> rethrow (eraseRequest (sint rid) c)))"
    using c' by (auto simp: robust_at_def split: option.splits)
qed

lemma asyncRequestFailed_at:
  assumes "robust k c" "k \<longrightarrow> io_ok io"
  shows "robust_at k c (asyncRequestFailed io rid ex)"
  unfolding asyncRequestFailed_def
proof (intro robust_at_abind setClosed_at [OF assms])
  fix x c'
  assume "setClosed io ex c = (Inr x, c')"
  note c' = setClosed_done [OF assms this]
  have "robust_at k (eraseAsyncRequest (sint rid) c') rethrow"
    using c' robust_tables(4) [of k c'] by (auto intro: robust_rethrow)
  then show "robust_at k c' (\<lambda>c. if conn_exception c = None then (Inl AssertionFailed, c)
       else case sm_find (sint rid) (conn_asyncRequests c) of
           None \<Rightarrow> (Inr (), c) | Some _ \<Rightarrow> rethrow (eraseAsyncRequest (sint rid) c))"
    using c' by (auto simp: robust_at_def split: option.splits)
qed

text \<open>Ending a dispatch, at most one of the handlers' exceptions comes out.\<close>

lemma robust_count: "robust k c \<Longrightarrow> conn_state c \<noteq> StateNotValidated \<Longrightarrow> robust k (c\<lparr>conn_dispatchCount := d\<rparr>)"
  by (simp add: robust_def tables_inv_def)

lemma endDispatch_at:
  assumes rob: "robust k c" and out: "conn_dispatchCount c \<noteq> 0" and io: "k \<longrightarrow> io_ok io"
  shows "robust_at k c (endDispatch big io acm)" and "conn_dispatchCount (snd (endDispatch big io acm c)) = conn_dispatchCount c - 1"
proof -
  have st: "conn_state c \<noteq> StateNotValidated" using rob out by (auto simp: robust_def)
  let ?c = "c\<lparr>conn_dispatchCount := conn_dispatchCount c - 1\<rparr>"
  let ?m = "\<lambda>c1 :: 'a connection. if conn_state c1 = StateClosing \<and> conn_dispatchCount c1 = 0
              then abind (initiateShutdown big io) (\<lambda>_ c2. (Inr (), if acm then acmReset io c2 else c2)) c1
              else (Inr (), if acm then acmReset io c1 else c1)"
  have rob1: "robust k ?c" by (rule robust_count [OF rob st])
  have e: "endDispatch big io acm c = acatch ?m (setClosed io) ?c" using st by (simp add: endDispatch_def not_early)
  have m: "robust_at k ?c ?m"
  proof (cases "conn_state ?c = StateClosing \<and> conn_dispatchCount ?c = 0")
    case True
    then have "robust_at k ?c (abind (initiateShutdown big io)
        (\<lambda>_ c2. (Inr () :: failure + unit, if acm then acmReset io c2 else c2)))"
      using rob1 by (intro robust_at_abind initiateShutdown_at) (auto simp: robust_at_def)
    then show ?thesis using True by (simp add: robust_at_def)
  next
    case False
    then show ?thesis using rob1 by (auto simp: robust_at_def)
  qed
  have "robust_at k ?c (acatch ?m (setClosed io))" by (intro robust_at_acatch m setClosed_at io)
  then show "robust_at k c (endDispatch big io acm)" using e by (simp add: robust_at_def)
  have "quiet ?c (snd (endDispatch big io acm c)) \<or> snd (endDispatch big io acm c) = c" by (rule endDispatch_frame)
  moreover have "snd (endDispatch big io acm c) \<noteq> c"
  proof
    have f: "obeys quiet ?m" 
    proof -
      have "obeys quiet (abind (initiateShutdown big io)
          (\<lambda>_ c2 :: 'a connection. (Inr () :: failure + unit, if acm then acmReset io c2 else c2)))"
        by (intro quiet_abind quiet_initiateShutdown, rule obeysI) simp
      then show ?thesis by (auto simp: obeys_def)
    qed
    have "quiet ?c (snd (acatch ?m (setClosed io) ?c))" by (rule obeysD, rule quiet_acatch [OF f]) simp
    moreover assume "snd (endDispatch big io acm c) = c"
    ultimately have "conn_dispatchCount c = conn_dispatchCount c - 1" using e by (simp add: quiet_def frame_def)
    then show False by simp
  qed
  ultimately show "conn_dispatchCount (snd (endDispatch big io acm c)) = conn_dispatchCount c - 1"
    by (simp add: quiet_def frame_def)
qed

text \<open>Batches.  The caller of \<open>prepareBatchRequest\<close> gets at least a header and a place for the number of requests.\<close>

lemma prepareBatch_robust:
  fixes c :: "'q connection"
  assumes rob: "robust k c" and st: "conn_state c \<noteq> StateNotValidated" and io: "k \<longrightarrow> io_ok io"
    and run: "prepareBatchRequest io os c = Some (r, c')"
  shows "robust k c' \<and> orderly r \<and> conn_dispatchCount c' = conn_dispatchCount c \<and> advance c c' \<and>
    (case r of
       Inl _ \<Rightarrow> frame c c'
     | Inr bs \<Rightarrow> \<not> conn_batchStreamInUse c \<and> conn_batchStreamInUse c' \<and>
         (batch_ok c \<longrightarrow> headerSize + 4 \<le> length (buf bs)))"
proof (cases "conn_exception c")
  case (Some ex)
  then show ?thesis using run rob by (auto simp: prepareBatchRequest_def when_ready_def rethrow_def)
next
  case None
  have free: "\<not> conn_batchStreamInUse c" using run None by (auto simp: prepareBatchRequest_def when_ready_def split: if_splits)
  have st': "conn_state c > StateNotValidated" "conn_state c < StateClosing"
    using robust_open [OF rob None] not_early [of c] st by simp_all
  let ?w = "if buf (conn_batchStream c) = [] then writeBlob requestBatchHdr (conn_batchStream c) else Inr (conn_batchStream c)"
  show ?thesis
  proof (cases ?w)
    case (Inl e)
    then have e: "e = Thrown MemoryLimitException" by (auto dest: writeBlob_outcome split: if_splits)
    let ?act = "abind (setClosed io MemoryLimitException) (\<lambda>_. afail (Thrown MemoryLimitException)) :: ('q, stream) action"
    have a: "robust_at k c ?act" by (intro robust_at_abind setClosed_at rob io) simp
    have q: "quiet c (snd (?act c))" by (rule obeysD, intro quiet_abind) simp_all
    have "?act c = (r, c')"
      using run None st' Inl e by (simp add: prepareBatchRequest_def when_ready_def split: if_splits)
    moreover have "\<exists>f. r = Inl f"
      using calculation by (auto simp: abind_def afail_def split: prod.splits sum.splits)
    ultimately show ?thesis using a q by (auto simp: robust_at_def quiet_def frame_def)
  next
    case (Inr bs)
    then have e: "c' = c\<lparr>conn_batchStreamInUse := True, conn_batchStream := os\<rparr>" "r = Inr bs"
      using run None st' by (auto simp: prepareBatchRequest_def when_ready_def split: if_splits)
    have "headerSize + 4 \<le> length (buf bs)" if "batch_ok c"
    proof (cases "buf (conn_batchStream c) = []")
      case True
      then have "buf bs = requestBatchHdr" using Inr by (auto simp: writeBlob_def appendBytes_Inr split: if_splits)
      then show ?thesis by (simp add: requestBatchHdr_def headerSize_def magic_def)
    next
      case False
      then show ?thesis using Inr that free by (auto simp: batch_ok_def)
    qed
    then show ?thesis using e rob free by (simp add: advance_def idle_def)
  qed
qed

lemma beginFlush_robust:
  assumes rob: "robust k c" and st: "conn_state c \<noteq> StateNotValidated" and run: "beginFlush io c = Some (r, c')"
  shows "robust k c' \<and> orderly r \<and> conn_dispatchCount c' = conn_dispatchCount c \<and> advance c c' \<and>
    (if r = Inr True
     then \<not> conn_batchStreamInUse c \<and> conn_batchStreamInUse c' \<and>
       (batch_ok c \<longrightarrow> headerSize + 4 \<le> length (buf (conn_batchStream c')))
     else frame c c')"
proof (cases "conn_exception c")
  case None
  then show ?thesis using assms robust_open [OF rob None] not_early [of c]
    by (auto simp: beginFlush_def when_ready_def batch_ok_def acmReset_def advance_def idle_def frame_def split: if_splits)
next
  case (Some ex)
  then show ?thesis using run rob by (auto simp: beginFlush_def when_ready_def rethrow_def)
qed

lemma sendBatch_at:
  assumes rob: "robust k c" and flushing: "headerSize + 4 \<le> length (buf (conn_batchStream c))"
  shows "robust_at k c (sendBatch big bz io)"
proof (cases "conn_transceiver c")
  case True
  obtain os where os: "patchInt big (conn_batchRequestNum c) headerSize (buf (conn_batchStream c)) = Inr os"
    "headerSize \<le> length os"
    using patchInt_eq [OF flushing, of big] flushing by simp
  let ?c = "c\<lparr>conn_batchStream := (conn_batchStream c)\<lparr>buf := streamAfter big bz (conn_batchRequestCompress c) os c\<rparr>\<rparr>"
  have "robust_at k ?c (transmit big bz io BatchMsg (conn_batchRequestCompress c) os)"
    using rob os(2) by (intro transmit_at) simp_all
  then show ?thesis using True os(1) by (simp add: robust_at_def sendBatch_def)
next
  case False
  then show ?thesis using robust_rethrow [OF rob robust_transceiver [OF rob False]] by (simp add: robust_at_def sendBatch_def)
qed

text \<open>Validation.\<close>

lemma beginValidate_at:
  "robust k c \<Longrightarrow> conn_state c = StateNotValidated \<or> conn_state c = StateClosed \<Longrightarrow> robust_at k c beginValidate"
  using robust_exception [of k c] by (auto simp: robust_at_def beginValidate_def rethrow_def state_order)

lemma handshake_at:
  assumes rob: "robust k c" and bytes: "\<And>bs. io_read io = Inr bs \<Longrightarrow> length bs = headerSize"
    and client: "\<not> active \<Longrightarrow> conn_transceiver c"
  shows "robust_at k c (handshake big io active)"
proof (cases "conn_transceiver c")
  case False
  then have active using client by blast
  then show ?thesis using robust_rethrow [OF rob robust_transceiver [OF rob False]] False
    by (simp add: robust_at_def handshake_def)
next
  case tr: True
  have call: "robust_at k c (transceiverCall r)" for r
    using tr rob by (auto simp: robust_at_def transceiverCall_def split: option.splits)
  have same: "transceiverCall r c = (x, c') \<Longrightarrow> c' = c" for r x c'
    by (auto simp: transceiverCall_def split: if_splits option.splits)
  show ?thesis
  proof (cases active)
    case True
    have "robust_at k c (acatch (abind (transceiverCall (io_initialize io)) (\<lambda>_. transceiverWrite io ValidateMsg
        (headerMessage big validateConnectionMsg 0))) (\<lambda>ex. afail (Thrown (connectTimeout ex))))"
      by (intro robust_at_acatch robust_at_abind call) (auto dest!: same intro: transceiverWrite_at rob tr)
    then show ?thesis using True tr by (simp add: robust_at_def handshake_def)
  next
    case False
    let ?get = "acatch (abind (transceiverCall (io_initialize io)) (\<lambda>_.
             abind (transceiverCall (case io_read io of Inl e \<Rightarrow> Some e | Inr _ \<Rightarrow> None)) (\<lambda>_. aret (io_read io))))
            (\<lambda>ex. afail (Thrown (connectTimeout ex)))"
    have got: "fst (?get c) = Inr r \<Longrightarrow> \<exists>bs. r = Inr bs \<and> io_read io = Inr bs" for r
      using tr by (auto simp: acatch_def abind_def transceiverCall_def aret_def afail_def split: option.splits sum.splits)
    have "robust_at k c ?get"
      by (intro robust_at_acatch robust_at_abind call) (auto dest!: same intro: rob call)
    moreover have "robust_at k c' (\<lambda>c1. case r of Inl _ \<Rightarrow> (Inl AssertionFailed, c1)
             | Inr bytes \<Rightarrow> if length bytes \<noteq> headerSize then (Inl AssertionFailed, c1)
                 else (case checkValidateHeader big (stream_new headerSize\<lparr>buf := bytes\<rparr>) of Inl e \<Rightarrow> (Inl e, c1) | Inr _ \<Rightarrow> (Inr (), c1)))"
      if "?get c = (Inr r, c')" "robust k c'" for r c'
    proof -
      have "\<exists>bs. r = Inr bs \<and> io_read io = Inr bs" using that(1) by (intro got) simp
      then obtain bs where bs: "r = Inr bs" "io_read io = Inr bs" by blast
      show ?thesis using bs bytes [OF bs(2)] that(2) checkValidateHeader_outcome [OF bytes [OF bs(2)], of big headerSize]
        by (auto simp: robust_at_def orderly_def split: sum.splits failure.splits)
    qed
    ultimately have "robust_at k c (abind ?get (\<lambda>r c1. case r of Inl _ \<Rightarrow> (Inl AssertionFailed, c1)
             | Inr bytes \<Rightarrow> if length bytes \<noteq> headerSize then (Inl AssertionFailed, c1)
                 else (case checkValidateHeader big (stream_new headerSize\<lparr>buf := bytes\<rparr>) of Inl e \<Rightarrow> (Inl e, c1) | Inr _ \<Rightarrow> (Inr (), c1))))"
      by (rule robust_at_abind)
    then show ?thesis using False by (simp add: robust_at_def handshake_def)
  qed
qed

lemma endValidate_at: "robust k c \<Longrightarrow> robust_at k c (endValidate big io)"
  using setState_at [of k "acmReset io c" StateHolding big io] by (simp add: robust_at_def endValidate_def)

text \<open>
  Received messages.  What the transceiver throws when the write side is shut down comes out of
  \<open>parseBody\<close>, and its handler, in \<open>parseMessage\<close>, locks the monitor when that is an exception of the socket.
\<close>

definition shut_fails :: "io \<Rightarrow> failure \<Rightarrow> bool" where
  "shut_fails io f \<longleftrightarrow> (\<exists>e. f = Thrown e \<and> io_shutdownWrite io = Some e)"

definition parse_robust :: "bool \<Rightarrow> io \<Rightarrow> 'q connection \<Rightarrow> (failure + 'q parsed) \<times> 'q connection \<Rightarrow> bool" where
  "parse_robust k io c rc \<longleftrightarrow>
     robust k (snd rc) \<and> advance c (snd rc) \<and>
     conn_batchStream (snd rc) = conn_batchStream c \<and> conn_batchStreamInUse (snd rc) = conn_batchStreamInUse c \<and>
     (case fst rc of
        Inl f \<Rightarrow> conn_dispatchCount (snd rc) = conn_dispatchCount c \<and> (marshal_failure f \<or> shut_fails io f)
      | Inr p \<Rightarrow> 0 \<le> sint (pm_invokeNum p) \<and> conn_dispatchCount (snd rc) = conn_dispatchCount c + pm_invokeNum p \<and>
          (conn_state (snd rc) = conn_state c \<or> pm_invokeNum p = 0))"

lemma handleRequest_robust:
  assumes "robust k c" "conn_state c \<noteq> StateNotValidated" "0 \<le> rpos s"
  shows "parse_robust k io c (handleRequest big compress s c)"
  using assms read_Int_marshal [OF assms(3), of big] robust_count [of k c]
  by (auto simp: parse_robust_def handleRequest_def nothingParsed_def advance_def idle_def split: sum.splits)

lemma handleBatch_robust:
  assumes "robust k c" "conn_state c \<noteq> StateNotValidated" "0 \<le> rpos s"
  shows "parse_robust k io c (handleBatch big compress s c)"
  using assms read_Int_marshal [OF assms(3), of big] robust_count [of k c]
  by (auto simp: parse_robust_def handleBatch_def nothingParsed_def advance_def idle_def is_socket_def split: sum.splits)

lemma handleReply_robust:
  assumes rob: "robust k c" and pos: "0 \<le> rpos s" and acc: "accept_ok accept"
  shows "parse_robust k io c (handleReply big accept compress s c)"
proof (cases "read_Int big s")
  case (Inl e)
  then show ?thesis using rob read_Int_marshal [OF pos, of big] by (simp add: parse_robust_def handleReply_def)
next
  case (Inr rs)
  obtain rid s1 where rs: "rs = (rid, s1)" by fastforce
  have "tables_inv c" using rob by (simp add: robust_def)
  then obtain p q where t: "replyTarget (sint rid) c = Inr (p, q)" using replyTarget_eq by blast
  have rob': "robust k (eraseRequest i (c\<lparr>conn_log := l\<rparr>))" "robust k (eraseAsyncRequest i c)" for i l
    using rob by (auto intro: robust_tables)
  show ?thesis
  proof (cases p)
    case (Some out)
    then show ?thesis using t Inr rs rob rob' acc
      by (auto simp: parse_robust_def handleReply_def Let_def accept_ok_def advance_def idle_def eraseRequest_def eraseAsyncRequest_def sm_erase_def nothingParsed_def split: option.splits)
  next
    case None
    then show ?thesis using t Inr rs rob rob'
      by (auto simp: parse_robust_def handleReply_def Let_def advance_def idle_def eraseRequest_def eraseAsyncRequest_def sm_erase_def nothingParsed_def is_socket_def split: option.splits)
  qed
qed

lemma parseBody_robust:
  assumes rob: "robust k c" and st: "conn_state c \<noteq> StateNotValidated" and io: "k \<longrightarrow> io_ok io" and acc: "accept_ok accept"
    and s: "rpos s = int (length (buf s))"
  shows "parse_robust k io c (parseBody big bz fill accept io s c)"
proof (cases "openMessage big bz fill s")
  case (Inl e)
  then show ?thesis using rob openMessage_marshal [OF s, of big bz fill] by (simp add: parse_robust_def parseBody_def)
next
  case (Inr r)
  obtain t y s1 where r: "r = ((t, y), s1)" by (cases r) auto
  have pos: "0 \<le> rpos s1" using openMessage_rpos [of big bz fill s] Inr r by simp
  let ?close = "abind (setClosed io CloseConnectionException) (\<lambda>_. aret ((nothingParsed s1)\<lparr>pm_compress := y\<rparr>))"
  have close: "parse_robust k io c (?close c)"
  proof -
    obtain x c' where run: "setClosed io CloseConnectionException c = (x, c')" by fastforce
    have q: "quiet c c'" using obeysD [OF quiet_setClosed, of c io CloseConnectionException] run by simp
    show ?thesis using setClosed_robust [OF rob io run] q run
      by (cases x) (auto simp: parse_robust_def abind_def aret_def quiet_def frame_def shut_fails_def nothingParsed_def)
  qed
  show ?thesis
    using Inr r rob close handleRequest_robust [OF rob st pos, of io big y] handleBatch_robust [OF rob st pos, of io big y]
      handleReply_robust [OF rob pos acc, of io big y]
    by (simp add: parseBody_def Let_def parse_robust_def [of k io c "(Inr r', c)" for r']
        parse_robust_def [of k io c "(throw r', c)" for r'] nothingParsed_def is_socket_def)
qed

definition receive_robust :: "bool \<Rightarrow> io \<Rightarrow> 'q connection \<Rightarrow> (failure + 'q parsed option) \<times> 'q connection \<Rightarrow> bool" where
  "receive_robust k io c rc \<longleftrightarrow>
     robust k (snd rc) \<and> advance c (snd rc) \<and>
     conn_batchStream (snd rc) = conn_batchStream c \<and> conn_batchStreamInUse (snd rc) = conn_batchStreamInUse c \<and>
     (case fst rc of
        Inr (Some p) \<Rightarrow> 0 \<le> sint (pm_invokeNum p) \<and> conn_dispatchCount (snd rc) = conn_dispatchCount c + pm_invokeNum p
      | _ \<Rightarrow> conn_dispatchCount (snd rc) = conn_dispatchCount c) \<and>
     (orderly (fst rc) \<or>
      fst rc = Inl ThreadLockedException \<and> io_shutdownWrite io \<in> {Some SocketException, Some ConnectionLostException})"

lemma parseFailed_robust:
  assumes rob: "robust k c" and io: "k \<longrightarrow> io_ok io" and e: "\<not> is_socket e \<or> io_shutdownWrite io = Some e"
  shows "receive_robust k io c (abind (parseFailed io s e) (\<lambda>r c1. (Inr (if conn_state c1 = StateClosed then None else Some r), c1)) c)"
proof -
  consider "is_socket e" | "\<not> is_socket e" "conn_datagram c" | "\<not> is_socket e" "\<not> conn_datagram c" by blast
  then show ?thesis
  proof cases
    case 1
    then show ?thesis using rob e by (auto simp: receive_robust_def abind_def parseFailed_def is_socket_def)
  next
    case 2
    then show ?thesis using rob by (auto simp: receive_robust_def abind_def parseFailed_def is_socket_def nothingParsed_def)
  next
    case 3
    obtain x c' where run: "setClosed io e c = (x, c')" by fastforce
    have q: "quiet c c'" using obeysD [OF quiet_setClosed, of c io e] run by simp
    show ?thesis using 3 setClosed_robust [OF rob io run] q run
      by (cases x) (auto simp: receive_robust_def abind_def aret_def parseFailed_def is_socket_def quiet_def frame_def nothingParsed_def)
  qed
qed

lemma receive_robust_trans:
  "receive_robust k io (acmReset io c) rc \<Longrightarrow> receive_robust k io c rc"
  using quiet_acmReset [of c io] advance_trans [of c "acmReset io c" "snd rc"]
  by (simp add: receive_robust_def quiet_def split: sum.splits option.splits)

lemma receiveMessage_robust:
  assumes rob: "robust k c" and st: "conn_state c \<noteq> StateNotValidated" and io: "k \<longrightarrow> io_ok io" and acc: "accept_ok accept"
    and s: "rpos s = int (length (buf s))"
  shows "receive_robust k io c (receiveMessage big bz fill accept io s c)"
proof (cases "conn_state c = StateClosed")
  case True
  then show ?thesis using rob by (auto simp: receive_robust_def receiveMessage_def robust_def)
next
  case alive: False
  let ?c = "acmReset io c"
  have pool: "\<not> conn_threadPerConnection c" using rob by (simp add: robust_def)
  have st': "conn_state c > StateNotValidated" "conn_state c < StateClosed"
    using st alive by (cases "conn_state c"; simp add: state_order)+
  let ?tail = "\<lambda>r (c1 :: 'a connection). (Inr (if conn_state c1 = StateClosed then None else Some r) :: failure + 'a parsed option, c1)"
  have recv: "receiveMessage big bz fill accept io s c =
      abind (acatch (parseBody big bz fill accept io s) (parseFailed io s)) ?tail ?c"
    using pool alive st' by (simp add: receiveMessage_def abind_def parseMessage_def)
  obtain r c1 where body: "parseBody big bz fill accept io s ?c = (r, c1)" by fastforce
  have res: "parse_robust k io ?c (r, c1)" using parseBody_robust [of k ?c io accept s big bz fill] rob st io acc s body by simp
  have "receive_robust k io ?c (receiveMessage big bz fill accept io s c)"
  proof (cases r)
    case (Inr p)
    then have "receiveMessage big bz fill accept io s c = (Inr (if conn_state c1 = StateClosed then None else Some p), c1)"
      using recv body by (simp add: abind_def acatch_def)
    then show ?thesis using res Inr alive by (auto simp: receive_robust_def parse_robust_def)
  next
    case (Inl f)
    then obtain e where e: "f = Thrown e" "\<not> is_socket e \<or> io_shutdownWrite io = Some e" using res
      by (cases f) (auto simp: parse_robust_def shut_fails_def)
    have rob1: "robust k c1" and adv: "advance ?c c1" and same: "conn_batchStream c1 = conn_batchStream c"
        "conn_batchStreamInUse c1 = conn_batchStreamInUse c" "conn_dispatchCount c1 = conn_dispatchCount c"
      using res Inl by (simp_all add: parse_robust_def)
    have "receiveMessage big bz fill accept io s c = abind (parseFailed io s e) ?tail c1"
      using recv body Inl e(1) by (simp add: abind_def acatch_def)
    then show ?thesis using parseFailed_robust [OF rob1 io e(2), of s] advance_trans [OF adv] same
      by (auto simp: receive_robust_def split: sum.splits option.splits)
  qed
  then show ?thesis by (rule receive_robust_trans)
qed

end
