(* ===== verification/ConnectionUsers.thy ===== *)
theory ConnectionUsers imports ConnectionRobust begin

text \<open>
  A connection of \<^verbatim>\<open>src/Ice-3.1.1/src/Ice/ConnectionI.cpp\<close> and the threads that use it, with what each of them
  remembers between two sections in place of guards on the connection itself: how far the creator
  has come with \<open>validate\<close>, what has become of the batch stream that was handed out, and how many
  requests are being dispatched.  The theorem says that no assertion fails, no null or stale pointer
  is followed and no monitor is locked twice, whatever the transceiver does, but for two sections
  that are named.
\<close>

section \<open>The threads that use a connection\<close>

text \<open>
  The creator calls \<open>validate\<close> once: a new connection, one whose \<open>validate\<close> has begun (with the active role or not),
  exchanged its message, or failed with an exception that is still to be handled, and one whose
  \<open>validate\<close> has returned or thrown.  The batch stream is with the connection, with a thread that builds a batch
  on so many bytes, or with one that flushes it.
\<close>

datatype validation = Fresh | Begun bool | Shaken | Refused local_exception | Usable | Failed

datatype batch_use = Free | Building nat | Flushing | Unsent local_exception | Flushed | Abandoned

record use =
  u_server :: bool                  \<comment> \<open>created by an incoming connection factory\<close>
  u_validation :: validation
  u_batch :: batch_use
  u_dispatches :: nat

type_synonym 'q use_world = "'q connection \<times> use"

datatype use_label = Receive io | ThrowException | OtherSection

definition validating :: "use \<Rightarrow> bool" where
  "validating u \<longleftrightarrow> u_validation u \<noteq> Usable \<and> u_validation u \<noteq> Failed"

text \<open>
  An outgoing connection is known to its creator alone until \<open>validate\<close> is over; an incoming one is in the list of its
  factory before.
\<close>

definition shared :: "use \<Rightarrow> bool" where
  "shared u \<longleftrightarrow> u_server u \<or> \<not> validating u"

text \<open>
  The steps.  What a thread may do depends on what it and the other threads did, not on the state of the connection:
  requests and batches are sent when \<open>validate\<close> has returned, a message comes while the connection is
  registered with the pool or later, \<open>finished\<close> is called once for every unregistration, and what \<open>validate\<close> and the
  three sections of \<open>flushBatchRequests\<close> do next is what they do in the code.  The other conditions are the
  contracts of other components: the streams that are handed in have a header and a place for the request id or
  the number of requests, a batch only grows, the pool reads whole messages, the transceiver fills the header
  it is asked for, twoway requests go over connections that are no datagram connections, \<open>Outgoing::finished\<close> throws no exception of the
  socket, and fewer than $2^{31}$ requests are dispatched at a time.  With \<open>calm\<close>, the write side of the socket
  can always be shut down.
\<close>

inductive use_step ::
  "bool \<Rightarrow> bzip2 \<Rightarrow> byte \<Rightarrow> bool \<Rightarrow> use_label \<Rightarrow> 'q use_world \<Rightarrow> failure option \<Rightarrow> 'q use_world \<Rightarrow> bool"
  for big bz fill calm where
  validate_begin: "u_validation u = Fresh \<Longrightarrow> \<not> conn_datagram c \<Longrightarrow> beginValidate c = (r, c') \<Longrightarrow>
    use_step big bz fill calm OtherSection (c, u) (outcome r)
      (c', u\<lparr>u_validation := case r of Inr active \<Rightarrow> Begun active | Inl _ \<Rightarrow> Failed\<rparr>)"
| validate_datagram: "u_validation u = Fresh \<Longrightarrow> conn_datagram c \<Longrightarrow> endValidate big io c = (r, c') \<Longrightarrow>
    use_step big bz fill calm OtherSection (c, u) (outcome r) (c', u\<lparr>u_validation := case r of Inr _ \<Rightarrow> Usable | Inl _ \<Rightarrow> Failed\<rparr>)"
| validate_handshake: "u_validation u = Begun active \<Longrightarrow> (\<And>bs. io_read io = Inr bs \<Longrightarrow> length bs = headerSize) \<Longrightarrow>
    handshake big io active c = (r, c') \<Longrightarrow>
    use_step big bz fill calm OtherSection (c, u) (outcome r)
      (c', u\<lparr>u_validation := case r of Inr _ \<Rightarrow> Shaken | Inl (Thrown ex) \<Rightarrow> Refused ex | Inl _ \<Rightarrow> Failed\<rparr>)"
| validate_failed: "u_validation u = Refused ex \<Longrightarrow> calm \<longrightarrow> io_ok io \<Longrightarrow> closeAndThrow io ex c = (r :: failure + unit, c') \<Longrightarrow>
    use_step big bz fill calm OtherSection (c, u) (outcome r) (c', u\<lparr>u_validation := Failed\<rparr>)"
| validate_end: "u_validation u = Shaken \<Longrightarrow> endValidate big io c = (r, c') \<Longrightarrow>
    use_step big bz fill calm OtherSection (c, u) (outcome r) (c', u\<lparr>u_validation := case r of Inr _ \<Rightarrow> Usable | Inl _ \<Rightarrow> Failed\<rparr>)"
| activate: "shared u \<Longrightarrow> activate big io c = Some (r, c') \<Longrightarrow> use_step big bz fill calm OtherSection (c, u) (outcome r) (c', u)"
| hold: "shared u \<Longrightarrow> hold big io c = Some (r, c') \<Longrightarrow> use_step big bz fill calm OtherSection (c, u) (outcome r) (c', u)"
| destroy: "shared u \<Longrightarrow> calm \<longrightarrow> io_ok io \<Longrightarrow> destroy big io reason c = (r, c') \<Longrightarrow>
    use_step big bz fill calm OtherSection (c, u) (outcome r) (c', u)"
| close: "shared u \<Longrightarrow> calm \<longrightarrow> io_ok io \<Longrightarrow> close big io force c = Some (r, c') \<Longrightarrow>
    use_step big bz fill calm OtherSection (c, u) (outcome r) (c', u)"
| close_timeout: "shared u \<Longrightarrow> calm \<longrightarrow> io_ok io \<Longrightarrow> closeTimeout big io c = Some (r, c') \<Longrightarrow>
    use_step big bz fill calm OtherSection (c, u) (outcome r) (c', u)"
| monitor: "shared u \<Longrightarrow> calm \<longrightarrow> io_ok io \<Longrightarrow> monitor big io c = (r, c') \<Longrightarrow>
    use_step big bz fill calm OtherSection (c, u) (outcome r) (c', u)"
| exception: "shared u \<Longrightarrow> calm \<longrightarrow> io_ok io \<Longrightarrow> connException io ex c = (r, c') \<Longrightarrow>
    use_step big bz fill calm OtherSection (c, u) (outcome r) (c', u)"
| is_finished: "shared u \<Longrightarrow> isFinished c = (r, c') \<Longrightarrow> use_step big bz fill calm OtherSection (c, u) (outcome r) (c', u)"
| finished: "0 < conn_finishedCount c \<Longrightarrow> finished_conn io c = (r, c') \<Longrightarrow>
    use_step big bz fill calm OtherSection (c, u) (outcome r) (c', u)"
| throw_exception: "u_validation u = Usable \<Longrightarrow> throwConnException c = (r, c') \<Longrightarrow>
    use_step big bz fill calm ThrowException (c, u) (outcome r) (c', u)"
| set_adapter: "u_validation u = Usable \<Longrightarrow> setAdapter a c = (r, c') \<Longrightarrow>
    use_step big bz fill calm OtherSection (c, u) (outcome r) (c', u)"
| begin_request: "u_validation u = Usable \<Longrightarrow> headerSize + 4 \<le> length os \<Longrightarrow> (out \<noteq> None \<longrightarrow> \<not> conn_datagram c) \<Longrightarrow>
    beginRequest big io out os c = (r, c') \<Longrightarrow> use_step big bz fill calm OtherSection (c, u) (outcome r) (c', u)"
| transmit: "u_validation u = Usable \<Longrightarrow> kind \<noteq> CloseMsg \<Longrightarrow> headerSize \<le> length os \<Longrightarrow> transmit big bz io kind compress os c = (r, c') \<Longrightarrow>
    use_step big bz fill calm OtherSection (c, u) (outcome r) (c', u)"
| request_failed: "u_validation u = Usable \<Longrightarrow> calm \<longrightarrow> io_ok io \<Longrightarrow> requestFailed io out rid ex c = (r, c') \<Longrightarrow>
    use_step big bz fill calm OtherSection (c, u) (outcome r) (c', u)"
| begin_async: "u_validation u = Usable \<Longrightarrow> headerSize + 4 \<le> length os \<Longrightarrow> \<not> conn_datagram c \<Longrightarrow>
    beginAsyncRequest big io q os c = (r, c') \<Longrightarrow> use_step big bz fill calm OtherSection (c, u) (outcome r) (c', u)"
| async_failed: "u_validation u = Usable \<Longrightarrow> calm \<longrightarrow> io_ok io \<Longrightarrow> asyncRequestFailed io rid ex c = (r, c') \<Longrightarrow>
    use_step big bz fill calm OtherSection (c, u) (outcome r) (c', u)"
| prepare_batch: "u_validation u = Usable \<Longrightarrow> calm \<longrightarrow> io_ok io \<Longrightarrow> prepareBatchRequest io s c = Some (r, c') \<Longrightarrow>
    use_step big bz fill calm OtherSection (c, u) (outcome r)
      (c', case r of Inr bs \<Rightarrow> u\<lparr>u_batch := Building (length (buf bs))\<rparr> | Inl _ \<Rightarrow> u)"
| finish_batch: "u_batch u = Building k \<Longrightarrow> k \<le> length (buf s) \<Longrightarrow> finishBatchRequest s compress c = (r, c') \<Longrightarrow>
    use_step big bz fill calm OtherSection (c, u) (outcome r) (c', u\<lparr>u_batch := Free\<rparr>)"
| abort_batch: "u_batch u = Building k \<Longrightarrow> abortBatchRequest c = (r, c') \<Longrightarrow>
    use_step big bz fill calm OtherSection (c, u) (outcome r) (c', u\<lparr>u_batch := Free\<rparr>)"
| begin_flush: "u_validation u = Usable \<Longrightarrow> beginFlush io c = Some (r, c') \<Longrightarrow>
    use_step big bz fill calm OtherSection (c, u) (outcome r) (c', if r = Inr True then u\<lparr>u_batch := Flushing\<rparr> else u)"
| send_batch: "u_batch u = Flushing \<Longrightarrow> sendBatch big bz io c = (r, c') \<Longrightarrow>
    use_step big bz fill calm OtherSection (c, u) (outcome r)
      (c', u\<lparr>u_batch := case r of Inr _ \<Rightarrow> Flushed | Inl (Thrown ex) \<Rightarrow> Unsent ex | Inl _ \<Rightarrow> Abandoned\<rparr>)"
| flush_failed: "u_batch u = Unsent ex \<Longrightarrow> calm \<longrightarrow> io_ok io \<Longrightarrow> closeAndThrow io ex c = (r :: failure + unit, c') \<Longrightarrow>
    use_step big bz fill calm OtherSection (c, u) (outcome r) (c', u\<lparr>u_batch := Abandoned\<rparr>)"
| end_flush: "u_batch u = Flushed \<Longrightarrow> endFlush c = (r, c') \<Longrightarrow>
    use_step big bz fill calm OtherSection (c, u) (outcome r) (c', u\<lparr>u_batch := Free\<rparr>)"
| receive: "conn_registeredWithPool c \<or> u_validation u = Usable \<Longrightarrow> calm \<longrightarrow> io_ok io \<Longrightarrow> accept_ok accept \<Longrightarrow>
    rpos s = int (length (buf s)) \<Longrightarrow> receiveMessage big bz fill accept io s c = (r, c') \<Longrightarrow>
    k = (case r of Inr (Some p) \<Rightarrow> unat (pm_invokeNum p) | _ \<Rightarrow> 0) \<Longrightarrow> u_dispatches u + k < 2147483648 \<Longrightarrow>
    use_step big bz fill calm (Receive io) (c, u) (outcome r) (c', u\<lparr>u_dispatches := u_dispatches u + k\<rparr>)"
| end_dispatch: "u_dispatches u = Suc n \<Longrightarrow> calm \<longrightarrow> io_ok io \<Longrightarrow> endDispatch big io acm c = (r, c') \<Longrightarrow>
    use_step big bz fill calm OtherSection (c, u) (outcome r) (c', u\<lparr>u_dispatches := n\<rparr>)"
| invoke_failed: "0 < unat k \<Longrightarrow> unat k \<le> u_dispatches u \<Longrightarrow> calm \<longrightarrow> io_ok io \<Longrightarrow>
    abind (setClosed io ex) (\<lambda>_. dropDispatches k) c = (r, c') \<Longrightarrow>
    use_step big bz fill calm OtherSection (c, u) (outcome r)
      (c', u\<lparr>u_dispatches := u_dispatches u - (case r of Inr _ \<Rightarrow> unat k | Inl _ \<Rightarrow> 0)\<rparr>)"

definition new_use :: "bool \<Rightarrow> use" where
  "new_use server = \<lparr>u_server = server, u_validation = Fresh, u_batch = Free, u_dispatches = 0\<rparr>"

inductive use_reachable :: "bool \<Rightarrow> bzip2 \<Rightarrow> byte \<Rightarrow> bool \<Rightarrow> 'q use_world \<Rightarrow> bool" for big bz fill calm where
  new: "use_reachable big bz fill calm
    (connection_new maxSize dgram False server manager serverACM clientACM tmo level, new_use server)"
| step: "use_reachable big bz fill calm w \<Longrightarrow> use_step big bz fill calm l w fo w' \<Longrightarrow> use_reachable big bz fill calm w'"

section \<open>The invariant\<close>

text \<open>Until \<open>validate\<close> is over a connection is new or closed, and new if nobody else has it.\<close>

definition validation_inv :: "'q use_world \<Rightarrow> bool" where
  "validation_inv w \<longleftrightarrow> (case w of (c, u) \<Rightarrow>
     (validating u \<longrightarrow> u_batch u = Free \<and> u_dispatches u = 0 \<and> conn_adapter c = u_server u \<and>
        (conn_state c = StateNotValidated \<or> u_server u \<and> conn_state c = StateClosed)) \<and>
     (\<forall>active. u_validation u = Begun active \<longrightarrow> active = u_server u) \<and>
     (u_validation u = Usable \<longrightarrow> conn_state c \<noteq> StateNotValidated))"

definition batch_inv :: "'q use_world \<Rightarrow> bool" where
  "batch_inv w \<longleftrightarrow> (case w of (c, u) \<Rightarrow>
     conn_batchStreamInUse c = (u_batch u \<noteq> Free) \<and>
     (case u_batch u of
        Free \<Rightarrow> batch_ok c
      | Building k \<Rightarrow> headerSize + 4 \<le> k
      | Flushing \<Rightarrow> headerSize + 4 \<le> length (buf (conn_batchStream c))
      | _ \<Rightarrow> True))"

definition use_inv :: "bool \<Rightarrow> 'q use_world \<Rightarrow> bool" where
  "use_inv calm w \<longleftrightarrow>
     robust calm (fst w) \<and> sint (conn_dispatchCount (fst w)) = int (u_dispatches (snd w)) \<and>
     validation_inv w \<and> batch_inv w"

text \<open>What a step may end with.\<close>

definition use_end :: "bool \<Rightarrow> use_label \<Rightarrow> 'q use_world \<Rightarrow> failure option \<Rightarrow> bool" where
  "use_end calm l w fo \<longleftrightarrow>
     (case fo of None \<Rightarrow> True | Some (Thrown _) \<Rightarrow> True
      | Some ThreadLockedException \<Rightarrow> \<not> calm \<and>
          (\<exists>io. l = Receive io \<and> io_shutdownWrite io \<in> {Some SocketException, Some ConnectionLostException})
      | Some AssertionFailed \<Rightarrow> \<not> calm \<and> l = ThrowException \<and> conn_exception (fst w) \<noteq> None \<and> conn_state (fst w) < StateClosing
      | Some _ \<Rightarrow> False)"

lemma use_end_orderly: "orderly r \<Longrightarrow> use_end calm l w (outcome r)"
  by (auto simp: use_end_def outcome_def orderly_def split: sum.splits failure.splits)

text \<open>Sections that leave the batch and the count alone, and what they do before validation is over.\<close>

definition early_kept :: "'q connection \<Rightarrow> 'q connection \<Rightarrow> bool" where
  "early_kept c c' \<longleftrightarrow> conn_adapter c' = conn_adapter c \<and> (conn_state c' = conn_state c \<or> conn_state c' = StateClosed)"

lemma early_kept_refl [simp]: "early_kept c c"
  by (simp add: early_kept_def)

lemma use_invD:
  assumes "use_inv k (c, u)"
  shows "robust k c" and "sint (conn_dispatchCount c) = int (u_dispatches u)"
    and "u_validation u = Usable \<Longrightarrow> conn_state c \<noteq> StateNotValidated"
    and "validating u \<Longrightarrow> conn_state c = StateNotValidated \<or> conn_state c = StateClosed"
    and "validating u \<Longrightarrow> conn_adapter c = u_server u"
    and "validating u \<Longrightarrow> \<not> u_server u \<Longrightarrow> conn_state c = StateNotValidated"
    and "u_batch u \<noteq> Free \<Longrightarrow> \<not> validating u" and "u_dispatches u \<noteq> 0 \<Longrightarrow> \<not> validating u"
  using assms by (auto simp: use_inv_def validation_inv_def)

lemma use_frame:
  assumes inv: "use_inv k (c, u)" and rob: "robust k c'" and q: "quiet c c'"
    and early: "validating u \<Longrightarrow> early_kept c c' \<and> (\<not> u_server u \<longrightarrow> conn_state c' = conn_state c)"
  shows "use_inv k (c', u)"
proof -
  have f: "conn_dispatchCount c' = conn_dispatchCount c" "conn_batchStream c' = conn_batchStream c"
    "conn_batchStreamInUse c' = conn_batchStreamInUse c"
    and adv: "conn_state c' = StateNotValidated \<Longrightarrow> conn_state c = StateNotValidated"
    using q by (simp_all add: quiet_def frame_def advance_def)
  have "validation_inv (c', u)" using inv early adv by (auto simp: use_inv_def validation_inv_def early_kept_def)
  moreover have "batch_inv (c', u)" using inv f by (auto simp: use_inv_def batch_inv_def batch_ok_def split: batch_use.splits)
  ultimately show ?thesis using inv rob f by (simp add: use_inv_def)
qed

lemma use_plain:
  assumes "use_inv k (c, u)" and "robust_at k c act" and "obeys quiet act" and "act c = (r, c')"
    and "validating u \<Longrightarrow> early_kept c c' \<and> (\<not> u_server u \<longrightarrow> conn_state c' = conn_state c)"
  shows "use_inv k (c', u) \<and> use_end k l (c, u) (outcome r)"
proof -
  have "robust k c'" "orderly r" using assms(2,4) by (simp_all add: robust_at_def)
  moreover have "quiet c c'" using obeysD [OF assms(3), of c] assms(4) by simp
  ultimately show ?thesis using use_frame [OF assms(1) _ _ assms(5)] use_end_orderly by blast
qed

lemma early_setClosed:
  assumes "robust k c" and "conn_state c = StateNotValidated \<or> conn_state c = StateClosed"
  shows "early_kept c (snd (setClosed io ex c))"
  using assms(2)
proof
  assume st: "conn_state c = StateNotValidated"
  then have "\<not> conn_registeredWithPool c" "conn_transceiver c" "\<not> conn_threadPerConnection c"
    using assms(1) by (auto simp: robust_def)
  from setClosed_fresh [OF st this] show ?thesis by (simp add: early_kept_def)
qed (simp add: setClosed_closed)

lemma early_setStateEx:
  assumes "robust k c" and "k \<longrightarrow> io_ok io" and "conn_state c = StateNotValidated \<or> conn_state c = StateClosed"
  shows "early_kept c (snd (setStateEx big io StateClosing ex c))" "early_kept c (snd (setStateEx big io StateClosed ex c))"
  using early_setClosed [OF assms(1,3), of io ex] assms(3) setStateEx_Closing_closes [OF assms(1,2), of big ex]
    setStateEx_Closing_late [OF assms(1), of big io ex]
  by (auto simp: setStateEx_Closed)

lemma early_setState:
  "conn_state c = StateClosed \<Longrightarrow> state = StateActive \<or> state = StateHolding \<Longrightarrow> setState big io state c = (Inr (), c)"
  by (auto simp: setState_def switchState_def targetState_def Let_def abind_def)

lemma early_finished: "early_kept c (snd (finished_conn io c))"
  by (auto simp: early_kept_def finished_conn_def failRequests_def Let_def abind_def aret_def afail_def split: option.splits)

lemma shared_server: "shared u \<Longrightarrow> validating u \<Longrightarrow> u_server u"
  by (simp add: shared_def)

text \<open>The sections of \<open>validate\<close>.\<close>

lemma use_validated:
  assumes inv: "use_inv k (c, u)" and v: "validating u" and rob: "robust_at k c act" and q: "quiet c (snd (act c))"
    and run: "act c = (r, c')"
    and v': "u_validation u' = Usable \<Longrightarrow> conn_state c' \<noteq> StateNotValidated"
      "validating u' \<Longrightarrow> conn_adapter c' = conn_adapter c \<and> conn_state c' = conn_state c"
      "\<And>a. u_validation u' = Begun a \<Longrightarrow> a = u_server u"
    and same: "u_server u' = u_server u" "u_batch u' = u_batch u" "u_dispatches u' = u_dispatches u"
  shows "use_inv k (c', u') \<and> use_end k l (c, u) (outcome r)"
proof -
  have q': "quiet c c'" and rob': "robust k c'" "orderly r" using q rob run by (simp_all add: robust_at_def)
  have f: "conn_dispatchCount c' = conn_dispatchCount c" "conn_batchStream c' = conn_batchStream c"
    "conn_batchStreamInUse c' = conn_batchStreamInUse c" using q' by (simp_all add: quiet_def frame_def)
  have b: "batch_inv (c', u')" using inv f same(2) by (auto simp: use_inv_def batch_inv_def batch_ok_def split: batch_use.splits)
  have "validation_inv (c', u')"
    using use_invD(4-8) [OF inv] v v' same by (auto simp: validation_inv_def)
  then show ?thesis using b inv rob' f same(3) use_end_orderly by (auto simp: use_inv_def)
qed

lemma handshake_same:
  "conn_adapter (snd (handshake big io active c)) = conn_adapter c" "conn_state (snd (handshake big io active c)) = conn_state c"
  by (simp_all add: handshake_def action_defs rethrow_def split: option.splits sum.splits)

lemma beginValidate_same: "beginValidate c = (r, c') \<Longrightarrow> c' = c \<and> (\<forall>a. r = Inr a \<longrightarrow> a = conn_adapter c)"
  by (auto simp: beginValidate_def rethrow_def split: if_splits option.splits)

lemma endValidate_holds:
  assumes "robust k c" and "endValidate big io c = (r, c')"
  shows "r = Inr () \<and> conn_state c' \<noteq> StateNotValidated"
proof -
  have "robust k (acmReset io c)" using assms(1) by simp
  from switch_robust [OF this, of StateHolding io] obtain b c1 where
    s: "switchState io StateHolding (acmReset io c) = (Inr b, c1)" "b \<longrightarrow> conn_state c1 = StateHolding" by blast
  have "c' = c1 \<and> r = Inr ()" using assms(2) s by (auto simp: endValidate_def setState_def abind_def split: if_splits)
  moreover have "conn_state c1 \<noteq> StateNotValidated"
  proof (cases b)
    case False
    then show ?thesis using s(1)
      by (cases "conn_state c") (auto simp: switchState_def targetState_def Let_def action_defs split: if_splits)
  qed (use s in simp)
  ultimately show ?thesis by simp
qed

lemma use_validate_begin:
  assumes inv: "use_inv k (c, u)" and u: "u_validation u = Fresh" and run: "beginValidate c = (r, c')"
  shows "use_inv k (c', u\<lparr>u_validation := case r of Inr active \<Rightarrow> Begun active | Inl _ \<Rightarrow> Failed\<rparr>) \<and> use_end k l (c, u) (outcome r)"
proof -
  have v: "validating u" using u by (simp add: validating_def)
  note e = beginValidate_same [OF run] and iv = use_invD [OF inv]
  show ?thesis
    by (rule use_validated [OF inv v beginValidate_at [OF iv(1) iv(4) [OF v]] obeysD [OF quiet_beginValidate] run])
      (use e iv(5) [OF v] in \<open>auto simp: validating_def split: sum.splits\<close>)
qed

lemma use_validate_handshake:
  assumes inv: "use_inv k (c, u)" and u: "u_validation u = Begun active"
    and bytes: "\<And>bs. io_read io = Inr bs \<Longrightarrow> length bs = headerSize" and run: "handshake big io active c = (r, c')"
  shows "use_inv k (c', u\<lparr>u_validation := case r of Inr _ \<Rightarrow> Shaken | Inl (Thrown ex) \<Rightarrow> Refused ex | Inl _ \<Rightarrow> Failed\<rparr>) \<and>
    use_end k l (c, u) (outcome r)"
proof -
  have v: "validating u" using u by (simp add: validating_def)
  have "active = u_server u" using inv u by (simp add: use_inv_def validation_inv_def)
  then have client: "\<not> active \<Longrightarrow> conn_transceiver c" using use_invD(1) [OF inv] use_invD(6) [OF inv v] by (auto simp: robust_def)
  have same: "conn_adapter c' = conn_adapter c" "conn_state c' = conn_state c" using handshake_same [of big io active c] run by simp_all
  show ?thesis
    by (rule use_validated [OF inv v handshake_at [OF use_invD(1) [OF inv] bytes client] quiet_handshake run])
      (use same in \<open>auto simp: validating_def split: sum.splits failure.splits\<close>)
qed

lemma use_validate_end:
  assumes inv: "use_inv k (c, u)" and v: "validating u" and run: "endValidate big io c = (r, c')"
  shows "use_inv k (c', u\<lparr>u_validation := case r of Inr _ \<Rightarrow> Usable | Inl _ \<Rightarrow> Failed\<rparr>) \<and> use_end k l (c, u) (outcome r)"
  by (rule use_validated [OF inv v endValidate_at [OF use_invD(1) [OF inv]] quiet_endValidate run])
    (use endValidate_holds [OF use_invD(1) [OF inv] run] in \<open>auto simp: validating_def split: sum.splits\<close>)

lemma use_validate_failed:
  assumes inv: "use_inv k (c, u)" and u: "u_validation u = Refused ex" and io: "k \<longrightarrow> io_ok io"
    and run: "closeAndThrow io ex c = (r :: failure + unit, c')"
  shows "use_inv k (c', u\<lparr>u_validation := Failed\<rparr>) \<and> use_end k l (c, u) (outcome r)"
  by (rule use_validated [OF inv _ closeAndThrow_at [OF use_invD(1) [OF inv] io] obeysD [OF quiet_closeAndThrow] run])
    (use u in \<open>auto simp: validating_def\<close>)

text \<open>The batch stream.\<close>

lemma use_batch:
  assumes inv: "use_inv k (c, u)" and usable: "\<not> validating u"
    and rob: "robust k c'" "orderly r" and cnt: "conn_dispatchCount c' = conn_dispatchCount c" and adv: "advance c c'"
    and b: "batch_inv (c', u\<lparr>u_batch := b\<rparr>)"
  shows "use_inv k (c', u\<lparr>u_batch := b\<rparr>) \<and> use_end k l (c, u) (outcome r)"
proof -
  have "validation_inv (c', u\<lparr>u_batch := b\<rparr>)"
    using inv usable adv by (auto simp: use_inv_def validation_inv_def validating_def advance_def)
  then show ?thesis using inv rob cnt b use_end_orderly [of r k l "(c, u)"] by (simp add: use_inv_def)
qed

lemma usable [simp]: "u_validation u = Usable \<Longrightarrow> \<not> validating u"
  by (simp add: validating_def)

lemma use_prepare:
  assumes inv: "use_inv k (c, u)" and u: "u_validation u = Usable" and io: "k \<longrightarrow> io_ok io"
    and run: "prepareBatchRequest io s c = Some (r, c')"
  shows "use_inv k (c', case r of Inr bs \<Rightarrow> u\<lparr>u_batch := Building (length (buf bs))\<rparr> | Inl _ \<Rightarrow> u) \<and> use_end k l (c, u) (outcome r)"
proof -
  note p = prepareBatch_robust [OF use_invD(1) [OF inv] use_invD(3) [OF inv u] io run]
  show ?thesis
  proof (cases r)
    case (Inl f)
    then have "quiet c c'" using p by (simp add: quiet_def)
    then show ?thesis using Inl use_frame [OF inv] p u use_end_orderly by auto
  next
    case (Inr bs)
    have "batch_inv (c, u)" using inv by (simp add: use_inv_def)
    then have "batch_inv (c', u\<lparr>u_batch := Building (length (buf bs))\<rparr>)" using p Inr by (auto simp: batch_inv_def)
    then have "use_inv k (c', u\<lparr>u_batch := Building (length (buf bs))\<rparr>) \<and> use_end k l (c, u) (outcome r)"
      by (intro use_batch inv) (use p u in auto)
    then show ?thesis using Inr by simp
  qed
qed

lemma use_begin_flush:
  assumes inv: "use_inv k (c, u)" and u: "u_validation u = Usable" and run: "beginFlush io c = Some (r, c')"
  shows "use_inv k (c', if r = Inr True then u\<lparr>u_batch := Flushing\<rparr> else u) \<and> use_end k l (c, u) (outcome r)"
proof -
  note p = beginFlush_robust [OF use_invD(1) [OF inv] use_invD(3) [OF inv u] run]
  show ?thesis
  proof (cases "r = Inr True")
    case False
    then have "quiet c c'" using p by (simp add: quiet_def)
    then show ?thesis using False use_frame [OF inv] p u use_end_orderly by auto
  next
    case True
    have "batch_inv (c, u)" using inv by (simp add: use_inv_def)
    then have "batch_inv (c', u\<lparr>u_batch := Flushing\<rparr>)" using p True by (auto simp: batch_inv_def)
    then have "use_inv k (c', u\<lparr>u_batch := Flushing\<rparr>) \<and> use_end k l (c, u) (outcome r)"
      by (intro use_batch inv) (use p u in auto)
    then show ?thesis using True by simp
  qed
qed

lemma use_send_batch:
  assumes inv: "use_inv k (c, u)" and u: "u_batch u = Flushing" and run: "sendBatch big bz io c = (r, c')"
  shows "use_inv k (c', u\<lparr>u_batch := case r of Inr _ \<Rightarrow> Flushed | Inl (Thrown ex) \<Rightarrow> Unsent ex | Inl _ \<Rightarrow> Abandoned\<rparr>) \<and>
    use_end k l (c, u) (outcome r)"
proof -
  have b: "batch_inv (c, u)" using inv by (simp add: use_inv_def)
  then have "headerSize + 4 \<le> length (buf (conn_batchStream c))" using u by (simp add: batch_inv_def)
  from sendBatch_at [OF use_invD(1) [OF inv] this, of big bz io] have p: "robust k c'" "orderly r" using run by (simp_all add: robust_at_def)
  note f = sendBatch_frame [of big bz io c, unfolded run snd_conv]
  have "batch_inv (c', u\<lparr>u_batch := case r of Inr _ \<Rightarrow> Flushed | Inl (Thrown ex) \<Rightarrow> Unsent ex | Inl _ \<Rightarrow> Abandoned\<rparr>)"
    using b u f by (auto simp: batch_inv_def split: sum.splits failure.splits)
  then show ?thesis by (intro use_batch inv) (use p f use_invD(7) [OF inv] u in auto)
qed

lemma use_flush_failed:
  assumes inv: "use_inv k (c, u)" and u: "u_batch u = Unsent ex" and io: "k \<longrightarrow> io_ok io"
    and run: "closeAndThrow io ex c = (r :: failure + unit, c')"
  shows "use_inv k (c', u\<lparr>u_batch := Abandoned\<rparr>) \<and> use_end k l (c, u) (outcome r)"
proof -
  have p: "robust k c'" "orderly r" using robust_atD [OF closeAndThrow_at [OF use_invD(1) [OF inv] io] run] by simp_all
  have q: "quiet c c'" using obeysD [OF quiet_closeAndThrow, where c = c] run by (metis snd_conv)
  have "batch_inv (c, u)" using inv by (simp add: use_inv_def)
  then have "batch_inv (c', u\<lparr>u_batch := Abandoned\<rparr>)" using q u by (auto simp: batch_inv_def quiet_def frame_def)
  then show ?thesis by (intro use_batch inv) (use p q use_invD(7) [OF inv] u in \<open>auto simp: quiet_def frame_def\<close>)
qed

lemma use_return_batch:
  assumes inv: "use_inv k (c, u)"
  shows "u_batch u = Building n \<Longrightarrow> n \<le> length (buf s) \<Longrightarrow> finishBatchRequest s compress c = (r, c') \<Longrightarrow>
      use_inv k (c', u\<lparr>u_batch := Free\<rparr>) \<and> use_end k l (c, u) (outcome r)"
    and "u_batch u = Building n \<Longrightarrow> abortBatchRequest c = (r2, c') \<Longrightarrow>
      use_inv k (c', u\<lparr>u_batch := Free\<rparr>) \<and> use_end k l (c, u) (outcome r2)"
    and "u_batch u = Flushed \<Longrightarrow> endFlush c = (r2, c') \<Longrightarrow>
      use_inv k (c', u\<lparr>u_batch := Free\<rparr>) \<and> use_end k l (c, u) (outcome r2)"
proof -
  have b: "batch_inv (c, u)" and rob: "robust k c" using inv by (simp_all add: use_inv_def)
  have v: "u_batch u \<noteq> Free \<Longrightarrow> \<not> validating u" by (rule use_invD(7) [OF inv])
  show "use_inv k (c', u\<lparr>u_batch := Free\<rparr>) \<and> use_end k l (c, u) (outcome r)"
    if u: "u_batch u = Building n" and n: "n \<le> length (buf s)" and run: "finishBatchRequest s compress c = (r, c')"
  proof -
    have "conn_batchStreamInUse c" "headerSize + 4 \<le> length (buf s)" using b u n by (auto simp: batch_inv_def)
    then have e: "robust k c' \<and> orderly r \<and> conn_dispatchCount c' = conn_dispatchCount c \<and> \<not> conn_batchStreamInUse c' \<and> batch_ok c'"
      using run rob by (auto simp: finishBatchRequest_def Let_def batch_ok_def)
    have "advance c c'" using advance_batch(1) [of c s compress] run by simp
    then show ?thesis by (intro use_batch inv) (use e v u in \<open>auto simp: batch_inv_def\<close>)
  qed
  have free: "robust k (resetBatch c)" using rob by (simp add: resetBatch_def)
  show "use_inv k (c', u\<lparr>u_batch := Free\<rparr>) \<and> use_end k l (c, u) (outcome r2)"
    if u: "u_batch u = Building n" and run: "abortBatchRequest c = (r2, c')"
  proof -
    have "conn_batchStreamInUse c" using b u by (simp add: batch_inv_def)
    then have e: "robust k c' \<and> orderly r2 \<and> conn_dispatchCount c' = conn_dispatchCount c \<and> \<not> conn_batchStreamInUse c' \<and> batch_ok c'"
      using run free by (auto simp: abortBatchRequest_def Let_def batch_ok_def)
    have "advance c c'" using advance_batch(2) [of c] run by simp
    then show ?thesis by (intro use_batch inv) (use e v u in \<open>auto simp: batch_inv_def\<close>)
  qed
  show "use_inv k (c', u\<lparr>u_batch := Free\<rparr>) \<and> use_end k l (c, u) (outcome r2)"
    if u: "u_batch u = Flushed" and run: "endFlush c = (r2, c')"
  proof -
    have e: "robust k c' \<and> orderly r2 \<and> conn_dispatchCount c' = conn_dispatchCount c \<and> \<not> conn_batchStreamInUse c' \<and> batch_ok c'"
      using run free by (auto simp: endFlush_def batch_ok_def)
    have "advance c c'" using advance_batch(3) [of c] run by simp
    then show ?thesis by (intro use_batch inv) (use e v u in \<open>auto simp: batch_inv_def\<close>)
  qed
qed

text \<open>Dispatches.\<close>

lemma use_count:
  assumes inv: "use_inv k (c, u)" and v: "\<not> validating u" and rob: "robust k c'" and adv: "advance c c'"
    and b: "conn_batchStream c' = conn_batchStream c" "conn_batchStreamInUse c' = conn_batchStreamInUse c"
    and cnt: "sint (conn_dispatchCount c') = int n"
  shows "use_inv k (c', u\<lparr>u_dispatches := n\<rparr>)"
proof -
  have "validation_inv (c', u\<lparr>u_dispatches := n\<rparr>)"
    using inv v adv by (auto simp: use_inv_def validation_inv_def validating_def advance_def)
  moreover have "batch_inv (c', u\<lparr>u_dispatches := n\<rparr>)"
    using inv b by (auto simp: use_inv_def batch_inv_def batch_ok_def split: batch_use.splits)
  ultimately show ?thesis using rob cnt by (simp add: use_inv_def)
qed

lemma use_receive:
  assumes inv: "use_inv k (c, u)" and reg: "conn_registeredWithPool c \<or> u_validation u = Usable" and io: "k \<longrightarrow> io_ok io"
    and acc: "accept_ok accept" and s: "rpos s = int (length (buf s))"
    and run: "receiveMessage big bz fill accept io s c = (r, c')"
    and n: "n = (case r of Inr (Some p) \<Rightarrow> unat (pm_invokeNum p) | _ \<Rightarrow> 0)" and few: "u_dispatches u + n < 2147483648"
  shows "use_inv k (c', u\<lparr>u_dispatches := u_dispatches u + n\<rparr>) \<and> use_end k (Receive io) (c, u) (outcome r)"
proof -
  note rob = use_invD(1) [OF inv] and cnt = use_invD(2) [OF inv]
  have st: "conn_state c \<noteq> StateNotValidated" using reg use_invD(3) [OF inv] rob by (auto simp: robust_def)
  have v: "\<not> validating u" using reg use_invD(4) [OF inv] rob by (auto simp: robust_def)
  have rec: "receive_robust k io c (r, c')" using receiveMessage_robust [OF rob st io acc s, of big bz fill] run by simp
  have "sint (conn_dispatchCount c') = int (u_dispatches u + n)"
  proof (cases "\<exists>p. r = Inr (Some p)")
    case True
    then obtain p where p: "r = Inr (Some p)" by blast
    then have "0 \<le> sint (pm_invokeNum p)" and d: "conn_dispatchCount c' = conn_dispatchCount c + pm_invokeNum p"
      using rec by (simp_all add: receive_robust_def)
    then have "sint (pm_invokeNum p) = int n" using sint_nonneg n p by simp
    then show ?thesis using d cnt few sint_add [of "conn_dispatchCount c" "pm_invokeNum p"] by simp
  next
    case False
    then show ?thesis using rec n cnt by (auto simp: receive_robust_def split: sum.splits option.splits)
  qed
  then have "use_inv k (c', u\<lparr>u_dispatches := u_dispatches u + n\<rparr>)"
    using rec by (intro use_count [OF inv v]) (simp_all add: receive_robust_def)
  moreover have "use_end k (Receive io) (c, u) (outcome r)"
  proof (cases "orderly r")
    case False
    then have f: "r = Inl ThreadLockedException" "io_shutdownWrite io \<in> {Some SocketException, Some ConnectionLostException}"
      using rec by (auto simp: receive_robust_def)
    then have "\<not> k" using io by (auto simp: io_ok_def)
    then show ?thesis using f by (auto simp: use_end_def outcome_def)
  qed (rule use_end_orderly)
  ultimately show ?thesis by blast
qed

lemma use_end_dispatch:
  assumes inv: "use_inv k (c, u)" and u: "u_dispatches u = Suc n" and io: "k \<longrightarrow> io_ok io"
    and run: "endDispatch big io acm c = (r, c')"
  shows "use_inv k (c', u\<lparr>u_dispatches := n\<rparr>) \<and> use_end k l (c, u) (outcome r)"
proof -
  note rob = use_invD(1) [OF inv] and cnt = use_invD(2) [OF inv]
  have nz: "conn_dispatchCount c \<noteq> 0" using cnt u by auto
  have v: "\<not> validating u" using use_invD(8) [OF inv] u by simp
  have p: "robust k c'" "orderly r" using robust_atD [OF endDispatch_at(1) [OF rob nz io] run] by simp_all
  have d: "conn_dispatchCount c' = conn_dispatchCount c - 1" using endDispatch_at(2) [OF rob nz io, of big acm] run by simp
  then have "sint (conn_dispatchCount c') = int n"
    using cnt u sint_sub [of "conn_dispatchCount c" 1] sint_lt [of "conn_dispatchCount c"] by simp
  moreover have "frame (c\<lparr>conn_dispatchCount := conn_dispatchCount c - 1\<rparr>) c' \<or> c' = c"
    using endDispatch_frame [of c big io acm] run by (auto simp: quiet_def)
  moreover have "advance c c'" using advance_endDispatch [of c big io acm] run by simp
  ultimately show ?thesis using p use_end_orderly by (auto simp: frame_def intro!: use_count [OF inv v])
qed

lemma dropDispatches_result:
  assumes cnt: "sint (conn_dispatchCount c) = int n" and k: "0 < unat i" "unat i \<le> n"
  shows "dropDispatches i c = (Inr (), c\<lparr>conn_dispatchCount := conn_dispatchCount c - i\<rparr>) \<and>
    sint (conn_dispatchCount c - i) = int (n - unat i)"
proof -
  have "int n < 2147483648" using cnt sint_lt [of "conn_dispatchCount c"] by simp
  then have "0 \<le> sint i" using k by (simp add: sint_nonneg_iff)
  then have sk: "sint i = int (unat i)" by (rule sint_nonneg)
  have "sint (conn_dispatchCount c) - sint i = int (n - unat i)" using cnt sk k(2) by (simp only: of_nat_diff)
  moreover have "int (n - unat i) < 2147483648" using \<open>int n < 2147483648\<close> by linarith
  ultimately have d: "sint (conn_dispatchCount c - i) = int (n - unat i)"
    using sint_sub [of "conn_dispatchCount c" i] by simp
  have "0 < sint i" "0 < sint (conn_dispatchCount c)" "0 \<le> sint (conn_dispatchCount c - i)"
    using sk k cnt d by (simp_all only: of_nat_0_less_iff of_nat_0_le_iff)
  then show ?thesis using d by (simp add: dropDispatches_def Let_def)
qed

lemma use_invoke_failed:
  assumes inv: "use_inv k (c, u)" and i: "0 < unat i" "unat i \<le> u_dispatches u" and io: "k \<longrightarrow> io_ok io"
    and run: "abind (setClosed io ex) (\<lambda>_. dropDispatches i) c = (r, c')"
  shows "use_inv k (c', u\<lparr>u_dispatches := u_dispatches u - (case r of Inr _ \<Rightarrow> unat i | Inl _ \<Rightarrow> 0)\<rparr>) \<and>
    use_end k l (c, u) (outcome r)"
proof -
  note rob = use_invD(1) [OF inv] and cnt = use_invD(2) [OF inv]
  have v: "\<not> validating u" using use_invD(8) [OF inv] i by simp
  obtain x c1 where close: "setClosed io ex c = (x, c1)" by fastforce
  have q: "quiet c c1" using obeysD [OF quiet_setClosed, of c io ex] close by simp
  note sr = setClosed_robust [OF rob io close]
  have same: "conn_dispatchCount c1 = conn_dispatchCount c" "conn_batchStream c1 = conn_batchStream c"
    "conn_batchStreamInUse c1 = conn_batchStreamInUse c" "advance c c1" using q by (simp_all add: quiet_def frame_def)
  show ?thesis
  proof (cases x)
    case (Inl f)
    then have "r = Inl f" "c' = c1" "orderly r" using run close sr(2) by (auto simp: abind_def)
    then show ?thesis using use_count [OF inv v sr(1) same(4,2,3)] same(1) cnt use_end_orderly by simp
  next
    case (Inr y)
    have "sint (conn_dispatchCount c1) = int (u_dispatches u)" using cnt same(1) by simp
    note drop = dropDispatches_result [OF this i]
    have e: "r = Inr ()" "c' = c1\<lparr>conn_dispatchCount := conn_dispatchCount c1 - i\<rparr>"
      using run close Inr drop by (simp_all add: abind_def)
    have "conn_state c1 \<noteq> StateNotValidated" using sr(2) Inr by simp
    then have rob': "robust k c'" using robust_count [OF sr(1)] e by simp
    have "advance c c'" using same(4) e by (auto simp: advance_def idle_def)
    then have "use_inv k (c', u\<lparr>u_dispatches := u_dispatches u - unat i\<rparr>)"
      using rob' same drop e by (intro use_count [OF inv v]) simp_all
    then show ?thesis using e(1) use_end_orderly [of r] by simp
  qed
qed

section \<open>Every step\<close>

lemma use_option:
  assumes "when_ready P act c = Some (r, c')" "use_inv k (c, u)" "robust_at k c act" "obeys quiet act"
    and "validating u \<Longrightarrow> P c \<Longrightarrow> early_kept c (snd (act c)) \<and> u_server u"
  shows "use_inv k (c', u) \<and> use_end k l (c, u) (outcome r)"
  using assms by (intro use_plain [where act = act]) (auto simp: when_ready_def split: if_splits)

lemma use_usable:
  assumes "use_inv k (c, u)" "u_validation u = Usable" "robust_at k c act" "quiet c (snd (act c))" "act c = (r, c')"
  shows "use_inv k (c', u) \<and> use_end k l (c, u) (outcome r)"
proof -
  have "robust k c'" "orderly r" "quiet c c'" using assms(3-5) by (simp_all add: robust_at_def)
  then show ?thesis using use_frame [OF assms(1)] assms(2) use_end_orderly by auto
qed

lemma quiet_begin:
  assumes "robust k c" and st: "conn_state c \<noteq> StateNotValidated"
  shows "quiet c (snd (beginRequest big io out os c))" "quiet c (snd (beginAsyncRequest big io q os c))"
proof -
  obtain rid nx where id: "newRequestId c = (Inr rid, c\<lparr>conn_nextRequestId := nx\<rparr>)" using newRequestId_result by blast
  have tr: "conn_exception c = None \<Longrightarrow> conn_transceiver c" using robust_transceiver [OF assms(1)] by blast
  show "quiet c (snd (beginRequest big io out os c))" "quiet c (snd (beginAsyncRequest big io q os c))"
    using st tr id
    by (auto simp: beginRequest_def beginAsyncRequest_def abind_def Let_def quiet_defs acmReset_def split: option.splits sum.splits)
qed

lemma setAdapter_at: "robust k c \<Longrightarrow> robust_at k c (setAdapter a)"
  using robust_open [of k c] by (auto simp: robust_at_def setAdapter_def rethrow_def split: option.splits)

lemma use_throw:
  assumes inv: "use_inv k (c, u)" and run: "throwConnException c = (r, c')"
  shows "use_inv k (c', u) \<and> use_end k ThrowException (c, u) (outcome r)"
proof -
  have "conn_exception c \<noteq> None \<Longrightarrow> k \<Longrightarrow> conn_state c \<ge> StateClosing" using use_invD(1) [OF inv] by (auto simp: robust_def)
  moreover have "c' = c" using run by (auto simp: throwConnException_def split: option.splits if_splits)
  ultimately show ?thesis using inv run
    by (auto simp: throwConnException_def use_end_def outcome_def not_le split: option.splits if_splits)
qed

lemma use_is_finished:
  assumes inv: "use_inv k (c, u)" and run: "isFinished c = (r, c')"
  shows "use_inv k (c', u) \<and> use_end k l (c, u) (outcome r)"
proof -
  have "\<not> conn_transceiver c \<Longrightarrow> conn_state c = StateClosed" using use_invD(1) [OF inv] by (simp add: robust_def)
  then have "orderly r" and "c' = c" using run by (auto simp: isFinished_def split: if_splits)
  then show ?thesis using inv use_end_orderly by simp
qed

lemma use_step_inv:
  assumes step: "use_step big bz fill calm l w fo w'" and inv: "use_inv calm w"
  shows "use_inv calm w' \<and> use_end calm l w fo"
  using step inv
proof cases
  case (validate_begin u c r c')
  show ?thesis unfolding validate_begin(1-4)
    by (rule use_validate_begin) (use validate_begin inv in \<open>simp_all add: validating_def\<close>)
next
  case (validate_datagram u c io r c')
  show ?thesis unfolding validate_datagram(1-4)
    by (rule use_validate_end) (use validate_datagram inv in \<open>simp_all add: validating_def\<close>)
next
  case (validate_handshake u active io c r c')
  show ?thesis unfolding validate_handshake(1-4)
    by (rule use_validate_handshake) (use validate_handshake inv in \<open>simp_all add: validating_def\<close>)
next
  case (validate_failed u ex io c r c')
  show ?thesis unfolding validate_failed(1-4)
    by (rule use_validate_failed) (use validate_failed inv in \<open>simp_all add: validating_def\<close>)
next
  case (validate_end u io c r c')
  show ?thesis unfolding validate_end(1-4)
    by (rule use_validate_end) (use validate_end inv in \<open>simp_all add: validating_def\<close>)
next
  case (activate u io c r c')
  have i: "use_inv calm (c, u)" using inv activate by simp
  have a: "robust_at calm c (setState big io StateActive)" by (rule setState_at [OF use_invD(1) [OF i]]) simp
  have e: "early_kept c (snd (setState big io StateActive c)) \<and> u_server u" if "validating u" "conn_state c \<noteq> StateNotValidated"
    using use_invD(4) [OF i] that shared_server [OF activate(5)] early_setState [of c StateActive big io] by auto
  show ?thesis unfolding activate(1-4)
    by (rule use_option [OF activate(6) [unfolded ConnectionState.activate_def] i a quiet_setState]) (rule e)
next
  case (hold u io c r c')
  have i: "use_inv calm (c, u)" using inv hold by simp
  have a: "robust_at calm c (setState big io StateHolding)" by (rule setState_at [OF use_invD(1) [OF i]]) simp
  have e: "early_kept c (snd (setState big io StateHolding c)) \<and> u_server u" if "validating u" "conn_state c \<noteq> StateNotValidated"
    using use_invD(4) [OF i] that shared_server [OF hold(5)] early_setState [of c StateHolding big io] by auto
  show ?thesis unfolding hold(1-4)
    by (rule use_option [OF hold(6) [unfolded ConnectionState.hold_def] i a quiet_setState]) (rule e)
next
  case (destroy u io reason c r c')
  have i: "use_inv calm (c, u)" using inv destroy by simp
  obtain ex where ex: "ConnectionState.destroy big io reason c = setStateEx big io StateClosing ex c"
    by (cases reason) (auto simp: ConnectionState.destroy_def)
  have e: "early_kept c c'" if "validating u"
    using early_setStateEx(1) [OF use_invD(1) [OF i] destroy(6) use_invD(4) [OF i that], of big ex] destroy(7) ex by simp
  show ?thesis unfolding destroy(1-4)
    by (rule use_plain [OF i setStateEx_Closing_at [OF use_invD(1) [OF i] destroy(6), of big ex] quiet_setStateEx])
      (use destroy(7) ex e shared_server [OF destroy(5)] in auto)
next
  case (close u io force c r c')
  have i: "use_inv calm (c, u)" using inv close by simp
  note rob = use_invD(1) [OF i]
  have e: "early_kept c (snd (setStateEx big io s ex c)) \<and> u_server u" if "validating u" "s = StateClosing \<or> s = StateClosed" for s ex
    using early_setStateEx [OF rob close(6) use_invD(4) [OF i that(1)], of big ex] shared_server [OF close(5) that(1)] that(2) by auto
  show ?thesis
  proof (cases force)
    case True
    then have "when_ready (\<lambda>_. True) (setStateEx big io StateClosed ForcedCloseConnectionException) c = Some (r, c')"
      using close(7) by (simp add: ConnectionState.close_def)
    then show ?thesis unfolding close(1-4)
      by (rule use_option [OF _ i setStateEx_Closed_at [OF rob close(6)] quiet_setStateEx]) (use e in blast)+
  next
    case False
    then have "when_ready (\<lambda>c. conn_requests c = [] \<and> conn_asyncRequests c = [])
        (setStateEx big io StateClosing CloseConnectionException) c = Some (r, c')"
      using close(7) by (simp add: ConnectionState.close_def)
    then show ?thesis unfolding close(1-4)
      by (rule use_option [OF _ i setStateEx_Closing_at [OF rob close(6)] quiet_setStateEx]) (use e in blast)+
  qed
next
  case (close_timeout u io c r c')
  have i: "use_inv calm (c, u)" using inv close_timeout by simp
  note rob = use_invD(1) [OF i]
  have e: "early_kept c (snd (setStateEx big io StateClosed ex c)) \<and> u_server u" if "validating u" for ex
    using early_setStateEx(2) [OF rob close_timeout(6) use_invD(4) [OF i that], of big ex] shared_server [OF close_timeout(5) that] by auto
  show ?thesis unfolding close_timeout(1-4)
    by (rule use_option [OF close_timeout(7) [unfolded closeTimeout_def] i setStateEx_Closed_at [OF rob close_timeout(6)] quiet_setStateEx])
      (rule e)
next
  case (monitor u io c r c')
  have i: "use_inv calm (c, u)" using inv monitor by simp
  have e: "c' = c" if "validating u" using use_invD(4) [OF i that] monitor(7) by (auto simp: ConnectionState.monitor_def split: if_splits)
  show ?thesis unfolding monitor(1-4)
    by (rule use_plain [OF i monitor_at [OF use_invD(1) [OF i] monitor(6)] quiet_monitor monitor(7)])
      (use e in auto)
next
  case (exception u io ex c r c')
  have i: "use_inv calm (c, u)" using inv exception by simp
  have run: "setClosed io ex c = (r, c')" using exception(7) by (simp add: connException_def)
  have e: "early_kept c c'" if "validating u"
    using early_setClosed [OF use_invD(1) [OF i] use_invD(4) [OF i that], of io ex] run by simp
  show ?thesis unfolding exception(1-4)
    by (rule use_plain [OF i setClosed_at [OF use_invD(1) [OF i] exception(6)] quiet_setClosed run])
      (use e shared_server [OF exception(5)] in auto)
next
  case (is_finished u c r c')
  show ?thesis unfolding is_finished(1-4)
    by (rule use_is_finished) (use is_finished inv in \<open>simp_all add: validating_def\<close>)
next
  case (finished c io r c' u)
  have i: "use_inv calm (c, u)" using inv finished by simp
  have e: "early_kept c c'" using early_finished [of c io] finished(6) by simp
  have "conn_state c = StateNotValidated \<Longrightarrow> False" using use_invD(1) [OF i] finished(5) by (simp add: robust_def)
  then show ?thesis unfolding finished(1-4)
    by (intro use_plain [OF i finished_at [OF use_invD(1) [OF i] finished(5)] quiet_finished finished(6)])
      (use e use_invD(6) [OF i] in auto)
next
  case (throw_exception u c r c')
  show ?thesis unfolding throw_exception(1-4)
    by (rule use_throw) (use throw_exception inv in \<open>simp_all add: validating_def\<close>)
next
  case (set_adapter u a c r c')
  show ?thesis unfolding set_adapter(1-4)
    by (rule use_usable [OF _ set_adapter(5) setAdapter_at obeysD [OF quiet_setAdapter] set_adapter(6)])
      (use set_adapter inv in \<open>auto dest: use_invD(1)\<close>)
next
  case (begin_request u os out c io r c')
  have i: "use_inv calm (c, u)" using inv begin_request by simp
  show ?thesis unfolding begin_request(1-4)
    by (rule use_usable [OF i begin_request(5) beginRequest_at quiet_begin(1) begin_request(8)])
      (use begin_request use_invD(1,3) [OF i] in auto)
next
  case (transmit u os io kind compress c r c')
  have i: "use_inv calm (c, u)" using inv transmit by simp
  show ?thesis unfolding transmit(1-4)
    by (rule use_usable [OF i transmit(5) transmit_at obeysD [OF quiet_transmit] transmit(8)])
      (use transmit use_invD(1,3) [OF i] in auto)
next
  case (request_failed u io out rid ex c r c')
  have i: "use_inv calm (c, u)" using inv request_failed by simp
  show ?thesis unfolding request_failed(1-4)
    by (rule use_usable [OF i request_failed(5) requestFailed_at obeysD [OF quiet_requestFailed] request_failed(7)])
      (use request_failed use_invD(1,3) [OF i] in auto)
next
  case (begin_async u os c io q r c')
  have i: "use_inv calm (c, u)" using inv begin_async by simp
  show ?thesis unfolding begin_async(1-4)
    by (rule use_usable [OF i begin_async(5) beginAsyncRequest_at quiet_begin(2) begin_async(8)])
      (use begin_async use_invD(1,3) [OF i] in auto)
next
  case (async_failed u io rid ex c r c')
  have i: "use_inv calm (c, u)" using inv async_failed by simp
  show ?thesis unfolding async_failed(1-4)
    by (rule use_usable [OF i async_failed(5) asyncRequestFailed_at obeysD [OF quiet_asyncRequestFailed] async_failed(7)])
      (use async_failed use_invD(1,3) [OF i] in auto)
next
  case (prepare_batch u io s c r c')
  show ?thesis unfolding prepare_batch(1-4)
    by (rule use_prepare) (use prepare_batch inv in \<open>simp_all add: validating_def\<close>)
next
  case (finish_batch u k s compress c r c')
  show ?thesis unfolding finish_batch(1-4)
    by (rule use_return_batch(1)) (use finish_batch inv in \<open>simp_all add: validating_def\<close>)
next
  case (abort_batch u k c r c')
  show ?thesis unfolding abort_batch(1-4)
    by (rule use_return_batch(2)) (use abort_batch inv in \<open>simp_all add: validating_def\<close>)
next
  case (begin_flush u io c r c')
  show ?thesis unfolding begin_flush(1-4)
    by (rule use_begin_flush) (use begin_flush inv in \<open>simp_all add: validating_def\<close>)
next
  case (send_batch u io c r c')
  show ?thesis unfolding send_batch(1-4)
    by (rule use_send_batch) (use send_batch inv in \<open>simp_all add: validating_def\<close>)
next
  case (flush_failed u ex io c r c')
  show ?thesis unfolding flush_failed(1-4)
    by (rule use_flush_failed) (use flush_failed inv in \<open>simp_all add: validating_def\<close>)
next
  case (end_flush u c r c')
  show ?thesis unfolding end_flush(1-4)
    by (rule use_return_batch(3)) (use end_flush inv in \<open>simp_all add: validating_def\<close>)
next
  case (receive c u io accept s r c' k)
  show ?thesis unfolding receive(1-4)
    by (rule use_receive) (use receive inv in \<open>simp_all add: validating_def\<close>)
next
  case (end_dispatch u n io acm c r c')
  show ?thesis unfolding end_dispatch(1-4)
    by (rule use_end_dispatch) (use end_dispatch inv in \<open>simp_all add: validating_def\<close>)
next
  case (invoke_failed k u io ex c r c')
  show ?thesis unfolding invoke_failed(1-4)
    by (rule use_invoke_failed) (use invoke_failed inv in \<open>simp_all add: validating_def\<close>)
qed

lemma new_use_inv:
  "use_inv calm (connection_new maxSize dgram False server manager serverACM clientACM tmo level, new_use server)"
  by (simp add: use_inv_def robust_def validation_inv_def batch_inv_def batch_ok_def tables_inv_def connection_new_def new_use_def
      stream_new_def validating_def state_order)

lemma use_reachable_inv: "use_reachable big bz fill calm w \<Longrightarrow> use_inv calm w"
  by (induction rule: use_reachable.induct) (use new_use_inv use_step_inv in blast)+

text \<open>
  The guards of \<open>conn_step\<close> follow from the protocols: as long as no shutdown of the write side fails, the
  connections that users reach are those of \<open>conn_reachable\<close>, about which the other theorems speak.\<close>

lemma use_step_reachable:
  assumes step: "use_step big bz fill True l w fo w'" and inv: "use_inv True w"
    and reach: "conn_reachable big bz fill (fst w, u_dispatches (snd w))"
  shows "conn_reachable big bz fill (fst w', u_dispatches (snd w'))"
proof -
  have go: "conn_reachable big bz fill (c', n')"
    if "conn_step big bz fill (fst w, u_dispatches (snd w)) f (c', n')" for f c' n'
    using conn_reachable.step [OF reach that] .
  have sec: "conn_reachable big bz fill (c', n')"
    if "conn_section big bz fill (fst w, u_dispatches (snd w)) f (c', n')" for f c' n'
    using go [OF conn_step.of_section [OF that]] .
  have batch: "batch_inv w" using inv by (simp add: use_inv_def)
  from step inv show ?thesis
  proof cases
    case (validate_begin u c r c')
    then show ?thesis using sec [OF conn_section.begin_validate] use_invD(4) [of True c u] inv by (simp add: validating_def)
  next
    case (validate_datagram u c io r c')
    then show ?thesis using sec [OF conn_section.end_validate] by simp
  next
    case (validate_handshake u active io c r c')
    have i: "use_inv True (c, u)" using inv validate_handshake by simp
    have v: "validating u" using validate_handshake(5) by (simp add: validating_def)
    have "active = u_server u" using i validate_handshake(5) by (simp add: use_inv_def validation_inv_def)
    then have "\<not> active \<Longrightarrow> conn_transceiver c" using use_invD(1) [OF i] use_invD(6) [OF i v] by (auto simp: robust_def)
    then show ?thesis using sec [OF conn_section.handshake, of io active] validate_handshake by simp
  next
    case (validate_failed u ex io c r c')
    then show ?thesis using sec [OF conn_section.close_throw] by simp
  next
    case (validate_end u io c r c')
    then show ?thesis using sec [OF conn_section.end_validate] by simp
  next
    case (activate u io c r c')
    then show ?thesis using sec [OF conn_section.activate] by simp
  next
    case (hold u io c r c')
    then show ?thesis using sec [OF conn_section.hold] by simp
  next
    case (destroy u io reason c r c')
    then show ?thesis using sec [OF conn_section.destroy] by simp
  next
    case (close u io force c r c')
    then show ?thesis using sec [OF conn_section.close] by simp
  next
    case (close_timeout u io c r c')
    then show ?thesis using sec [OF conn_section.close_timeout] by simp
  next
    case (monitor u io c r c')
    then show ?thesis using sec [OF conn_section.monitor] by simp
  next
    case (exception u io ex c r c')
    then show ?thesis using sec [OF conn_section.exception] by simp
  next
    case (is_finished u c r c')
    then show ?thesis using reach by (auto simp: isFinished_def split: if_splits)
  next
    case (finished c io r c' u)
    then show ?thesis using sec [OF conn_section.finished] by simp
  next
    case (throw_exception u c r c')
    then show ?thesis using reach by (auto simp: throwConnException_def split: option.splits if_splits)
  next
    case (set_adapter u a c r c')
    then show ?thesis using sec [OF conn_section.set_adapter] by simp
  next
    case (begin_request u os out c io r c')
    then show ?thesis using go [OF conn_step.begin_request] use_invD(3) [of True c u] inv by simp
  next
    case (transmit u kind os io compress c r c')
    then show ?thesis using sec [OF conn_section.transmit] by simp
  next
    case (request_failed u io out rid ex c r c')
    then show ?thesis using go [OF conn_step.request_failed] by simp
  next
    case (begin_async u os c io q r c')
    then show ?thesis using sec [OF conn_section.begin_async] use_invD(3) [of True c u] inv by simp
  next
    case (async_failed u io rid ex c r c')
    then show ?thesis using sec [OF conn_section.async_failed] by simp
  next
    case (prepare_batch u io s c r c')
    then show ?thesis using sec [OF conn_section.prepare_batch] use_invD(3) [of True c u] inv by (simp split: sum.splits)
  next
    case (finish_batch u k s compress c r c')
    then have "conn_batchStreamInUse c" "headerSize + 4 \<le> length (buf s)" using batch by (auto simp: batch_inv_def)
    then show ?thesis using sec [OF conn_section.finish_batch] finish_batch by simp
  next
    case (abort_batch u k c r c')
    then show ?thesis using sec [OF conn_section.abort_batch] batch by (simp add: batch_inv_def)
  next
    case (begin_flush u io c r c')
    then show ?thesis using sec [OF conn_section.begin_flush] use_invD(3) [of True c u] inv by simp
  next
    case (send_batch u io c r c')
    then show ?thesis using sec [OF conn_section.send_batch] batch by (simp add: batch_inv_def)
  next
    case (flush_failed u ex io c r c')
    then show ?thesis using sec [OF conn_section.close_throw] by simp
  next
    case (end_flush u c r c')
    then show ?thesis using sec [OF conn_section.end_flush] batch by (simp add: batch_inv_def)
  next
    case (receive c u io accept s r c' k)
    have "conn_state c \<noteq> StateNotValidated"
      using receive(5) use_invD(3) [of True c u] use_invD(1) [of True c u] inv receive(2) by (auto simp: robust_def)
    then show ?thesis using go [OF conn_step.receive] receive by simp
  next
    case (end_dispatch u n io acm c r c')
    then have "conn_section big bz fill (fst w, u_dispatches (snd w)) (outcome r) (c', n)"
      using conn_section.end_dispatch [of io big acm c r c' bz fill n] by simp
    from sec [OF this] show ?thesis using end_dispatch by simp
  next
    case (invoke_failed k u io ex c r c')
    obtain x c1 where close: "setClosed io ex c = (x, c1)" by fastforce
    have rob: "robust True c" using use_invD(1) [of True c u] inv invoke_failed(2) by simp
    have io: "True \<longrightarrow> io_ok io" using invoke_failed(7) by simp
    have "connException io ex c = (x, c1)" using close by (simp add: connException_def)
    with sec [OF conn_section.exception, of io ex x c1] io invoke_failed(2)
    have r1: "conn_reachable big bz fill (c1, u_dispatches u)" by simp
    have "io_shutdownWrite io = None" using io by (simp add: io_ok_def)
    then obtain y where x: "x = Inr y" "conn_state c1 = StateClosed"
      using setClosed_robust(2) [OF rob io close] by (cases x) auto
    then have drop: "dropDispatches k c1 = (r, c')" using invoke_failed(8) close by (simp add: abind_def)
    have n: "r = Inr ()" "sint (conn_dispatchCount c1) = int (u_dispatches u)"
    proof -
      have "quiet c c1" using obeysD [OF quiet_setClosed, of c io ex] close by simp
      then show "sint (conn_dispatchCount c1) = int (u_dispatches u)"
        using use_invD(2) [of True c u] inv invoke_failed(2) by (simp add: quiet_def frame_def)
      from dropDispatches_result [OF this invoke_failed(5,6)] show "r = Inr ()" using drop by simp
    qed
    from conn_reachable.step [OF r1 conn_step.of_section [OF conn_section.drop_dispatches [OF x(2) invoke_failed(5,6) drop]]]
    show ?thesis using invoke_failed(4) n(1) by simp
  qed
qed

lemma use_is_reachable: "use_reachable big bz fill True w \<Longrightarrow> conn_reachable big bz fill (fst w, u_dispatches (snd w))"
proof (induction rule: use_reachable.induct)
  case (new maxSize dgram server manager serverACM clientACM tmo level)
  then show ?case by (simp add: new_use_def conn_reachable.new)
next
  case (step w l fo w')
  then show ?case using use_step_reachable use_reachable_inv by blast
qed

text \<open>An incoming connection that is validated, and that the write side of its socket keeps from being closed.\<close>

definition torn_io :: io where
  "torn_io = calm_io\<lparr>io_shutdownWrite := Some SocketException\<rparr>"

lemma server_use_reachable: "use_reachable False store_bz 0 calm (server_conn, new_use True)"
  unfolding server_conn_def by (rule use_reachable.new)

lemma torn_reachable:
  "\<exists>w w'. use_reachable False store_bz 0 False (w :: nat use_world) \<and>
     use_step False store_bz 0 False ThrowException w (Some AssertionFailed) w'"
proof -
  let ?R = "use_reachable False store_bz 0 False :: nat use_world \<Rightarrow> bool" and ?u = "new_use True"
  let ?c1 = "server_conn\<lparr>conn_log := [Wrote ValidateMsg (headerMessage False validateConnectionMsg 0)]\<rparr>"
  have "beginValidate server_conn = (Inr True, server_conn)" by (simp add: beginValidate_def server_conn_def connection_new_def)
  from use_reachable.step [OF server_use_reachable use_step.validate_begin [OF _ _ this]]
  have 1: "?R (server_conn, ?u\<lparr>u_validation := Begun True\<rparr>)" by (simp add: new_use_def server_conn_def connection_new_def)
  have "handshake False calm_io True server_conn = (Inr (), ?c1)"
    by (simp add: handshake_def action_defs server_conn_def connection_new_def calm_io_def)
  from use_reachable.step [OF 1 use_step.validate_handshake [OF _ _ this]]
  have 2: "?R (?c1, ?u\<lparr>u_validation := Shaken\<rparr>)" by (simp add: calm_io_def)
  obtain r2 c2 where c2: "endValidate False calm_io ?c1 = (r2, c2)" by fastforce
  then have c2': "r2 = Inr ()" "conn_state c2 = StateHolding" "conn_transceiver c2" "\<not> conn_threadPerConnection c2" "conn_exception c2 = None"
    by (auto simp: sample_defs)
  from use_reachable.step [OF 2 use_step.validate_end [OF _ c2]]
  have 3: "?R (c2, ?u\<lparr>u_validation := Usable\<rparr>)" using c2'(1) by simp
  obtain c3 where c3: "connException torn_io TimeoutException c2 = (throw SocketException, c3)"
      "conn_state c3 = StateHolding" "conn_exception c3 = Some TimeoutException"
    using setClosed_running [of c2 torn_io TimeoutException] c2' by (simp add: connException_def torn_io_def)
  from use_reachable.step [OF 3 use_step.exception [OF _ _ c3(1)]]
  have 4: "?R (c3, ?u\<lparr>u_validation := Usable\<rparr>)" by (simp add: shared_def validating_def)
  have "throwConnException c3 = (Inl AssertionFailed, c3)" using c3 by (simp add: throwConnException_def state_order)
  from use_step.throw_exception [OF _ this, of "?u\<lparr>u_validation := Usable\<rparr>" False store_bz 0 False]
  have "use_step False store_bz 0 False ThrowException (c3, ?u\<lparr>u_validation := Usable\<rparr>) (Some AssertionFailed)
      (c3, ?u\<lparr>u_validation := Usable\<rparr>)" by (simp add: outcome_def)
  then show ?thesis using 4 by blast
qed

text \<open>
  C2: whatever the threads that use a connection do in turn, each following its own protocol, and whatever the
  transceiver answers, a section of the connection ends normally or with an Ice exception: it
  violates no assertion, follows no null or stale pointer and does not lock the monitor it holds.  There are two
  exceptions, and none when the write side of the socket can always be shut down: a message during whose
  handling that shutdown throws an exception of the socket, and \<open>throwException\<close> on a
  connection that such a shutdown has left with an exception in a state that is not closing.
\<close>

theorem connection_no_crash:
  assumes "use_reachable big bz fill calm (c, u)" and "use_step big bz fill calm l (c, u) fo w'"
  shows "fo = None \<or> (\<exists>e. fo = Some (Thrown e)) \<or>
    \<not> calm \<and> fo = Some ThreadLockedException \<and>
      (\<exists>io. l = Receive io \<and> io_shutdownWrite io \<in> {Some SocketException, Some ConnectionLostException}) \<or>
    \<not> calm \<and> fo = Some AssertionFailed \<and> l = ThrowException \<and> conn_exception c \<noteq> None \<and> conn_state c < StateClosing"
  using use_step_inv [OF assms(2) use_reachable_inv [OF assms(1)]]
  by (auto simp: use_end_def split: option.splits failure.splits)

theorem connection_no_crash_witness:
  "(case outcome (fst (destroy False calm_io ObjectAdapterDeactivated server_conn)) of None \<Rightarrow> True | Some f \<Rightarrow> \<exists>e. f = Thrown e) \<and>
   (\<exists>(w :: nat use_world) w'. use_reachable False store_bz 0 False w \<and>
      use_step False store_bz 0 False ThrowException w (Some AssertionFailed) w')"
proof -
  obtain r c' where run: "destroy False calm_io ObjectAdapterDeactivated server_conn = (r, c')" by fastforce
  have "shared (new_use True)" by (simp add: shared_def new_use_def)
  from connection_no_crash [OF server_use_reachable use_step.destroy [where calm = True, OF this _ run]] calm_io_ok
  have "case outcome r of None \<Rightarrow> True | Some f \<Rightarrow> \<exists>e. f = Thrown e" by (auto split: option.split)
  then show ?thesis using run torn_reachable by simp
qed

end
