(* ===== verification/ObjectAdapter.thy ===== *)
theory ObjectAdapter imports ServantManager begin

text \<open>
  Object adapters, \<^verbatim>\<open>src/Ice-3.1.1/src/Ice/ObjectAdapterI.cpp\<close>: the component through which the server
  registers its servants and goes on and off line.  A function that holds the monitor throughout is
  one definition; \<open>activate\<close>, \<open>deactivate\<close> and \<open>waitForDeactivate\<close>, which let go of it, are split
  into their critical sections, and a step relation interleaves the sections of any number of
  threads.  Incoming connection factories are named by their endpoints, and what is done to them is a
  list of events.  The locator registry is a remote service: a parameter with the answers its
  interface documents.
\<close>

section \<open>Model\<close>

text \<open>
  The handles \<open>_instance\<close>, \<open>_communicator\<close>, \<open>_objectAdapterFactory\<close>, \<open>_threadPool\<close>, \<open>_routerInfo\<close> and \<open>_locatorInfo\<close> are kept as whether
  they are not null.
\<close>

record ('o, 'l, 'e) adapter =
  oa_deactivated :: bool
  oa_instance :: bool
  oa_communicator :: bool
  oa_objectAdapterFactory :: bool
  oa_threadPool :: bool
  oa_servantManager :: "('o, 'l) servant_manager"
  oa_activateOneOffDone :: bool
  oa_name :: string
  oa_id :: string
  oa_replicaGroupId :: string
  oa_factories :: "'e list"
  oa_routerEndpoints :: "'e list"
  oa_routerInfo :: bool
  oa_publishedEndpoints :: "'e list"
  oa_locatorInfo :: bool
  oa_directCount :: ice_int
  oa_waitForActivate :: bool
  oa_waitForDeactivate :: bool

datatype 'e proxy =
    DirectProxy identity string "'e list"       \<comment> \<open>identity, facet, endpoints\<close>
  | IndirectProxy identity string string        \<comment> \<open>identity, facet, adapter id\<close>

datatype ('l, 'e) adapter_event =
    FactoryActivate 'e
  | FactoryHold 'e
  | FactoryWaitUntilHolding 'e
  | FactoryDestroy 'e
  | FactoryWaitUntilFinished 'e
  | FactoryFlush 'e
  | RouterErased
  | RemoveAdapter                               \<comment> \<open>\<open>outgoingConnectionFactory->removeAdapter(this)\<close>\<close>
  | LocatorDeactivate string 'l
  | ThreadPoolJoined
  | RemoveObjectAdapter string                  \<comment> \<open>from the adapter factory\<close>
  | PrintReady string

subsection \<open>Guards and proxies\<close>

definition checkForDeactivation :: "('o, 'l, 'e) adapter \<Rightarrow> failure + unit" where
  "checkForDeactivation a = (if oa_deactivated a then throw (ObjectAdapterDeactivatedException (oa_name a)) else Inr ())"

definition checkIdentity :: "identity \<Rightarrow> failure + unit" where
  "checkIdentity ident =
     (if length (name ident) = 0 then throw (IllegalIdentityException (name ident) (category ident)) else Inr ())"

definition newDirectProxy :: "identity \<Rightarrow> string \<Rightarrow> ('o, 'l, 'e) adapter \<Rightarrow> failure + 'e proxy" where
  "newDirectProxy ident facet a =
     (if \<not> oa_instance a then Inl NullHandleException
      else Inr (DirectProxy ident facet (oa_publishedEndpoints a @ oa_routerEndpoints a)))"

definition newIndirectProxy :: "identity \<Rightarrow> string \<Rightarrow> string \<Rightarrow> ('o, 'l, 'e) adapter \<Rightarrow> failure + 'e proxy" where
  "newIndirectProxy ident facet adapterId a =
     (if \<not> oa_instance a then Inl NullHandleException else Inr (IndirectProxy ident facet adapterId))"

definition newProxy :: "identity \<Rightarrow> string \<Rightarrow> ('o, 'l, 'e) adapter \<Rightarrow> failure + 'e proxy" where
  "newProxy ident facet a =
     (if oa_id a = [] then newDirectProxy ident facet a
      else if oa_replicaGroupId a = [] then newIndirectProxy ident facet (oa_id a) a
      else newIndirectProxy ident facet (oa_replicaGroupId a) a)"

definition guarded :: "identity \<Rightarrow> ('o, 'l, 'e) adapter \<Rightarrow> (unit \<Rightarrow> failure + 'a) \<Rightarrow> failure + 'a" where
  "guarded ident a k = andThen (checkForDeactivation a) (\<lambda>_. andThen (checkIdentity ident) k)"

definition createProxy :: "identity \<Rightarrow> ('o, 'l, 'e) adapter \<Rightarrow> failure + 'e proxy" where
  "createProxy ident a = guarded ident a (\<lambda>_. newProxy ident [] a)"

definition createDirectProxy :: "identity \<Rightarrow> ('o, 'l, 'e) adapter \<Rightarrow> failure + 'e proxy" where
  "createDirectProxy ident a = guarded ident a (\<lambda>_. newDirectProxy ident [] a)"

definition createIndirectProxy :: "identity \<Rightarrow> ('o, 'l, 'e) adapter \<Rightarrow> failure + 'e proxy" where
  "createIndirectProxy ident a = guarded ident a (\<lambda>_. newIndirectProxy ident [] (oa_id a) a)"

subsection \<open>Servants and locators\<close>

text \<open>A function of the servant manager that may change it, run on the adapter's manager.\<close>

definition onManager ::
  "(('o, 'l) servant_manager \<Rightarrow> failure + 'r \<times> ('o, 'l) servant_manager) \<Rightarrow> ('o, 'l, 'e) adapter
     \<Rightarrow> failure + 'r \<times> ('o, 'l, 'e) adapter" where
  "onManager f a = andThen (f (oa_servantManager a)) (\<lambda>(r, sm). Inr (r, a\<lparr>oa_servantManager := sm\<rparr>))"

definition addFacet ::
  "'o \<Rightarrow> identity \<Rightarrow> string \<Rightarrow> ('o, 'l, 'e) adapter \<Rightarrow> failure + 'e proxy \<times> ('o, 'l, 'e) adapter" where
  "addFacet obj ident facet a =
     guarded ident a (\<lambda>_.
       andThen (addServant obj ident facet (oa_servantManager a)) (\<lambda>sm.
         let a' = a\<lparr>oa_servantManager := sm\<rparr> in andThen (newProxy ident facet a') (\<lambda>p. Inr (p, a'))))"

definition adapter_add :: "'o \<Rightarrow> identity \<Rightarrow> ('o, 'l, 'e) adapter \<Rightarrow> failure + 'e proxy \<times> ('o, 'l, 'e) adapter" where
  "adapter_add obj ident = addFacet obj ident []"

text \<open>The UUID is what \<open>IceUtil::generateUUID\<close> returns.\<close>

definition addFacetWithUUID ::
  "string \<Rightarrow> 'o \<Rightarrow> string \<Rightarrow> ('o, 'l, 'e) adapter \<Rightarrow> failure + 'e proxy \<times> ('o, 'l, 'e) adapter" where
  "addFacetWithUUID uuid obj facet = addFacet obj \<lparr>name = uuid, category = []\<rparr> facet"

definition addWithUUID :: "string \<Rightarrow> 'o \<Rightarrow> ('o, 'l, 'e) adapter \<Rightarrow> failure + 'e proxy \<times> ('o, 'l, 'e) adapter" where
  "addWithUUID uuid obj = addFacetWithUUID uuid obj []"

definition removeFacet :: "identity \<Rightarrow> string \<Rightarrow> ('o, 'l, 'e) adapter \<Rightarrow> failure + 'o \<times> ('o, 'l, 'e) adapter" where
  "removeFacet ident facet a = guarded ident a (\<lambda>_. onManager (removeServant ident facet) a)"

definition adapter_remove :: "identity \<Rightarrow> ('o, 'l, 'e) adapter \<Rightarrow> failure + 'o \<times> ('o, 'l, 'e) adapter" where
  "adapter_remove ident = removeFacet ident []"

definition adapter_removeAllFacets ::
  "identity \<Rightarrow> ('o, 'l, 'e) adapter \<Rightarrow> failure + 'o facet_map \<times> ('o, 'l, 'e) adapter" where
  "adapter_removeAllFacets ident a = guarded ident a (\<lambda>_. onManager (removeAllFacets ident) a)"

definition findFacet ::
  "identity \<Rightarrow> string \<Rightarrow> ('o, 'l, 'e) adapter \<Rightarrow> failure + 'o option \<times> ('o, 'l, 'e) adapter" where
  "findFacet ident facet a = guarded ident a (\<lambda>_. onManager (findServant ident facet) a)"

definition adapter_find :: "identity \<Rightarrow> ('o, 'l, 'e) adapter \<Rightarrow> failure + 'o option \<times> ('o, 'l, 'e) adapter" where
  "adapter_find ident = findFacet ident []"

definition adapter_findAllFacets ::
  "identity \<Rightarrow> ('o, 'l, 'e) adapter \<Rightarrow> failure + 'o facet_map \<times> ('o, 'l, 'e) adapter" where
  "adapter_findAllFacets ident a = guarded ident a (\<lambda>_. onManager (findAllFacets ident) a)"

text \<open>The reference of a proxy is its identity and facet; the guard runs before and inside \<open>findFacet\<close>.\<close>

definition findByProxy ::
  "'e proxy \<Rightarrow> ('o, 'l, 'e) adapter \<Rightarrow> failure + 'o option \<times> ('o, 'l, 'e) adapter" where
  "findByProxy p a =
     andThen (checkForDeactivation a) (\<lambda>_.
       case p of DirectProxy ident facet _ \<Rightarrow> findFacet ident facet a | IndirectProxy ident facet _ \<Rightarrow> findFacet ident facet a)"

definition adapter_addServantLocator ::
  "'l \<Rightarrow> string \<Rightarrow> ('o, 'l, 'e) adapter \<Rightarrow> failure + unit \<times> ('o, 'l, 'e) adapter" where
  "adapter_addServantLocator locator prefix a =
     andThen (checkForDeactivation a) (\<lambda>_.
       onManager (\<lambda>sm. andThen (addServantLocator locator prefix sm) (\<lambda>sm'. Inr ((), sm'))) a)"

definition adapter_findServantLocator ::
  "string \<Rightarrow> ('o, 'l, 'e) adapter \<Rightarrow> failure + 'l option \<times> ('o, 'l, 'e) adapter" where
  "adapter_findServantLocator prefix a =
     andThen (checkForDeactivation a) (\<lambda>_. onManager (findServantLocator prefix) a)"

subsection \<open>Direct calls\<close>

definition incDirectCount :: "('o, 'l, 'e) adapter \<Rightarrow> failure + ('o, 'l, 'e) adapter" where
  "incDirectCount a =
     andThen (checkForDeactivation a) (\<lambda>_.
       if \<not> 0 \<le> sint (oa_directCount a) then Inl AssertionFailed
       else Inr (a\<lparr>oa_directCount := oa_directCount a + 1\<rparr>))"

definition decDirectCount :: "('o, 'l, 'e) adapter \<Rightarrow> failure + ('o, 'l, 'e) adapter" where
  "decDirectCount a =
     (if \<not> oa_instance a then Inl AssertionFailed
      else if \<not> 0 < sint (oa_directCount a) then Inl AssertionFailed
      else Inr (a\<lparr>oa_directCount := oa_directCount a - 1\<rparr>))"

text \<open>\<open>getThreadPool\<close>: whether it is the adapter's own or the server's.\<close>

definition getThreadPool :: "('o, 'l, 'e) adapter \<Rightarrow> failure + bool" where
  "getThreadPool a = (if \<not> oa_instance a then Inl AssertionFailed else Inr (oa_threadPool a))"

definition setLocator :: "bool \<Rightarrow> ('o, 'l, 'e) adapter \<Rightarrow> failure + ('o, 'l, 'e) adapter" where
  "setLocator locator a =
     andThen (checkForDeactivation a) (\<lambda>_.
       if \<not> oa_instance a then Inl NullHandleException else Inr (a\<lparr>oa_locatorInfo := locator\<rparr>))"

subsection \<open>Endpoints\<close>

text \<open>
  What the adapter asks the rest of the run time for: properties, the endpoint factories
  (\<open>create\<close> returns a null handle for an unknown protocol and may throw), what an endpoint expands to,
  whether it is published, the connection factory for it (the endpoint it really uses, or an
  exception), proxies of routers and locators from their stringified form, and the creation of a
  thread pool.
\<close>

record 'e router =
  router_adapter :: bool                        \<comment> \<open>\<open>_routerInfo->getAdapter()\<close> is not null\<close>
  router_name :: string
  router_endpoints :: "'e list"                 \<comment> \<open>of its server proxy\<close>

record 'e adapter_env =
  env_getProperty :: "string \<Rightarrow> string"
  env_getPropertyAsInt :: "string \<Rightarrow> int"
  env_create :: "string \<Rightarrow> failure + 'e option"
  env_expand :: "'e \<Rightarrow> 'e list"
  env_publish :: "'e \<Rightarrow> bool"
  env_factory :: "'e \<Rightarrow> failure + 'e"
  env_threadPerConnection :: bool
  env_defaultLocator :: bool
  env_stringToLocator :: "string \<Rightarrow> failure + bool"
  env_stringToRouter :: "string \<Rightarrow> failure + 'e router option"
  env_threadPool :: "failure + unit"

text \<open>\<open>::tolower\<close> in the C locale.\<close>

definition tolower :: "char \<Rightarrow> char" where
  "tolower c = (if 65 \<le> (of_char c :: nat) \<and> (of_char c :: nat) \<le> 90 then char_of ((of_char c :: nat) + 32) else c)"

definition is_delim :: "char \<Rightarrow> bool" where
  "is_delim c \<longleftrightarrow> c \<in> {CHR '' '', CHR 0x09, CHR 0x0A, CHR 0x0D}"

definition createEndpoint :: "'e adapter_env \<Rightarrow> string \<Rightarrow> failure + 'e list" where
  "createEndpoint env s =
     andThen (env_create env s) (\<lambda>r. case r of None \<Rightarrow> throw (EndpointParseException s) | Some e \<Rightarrow> Inr (env_expand env e))"

definition endpointEnd :: "string \<Rightarrow> nat \<Rightarrow> nat" where
  "endpointEnd endpts beg = (case str_find (\<lambda>c. c = CHR '':'') endpts beg of None \<Rightarrow> length endpts | Some p \<Rightarrow> p)"

lemma str_find_bounds: "str_find P s pos = Some k \<Longrightarrow> pos \<le> k \<and> k < length s"
  by (auto simp: str_find_def dest!: find_idx_SomeD)

lemma endpointEnd_bounds: "beg \<le> length s \<Longrightarrow> beg \<le> endpointEnd s beg \<and> endpointEnd s beg \<le> length s"
  by (auto simp: endpointEnd_def split: option.splits dest: str_find_bounds)

lemma endpointEnd_later: "fin \<le> beg \<Longrightarrow> beg < length s \<Longrightarrow> fin < Suc (endpointEnd s beg)"
  using endpointEnd_bounds [of beg s] by simp

function endpointLoop :: "(string \<Rightarrow> failure + 'e list) \<Rightarrow> string \<Rightarrow> nat \<Rightarrow> 'e list \<Rightarrow> failure + 'e list" where
  "endpointLoop mk endpts fin acc =
     (if fin < length endpts then
        case str_find (\<lambda>c. \<not> is_delim c) endpts fin of
             None \<Rightarrow> Inr acc
           | Some beg \<Rightarrow>
               if endpointEnd endpts beg = beg then endpointLoop mk endpts (beg + 1) acc
               else andThen (mk (take (endpointEnd endpts beg - beg) (drop beg endpts))) (\<lambda>es.
                      endpointLoop mk endpts (endpointEnd endpts beg + 1) (acc @ es))
      else Inr acc)"
  by pat_completeness auto
termination
  by (relation "measure (\<lambda>(mk, s, fin, acc). length s - fin)")
     (auto dest!: str_find_bounds intro!: diff_less_mono2 endpointEnd_later)

declare endpointLoop.simps [simp del]

definition parseEndpoints :: "'e adapter_env \<Rightarrow> string \<Rightarrow> failure + 'e list" where
  "parseEndpoints env str = endpointLoop (createEndpoint env) (map tolower str) 0 []"

text \<open>
  \<open>isLocal\<close>.  A proxy's reference is indirect, with an adapter id and the endpoints its locator knows (if
  it has a locator), or direct.  The searches of the factories and of the sorted router endpoints
  are over \<open>equivalent\<close> and equality of endpoints.
\<close>

datatype 'e reference = IndirectRef string "'e list option" | DirectRef "'e list"

definition isLocal ::
  "('e \<Rightarrow> 'e \<Rightarrow> bool) \<Rightarrow> bool \<Rightarrow> 'e reference \<Rightarrow> ('o, 'l, 'e) adapter \<Rightarrow> failure + bool" where
  "isLocal equivalent sameRouter r a =
     (let search = (\<lambda>endpoints. andThen (checkForDeactivation a) (\<lambda>_.
            Inr (list_ex (\<lambda>p. list_ex (\<lambda>q. equivalent q p) (oa_factories a)) endpoints \<or>
                 oa_routerInfo a \<and> sameRouter \<and> list_ex (\<lambda>p. List.member (oa_routerEndpoints a) p) endpoints)))
      in case r of
           IndirectRef adapterId info \<Rightarrow>
             if adapterId \<noteq> [] then Inr (adapterId = oa_id a)
             else (case info of None \<Rightarrow> Inr False | Some endpoints \<Rightarrow> search endpoints)
         | DirectRef endpoints \<Rightarrow> search endpoints)"

subsection \<open>Locator registry\<close>

text \<open>
  The answers of the registry.  A user exception of the call is named, every other outcome is a
  local exception.
\<close>

datatype adapter_answer =
    AdapterOk
  | AdapterNotFound
  | InvalidReplicaGroupId
  | AdapterAlreadyActive
  | AdapterThrows local_exception

datatype server_answer = ServerOk | ServerNotFound | ServerThrows local_exception

datatype 'e registry_call =
    SetAdapterDirectProxy string "'e proxy option"                      \<comment> \<open>adapter id, null on deactivation\<close>
  | SetReplicatedAdapterDirectProxy string string "'e proxy option"
  | SetServerProcessProxy string "'e proxy"

text \<open>\<open>locatorInfo->getLocatorRegistry()\<close> (it may throw, or be null) and its two calls.\<close>

record 'e registry =
  reg_get :: "local_exception + bool"
  reg_setAdapter :: "'e registry_call \<Rightarrow> adapter_answer"
  reg_setServer :: "'e registry_call \<Rightarrow> server_answer"

definition registerAdapter :: "'e registry \<Rightarrow> 'e proxy option \<Rightarrow> ('o, 'l, 'e) adapter \<Rightarrow> (failure + unit) \<times> 'e registry_call list" where
  "registerAdapter reg proxy a =
     (if oa_id a = [] then (Inr (), [])
      else let call = (if oa_replicaGroupId a = [] then SetAdapterDirectProxy (oa_id a) proxy
                       else SetReplicatedAdapterDirectProxy (oa_id a) (oa_replicaGroupId a) proxy)
           in (case reg_setAdapter reg call of
                 AdapterOk \<Rightarrow> Inr ()
               | AdapterNotFound \<Rightarrow> throw (NotRegisteredException ''object adapter'' (oa_id a))
               | InvalidReplicaGroupId \<Rightarrow> throw (NotRegisteredException ''replica group'' (oa_replicaGroupId a))
               | AdapterAlreadyActive \<Rightarrow> throw (ObjectAdapterIdInUseException (oa_id a))
               | AdapterThrows e \<Rightarrow> throw e, [call]))"

definition identityOf :: "'e proxy \<Rightarrow> identity" where
  "identityOf p = (case p of DirectProxy ident _ _ \<Rightarrow> ident | IndirectProxy ident _ _ \<Rightarrow> ident)"

definition registerProcess_call ::
  "'e registry \<Rightarrow> string \<Rightarrow> string \<times> 'o \<Rightarrow> ('o, 'l, 'e) adapter \<Rightarrow> (failure + unit) \<times> 'e registry_call list \<times> ('o, 'l, 'e) adapter" where
  "registerProcess_call reg serverId fresh a =
     (case addWithUUID (fst fresh) (snd fresh) a of
        Inl f \<Rightarrow> (Inl f, [], a)
      | Inr (p, a') \<Rightarrow>
          (case createDirectProxy (identityOf p) a' of
             Inl f \<Rightarrow> (Inl f, [], a')
           | Inr q \<Rightarrow>
               let call = SetServerProcessProxy serverId q
               in (case reg_setServer reg call of
                     ServerOk \<Rightarrow> Inr ()
                   | ServerNotFound \<Rightarrow> throw (NotRegisteredException ''server'' serverId)
                   | ServerThrows e \<Rightarrow> throw e, [call], a')))"
text \<open>
  \<open>updateLocatorRegistry\<close>; \<open>locatorInfo\<close> says whether the handle it is given is not null, and \<open>fresh\<close> is what
  \<open>generateUUID\<close> and \<open>new ProcessI\<close> return.  The warnings it logs are not part of the model.
\<close>

definition updateLocatorRegistry ::
  "'e adapter_env \<Rightarrow> 'e registry \<Rightarrow> string \<times> 'o \<Rightarrow> bool \<Rightarrow> 'e proxy option \<Rightarrow> bool \<Rightarrow> ('o, 'l, 'e) adapter
     \<Rightarrow> (failure + unit) \<times> 'e registry_call list \<times> ('o, 'l, 'e) adapter" where
  "updateLocatorRegistry env reg fresh locatorInfo proxy registerProcess a =
     (if \<not> registerProcess \<and> oa_id a = [] then (Inr (), [], a)
      else case (if locatorInfo then reg_get reg else Inr False) of
             Inl e \<Rightarrow> (throw e, [], a)
           | Inr locatorRegistry \<Rightarrow>
               if registerProcess \<and> \<not> oa_instance a then (Inl AssertionFailed, [], a)
               else let serverId = (if registerProcess then env_getProperty env ''Ice.ServerId'' else [])
                    in if \<not> locatorRegistry then (Inr (), [], a)
                       else case registerAdapter reg proxy a of
                              (Inl f, calls) \<Rightarrow> (Inl f, calls, a)
                            | (Inr _, calls) \<Rightarrow>
                                if registerProcess \<and> serverId \<noteq> [] then
                                  (case registerProcess_call reg serverId fresh a of
                                     (r, calls', a') \<Rightarrow> (r, calls @ calls', a'))
                                else (Inr (), calls, a))"

subsection \<open>Activation and deactivation\<close>

text \<open>
  The first section of \<open>activate\<close>: \<open>None\<close> when the call is done, otherwise the flags \<open>registerProcess\<close> and
  \<open>printAdapterReady\<close> of the one off initialization it starts.
\<close>

definition activateBegin ::
  "'e adapter_env \<Rightarrow> ('o, 'l, 'e) adapter
     \<Rightarrow> failure + (bool \<times> bool) option \<times> ('o, 'l, 'e) adapter \<times> ('l, 'e) adapter_event list" where
  "activateBegin env a =
     andThen (checkForDeactivation a) (\<lambda>_.
       if oa_activateOneOffDone a then Inr (None, a, map FactoryActivate (oa_factories a))
       else if \<not> oa_instance a then Inl NullHandleException
       else Inr (Some (env_getPropertyAsInt env (oa_name a @ ''.RegisterProcess'') > 0,
                       env_getPropertyAsInt env ''Ice.PrintAdapterReady'' > 0),
                 a\<lparr>oa_waitForActivate := True\<rparr>, []))"

text \<open>The update of the registry, outside the monitor.\<close>

definition dummy_identity :: identity where
  "dummy_identity = \<lparr>name = ''dummy'', category = []\<rparr>"

definition activateUpdate ::
  "'e adapter_env \<Rightarrow> 'e registry \<Rightarrow> string \<times> 'o \<Rightarrow> bool \<Rightarrow> bool \<Rightarrow> ('o, 'l, 'e) adapter
     \<Rightarrow> (failure + unit) \<times> 'e registry_call list \<times> ('o, 'l, 'e) adapter" where
  "activateUpdate env reg fresh locatorInfo registerProcess a =
     (case createDirectProxy dummy_identity a of
        Inl f \<Rightarrow> (Inl f, [], a)
      | Inr p \<Rightarrow> updateLocatorRegistry env reg fresh locatorInfo (Some p) registerProcess a)"

definition activateFailed :: "('o, 'l, 'e) adapter \<Rightarrow> ('o, 'l, 'e) adapter" where
  "activateFailed a = a\<lparr>oa_waitForActivate := False\<rparr>"

definition activateEnd ::
  "('o, 'l, 'e) adapter \<Rightarrow> failure + ('o, 'l, 'e) adapter \<times> ('l, 'e) adapter_event list" where
  "activateEnd a =
     (if oa_deactivated a then Inl AssertionFailed
      else Inr (a\<lparr>oa_waitForActivate := False, oa_activateOneOffDone := True\<rparr>, map FactoryActivate (oa_factories a)))"

text \<open>The whole of \<open>activate\<close> when no other thread interferes.\<close>

definition adapter_activate ::
  "'e adapter_env \<Rightarrow> 'e registry \<Rightarrow> string \<times> 'o \<Rightarrow> ('o, 'l, 'e) adapter
     \<Rightarrow> (failure + ('l, 'e) adapter_event list) \<times> 'e registry_call list \<times> ('o, 'l, 'e) adapter" where
  "adapter_activate env reg fresh a =
     (case activateBegin env a of
        Inl f \<Rightarrow> (Inl f, [], a)
      | Inr (None, a1, evs) \<Rightarrow> (Inr evs, [], a1)
      | Inr (Some (registerProcess, printAdapterReady), a1, _) \<Rightarrow>
          (case activateUpdate env reg fresh (oa_locatorInfo a1) registerProcess a1 of
             (Inl (Thrown e), calls, a2) \<Rightarrow> (throw e, calls, activateFailed a2)
           | (Inl f, calls, a2) \<Rightarrow> (Inl f, calls, a2)
           | (Inr _, calls, a2) \<Rightarrow>
               (case activateEnd a2 of
                  Inl f \<Rightarrow> (Inl f, calls, a2)
                | Inr (a3, evs) \<Rightarrow>
                    (Inr ((if printAdapterReady then [PrintReady (oa_name a)] else []) @ evs), calls, a3))))"

definition adapter_hold :: "('o, 'l, 'e) adapter \<Rightarrow> failure + ('l, 'e) adapter_event list" where
  "adapter_hold a = andThen (checkForDeactivation a) (\<lambda>_. Inr (map FactoryHold (oa_factories a)))"

definition waitForHold :: "('o, 'l, 'e) adapter \<Rightarrow> failure + ('l, 'e) adapter_event list" where
  "waitForHold a = andThen (checkForDeactivation a) (\<lambda>_. Inr (map FactoryWaitUntilHolding (oa_factories a)))"

definition adapter_flushBatchRequests :: "('o, 'l, 'e) adapter \<Rightarrow> ('l, 'e) adapter_event list" where
  "adapter_flushBatchRequests a = map FactoryFlush (oa_factories a)"

text \<open>
  \<open>deactivate\<close>: the part of the first section behind the wait for an activation, and the part
  outside the monitor, on the copy of the factories that the section took.
\<close>

definition deactivateProceed ::
  "('o, 'l, 'e) adapter \<Rightarrow> failure + ('o, 'l, 'e) adapter \<times> ('l, 'e) adapter_event list" where
  "deactivateProceed a =
     (if \<not> oa_instance a then Inl NullHandleException
      else Inr (a\<lparr>oa_deactivated := True\<rparr>, if oa_routerInfo a then [RouterErased] else []))"

definition deactivateFinish ::
  "'e adapter_env \<Rightarrow> 'e registry \<Rightarrow> string \<times> 'o \<Rightarrow> bool \<Rightarrow> 'e list \<Rightarrow> ('o, 'l, 'e) adapter
     \<Rightarrow> failure + ('l, 'e) adapter_event list \<times> 'e registry_call list" where
  "deactivateFinish env reg fresh locatorInfo factories a =
     (case updateLocatorRegistry env reg fresh locatorInfo None False a of
        (Inl (Thrown _), calls, _) \<Rightarrow> Inr (map FactoryDestroy factories @ [RemoveAdapter], calls)
      | (Inl f, calls, _) \<Rightarrow> Inl f
      | (Inr _, calls, _) \<Rightarrow> Inr (map FactoryDestroy factories @ [RemoveAdapter], calls))"

text \<open>
  \<open>waitForDeactivate\<close>: the condition the first section waits for, what it does then, the work outside
  the monitor and the last section.
\<close>

definition waitEnabled :: "('o, 'l, 'e) adapter \<Rightarrow> bool" where
  "waitEnabled a \<longleftrightarrow> oa_deactivated a \<and> \<not> 0 < sint (oa_directCount a) \<and> \<not> oa_waitForDeactivate a"

definition waitBegin :: "('o, 'l, 'e) adapter \<Rightarrow> ('o, 'l, 'e) adapter" where
  "waitBegin a = a\<lparr>oa_waitForDeactivate := True\<rparr>"

definition waitMiddle ::
  "('o, 'l, 'e) adapter \<Rightarrow> failure + ('o, 'l, 'e) adapter \<times> ('l, 'e) adapter_event list" where
  "waitMiddle a =
     (let waits = map FactoryWaitUntilFinished (oa_factories a);
          pool = (if oa_threadPool a then [ThreadPoolJoined] else [])
      in if oa_instance a then
           andThen (servantManager_destroy (oa_servantManager a)) (\<lambda>(ls, sm).
             Inr (a\<lparr>oa_servantManager := sm\<rparr>, waits @ map (\<lambda>(c, l). LocatorDeactivate c l) ls @ pool))
         else Inr (a, waits @ pool))"

definition waitEnd :: "('o, 'l, 'e) adapter \<Rightarrow> ('o, 'l, 'e) adapter \<times> ('l, 'e) adapter_event list" where
  "waitEnd a =
     (a\<lparr>oa_waitForDeactivate := False, oa_factories := [], oa_instance := False, oa_threadPool := False,
        oa_communicator := False, oa_objectAdapterFactory := False, oa_routerEndpoints := [], oa_routerInfo := False,
        oa_publishedEndpoints := [], oa_locatorInfo := False\<rparr>,
      if oa_objectAdapterFactory a then [RemoveObjectAdapter (oa_name a)] else [])"

subsection \<open>Construction\<close>

definition adapter_init :: "'e adapter_env \<Rightarrow> string \<Rightarrow> ('o, 'l, 'e) adapter" where
  "adapter_init env nm =
     \<lparr>oa_deactivated = False, oa_instance = True, oa_communicator = True, oa_objectAdapterFactory = True,
      oa_threadPool = False, oa_servantManager = servant_manager_new, oa_activateOneOffDone = False, oa_name = nm,
      oa_id = env_getProperty env (nm @ ''.AdapterId''),
      oa_replicaGroupId = env_getProperty env (nm @ ''.ReplicaGroupId''),
      oa_factories = [], oa_routerEndpoints = [], oa_routerInfo = False, oa_publishedEndpoints = [],
      oa_locatorInfo = False, oa_directCount = 0, oa_waitForActivate = False, oa_waitForDeactivate = False\<rparr>"

fun makeFactories :: "'e adapter_env \<Rightarrow> 'e list \<Rightarrow> ('o, 'l, 'e) adapter \<Rightarrow> (failure + unit) \<times> ('o, 'l, 'e) adapter" where
  "makeFactories env [] a = (Inr (), a)"
| "makeFactories env (e # es) a =
     (case env_factory env e of
        Inl f \<Rightarrow> (Inl f, a)
      | Inr f \<Rightarrow> makeFactories env es (a\<lparr>oa_factories := oa_factories a @ [f]\<rparr>))"

definition useEndpoints ::
  "'e adapter_env \<Rightarrow> string \<Rightarrow> ('o, 'l, 'e) adapter \<Rightarrow> (failure + unit) \<times> ('o, 'l, 'e) adapter" where
  "useEndpoints env endpointInfo a =
     (case parseEndpoints env endpointInfo of
        Inl f \<Rightarrow> (Inl f, a)
      | Inr endpoints \<Rightarrow>
          (case makeFactories env endpoints a of
             (Inl f, a1) \<Rightarrow> (Inl f, a1)
           | (Inr _, a1) \<Rightarrow>
               (case parseEndpoints env (env_getProperty env (oa_name a @ ''.PublishedEndpoints'')) of
                  Inl f \<Rightarrow> (Inl f, a1)
                | Inr pub \<Rightarrow>
                    (Inr (), a1\<lparr>oa_publishedEndpoints :=
                       filter (env_publish env) (if pub = [] then oa_factories a1 else pub)\<rparr>))))"

definition useRouter ::
  "('e::linorder) router \<Rightarrow> ('o, 'l, 'e) adapter \<Rightarrow> (failure + unit) \<times> ('o, 'l, 'e) adapter" where
  "useRouter r a =
     (let a1 = a\<lparr>oa_routerInfo := True\<rparr>
      in if router_adapter r then (throw (AlreadyRegisteredException ''object adapter with router'' (router_name r)), a1)
         else (Inr (), a1\<lparr>oa_routerEndpoints := remdups_adj (sort (router_endpoints r))\<rparr>))"

definition pickRouter :: "'e adapter_env \<Rightarrow> string \<Rightarrow> 'e router option \<Rightarrow> failure + 'e router option" where
  "pickRouter env nm router =
     (if router = None \<and> env_getProperty env (nm @ ''.Router'') \<noteq> []
      then env_stringToRouter env (env_getProperty env (nm @ ''.Router''))
      else Inr router)"

definition useLocator ::
  "'e adapter_env \<Rightarrow> ('o, 'l, 'e) adapter \<Rightarrow> (failure + unit) \<times> ('o, 'l, 'e) adapter" where
  "useLocator env a =
     (let locator = env_getProperty env (oa_name a @ ''.Locator'')
      in case andThen (if locator \<noteq> [] then env_stringToLocator env locator else Inr (env_defaultLocator env))
                (\<lambda>l. setLocator l a) of
           Inl f \<Rightarrow> (Inl f, a)
         | Inr a1 \<Rightarrow> (Inr (), a1))"

definition useThreadPool ::
  "'e adapter_env \<Rightarrow> ('o, 'l, 'e) adapter \<Rightarrow> (failure + unit) \<times> ('o, 'l, 'e) adapter" where
  "useThreadPool env a =
     (if \<not> env_threadPerConnection env \<and>
         (env_getPropertyAsInt env (oa_name a @ ''.ThreadPool.Size'') > 0 \<or>
          env_getPropertyAsInt env (oa_name a @ ''.ThreadPool.SizeMax'') > 0)
      then case env_threadPool env of Inl f \<Rightarrow> (Inl f, a) | Inr _ \<Rightarrow> (Inr (), a\<lparr>oa_threadPool := True\<rparr>)
      else (Inr (), a))"

definition oa_then ::
  "(failure + unit) \<times> ('o, 'l, 'e) adapter \<Rightarrow> (('o, 'l, 'e) adapter \<Rightarrow> (failure + unit) \<times> ('o, 'l, 'e) adapter)
     \<Rightarrow> (failure + unit) \<times> ('o, 'l, 'e) adapter" where
  "oa_then r f = (case r of (Inl e, a) \<Rightarrow> (Inl e, a) | (Inr _, a) \<Rightarrow> f a)"

text \<open>\<open>deactivate\<close> and \<open>waitForDeactivate\<close> of one thread when no other thread uses the adapter.\<close>

definition adapter_deactivate ::
  "'e adapter_env \<Rightarrow> 'e registry \<Rightarrow> string \<times> 'o \<Rightarrow> ('o, 'l, 'e) adapter
     \<Rightarrow> failure + ('o, 'l, 'e) adapter \<times> ('l, 'e) adapter_event list" where
  "adapter_deactivate env reg fresh a =
     (if oa_deactivated a then Inr (a, [])
      else andThen (deactivateProceed a) (\<lambda>(a1, evs1).
             andThen (deactivateFinish env reg fresh (oa_locatorInfo a) (oa_factories a) a1) (\<lambda>(evs2, _).
               Inr (a1, evs1 @ evs2))))"

definition adapter_waitForDeactivate ::
  "('o, 'l, 'e) adapter \<Rightarrow> failure + ('o, 'l, 'e) adapter \<times> ('l, 'e) adapter_event list" where
  "adapter_waitForDeactivate a =
     andThen (waitMiddle (waitBegin a)) (\<lambda>(a1, evs1). let (a2, evs2) = waitEnd a1 in Inr (a2, evs1 @ evs2))"

definition teardown ::
  "'e adapter_env \<Rightarrow> 'e registry \<Rightarrow> string \<times> 'o \<Rightarrow> ('o, 'l, 'e) adapter
     \<Rightarrow> failure + ('o, 'l, 'e) adapter \<times> ('l, 'e) adapter_event list" where
  "teardown env reg fresh a =
     andThen (adapter_deactivate env reg fresh a) (\<lambda>(a1, evs1).
       andThen (adapter_waitForDeactivate a1) (\<lambda>(a2, evs2). Inr (a2, evs1 @ evs2)))"

definition adapter_setup ::
  "('e::linorder) adapter_env \<Rightarrow> string \<Rightarrow> string \<Rightarrow> 'e router option \<Rightarrow> (failure + unit) \<times> ('o, 'l, 'e) adapter" where
  "adapter_setup env nm endpointInfo router =
     (let a = adapter_init env nm
      in oa_then
           (case pickRouter env nm router of
              Inl f \<Rightarrow> (Inl f, a)
            | Inr (Some r) \<Rightarrow> useRouter r a
            | Inr None \<Rightarrow> useEndpoints env endpointInfo a) (\<lambda>a1.
         oa_then (useLocator env a1) (useThreadPool env)))"

text \<open>The constructor: on an exception the half built adapter is taken down again and the exception goes on.\<close>

definition adapter_new ::
  "('e::linorder) adapter_env \<Rightarrow> 'e registry \<Rightarrow> string \<times> 'o \<Rightarrow> string \<Rightarrow> string \<Rightarrow> 'e router option
     \<Rightarrow> (failure + ('o, 'l, 'e) adapter) \<times> ('l, 'e) adapter_event list" where
  "adapter_new env reg fresh nm endpointInfo router =
     (case adapter_setup env nm endpointInfo router of
        (Inr _, a) \<Rightarrow> (Inr a, [])
      | (Inl f, a) \<Rightarrow>
          (case teardown env reg fresh a of
             Inl f' \<Rightarrow> (Inl f', [])
           | Inr (_, evs) \<Rightarrow> (Inl f, evs)))"

text \<open>The destructor: the warning it logs, if any, or the assertions.\<close>

datatype oa_warning = NotDeactivated | NotWaitedFor | NoWarning

definition adapter_dtor :: "('o, 'l, 'e) adapter \<Rightarrow> failure + oa_warning" where
  "adapter_dtor a =
     (if \<not> oa_deactivated a then (if oa_instance a then Inr NotDeactivated else Inl NullHandleException)
      else if oa_instance a then Inr NotWaitedFor
      else if oa_threadPool a \<or> oa_communicator a \<or> oa_factories a \<noteq> [] \<or> oa_directCount a \<noteq> 0 \<or>
              oa_waitForActivate a \<or> oa_waitForDeactivate a
           then Inl AssertionFailed else Inr NoWarning)"

end
