(* ===== verification/AdapterEndpoints.thy ===== *)
theory AdapterEndpoints imports ObjectAdapter begin

text \<open>
  The endpoint string of an object adapter: \<open>parseEndpoints\<close> of \<^verbatim>\<open>src/Ice-3.1.1/src/Ice/ObjectAdapterI.cpp\<close>
  against splitting at colons.
\<close>

section \<open>Endpoint lists\<close>

text \<open>The reference: split at the colons, drop leading white space, ignore what is empty then.\<close>

fun split_colon :: "string \<Rightarrow> string list" where
  "split_colon [] = [[]]"
| "split_colon (c # cs) =
     (if c = CHR '':'' then [] # split_colon cs
      else case split_colon cs of [] \<Rightarrow> [[c]] | p # ps \<Rightarrow> (c # p) # ps)"

definition endpoint_strings :: "string \<Rightarrow> string list" where
  "endpoint_strings s = filter (\<lambda>t. t \<noteq> []) (map (dropWhile is_delim) (split_colon s))"

fun createAll :: "(string \<Rightarrow> failure + 'e list) \<Rightarrow> string list \<Rightarrow> failure + 'e list" where
  "createAll mk [] = Inr []"
| "createAll mk (t # ts) = andThen (mk t) (\<lambda>es. andThen (createAll mk ts) (\<lambda>r. Inr (es @ r)))"

lemma split_colon_unfold:
  "split_colon s = takeWhile (\<lambda>c. c \<noteq> CHR '':'') s #
     (case dropWhile (\<lambda>c. c \<noteq> CHR '':'') s of [] \<Rightarrow> [] | _ # r \<Rightarrow> split_colon r)"
  by (induction s) (auto split: list.splits)

lemma dropWhile_takeWhile_delim:
  "dropWhile is_delim (takeWhile (\<lambda>c. c \<noteq> CHR '':'') s) = takeWhile (\<lambda>c. c \<noteq> CHR '':'') (dropWhile is_delim s)"
  by (induction s) (auto simp: is_delim_def)

lemma dropWhile_colon_delim:
  "dropWhile (\<lambda>c. c \<noteq> CHR '':'') (dropWhile is_delim s) = dropWhile (\<lambda>c. c \<noteq> CHR '':'') s"
  by (induction s) (auto simp: is_delim_def)

lemma endpoint_strings_unfold:
  "endpoint_strings s =
     (let d = dropWhile is_delim s; t = takeWhile (\<lambda>c. c \<noteq> CHR '':'') d
      in (if t = [] then [] else [t]) @ endpoint_strings (drop (Suc (length t)) d))"
proof -
  let ?d = "dropWhile is_delim s"
  let ?t = "takeWhile (\<lambda>c. c \<noteq> CHR '':'') ?d"
  have nil: "endpoint_strings [] = []" by (simp add: endpoint_strings_def)
  have "drop (Suc (length ?t)) ?d = tl (dropWhile (\<lambda>c. c \<noteq> CHR '':'') ?d)"
    by (metis drop_Suc dropWhile_eq_drop tl_drop)
  then show ?thesis
    using split_colon_unfold [of s] dropWhile_takeWhile_delim [of s] dropWhile_colon_delim [of s] nil
    by (cases "dropWhile (\<lambda>c. c \<noteq> CHR '':'') s") (simp_all add: Let_def endpoint_strings_def)
qed

lemma find_idx_takeWhile:
  "find_idx P s = (let n = length (takeWhile (\<lambda>c. \<not> P c) s) in if n < length s then Some n else None)"
  by (induction s) (auto simp: Let_def)

lemma drop_dropWhile: "drop (length (takeWhile P s)) s = dropWhile P s"
  by (simp add: dropWhile_eq_drop)

lemma str_find_nondelim:
  assumes "str_find (\<lambda>c. \<not> is_delim c) s fin = Some beg"
  shows "drop beg s = dropWhile is_delim (drop fin s) \<and> beg < length s"
proof -
  have "beg = length (takeWhile is_delim (drop fin s)) + fin" "beg < length s"
    using assms by (auto simp: str_find_def find_idx_takeWhile Let_def split: if_splits)
  then show ?thesis by (simp add: drop_dropWhile flip: drop_drop)
qed

lemma str_find_only_delims:
  "str_find (\<lambda>c. \<not> is_delim c) s fin = None \<Longrightarrow> dropWhile is_delim (drop fin s) = []"
  by (auto simp: str_find_def find_idx_None_iff)

lemma endpointEnd_takeWhile:
  "beg \<le> length s \<Longrightarrow> endpointEnd s beg = beg + length (takeWhile (\<lambda>c. c \<noteq> CHR '':'') (drop beg s))"
  using length_takeWhile_le [of "\<lambda>c. c \<noteq> CHR '':''" "drop beg s"]
  by (auto simp: endpointEnd_def str_find_def find_idx_takeWhile Let_def split: if_splits)


lemma endpointLoop_split:
  "endpointLoop mk s fin acc = andThen (createAll mk (endpoint_strings (drop fin s))) (\<lambda>r. Inr (acc @ r))"
proof (induction mk s fin acc rule: endpointLoop.induct)
  case (1 mk s fin acc)
  have nil: "endpoint_strings [] = []" by (simp add: endpoint_strings_def)
  show ?case
  proof (cases "str_find (\<lambda>c. \<not> is_delim c) s fin")
    case None
    then have "endpoint_strings (drop fin s) = []"
      unfolding endpoint_strings_unfold [of "drop fin s"] Let_def str_find_only_delims [OF None] using nil by simp
    then show ?thesis using None by (simp add: endpointLoop.simps [of mk s fin])
  next
    case (Some beg)
    let ?t = "takeWhile (\<lambda>c. c \<noteq> CHR '':'') (drop beg s)"
    have beg: "drop beg s = dropWhile is_delim (drop fin s)" "beg < length s" "fin < length s"
      using str_find_nondelim [OF Some] str_find_bounds [OF Some] by auto
    have e: "endpointEnd s beg = beg + length ?t" using beg by (simp add: endpointEnd_takeWhile)
    have t: "take (length ?t) (drop beg s) = ?t" by (metis append_eq_conv_conj takeWhile_dropWhile_id)
    have rest: "drop (Suc (length ?t)) (drop beg s) = drop (beg + length ?t + 1) s" by (simp add: add.commute)
    have split: "endpoint_strings (drop fin s) = (if ?t = [] then [] else [?t]) @ endpoint_strings (drop (beg + length ?t + 1) s)"
      using endpoint_strings_unfold [of "drop fin s"] unfolding Let_def beg(1) [symmetric] rest .
    show ?thesis
    proof (cases "?t = []")
      case True
      then show ?thesis using "1.IH"(1) [OF beg(3) Some] Some beg e split by (simp add: endpointLoop.simps [of mk s fin])
    next
      case False
      then have "endpointEnd s beg \<noteq> beg" using e by simp
      then show ?thesis
        using "1.IH"(2) [OF beg(3) Some] Some beg(3) split e t False
        by (cases "mk ?t") (auto simp: endpointLoop.simps [of mk s fin] andThen_assoc intro: andThen_cong)
    qed
  qed
qed

text \<open>
  The endpoints of an adapter.  Whatever the string, parsing it creates exactly the endpoints of
  its non-empty parts between colons, in order and in lower case, leading white space ignored; the
  first part no endpoint factory knows, or refuses, ends it with that exception.
\<close>

lemma parseEndpoints_split:
  "parseEndpoints env str = createAll (createEndpoint env) (endpoint_strings (map tolower str))"
  by (simp add: parseEndpoints_def endpointLoop_split) (cases "createAll (createEndpoint env) (endpoint_strings (map tolower str))"; simp)

end
