(* ===== verification/AdapterSteps.thy ===== *)
theory AdapterSteps imports ObjectAdapter begin

text \<open>
  The life of an object adapter, \<^verbatim>\<open>src/Ice-3.1.1/src/Ice/ObjectAdapterI.cpp\<close>, shared by any number of threads.
  A world is the adapter together with the threads that are between two critical sections of
  \<open>activate\<close>, \<open>deactivate\<close> and \<open>waitForDeactivate\<close>, and the number of direct calls that have not returned.
\<close>

section \<open>Threads and steps\<close>

datatype ('o, 'l) servant_call =
    AddFacet 'o identity string
  | RemoveFacet identity string
  | RemoveAllFacets identity
  | FindFacet identity string
  | FindAllFacets identity
  | AddServantLocator 'l string
  | FindServantLocator string

fun servantCall :: "('o, 'l) servant_call \<Rightarrow> ('o, 'l, 'e) adapter \<Rightarrow> failure + ('o, 'l, 'e) adapter" where
  "servantCall (AddFacet obj ident facet) a = andThen (addFacet obj ident facet a) (\<lambda>(_, a'). Inr a')"
| "servantCall (RemoveFacet ident facet) a = andThen (removeFacet ident facet a) (\<lambda>(_, a'). Inr a')"
| "servantCall (RemoveAllFacets ident) a = andThen (adapter_removeAllFacets ident a) (\<lambda>(_, a'). Inr a')"
| "servantCall (FindFacet ident facet) a = andThen (findFacet ident facet a) (\<lambda>(_, a'). Inr a')"
| "servantCall (FindAllFacets ident) a = andThen (adapter_findAllFacets ident a) (\<lambda>(_, a'). Inr a')"
| "servantCall (AddServantLocator l prefix) a = andThen (adapter_addServantLocator l prefix a) (\<lambda>(_, a'). Inr a')"
| "servantCall (FindServantLocator prefix) a = andThen (adapter_findServantLocator prefix a) (\<lambda>(_, a'). Inr a')"

text \<open>
  A thread in \<open>activate\<close> behind its first section: about to create the proxy, about to update the
  registry, about to finish, or about to take the flag back after an exception.
\<close>

datatype 'e activation = Proxying bool bool | Updating bool bool "'e proxy" | Ready | Failing

record ('o, 'l, 'e) oa_world =
  w_adapter :: "('o, 'l, 'e) adapter"
  w_activating :: "'e activation list"
  w_waiting :: nat                  \<comment> \<open>calls of \<open>deactivate\<close> that wait for an activation\<close>
  w_mid :: nat                      \<comment> \<open>calls of \<open>waitForDeactivate\<close> before their work outside the monitor\<close>
  w_end :: nat                      \<comment> \<open>and behind it\<close>
  w_direct :: nat                   \<comment> \<open>direct calls that have not returned\<close>

text \<open>An exception is an answer; everything else that is no result is a crash.\<close>

fun crash :: "failure + 'a \<Rightarrow> failure option" where
  "crash (Inl (Thrown _)) = None"
| "crash (Inl f) = Some f"
| "crash (Inr _) = None"

lemma crash_None [simp]: "crash (Inl f) = None \<longleftrightarrow> (\<exists>e. f = Thrown e)"
  by (cases f) auto

fun continue :: "failure + unit \<Rightarrow> 'e activation list" where
  "continue (Inr _) = [Ready]"
| "continue (Inl (Thrown _)) = [Failing]"
| "continue (Inl _) = []"

text \<open>
  The steps.  With \<open>single\<close>, \<open>activate\<close> is not called while another thread is in its one off
  initialization, and \<open>deactivate\<close> is not called while another call of it waits for one.
\<close>

inductive oa_step ::
  "bool \<Rightarrow> 'e adapter_env \<Rightarrow> ('o, 'l, 'e) oa_world \<Rightarrow> failure option \<Rightarrow> ('o, 'l, 'e) oa_world \<Rightarrow> bool"
  for single env where
  servant_call: "r = servantCall call (w_adapter w) \<Longrightarrow>
    oa_step single env w (crash r) (case r of Inr a \<Rightarrow> w\<lparr>w_adapter := a\<rparr> | Inl _ \<Rightarrow> w)"
| set_locator: "r = setLocator l (w_adapter w) \<Longrightarrow>
    oa_step single env w (crash r) (case r of Inr a \<Rightarrow> w\<lparr>w_adapter := a\<rparr> | Inl _ \<Rightarrow> w)"
| direct_begin: "r = incDirectCount (w_adapter w) \<Longrightarrow> w_direct w < 2147483647 \<Longrightarrow>
    oa_step single env w (crash r) (case r of Inr a \<Rightarrow> w\<lparr>w_adapter := a, w_direct := w_direct w + 1\<rparr> | Inl _ \<Rightarrow> w)"
| direct_end: "r = decDirectCount (w_adapter w) \<Longrightarrow> 0 < w_direct w \<Longrightarrow>
    oa_step single env w (crash r) (case r of Inr a \<Rightarrow> w\<lparr>w_adapter := a, w_direct := w_direct w - 1\<rparr> | Inl _ \<Rightarrow> w)"
| activate_begin: "r = activateBegin env (w_adapter w) \<Longrightarrow> single \<longrightarrow> w_activating w = [] \<Longrightarrow>
    oa_step single env w (crash r)
      (case r of
         Inr (Some (rp, _), a, _) \<Rightarrow> w\<lparr>w_adapter := a, w_activating := w_activating w @ [Proxying rp (oa_locatorInfo (w_adapter w))]\<rparr>
       | _ \<Rightarrow> w)"
| activate_proxy: "w_activating w = xs @ Proxying rp li # ys \<Longrightarrow> r = createDirectProxy dummy_identity (w_adapter w) \<Longrightarrow>
    oa_step single env w (crash r)
      (w\<lparr>w_activating := xs @ (case r of Inr p \<Rightarrow> [Updating rp li p] | Inl f \<Rightarrow> continue (Inl f)) @ ys\<rparr>)"
| activate_update: "w_activating w = xs @ Updating rp li p # ys \<Longrightarrow>
    updateLocatorRegistry env reg fresh li (Some p) rp (w_adapter w) = (r, calls, a) \<Longrightarrow>
    oa_step single env w (crash r) (w\<lparr>w_adapter := a, w_activating := xs @ continue r @ ys\<rparr>)"
| activate_failed: "w_activating w = xs @ Failing # ys \<Longrightarrow>
    oa_step single env w None (w\<lparr>w_adapter := activateFailed (w_adapter w), w_activating := xs @ ys\<rparr>)"
| activate_end: "w_activating w = xs @ Ready # ys \<Longrightarrow> r = activateEnd (w_adapter w) \<Longrightarrow>
    oa_step single env w (crash r)
      (case r of Inr (a, _) \<Rightarrow> w\<lparr>w_adapter := a, w_activating := xs @ ys\<rparr> | Inl _ \<Rightarrow> w\<lparr>w_activating := xs @ ys\<rparr>)"
| deactivate_now: "\<not> oa_deactivated (w_adapter w) \<Longrightarrow> \<not> oa_waitForActivate (w_adapter w) \<Longrightarrow> single \<longrightarrow> w_waiting w = 0 \<Longrightarrow>
    r = deactivateProceed (w_adapter w) \<Longrightarrow>
    oa_step single env w (crash r) (case r of Inr (a, _) \<Rightarrow> w\<lparr>w_adapter := a\<rparr> | Inl _ \<Rightarrow> w)"
| deactivate_wait: "\<not> oa_deactivated (w_adapter w) \<Longrightarrow> oa_waitForActivate (w_adapter w) \<Longrightarrow> single \<longrightarrow> w_waiting w = 0 \<Longrightarrow>
    oa_step single env w None (w\<lparr>w_waiting := w_waiting w + 1\<rparr>)"
| deactivate_wake: "0 < w_waiting w \<Longrightarrow> \<not> oa_waitForActivate (w_adapter w) \<Longrightarrow> r = deactivateProceed (w_adapter w) \<Longrightarrow>
    oa_step single env w (crash r)
      (case r of Inr (a, _) \<Rightarrow> w\<lparr>w_adapter := a, w_waiting := w_waiting w - 1\<rparr> | Inl _ \<Rightarrow> w\<lparr>w_waiting := w_waiting w - 1\<rparr>)"
| wait_begin: "waitEnabled (w_adapter w) \<Longrightarrow>
    oa_step single env w None (w\<lparr>w_adapter := waitBegin (w_adapter w), w_mid := w_mid w + 1\<rparr>)"
| wait_middle: "0 < w_mid w \<Longrightarrow> r = waitMiddle (w_adapter w) \<Longrightarrow>
    oa_step single env w (crash r)
      (case r of Inr (a, _) \<Rightarrow> w\<lparr>w_adapter := a, w_mid := w_mid w - 1, w_end := w_end w + 1\<rparr> | Inl _ \<Rightarrow> w)"
| wait_end: "0 < w_end w \<Longrightarrow>
    oa_step single env w None (w\<lparr>w_adapter := fst (waitEnd (w_adapter w)), w_end := w_end w - 1\<rparr>)"

definition oa_start :: "('o, 'l, 'e) adapter \<Rightarrow> ('o, 'l, 'e) oa_world" where
  "oa_start a = \<lparr>w_adapter = a, w_activating = [], w_waiting = 0, w_mid = 0, w_end = 0, w_direct = 0\<rparr>"

inductive oa_reachable :: "bool \<Rightarrow> ('e::linorder) adapter_env \<Rightarrow> ('o, 'l, 'e) oa_world \<Rightarrow> bool"
  for single env where
  oa_init: "adapter_new env reg fresh nm endpointInfo router = (Inr a, evs) \<Longrightarrow> oa_reachable single env (oa_start a)"
| oa_next: "oa_reachable single env w \<Longrightarrow> oa_step single env w f w' \<Longrightarrow> oa_reachable single env w'"

inductive_cases oa_stepE: "oa_step single env w f w'"

section \<open>What the operations keep\<close>

text \<open>
  The operations on servants change nothing but the servant manager, keep its invariant and only
  ever fail with an exception.
\<close>

definition alive :: "('o, 'l, 'e) adapter \<Rightarrow> bool" where
  "alive a \<longleftrightarrow> manager_ok (oa_servantManager a) \<and>
     (\<not> oa_deactivated a \<longrightarrow> sm_instance (oa_servantManager a) \<and> oa_instance a)"

definition manager_kept :: "('o, 'l) servant_manager \<Rightarrow> failure + ('o, 'l) servant_manager \<Rightarrow> bool" where
  "manager_kept sm r =
     (case r of Inr sm' \<Rightarrow> manager_ok sm' \<and> sm_instance sm' = sm_instance sm | Inl f \<Rightarrow> \<exists>e. f = Thrown e)"

definition adapter_kept :: "('o, 'l, 'e) adapter \<Rightarrow> failure + ('o, 'l, 'e) adapter \<Rightarrow> bool" where
  "adapter_kept a r =
     (case r of
        Inr a' \<Rightarrow> \<exists>sm. a' = a\<lparr>oa_servantManager := sm\<rparr> \<and> manager_ok sm \<and> sm_instance sm = sm_instance (oa_servantManager a) \<and>
          (sm = oa_servantManager a \<or> sm_instance sm)
      | Inl f \<Rightarrow> \<exists>e. f = Thrown e)"

lemma managers_kept:
  assumes "manager_ok sm" and "sm_instance sm"
  shows "manager_kept sm (addServant obj ident facet sm)"
    and "manager_kept sm (andThen (removeServant ident facet sm) (\<lambda>(_, sm'). Inr sm'))"
    and "manager_kept sm (andThen (removeAllFacets ident sm) (\<lambda>(_, sm'). Inr sm'))"
    and "manager_kept sm (andThen (findServant ident facet sm) (\<lambda>(_, sm'). Inr sm'))"
    and "manager_kept sm (andThen (findAllFacets ident sm) (\<lambda>(_, sm'). Inr sm'))"
    and "manager_kept sm (addServantLocator loc cat sm)"
    and "manager_kept sm (andThen (findServantLocator cat sm) (\<lambda>(_, sm'). Inr sm'))"
  using addServant_spec [OF assms, where obj = obj and ident = ident and facet = facet] removeServant_spec [OF assms, of ident facet]
    removeAllFacets_spec [OF assms, of ident] findServant_spec [OF assms(1), of ident facet]
    findAllFacets_spec [OF assms, of ident] addServantLocator_spec [OF assms, where locator = loc and cat = cat]
    findServantLocator_spec [OF assms(1), of cat] assms(2)
  by (auto simp: manager_kept_def same_contents_def split: sum.splits)

lemma guarded_kept:
  assumes "alive a"
    and "\<not> oa_deactivated a \<Longrightarrow> sm_instance (oa_servantManager a) \<Longrightarrow> oa_instance a \<Longrightarrow> adapter_kept a (andThen (k ()) f)"
  shows "adapter_kept a (andThen (guarded ident a k) f)"
  using assms by (auto simp: guarded_def checkForDeactivation_def checkIdentity_def adapter_kept_def alive_def)

lemma onManager_kept:
  "manager_kept (oa_servantManager a) (andThen (g (oa_servantManager a)) (\<lambda>(_, sm'). Inr sm')) \<Longrightarrow>
     sm_instance (oa_servantManager a) \<Longrightarrow> adapter_kept a (andThen (onManager g a) (\<lambda>(_, a'). Inr a'))"
  by (cases "g (oa_servantManager a)") (auto simp: onManager_def manager_kept_def adapter_kept_def)

lemma newProxy_ok: "oa_instance a \<Longrightarrow> \<exists>p. newProxy ident facet a = Inr p"
  by (simp add: newProxy_def newDirectProxy_def newIndirectProxy_def)

lemma addFacet_kept: "alive a \<Longrightarrow> adapter_kept a (andThen (addFacet obj ident facet a) (\<lambda>(_, a'). Inr a'))"
  unfolding addFacet_def
proof (rule guarded_kept, assumption)
  assume alive: "alive a" "sm_instance (oa_servantManager a)" "oa_instance a"
  then have m: "manager_kept (oa_servantManager a) (addServant obj ident facet (oa_servantManager a))"
    by (simp add: alive_def managers_kept)
  show "adapter_kept a (andThen (andThen (addServant obj ident facet (oa_servantManager a)) (\<lambda>sm.
      let a' = a\<lparr>oa_servantManager := sm\<rparr> in andThen (newProxy ident facet a') (\<lambda>p. Inr (p, a')))) (\<lambda>(_, a'). Inr a'))"
  proof (cases "addServant obj ident facet (oa_servantManager a)")
    case (Inl f)
    then show ?thesis using m by (simp add: manager_kept_def adapter_kept_def)
  next
    case (Inr sm)
    obtain p where "newProxy ident facet (a\<lparr>oa_servantManager := sm\<rparr>) = Inr p"
      using newProxy_ok [of "a\<lparr>oa_servantManager := sm\<rparr>"] alive by auto
    then show ?thesis using m Inr alive by (auto simp: manager_kept_def adapter_kept_def)
  qed
qed

lemma checked_kept:
  assumes "alive a"
    and "\<not> oa_deactivated a \<Longrightarrow> sm_instance (oa_servantManager a) \<Longrightarrow> oa_instance a \<Longrightarrow> adapter_kept a (andThen (k ()) f)"
  shows "adapter_kept a (andThen (andThen (checkForDeactivation a) k) f)"
  using assms by (auto simp: checkForDeactivation_def adapter_kept_def alive_def)

lemma andThen_unit: "andThen (andThen m (\<lambda>sm'. Inr ((), sm'))) (\<lambda>(_, sm'). Inr sm') = m"
  by (cases m) auto

lemma servantCall_kept: "alive a \<Longrightarrow> adapter_kept a (servantCall call a)"
  by (cases call)
     (auto simp: addFacet_kept removeFacet_def adapter_removeAllFacets_def findFacet_def adapter_findAllFacets_def
       adapter_addServantLocator_def adapter_findServantLocator_def andThen_unit alive_def
       intro!: guarded_kept checked_kept onManager_kept managers_kept)

lemma addWithUUID_kept: "alive a \<Longrightarrow> adapter_kept a (andThen (addWithUUID uuid obj a) (\<lambda>(_, a'). Inr a'))"
  by (simp add: addWithUUID_def addFacetWithUUID_def addFacet_kept)

lemma alive_kept:
  "alive a \<Longrightarrow> manager_ok sm \<Longrightarrow> sm_instance sm = sm_instance (oa_servantManager a) \<Longrightarrow> alive (a\<lparr>oa_servantManager := sm\<rparr>)"
  by (simp add: alive_def)

lemma createDirectProxy_no_crash: "alive a \<Longrightarrow> crash (createDirectProxy ident a) = None"
  by (simp add: createDirectProxy_def guarded_def checkForDeactivation_def checkIdentity_def newDirectProxy_def alive_def)

lemma registerProcess_kept:
  assumes alive: "alive a" and run: "registerProcess_call reg serverId fresh a = (r, calls, a')"
  shows "adapter_kept a (Inr a') \<and> crash r = None"
proof (cases "addWithUUID (fst fresh) (snd fresh) a")
  case (Inl f)
  then show ?thesis using run alive addWithUUID_kept [OF alive, of "fst fresh" "snd fresh"]
    by (cases f) (auto simp: registerProcess_call_def adapter_kept_def alive_def intro!: exI [of _ "oa_servantManager a"])
next
  case (Inr x)
  obtain p a1 where x: "x = (p, a1)" by (cases x)
  have k: "adapter_kept a (Inr a1)" using addWithUUID_kept [OF alive, of "fst fresh" "snd fresh"] Inr x by simp
  have "alive a1" using k alive by (auto simp: adapter_kept_def intro: alive_kept)
  from createDirectProxy_no_crash [OF this, of "identityOf p"] show ?thesis using run Inr x k
    by (auto simp: registerProcess_call_def Let_def split: sum.splits server_answer.splits)
qed

lemma registerAdapter_no_crash: "crash (fst (registerAdapter reg proxy a)) = None"
  by (simp add: registerAdapter_def Let_def split: adapter_answer.split)

lemma update_kept:
  assumes alive: "alive a" and run: "updateLocatorRegistry env reg fresh li proxy rp a = (r, calls, a')"
  shows "adapter_kept a (Inr a') \<and> (rp \<longrightarrow> oa_instance a) \<longrightarrow> crash r = None" and "adapter_kept a (Inr a')"
proof -
  have same: "adapter_kept a (Inr a)" using alive by (auto simp: adapter_kept_def alive_def intro!: exI [of _ "oa_servantManager a"])
  obtain r1 calls1 where ra: "registerAdapter reg proxy a = (r1, calls1)" by fastforce
  then have c1: "crash r1 = None" using registerAdapter_no_crash [of reg proxy a] by simp
  obtain r2 calls2 a2 where rp: "registerProcess_call reg (env_getProperty env ''Ice.ServerId'') fresh a = (r2, calls2, a2)"
    using prod_cases3 by blast
  note k2 = registerProcess_kept [OF alive rp]
  show "adapter_kept a (Inr a') \<and> (rp \<longrightarrow> oa_instance a) \<longrightarrow> crash r = None" and "adapter_kept a (Inr a')"
    using run same c1 k2 ra rp unfolding updateLocatorRegistry_def Let_def
    by (auto split: if_splits sum.splits)
qed

section \<open>The invariant\<close>

text \<open>
  What holds whatever the threads do: the servant manager is destroyed exactly when the adapter is
  taken down, by one thread, when it has been deactivated and no direct call is left; it is empty then.
\<close>

definition oa_inv :: "('o, 'l, 'e) oa_world \<Rightarrow> bool" where
  "oa_inv w \<longleftrightarrow> (let a = w_adapter w in
     manager_ok (oa_servantManager a) \<and>
     (sm_instance (oa_servantManager a) \<longleftrightarrow> oa_instance a \<and> w_end w = 0) \<and>
     (\<not> sm_instance (oa_servantManager a) \<longrightarrow> servantMapMap (oa_servantManager a) = [] \<and> locatorMap (oa_servantManager a) = []) \<and>
     w_mid w + w_end w = (if oa_waitForDeactivate a then 1 else 0) \<and>
     (oa_waitForDeactivate a \<or> \<not> oa_instance a \<longrightarrow> oa_deactivated a \<and> w_direct w = 0) \<and>
     unat (oa_directCount a) = w_direct w \<and> w_direct w < 2147483648)"

text \<open>What holds in addition when activations and waiting deactivations do not overlap.\<close>

definition single_inv :: "('o, 'l, 'e) oa_world \<Rightarrow> bool" where
  "single_inv w \<longleftrightarrow>
     (if oa_waitForActivate (w_adapter w) then \<exists>t. w_activating w = [t] else w_activating w = []) \<and>
     (w_activating w \<noteq> [] \<or> w_waiting w \<noteq> 0 \<longrightarrow> \<not> oa_deactivated (w_adapter w)) \<and> w_waiting w \<le> 1"

lemma oa_inv_alive: "oa_inv w \<Longrightarrow> alive (w_adapter w)"
  by (cases "w_end w") (auto simp: oa_inv_def alive_def Let_def split: if_splits)

lemma oa_inv_kept: "oa_inv w \<Longrightarrow> adapter_kept (w_adapter w) (Inr a) \<Longrightarrow> oa_inv (w\<lparr>w_adapter := a\<rparr>)"
  by (auto simp: oa_inv_def adapter_kept_def Let_def)

lemma adapter_kept_flags:
  "adapter_kept a (Inr a') \<Longrightarrow> oa_waitForActivate a' = oa_waitForActivate a \<and> oa_deactivated a' = oa_deactivated a \<and> oa_instance a' = oa_instance a"
  by (auto simp: adapter_kept_def)

lemma oa_inv_cong:
  "oa_inv w \<Longrightarrow> w_adapter w' = w_adapter w \<Longrightarrow> w_mid w' = w_mid w \<Longrightarrow> w_end w' = w_end w \<Longrightarrow> w_direct w' = w_direct w \<Longrightarrow> oa_inv w'"
  by (simp add: oa_inv_def)

lemma oa_inv_flags:
  "oa_inv w \<Longrightarrow> oa_inv (w\<lparr>w_adapter := (w_adapter w)\<lparr>oa_waitForActivate := b\<rparr>, w_activating := ts\<rparr>)"
  "oa_inv w \<Longrightarrow> oa_inv (w\<lparr>w_adapter := (w_adapter w)\<lparr>oa_waitForActivate := b, oa_activateOneOffDone := d\<rparr>, w_activating := ts\<rparr>)"
  "oa_inv w \<Longrightarrow> oa_inv (w\<lparr>w_adapter := (w_adapter w)\<lparr>oa_locatorInfo := b\<rparr>\<rparr>)"
  "oa_inv w \<Longrightarrow> oa_inv (w\<lparr>w_adapter := (w_adapter w)\<lparr>oa_deactivated := True\<rparr>\<rparr>)"
  "oa_inv w \<Longrightarrow> oa_inv (w\<lparr>w_adapter := (w_adapter w)\<lparr>oa_deactivated := True\<rparr>, w_waiting := n\<rparr>)"
  by (auto simp: oa_inv_def Let_def)

lemma step_inv: "oa_step single env w f w' \<Longrightarrow> oa_inv w \<Longrightarrow> oa_inv w'"
proof (induction rule: oa_step.induct)
  case (servant_call r call w)
  then show ?case using servantCall_kept [OF oa_inv_alive, of w call] by (auto intro: oa_inv_kept split: sum.splits)
next
  case (set_locator r l w)
  then show ?case
    by (auto simp: setLocator_def checkForDeactivation_def andThen_eq_Inr intro: oa_inv_flags split: sum.splits if_splits)
next
  case (direct_begin r w)
  then show ?case
    using unat_plus_one [of "oa_directCount (w_adapter w)"]
    by (auto simp: incDirectCount_def checkForDeactivation_def oa_inv_def Let_def split: sum.splits if_splits)
next
  case (direct_end r w)
  then show ?case
    using unat_less_one [of "oa_directCount (w_adapter w)"]
    by (auto simp: decDirectCount_def oa_inv_def Let_def split: sum.splits if_splits)
next
  case (activate_begin r w)
  then show ?case
    by (auto simp: activateBegin_def andThen_eq_Inr intro: oa_inv_flags split: sum.splits option.splits prod.splits if_splits)
next
  case (activate_proxy w xs rp li ys r)
  then show ?case by (auto intro: oa_inv_cong)
next
  case (activate_update w xs rp li p ys reg fresh r calls a)
  then have "oa_inv (w\<lparr>w_adapter := a\<rparr>)" using update_kept(2) [OF oa_inv_alive activate_update(2)] by (auto intro: oa_inv_kept)
  then show ?case by (rule oa_inv_cong) simp_all
next
  case (activate_failed w xs ys)
  then show ?case by (auto simp: activateFailed_def intro: oa_inv_flags)
next
  case (activate_end w xs ys r)
  then show ?case by (auto simp: activateEnd_def intro: oa_inv_flags oa_inv_cong)
next
  case (deactivate_now w r)
  then show ?case by (auto simp: deactivateProceed_def intro: oa_inv_flags)
next
  case (deactivate_wait w)
  then show ?case by (auto intro: oa_inv_cong)
next
  case (deactivate_wake w r)
  then show ?case by (auto simp: deactivateProceed_def intro: oa_inv_flags oa_inv_cong)
next
  case (wait_begin w)
  then show ?case using sint_pos_iff [of "oa_directCount (w_adapter w)"]
    by (auto simp: waitEnabled_def waitBegin_def oa_inv_def Let_def)
next
  case (wait_middle w r)
  then show ?case
    by (auto simp: waitMiddle_def oa_inv_def Let_def servantManager_destroy_def manager_ok_def split: if_splits)
next
  case (wait_end w)
  then show ?case by (auto simp: waitEnd_def oa_inv_def Let_def split: if_splits)
qed

lemma createDirectProxy_alive:
  "alive a \<Longrightarrow> \<not> oa_deactivated a \<Longrightarrow> name ident \<noteq> [] \<Longrightarrow> \<exists>p. createDirectProxy ident a = Inr p"
  by (simp add: createDirectProxy_def guarded_def checkForDeactivation_def checkIdentity_def newDirectProxy_def alive_def)

lemma one_thread: "xs @ u # ys = [t] \<longleftrightarrow> xs = [] \<and> ys = [] \<and> u = t"
  by (cases xs) auto

lemma continue_one: "crash r = None \<Longrightarrow> \<exists>t. continue r = [t]"
  by (cases r rule: continue.cases) auto

text \<open>A thread in its one off initialization is the only one, and the adapter is up.\<close>

lemma single_activating:
  assumes "oa_inv w" and "single_inv w" and "w_activating w = xs @ t # ys"
  shows "xs = []" "ys = []" "\<not> oa_deactivated (w_adapter w)" "oa_waitForActivate (w_adapter w)" "oa_instance (w_adapter w)"
  using assms oa_inv_alive [OF assms(1)] by (auto simp: single_inv_def alive_def one_thread split: if_splits)

lemma single_inv_update:
  "single_inv w \<Longrightarrow> \<not> oa_deactivated a \<Longrightarrow> oa_waitForActivate a \<Longrightarrow> \<exists>t. ts = [t] \<Longrightarrow> single_inv (w\<lparr>w_adapter := a, w_activating := ts\<rparr>)"
  by (simp add: single_inv_def)

lemma single_inv_same:
  "single_inv w \<Longrightarrow> oa_waitForActivate a = oa_waitForActivate (w_adapter w) \<Longrightarrow> oa_deactivated a = oa_deactivated (w_adapter w) \<Longrightarrow>
     single_inv (w\<lparr>w_adapter := a\<rparr>)"
  by (simp add: single_inv_def)

lemma step_single: "oa_step True env w f w' \<Longrightarrow> oa_inv w \<Longrightarrow> single_inv w \<Longrightarrow> single_inv w' \<and> f = None"
proof (induction rule: oa_step.induct)
  case (servant_call r call w)
  have "adapter_kept (w_adapter w) r" using servant_call servantCall_kept [OF oa_inv_alive] by simp
  then show ?case using servant_call(3) by (cases r) (auto simp: adapter_kept_def intro: single_inv_same)
next
  case (set_locator r l w)
  then show ?case using oa_inv_alive [of w]
    by (auto simp: setLocator_def checkForDeactivation_def alive_def intro!: single_inv_same split: sum.splits if_splits)
next
  case (direct_begin r w)
  then show ?case using sint_nonneg_iff [of "oa_directCount (w_adapter w)", THEN iffD2]
    by (auto simp: incDirectCount_def checkForDeactivation_def oa_inv_def single_inv_def Let_def split: sum.splits if_splits)
next
  case (direct_end r w)
  then show ?case using sint_pos_iff [of "oa_directCount (w_adapter w)"]
    by (auto simp: decDirectCount_def oa_inv_def single_inv_def Let_def split: sum.splits if_splits)
next
  case (activate_begin r w)
  then show ?case using oa_inv_alive [of w]
    by (auto simp: activateBegin_def checkForDeactivation_def single_inv_def alive_def split: sum.splits option.splits prod.splits if_splits)
next
  case (activate_proxy w xs rp li ys r)
  note t = single_activating [OF activate_proxy(3,4,1)]
  obtain p where "r = Inr p"
    using createDirectProxy_alive [OF oa_inv_alive [OF activate_proxy(3)] t(3), of dummy_identity] activate_proxy(2) by (auto simp: dummy_identity_def)
  then show ?case using t activate_proxy(1,4) by (auto simp: single_inv_def)
next
  case (activate_update w xs rp li p ys reg fresh r calls a)
  note t = single_activating [OF activate_update(3,4,1)] and k = update_kept [OF oa_inv_alive [OF activate_update(3)] activate_update(2)]
  have "crash r = None" using k t by blast
  then show ?case using k(2) t activate_update(4) adapter_kept_flags [OF k(2)] continue_one [of r]
    by (auto intro!: single_inv_update)
next
  case (activate_failed w xs ys)
  note t = single_activating [OF activate_failed(2,3,1)]
  then show ?case using activate_failed(3) by (auto simp: activateFailed_def single_inv_def)
next
  case (activate_end w xs ys r)
  note t = single_activating [OF activate_end(3,4,1)]
  then show ?case using activate_end(2,4) by (auto simp: activateEnd_def single_inv_def)
next
  case (deactivate_now w r)
  then show ?case using oa_inv_alive [of w] by (auto simp: deactivateProceed_def single_inv_def alive_def)
next
  case (deactivate_wait w)
  then show ?case by (auto simp: single_inv_def)
next
  case (deactivate_wake w r)
  then show ?case using oa_inv_alive [of w] by (auto simp: deactivateProceed_def single_inv_def alive_def)
next
  case (wait_begin w)
  then show ?case by (auto simp: waitBegin_def waitEnabled_def single_inv_def)
next
  case (wait_middle w r)
  then show ?case
    by (auto simp: waitMiddle_def oa_inv_def single_inv_def Let_def servantManager_destroy_def split: if_splits)
next
  case (wait_end w)
  then show ?case by (auto simp: waitEnd_def single_inv_def)
qed

section \<open>A new adapter\<close>

text \<open>What the constructor leaves behind: an adapter nobody uses yet.\<close>

definition unused :: "'e adapter_env \<Rightarrow> string \<Rightarrow> ('o, 'l, 'e) adapter \<Rightarrow> bool" where
  "unused env nm a \<longleftrightarrow> \<not> oa_deactivated a \<and> oa_instance a \<and> oa_servantManager a = servant_manager_new \<and> oa_directCount a = 0 \<and>
     \<not> oa_waitForActivate a \<and> \<not> oa_waitForDeactivate a \<and> \<not> oa_activateOneOffDone a \<and>
     oa_name a = nm \<and> oa_id a = env_getProperty env (nm @ ''.AdapterId'')"

lemma makeFactories_unused: "unused env nm a \<Longrightarrow> unused env nm (snd (makeFactories env es a))"
proof (induction es arbitrary: a)
  case (Cons e es)
  have "unused env nm (a\<lparr>oa_factories := fs\<rparr>)" for fs using Cons.prems by (simp add: unused_def)
  then show ?case using Cons by (cases "env_factory env e") simp_all
qed simp

lemma useEndpoints_unused: "unused env nm a \<Longrightarrow> unused env nm (snd (useEndpoints env info a))"
  using makeFactories_unused [of env nm a]
  by (auto simp: useEndpoints_def unused_def split: sum.splits prod.splits) (metis snd_conv)+

lemma setup_unused:
  fixes env :: "('e::linorder) adapter_env"
  shows "unused env nm (snd (adapter_setup env nm info router :: (failure + unit) \<times> ('o, 'l, 'e) adapter))"
proof -
  have "unused env nm (adapter_init env nm :: ('o, 'l, 'e) adapter)" by (simp add: unused_def adapter_init_def)
  then have "unused env nm (snd (case pickRouter env nm router of Inl f \<Rightarrow> (Inl f, adapter_init env nm :: ('o, 'l, 'e) adapter)
      | Inr (Some r) \<Rightarrow> useRouter r (adapter_init env nm) | Inr None \<Rightarrow> useEndpoints env info (adapter_init env nm)))"
    using useEndpoints_unused [of env nm "adapter_init env nm :: ('o, 'l, 'e) adapter" info]
    by (auto simp: useRouter_def Let_def unused_def split: sum.splits option.splits)
  moreover have "unused env nm (snd (useLocator env a))" if "unused env nm a" for a :: "('o, 'l, 'e) adapter"
    using that by (auto simp: useLocator_def Let_def setLocator_def andThen_def checkForDeactivation_def unused_def split: sum.splits)
  moreover have "unused env nm (snd (useThreadPool env a))" if "unused env nm a" for a :: "('o, 'l, 'e) adapter"
    using that by (auto simp: useThreadPool_def unused_def split: sum.splits)
  ultimately show ?thesis
    by (auto simp: adapter_setup_def oa_then_def Let_def split: sum.splits prod.splits) (metis snd_conv)+
qed

lemma new_unused:
  fixes a :: "('o, 'l, 'e::linorder) adapter"
  assumes "adapter_new env reg fresh nm info router = (Inr a, evs)"
  shows "unused env nm a"
proof -
  have "unused env nm (snd (adapter_setup env nm info router :: (failure + unit) \<times> ('o, 'l, 'e) adapter))" by (rule setup_unused)
  then show ?thesis using assms by (auto simp: adapter_new_def split: sum.splits prod.splits)
qed

lemma start_inv: "unused env nm a \<Longrightarrow> oa_inv (oa_start a) \<and> single_inv (oa_start a)"
  by (simp add: unused_def oa_start_def oa_inv_def single_inv_def Let_def new_manager_ok) (simp add: servant_manager_new_def)

lemma reachable_inv: "oa_reachable single env w \<Longrightarrow> oa_inv w \<and> (single \<longrightarrow> single_inv w)"
proof (induction rule: oa_reachable.induct)
  case (oa_init reg fresh nm info router a evs)
  then show ?case using start_inv [OF new_unused] by blast
next
  case (oa_next w f w')
  then show ?case using step_inv step_single by metis
qed

end
