(* ===== verification/AdapterProps.thy ===== *)
theory AdapterProps imports AdapterSteps begin

text \<open>
  What holds of every object adapter, whatever threads do with it, and the two interleavings of
  \<open>activate\<close> and \<open>deactivate\<close> of \<^verbatim>\<open>src/Ice-3.1.1/src/Ice/ObjectAdapterI.cpp\<close> that end in a crash.
\<close>

section \<open>A sample adapter\<close>

text \<open>No properties are set, and endpoints are named by numbers.\<close>

definition calm_env :: "nat adapter_env" where
  "calm_env =
     \<lparr>env_getProperty = \<lambda>_. [], env_getPropertyAsInt = \<lambda>_. 0, env_create = \<lambda>s. Inr (Some (length s)),
      env_expand = \<lambda>e. [e], env_publish = \<lambda>_. True, env_factory = Inr, env_threadPerConnection = False,
      env_defaultLocator = False, env_stringToLocator = \<lambda>_. Inr True, env_stringToRouter = \<lambda>_. Inr None,
      env_threadPool = Inr ()\<rparr>"

definition deaf_registry :: "nat registry" where
  "deaf_registry = \<lparr>reg_get = Inr False, reg_setAdapter = \<lambda>_. AdapterOk, reg_setServer = \<lambda>_. ServerOk\<rparr>"

definition calm_adapter :: "(nat, nat, nat) adapter" where
  "calm_adapter = (adapter_init calm_env ''A'')\<lparr>oa_factories := [3], oa_publishedEndpoints := [3]\<rparr>"

lemmas calm_defs = calm_env_def calm_adapter_def adapter_init_def deaf_registry_def

lemma calm_new: "adapter_new calm_env reg fresh ''A'' ''tcp'' None = (Inr calm_adapter, [])"
proof -
  have "endpointLoop mk ''tcp'' 0 [] = andThen (mk ''tcp'') Inr" for mk :: "string \<Rightarrow> failure + nat list"
    by (simp add: endpointLoop.simps str_find_def is_delim_def endpointEnd_def)
  moreover have "endpointLoop mk [] 0 [] = Inr []" for mk :: "string \<Rightarrow> failure + nat list"
    by (simp add: endpointLoop.simps)
  moreover have "map tolower ''tcp'' = ''tcp''" by (simp add: tolower_def)
  ultimately show ?thesis
    by (simp add: adapter_new_def adapter_setup_def pickRouter_def useEndpoints_def parseEndpoints_def createEndpoint_def
        useLocator_def setLocator_def useThreadPool_def oa_then_def checkForDeactivation_def Let_def calm_defs)
qed

lemma calm_reachable: "oa_reachable single calm_env (oa_start calm_adapter)"
  by (rule oa_init [OF calm_new])

section \<open>Two bad interleavings\<close>

definition race_world :: "(nat, nat, nat) adapter \<Rightarrow> nat activation list \<Rightarrow> nat \<Rightarrow> (nat, nat, nat) oa_world" where
  "race_world a ts n = \<lparr>w_adapter = a, w_activating = ts, w_waiting = n, w_mid = 0, w_end = 0, w_direct = 0\<rparr>"

abbreviation activating_adapter :: "(nat, nat, nat) adapter" where
  "activating_adapter \<equiv> calm_adapter\<lparr>oa_waitForActivate := True\<rparr>"

abbreviation up_adapter :: "(nat, nat, nat) adapter" where
  "up_adapter \<equiv> calm_adapter\<lparr>oa_activateOneOffDone := True\<rparr>"

abbreviation dummy_proxy :: "nat proxy" where
  "dummy_proxy \<equiv> DirectProxy dummy_identity [] [3]"

lemma reach:
  "oa_reachable single env w \<Longrightarrow> oa_step single env w f w1 \<Longrightarrow> w1 = w' \<Longrightarrow> oa_reachable single env w'"
  using oa_next by metis

lemma begin_again: "oa_reachable False calm_env (race_world a ts n) \<Longrightarrow> a \<in> {calm_adapter, activating_adapter} \<Longrightarrow>
    oa_reachable False calm_env (race_world activating_adapter (ts @ [Proxying False False]) n)"
  by (erule reach, rule activate_begin [OF refl])
     (auto simp: race_world_def activateBegin_def checkForDeactivation_def calm_defs)

lemma proxy_made: "oa_reachable False calm_env (race_world activating_adapter (xs @ Proxying False False # ys) n) \<Longrightarrow>
    oa_reachable False calm_env (race_world activating_adapter (xs @ Updating False False dummy_proxy # ys) n)"
  by (erule reach, rule activate_proxy [where xs = xs and ys = ys, OF _ refl])
     (auto simp: race_world_def createDirectProxy_def guarded_def checkForDeactivation_def checkIdentity_def newDirectProxy_def
       dummy_identity_def calm_defs)

lemma updated: "oa_reachable False calm_env (race_world activating_adapter (xs @ Updating False False p # ys) n) \<Longrightarrow>
    oa_reachable False calm_env (race_world activating_adapter (xs @ Ready # ys) n)"
  by (erule reach, rule activate_update [where xs = xs and ys = ys and reg = deaf_registry and fresh = "([], 0)"])
     (auto simp: race_world_def updateLocatorRegistry_def calm_defs)

lemma ended: "oa_reachable False calm_env (race_world activating_adapter (xs @ Ready # ys) n) \<Longrightarrow>
    oa_reachable False calm_env (race_world up_adapter (xs @ ys) n)"
  by (erule reach, rule activate_end [where xs = xs and ys = ys, OF _ refl])
     (auto simp: race_world_def activateEnd_def calm_defs)

lemma both_ready: "oa_reachable False calm_env (race_world activating_adapter [Ready, Ready] 0)"
proof -
  let ?R = "oa_reachable False calm_env" and ?P = "Proxying False False :: nat activation"
  have "?R (race_world calm_adapter [] 0)"
    using calm_reachable [of False] by (simp add: race_world_def oa_start_def)
  then have "?R (race_world activating_adapter ([?P] @ [?P]) 0)"
    using begin_again [where ts = "[]"] begin_again [where ts = "[?P]"] by (metis append_Nil insertCI)
  then have "?R (race_world activating_adapter [Ready, ?P] 0)"
    using proxy_made [of "[]" "[?P]" 0] updated [of "[]" _ "[?P]" 0] by (metis append_Cons append_Nil)
  then show ?thesis
    using proxy_made [of "[Ready]" "[]" 0] updated [of "[Ready]" _ "[]" 0] by (metis append_Cons append_Nil)
qed

text \<open>Two calls of \<open>deactivate\<close> that waited for the activation, which has ended.\<close>

lemma two_waiting: "oa_reachable False calm_env (race_world up_adapter [] 2)"
proof -
  let ?R = "oa_reachable False calm_env" and ?P = "Proxying False False :: nat activation"
  have wait: "?R (race_world activating_adapter ts n) \<Longrightarrow> ?R (race_world activating_adapter ts (Suc n))" for ts n
    by (erule reach, rule deactivate_wait) (auto simp: race_world_def calm_defs)
  have "?R (race_world calm_adapter [] 0)"
    using calm_reachable [of False] by (simp add: race_world_def oa_start_def)
  then have "?R (race_world activating_adapter [?P] 2)"
    using begin_again [where ts = "[]" and n = 0] wait by (metis append_Nil insertCI numeral_2_eq_2)
  then show ?thesis
    using proxy_made [of "[]" "[]" 2] updated [of "[]" _ "[]" 2] ended [of "[]" "[]" 2] by (metis append_Nil)
qed

lemma step_to: "oa_step single env w f v \<Longrightarrow> v = w' \<Longrightarrow> oa_step single env w f w'"
  by simp

text \<open>
  The steps of the first bad interleaving: two calls of \<open>activate\<close> are about to end, one ends, the
  adapter is deactivated, the other ends.
\<close>

lemma late_activation:
  assumes "\<not> oa_deactivated (w_adapter w)" and "oa_instance (w_adapter w)" and ts: "w_activating w = xs @ Ready # ys @ Ready # zs"
  shows "\<exists>a1 e1 a2 e2.
    activateEnd (w_adapter w) = Inr (a1, e1) \<and>
    oa_step False env w None (w\<lparr>w_adapter := a1, w_activating := xs @ ys @ Ready # zs\<rparr>) \<and>
    \<not> oa_deactivated a1 \<and> deactivateProceed a1 = Inr (a2, e2) \<and>
    oa_step False env (w\<lparr>w_adapter := a1, w_activating := xs @ ys @ Ready # zs\<rparr>) None
      (w\<lparr>w_adapter := a2, w_activating := xs @ ys @ Ready # zs\<rparr>) \<and>
    activateEnd a2 = Inl AssertionFailed \<and>
    oa_step False env (w\<lparr>w_adapter := a2, w_activating := xs @ ys @ Ready # zs\<rparr>) (Some AssertionFailed)
      (w\<lparr>w_adapter := a2, w_activating := xs @ ys @ zs\<rparr>)"
proof -
  let ?a1 = "(w_adapter w)\<lparr>oa_waitForActivate := False, oa_activateOneOffDone := True\<rparr>"
  let ?a2 = "?a1\<lparr>oa_deactivated := True\<rparr>"
  let ?w1 = "w\<lparr>w_adapter := ?a1, w_activating := xs @ ys @ Ready # zs\<rparr>"
  let ?w2 = "w\<lparr>w_adapter := ?a2, w_activating := xs @ ys @ Ready # zs\<rparr>"
  obtain e1 where e1: "activateEnd (w_adapter w) = Inr (?a1, e1)" using assms(1) by (simp add: activateEnd_def)
  obtain e2 where e2: "deactivateProceed ?a1 = Inr (?a2, e2)" using assms(2) by (simp add: deactivateProceed_def)
  have f: "activateEnd ?a2 = Inl AssertionFailed" by (simp add: activateEnd_def)
  have "oa_step False env w None ?w1" using activate_end [OF ts refl, of False env] e1 by simp
  moreover have "oa_step False env ?w1 None ?w2"
  proof (rule step_to)
    show "oa_step False env ?w1 None (?w1\<lparr>w_adapter := ?a2\<rparr>)"
      using deactivate_now [of ?w1 False "deactivateProceed ?a1" env] assms(1) e2 by simp
  qed (simp add: oa_world.equality)
  moreover have "oa_step False env ?w2 (Some AssertionFailed) (w\<lparr>w_adapter := ?a2, w_activating := xs @ ys @ zs\<rparr>)"
    using activate_end [of ?w2 "xs @ ys" zs "activateEnd ?a2" False env] f by simp
  moreover have "\<not> oa_deactivated ?a1" using assms(1) by simp
  ultimately show ?thesis using e1 e2 f by blast
qed

text \<open>
  The steps of the second: of two waiting calls of \<open>deactivate\<close> one takes the adapter down, a call of
  \<open>waitForDeactivate\<close> runs to its end, and the other wakes up.
\<close>

lemma late_deactivation:
  assumes inv: "oa_inv w" and up: "\<not> oa_deactivated (w_adapter w)" and wait: "2 \<le> w_waiting w"
    and idle: "\<not> oa_waitForActivate (w_adapter w)" "w_direct w = 0"
  shows "\<exists>a1 e1 a2 e2.
    deactivateProceed (w_adapter w) = Inr (a1, e1) \<and>
    oa_step False env w None (w\<lparr>w_adapter := a1, w_waiting := w_waiting w - 1\<rparr>) \<and>
    oa_step False env (w\<lparr>w_adapter := a1, w_waiting := w_waiting w - 1\<rparr>) None
      (w\<lparr>w_adapter := waitBegin a1, w_waiting := w_waiting w - 1, w_mid := 1\<rparr>) \<and>
    waitMiddle (waitBegin a1) = Inr (a2, e2) \<and>
    oa_step False env (w\<lparr>w_adapter := waitBegin a1, w_waiting := w_waiting w - 1, w_mid := 1\<rparr>) None
      (w\<lparr>w_adapter := a2, w_waiting := w_waiting w - 1, w_mid := 0, w_end := 1\<rparr>) \<and>
    oa_step False env (w\<lparr>w_adapter := a2, w_waiting := w_waiting w - 1, w_mid := 0, w_end := 1\<rparr>) None
      (w\<lparr>w_adapter := fst (waitEnd a2), w_waiting := w_waiting w - 1, w_mid := 0, w_end := 0\<rparr>) \<and>
    deactivateProceed (fst (waitEnd a2)) = Inl NullHandleException \<and>
    oa_step False env (w\<lparr>w_adapter := fst (waitEnd a2), w_waiting := w_waiting w - 1, w_mid := 0, w_end := 0\<rparr>)
      (Some NullHandleException)
      (w\<lparr>w_adapter := fst (waitEnd a2), w_waiting := w_waiting w - 2, w_mid := 0, w_end := 0\<rparr>)"
proof -
  let ?a = "w_adapter w"
  let ?a1 = "?a\<lparr>oa_deactivated := True\<rparr>"
  let ?w1 = "w\<lparr>w_adapter := ?a1, w_waiting := w_waiting w - 1\<rparr>"
  let ?w2 = "w\<lparr>w_adapter := waitBegin ?a1, w_waiting := w_waiting w - 1, w_mid := 1\<rparr>"
  have i: "oa_instance ?a" "sm_instance (oa_servantManager ?a)" "\<not> oa_waitForDeactivate ?a" "w_mid w = 0" "w_end w = 0"
      "unat (oa_directCount ?a) = 0"
    using inv up idle(2) oa_inv_alive [OF inv] by (auto simp: oa_inv_def alive_def Let_def split: if_splits)
  have dc: "oa_directCount ?a = 0" using i(6) by (simp add: unat_eq_0)
  obtain e1 where e1: "deactivateProceed ?a = Inr (?a1, e1)" using i(1) by (simp add: deactivateProceed_def)
  obtain ls sm where sm: "servantManager_destroy (oa_servantManager ?a) = Inr (ls, sm)"
    using i(2) by (simp add: servantManager_destroy_def)
  obtain a2 e2 where e2: "waitMiddle (waitBegin ?a1) = Inr (a2, e2)"
    using sm i(1) by (auto simp: waitMiddle_def waitBegin_def Let_def)
  then have a2: "oa_waitForActivate a2 = oa_waitForActivate ?a"
    using sm i(1) by (auto simp: waitMiddle_def waitBegin_def Let_def)
  let ?w3 = "w\<lparr>w_adapter := a2, w_waiting := w_waiting w - 1, w_mid := 0, w_end := 1\<rparr>"
  let ?w4 = "w\<lparr>w_adapter := fst (waitEnd a2), w_waiting := w_waiting w - 1, w_mid := 0, w_end := 0\<rparr>"
  have f: "deactivateProceed (fst (waitEnd a2)) = Inl NullHandleException"
    by (simp add: deactivateProceed_def waitEnd_def)
  have s1: "oa_step False env w None ?w1"
    using deactivate_wake [of w "deactivateProceed ?a" False env] wait idle(1) e1 by simp
  have s2: "oa_step False env ?w1 None ?w2"
  proof (rule step_to)
    show "oa_step False env ?w1 None (?w1\<lparr>w_adapter := waitBegin ?a1, w_mid := 1\<rparr>)"
      using wait_begin [of ?w1 False env] i(3,4) dc by (simp add: waitEnabled_def)
  qed (simp add: oa_world.equality)
  have s3: "oa_step False env ?w2 None ?w3"
  proof (rule step_to)
    show "oa_step False env ?w2 None (?w2\<lparr>w_adapter := a2, w_mid := 0, w_end := 1\<rparr>)"
      using wait_middle [of ?w2 "waitMiddle (waitBegin ?a1)" False env] e2 i(5) by simp
  qed (simp add: oa_world.equality)
  have s4: "oa_step False env ?w3 None ?w4"
  proof (rule step_to)
    show "oa_step False env ?w3 None (?w3\<lparr>w_adapter := fst (waitEnd a2), w_end := 0\<rparr>)"
      using wait_end [of ?w3 False env] by simp
  qed (simp add: oa_world.equality)
  have "oa_step False env ?w4 (Some NullHandleException)
      (w\<lparr>w_adapter := fst (waitEnd a2), w_waiting := w_waiting w - 2, w_mid := 0, w_end := 0\<rparr>)"
  proof (rule step_to)
    show "oa_step False env ?w4 (Some NullHandleException) (?w4\<lparr>w_waiting := w_waiting w - 1 - 1\<rparr>)"
      using deactivate_wake [of ?w4 "deactivateProceed (fst (waitEnd a2))" False env] wait idle(1) a2 f
      by (simp add: waitEnd_def)
  qed (simp add: oa_world.equality)
  then show ?thesis using e1 e2 f s1 s2 s3 s4 by blast
qed

section \<open>Properties\<close>

text \<open>
  C31: the invariant of an object adapter, for any number of threads that add and look up servants, make
  direct calls, activate, deactivate and wait for the deactivation in any interleaving.  As long as
  the adapter is not deactivated or a direct call has not returned, the servant manager is in use
  and the instance is there; at most one thread at a time takes the adapter down; the
  direct count is the number of direct calls under way; and no operation on servants ever fails
  with anything but an exception.
\<close>

theorem adapter_invariant:
  assumes "oa_reachable single env w"
  shows "(\<not> oa_deactivated (w_adapter w) \<or> 0 < w_direct w \<longrightarrow>
       oa_instance (w_adapter w) \<and> sm_instance (oa_servantManager (w_adapter w))) \<and>
     manager_ok (oa_servantManager (w_adapter w)) \<and>
     w_mid w + w_end w \<le> 1 \<and> (oa_waitForDeactivate (w_adapter w) \<longleftrightarrow> w_mid w + w_end w = 1) \<and>
     sint (oa_directCount (w_adapter w)) = int (w_direct w) \<and>
     crash (servantCall call (w_adapter w)) = None"
proof -
  have inv: "oa_inv w" using reachable_inv [OF assms] by blast
  have "adapter_kept (w_adapter w) (servantCall call (w_adapter w))" by (rule servantCall_kept [OF oa_inv_alive [OF inv]])
  then have "crash (servantCall call (w_adapter w)) = None" by (cases "servantCall call (w_adapter w)") (auto simp: adapter_kept_def)
  moreover have "sint (oa_directCount (w_adapter w)) = int (w_direct w)"
    using inv sint_small [of "oa_directCount (w_adapter w)"] by (simp add: oa_inv_def Let_def)
  ultimately show ?thesis using inv by (auto simp: oa_inv_def Let_def split: if_splits)
qed

theorem adapter_invariant_witness:
  "oa_instance (w_adapter (oa_start calm_adapter)) \<and> crash (servantCall (RemoveFacet dummy_identity []) (w_adapter (oa_start calm_adapter))) = None"
  using adapter_invariant [OF calm_reachable, where call = "RemoveFacet dummy_identity []"] by (simp add: oa_start_def calm_defs)

text \<open>
  C30: no step of any thread crashes, violates an assertion or follows a null handle, as long as the calls
  of \<open>activate\<close> that do the one off initialization and the calls of \<open>deactivate\<close> that wait for one do not overlap.
\<close>

theorem adapter_no_crash:
  assumes "oa_reachable True env w" and "oa_step True env w f w'"
  shows "f = None"
  using step_single [OF assms(2)] reachable_inv [OF assms(1)] by blast

theorem adapter_no_crash_witness: "crash (deactivateProceed calm_adapter) = None"
proof -
  have "oa_step True calm_env (oa_start calm_adapter) (crash (deactivateProceed calm_adapter))
      (case deactivateProceed calm_adapter of Inr (a, _) \<Rightarrow> (oa_start calm_adapter)\<lparr>w_adapter := a\<rparr> | Inl _ \<Rightarrow> oa_start calm_adapter)"
    using deactivate_now [where w = "oa_start calm_adapter", OF _ _ _ refl, of True calm_env] by (simp add: oa_start_def calm_defs)
  from adapter_no_crash [OF calm_reachable this] show ?thesis .
qed

text \<open>
  C32: two bad interleavings, from any reachable state of any adapter that is not deactivated.  When two
  first calls of \<open>activate\<close> overlap and both are about to end, the one that ends first clears the flag
  both rely on.  If a call of \<open>deactivate\<close> comes then, it does not wait, and the other call violates
  its assertion that the adapter is not deactivated; without the deactivation nothing is violated.
  When two calls of \<open>deactivate\<close> waited for an activation that has ended, and no direct call is under
  way, one of them takes the adapter down; if a call of \<open>waitForDeactivate\<close> runs to its end before the
  other wakes up, that one, which does not look again whether the adapter is deactivated, follows
  the instance handle after it has been cleared.
\<close>

theorem adapter_races:
  assumes "oa_reachable False env w" and "\<not> oa_deactivated (w_adapter w)"
  shows "(\<forall>xs ys zs. w_activating w = xs @ Ready # ys @ Ready # zs \<longrightarrow>
      (\<exists>a1 e1 a2 e2.
        activateEnd (w_adapter w) = Inr (a1, e1) \<and>
        oa_step False env w None (w\<lparr>w_adapter := a1, w_activating := xs @ ys @ Ready # zs\<rparr>) \<and>
        \<not> oa_deactivated a1 \<and> deactivateProceed a1 = Inr (a2, e2) \<and>
        oa_step False env (w\<lparr>w_adapter := a1, w_activating := xs @ ys @ Ready # zs\<rparr>) None
          (w\<lparr>w_adapter := a2, w_activating := xs @ ys @ Ready # zs\<rparr>) \<and>
        activateEnd a2 = Inl AssertionFailed \<and>
        oa_step False env (w\<lparr>w_adapter := a2, w_activating := xs @ ys @ Ready # zs\<rparr>) (Some AssertionFailed)
          (w\<lparr>w_adapter := a2, w_activating := xs @ ys @ zs\<rparr>))) \<and>
    (2 \<le> w_waiting w \<and> \<not> oa_waitForActivate (w_adapter w) \<and> w_direct w = 0 \<longrightarrow>
      (\<exists>a1 e1 a2 e2.
        deactivateProceed (w_adapter w) = Inr (a1, e1) \<and>
        oa_step False env w None (w\<lparr>w_adapter := a1, w_waiting := w_waiting w - 1\<rparr>) \<and>
        oa_step False env (w\<lparr>w_adapter := a1, w_waiting := w_waiting w - 1\<rparr>) None
          (w\<lparr>w_adapter := waitBegin a1, w_waiting := w_waiting w - 1, w_mid := 1\<rparr>) \<and>
        waitMiddle (waitBegin a1) = Inr (a2, e2) \<and>
        oa_step False env (w\<lparr>w_adapter := waitBegin a1, w_waiting := w_waiting w - 1, w_mid := 1\<rparr>) None
          (w\<lparr>w_adapter := a2, w_waiting := w_waiting w - 1, w_mid := 0, w_end := 1\<rparr>) \<and>
        oa_step False env (w\<lparr>w_adapter := a2, w_waiting := w_waiting w - 1, w_mid := 0, w_end := 1\<rparr>) None
          (w\<lparr>w_adapter := fst (waitEnd a2), w_waiting := w_waiting w - 1, w_mid := 0, w_end := 0\<rparr>) \<and>
        deactivateProceed (fst (waitEnd a2)) = Inl NullHandleException \<and>
        oa_step False env (w\<lparr>w_adapter := fst (waitEnd a2), w_waiting := w_waiting w - 1, w_mid := 0, w_end := 0\<rparr>)
          (Some NullHandleException)
          (w\<lparr>w_adapter := fst (waitEnd a2), w_waiting := w_waiting w - 2, w_mid := 0, w_end := 0\<rparr>)))"
proof -
  have inv: "oa_inv w" using reachable_inv [OF assms(1)] by blast
  have "oa_instance (w_adapter w)" using oa_inv_alive [OF inv] assms(2) by (simp add: alive_def)
  then show ?thesis
    using late_activation [OF assms(2)] late_deactivation [OF inv assms(2)] by (intro conjI allI impI) blast+
qed

theorem adapter_races_witness:
  "(\<exists>w w'. oa_reachable False calm_env (w :: (nat, nat, nat) oa_world) \<and> w_activating w = [Ready] \<and>
      oa_step False calm_env w (Some AssertionFailed) w') \<and>
   (\<exists>w w'. oa_reachable False calm_env (w :: (nat, nat, nat) oa_world) \<and> w_waiting w = 1 \<and>
      oa_step False calm_env w (Some NullHandleException) w')"
proof
  let ?w = "race_world activating_adapter [Ready, Ready] 0"
  have "\<not> oa_deactivated (w_adapter ?w)" "w_activating ?w = [] @ Ready # [] @ Ready # []" by (simp_all add: race_world_def calm_defs)
  from adapter_races [OF both_ready this(1)] this(2) obtain a1 a2 where
    1: "oa_step False calm_env ?w None (?w\<lparr>w_adapter := a1, w_activating := [Ready]\<rparr>)" and
    2: "oa_step False calm_env (?w\<lparr>w_adapter := a1, w_activating := [Ready]\<rparr>) None (?w\<lparr>w_adapter := a2, w_activating := [Ready]\<rparr>)" and
    3: "oa_step False calm_env (?w\<lparr>w_adapter := a2, w_activating := [Ready]\<rparr>) (Some AssertionFailed) (?w\<lparr>w_adapter := a2, w_activating := []\<rparr>)"
    by fastforce
  from oa_next [OF oa_next [OF both_ready 1] 2] 3
  show "\<exists>w w'. oa_reachable False calm_env (w :: (nat, nat, nat) oa_world) \<and> w_activating w = [Ready] \<and>
      oa_step False calm_env w (Some AssertionFailed) w'" by fastforce
next
  let ?w = "race_world up_adapter [] 2"
  have w: "\<not> oa_deactivated (w_adapter ?w)" "w_waiting ?w = 2" "\<not> oa_waitForActivate (w_adapter ?w)" "w_direct ?w = 0"
    by (simp_all add: race_world_def calm_defs)
  from adapter_races [OF two_waiting w(1)] w(2-4) obtain a1 a2 where
    1: "oa_step False calm_env ?w None (?w\<lparr>w_adapter := a1, w_waiting := 1\<rparr>)" and
    2: "oa_step False calm_env (?w\<lparr>w_adapter := a1, w_waiting := 1\<rparr>) None (?w\<lparr>w_adapter := waitBegin a1, w_waiting := 1, w_mid := 1\<rparr>)" and
    3: "oa_step False calm_env (?w\<lparr>w_adapter := waitBegin a1, w_waiting := 1, w_mid := 1\<rparr>) None
          (?w\<lparr>w_adapter := a2, w_waiting := 1, w_mid := 0, w_end := 1\<rparr>)" and
    4: "oa_step False calm_env (?w\<lparr>w_adapter := a2, w_waiting := 1, w_mid := 0, w_end := 1\<rparr>) None
          (?w\<lparr>w_adapter := fst (waitEnd a2), w_waiting := 1, w_mid := 0, w_end := 0\<rparr>)" and
    5: "oa_step False calm_env (?w\<lparr>w_adapter := fst (waitEnd a2), w_waiting := 1, w_mid := 0, w_end := 0\<rparr>) (Some NullHandleException)
          (?w\<lparr>w_adapter := fst (waitEnd a2), w_waiting := 0, w_mid := 0, w_end := 0\<rparr>)"
    by auto
  from oa_next [OF oa_next [OF oa_next [OF oa_next [OF two_waiting 1] 2] 3] 4] 5
  show "\<exists>w w'. oa_reachable False calm_env (w :: (nat, nat, nat) oa_world) \<and> w_waiting w = 1 \<and>
      oa_step False calm_env w (Some NullHandleException) w'" by fastforce
qed

section \<open>Going down\<close>

inductive oa_run :: "('e::linorder) adapter_env \<Rightarrow> ('o, 'l, 'e) oa_world \<Rightarrow> ('o, 'l, 'e) oa_world \<Rightarrow> bool" for env where
  run_stop: "oa_run env w w"
| run_step: "oa_step True env w f w1 \<Longrightarrow> oa_run env w1 w2 \<Longrightarrow> oa_run env w w2"

definition is_down :: "('o, 'l, 'e) oa_world \<Rightarrow> bool" where
  "is_down w \<longleftrightarrow> \<not> oa_instance (w_adapter w) \<and> servants (oa_servantManager (w_adapter w)) = Map.empty \<and>
     locators (oa_servantManager (w_adapter w)) = Map.empty \<and> adapter_dtor (w_adapter w) = Inr NoWarning"

lemma reachable_next: "oa_reachable True env w \<Longrightarrow> oa_step True env w f w' \<Longrightarrow> oa_reachable True env w'"
  by (rule oa_next)

text \<open>The last section leads to the end; the section before it leads there, and so does a new call.\<close>

lemma run_then: "oa_step True env w f w1 \<Longrightarrow> \<exists>w'. oa_run env w1 w' \<and> is_down w' \<Longrightarrow> \<exists>w'. oa_run env w w' \<and> is_down w'"
  by (blast intro: run_step)

lemma down_from_end:
  assumes "oa_reachable True env w" and "oa_deactivated (w_adapter w)" and "0 < w_end w"
  shows "\<exists>w'. oa_run env w w' \<and> is_down w'"
proof -
  have inv: "oa_inv w" "single_inv w" using reachable_inv [OF assms(1)] by auto
  let ?w = "w\<lparr>w_adapter := fst (waitEnd (w_adapter w)), w_end := w_end w - 1\<rparr>"
  have "oa_directCount (w_adapter w) = 0" "\<not> oa_waitForActivate (w_adapter w)"
      "servantMapMap (oa_servantManager (w_adapter w)) = []" "locatorMap (oa_servantManager (w_adapter w)) = []"
    using inv assms(2,3) by (auto simp: oa_inv_def single_inv_def Let_def unat_eq_0 split: if_splits)
  then have "is_down ?w" using assms(2) by (auto simp: is_down_def waitEnd_def adapter_dtor_def servants_def locators_def)
  then show ?thesis using wait_end [OF assms(3), of True env] by (blast intro: run_stop run_step)
qed

lemma down_from_mid:
  assumes "oa_reachable True env w" and "oa_deactivated (w_adapter w)" and "0 < w_mid w"
  shows "\<exists>w'. oa_run env w w' \<and> is_down w'"
proof -
  have step: "oa_step True env w (crash (waitMiddle (w_adapter w))) (case waitMiddle (w_adapter w) of
      Inr (a, _) \<Rightarrow> w\<lparr>w_adapter := a, w_mid := w_mid w - 1, w_end := w_end w + 1\<rparr> | Inl _ \<Rightarrow> w)"
    by (rule wait_middle [OF assms(3) refl])
  have "oa_inv w" using reachable_inv [OF assms(1)] by blast
  then have "oa_instance (w_adapter w) \<longrightarrow> sm_instance (oa_servantManager (w_adapter w))"
    using assms(3) by (auto simp: oa_inv_def Let_def split: if_splits)
  then obtain a evs where m: "waitMiddle (w_adapter w) = Inr (a, evs)" "oa_deactivated a = oa_deactivated (w_adapter w)"
    by (cases "oa_instance (w_adapter w)") (auto simp: waitMiddle_def Let_def servantManager_destroy_def)
  show ?thesis
    by (rule run_then [OF step down_from_end]) (use reachable_next [OF assms(1) step] m assms(2) in simp_all)
qed

lemma down_from_idle:
  assumes "oa_reachable True env w" and "oa_deactivated (w_adapter w)" and "w_mid w = 0" "w_end w = 0" and "w_direct w = 0"
  shows "\<exists>w'. oa_run env w w' \<and> is_down w'"
proof -
  have "oa_inv w" using reachable_inv [OF assms(1)] by blast
  then have "waitEnabled (w_adapter w)"
    using assms sint_pos_iff [of "oa_directCount (w_adapter w)"] by (auto simp: waitEnabled_def oa_inv_def Let_def split: if_splits)
  from wait_begin [OF this, of True env] show ?thesis
    by (rule run_then) (rule down_from_mid, use reachable_next [OF assms(1) wait_begin [OF \<open>waitEnabled (w_adapter w)\<close>]] assms(2)
        in \<open>simp_all add: waitBegin_def\<close>)
qed

lemma down_from_direct:
  "oa_reachable True env w \<Longrightarrow> oa_deactivated (w_adapter w) \<Longrightarrow> w_mid w = 0 \<Longrightarrow> w_end w = 0 \<Longrightarrow> \<exists>w'. oa_run env w w' \<and> is_down w'"
proof (induction "w_direct w" arbitrary: w)
  case 0
  then show ?case using down_from_idle [of env w] by simp
next
  case (Suc n)
  have step: "oa_step True env w (crash (decDirectCount (w_adapter w))) (case decDirectCount (w_adapter w) of
      Inr a \<Rightarrow> w\<lparr>w_adapter := a, w_direct := w_direct w - 1\<rparr> | Inl _ \<Rightarrow> w)"
    by (rule direct_end [OF refl]) (use Suc.hyps(2) in simp)
  have "oa_inv w" using reachable_inv [OF Suc.prems(1)] by blast
  then obtain a where a: "decDirectCount (w_adapter w) = Inr a" "oa_deactivated a = oa_deactivated (w_adapter w)"
    using Suc.hyps(2) sint_pos_iff [of "oa_directCount (w_adapter w)"]
    by (auto simp: decDirectCount_def oa_inv_def Let_def split: if_splits)
  have "\<exists>w'. oa_run env (w\<lparr>w_adapter := a, w_direct := w_direct w - 1\<rparr>) w' \<and> is_down w'"
    by (rule Suc.hyps(1)) (use reachable_next [OF Suc.prems(1) step] a Suc in simp_all)
  then show ?case using run_then [OF step] a by simp
qed

text \<open>
  C33: a deactivated adapter can always be taken down.  From every state that non-overlapping calls can
  reach after a deactivation, whoever is still in a direct call or in \<open>waitForDeactivate\<close>, there are steps of
  those threads and of one that waits to a state in which the servant manager is empty, the handles
  are cleared and the destructor finds nothing to complain about.
\<close>

theorem adapter_goes_down:
  assumes "oa_reachable True env w" and "oa_deactivated (w_adapter w)"
  shows "\<exists>w'. oa_run env w w' \<and> is_down w'"
  using down_from_end [OF assms] down_from_mid [OF assms] down_from_direct [OF assms] by blast

theorem adapter_goes_down_witness:
  "\<exists>w'. oa_run calm_env ((oa_start calm_adapter)\<lparr>w_adapter := calm_adapter\<lparr>oa_deactivated := True\<rparr>\<rparr>) w' \<and> is_down w'"
proof (rule adapter_goes_down)
  show "oa_reachable True calm_env ((oa_start calm_adapter)\<lparr>w_adapter := calm_adapter\<lparr>oa_deactivated := True\<rparr>\<rparr>)"
    by (rule reach [OF calm_reachable], rule deactivate_now [OF _ _ _ refl])
       (auto simp: oa_start_def deactivateProceed_def calm_defs)
qed simp

section \<open>A constructor that fails\<close>

lemma deactivateFinish_total:
  "\<exists>calls. deactivateFinish env reg fresh li fs a = Inr (map FactoryDestroy fs @ [RemoveAdapter], calls)"
proof -
  have "crash (fst (registerAdapter reg None a)) = None" by (rule registerAdapter_no_crash)
  then show ?thesis
    by (auto simp: deactivateFinish_def updateLocatorRegistry_def Let_def split: sum.splits prod.splits failure.splits)
qed

lemma teardown_unused:
  assumes "unused env nm a"
  shows "\<exists>a' evs. teardown env reg fresh a = Inr (a', (if oa_routerInfo a then [RouterErased] else []) @
      map FactoryDestroy (oa_factories a) @ [RemoveAdapter] @ map FactoryWaitUntilFinished (oa_factories a) @ evs)"
proof -
  obtain calls where "deactivateFinish env reg fresh (oa_locatorInfo a) (oa_factories a) (a\<lparr>oa_deactivated := True\<rparr>) =
      Inr (map FactoryDestroy (oa_factories a) @ [RemoveAdapter], calls)" using deactivateFinish_total by metis
  then show ?thesis using assms
    by (auto simp: teardown_def adapter_deactivate_def deactivateProceed_def adapter_waitForDeactivate_def waitMiddle_def waitBegin_def
        waitEnd_def servantManager_destroy_def servant_manager_new_def unused_def Let_def)
qed

text \<open>
  A constructor that throws takes down what it has built: the factories made so far are destroyed and
  waited for.  A second adapter for a router is refused this way, and because the check comes after
  \<open>_routerInfo\<close> is set, taking it down erases the router's entry, which belongs to the first adapter.
\<close>

lemma constructor_failure:
  fixes a :: "('o, 'l, 'e::linorder) adapter"
  assumes "adapter_setup env nm info router = (Inl f, a)"
  shows "\<exists>evs. (adapter_new env reg fresh nm info router :: (failure + ('o, 'l, 'e) adapter) \<times> ('l, 'e) adapter_event list) =
      (Inl f, (if oa_routerInfo a then [RouterErased] else []) @ map FactoryDestroy (oa_factories a) @ [RemoveAdapter] @
        map FactoryWaitUntilFinished (oa_factories a) @ evs)"
proof -
  have "unused env nm a" using setup_unused [of env nm info router] assms by (metis snd_conv)
  from teardown_unused [OF this, of reg fresh] show ?thesis using assms by (auto simp: adapter_new_def)
qed

lemma second_adapter_erases_router:
  assumes "router_adapter r"
  shows "\<exists>evs. adapter_new env reg fresh nm info (Some r) =
    (throw (AlreadyRegisteredException ''object adapter with router'' (router_name r)), RouterErased # evs)"
proof -
  have "adapter_setup env nm info (Some r) =
      (throw (AlreadyRegisteredException ''object adapter with router'' (router_name r)), (adapter_init env nm)\<lparr>oa_routerInfo := True\<rparr>)"
    using assms by (simp add: adapter_setup_def pickRouter_def useRouter_def oa_then_def Let_def)
  from constructor_failure [OF this, of reg fresh] show ?thesis by auto
qed

section \<open>The adapter as a registry\<close>

text \<open>
  An adapter that is not deactivated keeps the contract of a servant registry for identities with a
  name: what it looks up is what its servant manager has.
\<close>

definition adapter_look :: "('o, 'l, 'e) adapter \<Rightarrow> identity \<times> string \<Rightarrow> 'o option" where
  "adapter_look a = manager_look (oa_servantManager a)"

definition serving :: "('o, 'l, 'e) adapter \<Rightarrow> bool" where
  "serving a \<longleftrightarrow> \<not> oa_deactivated a \<and> alive a"

lemma serving_manager:
  "serving a \<Longrightarrow> manager_ok (oa_servantManager a) \<and> sm_instance (oa_servantManager a)"
  by (simp add: serving_def alive_def)

lemma guarded_serving: "serving a \<Longrightarrow> name ident \<noteq> [] \<Longrightarrow> guarded ident a k = k ()"
  by (simp add: serving_def guarded_def checkForDeactivation_def checkIdentity_def)

lemma serving_update:
  "serving a \<Longrightarrow> manager_ok sm \<Longrightarrow> sm_instance sm \<Longrightarrow> serving (a\<lparr>oa_servantManager := sm\<rparr>)"
  by (simp add: serving_def alive_def)

lemma addFacet_serving:
  assumes "serving a" and "name ident \<noteq> []"
  shows "andThen (addFacet obj ident facet a) (\<lambda>(_, a'). Inr a') =
    andThen (addServant obj ident facet (oa_servantManager a)) (\<lambda>sm. Inr (a\<lparr>oa_servantManager := sm\<rparr>))"
proof -
  have "\<exists>p. newProxy ident facet (a\<lparr>oa_servantManager := sm\<rparr>) = Inr p" for sm
    using assms by (intro newProxy_ok) (simp add: serving_def alive_def)
  then show ?thesis unfolding addFacet_def guarded_serving [OF assms] andThen_assoc
    by (intro andThen_cong [OF refl]) (metis (no_types, lifting) andThen_Inr case_prod_conv)
qed

interpretation adapter_registry:
  servant_registry "\<lambda>(ident, facet). name ident \<noteq> []" serving adapter_look
    "\<lambda>obj (ident, facet) a. andThen (addFacet obj ident facet a) (\<lambda>(_, a'). Inr a')"
    "\<lambda>(ident, facet). removeFacet ident facet" "\<lambda>(ident, facet). findFacet ident facet"
proof (unfold_locales, goal_cases)
  case (1 k a x)
  then show ?case
    using active_servants.add_new [of "oa_servantManager a" k x] serving_manager [of a]
    by (cases k) (auto simp: adapter_look_def addFacet_serving serving_update)
next
  case (2 k a x)
  then show ?case
    using active_servants.add_dup [of "oa_servantManager a" k x] serving_manager [of a]
    by (cases k) (auto simp: adapter_look_def addFacet_serving)
next
  case (3 k a x)
  then show ?case
    using active_servants.remove_present [of "oa_servantManager a" k x] serving_manager [of a]
    by (cases k) (auto simp: adapter_look_def removeFacet_def guarded_serving onManager_def serving_update)
next
  case (4 k a)
  then show ?case
    using active_servants.find_answer [of "oa_servantManager a" k] serving_manager [of a]
    by (cases k) (auto simp: adapter_look_def findFacet_def guarded_serving onManager_def serving_update)
qed

end
