(* ===== verification/AdapterFactory.thy ===== *)
theory AdapterFactory imports AdapterProps begin

text \<open>
  The adapters of a communicator, \<^verbatim>\<open>src/Ice-3.1.1/src/Ice/ObjectAdapterFactory.cpp\<close>: creating, finding and
  removing them by name, and taking all of them down.  \<open>shutdown\<close> and \<open>waitForShutdown\<close> are modelled for a
  thread that finds the adapters at rest, that is with no thread inside \<open>activate\<close>,
  \<open>waitForDeactivate\<close> or a direct call; what several threads do to one adapter is
  \<open>oa_step\<close>.
\<close>

section \<open>Model\<close>

record ('o, 'l, 'e) adapter_factory =
  af_instance :: bool
  af_communicator :: bool
  af_adapters :: "(string, ('o, 'l, 'e) adapter) smap"
  af_waitForShutdown :: bool

definition adapter_factory_new :: "('o, 'l, 'e) adapter_factory" where
  "adapter_factory_new = \<lparr>af_instance = True, af_communicator = True, af_adapters = [], af_waitForShutdown = False\<rparr>"

text \<open>
  The constructor of a refused adapter removes its name again, which is not in the map then.
\<close>

definition createObjectAdapter ::
  "('e::linorder) adapter_env \<Rightarrow> 'e registry \<Rightarrow> string \<times> 'o \<Rightarrow> string \<Rightarrow> string \<Rightarrow> 'e router option \<Rightarrow> ('o, 'l, 'e) adapter_factory
     \<Rightarrow> failure + ('o, 'l, 'e) adapter_factory" where
  "createObjectAdapter env reg fresh nm endpoints router fac =
     (if \<not> af_instance fac then throw (ObjectAdapterDeactivatedException [])
      else if sm_find nm (af_adapters fac) \<noteq> None then throw (AlreadyRegisteredException ''object adapter'' nm)
      else case fst (adapter_new env reg fresh nm endpoints router) of
             Inl f \<Rightarrow> Inl f
           | Inr a \<Rightarrow> Inr (fac\<lparr>af_adapters := sm_insert nm a (af_adapters fac)\<rparr>))"

fun findLocal :: "('e \<Rightarrow> 'e \<Rightarrow> bool) \<Rightarrow> bool \<Rightarrow> 'e reference \<Rightarrow> (string, ('o, 'l, 'e) adapter) smap \<Rightarrow> failure + string option" where
  "findLocal equivalent sameRouter r [] = Inr None"
| "findLocal equivalent sameRouter r ((nm, a) # as) =
     (case isLocal equivalent sameRouter r a of
        Inr True \<Rightarrow> Inr (Some nm)
      | Inr False \<Rightarrow> findLocal equivalent sameRouter r as
      | Inl (Thrown (ObjectAdapterDeactivatedException _)) \<Rightarrow> findLocal equivalent sameRouter r as
      | Inl f \<Rightarrow> Inl f)"

definition findObjectAdapter ::
  "('e \<Rightarrow> 'e \<Rightarrow> bool) \<Rightarrow> bool \<Rightarrow> 'e reference \<Rightarrow> ('o, 'l, 'e) adapter_factory \<Rightarrow> failure + string option" where
  "findObjectAdapter equivalent sameRouter r fac =
     (if \<not> af_instance fac then Inr None else findLocal equivalent sameRouter r (af_adapters fac))"

definition removeObjectAdapter :: "string \<Rightarrow> ('o, 'l, 'e) adapter_factory \<Rightarrow> ('o, 'l, 'e) adapter_factory" where
  "removeObjectAdapter nm fac =
     (if af_waitForShutdown fac then fac else fac\<lparr>af_adapters := sm_erase nm (af_adapters fac)\<rparr>)"

text \<open>A call on every adapter, in the order of the map.\<close>

fun forAdapters ::
  "(('o, 'l, 'e) adapter \<Rightarrow> failure + ('o, 'l, 'e) adapter \<times> ('l, 'e) adapter_event list)
     \<Rightarrow> (string, ('o, 'l, 'e) adapter) smap \<Rightarrow> failure + (string, ('o, 'l, 'e) adapter) smap" where
  "forAdapters f [] = Inr []"
| "forAdapters f ((nm, a) # as) =
     andThen (f a) (\<lambda>(a', _). andThen (forAdapters f as) (\<lambda>as'. Inr ((nm, a') # as')))"

definition factory_shutdown ::
  "'e adapter_env \<Rightarrow> 'e registry \<Rightarrow> string \<times> 'o \<Rightarrow> ('o, 'l, 'e) adapter_factory \<Rightarrow> failure + ('o, 'l, 'e) adapter_factory" where
  "factory_shutdown env reg fresh fac =
     (if \<not> af_instance fac then Inr fac
      else andThen (forAdapters (adapter_deactivate env reg fresh) (af_adapters fac)) (\<lambda>as.
             Inr (fac\<lparr>af_instance := False, af_communicator := False, af_adapters := as\<rparr>)))"

text \<open>\<open>waitForShutdown\<close> from the moment its two waits are over.\<close>

definition factory_waitForShutdown :: "('o, 'l, 'e) adapter_factory \<Rightarrow> failure + ('o, 'l, 'e) adapter_factory" where
  "factory_waitForShutdown fac =
     andThen (forAdapters adapter_waitForDeactivate (af_adapters (fac\<lparr>af_waitForShutdown := True\<rparr>))) (\<lambda>_.
       Inr (fac\<lparr>af_adapters := [], af_waitForShutdown := False\<rparr>))"

definition factory_dtor :: "('o, 'l, 'e) adapter_factory \<Rightarrow> failure + unit" where
  "factory_dtor fac =
     (if af_instance fac \<or> af_communicator fac \<or> af_adapters fac \<noteq> [] \<or> af_waitForShutdown fac
      then Inl AssertionFailed else Inr ())"

section \<open>Shutting down\<close>

text \<open>An adapter at rest.\<close>

definition resting :: "('o, 'l, 'e) adapter \<Rightarrow> bool" where
  "resting a \<longleftrightarrow> (sm_instance (oa_servantManager a) \<longleftrightarrow> oa_instance a) \<and> (oa_deactivated a \<or> oa_instance a) \<and>
     \<not> oa_waitForActivate a \<and> \<not> oa_waitForDeactivate a \<and> oa_directCount a = 0"

lemma resting_deactivates:
  assumes "resting a"
  shows "\<exists>a' evs. adapter_deactivate env reg fresh a = Inr (a', evs) \<and> resting a' \<and> oa_deactivated a'"
proof (cases "oa_deactivated a")
  case True
  then show ?thesis using assms by (simp add: adapter_deactivate_def)
next
  case False
  obtain calls where "deactivateFinish env reg fresh (oa_locatorInfo a) (oa_factories a) (a\<lparr>oa_deactivated := True\<rparr>) =
      Inr (map FactoryDestroy (oa_factories a) @ [RemoveAdapter], calls)" using deactivateFinish_total by metis
  then show ?thesis using assms False by (auto simp: adapter_deactivate_def deactivateProceed_def resting_def)
qed

lemma resting_waits:
  assumes "resting a" and "oa_deactivated a"
  shows "\<exists>a' evs. adapter_waitForDeactivate a = Inr (a', evs) \<and> adapter_dtor a' = Inr NoWarning \<and> waitEnabled a"
  using assms
  by (cases "oa_instance a")
     (auto simp: resting_def adapter_waitForDeactivate_def waitMiddle_def waitBegin_def waitEnd_def servantManager_destroy_def
       adapter_dtor_def waitEnabled_def Let_def)

lemma forAdapters_all:
  assumes "\<And>a. P a \<Longrightarrow> \<exists>a' evs. f a = Inr (a', evs) \<and> Q a'" and "\<forall>(nm, a) \<in> set as. P a"
  shows "\<exists>as'. forAdapters f as = Inr as' \<and> (\<forall>(nm, a) \<in> set as'. Q a) \<and> map fst as' = map fst as"
  using assms(2)
proof (induction as)
  case Nil
  then show ?case by simp
next
  case (Cons p as)
  obtain nm a where p: "p = (nm, a)" by (cases p)
  obtain a' evs where "f a = Inr (a', evs)" "Q a'" using assms(1) [of a] Cons.prems p by auto
  moreover obtain as' where "forAdapters f as = Inr as'" "\<forall>(nm, a) \<in> set as'. Q a" "map fst as' = map fst as"
    using Cons by auto
  ultimately show ?case using p by auto
qed

text \<open>
  A communicator goes down cleanly.  When its adapters are at rest, \<open>shutdown\<close> deactivates all of
  them, after which none is created or found, and \<open>waitForShutdown\<close> takes all of them down, so that
  the destructor's assertions hold; a second \<open>shutdown\<close> changes nothing.
\<close>

lemma factory_goes_down:
  assumes "af_instance fac" and "\<not> af_waitForShutdown fac" and "\<forall>(nm, a) \<in> set (af_adapters fac). resting a"
  shows "\<exists>fac1 fac2. factory_shutdown env reg fresh fac = Inr fac1 \<and> factory_waitForShutdown fac1 = Inr fac2 \<and>
    (\<forall>(nm, a) \<in> set (af_adapters fac1). oa_deactivated a) \<and> map fst (af_adapters fac1) = map fst (af_adapters fac) \<and>
    factory_shutdown env reg fresh fac1 = Inr fac1 \<and>
    createObjectAdapter env' reg' fresh' nm endpoints router fac1 = throw (ObjectAdapterDeactivatedException []) \<and>
    findObjectAdapter equivalent sameRouter r fac1 = Inr None \<and>
    factory_dtor fac2 = Inr ()"
proof -
  obtain as1 where as1: "forAdapters (adapter_deactivate env reg fresh) (af_adapters fac) = Inr as1"
      "\<forall>(nm, a) \<in> set as1. resting a \<and> oa_deactivated a" "map fst as1 = map fst (af_adapters fac)"
    using forAdapters_all [where P = resting and Q = "\<lambda>a. resting a \<and> oa_deactivated a" and f = "adapter_deactivate env reg fresh", OF _ assms(3)]
      resting_deactivates by blast
  let ?fac1 = "fac\<lparr>af_instance := False, af_communicator := False, af_adapters := as1\<rparr>"
  obtain as2 where "forAdapters adapter_waitForDeactivate as1 = Inr as2"
    using forAdapters_all [where P = "\<lambda>a. resting a \<and> oa_deactivated a" and Q = "\<lambda>_. True" and f = adapter_waitForDeactivate, OF _ as1(2)]
      resting_waits by blast
  then have "factory_waitForShutdown ?fac1 = Inr (?fac1\<lparr>af_adapters := [], af_waitForShutdown := False\<rparr>)"
    by (simp add: factory_waitForShutdown_def)
  then show ?thesis using assms(1,2) as1
    by (auto simp: factory_shutdown_def createObjectAdapter_def findObjectAdapter_def factory_dtor_def)
qed

lemma calm_resting: "resting calm_adapter"
  by (simp add: resting_def calm_defs servant_manager_new_def)

lemma factory_goes_down_witness:
  "\<exists>fac1 fac2. factory_shutdown calm_env deaf_registry ([], 0) (adapter_factory_new\<lparr>af_adapters := [(''A'', calm_adapter)]\<rparr>) = Inr fac1 \<and>
     factory_waitForShutdown fac1 = Inr fac2 \<and> factory_dtor fac2 = Inr ()"
  using factory_goes_down [of "adapter_factory_new\<lparr>af_adapters := [(''A'', calm_adapter)]\<rparr>" calm_env deaf_registry "([], 0)"
      calm_env deaf_registry "([], 0)" "[]" "[]" None "(=)" False "DirectRef []"] calm_resting
  unfolding adapter_factory_new_def by simp blast

end
