(* ===== verification/Properties.thy ===== *)
theory Properties imports StringUtil StdMap LocalException begin

text \<open>
  The configuration of a communicator, \<^verbatim>\<open>src/Ice-3.1.1/src/Ice/PropertiesI.cpp\<close>: a map from keys to values, the
  syntax of a line, command line options and configuration files.  The table of known properties, the
  files and the environment are parameters; \<open>conv\<close> is the string converter's \<open>fromUTF8\<close> on
  characters, if one is installed.
\<close>

section \<open>Model\<close>

type_synonym properties = "(string, string) smap"

definition getProperty :: "string \<Rightarrow> properties \<Rightarrow> string" where
  "getProperty key ps = (case sm_find key ps of Some v \<Rightarrow> v | None \<Rightarrow> [])"

definition getPropertyWithDefault :: "string \<Rightarrow> string \<Rightarrow> properties \<Rightarrow> string" where
  "getPropertyWithDefault key v ps = (case sm_find key ps of Some v' \<Rightarrow> v' | None \<Rightarrow> v)"

text \<open>White space of the C locale, and \<open>operator>>\<close> for an \<open>Ice::Int\<close>: the value and what is left, if it succeeds.\<close>

definition isspace :: "char \<Rightarrow> bool" where
  "isspace c \<longleftrightarrow> c \<in> {CHR '' '', CHR 0x09, CHR 0x0A, CHR 0x0B, CHR 0x0C, CHR 0x0D}"

definition isdigit :: "char \<Rightarrow> bool" where
  "isdigit c \<longleftrightarrow> 48 \<le> (of_char c :: nat) \<and> (of_char c :: nat) \<le> 57"

definition digits_value :: "string \<Rightarrow> int" where
  "digits_value ds = foldl (\<lambda>n c. 10 * n + (of_char c - 48)) 0 ds"

definition scan_int :: "string \<Rightarrow> (int \<times> string) option" where
  "scan_int s =
     (let t = dropWhile isspace s;
          neg = (t \<noteq> [] \<and> hd t = CHR ''-'');
          r = (if t \<noteq> [] \<and> (hd t = CHR ''-'' \<or> hd t = CHR ''+'') then tl t else t);
          ds = takeWhile isdigit r;
          v = (if neg then - digits_value ds else digits_value ds)
      in if ds = [] \<or> v < - 2147483648 \<or> 2147483647 < v then None else Some (v, dropWhile isdigit r))"

definition getPropertyAsIntWithDefault :: "string \<Rightarrow> int \<Rightarrow> properties \<Rightarrow> int" where
  "getPropertyAsIntWithDefault key v ps =
     (case sm_find key ps of
        None \<Rightarrow> v
      | Some s \<Rightarrow> (case scan_int s of None \<Rightarrow> 0 | Some (n, rest) \<Rightarrow> if rest \<noteq> [] then 0 else n))"

definition getPropertyAsInt :: "string \<Rightarrow> properties \<Rightarrow> int" where
  "getPropertyAsInt key = getPropertyAsIntWithDefault key 0"

definition getPropertiesForPrefix :: "string \<Rightarrow> properties \<Rightarrow> properties" where
  "getPropertiesForPrefix prefix ps = filter (\<lambda>(k, v). prefix = [] \<or> take (length prefix) k = prefix) ps"

text \<open>
  The check of a key against the table of known properties, one list of patterns for every prefix; the result
  is the number of warnings.
\<close>

fun matchAny :: "string \<Rightarrow> string list \<Rightarrow> failure + bool" where
  "matchAny key [] = Inr False"
| "matchAny key (j # js) = andThen (match key j False) (\<lambda>found. if found then Inr True else matchAny key js)"

fun unknownWarnings :: "string list list \<Rightarrow> string \<Rightarrow> string \<Rightarrow> failure + nat" where
  "unknownWarnings [] prefix key = Inr 0"
| "unknownWarnings (i # is) prefix key =
     (case i of
        [] \<Rightarrow> Inl MemoryFault
      | pattern # _ \<Rightarrow>
          (case str_find (\<lambda>c. c = CHR ''.'') pattern 0 of
             None \<Rightarrow> Inl AssertionFailed
           | Some dotPos \<Rightarrow>
               if take dotPos pattern \<noteq> prefix then unknownWarnings is prefix key
               else andThen (matchAny key i) (\<lambda>found. andThen (unknownWarnings is prefix key) (\<lambda>n.
                      Inr (if found then n else n + 1)))))"

text \<open>Every operation that sets properties also returns the number of warnings it prints.\<close>

type_synonym 'a setter = "properties \<Rightarrow> failure + 'a \<times> properties \<times> nat"

definition setProperty :: "string list list \<Rightarrow> string \<Rightarrow> string \<Rightarrow> unit setter" where
  "setProperty valid key v ps =
     (if key = [] then Inr ((), ps, 0)
      else andThen
             (case str_find (\<lambda>c. c = CHR ''.'') key 0 of
                None \<Rightarrow> Inr 0
              | Some dotPos \<Rightarrow> unknownWarnings valid (take dotPos key) key) (\<lambda>n.
           Inr ((), if v \<noteq> [] then (if sm_find key ps = None then sm_insert key v ps else sm_update key v ps)
                    else sm_erase key ps, n)))"

definition getCommandLineOptions :: "properties \<Rightarrow> string list" where
  "getCommandLineOptions ps = map (\<lambda>(k, v). ''--'' @ k @ ''='' @ v) ps"

definition is_blank :: "char \<Rightarrow> bool" where
  "is_blank c \<longleftrightarrow> c \<in> {CHR '' '', CHR 0x09, CHR 0x0D, CHR 0x0A}"

text \<open>The key and the value of a line, if it has both a key and an equals sign.\<close>

definition splitLine :: "string \<Rightarrow> (string \<times> string) option" where
  "splitLine line =
     (let s1 = (case str_find (\<lambda>c. c = CHR ''#'') line 0 of Some idx \<Rightarrow> take idx line | None \<Rightarrow> line);
          s = (case str_rfind (\<lambda>c. \<not> is_blank c) s1 of
                 Some idx \<Rightarrow> if idx + 1 < length s1 then take (idx + 1) s1 else s1
               | None \<Rightarrow> s1)
      in case str_find (\<lambda>c. \<not> is_blank c) s 0 of
           None \<Rightarrow> None
         | Some beg \<Rightarrow>
             (case str_find (\<lambda>c. is_blank c \<or> c = CHR ''='') s beg of
                None \<Rightarrow> None
              | Some fin \<Rightarrow>
                  (case str_find (\<lambda>c. c = CHR ''='') s fin of
                     None \<Rightarrow> None
                   | Some eq \<Rightarrow>
                       Some (take (fin - beg) (drop beg s),
                             case str_find (\<lambda>c. \<not> is_blank c) s (eq + 1) of
                               None \<Rightarrow> []
                             | Some beg' \<Rightarrow> drop beg' s))))"

definition converted :: "(string \<Rightarrow> failure + string) option \<Rightarrow> string \<Rightarrow> failure + string" where
  "converted conv s = (case conv of None \<Rightarrow> Inr s | Some f \<Rightarrow> f s)"

definition parseLine :: "string list list \<Rightarrow> (string \<Rightarrow> failure + string) option \<Rightarrow> string \<Rightarrow> unit setter" where
  "parseLine valid conv line ps =
     (case splitLine line of
        None \<Rightarrow> Inr ((), ps, 0)
      | Some (key, v) \<Rightarrow>
          andThen (converted conv key) (\<lambda>key'. andThen (converted conv v) (\<lambda>v'. setProperty valid key' v' ps)))"

text \<open>Doing one setter after another: the warnings add up.\<close>

definition sbind :: "'a setter \<Rightarrow> ('a \<Rightarrow> 'b setter) \<Rightarrow> 'b setter" where
  "sbind m f ps = andThen (m ps) (\<lambda>(x, ps1, n1). andThen (f x ps1) (\<lambda>(y, ps2, n2). Inr (y, ps2, n1 + n2)))"

definition sret :: "'a \<Rightarrow> 'a setter" where
  "sret x ps = Inr (x, ps, 0)"

fun optionLoop :: "string list list \<Rightarrow> string \<Rightarrow> string list \<Rightarrow> string list setter" where
  "optionLoop valid pfx [] = sret []"
| "optionLoop valid pfx (opt # opts) =
     (if take (length pfx) opt = pfx then
        sbind (parseLine valid None (drop 2 (if CHR ''='' \<notin> set opt then opt @ ''=1'' else opt))) (\<lambda>_. optionLoop valid pfx opts)
      else sbind (optionLoop valid pfx opts) (\<lambda>result. sret (opt # result)))"

definition parseCommandLineOptions :: "string list list \<Rightarrow> string \<Rightarrow> string list \<Rightarrow> string list setter" where
  "parseCommandLineOptions valid prefix options =
     optionLoop valid (''--'' @ (if prefix \<noteq> [] \<and> last prefix \<noteq> CHR ''.'' then prefix @ ''.'' else prefix)) options"

fun parseIceCommandLineOptions :: "string list list \<Rightarrow> string list \<Rightarrow> string list \<Rightarrow> string list setter" where
  "parseIceCommandLineOptions valid [] args = sret args"
| "parseIceCommandLineOptions valid (i # is) args =
     sbind (parseCommandLineOptions valid i args) (parseIceCommandLineOptions valid is)"

text \<open>
  The lines that \<open>getline(line, 1024)\<close> yields: it succeeds on a line of up to 1023 characters, with or without a
  line feed behind it, and fails on a longer one and on the empty rest of the file.
\<close>

function config_lines :: "string \<Rightarrow> string list" where
  "config_lines content =
     (if content = [] \<or> 1023 < length (takeWhile (\<lambda>c. c \<noteq> CHR 0x0A) content) then []
      else takeWhile (\<lambda>c. c \<noteq> CHR 0x00) (takeWhile (\<lambda>c. c \<noteq> CHR 0x0A) content) #
           config_lines (drop (Suc (length (takeWhile (\<lambda>c. c \<noteq> CHR 0x0A) content))) content))"
  by pat_completeness auto
termination
  by (relation "measure length") auto

declare config_lines.simps [simp del]

fun parseLines :: "string list list \<Rightarrow> (string \<Rightarrow> failure + string) option \<Rightarrow> string list \<Rightarrow> unit setter" where
  "parseLines valid conv [] = sret ()"
| "parseLines valid conv (l # ls) = sbind (parseLine valid conv l) (\<lambda>_. parseLines valid conv ls)"

definition load :: "string list list \<Rightarrow> (string \<Rightarrow> failure + string) option \<Rightarrow> (string \<Rightarrow> string option) \<Rightarrow> string \<Rightarrow> unit setter" where
  "load valid conv files file ps =
     (case files file of
        None \<Rightarrow> throw (FileException file)
      | Some content \<Rightarrow> parseLines valid conv (config_lines content) ps)"

text \<open>\<open>loadConfig\<close>: the file names between commas, and the whole function.\<close>

lemma next_later:
  assumes "str_find (\<lambda>c. c = CHR '','') v beg = Some fin" and "str_find (\<lambda>c. \<not> (is_blank c \<or> c = CHR '','')) v fin = Some beg'"
  shows "length v - beg' < length v - beg"
proof -
  have "beg \<le> fin" "v ! fin = CHR '',''" using str_find_SomeD [OF assms(1)] by auto
  moreover have "fin \<le> beg'" "beg' < length v" "v ! beg' \<noteq> CHR '',''" using str_find_SomeD [OF assms(2)] by auto
  ultimately show ?thesis by (cases "fin = beg'") auto
qed

function configFiles :: "string \<Rightarrow> nat option \<Rightarrow> string list" where
  "configFiles v None = []"
| "configFiles v (Some beg) =
     (case str_find (\<lambda>c. c = CHR '','') v beg of
        None \<Rightarrow> [drop beg v]
      | Some fin \<Rightarrow> take (fin - beg) (drop beg v) # configFiles v (str_find (\<lambda>c. \<not> (is_blank c \<or> c = CHR '','')) v fin))"
  by pat_completeness auto
termination
  by (relation "measure (\<lambda>(v, b). case b of None \<Rightarrow> 0 | Some beg \<Rightarrow> Suc (length v - beg))")
     (auto split: option.splits dest!: next_later)

fun loadAll ::
  "string list list \<Rightarrow> (string \<Rightarrow> failure + string) option \<Rightarrow> (string \<Rightarrow> string option) \<Rightarrow> string list \<Rightarrow> unit setter" where
  "loadAll valid conv files [] = sret ()"
| "loadAll valid conv files (f # fs) = sbind (load valid conv files f) (\<lambda>_. loadAll valid conv files fs)"

definition loadConfigFrom ::
  "string list list \<Rightarrow> (string \<Rightarrow> failure + string) option \<Rightarrow> (string \<Rightarrow> string option) \<Rightarrow> string \<Rightarrow> unit setter" where
  "loadConfigFrom valid conv files v =
     sbind (if v \<noteq> [] then loadAll valid conv files (configFiles v (str_find (\<lambda>c. \<not> is_blank c) v 0)) else sret ())
       (\<lambda>_. setProperty valid ''Ice.Config'' v)"

definition loadConfig ::
  "string list list \<Rightarrow> (string \<Rightarrow> failure + string) option \<Rightarrow> (string \<Rightarrow> string option) \<Rightarrow> string option \<Rightarrow> unit setter" where
  "loadConfig valid conv files ice_config ps =
     (let v0 = getProperty ''Ice.Config'' ps;
          v = (if v0 = [] \<or> v0 = ''1'' then (case ice_config of Some s \<Rightarrow> if s \<noteq> [] then s else v0 | None \<Rightarrow> v0) else v0)
      in loadConfigFrom valid conv files v ps)"

text \<open>The constructor: the remaining arguments and the properties.\<close>

fun configArgs :: "string list list \<Rightarrow> string list \<Rightarrow> (string list \<times> bool) setter" where
  "configArgs valid [] = sret ([], False)"
| "configArgs valid (s # args) =
     (if take 12 s = ''--Ice.Config'' then
        sbind (parseLine valid None (drop 2 (if CHR ''='' \<notin> set s then s @ ''=1'' else s))) (\<lambda>_.
          sbind (configArgs valid args) (\<lambda>(tmp, _). sret (tmp, True)))
      else sbind (configArgs valid args) (\<lambda>(tmp, seen). sret (s # tmp, seen)))"

definition properties_new ::
  "string list list \<Rightarrow> (string \<Rightarrow> failure + string) option \<Rightarrow> (string \<Rightarrow> string option) \<Rightarrow> string option \<Rightarrow> string list
     \<Rightarrow> string list \<Rightarrow> string list setter" where
  "properties_new valid conv files ice_config clPropNames args =
     sbind (case args of
              [] \<Rightarrow> sret ()
            | nm # _ \<Rightarrow> setProperty valid ''Ice.ProgramName'' (map (\<lambda>c. if c = BSLASH then CHR ''/'' else c) nm)) (\<lambda>_.
     sbind (configArgs valid args) (\<lambda>(tmp, seen).
     sbind (\<lambda>ps. if seen \<or> sm_find ''Ice.Config'' ps = None then loadConfig valid conv files ice_config ps else sret () ps) (\<lambda>_.
       parseIceCommandLineOptions valid clPropNames tmp)))"

section \<open>Keys and values that survive\<close>

lemma find_idx_append_none: "(\<forall>x \<in> set xs. \<not> P x) \<Longrightarrow> find_idx P (xs @ ys) = map_option (\<lambda>k. k + length xs) (find_idx P ys)"
  by (induction xs) (auto simp: option.map_comp comp_def option.map_ident)

text \<open>A key or a value that the line syntax does not touch.\<close>

definition key_ok :: "string \<Rightarrow> bool" where
  "key_ok k \<longleftrightarrow> k \<noteq> [] \<and> (\<forall>c \<in> set k. \<not> is_blank c \<and> c \<noteq> CHR ''='' \<and> c \<noteq> CHR ''#'')"

definition value_ok :: "string \<Rightarrow> bool" where
  "value_ok v \<longleftrightarrow> v \<noteq> [] \<and> CHR ''#'' \<notin> set v \<and> \<not> is_blank (hd v) \<and> \<not> is_blank (last v)"

lemma str_rfind_last: "xs \<noteq> [] \<Longrightarrow> P (last xs) \<Longrightarrow> str_rfind P xs = Some (length xs - 1)"
  by (metis append_butlast_last_id length_butlast str_rfind_snoc)

lemma splitLine_ok:
  assumes k: "key_ok k" and v: "value_ok v"
  shows "splitLine (k @ CHR ''='' # v) = Some (k, v)"
proof -
  let ?s = "k @ CHR ''='' # v"
  have none: "find_idx (\<lambda>c. c = CHR ''#'') ?s = None" using k v by (auto simp: find_idx_None_iff key_ok_def value_ok_def)
  have rf: "str_rfind (\<lambda>c. \<not> is_blank c) ?s = Some (length ?s - 1)"
    using v by (intro str_rfind_last) (auto simp: value_ok_def)
  have beg: "find_idx (\<lambda>c. \<not> is_blank c) ?s = Some 0" using k by (cases k) (auto simp: key_ok_def)
  have fin: "find_idx (\<lambda>c. is_blank c \<or> c = CHR ''='') ?s = Some (length k)"
    using k by (subst find_idx_append_none) (auto simp: key_ok_def)
  have eq: "str_find (\<lambda>c. c = CHR ''='') ?s (length k) = Some (length k)" by (simp add: str_find_def)
  have val: "str_find (\<lambda>c. \<not> is_blank c) ?s (length k + 1) = Some (length k + 1)"
    using v by (cases v) (auto simp: str_find_def value_ok_def)
  show ?thesis unfolding splitLine_def Let_def using none rf beg fin eq val by (simp add: str_find_0)
qed

section \<open>Command line options\<close>

definition table_ok :: "string list list \<Rightarrow> bool" where
  "table_ok valid \<longleftrightarrow> (\<forall>i \<in> set valid. i \<noteq> [] \<and> CHR ''.'' \<in> set (hd i) \<and> [] \<notin> set i)"

lemma matchAny_total: "key \<noteq> [] \<Longrightarrow> [] \<notin> set js \<Longrightarrow> \<exists>b. matchAny key js = Inr b"
proof (induction js)
  case (Cons j js)
  then show ?case by (auto simp: match_def)
qed auto

lemma unknownWarnings_total: "table_ok valid \<Longrightarrow> key \<noteq> [] \<Longrightarrow> \<exists>n. unknownWarnings valid prefix key = Inr n"
proof (induction valid)
  case (Cons i valid)
  then obtain n where "unknownWarnings valid prefix key = Inr n" by (auto simp: table_ok_def)
  moreover obtain pat pats where "i = pat # pats" "CHR ''.'' \<in> set pat" using Cons.prems by (cases i) (auto simp: table_ok_def)
  moreover obtain b where "matchAny key i = Inr b" using matchAny_total [of key i] Cons.prems by (auto simp: table_ok_def)
  ultimately show ?case by (cases "find_idx (\<lambda>c. c = CHR ''.'') pat") (auto simp: find_idx_None_iff)
qed simp

lemma sm_insert_greatest: "\<forall>x \<in> fst ` set m. x < k \<Longrightarrow> sm_insert k v m = m @ [(k, v)]"
  by (induction m) (auto simp: not_less_iff_gr_or_eq)

lemma sm_ok_snoc: "sm_ok (m @ (k, v) # r) \<Longrightarrow> \<forall>x \<in> fst ` set m. x < k"
proof (induction m)
  case (Cons p m)
  then show ?case by (cases p) auto
qed simp

lemma parseLine_ok:
  assumes "table_ok valid" and "key_ok k" and "value_ok v" and "\<forall>x \<in> fst ` set ps. x < k"
  shows "\<exists>n. parseLine valid None (k @ CHR ''='' # v) ps = Inr ((), ps @ [(k, v)], n)"
proof -
  have "sm_find k ps = None" using assms(4) by (auto simp: sm_find_None)
  moreover have "k \<noteq> []" "v \<noteq> []" using assms by (auto simp: key_ok_def value_ok_def)
  moreover obtain n where
    "(case str_find (\<lambda>c. c = CHR ''.'') k 0 of None \<Rightarrow> Inr 0 | Some dotPos \<Rightarrow> unknownWarnings valid (take dotPos k) k) = Inr n"
  proof (cases "str_find (\<lambda>c. c = CHR ''.'') k 0")
    case (Some p)
    obtain n where "unknownWarnings valid (take p k) k = Inr n" using unknownWarnings_total [OF assms(1)] calculation by blast
    then show thesis using that Some by simp
  qed (use that in simp)
  ultimately show ?thesis
    using sm_insert_greatest [OF assms(4), of v]
    by (auto simp: parseLine_def splitLine_ok [OF assms(2,3)] converted_def setProperty_def)
qed

lemma optionLoop_ok:
  assumes "table_ok valid" and "\<forall>(k, v) \<in> set kvs. key_ok k \<and> value_ok v" and "sm_ok (ps @ kvs)"
  shows "\<exists>n. optionLoop valid ''--'' (getCommandLineOptions kvs) ps = Inr ([], ps @ kvs, n)"
  using assms(2,3)
proof (induction kvs arbitrary: ps)
  case Nil
  then show ?case by (simp add: getCommandLineOptions_def sret_def)
next
  case (Cons kv kvs)
  obtain k v where kv: "kv = (k, v)" by (cases kv)
  obtain n where n: "parseLine valid None (k @ CHR ''='' # v) ps = Inr ((), ps @ [kv], n)"
    using parseLine_ok [OF assms(1), of k v ps] Cons.prems sm_ok_snoc [of ps k v kvs] kv by auto
  obtain n' where "optionLoop valid ''--'' (getCommandLineOptions kvs) (ps @ [kv]) = Inr ([], (ps @ [kv]) @ kvs, n')"
    using Cons.IH [of "ps @ [kv]"] Cons.prems by auto
  then show ?case using n kv by (simp add: getCommandLineOptions_def sbind_def)
qed

text \<open>
  The options of a property set.  Parsing what \<open>getCommandLineOptions\<close> returns gives back the same set, as long as no
  key and no value contains a character of the line syntax in the wrong place: a number sign anywhere, an
  equals sign or a blank in a key, a blank at either end of a value.
\<close>

lemma options_roundtrip:
  assumes "table_ok valid" and "sm_ok ps" and "\<forall>(k, v) \<in> set ps. key_ok k \<and> value_ok v"
  shows "\<exists>n. parseCommandLineOptions valid [] (getCommandLineOptions ps) [] = Inr ([], ps, n)"
  using optionLoop_ok [OF assms(1,3), of "[]"] assms(2) by (simp add: parseCommandLineOptions_def)

lemma options_roundtrip_witness:
  "\<exists>n. parseCommandLineOptions [[''Ice.*'']] [] (getCommandLineOptions [(''Ice.Trace'', ''1 2''), (''Port'', ''10000'')]) [] =
     Inr ([], [(''Ice.Trace'', ''1 2''), (''Port'', ''10000'')], n)"
  by (rule options_roundtrip) (code_simp | simp add: key_ok_def value_ok_def is_blank_def table_ok_def)+

text \<open>The condition is needed: a value with a number sign comes back short.\<close>

lemma options_lose_hash:
  "parseCommandLineOptions [] [] (getCommandLineOptions [(''Key'', ''a#b'')]) [] = Inr ([], [(''Key'', ''a'')], 0)"
  by code_simp

section \<open>Configuration files\<close>

lemma config_lines_line:
  assumes "CHR 0x0A \<notin> set l" and "length l \<le> 1023" and "CHR 0x00 \<notin> set l"
  shows "config_lines (l @ CHR 0x0A # rest) = l # config_lines rest"
proof -
  have "takeWhile (\<lambda>c. c \<noteq> CHR 0x0A) (l @ CHR 0x0A # rest) = l" using assms(1) by (induction l) auto
  moreover have "takeWhile (\<lambda>c. c \<noteq> CHR 0x00) l = l" using assms(3) by (induction l) auto
  ultimately show ?thesis using assms(2) by (subst config_lines.simps) simp
qed

lemma config_lines_long:
  assumes "CHR 0x0A \<notin> set l" and "1023 < length l"
  shows "config_lines (l @ rest) = []"
proof -
  have "takeWhile (\<lambda>c. c \<noteq> CHR 0x0A) (l @ rest) = l @ takeWhile (\<lambda>c. c \<noteq> CHR 0x0A) rest" using assms(1) by (induction l) auto
  then show ?thesis using assms(2) by (subst config_lines.simps) simp
qed

text \<open>
  A configuration file is read line by line, in order, until its end or until its first line of more than
  1023 characters; that line and everything behind it is ignored without an error.
\<close>

lemma load_stops_at_long_line:
  assumes "\<forall>l \<in> set ls. CHR 0x0A \<notin> set l \<and> CHR 0x00 \<notin> set l \<and> length l \<le> 1023"
    and "files f = Some (concat (map (\<lambda>l. l @ [CHR 0x0A]) ls) @ tail)"
    and "tail = [] \<or> (\<exists>long rest. tail = long @ rest \<and> CHR 0x0A \<notin> set long \<and> 1023 < length long)"
  shows "load valid conv files f ps = parseLines valid conv ls ps"
proof -
  have "config_lines tail = []" using assms(3) config_lines_long config_lines.simps [of "[]"] by auto
  then have "config_lines (concat (map (\<lambda>l. l @ [CHR 0x0A]) ls) @ tail) = ls"
    using assms(1) by (induction ls) (simp_all add: config_lines_line)
  then show ?thesis using assms(2) by (simp add: load_def)
qed

lemma load_stops_at_long_line_witness:
  "load [] None (\<lambda>_. Some (''Key=1'' @ [CHR 0x0A] @ replicate 1024 (CHR ''x'') @ [CHR 0x0A] @ ''Key=2'')) ''config'' [] =
     Inr ((), [(''Key'', ''1'')], 0)"
proof -
  have "load [] None (\<lambda>_. Some (''Key=1'' @ [CHR 0x0A] @ replicate 1024 (CHR ''x'') @ [CHR 0x0A] @ ''Key=2'')) ''config'' [] =
      parseLines [] None [''Key=1''] []"
    by (rule load_stops_at_long_line [where tail = "replicate 1024 (CHR ''x'') @ [CHR 0x0A] @ ''Key=2''"])
       (simp, simp, intro disjI2 exI [of _ "replicate 1024 (CHR ''x'')"] exI [of _ "[CHR 0x0A] @ ''Key=2''"], simp)
  also have "\<dots> = Inr ((), [(''Key'', ''1'')], 0)" by code_simp
  finally show ?thesis .
qed

section \<open>Well-formed property sets\<close>

definition props_ok :: "properties \<Rightarrow> bool" where
  "props_ok ps \<longleftrightarrow> sm_ok ps \<and> (\<forall>k v. sm_find k ps = Some v \<longrightarrow> k \<noteq> [] \<and> v \<noteq> [])"

definition keeps :: "'a setter \<Rightarrow> bool" where
  "keeps m \<longleftrightarrow> (\<forall>ps x ps' n. props_ok ps \<longrightarrow> m ps = Inr (x, ps', n) \<longrightarrow> props_ok ps')"

lemma keeps_sret [simp, intro]: "keeps (sret x)"
  by (auto simp: keeps_def sret_def)

lemma keeps_sbind [intro]:
  assumes "keeps m" and "\<And>x. keeps (f x)"
  shows "keeps (sbind m f)"
  unfolding keeps_def
proof (intro allI impI)
  fix ps x ps' n
  assume ok: "props_ok ps" and "sbind m f ps = Inr (x, ps', n)"
  then obtain y ps1 n1 n2 where r: "m ps = Inr (y, ps1, n1)" "f y ps1 = Inr (x, ps', n2)"
    by (auto simp: sbind_def andThen_eq_Inr)
  have "props_ok ps1" using assms(1) ok r(1) unfolding keeps_def by blast
  then show "props_ok ps'" using assms(2) [of y] r(2) unfolding keeps_def by blast
qed

lemma keeps_setProperty [intro]: "keeps (setProperty valid key v)"
  unfolding keeps_def
  by (auto simp: setProperty_def props_ok_def andThen_eq_Inr split: if_splits)

lemma keeps_parseLine [intro]: "keeps (parseLine valid conv line)"
  using keeps_setProperty unfolding keeps_def
  by (fastforce simp: parseLine_def andThen_eq_Inr split: option.splits)

lemma keeps_optionLoop [intro]: "keeps (optionLoop valid pfx opts)"
  by (induction opts) auto

lemma keeps_parseCommandLineOptions [intro]: "keeps (parseCommandLineOptions valid prefix options)"
  unfolding parseCommandLineOptions_def by (rule keeps_optionLoop)

lemma keeps_parseIceCommandLineOptions [intro]: "keeps (parseIceCommandLineOptions valid names args)"
  by (induction names arbitrary: args) auto

lemma keeps_parseLines [intro]: "keeps (parseLines valid conv ls)"
  by (induction ls) auto

lemma keeps_load [intro]: "keeps (load valid conv files file)"
  using keeps_parseLines by (auto simp: keeps_def load_def split: option.splits)

lemma keeps_loadAll [intro]: "keeps (loadAll valid conv files fs)"
  by (induction fs) auto

lemma keeps_loadConfigFrom: "keeps (loadConfigFrom valid conv files v)"
  unfolding loadConfigFrom_def by (rule keeps_sbind) (simp_all add: keeps_loadAll keeps_setProperty)

lemma keeps_loadConfig [intro]: "keeps (loadConfig valid conv files ice_config)"
  using keeps_loadConfigFrom [of valid conv files]
  by (auto simp: keeps_def loadConfig_def Let_def)

lemma keeps_configArgs [intro]: "keeps (configArgs valid args)"
  by (induction args) (auto intro!: keeps_sbind split: prod.splits)

lemma keeps_properties_new: "keeps (properties_new valid conv files ice_config names args)"
proof -
  have "keeps (\<lambda>ps. if b \<or> sm_find ''Ice.Config'' ps = None then loadConfig valid conv files ice_config ps else sret () ps)" for b
    using keeps_loadConfig by (auto simp: keeps_def sret_def)
  then show ?thesis
    unfolding properties_new_def by (auto intro!: keeps_sbind split: list.splits)
qed

text \<open>
  C36: a property set is a map in the order of its keys in which neither a key nor a value is empty, so that a property that
  \<open>getProperty\<close> reports as empty is one that is not set; the constructor with its command line and configuration
  files and every operation that sets properties keep it so, whatever the arguments and files hold.
\<close>

theorem properties_wellformed:
  assumes "props_ok ps"
  shows "(properties_new valid conv files ice_config names args ps = Inr (rest, ps', n) \<longrightarrow> props_ok ps') \<and>
    (setProperty valid key v ps = Inr ((), ps', n) \<longrightarrow> props_ok ps') \<and>
    (load valid conv files file ps = Inr ((), ps', n) \<longrightarrow> props_ok ps') \<and>
    (parseCommandLineOptions valid prefix args ps = Inr (rest, ps', n) \<longrightarrow> props_ok ps') \<and>
    (parseIceCommandLineOptions valid names args ps = Inr (rest, ps', n) \<longrightarrow> props_ok ps') \<and>
    (getProperty k ps = [] \<longleftrightarrow> sm_find k ps = None)"
proof (intro conjI)
  note keep = keeps_def [THEN iffD1, rule_format, OF _ assms]
  show "properties_new valid conv files ice_config names args ps = Inr (rest, ps', n) \<longrightarrow> props_ok ps'"
    using keep [OF keeps_properties_new] by blast
  show "setProperty valid key v ps = Inr ((), ps', n) \<longrightarrow> props_ok ps'" using keep [OF keeps_setProperty] by blast
  show "load valid conv files file ps = Inr ((), ps', n) \<longrightarrow> props_ok ps'" using keep [OF keeps_load] by blast
  show "parseCommandLineOptions valid prefix args ps = Inr (rest, ps', n) \<longrightarrow> props_ok ps'"
    using keep [OF keeps_parseCommandLineOptions] by blast
  show "parseIceCommandLineOptions valid names args ps = Inr (rest, ps', n) \<longrightarrow> props_ok ps'"
    using keep [OF keeps_parseIceCommandLineOptions] by blast
  show "getProperty k ps = [] \<longleftrightarrow> sm_find k ps = None"
    using assms by (auto simp: props_ok_def getProperty_def split: option.splits)
qed

theorem properties_wellformed_witness:
  "props_ok [(''Ice.Trace'', ''1''), (''Port'', ''10000'')] \<and>
   load [] None (\<lambda>_. Some ''Port= '') ''config'' [(''Ice.Trace'', ''1''), (''Port'', ''10000'')] = Inr ((), [(''Ice.Trace'', ''1'')], 0) \<and>
   props_ok [(''Ice.Trace'', ''1'')] \<and> getProperty ''Port'' [(''Ice.Trace'', ''1''), (''Port'', ''10000'')] \<noteq> []"
proof -
  let ?ps = "[(''Ice.Trace'', ''1''), (''Port'', ''10000'')]"
  have "sm_ok ?ps" by code_simp
  then have ok: "props_ok ?ps" by (auto simp: props_ok_def split: if_splits)
  have l: "load [] None (\<lambda>_. Some ''Port= '') ''config'' ?ps = Inr ((), [(''Ice.Trace'', ''1'')], 0)" by code_simp
  from properties_wellformed [OF ok] l have "props_ok [(''Ice.Trace'', ''1'')]" by blast
  moreover have "getProperty ''Port'' ?ps \<noteq> []" using properties_wellformed [OF ok, of _ _ _ _ _ _ _ _ _ _ _ _ _ "''Port''"] by simp
  ultimately show ?thesis using ok l by blast
qed

end
