(* ===== verification/Server.thy ===== *)
theory Server imports AdapterFactory Properties begin

text \<open>
  The server itself: \<^verbatim>\<open>src/src/main.cpp\<close> with its servants \<open>SerialPortI\<close> and \<open>DriverI\<close>, and \<^verbatim>\<open>src/src/device.c\<close>.
  The operating system is a parameter: a state and the calls \<open>open\<close>, \<open>read\<close>, \<open>write\<close> and
  \<open>close\<close> on it, with what POSIX says of them as hypotheses.  What \<open>curl\<close> leaves in
  \<^verbatim>\<open>/tmp/device-info\<close> is a parameter too.
\<close>

section \<open>The serial port\<close>

abbreviation NUL :: char where "NUL \<equiv> CHR 0x00"

datatype open_flags = O_RDONLY_NOCTTY | O_WRONLY_NOCTTY

text \<open>\<open>os_read\<close> returns the result of the call and the bytes it has stored.\<close>

record 's os =
  os_open :: "string \<Rightarrow> open_flags \<Rightarrow> 's \<Rightarrow> int \<times> 's"
  os_read :: "int \<Rightarrow> nat \<Rightarrow> 's \<Rightarrow> (int \<times> string) \<times> 's"
  os_write :: "int \<Rightarrow> string \<Rightarrow> 's \<Rightarrow> int \<times> 's"
  os_close :: "int \<Rightarrow> 's \<Rightarrow> 's"

datatype printed = PrintedOpenError | PrintedWrote int

text \<open>
  \<open>string(read_buf)\<close>: the characters up to the first NUL; without one the constructor runs past the
  end of the array.
\<close>

definition c_string :: "string \<Rightarrow> failure + string" where
  "c_string b = (if NUL \<in> set b then Inr (takeWhile (\<lambda>c. c \<noteq> NUL) b) else Inl MemoryFault)"

definition readSerialPort :: "'s os \<Rightarrow> 's \<Rightarrow> (failure + string) \<times> printed list \<times> 's" where
  "readSerialPort os s =
     (let (serial_port, s1) = os_open os ''/dev/pts/0'' O_RDONLY_NOCTTY s;
          msgs = (if serial_port < 0 then [PrintedOpenError] else []);
          read_buf = replicate 2048 NUL;
          ((n, stored), s2) = os_read os serial_port (length read_buf) s1;
          read_buf' = stored @ drop (length stored) read_buf;
          s3 = os_close os serial_port s2
      in (if n > 0 then c_string read_buf' else Inr ''No data'', msgs, s3))"

definition writeSerialPort :: "'s os \<Rightarrow> string \<Rightarrow> 's \<Rightarrow> printed list \<times> 's" where
  "writeSerialPort os message s =
     (let (serial_port, s1) = os_open os ''/dev/pts/0'' O_WRONLY_NOCTTY s;
          msgs = (if serial_port < 0 then [PrintedOpenError] else []);
          (n, s2) = os_write os serial_port (message @ [NUL]) s1;
          s3 = os_close os serial_port s2
      in (msgs @ [PrintedWrote n], s3))"

section \<open>The device\<close>

text \<open>
  \<open>deviceInfo\<close> on the global \<open>buffer\<close>: \<open>file\<close> is what the downloaded file contains, \<open>None\<close> when \<open>fopen\<close>
  returns a null pointer, which \<open>fscanf\<close> then follows.
\<close>

definition scan_word :: "string \<Rightarrow> string" where
  "scan_word content = takeWhile (\<lambda>c. \<not> isspace c) (dropWhile isspace content)"

definition device_buffer_new :: string where
  "device_buffer_new = replicate 128 NUL"

definition deviceInfo :: "string option \<Rightarrow> string \<Rightarrow> failure + string" where
  "deviceInfo file buffer =
     (case file of
        None \<Rightarrow> Inl MemoryFault
      | Some content \<Rightarrow>
          let w = scan_word content
          in if w = [] then Inr buffer
             else if length w + 1 > length buffer then Inl MemoryFault
             else Inr (w @ [NUL] @ drop (length w + 1) buffer))"

definition readInfoFromDevice :: "string option \<Rightarrow> string \<Rightarrow> failure + string \<times> string" where
  "readInfoFromDevice file buffer = andThen (deviceInfo file buffer) (\<lambda>b. andThen (c_string b) (\<lambda>r. Inr (r, b)))"

section \<open>The main program\<close>

datatype server_object = SerialPortI | DriverI | ProcessI

datatype server_failure = BadIdentity identity_error | RunTime failure

definition runTime :: "failure + 'a \<Rightarrow> server_failure + 'a" where
  "runTime r = (case r of Inl f \<Rightarrow> Inl (RunTime f) | Inr x \<Rightarrow> Inr x)"

definition ic_stringToIdentity :: "string \<Rightarrow> server_failure + identity" where
  "ic_stringToIdentity s = (case stringToIdentity s of Inl e \<Rightarrow> Inl (BadIdentity e) | Inr i \<Rightarrow> Inr i)"

type_synonym ('l, 'e) server = "(server_object, 'l, 'e) adapter_factory"

text \<open>A call on the adapter that \<open>createObjectAdapterWithEndpoints\<close> returned, which the factory holds.\<close>

definition onAdapter ::
  "string \<Rightarrow> ((server_object, 'l, 'e) adapter \<Rightarrow> failure + (server_object, 'l, 'e) adapter) \<Rightarrow> ('l, 'e) server \<Rightarrow> server_failure + ('l, 'e) server" where
  "onAdapter nm f fac =
     (case sm_find nm (af_adapters fac) of
        None \<Rightarrow> Inl (RunTime NullHandleException)
      | Some a \<Rightarrow> andThen (runTime (f a)) (\<lambda>a'. Inr (fac\<lparr>af_adapters := sm_update nm a' (af_adapters fac)\<rparr>)))"

definition addObject ::
  "server_object \<Rightarrow> string \<Rightarrow> ('l, 'e) server \<Rightarrow> server_failure + ('l, 'e) server" where
  "addObject obj str fac =
     andThen (ic_stringToIdentity str) (\<lambda>ident.
       onAdapter ''ServerAdapter'' (\<lambda>a. andThen (adapter_add obj ident a) (\<lambda>(_, a'). Inr a')) fac)"

definition startServer ::
  "('e::linorder) adapter_env \<Rightarrow> 'e registry \<Rightarrow> string \<Rightarrow> ('l, 'e) server \<Rightarrow> server_failure + ('l, 'e) server" where
  "startServer env reg uuid fac =
     andThen (runTime (createObjectAdapter env reg (uuid, ProcessI) ''ServerAdapter'' ''default -p 10000'' None fac)) (\<lambda>fac1.
     andThen (addObject SerialPortI ''SerialPort'' fac1) (\<lambda>fac2.
     andThen (addObject DriverI ''Driver'' fac2) (\<lambda>fac3.
       onAdapter ''ServerAdapter'' (\<lambda>a. case adapter_activate env reg (uuid, ProcessI) a of (r, _, a') \<Rightarrow> andThen r (\<lambda>_. Inr a')) fac3)))"

text \<open>
  \<open>main\<close> returns the exit status, or nothing when the process dies.  How \<open>initialize\<close>, \<open>waitForShutdown\<close> and
  \<open>destroy\<close> of the communicator end are parameters.  Every exception of the run time, null handles
  included, is an \<open>Ice::Exception\<close>.
\<close>

fun caught :: "server_failure \<Rightarrow> bool" where
  "caught (BadIdentity _) = True"
| "caught (RunTime (Thrown _)) = True"
| "caught (RunTime NullHandleException) = True"
| "caught (RunTime ThreadLockedException) = True"
| "caught (RunTime _) = False"

definition server_main ::
  "('e::linorder) adapter_env \<Rightarrow> 'e registry \<Rightarrow> string \<Rightarrow> server_failure + ('l, 'e) server
     \<Rightarrow> server_failure + unit \<Rightarrow> server_failure + unit \<Rightarrow> nat option" where
  "server_main env reg uuid initialize waited destroyed =
     (case initialize of
        Inl f \<Rightarrow> if caught f then Some 1 else None
      | Inr ic \<Rightarrow>
          let status = (case andThen (startServer env reg uuid ic) (\<lambda>_. waited) of
                          Inl f \<Rightarrow> if caught f then Some 1 else None
                        | Inr _ \<Rightarrow> Some 0)
          in case status of
               None \<Rightarrow> None
             | Some st \<Rightarrow> (case destroyed of Inl f \<Rightarrow> if caught f then Some 1 else None | Inr _ \<Rightarrow> Some st))"

section \<open>The serial line\<close>

text \<open>
  What POSIX says of the calls, for a terminal whose other end is held by a peer: \<open>incoming\<close> are the bytes
  the peer has sent and nobody has read yet, \<open>sent\<close> those that have gone out to it.  \<open>open\<close> may fail, and
  nothing is said of it and of \<open>close\<close>.  \<open>read\<close> may fail, or returns some bytes from the front, at most as many
  as were asked for; more may arrive while it waits.  \<open>write\<close> may fail, or sends some bytes from the
  front.  Neither works on a descriptor that is not open.
\<close>

definition posix_ok :: "'s os \<Rightarrow> ('s \<Rightarrow> string) \<Rightarrow> ('s \<Rightarrow> string) \<Rightarrow> bool" where
  "posix_ok os incoming sent \<longleftrightarrow>
     (\<forall>fd n s k d s'. os_read os fd n s = ((k, d), s') \<longrightarrow>
        k = - 1 \<or> 0 \<le> fd \<and> k = int (length d) \<and> length d \<le> n \<and> (\<exists>arrived. incoming s @ arrived = d @ incoming s')) \<and>
     (\<forall>fd bytes s k s'. os_write os fd bytes s = (k, s') \<longrightarrow>
        k = - 1 \<and> sent s' = sent s \<or>
        0 \<le> fd \<and> 0 \<le> k \<and> nat k \<le> length bytes \<and> sent s' = sent s @ take (nat k) bytes)"

lemma posix_read:
  assumes "posix_ok os incoming sent" and "os_read os fd n s = ((k, d), s')"
  shows "k = - 1 \<or> 0 \<le> fd \<and> k = int (length d) \<and> length d \<le> n \<and> (\<exists>arrived. incoming s @ arrived = d @ incoming s')"
  using assms unfolding posix_ok_def by blast

lemma posix_write:
  assumes "posix_ok os incoming sent" and "os_write os fd bytes s = (k, s')"
  shows "k = - 1 \<and> sent s' = sent s \<or>
    0 \<le> fd \<and> 0 \<le> k \<and> nat k \<le> length bytes \<and> sent s' = sent s @ take (nat k) bytes"
  using assms unfolding posix_ok_def by blast

lemma takeWhile_message: "NUL \<notin> set m \<Longrightarrow> takeWhile (\<lambda>c. c \<noteq> NUL) (m @ NUL # r) = m"
  by (induction m) auto

lemma takeWhile_no_NUL: "NUL \<notin> set m \<Longrightarrow> takeWhile (\<lambda>c. c \<noteq> NUL) m = m"
  by (induction m) auto

lemma takeWhile_padded: "takeWhile (\<lambda>c. c \<noteq> NUL) (d @ replicate k NUL) = takeWhile (\<lambda>c. c \<noteq> NUL) d"
  by (induction d) (auto simp: takeWhile_replicate)

text \<open>The string made of a buffer of which only the front was filled.\<close>

lemma c_string_padded:
  assumes "length d \<le> n"
  shows "c_string (d @ replicate (n - length d) NUL) =
    (if NUL \<in> set d \<or> length d < n then Inr (takeWhile (\<lambda>c. c \<noteq> NUL) d) else Inl MemoryFault)"
  using assms by (auto simp: c_string_def takeWhile_padded)

lemma read_result:
  assumes "os_open os ''/dev/pts/0'' O_RDONLY_NOCTTY s = (fd, s1)" and "os_read os fd 2048 s1 = ((n, d), s2)"
    and "0 < n \<longrightarrow> length d \<le> 2048"
  shows "readSerialPort os s =
    (if n \<le> 0 then Inr ''No data''
     else if NUL \<in> set d \<or> length d < 2048 then Inr (takeWhile (\<lambda>c. c \<noteq> NUL) d) else Inl MemoryFault,
     if fd < 0 then [PrintedOpenError] else [], os_close os fd s2)"
  using assms c_string_padded [of d 2048] by (simp add: readSerialPort_def)

text \<open>Where the first message of the line ends, relative to what was read.\<close>

lemma first_message:
  assumes "NUL \<notin> set m" and "d @ later = m @ NUL # rest"
  shows "if length m < length d
    then NUL \<in> set d \<and> takeWhile (\<lambda>c. c \<noteq> NUL) d = m \<and> rest = drop (Suc (length m)) d @ later
    else NUL \<notin> set d \<and> takeWhile (\<lambda>c. c \<noteq> NUL) d = take (length d) m \<and> later = drop (length d) m @ NUL # rest"
proof (cases "length m < length d")
  case True
  then obtain e where e: "d = m @ e" "e @ later = NUL # rest"
    using assms(2) by (auto simp: append_eq_append_conv2)
  then obtain e' where "e = NUL # e'" using True by (cases e) auto
  then show ?thesis using e assms(1) by (simp add: takeWhile_message)
next
  case False
  then have d: "d = take (length d) m" and l: "later = drop (length d) m @ NUL # rest"
    using arg_cong [OF assms(2), of "take (length d)"] arg_cong [OF assms(2), of "drop (length d)"] by simp_all
  have "NUL \<notin> set d" using assms(1) d by (metis in_set_takeD)
  then show ?thesis using False d l takeWhile_no_NUL [of d] by simp
qed

text \<open>
  C24: what clients get from the serial line and what they put on it, with any peer at the other end.  A
  failed \<open>open\<close> or \<open>read\<close>, and a \<open>read\<close> of nothing, give \<open>No data\<close>.  Otherwise, when the line carries a
  message that ends with a NUL: if the end is among the bytes one \<open>read\<close> returned, the client gets the
  message, and whatever else was read behind it is gone; if not, it gets a beginning of the message, whose
  rest stays on the line and will be taken for a message of its own, unless 2048 bytes were read, which
  fill the buffer without a NUL, so that building the string runs past its end.  A message that is
  written goes out once, followed by a NUL, up to where the \<open>write\<close> stopped; the failure of \<open>open\<close> or
  \<open>write\<close> is printed and the client is not told.
\<close>

theorem serial_line_messages:
  assumes posix: "posix_ok os incoming sent"
    and rd: "os_open os ''/dev/pts/0'' O_RDONLY_NOCTTY s = (fd, s1)" "os_read os fd 2048 s1 = ((n, d), s2)"
    and wr: "os_open os ''/dev/pts/0'' O_WRONLY_NOCTTY s = (fd', t1)" "os_write os fd' (msg @ [NUL]) t1 = (k, t2)"
  shows "(\<exists>r. readSerialPort os s = (r, if fd < 0 then [PrintedOpenError] else [], os_close os fd s2) \<and>
      (fd < 0 \<or> n \<le> 0 \<longrightarrow> r = Inr ''No data'') \<and>
      (0 < n \<longrightarrow> 0 \<le> fd \<and> d \<noteq> [] \<and> (\<exists>arrived. incoming s1 @ arrived = d @ incoming s2) \<and>
        (\<forall>m rest. NUL \<notin> set m \<and> d @ incoming s2 = m @ NUL # rest \<longrightarrow>
          (if length m < length d then r = Inr m \<and> rest = drop (Suc (length m)) d @ incoming s2
           else if length d < 2048 then r = Inr (take (length d) m) \<and> incoming s2 = drop (length d) m @ NUL # rest
           else r = Inl MemoryFault)))) \<and>
    writeSerialPort os msg s = ((if fd' < 0 then [PrintedOpenError] else []) @ [PrintedWrote k], os_close os fd' t2) \<and>
    (fd' < 0 \<longrightarrow> k = - 1) \<and> (k < 0 \<longrightarrow> sent t2 = sent t1) \<and>
    (0 \<le> k \<longrightarrow> nat k \<le> length msg + 1 \<and> sent t2 = sent t1 @ take (nat k) (msg @ [NUL]))"
proof -
  note r = posix_read [OF posix rd(2)] and w = posix_write [OF posix wr(2)]
  let ?r = "if n \<le> 0 then Inr ''No data''
     else if NUL \<in> set d \<or> length d < 2048 then Inr (takeWhile (\<lambda>c. c \<noteq> NUL) d) else Inl MemoryFault"
  have "0 < n \<longrightarrow> length d \<le> 2048" using r by auto
  note result = read_result [OF rd this]
  have none: "fd < 0 \<or> n \<le> 0 \<longrightarrow> ?r = Inr ''No data''" using r by auto
  have some: "0 < n \<longrightarrow> 0 \<le> fd \<and> d \<noteq> [] \<and> (\<exists>arrived. incoming s1 @ arrived = d @ incoming s2)" using r by auto
  have message: "if length m < length d then ?r = Inr m \<and> rest = drop (Suc (length m)) d @ incoming s2
      else if length d < 2048 then ?r = Inr (take (length d) m) \<and> incoming s2 = drop (length d) m @ NUL # rest
      else ?r = Inl MemoryFault"
    if "0 < n" "NUL \<notin> set m" "d @ incoming s2 = m @ NUL # rest" for m rest
  proof (cases "length m < length d")
    case True
    then show ?thesis using first_message [OF that(2,3)] that(1) by simp
  next
    case False
    then show ?thesis using first_message [OF that(2,3)] that(1) by simp
  qed
  have read_part: "\<exists>r. readSerialPort os s = (r, if fd < 0 then [PrintedOpenError] else [], os_close os fd s2) \<and>
      (fd < 0 \<or> n \<le> 0 \<longrightarrow> r = Inr ''No data'') \<and>
      (0 < n \<longrightarrow> 0 \<le> fd \<and> d \<noteq> [] \<and> (\<exists>arrived. incoming s1 @ arrived = d @ incoming s2) \<and>
        (\<forall>m rest. NUL \<notin> set m \<and> d @ incoming s2 = m @ NUL # rest \<longrightarrow>
          (if length m < length d then r = Inr m \<and> rest = drop (Suc (length m)) d @ incoming s2
           else if length d < 2048 then r = Inr (take (length d) m) \<and> incoming s2 = drop (length d) m @ NUL # rest
           else r = Inl MemoryFault)))"
  proof (rule exI [of _ ?r], intro conjI impI allI)
    fix m rest
    assume "0 < n" "NUL \<notin> set m \<and> d @ incoming s2 = m @ NUL # rest"
    then show "if length m < length d then ?r = Inr m \<and> rest = drop (Suc (length m)) d @ incoming s2
      else if length d < 2048 then ?r = Inr (take (length d) m) \<and> incoming s2 = drop (length d) m @ NUL # rest
      else ?r = Inl MemoryFault" by (intro message) simp_all
  qed (use result none some in simp_all)
  have "writeSerialPort os msg s = ((if fd' < 0 then [PrintedOpenError] else []) @ [PrintedWrote k], os_close os fd' t2)"
    using wr by (simp add: writeSerialPort_def)
  moreover have "fd' < 0 \<longrightarrow> k = - 1" "k < 0 \<longrightarrow> sent t2 = sent t1"
    "0 \<le> k \<longrightarrow> nat k \<le> length msg + 1 \<and> sent t2 = sent t1 @ take (nat k) (msg @ [NUL])"
    using w by auto
  ultimately show ?thesis using read_part by blast
qed

text \<open>A line on which \<open>read\<close> returns at most \<open>most\<close> bytes at a time, and everything written goes out.\<close>

definition peer_line :: "nat \<Rightarrow> (string \<times> string) os" where
  "peer_line most =
     \<lparr>os_open = \<lambda>_ _ s. (3, s),
      os_read = \<lambda>fd n (i, out). if fd < 0 then ((- 1, []), (i, out))
        else ((int (length (take (min n most) i)), take (min n most) i), (drop (min n most) i, out)),
      os_write = \<lambda>fd bytes (i, out). if fd < 0 then (- 1, (i, out)) else (int (length bytes), (i, out @ bytes)),
      os_close = \<lambda>_ s. s\<rparr>"

lemma peer_line_ok: "posix_ok (peer_line most) fst snd"
  by (auto simp: posix_ok_def peer_line_def split: prod.splits)

theorem serial_line_messages_witness:
  "fst (readSerialPort (peer_line 2048) (''hello'' @ [NUL] @ ''again'', [])) = Inr ''hello'' \<and>
   fst (readSerialPort (peer_line 3) (''hello'' @ [NUL], [])) = Inr ''hel'' \<and>
   fst (readSerialPort (peer_line 2048) (replicate 2048 (CHR ''x'') @ [NUL], [])) = Inl MemoryFault \<and>
   writeSerialPort (peer_line 3) ''hi'' ([], []) = ([PrintedWrote 3], ([], ''hi'' @ [NUL]))"
proof -
  let ?x = "replicate 2048 (CHR ''x'')"
  have open_line: "os_open (peer_line most) p fl s = (3, s)" for most p fl s by (simp add: peer_line_def)
  have write_line: "os_write (peer_line most) 3 bs (i, out) = (int (length bs), (i, out @ bs))" for most bs i out
    by (simp add: peer_line_def)
  have read_line: "os_read (peer_line most) 3 k (i, out) =
      ((int (length (take (min k most) i)), take (min k most) i), (drop (min k most) i, out))" for most k i out
    by (simp add: peer_line_def)
  have close_line: "os_close (peer_line most) fd s = s" for most fd s by (simp add: peer_line_def)
  have run: "fst (readSerialPort (peer_line most) (m @ NUL # rest, [])) =
      (if length m < length d then Inr m else if length d < 2048 then Inr (take (length d) m) else Inl MemoryFault)"
    if d: "d = take (min 2048 most) (m @ NUL # rest)" "d \<noteq> []" and m: "NUL \<notin> set m" for most m rest d
  proof -
    have r: "os_read (peer_line most) 3 2048 (m @ NUL # rest, []) =
        ((int (length d), d), (drop (min 2048 most) (m @ NUL # rest), []))" using d(1) read_line by simp
    have e: "d @ fst (drop (min 2048 most) (m @ NUL # rest), [] :: string) = m @ NUL # rest"
      using d(1) by (simp del: take_append drop_append)
    show ?thesis
      using serial_line_messages [OF peer_line_ok open_line r open_line write_line, of "[]"] d(2) m e by auto
  qed
  have 1: "fst (readSerialPort (peer_line 2048) (''hello'' @ [NUL] @ ''again'', [])) = Inr ''hello''"
    using run [of "''hello'' @ [NUL] @ ''again''" 2048 "''hello''" "''again''"] by simp
  have 2: "fst (readSerialPort (peer_line 3) (''hello'' @ [NUL], [])) = Inr ''hel''"
    using run [of "''hel''" 3 "''hello''" "[]"] by simp
  have 3: "fst (readSerialPort (peer_line 2048) (?x @ [NUL], [])) = Inl MemoryFault"
    using run [of ?x 2048 ?x "[]"] by simp
  have "writeSerialPort (peer_line 3) ''hi'' ([], []) = ([PrintedWrote 3], ([], ''hi'' @ [NUL]))"
    using serial_line_messages [where s = "([], [])" and msg = "''hi''", OF peer_line_ok open_line read_line open_line write_line, of 3]
    by (simp add: close_line)
  with 1 2 3 show ?thesis by blast
qed

section \<open>Device information\<close>

definition device_buffer_ok :: "string \<Rightarrow> bool" where
  "device_buffer_ok b \<longleftrightarrow> length b = 128 \<and> NUL \<in> set b"

lemma device_buffer_new_ok: "device_buffer_ok device_buffer_new"
  by (simp add: device_buffer_ok_def device_buffer_new_def)

text \<open>
  C25: what \<open>readInfoFromDevice\<close> returns.  From a buffer that holds a string it returns the first word of the
  downloaded file, when that is shorter than the buffer, and leaves a string in the buffer again.  A file
  without a word, as after a failed download, makes it return the answer of an earlier call; a word of
  128 characters or more is written past the buffer, and a file that cannot be opened is read through a
  null pointer.
\<close>

theorem readInfoFromDevice_spec:
  assumes "device_buffer_ok b"
  shows "case file of
      None \<Rightarrow> readInfoFromDevice file b = Inl MemoryFault
    | Some content \<Rightarrow>
        if scan_word content = [] then readInfoFromDevice file b = Inr (takeWhile (\<lambda>c. c \<noteq> NUL) b, b)
        else if 128 \<le> length (scan_word content) then readInfoFromDevice file b = Inl MemoryFault
        else \<exists>b'. readInfoFromDevice file b = Inr (takeWhile (\<lambda>c. c \<noteq> NUL) (scan_word content), b') \<and> device_buffer_ok b' \<and>
               (NUL \<notin> set (scan_word content) \<longrightarrow> readInfoFromDevice (Some []) b' = Inr (scan_word content, b'))"
proof -
  have "takeWhile (\<lambda>c. c \<noteq> NUL) (w @ NUL # r) = takeWhile (\<lambda>c. c \<noteq> NUL) w" for w r by (induction w) auto
  moreover have "NUL \<notin> set w \<Longrightarrow> takeWhile (\<lambda>c. c \<noteq> NUL) w = w" for w by (induction w) auto
  ultimately show ?thesis using assms
    by (auto simp: readInfoFromDevice_def deviceInfo_def c_string_def device_buffer_ok_def Let_def scan_word_def [of "[]"]
        split: option.splits)
qed

theorem readInfoFromDevice_spec_witness:
  "\<exists>b'. readInfoFromDevice (Some '' v1.2 beta'') device_buffer_new = Inr (''v1.2'', b') \<and>
     readInfoFromDevice (Some []) b' = Inr (''v1.2'', b')"
proof -
  have "scan_word '' v1.2 beta'' = ''v1.2''" by (simp add: scan_word_def isspace_def)
  then show ?thesis using readInfoFromDevice_spec [OF device_buffer_new_ok, of "Some '' v1.2 beta''"] by auto
qed

section \<open>Start-up\<close>

definition serialPort_id :: identity where
  "serialPort_id = \<lparr>name = ''SerialPort'', category = []\<rparr>"

definition driver_id :: identity where
  "driver_id = \<lparr>name = ''Driver'', category = []\<rparr>"

lemma server_identities:
  "stringToIdentity ''SerialPort'' = Inr serialPort_id" "stringToIdentity ''Driver'' = Inr driver_id"
  by code_simp+

lemma adapter_look_init: "unused env nm a \<Longrightarrow> serving a \<and> adapter_look a = Map.empty \<and> locators (oa_servantManager a) = Map.empty"
  by (auto simp: unused_def locators_def serving_def alive_def adapter_look_def manager_look_def servants_def new_manager_ok fun_eq_iff)
     (simp add: servant_manager_new_def)+

text \<open>The adapter of the server, at some point of its start-up, with the servants registered so far.\<close>

definition server_up_to :: "(server_object, 'l, 'e) adapter \<Rightarrow> (identity \<times> string \<Rightarrow> server_object option) \<Rightarrow> ('l, 'e) server \<Rightarrow> bool" where
  "server_up_to a0 objs fac \<longleftrightarrow> sm_ok (af_adapters fac) \<and>
     (\<exists>sm. sm_find ''ServerAdapter'' (af_adapters fac) = Some (a0\<lparr>oa_servantManager := sm\<rparr>) \<and>
        serving (a0\<lparr>oa_servantManager := sm\<rparr>) \<and> adapter_look (a0\<lparr>oa_servantManager := sm\<rparr>) = objs \<and>
        locators sm = Map.empty)"

lemma addObject_up:
  assumes up: "server_up_to a0 objs fac" and ident: "stringToIdentity str = Inr ident" "name ident \<noteq> []"
    and new: "objs (ident, []) = None"
  shows "\<exists>fac'. addObject obj str fac = Inr fac' \<and> server_up_to a0 (objs((ident, []) \<mapsto> obj)) fac'"
proof -
  obtain sm where sm: "sm_ok (af_adapters fac)" "sm_find ''ServerAdapter'' (af_adapters fac) = Some (a0\<lparr>oa_servantManager := sm\<rparr>)"
      "serving (a0\<lparr>oa_servantManager := sm\<rparr>)" "adapter_look (a0\<lparr>oa_servantManager := sm\<rparr>) = objs" "locators sm = Map.empty"
    using up by (auto simp: server_up_to_def)
  let ?a = "a0\<lparr>oa_servantManager := sm\<rparr>"
  obtain a' where a': "andThen (addFacet obj ident [] ?a) (\<lambda>(_, a'). Inr a') = Inr a'" "serving a'"
      "adapter_look a' = objs((ident, []) \<mapsto> obj)"
    using adapter_registry.add_new [of "(ident, [])" ?a obj] sm ident new by auto
  from a'(1) obtain sm' where sm': "addServant obj ident [] sm = Inr sm'" "a' = a0\<lparr>oa_servantManager := sm'\<rparr>"
    using addFacet_serving [OF sm(3) ident(2), of obj "[]"] by (auto simp: andThen_eq_Inr)
  then have "locators sm' = Map.empty"
    using addServant_spec [of sm, where obj = obj and ident = ident and facet = "[]"] serving_manager [OF sm(3)] sm(5) by simp
  then show ?thesis using a' sm sm'(2) ident
    by (auto simp: addObject_def ic_stringToIdentity_def onAdapter_def adapter_add_def runTime_def server_up_to_def
        simp del: fun_upd_apply intro!: exI [of _ sm'])
qed

lemma activate_plain:
  assumes "serving a" and "oa_id a = []" and "\<not> oa_activateOneOffDone a"
    and "env_getPropertyAsInt env (oa_name a @ ''.RegisterProcess'') \<le> 0"
  shows "\<exists>evs. adapter_activate env reg fresh a =
    (Inr (evs @ map FactoryActivate (oa_factories a)), [], a\<lparr>oa_waitForActivate := False, oa_activateOneOffDone := True\<rparr>)"
proof -
  let ?a1 = "a\<lparr>oa_waitForActivate := True\<rparr>"
  have "alive ?a1" "\<not> oa_deactivated ?a1" using assms(1) by (simp_all add: serving_def alive_def)
  then obtain p where "createDirectProxy dummy_identity ?a1 = Inr p"
    using createDirectProxy_alive [of ?a1 dummy_identity] by (auto simp: dummy_identity_def)
  then show ?thesis using assms \<open>alive ?a1\<close>
    by (auto simp: adapter_activate_def activateBegin_def checkForDeactivation_def serving_def alive_def activateUpdate_def
        updateLocatorRegistry_def activateEnd_def)
qed

lemma server_up:
  fixes a :: "(server_object, 'l, 'e::linorder) adapter"
  assumes "adapter_new env reg (uuid, ProcessI) ''ServerAdapter'' ''default -p 10000'' None = (Inr a, evs)"
    and "env_getProperty env ''ServerAdapter.AdapterId'' = []" and "env_getPropertyAsInt env ''ServerAdapter.RegisterProcess'' \<le> 0"
  shows "\<exists>fac' a'. startServer env reg uuid (adapter_factory_new :: ('l, 'e) server) = Inr fac' \<and>
    sm_find ''ServerAdapter'' (af_adapters fac') = Some a' \<and> oa_activateOneOffDone a' \<and> serving a' \<and> resting a' \<and>
    oa_factories a' = oa_factories a \<and>
    adapter_look a' = [(serialPort_id, []) \<mapsto> SerialPortI, (driver_id, []) \<mapsto> DriverI] \<and>
    locators (oa_servantManager a') = Map.empty \<and>
    server_main env reg uuid (Inr (adapter_factory_new :: ('l, 'e) server)) (Inr ()) (Inr ()) = Some 0"
proof -
  have unused: "unused env ''ServerAdapter'' a" by (rule new_unused [OF assms(1)])
  let ?fac1 = "adapter_factory_new\<lparr>af_adapters := [(''ServerAdapter'', a)]\<rparr>"
  have create: "createObjectAdapter env reg (uuid, ProcessI) ''ServerAdapter'' ''default -p 10000'' None adapter_factory_new = Inr ?fac1"
    using assms(1) by (simp add: createObjectAdapter_def adapter_factory_new_def)
  have "server_up_to a Map.empty ?fac1"
    using adapter_look_init [OF unused] by (auto simp: server_up_to_def intro!: exI [of _ "oa_servantManager a"])
  from addObject_up [OF this server_identities(1)] obtain fac2
    where fac2: "addObject SerialPortI ''SerialPort'' ?fac1 = Inr fac2" "server_up_to a [(serialPort_id, []) \<mapsto> SerialPortI] fac2"
    by (auto simp: serialPort_id_def)
  from addObject_up [OF fac2(2) server_identities(2)] obtain fac3
    where fac3: "addObject DriverI ''Driver'' fac2 = Inr fac3"
      "server_up_to a [(serialPort_id, []) \<mapsto> SerialPortI, (driver_id, []) \<mapsto> DriverI] fac3"
    by (auto simp: serialPort_id_def driver_id_def)
  obtain sm where sm: "sm_find ''ServerAdapter'' (af_adapters fac3) = Some (a\<lparr>oa_servantManager := sm\<rparr>)"
      "serving (a\<lparr>oa_servantManager := sm\<rparr>)"
      "adapter_look (a\<lparr>oa_servantManager := sm\<rparr>) = [(serialPort_id, []) \<mapsto> SerialPortI, (driver_id, []) \<mapsto> DriverI]"
      "locators sm = Map.empty"
    using fac3(2) by (auto simp: server_up_to_def)
  let ?a3 = "a\<lparr>oa_servantManager := sm\<rparr>"
  obtain evs' where act: "adapter_activate env reg (uuid, ProcessI) ?a3 =
      (Inr (evs' @ map FactoryActivate (oa_factories a)), [], ?a3\<lparr>oa_waitForActivate := False, oa_activateOneOffDone := True\<rparr>)"
    using activate_plain [OF sm(2), of env reg "(uuid, ProcessI)"] assms(2,3) unused by (auto simp: unused_def)
  let ?a' = "?a3\<lparr>oa_waitForActivate := False, oa_activateOneOffDone := True\<rparr>"
  let ?fac' = "fac3\<lparr>af_adapters := sm_update ''ServerAdapter'' ?a' (af_adapters fac3)\<rparr>"
  have start: "startServer env reg uuid adapter_factory_new = Inr ?fac'"
    using create fac2(1) fac3(1) sm(1) act by (simp add: startServer_def runTime_def onAdapter_def)
  have "serving ?a'" "adapter_look ?a' = adapter_look ?a3" "resting ?a'"
    using sm(2) unused by (simp_all add: serving_def alive_def adapter_look_def resting_def unused_def)
  then show ?thesis using start sm by (intro exI [of _ ?fac'] exI [of _ ?a']) (simp add: server_main_def)
qed

text \<open>
  The server comes up.  When its adapter can be created (the port is free and the endpoint understood) and
  neither an adapter id nor a process registration is configured, \<open>main\<close> gets to
  \<open>waitForShutdown\<close>: the adapter is activated with its factories, a lookup finds the serial port
  under \<open>SerialPort\<close>, the device under \<open>Driver\<close> and nothing under any other identity or facet, and the
  exit status is 0 unless waiting or destroying the communicator throws.
\<close>

lemma server_starts:
  fixes a :: "(server_object, 'l, 'e::linorder) adapter"
  assumes "adapter_new env reg (uuid, ProcessI) ''ServerAdapter'' ''default -p 10000'' None = (Inr a, evs)"
    and "env_getProperty env ''ServerAdapter.AdapterId'' = []" and "env_getPropertyAsInt env ''ServerAdapter.RegisterProcess'' \<le> 0"
  shows "\<exists>fac' a'. startServer env reg uuid (adapter_factory_new :: ('l, 'e) server) = Inr fac' \<and>
    sm_find ''ServerAdapter'' (af_adapters fac') = Some a' \<and> oa_activateOneOffDone a' \<and> serving a' \<and> resting a' \<and>
    oa_factories a' = oa_factories a \<and>
    adapter_look a' = [(serialPort_id, []) \<mapsto> SerialPortI, (driver_id, []) \<mapsto> DriverI] \<and>
    server_main env reg uuid (Inr (adapter_factory_new :: ('l, 'e) server)) (Inr ()) (Inr ()) = Some 0"
  using server_up [OF assms] by blast

text \<open>The adapter of the sample environment, which listens on one endpoint.\<close>

lemma sample_server_adapter:
  "\<exists>a. adapter_new calm_env deaf_registry ([], ProcessI) ''ServerAdapter'' ''default -p 10000'' None = (Inr (a :: (server_object, nat, nat) adapter), []) \<and>
     oa_factories a = [16]"
proof -
  have "endpointLoop mk ''default -p 10000'' 0 [] = andThen (mk ''default -p 10000'') Inr" for mk :: "string \<Rightarrow> failure + nat list"
    by (simp add: endpointLoop.simps str_find_def is_delim_def endpointEnd_def)
  moreover have "endpointLoop mk [] 0 [] = Inr []" for mk :: "string \<Rightarrow> failure + nat list"
    by (simp add: endpointLoop.simps)
  moreover have "map tolower ''default -p 10000'' = ''default -p 10000''" by (simp add: tolower_def)
  ultimately show ?thesis
    by (simp add: adapter_new_def adapter_setup_def pickRouter_def useEndpoints_def parseEndpoints_def createEndpoint_def
        useLocator_def setLocator_def useThreadPool_def oa_then_def checkForDeactivation_def Let_def calm_defs)
qed

lemma server_starts_witness:
  "\<exists>fac' a'. startServer calm_env deaf_registry [] (adapter_factory_new :: (nat, nat) server) = Inr fac' \<and>
     sm_find ''ServerAdapter'' (af_adapters fac') = Some a' \<and> oa_factories a' = [16] \<and>
     adapter_look a' (serialPort_id, []) = Some SerialPortI"
proof -
  obtain a :: "(server_object, nat, nat) adapter"
    where a: "adapter_new calm_env deaf_registry ([], ProcessI) ''ServerAdapter'' ''default -p 10000'' None = (Inr a, [])"
      "oa_factories a = [16]" using sample_server_adapter by blast
  have "env_getProperty calm_env ''ServerAdapter.AdapterId'' = []" "env_getPropertyAsInt calm_env ''ServerAdapter.RegisterProcess'' \<le> 0"
    by (simp_all add: calm_env_def)
  from server_starts [OF a(1) this] a(2) show ?thesis by (auto simp: serialPort_id_def driver_id_def)
qed

end
