(* ===== verification/Outgoing.thy ===== *)
theory Outgoing imports Incoming ConnectionReceive begin

text \<open>
  One request on the side of the client, \<^verbatim>\<open>src/Ice-3.1.1/src/Ice/Outgoing.cpp\<close>: the constructor that marshals the
  header, the critical sections of \<open>invoke\<close>, \<open>abort\<close>, and the two callbacks \<open>finished\<close>, by which the
  connection delivers a reply or an exception.  The marshaling of identities and the string
  converter are those of the record \<open>dispatch_env\<close>.
\<close>

section \<open>Model\<close>

datatype ref_mode = ModeTwoway | ModeOneway | ModeBatchOneway | ModeDatagram | ModeBatchDatagram

datatype out_state = StateUnsent | StateInProgress | StateOK | StateUserException | StateLocalException

fun out_num :: "out_state \<Rightarrow> nat" where
  "out_num StateUnsent = 0"
| "out_num StateInProgress = 1"
| "out_num StateOK = 2"
| "out_num StateUserException = 3"
| "out_num StateLocalException = 4"

lemma out_num_inject: "out_num a = out_num b \<longleftrightarrow> a = b"
  by (cases a; cases b) auto

instantiation out_state :: linorder
begin

definition less_eq_out_state :: "out_state \<Rightarrow> out_state \<Rightarrow> bool" where
  "less_eq_out_state a b \<longleftrightarrow> out_num a \<le> out_num b"

definition less_out_state :: "out_state \<Rightarrow> out_state \<Rightarrow> bool" where
  "less_out_state a b \<longleftrightarrow> out_num a < out_num b"

instance
  by standard (auto simp: less_eq_out_state_def less_out_state_def out_num_inject)

end

text \<open>The exceptions an \<open>Outgoing\<close> keeps, and what \<open>invoke\<close> and the constructor end with when they do not return.\<close>

datatype unknown_kind = UnknownKind | UnknownLocalKind | UnknownUserKind

datatype out_exception =
    LocalEx local_exception
  | RequestFailedEx request_failed identity string string
  | UnknownEx unknown_kind string

datatype out_throw =
    Throws out_exception
  | LocalExceptionWrapper out_exception bool      \<comment> \<open>\<open>retry\<close>\<close>
  | Crashes failure

fun of_failure :: "failure \<Rightarrow> out_throw" where
  "of_failure (Thrown e) = Throws (LocalEx e)"
| "of_failure f = Crashes f"

record outgoing =
  out_mode :: ref_mode
  out_state :: out_state
  out_exception :: "out_exception option"
  out_is :: stream
  out_os :: stream
  out_compress :: bool

definition is_batch :: "ref_mode \<Rightarrow> bool" where
  "is_batch mode \<longleftrightarrow> mode = ModeBatchOneway \<or> mode = ModeBatchDatagram"

subsection \<open>Construction\<close>

fun writeContext :: "bool \<Rightarrow> char converter option \<Rightarrow> (string \<times> string) list \<Rightarrow> writer" where
  "writeContext big conv [] s = Inr s"
| "writeContext big conv ((k, v) # ctx) s =
     andThen (write_string big conv True k s) (\<lambda>s1. andThen (write_string big conv True v s1) (writeContext big conv ctx))"

definition writeRequest ::
  "bool \<Rightarrow> ('o, 'l, 'c) dispatch_env \<Rightarrow> identity \<Rightarrow> string \<Rightarrow> string \<Rightarrow> byte \<Rightarrow> (string, string) smap \<Rightarrow> writer" where
  "writeRequest big env ident facet operation mode ctx s =
     andThen (writeIdentity env ident s) (\<lambda>s1.
     andThen (writeFacetPath big (converter_of env) facet s1) (\<lambda>s2.
     andThen (write_string big None False operation s2) (\<lambda>s3.
     andThen (write_Byte mode s3) (\<lambda>s4.
     andThen (writeSize big (word_of_nat (length ctx)) s4) (\<lambda>s5.
     andThen (writeContext big (converter_of env) ctx s5) (startWriteEncaps big))))))"

definition out_abort :: "local_exception \<Rightarrow> outgoing \<Rightarrow> 'q connection \<Rightarrow> out_throw \<times> 'q connection" where
  "out_abort ex out c =
     (if out_state out \<noteq> StateUnsent then (Crashes AssertionFailed, c)
      else if is_batch (out_mode out) then
        (case abortBatchRequest c of
           (Inl f, c') \<Rightarrow> (of_failure f, c')
         | (Inr _, c') \<Rightarrow> (LocalExceptionWrapper (LocalEx ex) False, c'))
      else (Throws (LocalEx ex), c))"

text \<open>The constructor; \<open>None\<close> as long as it waits for the batch stream.\<close>

definition outgoing_new ::
  "bool \<Rightarrow> ('o, 'l, 'c) dispatch_env \<Rightarrow> io \<Rightarrow> nat \<Rightarrow> ref_mode \<Rightarrow> identity \<Rightarrow> string \<Rightarrow> string \<Rightarrow> byte \<Rightarrow> (string, string) smap
     \<Rightarrow> bool \<Rightarrow> 'q connection \<Rightarrow> ((out_throw + outgoing) \<times> 'q connection) option" where
  "outgoing_new big env io maxSize refmode ident facet operation mode ctx compress c =
     map_option (\<lambda>(r, c1).
       case r of
         Inl f \<Rightarrow> (Inl (of_failure f), c1)
       | Inr os \<Rightarrow>
           let out = \<lparr>out_mode = refmode, out_state = StateUnsent, out_exception = None, out_is = stream_new maxSize,
                      out_os = os, out_compress = compress\<rparr>
           in case writeRequest big env ident facet operation mode ctx os of
                Inl (Thrown ex) \<Rightarrow> (case out_abort ex out c1 of (t, c2) \<Rightarrow> (Inl t, c2))
              | Inl f \<Rightarrow> (Inl (Crashes f), c1)
              | Inr os' \<Rightarrow> (Inr (out\<lparr>out_os := os'\<rparr>), c1))
       (if is_batch refmode then prepareBatchRequest io (stream_new maxSize) c
        else Some (writeBlob requestHdr (stream_new maxSize), c))"

subsection \<open>Invocation\<close>

text \<open>
  A twoway \<open>invoke\<close> closes the encapsulation, sends (\<open>sendRequest\<close>, without locking this object), enters the
  wait, and evaluates what a callback has left.
\<close>

definition invokeBegin :: "bool \<Rightarrow> outgoing \<Rightarrow> failure + outgoing" where
  "invokeBegin big out =
     (if out_state out \<noteq> StateUnsent then Inl AssertionFailed
      else andThen (endWriteEncaps big (out_os out)) (\<lambda>os. Inr (out\<lparr>out_os := os\<rparr>)))"

definition enterWait :: "outgoing \<Rightarrow> outgoing" where
  "enterWait out = (if out_state out = StateUnsent then out\<lparr>out_state := StateInProgress\<rparr> else out)"

text \<open>Exceptions after which the request may always be repeated are thrown as they are.\<close>

fun repeatable :: "out_exception \<Rightarrow> bool" where
  "repeatable (LocalEx e) \<longleftrightarrow> e = CloseConnectionException"
| "repeatable (RequestFailedEx k _ _ _) \<longleftrightarrow> k = ObjectNotExistException"
| "repeatable (UnknownEx _ _) \<longleftrightarrow> False"

definition invokeResult :: "outgoing \<Rightarrow> out_throw + bool" where
  "invokeResult out =
     (case out_exception out of
        Some ex \<Rightarrow> Inl (if repeatable ex then Throws ex else LocalExceptionWrapper ex False)
      | None \<Rightarrow>
          if out_state out = StateUserException then Inr False
          else if out_state out \<noteq> StateOK then Inl (Crashes AssertionFailed)
          else Inr True)"

text \<open>The other modes: nobody calls back.\<close>

definition invokeOneway ::
  "bool \<Rightarrow> bzip2 \<Rightarrow> io \<Rightarrow> outgoing \<Rightarrow> 'q connection \<Rightarrow> (out_throw + bool) \<times> outgoing \<times> 'q connection" where
  "invokeOneway big bz io out c =
     (case invokeBegin big out of
        Inl f \<Rightarrow> (Inl (of_failure f), out, c)
      | Inr out1 \<Rightarrow>
          let out2 = out1\<lparr>out_state := StateInProgress\<rparr>
          in if is_batch (out_mode out2) then
               (case finishBatchRequest (out_os out2) (out_compress out2) c of
                  (Inl f, c1) \<Rightarrow> (Inl (of_failure f), out2, c1)
                | (Inr os, c1) \<Rightarrow> (Inr True, out2\<lparr>out_os := os\<rparr>, c1))
             else
               (case sendRequest big bz io None (out_compress out2) (buf (out_os out2)) c of
                  (Inl f, c1) \<Rightarrow> (Inl (of_failure f), out2, c1)
                | (Inr (Some ex), c1) \<Rightarrow> (Inl (LocalExceptionWrapper (LocalEx ex) True), out2, c1)
                | (Inr None, c1) \<Rightarrow> (Inr True, out2, c1)))"

subsection \<open>Callbacks\<close>

text \<open>The switch over the status of a reply: the new state and exception.\<close>

definition readFailedRequest :: "bool \<Rightarrow> ('o, 'l, 'c) dispatch_env \<Rightarrow> request_failed \<Rightarrow> (out_state \<times> out_exception option) reader" where
  "readFailedRequest big env kind =
     rbind (readIdentity env) (\<lambda>ident.
     rbind (read_stringSeq big (converter_of env) True) (\<lambda>facetPath.
     rbind (facetOfPath facetPath) (\<lambda>facet.
     rbind (read_string big None False) (\<lambda>operation.
     rret (StateLocalException, Some (RequestFailedEx kind ident facet operation))))))"

definition readUnknown :: "bool \<Rightarrow> unknown_kind \<Rightarrow> (out_state \<times> out_exception option) reader" where
  "readUnknown big kind =
     rbind (read_string big None False) (\<lambda>unknown. rret (StateLocalException, Some (UnknownEx kind unknown)))"

definition readReply :: "bool \<Rightarrow> ('o, 'l, 'c) dispatch_env \<Rightarrow> (out_state \<times> out_exception option) reader" where
  "readReply big env =
     rbind read_Byte (\<lambda>status s.
       if status = status_byte DispatchOK then andThen (startReadEncaps big s) (rret (StateOK, None))
       else if status = status_byte DispatchUserException then andThen (startReadEncaps big s) (rret (StateUserException, None))
       else if status = status_byte DispatchObjectNotExist then readFailedRequest big env ObjectNotExistException s
       else if status = status_byte DispatchFacetNotExist then readFailedRequest big env FacetNotExistException s
       else if status = status_byte DispatchOperationNotExist then readFailedRequest big env OperationNotExistException s
       else if status = status_byte DispatchUnknownException then readUnknown big UnknownKind s
       else if status = status_byte DispatchUnknownLocalException then readUnknown big UnknownLocalKind s
       else if status = status_byte DispatchUnknownUserException then readUnknown big UnknownUserKind s
       else rret (StateLocalException, Some (LocalEx UnknownReplyStatusException)) s)"

text \<open>
  \<open>finished(BasicStream&)\<close>: the stream is taken over before it is read, the state is set last; when reading
  throws, the state is what it was.
\<close>

definition out_finished :: "bool \<Rightarrow> ('o, 'l, 'c) dispatch_env \<Rightarrow> stream \<Rightarrow> outgoing \<Rightarrow> (failure + unit) \<times> outgoing" where
  "out_finished big env istr out =
     (if out_mode out \<noteq> ModeTwoway \<or> \<not> out_state out \<le> StateInProgress then (Inl AssertionFailed, out)
      else case readReply big env istr of
          Inl f \<Rightarrow> (Inl f, out\<lparr>out_is := istr\<rparr>)
        | Inr ((st, ex), istr') \<Rightarrow>
            (Inr (), out\<lparr>out_is := istr', out_state := st,
                         out_exception := (case ex of None \<Rightarrow> out_exception out | Some e \<Rightarrow> Some e)\<rparr>))"

definition out_finishedEx :: "local_exception \<Rightarrow> outgoing \<Rightarrow> (failure + unit) \<times> outgoing" where
  "out_finishedEx ex out =
     (if out_mode out \<noteq> ModeTwoway \<or> \<not> out_state out \<le> StateInProgress then (Inl AssertionFailed, out)
      else (Inr (), out\<lparr>out_state := StateLocalException, out_exception := Some (LocalEx ex)\<rparr>))"

text \<open>The outcome of \<open>finished\<close> as the connection sees it.\<close>

definition out_accepts :: "bool \<Rightarrow> ('o, 'l, 'c) dispatch_env \<Rightarrow> outgoing \<Rightarrow> stream \<Rightarrow> local_exception option" where
  "out_accepts big env out s = (case fst (out_finished big env s out) of Inl (Thrown e) \<Rightarrow> Some e | _ \<Rightarrow> None)"

section \<open>Reading a reply\<close>

text \<open>A result that is not an exception of the socket layer.\<close>

definition benign :: "failure + 'a \<Rightarrow> bool" where
  "benign r \<longleftrightarrow> (\<forall>e. r = Inl (Thrown e) \<longrightarrow> \<not> is_socket e)"

lemma benign_simps [simp]:
  "benign (Inr x)" "benign (Inl (Thrown e)) \<longleftrightarrow> \<not> is_socket e" "benign (Inl AssertionFailed)" "benign (Inl MemoryFault)"
  by (simp_all add: benign_def)

lemma benign_andThen: "benign m \<Longrightarrow> (\<And>x. benign (f x)) \<Longrightarrow> benign (andThen m f)"
  by (cases m) (simp_all add: benign_def)

lemma benign_rbind: "benign (m s) \<Longrightarrow> (\<And>x s'. benign (f x s')) \<Longrightarrow> benign (rbind m f s)"
  unfolding rbind_def by (rule benign_andThen) auto

lemma benign_basic [simp]:
  "benign (rret x s)" "benign (read_Byte s)" "benign (takeBytes n s)" "benign (checkSeq left s)"
  "benign (endElement s)" "benign (endSeq sz s)" "benign (facetOfPath path s)"
  by (simp_all add: rret_def read_Byte_def takeBytes_def checkSeq_def endElement_def endSeq_def facetOfPath_def is_socket_def
      split: list.splits)

lemma benign_startSeq [simp]: "benign (startSeq n m s)"
  by (simp add: startSeq_def Let_def is_socket_def)

lemma benign_read_Int [simp]: "benign (read_Int big s)"
  unfolding read_Int_def readFixed_def by (intro benign_rbind benign_basic)

lemma benign_readSize [simp]: "benign (readSize big s)"
  unfolding readSize_def by (rule benign_rbind) (auto simp: is_socket_def intro!: benign_rbind)

lemma benign_readCount [simp]: "benign (readCount big s)"
  unfolding readCount_def by (rule benign_rbind) (auto simp: is_socket_def)

lemma benign_read_string [simp]: "benign (read_string big None convert s)"
  unfolding read_string_def by (rule benign_rbind) (auto intro!: benign_rbind)

lemma benign_elemLoop: "(\<And>s. benign (rd s)) \<Longrightarrow> benign (elemLoop rd j s)"
  by (induction j arbitrary: s) (auto intro!: benign_andThen)

lemma benign_read_stringSeq [simp]: "benign (read_stringSeq big None convert s)"
  unfolding read_stringSeq_def readElems_def
  by (rule benign_rbind) (auto intro!: benign_andThen benign_elemLoop)

lemma benign_startReadEncaps [simp]: "benign (startReadEncaps big s)"
  unfolding startReadEncaps_def Let_def by (rule benign_andThen) (auto simp: is_socket_def intro!: benign_andThen)

text \<open>
  \<open>tidy r\<close>: a result that is an exception or a stream with the iterator inside the message and no sequence open.
\<close>

definition at_rest :: "stream \<Rightarrow> bool" where
  "at_rest s \<longleftrightarrow> stream_ok s \<and> seqDataStack s = []"

definition tidy :: "failure + 'a \<times> stream \<Rightarrow> bool" where
  "tidy r \<longleftrightarrow> (case r of Inl (Thrown e) \<Rightarrow> True | Inl _ \<Rightarrow> False | Inr (x, s) \<Rightarrow> at_rest s)"

lemma tidy_simps [simp]:
  "tidy (Inl f) \<longleftrightarrow> (\<exists>e. f = Thrown e)" "tidy (Inr (x, s)) \<longleftrightarrow> at_rest s"
  by (simp_all add: tidy_def split: failure.splits)

lemma tidy_rbind: "tidy (m s) \<Longrightarrow> (\<And>x s'. m s = Inr (x, s') \<Longrightarrow> at_rest s' \<Longrightarrow> tidy (f x s')) \<Longrightarrow> tidy (rbind m f s)"
  by (cases "m s") (auto simp: rbind_def)

lemma tidy_safe: "safe_read rd \<Longrightarrow> at_rest s \<Longrightarrow> tidy (rd s)"
proof (cases "rd s")
  case (Inl f)
  assume "safe_read rd" "at_rest s"
  then show ?thesis using Inl by (cases f) (auto simp: safe_read_def at_rest_def dest!: spec [of _ s])
next
  case (Inr p)
  assume rd: "safe_read rd" "at_rest s"
  obtain x t where p: "rd s = Inr (x, t)" using Inr by (cases p) simp
  then show ?thesis using safe_readD [OF rd(1) _ p] rd(2) by (auto simp: at_rest_def)
qed

lemma tidy_stringSeq: "at_rest s \<Longrightarrow> tidy (read_stringSeq big None convert s)"
  using readElems_safe [OF safe_read_string [of big convert], of s big]
  by (auto simp: read_stringSeq_def at_rest_def split: sum.splits failure.splits)

lemma tidy_facetOfPath: "at_rest s \<Longrightarrow> tidy (facetOfPath path s)"
  by (simp add: facetOfPath_def split: list.splits)

lemma startReadEncaps_tidy:
  assumes "at_rest s"
  shows "tidy (andThen (startReadEncaps big s) (rret x))"
proof -
  have rest: "at_rest (t\<lparr>readEncapsStack := st\<rparr>) = at_rest t" for t st by (simp add: at_rest_def stream_ok_def)
  have "tidy (rbind (readCount big) (\<lambda>sz s1.
         if rpos s1 - 4 + sint sz > int (length (buf s1)) then throw UnmarshalOutOfBoundsException
         else rbind read_Byte (\<lambda>eMajor. rbind read_Byte (\<lambda>eMinor s3.
              if eMajor \<noteq> encodingMajor \<or> unat eMinor > unat encodingMinor
              then throw (UnsupportedEncodingException eMajor eMinor)
              else Inr (x, s3\<lparr>readEncapsStack :=
                     \<lparr>re_start = rpos s, re_sz = sz, re_typeIdMap = None, re_typeIdIndex = 0\<rparr> # readEncapsStack s3\<rparr>))) s1) s)"
    by (rule tidy_rbind [where m = "readCount big", OF tidy_safe [OF safe_readCount assms]])
      (auto simp: rest intro!: tidy_rbind tidy_safe [OF safe_read_Byte])
  moreover have "andThen (startReadEncaps big s) (rret x) = rbind (readCount big) (\<lambda>sz s1.
         if rpos s1 - 4 + sint sz > int (length (buf s1)) then throw UnmarshalOutOfBoundsException
         else rbind read_Byte (\<lambda>eMajor. rbind read_Byte (\<lambda>eMinor s3.
              if eMajor \<noteq> encodingMajor \<or> unat eMinor > unat encodingMinor
              then throw (UnsupportedEncodingException eMajor eMinor)
              else Inr (x, s3\<lparr>readEncapsStack :=
                     \<lparr>re_start = rpos s, re_sz = sz, re_typeIdMap = None, re_typeIdIndex = 0\<rparr> # readEncapsStack s3\<rparr>))) s1) s"
    by (auto simp: startReadEncaps_def rbind_def rret_def Let_def andThen_def split: sum.splits)
  ultimately show ?thesis by simp
qed

text \<open>A request that has been answered: the state is final, and there is an exception exactly when it says so.\<close>

definition answered :: "outgoing \<Rightarrow> bool" where
  "answered out \<longleftrightarrow> StateInProgress < out_state out \<and> (out_exception out \<noteq> None) = (out_state out = StateLocalException)"

lemmas out_order = less_eq_out_state_def less_out_state_def

lemma readReply_state:
  assumes "readReply big env s = Inr ((st, ex), s')"
  shows "StateInProgress < st" "(ex \<noteq> None) = (st = StateLocalException)"
  using assms
  by (auto simp: readReply_def readFailedRequest_def readUnknown_def rbind_def rret_def andThen_eq_Inr out_order split: if_splits)

text \<open>
  What the client needs of the generated unmarshaling of an identity, and what it gets: \<open>finished\<close> ends with
  an answer or throws an exception of the marshaling engine, whatever the bytes of the reply are.
\<close>

locale reply_reader =
  fixes env :: "('o, 'l, 'c) dispatch_env"
  assumes no_converter: "converter_of env = None"
    and identity_safe: "safe_read (readIdentity env)"
    and identity_benign: "benign (readIdentity env s)"
begin

lemma readReply_benign: "benign (readReply big env s)"
  unfolding readReply_def readFailedRequest_def readUnknown_def no_converter
  by (rule benign_rbind) (auto intro!: benign_rbind benign_andThen identity_benign)

lemma readFailedRequest_tidy: "at_rest s \<Longrightarrow> tidy (readFailedRequest big env kind s)"
  unfolding readFailedRequest_def no_converter
  by (auto simp: rret_def intro!: tidy_rbind tidy_safe [OF identity_safe] tidy_stringSeq tidy_facetOfPath tidy_safe [OF safe_read_string])

lemma readReply_tidy: "at_rest s \<Longrightarrow> tidy (readReply big env s)"
  unfolding readReply_def
  by (auto simp: rret_def [abs_def] readUnknown_def
      intro!: tidy_rbind tidy_safe [OF safe_read_Byte] tidy_safe [OF safe_read_string] readFailedRequest_tidy
        startReadEncaps_tidy [unfolded rret_def [abs_def]])

lemma accepts_ok: "accept_ok (\<lambda>q. out_accepts big env (outs q))"
  unfolding accept_ok_def
proof (intro allI impI)
  fix q s e
  assume "out_accepts big env (outs q) s = Some e"
  then have "fst (out_finished big env s (outs q)) = Inl (Thrown e)"
    by (auto simp: out_accepts_def split: sum.splits failure.splits)
  then have "readReply big env s = Inl (Thrown e)"
    by (auto simp: out_finished_def split: if_splits sum.splits prod.splits)
  then show "\<not> is_socket e" using readReply_benign [of big s] by simp
qed

lemma finished_result:
  assumes "at_rest s" "out_mode out = ModeTwoway" "out_state out \<le> StateInProgress" "out_exception out = None"
  shows "(\<exists>e out'. out_finished big env s out = (Inl (Thrown e), out\<lparr>out_is := s\<rparr>)) \<or>
    (\<exists>out'. out_finished big env s out = (Inr (), out') \<and> answered out' \<and> out_mode out' = ModeTwoway)"
proof (cases "readReply big env s")
  case (Inl f)
  then show ?thesis using readReply_tidy [OF assms(1), of big] assms by (auto simp: out_finished_def)
next
  case (Inr p)
  then obtain st ex s' where r: "readReply big env s = Inr ((st, ex), s')" by (metis surj_pair)
  then show ?thesis using readReply_state [OF r] assms by (auto simp: out_finished_def answered_def split: option.splits)
qed

end

lemma plain_identity_safe: "safe_read (readIdentity (plain_env big))"
  by (auto simp: plain_env_def intro!: safe_read_rbind safe_read_string)

lemma plain_identity_benign: "benign (readIdentity (plain_env big) s)"
  by (auto simp: plain_env_def intro!: benign_rbind)

interpretation plain_reader: reply_reader "plain_env big" for big
  by unfold_locales (simp add: plain_env_def, rule plain_identity_safe, rule plain_identity_benign)

lemma finishedEx_result:
  "out_mode out = ModeTwoway \<Longrightarrow> out_state out \<le> StateInProgress \<Longrightarrow>
     \<exists>out'. out_finishedEx ex out = (Inr (), out') \<and> answered out' \<and> out_mode out' = ModeTwoway"
  by (simp add: out_finishedEx_def answered_def out_order)

lemma answered_result: "answered out \<Longrightarrow> \<forall>f. invokeResult out \<noteq> Inl (Crashes f)"
  by (cases "out_state out") (auto simp: answered_def invokeResult_def out_order split: option.splits)

section \<open>From the client to the server\<close>

lemma writeContext_fits:
  assumes "list_all (\<lambda>(k, v). length k < 2147483648 \<and> length v < 2147483648) ctx"
    and "length (buf s) + length (ctx_bytes ctx) \<le> messageSizeMax s"
  shows "writeContext big None ctx s = Inr (s\<lparr>buf := buf s @ ctx_bytes ctx\<rparr>)"
  using assms
proof (induction ctx arbitrary: s)
  case Nil
  then show ?case by (simp add: ctx_bytes_def)
next
  case (Cons kv ctx)
  obtain k v where kv: "kv = (k, v)" by (cases kv)
  let ?s = "s\<lparr>buf := buf s @ string_bytes k @ string_bytes v\<rparr>"
  have "writeContext big None ctx ?s = Inr (?s\<lparr>buf := buf ?s @ ctx_bytes ctx\<rparr>)"
    using Cons.prems kv by (intro Cons.IH) (simp_all add: ctx_bytes_def)
  then show ?case using Cons.prems kv by (simp add: ctx_bytes_def string_codec.write_fits)
qed

text \<open>The constructor marshals the header of the request and opens the encapsulation.\<close>

lemma writeRequest_eq:
  assumes codec: "wire_codec valid enc (writeIdentity env) (readIdentity env) (\<lambda>_. True)" and conv: "converter_of env = None"
    and ok: "request_valid valid ident facet operation ctx"
    and fits: "length (buf s) + length (request_bytes enc ident facet operation mode ctx) \<le> messageSizeMax s"
  shows "writeRequest big env ident facet operation mode ctx s =
    startWriteEncaps big (s\<lparr>buf := buf s @ request_bytes enc ident facet operation mode ctx\<rparr>)"
proof -
  have v: "valid ident" "length facet < 2147483648" "length operation < 2147483648" "length ctx < 2147483648"
    "list_all (\<lambda>(k, v). length k < 2147483648 \<and> length v < 2147483648) ctx"
    using ok by (simp_all add: request_valid_def)
  have id: "writeIdentity env ident s = Inr (s\<lparr>buf := buf s @ enc ident\<rparr>)"
    using fits by (intro wire_codec.write_fits [OF codec v(1)]) (simp add: request_bytes_def)
  have sz: "writeSize big (word_of_nat (length ctx)) t = Inr (t\<lparr>buf := buf t @ size_bytes (word_of_nat (length ctx))\<rparr>)"
    if "length (buf t) + length (size_bytes (word_of_nat (length ctx))) \<le> messageSizeMax t" for t
    by (rule size_write_then(1) [OF v(4) that])
  show ?thesis using v conv fits id
    by (simp add: writeRequest_def request_bytes_def facet_path_codec string_codec.write_fits write_Byte_def sz writeContext_fits)
qed

lemma readFailedRequest_at:
  assumes codec: "wire_codec valid enc (writeIdentity env) (readIdentity env) (\<lambda>_. True)" and conv: "converter_of env = None"
    and ok: "valid ident" "length facet < 2147483648" "length operation < 2147483648"
    and at: "at s pre (enc ident @ facet_bytes facet @ string_bytes operation) post" and ready: "seq_ready s"
  shows "readFailedRequest big env kind s = Inr ((StateLocalException, Some (RequestFailedEx kind ident facet operation)),
    skip s (length (enc ident @ facet_bytes facet @ string_bytes operation)))"
proof -
  note at2 = at_next [OF at] note at3 = at_next [OF at2]
  have r1: "readIdentity env s = Inr (ident, skip s (length (enc ident)))"
    by (rule wire_codec.read_back [OF codec ok(1) TrueI at_append [OF at]])
  let ?s1 = "skip s (length (enc ident))"
  have r2: "rbind (read_stringSeq big None True) facetOfPath ?s1 = Inr (facet, skip ?s1 (length (facet_bytes facet)))"
    by (rule facet_at [OF at_append [OF at2] ok(2)]) (simp add: ready)
  then obtain path t where r2': "read_stringSeq big None True ?s1 = Inr (path, t)"
    "facetOfPath path t = Inr (facet, skip ?s1 (length (facet_bytes facet)))"
    by (auto simp: rbind_def andThen_eq_Inr)
  let ?s2 = "skip ?s1 (length (facet_bytes facet))"
  have "at ?s2 ((pre @ enc ident) @ facet_bytes facet) (string_bytes operation @ []) post" using at3 by simp
  from at_append [OF this] have r3: "read_string big None False ?s2 = Inr (operation, skip ?s2 (length (string_bytes operation)))"
    by (intro string_codec.read_back [OF ok(3) TrueI])
  show ?thesis using r1 r2' r3 conv by (simp add: readFailedRequest_def rbind_def rret_def add.assoc)
qed

text \<open>What is sent: the header, the fields and the parameters in an encapsulation.\<close>

lemma outgoing_new_twoway:
  assumes "outgoing_new big env io maxSize ModeTwoway ident facet operation mode ctx compress c = Some (Inr out, c')"
  obtains "18 \<le> maxSize" "c' = c" "out_state out = StateUnsent" "out_exception out = None" "out_mode out = ModeTwoway"
    "out_compress out = compress"
    "writeRequest big env ident facet operation mode ctx ((stream_new maxSize)\<lparr>buf := requestHdr\<rparr>) = Inr (out_os out)"
proof -
  have hdr: "writeBlob requestHdr (stream_new maxSize) =
      (if 18 \<le> maxSize then Inr ((stream_new maxSize)\<lparr>buf := requestHdr\<rparr>) else throw MemoryLimitException)"
    by (auto simp: writeBlob_def requestHdr_def magic_def appendBytes_def stream_resize_def stream_new_def overwrite_def)
  show thesis using assms that
    by (auto simp: outgoing_new_def is_batch_def hdr Let_def out_abort_def split: if_splits sum.splits failure.splits)
qed

lemma request_sent:
  assumes codec: "wire_codec valid enc (writeIdentity env) (readIdentity env) (\<lambda>_. True)" and conv: "converter_of env = None"
    and ok: "request_valid valid ident facet operation ctx"
    and new: "outgoing_new big env io maxSize ModeTwoway ident facet operation mode ctx compress c = Some (Inr out, c')"
    and fits: "18 + length (request_bytes enc ident facet operation mode ctx) \<le> maxSize"
    and params: "out1 = out\<lparr>out_os := (out_os out)\<lparr>buf := buf (out_os out) @ body\<rparr>\<rparr>"
    and sent: "invokeBegin big out1 = Inr out2"
  shows "buf (out_os out2) = requestHdr @ request_bytes enc ident facet operation mode ctx @ encaps_bytes body"
proof -
  let ?s = "(stream_new maxSize)\<lparr>buf := requestHdr\<rparr>"
  let ?req = "request_bytes enc ident facet operation mode ctx"
  obtain "out_state out = StateUnsent" and w: "writeRequest big env ident facet operation mode ctx ?s = Inr (out_os out)"
    using outgoing_new_twoway [OF new] by metis
  have "writeRequest big env ident facet operation mode ctx ?s = startWriteEncaps big (?s\<lparr>buf := buf ?s @ ?req\<rparr>)"
    using fits by (intro writeRequest_eq [OF codec conv ok]) (simp add: stream_new_def)
  then have start: "startWriteEncaps big (?s\<lparr>buf := buf ?s @ ?req\<rparr>) = Inr (out_os out)" using w by simp
  have "endWriteEncaps big ((out_os out)\<lparr>buf := buf (out_os out) @ body\<rparr>) = Inr (out_os out2)"
    using sent params by (auto simp: invokeBegin_def andThen_eq_Inr split: if_splits)
  from write_encaps [OF start refl this] show ?thesis by simp
qed

lemma request_received:
  assumes codec: "wire_codec valid enc (writeIdentity senv) (readIdentity senv) (\<lambda>_. True)" and conv: "converter_of senv = None"
    and ok: "request_valid valid ident facet operation ctx"
    and bytes: "buf s = hdr @ request_bytes enc ident facet operation mode ctx @ encaps_bytes body"
    and s: "rpos s = int (length hdr)" "seq_ready s"
  shows "\<exists>cur is1 is2. readCurrent big senv requestId s = Inr (cur, is1) \<and> startReadEncaps big is1 = Inr is2 \<and>
    cur_id cur = ident \<and> cur_facet cur = facet \<and> cur_operation cur = operation \<and> cur_mode cur = mode \<and>
    cur_requestId cur = requestId \<and> (\<forall>k. sm_find k (cur_ctx cur) = map_of ctx k) \<and> drop (nat (rpos is2)) (buf is2) = body"
proof -
  let ?req = "request_bytes enc ident facet operation mode ctx"
  have at: "at s hdr ?req (encaps_bytes body)" using bytes s by (simp add: at_def)
  obtain cur where cur: "readCurrent big senv requestId s = Inr (cur, skip s (length ?req))" "cur_id cur = ident"
      "cur_facet cur = facet" "cur_operation cur = operation" "cur_mode cur = mode" "cur_requestId cur = requestId"
      "\<forall>k. sm_find k (cur_ctx cur) = map_of ctx k"
    using readCurrent_request [OF codec conv ok at s(2)] by blast
  have at2: "at (skip s (length ?req)) (hdr @ ?req) (encaps_bytes body) []" using bytes s by (simp add: at_def)
  have len: "6 + length body < 2147483648" using bytes s(2) by (simp add: seq_ready_def encaps_bytes_def)
  show ?thesis using cur startReadEncaps_at [OF at2 len, of big] bytes s by (auto simp: encaps_bytes_def nat_add_distrib)
qed

text \<open>
  The request a client makes is the request the server gets.  A client of either byte order constructs a
  twoway request, marshals any parameters behind it and invokes it; a server of either byte order that
  finds the bytes of the stream in a message reads the identity, the facet, the operation, the mode and
  the context that were given, and its encapsulation holds the parameters.
\<close>

lemma request_roundtrip:
  assumes codec: "wire_codec valid enc (writeIdentity env) (readIdentity env) (\<lambda>_. True)" and conv: "converter_of env = None"
    and scodec: "wire_codec valid enc (writeIdentity senv) (readIdentity senv) (\<lambda>_. True)" and sconv: "converter_of senv = None"
    and ok: "request_valid valid ident facet operation ctx"
    and new: "outgoing_new big env io maxSize ModeTwoway ident facet operation mode ctx compress c = Some (Inr out, c')"
    and fits: "18 + length (request_bytes enc ident facet operation mode ctx) \<le> maxSize"
    and sent: "invokeBegin big (out\<lparr>out_os := (out_os out)\<lparr>buf := buf (out_os out) @ body\<rparr>\<rparr>) = Inr out2"
    and s: "buf s = buf (out_os out2)" "rpos s = 18" "seq_ready s"
  shows "\<exists>cur is1 is2. readCurrent sbig senv requestId s = Inr (cur, is1) \<and> startReadEncaps sbig is1 = Inr is2 \<and>
    cur_id cur = ident \<and> cur_facet cur = facet \<and> cur_operation cur = operation \<and> cur_mode cur = mode \<and>
    cur_requestId cur = requestId \<and> (\<forall>k. sm_find k (cur_ctx cur) = map_of ctx k) \<and> drop (nat (rpos is2)) (buf is2) = body"
  using request_sent [OF codec conv ok new fits refl sent] s
  by (intro request_received [OF scodec sconv ok, where hdr = requestHdr]) simp_all

lemma request_roundtrip_witness:
  "case outgoing_new True (plain_env True)
        \<lparr>io_now = 0, io_initialize = None, io_read = Inl SocketException, io_write = (\<lambda>_. None), io_close = None,
         io_shutdownWrite = None, io_shutdownReadWrite = None\<rparr>
        200 ModeTwoway \<lparr>name = ''A'', category = []\<rparr> ''f'' ''op'' 0 [(''k'', ''v'')] False
        (connection_new 200 False False False False 0 0 0 1 :: nat connection) of
     Some (Inr out, _) \<Rightarrow>
       (case invokeBegin True (out\<lparr>out_os := (out_os out)\<lparr>buf := buf (out_os out) @ [7, 8]\<rparr>\<rparr>) of
          Inr out2 \<Rightarrow>
            \<exists>cur is1 is2. readCurrent False (plain_env False) 5 ((stream_new 200)\<lparr>buf := buf (out_os out2), rpos := 18\<rparr>) = Inr (cur, is1) \<and>
              startReadEncaps False is1 = Inr is2 \<and> cur_facet cur = ''f'' \<and> cur_operation cur = ''op'' \<and>
              sm_find ''k'' (cur_ctx cur) = Some ''v'' \<and> drop (nat (rpos is2)) (buf is2) = [7, 8]
        | Inl _ \<Rightarrow> False)
   | _ \<Rightarrow> False"
proof -
  let ?io = "\<lparr>io_now = 0, io_initialize = None, io_read = Inl SocketException, io_write = (\<lambda>_. None), io_close = None,
         io_shutdownWrite = None, io_shutdownReadWrite = None\<rparr>"
  let ?c = "connection_new 200 False False False False 0 0 0 1 :: nat connection"
  let ?i = "\<lparr>name = ''A'', category = []\<rparr>" and ?ctx = "[(''k'', ''v'')]"
  let ?new = "outgoing_new True (plain_env True) ?io 200 ModeTwoway ?i ''f'' ''op'' 0 ?ctx False ?c"
  have "case ?new of Some (Inr out, _) \<Rightarrow>
      (case invokeBegin True (out\<lparr>out_os := (out_os out)\<lparr>buf := buf (out_os out) @ [7, 8]\<rparr>\<rparr>) of
         Inr out2 \<Rightarrow> length (buf (out_os out2)) = 41 | Inl _ \<Rightarrow> False) | _ \<Rightarrow> False" by code_simp
  then obtain out c' out2 where n: "?new = Some (Inr out, c')" and
      i: "invokeBegin True (out\<lparr>out_os := (out_os out)\<lparr>buf := buf (out_os out) @ [7, 8]\<rparr>\<rparr>) = Inr out2" "length (buf (out_os out2)) = 41"
    by (auto split: option.splits prod.splits sum.splits)
  have b: "length (request_bytes identity_bytes ?i ''f'' ''op'' 0 ?ctx) = 15" by code_simp
  have v: "request_valid identity_valid ?i ''f'' ''op'' ?ctx" by (simp add: request_valid_def identity_valid_def)
  have c: "converter_of (plain_env True) = None" "converter_of (plain_env False) = None" by (simp_all add: plain_env_def)
  have "seq_ready ((stream_new 200)\<lparr>buf := buf (out_os out2), rpos := 18\<rparr>)" using i by (simp add: seq_ready_def stream_new_def)
  then show ?thesis
    using request_roundtrip [OF plain_identity.wire_codec_axioms [of True] c(1) plain_identity.wire_codec_axioms [of False] c(2) v n _ i(1),
        of "(stream_new 200)\<lparr>buf := buf (out_os out2), rpos := 18\<rparr>" False 5] n i b by auto
qed

end
