(* ===== verification/RequestCallbacks.thy ===== *)
theory RequestCallbacks imports Outgoing ConnectionSteps begin

text \<open>
  What the critical sections of a connection (\<^verbatim>\<open>src/Ice-3.1.1/src/Ice/ConnectionI.cpp\<close>) tell the requests that wait
  for it: most of them nothing, \<open>finished\<close> all of them, and a received message at most one.
\<close>

section \<open>What a connection tells its requests\<close>

fun callback_of :: "'q conn_event \<Rightarrow> 'q option" where
  "callback_of (RequestFailed q ex) = Some q"
| "callback_of (RequestReplied q s) = Some q"
| "callback_of (Wrote k bs) = None"
| "callback_of TransceiverClosed = None"

definition callbacks :: "'q connection \<Rightarrow> 'q conn_event list" where
  "callbacks c = filter (\<lambda>e. callback_of e \<noteq> None) (conn_log c)"

text \<open>Actions that leave the table of requests alone and call nobody back.\<close>

definition silent :: "'q connection \<Rightarrow> 'q connection \<Rightarrow> bool" where
  "silent c c' \<longleftrightarrow> conn_requests c' = conn_requests c \<and> callbacks c' = callbacks c"

lemma silent_refl [simp]: "silent c c"
  by (simp add: silent_def)

lemma silent_transp: "transp silent"
  by (rule transpI) (simp add: silent_def)

lemmas silent_trans = transpD [OF silent_transp]
lemmas silent_abind = obeys_abind [OF silent_transp]
lemmas silent_acatch = obeys_acatch [OF silent_transp]
lemmas silent_defs = silent_def callbacks_def

lemma silent_basic [simp]:
  "obeys silent (aret x)" "obeys silent (afail e)" "obeys silent (transceiverCall r)"
  "obeys silent registerWithPool" "obeys silent unregisterWithPool" "obeys silent rethrow"
  "obeys silent (transceiverWrite io kind bs)" "obeys silent (recordException ex)" "obeys silent newRequestId"
  by (rule obeysI; simp add: silent_defs action_defs rethrow_def recordException_def newRequestId_def Let_def split: option.splits)+

lemma silent_switchState [simp]: "obeys silent (switchState io state)"
proof (rule obeysI)
  fix c :: "'q connection"
  show "silent c (snd (switchState io state c))"
    by (cases "targetState state c")
      (auto simp: switchState_def Let_def action_defs silent_defs split: option.splits)
qed

lemma silent_setClosed [simp]: "obeys silent (setClosed io ex)"
proof (rule obeysI)
  fix c :: "'q connection"
  have "silent c (snd (abind (recordException ex) (\<lambda>_. abind (switchState io StateClosed) (\<lambda>_. aret ())) c))"
    by (rule obeysD, intro silent_abind) simp_all
  then show "silent c (snd (setClosed io ex c))" by (simp add: setClosed_def)
qed

lemma silent_initiateShutdown [simp]: "obeys silent (initiateShutdown big io)"
  using silent_basic(7) by (auto simp: obeys_def initiateShutdown_def)

lemma silent_setState [simp]: "obeys silent (setState big io state)"
  unfolding setState_def
proof (intro silent_abind silent_switchState obeysI)
  fix switched and c :: "'q connection"
  have "silent c (snd (acatch (initiateShutdown big io) (setClosed io) c))"
    by (rule obeysD, intro silent_acatch) simp_all
  then show "silent c (snd (if switched \<and> conn_state c = StateClosing \<and> conn_dispatchCount c = 0
       then acatch (initiateShutdown big io) (setClosed io) c else (Inr (), c)))"
    by simp
qed

lemma silent_setStateEx [simp]: "obeys silent (setStateEx big io state ex)"
proof (rule obeysI)
  fix c :: "'q connection"
  have "silent c (snd (abind (recordException ex) (\<lambda>_. setState big io state) c))"
    by (rule obeysD, intro silent_abind) simp_all
  then show "silent c (snd (setStateEx big io state ex c))" by (auto simp: setStateEx_def)
qed

lemma silent_acmReset [simp]: "silent c (acmReset io c)"
  by (simp add: acmReset_def silent_defs)

lemma silent_update [simp]:
  "silent c (c'\<lparr>conn_dispatchCount := d\<rparr>) = silent c c'" "silent (c\<lparr>conn_dispatchCount := d\<rparr>) c' = silent c c'"
  "silent c (c'\<lparr>conn_nextRequestId := r\<rparr>) = silent c c'" "silent c (c'\<lparr>conn_batchStreamInUse := b\<rparr>) = silent c c'"
  "silent c (c'\<lparr>conn_batchStream := s\<rparr>) = silent c c'" "silent (c\<lparr>conn_batchStream := s\<rparr>) c' = silent c c'"
  "silent c (resetBatch c') = silent c c'" "silent c (acmReset io c') = silent c c'"
  "silent (acmReset io c) c' = silent c c'" "silent c (eraseAsyncRequest k c') = silent c c'"
  by (simp_all add: silent_defs resetBatch_def acmReset_def eraseAsyncRequest_def)

lemma silent_closeAndThrow [simp]: "obeys silent (closeAndThrow io ex)"
  unfolding closeAndThrow_def by (intro silent_abind) simp_all

lemma silent_transmit [simp]: "obeys silent (transmit big bz io kind compress os)"
  using silent_basic(7) by (auto simp: obeys_def transmit_def split: option.splits sum.splits)

lemma silent_when_ready: "obeys silent act \<Longrightarrow> when_ready P act c = Some (r, c') \<Longrightarrow> silent c c'"
  by (auto simp: when_ready_def obeys_def split: if_splits) (metis snd_conv)

lemma silentD: "obeys silent act \<Longrightarrow> act c = (r, c') \<Longrightarrow> silent c c'"
  by (auto simp: obeys_def) (metis snd_conv)

text \<open>The requests that \<open>finished\<close> takes out of both tables.\<close>

definition fails_all :: "'q connection \<Rightarrow> 'q connection \<Rightarrow> bool" where
  "fails_all c c' \<longleftrightarrow> conn_requests c' = [] \<and>
     (\<exists>ex. callbacks c' = callbacks c @ map (\<lambda>q. RequestFailed q ex) (map snd (conn_requests c) @ map (fst \<circ> snd) (conn_asyncRequests c)))"

lemma callbacks_failed [simp]:
  "filter (\<lambda>e. callback_of e \<noteq> None) (map (\<lambda>q. RequestFailed q ex) qs) = map (\<lambda>q. RequestFailed q ex) qs"
  by (induction qs) simp_all

lemma failRequests_callbacks:
  assumes "conn_inv c"
  shows "silent c (snd (failRequests c)) \<or> fails_all c (snd (failRequests c))"
proof (cases "conn_exception c")
  case None
  then have "conn_state c \<noteq> StateClosed" "conn_state c \<noteq> StateClosing"
    using assms by (auto simp: conn_inv_def life_inv_def state_order)
  then show ?thesis by (simp add: failRequests_def)
next
  case (Some ex)
  then show ?thesis
    by (auto simp: failRequests_def Let_def fails_all_def callbacks_def simp del: map_append)
qed

lemma finished_callbacks:
  assumes inv: "conn_inv c" and pos: "0 < conn_finishedCount c"
  shows "silent c (snd (finished_conn io c)) \<or> fails_all c (snd (finished_conn io c))"
proof -
  let ?c1 = "c\<lparr>conn_finishedCount := conn_finishedCount c - 1\<rparr>"
  have pool: "\<not> conn_threadPerConnection c" using inv by (simp add: inv_defs)
  show ?thesis
  proof (cases "conn_finishedCount c = 1 \<and> conn_state c = StateClosed")
    case True
    let ?c2 = "?c1\<lparr>conn_transceiver := False, conn_log := conn_log c @ [TransceiverClosed]\<rparr>"
    have tr: "conn_transceiver c" using inv pos True by (auto simp: inv_defs)
    have "conn_inv ?c2" using inv True tr by (auto simp: inv_defs)
    from failRequests_callbacks [OF this] have "silent c (snd (failRequests ?c2)) \<or> fails_all c (snd (failRequests ?c2))"
      by (simp add: silent_def fails_all_def callbacks_def)
    moreover have "snd (finished_conn io c) = snd (failRequests ?c2)"
      using pool True tr
      by (auto simp: finished_conn_def Let_def abind_def aret_def afail_def split: prod.splits sum.splits option.splits)
    ultimately show ?thesis by simp
  next
    case False
    have "finished_conn io c = failRequests ?c1" using pool False by (auto simp: finished_conn_def Let_def)
    moreover have "conn_inv ?c1" using inv pos False by (auto simp: inv_defs)
    ultimately show ?thesis using failRequests_callbacks [of ?c1] by (simp add: silent_def fails_all_def callbacks_def)
  qed
qed

lemma monitor_silent: "obeys silent (monitor big io)"
  by (rule obeysI) (simp add: monitor_def obeysD [OF silent_setStateEx])

lemma handshake_silent: "obeys silent (handshake big io active)"
proof (rule obeysI)
  fix c :: "'q connection"
  have "silent c (snd (acatch (abind (transceiverCall (io_initialize io)) (\<lambda>_.
      transceiverWrite io ValidateMsg (headerMessage big validateConnectionMsg 0))) (\<lambda>ex. afail (Thrown (connectTimeout ex))) c))"
    by (rule obeysD, intro silent_acatch silent_abind) simp_all
  then show "silent c (snd (handshake big io active c))"
    by (auto simp: handshake_def action_defs split: option.splits sum.splits)
qed

lemma endDispatch_silent: "obeys silent (endDispatch big io acm)"
proof (rule obeysI)
  fix c :: "'q connection"
  let ?m = "\<lambda>c1 :: 'q connection. if conn_state c1 = StateClosing \<and> conn_dispatchCount c1 = 0
              then abind (initiateShutdown big io) (\<lambda>_ c2. (Inr (), if acm then acmReset io c2 else c2)) c1
              else (Inr (), if acm then acmReset io c1 else c1)"
  have t: "obeys silent (\<lambda>c2 :: 'q connection. (Inr () :: failure + unit, if acm then acmReset io c2 else c2))"
    by (rule obeysI) simp
  have "obeys silent (abind (initiateShutdown big io)
      (\<lambda>_ c2 :: 'q connection. (Inr () :: failure + unit, if acm then acmReset io c2 else c2)))"
    by (intro silent_abind silent_initiateShutdown t)
  then have m: "obeys silent ?m" by (auto simp: obeys_def)
  let ?c = "c\<lparr>conn_dispatchCount := conn_dispatchCount c - 1\<rparr>"
  have "silent ?c (snd (acatch ?m (setClosed io) ?c))" by (rule obeysD, rule silent_acatch [OF m]) simp
  then show "silent c (snd (endDispatch big io acm c))" by (simp add: endDispatch_def)
qed

lemma oneway_silent: "obeys silent (beginRequest big io None os)" "obeys silent (requestFailed io None rid ex)"
proof -
  show "obeys silent (beginRequest big io None os)"
    by (rule obeysI) (simp add: beginRequest_def split: option.splits)
  show "obeys silent (requestFailed io None rid ex)"
    unfolding requestFailed_def by (intro silent_abind silent_setClosed obeysI) simp
qed

lemma async_silent: "obeys silent (beginAsyncRequest big io q os)" "obeys silent (asyncRequestFailed io rid ex)"
proof -
  show "obeys silent (beginAsyncRequest big io q os)"
    by (rule obeysI) (auto simp: beginAsyncRequest_def newRequestId_def abind_def Let_def silent_defs acmReset_def
        split: option.splits sum.splits)
  show "obeys silent (asyncRequestFailed io rid ex)"
    unfolding asyncRequestFailed_def by (intro silent_abind silent_setClosed obeysI) (simp split: option.splits)
qed

lemma batch_silent:
  "prepareBatchRequest io s c = Some (r, c') \<Longrightarrow> silent c c'" "obeys silent (finishBatchRequest s compress)"
  "obeys silent abortBatchRequest" "beginFlush io c = Some (r', c') \<Longrightarrow> silent c c'" "obeys silent endFlush"
proof -
  have abort: "silent c (snd (abind (setClosed io ex) (\<lambda>_. afail (Thrown ex) :: ('a, stream) action) c))" for c :: "'a connection" and ex
    by (rule obeysD, intro silent_abind) simp_all
  assume "prepareBatchRequest io s c = Some (r, c')"
  then show "silent c c'"
    unfolding prepareBatchRequest_def
    by (rule silent_when_ready [rotated], intro obeysI) (simp add: abort split: sum.splits failure.splits)
next
  show "obeys silent (finishBatchRequest s compress)"
    by (rule obeysI) (simp add: finishBatchRequest_def Let_def silent_defs)
  show "obeys silent abortBatchRequest" by (rule obeysI) (simp add: abortBatchRequest_def Let_def)
  show "obeys silent endFlush" by (rule obeysI) (simp add: endFlush_def)
next
  assume "beginFlush io c = Some (r', c')"
  then show "silent c c'"
    by (auto simp: beginFlush_def when_ready_def rethrow_def split: if_splits option.splits)
qed

lemma sendBatch_silent: "obeys silent (sendBatch big bz io)"
  by (rule obeysI) (auto simp: sendBatch_def split: sum.splits
      intro: silent_trans [OF _ obeysD [OF silent_transmit]])

lemma setAdapter_silent: "obeys silent (setAdapter a)"
  by (rule obeysI) (simp add: setAdapter_def silent_defs split: option.splits)

lemma dropDispatches_silent: "obeys silent (dropDispatches k)"
  by (rule obeysI) (simp add: dropDispatches_def Let_def)

lemma beginValidate_silent: "obeys silent beginValidate"
  by (rule obeysI) (simp add: beginValidate_def)

lemma endValidate_silent: "obeys silent (endValidate big io)"
proof (rule obeysI)
  fix c :: "'q connection"
  show "silent c (snd (endValidate big io c))"
    using obeysD [OF silent_setState [of big io StateHolding], of "acmReset io c"] by (simp add: endValidate_def)
qed

lemma destroy_silent: "obeys silent (destroy big io reason)"
  by (cases reason) (simp_all add: destroy_def)

lemma connException_silent: "obeys silent (connException io ex)"
  by (simp add: connException_def [abs_def])

text \<open>What the sections of a connection tell its requests, but for those that hand an \<open>Outgoing\<close> in or out.\<close>

lemma section_callbacks:
  assumes step: "conn_section big bz fill w fo w'" and w: "world_inv w"
  shows "silent (fst w) (fst w') \<or> fails_all (fst w) (fst w')"
  using step
proof cases
  case (begin_validate c r c' n) then show ?thesis by (auto dest: silentD [OF beginValidate_silent])
next
  case (handshake io active c r c' n) then show ?thesis by (auto dest: silentD [OF handshake_silent])
next
  case (close_throw io ex c r c' n) then show ?thesis by (auto dest: silentD [OF silent_closeAndThrow])
next
  case (end_validate io c r c' n) then show ?thesis by (auto dest: silentD [OF endValidate_silent])
next
  case (activate io c r c' n) then show ?thesis unfolding ConnectionState.activate_def
    by (auto dest: silent_when_ready [OF silent_setState])
next
  case (hold io c r c' n) then show ?thesis unfolding ConnectionState.hold_def
    by (auto dest: silent_when_ready [OF silent_setState])
next
  case (destroy io reason c r c' n) then show ?thesis by (auto dest: silentD [OF destroy_silent])
next
  case (close io force c r c' n) then show ?thesis unfolding ConnectionState.close_def
    by (auto dest: silent_when_ready [OF silent_setStateEx] split: if_splits)
next
  case (close_timeout io c r c' n) then show ?thesis unfolding closeTimeout_def
    by (auto dest: silent_when_ready [OF silent_setStateEx] split: if_splits)
next
  case (monitor io c r c' n) then show ?thesis by (auto dest: silentD [OF monitor_silent])
next
  case (exception io ex c r c' n) then show ?thesis by (auto dest: silentD [OF connException_silent])
next
  case (finished c io r c' n)
  then show ?thesis using finished_callbacks [of c io] w by (auto simp: world_inv_def)
next
  case (begin_oneway c os io r c' n) then show ?thesis by (auto dest: silentD [OF oneway_silent(1)])
next
  case (transmit kind os io compress c r c' n) then show ?thesis by (auto dest: silentD [OF silent_transmit])
next
  case (oneway_failed io rid ex c r c' n) then show ?thesis by (auto dest: silentD [OF oneway_silent(2)])
next
  case (begin_async c os io q r c' n) then show ?thesis by (auto dest: silentD [OF async_silent(1)])
next
  case (async_failed io rid ex c r c' n) then show ?thesis by (auto dest: silentD [OF async_silent(2)])
next
  case (prepare_batch c io s r c' n) then show ?thesis by (auto dest: batch_silent(1))
next
  case (finish_batch c s compress r c' n) then show ?thesis by (auto dest: silentD [OF batch_silent(2)])
next
  case (abort_batch c r c' n) then show ?thesis by (auto dest: silentD [OF batch_silent(3)])
next
  case (begin_flush c io r c' n) then show ?thesis by (auto dest: batch_silent(4))
next
  case (send_batch c io r c' n) then show ?thesis by (auto dest: silentD [OF sendBatch_silent])
next
  case (end_flush c r c' n) then show ?thesis by (auto dest: silentD [OF batch_silent(5)])
next
  case (set_adapter a c r c' n) then show ?thesis by (auto dest: silentD [OF setAdapter_silent])
next
  case (end_dispatch io acm c r c' n) then show ?thesis by (auto dest: silentD [OF endDispatch_silent])
next
  case (drop_dispatches c k n r c') then show ?thesis by (auto dest: silentD [OF dropDispatches_silent])
qed

section \<open>What a received message tells\<close>

text \<open>A message as the thread pool hands it over: a header at least, and a stream nobody has read from.\<close>

definition message_ok :: "stream \<Rightarrow> bool" where
  "message_ok s \<longleftrightarrow> rpos s = int (length (buf s)) \<and> headerSize \<le> length (buf s) \<and> length (buf s) < 2147483648 \<and> seqDataStack s = []"

lemma openMessage_rest:
  assumes bz: "bz_ok bz" and s: "message_ok s" and opened: "openMessage big bz fill s = Inr (r, s')"
  shows "at_rest s'"
proof -
  have plain: "at_rest (t\<lparr>rpos := int headerSize\<rparr>)"
    if "headerSize \<le> length (buf t)" "length (buf t) < 2147483648" "seqDataStack t = []" for t
    using that by (simp add: at_rest_def stream_ok_def headerSize_def)
  have len: "headerSize \<le> length (buf us) \<and> length (buf us) < 2147483648"
    if "doUncompress big bz fill cs (stream_new m) = Inr us" "headerSize \<le> length (buf cs)" for cs us m
  proof -
    from that obtain sz :: ice_int and us1 where u: "\<not> sint sz \<le> int headerSize" "stream_resize fill (nat (sint sz)) (stream_new m) = Inr us1"
      "(case bz_decompress bz (nat (sint sz) - headerSize) (drop (headerSize + 4) (buf cs)) of
          Inl _ \<Rightarrow> throw CompressionException
        | Inr body \<Rightarrow> Inr (us1\<lparr>buf := overwrite 0 (take headerSize (buf cs)) (overwrite headerSize body (buf us1))\<rparr>)) = Inr us"
      by (auto simp: doUncompress_def andThen_eq_Inr split: if_splits)
    then obtain body where sz: "int headerSize < sint sz"
      "stream_resize fill (nat (sint sz)) (stream_new m) = Inr us1"
      "bz_decompress bz (nat (sint sz) - headerSize) (drop (headerSize + 4) (buf cs)) = Inr body"
      "us = us1\<lparr>buf := overwrite 0 (take headerSize (buf cs)) (overwrite headerSize body (buf us1))\<rparr>"
      by (cases "bz_decompress bz (nat (sint sz) - headerSize) (drop (headerSize + 4) (buf cs))") auto
    have body: "length body \<le> nat (sint sz) - headerSize" using bz sz(3) by (simp add: bz_ok_def)
    have l1: "length (buf us1) = nat (sint sz)" using sz(2) by (auto simp: stream_resize_def stream_new_def split: if_splits)
    have big: "nat (sint sz) < 2147483648" "headerSize \<le> nat (sint sz)" using sint_lt [of sz] sz(1) by auto
    have "length (overwrite headerSize body (buf us1)) = nat (sint sz)" using body l1 big by simp
    then show ?thesis using sz(4) that(2) big by simp
  qed
  show ?thesis using opened s plain len
    by (fastforce simp: openMessage_def message_ok_def andThen_eq_Inr read_Byte_def split: if_splits)
qed

definition replies_one :: "('q \<Rightarrow> stream \<Rightarrow> local_exception option) \<Rightarrow> 'q connection \<Rightarrow> 'q connection \<Rightarrow> bool" where
  "replies_one accept c c' \<longleftrightarrow>
     (\<exists>k q s. sm_find k (conn_requests c) = Some q \<and> accept q s = None \<and> at_rest s \<and>
        conn_requests c' = sm_erase k (conn_requests c) \<and> callbacks c' = callbacks c @ [RequestReplied q s])"

lemma handleReply_callbacks:
  assumes inv: "tables_inv c" and s: "at_rest s"
  shows "silent c (snd (handleReply big accept compress s c)) \<or> replies_one accept c (snd (handleReply big accept compress s c))"
proof (cases "read_Int big s")
  case (Inl e)
  then show ?thesis by (simp add: handleReply_def)
next
  case (Inr rs)
  obtain rid s1 where rs: "read_Int big s = Inr (rid, s1)" using Inr by (cases rs) simp
  have s1: "at_rest s1" using tidy_safe [OF safe_read_Int s, of big] rs by simp
  obtain p q where t: "replyTarget (sint rid) c = Inr (p, q)" "p \<noteq> None \<Longrightarrow> sm_find (sint rid) (conn_requests c) = p"
    using replyTarget_eq [OF inv, of "sint rid"] by metis
  show ?thesis
  proof (cases p)
    case (Some out)
    show ?thesis
    proof (cases "accept out s1")
      case None
      have "replies_one accept c (eraseRequest (sint rid) (c\<lparr>conn_log := conn_log c @ [RequestReplied out s1]\<rparr>))"
        unfolding replies_one_def using Some t s1 None
        by (intro exI [of _ "sint rid"] exI [of _ out] exI [of _ s1]) (auto simp: eraseRequest_def callbacks_def)
      then show ?thesis using Some t rs None by (simp add: handleReply_def Let_def)
    next
      case e: (Some e)
      then show ?thesis using Some t rs by (simp add: handleReply_def Let_def)
    qed
  next
    case None
    then show ?thesis using t rs by (cases q) (auto simp: handleReply_def Let_def)
  qed
qed

lemma close_tail: "silent c (snd (abind (setClosed io ex) (\<lambda>_. aret r) c))"
  by (rule obeysD, intro silent_abind) simp_all

lemma handleRequest_silent: "silent c (snd (handleRequest big k s c))" "silent c (snd (handleBatch big k s c))"
  by (simp_all add: handleRequest_def handleBatch_def split: sum.splits)

lemma parseBody_callbacks:
  assumes inv: "tables_inv c" and bz: "bz_ok bz" and s: "message_ok s"
  shows "silent c (snd (parseBody big bz fill accept io s c)) \<or> replies_one accept c (snd (parseBody big bz fill accept io s c))"
proof (cases "openMessage big bz fill s")
  case (Inl e)
  then show ?thesis by (simp add: parseBody_def)
next
  case (Inr r)
  obtain t k s1 where r: "openMessage big bz fill s = Inr ((t, k), s1)" using Inr by (metis surj_pair)
  note reply = handleReply_callbacks [OF inv openMessage_rest [OF bz s r], of big accept k]
  show ?thesis using r reply by (simp add: parseBody_def Let_def close_tail handleRequest_silent)
qed

lemma receive_callbacks:
  assumes inv: "conn_inv c" and bz: "bz_ok bz" and s: "message_ok s"
  shows "silent c (snd (receiveMessage big bz fill accept io s c)) \<or> replies_one accept c (snd (receiveMessage big bz fill accept io s c))"
proof -
  obtain d where d: "d = acmReset io c" by blast
  have inv_d: "tables_inv d" using inv d by (simp add: conn_inv_def tables_inv_def acmReset_def)
  have same: "silent d c' = silent c c'" "replies_one accept d c' = replies_one accept c c'" for c'
    by (simp_all add: d replies_one_def silent_def acmReset_def callbacks_def)
  note body = parseBody_callbacks [OF inv_d bz s, of big fill accept io]
  have failed: "silent c1 (snd (parseFailed io s ex c1))" for ex c1 by (simp add: parseFailed_def close_tail)
  have "silent d (snd (acatch (parseBody big bz fill accept io s) (parseFailed io s) d)) \<or>
      replies_one accept d (snd (acatch (parseBody big bz fill accept io s) (parseFailed io s) d))"
  proof (cases "\<exists>ex c1. parseBody big bz fill accept io s d = (Inl (Thrown ex), c1)")
    case True
    then obtain ex c1 where t: "parseBody big bz fill accept io s d = (Inl (Thrown ex), c1)" by blast
    have c1: "silent c1 (snd (parseFailed io s ex c1))" by (rule failed)
    have "silent d (snd (parseFailed io s ex c1)) \<or> replies_one accept d (snd (parseFailed io s ex c1))"
      using body t c1 by (auto simp: silent_def replies_one_def)
    then show ?thesis using t by (simp add: acatch_def)
  next
    case False
    then have "acatch (parseBody big bz fill accept io s) (parseFailed io s) d = parseBody big bz fill accept io s d"
      by (auto simp: acatch_def split: prod.splits sum.splits failure.splits)
    then show ?thesis using body by simp
  qed
  moreover have "snd (abind m (\<lambda>r c1. (Inr (g r c1), c1)) c) = snd (m c)"
    for m :: "('a, 'a parsed) action" and g :: "'a parsed \<Rightarrow> 'a connection \<Rightarrow> 'a parsed option" and c
    by (simp add: abind_def split: prod.splits sum.splits)
  ultimately show ?thesis using same d by (auto simp: receiveMessage_def parseMessage_def)
qed

end
