(* ===== verification/OutgoingCalls.thy ===== *)
theory OutgoingCalls imports RequestCallbacks begin

text \<open>
  Twoway calls over a connection: the threads that run \<open>Outgoing::invoke\<close>
  (\<^verbatim>\<open>src/Ice-3.1.1/src/Ice/Outgoing.cpp\<close>) and all others that use the connection, interleaved at the
  critical sections of both classes.  A request is named by a left value when it belongs to an
  \<open>Outgoing\<close> and by a right one when it belongs to an \<open>OutgoingAsync\<close>.
\<close>

section \<open>Steps\<close>

text \<open>Where the thread of a call is in \<open>invoke\<close>.\<close>

datatype call_pc =
    CallNew                                       \<comment> \<open>constructed\<close>
  | CallSending ice_int "byte list"               \<comment> \<open>entered in the table, not written yet\<close>
  | CallSendFailed ice_int local_exception        \<comment> \<open>in the handler of \<open>sendRequest\<close>\<close>
  | CallSent                                      \<comment> \<open>\<open>sendRequest\<close> has returned\<close>
  | CallWaiting
  | CallTimedOut
  | CallWaitingAgain                              \<comment> \<open>after \<open>exception(TimeoutException)\<close>\<close>
  | CallRefused out_throw                         \<comment> \<open>\<open>sendRequest\<close> threw\<close>
  | CallReturned "out_throw + bool"

text \<open>
  The connection, the number of requests it dispatches, the calls of \<open>finished(ex)\<close> that \<open>ConnectionI::finished\<close>
  still has to make, outside the monitor, and for every \<open>Outgoing\<close> its thread, its request id and its fields.
\<close>

record ('o, 'a) calls =
  cl_conn :: "('o + 'a) connection"
  cl_dispatched :: nat
  cl_telling :: "('o \<times> local_exception) list"
  cl_pc :: "'o \<Rightarrow> call_pc"
  cl_key :: "'o \<Rightarrow> int"
  cl_out :: "'o \<Rightarrow> outgoing"

definition entered :: "call_pc \<Rightarrow> bool" where
  "entered pc \<longleftrightarrow> (case pc of CallNew \<Rightarrow> False | CallRefused _ \<Rightarrow> False | _ \<Rightarrow> True)"

definition in_progress :: "call_pc \<Rightarrow> bool" where
  "in_progress pc \<longleftrightarrow> (case pc of CallNew \<Rightarrow> False | CallRefused _ \<Rightarrow> False | CallReturned _ \<Rightarrow> False | _ \<Rightarrow> True)"

definition waiting :: "call_pc \<Rightarrow> bool" where
  "waiting pc \<longleftrightarrow> pc = CallWaiting \<or> pc = CallTimedOut \<or> pc = CallWaitingAgain"

definition new_callbacks :: "'q connection \<Rightarrow> 'q connection \<Rightarrow> 'q conn_event list" where
  "new_callbacks c c' = drop (length (callbacks c)) (callbacks c')"

fun failures_of :: "('o + 'a) conn_event list \<Rightarrow> ('o \<times> local_exception) list" where
  "failures_of [] = []"
| "failures_of (RequestFailed (Inl out) ex # evs) = (out, ex) # failures_of evs"
| "failures_of (_ # evs) = failures_of evs"

text \<open>\<open>finished(stream)\<close> runs inside the section that receives the reply.\<close>

fun deliver ::
  "bool \<Rightarrow> ('x, 'l, 'c) dispatch_env \<Rightarrow> ('o + 'a) conn_event list \<Rightarrow> ('o \<Rightarrow> outgoing) \<Rightarrow> failure option \<times> ('o \<Rightarrow> outgoing)" where
  "deliver big env [] outs = (None, outs)"
| "deliver big env (RequestReplied (Inl out) s # evs) outs =
     (case out_finished big env s (outs out) of
        (Inl f, o') \<Rightarrow> (Some f, outs(out := o'))
      | (Inr _, o') \<Rightarrow> deliver big env evs (outs(out := o')))"
| "deliver big env (_ # evs) outs = deliver big env evs outs"

definition accepts :: "bool \<Rightarrow> ('x, 'l, 'c) dispatch_env \<Rightarrow> ('o \<Rightarrow> outgoing) \<Rightarrow> 'o + 'a \<Rightarrow> stream \<Rightarrow> local_exception option" where
  "accepts big env outs q s = (case q of Inl out \<Rightarrow> out_accepts big env (outs out) s | Inr _ \<Rightarrow> None)"

definition async_named :: "('o + 'a) connection \<Rightarrow> bool" where
  "async_named c \<longleftrightarrow> (\<forall>(k, q, t) \<in> set (conn_asyncRequests c). \<exists>a. q = Inr a)"

definition set_pc :: "'o \<Rightarrow> call_pc \<Rightarrow> ('o, 'a) calls \<Rightarrow> ('o, 'a) calls" where
  "set_pc out pc w = w\<lparr>cl_pc := (cl_pc w)(out := pc)\<rparr>"

definition set_out :: "'o \<Rightarrow> outgoing \<Rightarrow> ('o, 'a) calls \<Rightarrow> ('o, 'a) calls" where
  "set_out out x w = w\<lparr>cl_out := (cl_out w)(out := x)\<rparr>"

definition with_os :: "byte list \<Rightarrow> outgoing \<Rightarrow> outgoing" where
  "with_os bs x = x\<lparr>out_os := (out_os x)\<lparr>buf := bs\<rparr>\<rparr>"

text \<open>Where \<open>invoke\<close> goes after each part of \<open>sendRequest\<close>.\<close>

definition after_begin :: "failure + local_exception + ice_int \<times> byte list \<Rightarrow> call_pc" where
  "after_begin r =
     (case r of
        Inl f \<Rightarrow> CallRefused (of_failure f)
      | Inr (Inl ex) \<Rightarrow> CallRefused (LocalExceptionWrapper (LocalEx ex) True)
      | Inr (Inr (requestId, os)) \<Rightarrow> CallSending requestId os)"

definition after_transmit :: "ice_int \<Rightarrow> failure + unit \<Rightarrow> call_pc" where
  "after_transmit requestId r =
     (case r of Inr _ \<Rightarrow> CallSent | Inl (Thrown ex) \<Rightarrow> CallSendFailed requestId ex | Inl f \<Rightarrow> CallRefused (Crashes f))"

definition after_failure :: "failure + unit \<Rightarrow> call_pc" where
  "after_failure r = (case r of Inr _ \<Rightarrow> CallSent | Inl f \<Rightarrow> CallRefused (of_failure f))"

definition crash :: "out_throw + bool \<Rightarrow> failure option" where
  "crash r = (case r of Inl (Crashes f) \<Rightarrow> Some f | _ \<Rightarrow> None)"

text \<open>
  The steps, labelled with the failure of their section, if any.  A request id is not used again as long as a call
  with it is in progress, which takes $2^{31}$ requests; the table of asynchronous requests holds
  objects of class \<open>OutgoingAsync\<close>.  A \<open>finished(stream)\<close> that throws has taken over the stream (\<open>swapped\<close>).
\<close>

inductive call_step ::
  "bool \<Rightarrow> bzip2 \<Rightarrow> byte \<Rightarrow> ('x, 'l, 'c) dispatch_env \<Rightarrow> ('o, 'a) calls \<Rightarrow> failure option \<Rightarrow> ('o, 'a) calls \<Rightarrow> bool"
  for big bz fill env where
  other: "conn_section big bz fill (cl_conn w, cl_dispatched w) fo (c', n') \<Longrightarrow> async_named (cl_conn w) \<Longrightarrow>
    call_step big bz fill env w fo
      (w\<lparr>cl_conn := c', cl_dispatched := n', cl_telling := cl_telling w @ failures_of (new_callbacks (cl_conn w) c')\<rparr>)"
| receive: "conn_state (cl_conn w) \<noteq> StateNotValidated \<Longrightarrow> io_ok io \<Longrightarrow> message_ok s \<Longrightarrow>
    receiveMessage big bz fill (accepts big env (cl_out w)) io s (cl_conn w) = (r, c') \<Longrightarrow>
    k = (case r of Inr (Some p) \<Rightarrow> unat (pm_invokeNum p) | _ \<Rightarrow> 0) \<Longrightarrow> cl_dispatched w + k < 2147483648 \<Longrightarrow>
    deliver big env (new_callbacks (cl_conn w) c') (cl_out w) = (fo, outs) \<Longrightarrow>
    call_step big bz fill env w (if fo = None then outcome r else fo)
      (w\<lparr>cl_conn := c', cl_dispatched := cl_dispatched w + k, cl_out := outs\<rparr>)"
| swapped: "out_state (cl_out w out) \<le> StateInProgress \<Longrightarrow>
    call_step big bz fill env w None (set_out out ((cl_out w out)\<lparr>out_is := s\<rparr>) w)"
| tell: "cl_telling w = xs @ (out, ex) # ys \<Longrightarrow> out_finishedEx ex (cl_out w out) = (r, o') \<Longrightarrow>
    call_step big bz fill env w (outcome r) (set_out out o' (w\<lparr>cl_telling := xs @ ys\<rparr>))"
| call_begin: "cl_pc w out = CallNew \<Longrightarrow> conn_state (cl_conn w) \<noteq> StateNotValidated \<Longrightarrow> \<not> conn_datagram (cl_conn w) \<Longrightarrow>
    invokeBegin big (cl_out w out) = Inr o' \<Longrightarrow> headerSize + 4 \<le> length (buf (out_os o')) \<Longrightarrow>
    beginRequest big io (Some (Inl out)) (buf (out_os o')) (cl_conn w) = (r, c') \<Longrightarrow>
    (\<And>rid os out'. r = Inr (Inr (rid, os)) \<Longrightarrow> in_progress (cl_pc w out') \<Longrightarrow> cl_key w out' \<noteq> sint rid) \<Longrightarrow>
    key = (case r of Inr (Inr (rid, _)) \<Rightarrow> sint rid | _ \<Rightarrow> cl_key w out) \<Longrightarrow>
    call_step big bz fill env w (outcome r)
      (set_out out o' (set_pc out (after_begin r) (w\<lparr>cl_conn := c', cl_key := (cl_key w)(out := key)\<rparr>)))"
| call_send: "cl_pc w out = CallSending rid os \<Longrightarrow>
    transmit big bz io RequestMsg (out_compress (cl_out w out)) os (cl_conn w) = (r, c') \<Longrightarrow>
    call_step big bz fill env w (outcome r)
      (set_out out (with_os (streamAfter big bz (out_compress (cl_out w out)) os (cl_conn w)) (cl_out w out))
        (set_pc out (after_transmit rid r) (w\<lparr>cl_conn := c'\<rparr>)))"
| call_send_failed: "cl_pc w out = CallSendFailed rid ex \<Longrightarrow> io_ok io \<Longrightarrow>
    requestFailed io (Some (Inl out)) rid ex (cl_conn w) = (r, c') \<Longrightarrow>
    call_step big bz fill env w (outcome r) (set_pc out (after_failure r) (w\<lparr>cl_conn := c'\<rparr>))"
| call_wait: "cl_pc w out = CallSent \<Longrightarrow>
    call_step big bz fill env w None (set_out out (enterWait (cl_out w out)) (set_pc out CallWaiting w))"
| call_timeout: "cl_pc w out = CallWaiting \<Longrightarrow> out_state (cl_out w out) = StateInProgress \<Longrightarrow> 0 \<le> conn_timeout (cl_conn w) \<Longrightarrow>
    call_step big bz fill env w None (set_pc out CallTimedOut w)"
| call_give_up: "cl_pc w out = CallTimedOut \<Longrightarrow> io_ok io \<Longrightarrow> connException io TimeoutException (cl_conn w) = (r, c') \<Longrightarrow>
    call_step big bz fill env w (outcome r) (set_pc out CallWaitingAgain (w\<lparr>cl_conn := c'\<rparr>))"
| call_return: "cl_pc w out = CallWaiting \<or> cl_pc w out = CallWaitingAgain \<Longrightarrow> out_state (cl_out w out) \<noteq> StateInProgress \<Longrightarrow>
    call_step big bz fill env w (crash (invokeResult (cl_out w out))) (set_pc out (CallReturned (invokeResult (cl_out w out))) w)"

text \<open>At the start every \<open>Outgoing\<close> has been constructed for a twoway request.\<close>

definition calls_start :: "('o, 'a) calls \<Rightarrow> bool" where
  "calls_start w \<longleftrightarrow>
     (\<exists>maxSize dgram adapter manager serverACM clientACM tmo level.
        cl_conn w = connection_new maxSize dgram False adapter manager serverACM clientACM tmo level) \<and>
     cl_dispatched w = 0 \<and> cl_telling w = [] \<and>
     (\<forall>out. cl_pc w out = CallNew \<and> out_mode (cl_out w out) = ModeTwoway \<and> out_state (cl_out w out) = StateUnsent \<and>
            out_exception (cl_out w out) = None)"

inductive calls_reachable :: "bool \<Rightarrow> bzip2 \<Rightarrow> byte \<Rightarrow> ('x, 'l, 'c) dispatch_env \<Rightarrow> ('o, 'a) calls \<Rightarrow> bool" for big bz fill env where
  calls_init: "calls_start w \<Longrightarrow> calls_reachable big bz fill env w"
| calls_next: "calls_reachable big bz fill env w \<Longrightarrow> call_step big bz fill env w fo w' \<Longrightarrow> calls_reachable big bz fill env w'"

section \<open>Invariant\<close>

definition pending :: "('o, 'a) calls \<Rightarrow> 'o \<Rightarrow> int list" where
  "pending w out = map fst (filter (\<lambda>(k, q). q = Inl out) (conn_requests (cl_conn w)))"

definition events :: "('o, 'a) calls \<Rightarrow> 'o \<Rightarrow> ('o + 'a) conn_event list" where
  "events w out = filter (\<lambda>e. callback_of e = Some (Inl out)) (callbacks (cl_conn w))"

definition untold :: "('o, 'a) calls \<Rightarrow> 'o \<Rightarrow> ('o \<times> local_exception) list" where
  "untold w out = filter (\<lambda>p. fst p = out) (cl_telling w)"

definition unanswered :: "call_pc \<Rightarrow> outgoing \<Rightarrow> bool" where
  "unanswered pc x \<longleftrightarrow> out_exception x = None \<and> out_state x = (if waiting pc then StateInProgress else StateUnsent)"

text \<open>What a call returns, by the callback it got.\<close>

definition result_of :: "out_state \<times> out_exception option \<Rightarrow> out_throw + bool" where
  "result_of p =
     (case snd p of
        Some ex \<Rightarrow> Inl (if repeatable ex then Throws ex else LocalExceptionWrapper ex False)
      | None \<Rightarrow> Inr (fst p = StateOK))"

fun event_result :: "bool \<Rightarrow> ('x, 'l, 'c) dispatch_env \<Rightarrow> 'q conn_event \<Rightarrow> (out_throw + bool) option" where
  "event_result big env (RequestFailed q ex) = Some (result_of (StateLocalException, Some (LocalEx ex)))"
| "event_result big env (RequestReplied q s) =
     (case readReply big env s of Inl _ \<Rightarrow> None | Inr (p, _) \<Rightarrow> Some (result_of p))"
| "event_result big env _ = None"

text \<open>
  A call outside the connection; one that the connection owes an answer; one whose answer is on its way; and one that is
  answered.
\<close>

definition outside :: "('o, 'a) calls \<Rightarrow> 'o \<Rightarrow> bool" where
  "outside w out \<longleftrightarrow> \<not> entered (cl_pc w out) \<and> pending w out = [] \<and> events w out = [] \<and> untold w out = [] \<and>
     unanswered (cl_pc w out) (cl_out w out)"

definition owed :: "('o, 'a) calls \<Rightarrow> 'o \<Rightarrow> bool" where
  "owed w out \<longleftrightarrow> in_progress (cl_pc w out) \<and> pending w out = [cl_key w out] \<and> events w out = [] \<and> untold w out = [] \<and>
     unanswered (cl_pc w out) (cl_out w out)"

definition on_its_way :: "('o, 'a) calls \<Rightarrow> 'o \<Rightarrow> bool" where
  "on_its_way w out \<longleftrightarrow> in_progress (cl_pc w out) \<and> pending w out = [] \<and>
     (\<exists>ex. events w out = [RequestFailed (Inl out) ex] \<and> untold w out = [(out, ex)]) \<and>
     unanswered (cl_pc w out) (cl_out w out)"

definition told_once :: "bool \<Rightarrow> ('x, 'l, 'c) dispatch_env \<Rightarrow> ('o, 'a) calls \<Rightarrow> 'o \<Rightarrow> bool" where
  "told_once big env w out \<longleftrightarrow> entered (cl_pc w out) \<and> pending w out = [] \<and> untold w out = [] \<and> answered (cl_out w out) \<and>
     (\<exists>e. events w out = [e] \<and> event_result big env e = Some (invokeResult (cl_out w out)))"

fun sending :: "call_pc \<Rightarrow> ice_int option" where
  "sending (CallSending rid os) = Some rid"
| "sending (CallSendFailed rid ex) = Some rid"
| "sending _ = None"

definition call_ok :: "bool \<Rightarrow> ('x, 'l, 'c) dispatch_env \<Rightarrow> ('o, 'a) calls \<Rightarrow> 'o \<Rightarrow> bool" where
  "call_ok big env w out \<longleftrightarrow>
     out_mode (cl_out w out) = ModeTwoway \<and>
     (outside w out \<or> owed w out \<or> on_its_way w out \<or> told_once big env w out) \<and>
     (\<forall>rid. sending (cl_pc w out) = Some rid \<longrightarrow> cl_key w out = sint rid) \<and>
     (\<forall>rid os. cl_pc w out = CallSending rid os \<longrightarrow> headerSize \<le> length os) \<and>
     (\<forall>r. cl_pc w out = CallReturned r \<longrightarrow> r = invokeResult (cl_out w out))"

definition calls_inv :: "bool \<Rightarrow> ('x, 'l, 'c) dispatch_env \<Rightarrow> ('o, 'a) calls \<Rightarrow> bool" where
  "calls_inv big env w \<longleftrightarrow>
     world_inv (cl_conn w, cl_dispatched w) \<and>
     (\<forall>(k, q) \<in> set (conn_requests (cl_conn w)). \<exists>out. q = Inl out) \<and>
     (\<forall>out. call_ok big env w out) \<and>
     (\<forall>out out'. in_progress (cl_pc w out) \<and> in_progress (cl_pc w out') \<and> cl_key w out = cl_key w out' \<longrightarrow> out = out')"

section \<open>Every step\<close>

lemmas call_defs = call_ok_def outside_def owed_def on_its_way_def told_once_def

lemma call_ok_cong:
  assumes "pending w' out = pending w out" "events w' out = events w out" "untold w' out = untold w out"
    "cl_pc w' out = cl_pc w out" "cl_key w' out = cl_key w out" "cl_out w' out = cl_out w out"
  shows "call_ok big env w' out = call_ok big env w out"
  using assms by (simp add: call_defs)

lemma set_simps [simp]:
  "cl_conn (set_pc out pc w) = cl_conn w" "cl_conn (set_out out x w) = cl_conn w"
  "cl_dispatched (set_pc out pc w) = cl_dispatched w" "cl_dispatched (set_out out x w) = cl_dispatched w"
  "cl_telling (set_pc out pc w) = cl_telling w" "cl_telling (set_out out x w) = cl_telling w"
  "cl_key (set_pc out pc w) = cl_key w" "cl_key (set_out out x w) = cl_key w"
  "cl_pc (set_pc out pc w) out' = (if out' = out then pc else cl_pc w out')" "cl_pc (set_out out x w) = cl_pc w"
  "cl_out (set_out out x w) out' = (if out' = out then x else cl_out w out')" "cl_out (set_pc out pc w) = cl_out w"
  by (simp_all add: set_pc_def set_out_def)

lemma view_simps [simp]:
  "pending (set_pc out pc w) = pending w" "pending (set_out out x w) = pending w"
  "events (set_pc out pc w) = events w" "events (set_out out x w) = events w"
  "untold (set_pc out pc w) = untold w" "untold (set_out out x w) = untold w"
  "pending (w\<lparr>cl_out := outs\<rparr>) = pending w" "events (w\<lparr>cl_out := outs\<rparr>) = events w" "untold (w\<lparr>cl_out := outs\<rparr>) = untold w"
  "pending (w\<lparr>cl_key := ks\<rparr>) = pending w" "events (w\<lparr>cl_key := ks\<rparr>) = events w" "untold (w\<lparr>cl_key := ks\<rparr>) = untold w"
  "pending (w\<lparr>cl_dispatched := n\<rparr>) = pending w" "events (w\<lparr>cl_dispatched := n\<rparr>) = events w" "untold (w\<lparr>cl_dispatched := n\<rparr>) = untold w"
  "pending (w\<lparr>cl_telling := t\<rparr>) = pending w" "events (w\<lparr>cl_telling := t\<rparr>) = events w" "untold (w\<lparr>cl_conn := c\<rparr>) = untold w"
  by (rule ext, simp add: pending_def events_def untold_def)+

lemma silent_views:
  assumes "silent (cl_conn w) c'"
  shows "pending (w\<lparr>cl_conn := c'\<rparr>) = pending w" "events (w\<lparr>cl_conn := c'\<rparr>) = events w" "new_callbacks (cl_conn w) c' = []"
  using assms by (auto simp: silent_def pending_def events_def new_callbacks_def)

text \<open>The thread of one call moves on; the table and the callbacks stay.\<close>

definition fine :: "failure option \<Rightarrow> bool" where
  "fine fo \<longleftrightarrow> (case fo of None \<Rightarrow> True | Some (Thrown _) \<Rightarrow> True | Some _ \<Rightarrow> False)"

lemma calls_invD:
  assumes "calls_inv big env w"
  shows "world_inv (cl_conn w, cl_dispatched w)" "conn_inv (cl_conn w)" "call_ok big env w out"
    "(k, q) \<in> set (conn_requests (cl_conn w)) \<Longrightarrow> \<exists>x. q = Inl x"
    "in_progress (cl_pc w x) \<Longrightarrow> in_progress (cl_pc w y) \<Longrightarrow> cl_key w x = cl_key w y \<Longrightarrow> x = y"
  using assms by (auto simp: calls_inv_def world_inv_def)

lemma pending_iff: "k \<in> set (pending w out) \<longleftrightarrow> (k, Inl out) \<in> set (conn_requests (cl_conn w))"
  by (force simp: pending_def)

text \<open>An entry of the table belongs to the call with its key, which is owed an answer.\<close>

lemma entry_owner:
  assumes inv: "calls_inv big env w" and k: "sm_find k (conn_requests (cl_conn w)) = Some q"
  obtains out where "q = Inl out" "owed w out" "cl_key w out = k" "in_progress (cl_pc w out)"
proof -
  have e: "(k, q) \<in> set (conn_requests (cl_conn w))" using k by (simp add: sm_find_map_of map_of_SomeD)
  then obtain out where out: "q = Inl out" using calls_invD(4) [OF inv] by blast
  have "k \<in> set (pending w out)" using e out by (simp add: pending_iff)
  then have "owed w out" "cl_key w out = k" using calls_invD(3) [OF inv, of out] by (auto simp: call_defs)
  then show thesis using out that by (simp add: owed_def)
qed

lemma owed_find:
  assumes inv: "calls_inv big env w" and o: "owed w out"
  shows "sm_find (cl_key w out) (conn_requests (cl_conn w)) = Some (Inl out)"
proof -
  have "(cl_key w out, Inl out) \<in> set (conn_requests (cl_conn w))" using o by (simp add: owed_def flip: pending_iff)
  moreover have "sm_ok (conn_requests (cl_conn w))" using calls_invD(2) [OF inv] by (simp add: inv_defs)
  then have "distinct (map fst (conn_requests (cl_conn w)))" by (simp add: sm_ok_def strict_sorted_iff)
  ultimately show ?thesis by (simp add: sm_find_map_of)
qed

text \<open>One call moves on and the others see nothing of it.\<close>

lemma one_call_moves:
  assumes inv: "calls_inv big env w" and world: "world_inv (cl_conn w', cl_dispatched w')"
    and tab: "\<And>k q. (k, q) \<in> set (conn_requests (cl_conn w')) \<Longrightarrow> \<exists>x. q = Inl x"
    and pcs: "\<And>x. x \<noteq> out \<Longrightarrow> cl_pc w' x = cl_pc w x" and keys: "\<And>x. x \<noteq> out \<Longrightarrow> cl_key w' x = cl_key w x"
    and outs: "\<And>x. x \<noteq> out \<Longrightarrow> cl_out w' x = cl_out w x"
    and views: "\<And>x. x \<noteq> out \<Longrightarrow> pending w' x = pending w x \<and> events w' x = events w x \<and> untold w' x = untold w x"
    and key: "in_progress (cl_pc w' out) \<Longrightarrow> in_progress (cl_pc w out) \<and> cl_key w' out = cl_key w out \<or>
        (\<forall>x. in_progress (cl_pc w x) \<longrightarrow> cl_key w x \<noteq> cl_key w' out)"
    and ok: "call_ok big env w' out"
  shows "calls_inv big env w'"
  unfolding calls_inv_def
proof (intro conjI allI impI)
  show "world_inv (cl_conn w', cl_dispatched w')" by (rule world)
  show "\<forall>(k, q) \<in> set (conn_requests (cl_conn w')). \<exists>x. q = Inl x" using tab by blast
next
  fix x
  show "call_ok big env w' x"
    using ok calls_invD(3) [OF inv, of x] call_ok_cong [of w' x w big env] views pcs keys outs by (cases "x = out") auto
next
  fix x y
  assume "in_progress (cl_pc w' x) \<and> in_progress (cl_pc w' y) \<and> cl_key w' x = cl_key w' y"
  then show "x = y" using pcs keys key calls_invD(5) [OF inv, of x y] by (cases "x = out"; cases "y = out") metis+
qed

text \<open>The same when nothing happens to the table or to the callbacks.\<close>

lemma thread_moves:
  assumes inv: "calls_inv big env w" and sil: "silent (cl_conn w) (cl_conn w')" and world: "world_inv (cl_conn w', cl_dispatched w')"
    and t: "cl_telling w' = cl_telling w" "cl_key w' = cl_key w"
    and pcs: "\<And>x. x \<noteq> out \<Longrightarrow> cl_pc w' x = cl_pc w x" and outs: "\<And>x. x \<noteq> out \<Longrightarrow> cl_out w' x = cl_out w x"
    and prog: "in_progress (cl_pc w' out) \<Longrightarrow> in_progress (cl_pc w out)" and ok: "call_ok big env w' out"
  shows "calls_inv big env w'"
proof -
  have v: "pending w' x = pending w x" "events w' x = events w x" "untold w' x = untold w x" for x
    using sil t by (simp_all add: silent_def pending_def events_def untold_def)
  show ?thesis
    using calls_invD(4) [OF inv] sil t prog v pcs outs ok
    by (intro one_call_moves [OF inv world, where out = out]) (auto simp: silent_def)
qed

lemma call_views:
  assumes "silent (cl_conn w) (cl_conn w')" "cl_telling w' = cl_telling w"
  shows "pending w' x = pending w x" "events w' x = events w x" "untold w' x = untold w x"
  using assms by (simp_all add: silent_def pending_def events_def untold_def)

lemma enterWait_simps [simp]:
  "out_mode (enterWait x) = out_mode x" "out_exception (enterWait x) = out_exception x"
  "answered (enterWait x) = answered x" "answered x \<Longrightarrow> enterWait x = x"
  by (auto simp: enterWait_def answered_def out_order)

lemma os_simps [simp]:
  "out_mode (with_os bs x) = out_mode x" "answered (with_os bs x) = answered x"
  "unanswered pc (with_os bs x) = unanswered pc x" "invokeResult (with_os bs x) = invokeResult x"
  "answered (x\<lparr>out_is := s\<rparr>) = answered x" "unanswered pc (x\<lparr>out_is := s\<rparr>) = unanswered pc x"
  "invokeResult (x\<lparr>out_is := s\<rparr>) = invokeResult x"
  by (simp_all add: with_os_def answered_def unanswered_def invokeResult_def)

lemma pc_simps [simp]:
  "entered CallNew = False" "entered (CallSending r os) = True" "entered (CallSendFailed r ex) = True" "entered CallSent = True"
  "entered CallWaiting = True" "entered CallTimedOut = True" "entered CallWaitingAgain = True" "entered (CallRefused t) = False"
  "entered (CallReturned v) = True"
  "in_progress CallNew = False" "in_progress (CallSending r os) = True" "in_progress (CallSendFailed r ex) = True"
  "in_progress CallSent = True" "in_progress CallWaiting = True" "in_progress CallTimedOut = True"
  "in_progress CallWaitingAgain = True" "in_progress (CallRefused t) = False" "in_progress (CallReturned v) = False"
  "waiting CallNew = False" "waiting (CallSending r os) = False" "waiting (CallSendFailed r ex) = False" "waiting CallSent = False"
  "waiting CallWaiting = True" "waiting CallTimedOut = True" "waiting CallWaitingAgain = True" "waiting (CallRefused t) = False"
  "waiting (CallReturned v) = False"
  by (simp_all add: entered_def in_progress_def waiting_def)

lemma unanswered_enterWait: "unanswered CallSent x \<Longrightarrow> unanswered CallWaiting (enterWait x)"
  by (simp add: unanswered_def enterWait_def)

lemma unanswered_answered: "unanswered pc x \<Longrightarrow> \<not> answered x"
  by (auto simp: unanswered_def answered_def out_order split: if_splits)

text \<open>A thread that goes on inside \<open>invoke\<close> without changing what callbacks see.\<close>

lemma call_ok_pc:
  assumes ok: "call_ok big env w out" and views: "pending w' out = pending w out" "events w' out = events w out" "untold w' out = untold w out"
    and pc: "in_progress (cl_pc w out)" "in_progress (cl_pc w' out)" "waiting (cl_pc w' out) = waiting (cl_pc w out)"
    and key: "cl_key w' out = cl_key w out" "sending (cl_pc w' out) = None \<or> sending (cl_pc w' out) = sending (cl_pc w out)"
    and snd: "\<And>rid os. cl_pc w' out \<noteq> CallSending rid os"
    and out: "out_mode (cl_out w' out) = out_mode (cl_out w out)" "out_state (cl_out w' out) = out_state (cl_out w out)"
      "out_exception (cl_out w' out) = out_exception (cl_out w out)"
  shows "call_ok big env w' out"
proof -
  have e: "entered (cl_pc w out)" "entered (cl_pc w' out)" "\<And>r. cl_pc w' out \<noteq> CallReturned r"
    using pc by (auto simp: entered_def in_progress_def split: call_pc.splits)
  have "answered (cl_out w' out) = answered (cl_out w out)" "invokeResult (cl_out w' out) = invokeResult (cl_out w out)"
      "unanswered (cl_pc w' out) (cl_out w' out) = unanswered (cl_pc w out) (cl_out w out)"
    using out pc(3) by (simp_all add: answered_def invokeResult_def unanswered_def)
  then show ?thesis using ok views pc e key snd out unfolding call_defs by simp (metis option.distinct(1))
qed

lemma wait_step:
  assumes inv: "calls_inv big env w" and pc: "cl_pc w out = CallSent"
  shows "calls_inv big env (set_out out (enterWait (cl_out w out)) (set_pc out CallWaiting w))"
proof (rule thread_moves [OF inv, where out = out])
  show "world_inv (cl_conn (set_out out (enterWait (cl_out w out)) (set_pc out CallWaiting w)),
      cl_dispatched (set_out out (enterWait (cl_out w out)) (set_pc out CallWaiting w)))" using calls_invD(1) [OF inv] by simp
  show "call_ok big env (set_out out (enterWait (cl_out w out)) (set_pc out CallWaiting w)) out"
    using calls_invD(3) [OF inv, of out] pc
    by (auto simp: call_defs unanswered_enterWait)
qed (simp_all add: pc)

lemma timeout_step:
  assumes inv: "calls_inv big env w" and pc: "cl_pc w out = CallWaiting"
  shows "calls_inv big env (set_pc out CallTimedOut w)"
  using calls_invD(1) [OF inv] calls_invD(3) [OF inv, of out] pc
  by (intro thread_moves [OF inv, where out = out]) (auto simp: call_defs unanswered_def)

lemma return_step:
  assumes inv: "calls_inv big env w" and pc: "cl_pc w out = CallWaiting \<or> cl_pc w out = CallWaitingAgain"
    and st: "out_state (cl_out w out) \<noteq> StateInProgress"
  shows "calls_inv big env (set_pc out (CallReturned (invokeResult (cl_out w out))) w)"
    and "crash (invokeResult (cl_out w out)) = None"
proof -
  have t: "told_once big env w out"
    using calls_invD(3) [OF inv, of out] pc st by (auto simp: call_defs unanswered_def split: if_splits)
  then have "call_ok big env (set_pc out (CallReturned (invokeResult (cl_out w out))) w) out"
    using calls_invD(3) [OF inv, of out] by (auto simp: call_defs)
  then show "calls_inv big env (set_pc out (CallReturned (invokeResult (cl_out w out))) w)"
    using calls_invD(1) [OF inv] by (intro thread_moves [OF inv, where out = out]) auto
  show "crash (invokeResult (cl_out w out)) = None"
    using t answered_result [of "cl_out w out"] by (auto simp: told_once_def crash_def split: sum.splits out_throw.splits)
qed

lemma swapped_step:
  assumes inv: "calls_inv big env w"
  shows "calls_inv big env (set_out out ((cl_out w out)\<lparr>out_is := s\<rparr>) w)"
  using calls_invD(1) [OF inv] calls_invD(3) [OF inv, of out]
  by (intro thread_moves [OF inv, where out = out]) (auto simp: call_defs)

lemma world_step:
  assumes "calls_inv big env w" "conn_step big bz fill (cl_conn w, cl_dispatched w) fo (c', n')"
  shows "world_inv (c', n')" "fine fo"
  using step_world [OF assms(2) calls_invD(1) [OF assms(1)]] by (simp_all add: step_ok_def fine_def)

lemma send_step:
  assumes inv: "calls_inv big env w" and pc: "cl_pc w out = CallSending rid os"
    and run: "transmit big bz io RequestMsg (out_compress (cl_out w out)) os (cl_conn w) = (r, c')"
  shows "calls_inv big env (set_out out (with_os bs (cl_out w out)) (set_pc out (after_transmit rid r) (w\<lparr>cl_conn := c'\<rparr>)))"
    and "fine (outcome r)"
proof -
  let ?w = "set_out out (with_os bs (cl_out w out)) (set_pc out (after_transmit rid r) (w\<lparr>cl_conn := c'\<rparr>))"
  have len: "headerSize \<le> length os" and key: "cl_key w out = sint rid"
    using calls_invD(3) [OF inv, of out] pc by (auto simp: call_ok_def)
  have step: "conn_step big bz 0 (cl_conn w, cl_dispatched w) (outcome r) (c', cl_dispatched w)"
    by (rule conn_step.of_section [OF conn_section.transmit [OF _ len run]]) simp
  note world = world_step [OF inv step]
  show "fine (outcome r)" by (rule world(2))
  have sil: "silent (cl_conn w) c'" by (rule silentD [OF silent_transmit run])
  have "r = Inr () \<or> (\<exists>ex. r = Inl (Thrown ex))"
    using world(2) by (cases r) (auto simp: fine_def outcome_def split: failure.splits)
  then have next_pc: "after_transmit rid r = CallSent \<or> (\<exists>ex. after_transmit rid r = CallSendFailed rid ex)"
    by (auto simp: after_transmit_def)
  have "call_ok big env ?w out"
    using next_pc pc silent_views [OF sil] by (intro call_ok_pc [OF calls_invD(3) [OF inv]]) (auto simp: with_os_def)
  then show "calls_inv big env ?w"
    using world(1) sil pc by (intro thread_moves [OF inv, where out = out]) auto
qed

lemma give_up_step:
  assumes inv: "calls_inv big env w" and pc: "cl_pc w out = CallTimedOut" and io: "io_ok io"
    and run: "connException io TimeoutException (cl_conn w) = (r, c')"
  shows "calls_inv big env (set_pc out CallWaitingAgain (w\<lparr>cl_conn := c'\<rparr>))" and "fine (outcome r)"
proof -
  have step: "conn_step big bz 0 (cl_conn w, cl_dispatched w) (outcome r) (c', cl_dispatched w)" for bz
    by (rule conn_step.of_section [OF conn_section.exception [OF io run]])
  note world = world_step [OF inv step]
  show "fine (outcome r)" by (rule world(2))
  have sil: "silent (cl_conn w) c'" by (rule silentD [OF connException_silent run])
  have "call_ok big env (set_pc out CallWaitingAgain (w\<lparr>cl_conn := c'\<rparr>)) out"
    using pc silent_views [OF sil] by (intro call_ok_pc [OF calls_invD(3) [OF inv]]) auto
  then show "calls_inv big env (set_pc out CallWaitingAgain (w\<lparr>cl_conn := c'\<rparr>))"
    using world(1) sil pc by (intro thread_moves [OF inv, where out = out]) auto
qed

text \<open>Taking an entry out of the table, as a reply and a failed send do.\<close>

lemma erase_pending:
  assumes inv: "calls_inv big env w" and o: "owed w out"
  shows "map fst (filter (\<lambda>(k, q). q = Inl x) (sm_erase (cl_key w out) (conn_requests (cl_conn w)))) =
    (if x = out then [] else pending w x)"
proof -
  let ?m = "conn_requests (cl_conn w)"
  have "filter (\<lambda>(k, q). q = Inl x) (sm_erase (cl_key w out) ?m) = filter (\<lambda>(k, q). q = Inl x \<and> k \<noteq> cl_key w out) ?m"
    unfolding sm_erase_def by (auto intro: filter_cong)
  moreover have "k \<noteq> cl_key w out" if "(k, Inl x) \<in> set ?m" "x \<noteq> out" for k
  proof
    assume k: "k = cl_key w out"
    have "sm_ok ?m" using calls_invD(2) [OF inv] by (simp add: inv_defs)
    then have "distinct (map fst ?m)" by (simp add: sm_ok_def strict_sorted_iff)
    then have "sm_find k ?m = Some (Inl x)" using that by (simp add: sm_find_map_of)
    then show False using owed_find [OF inv o] k that by simp
  qed
  then have "x \<noteq> out \<Longrightarrow> filter (\<lambda>(k, q). q = Inl x \<and> k \<noteq> cl_key w out) ?m = filter (\<lambda>(k, q). q = Inl x) ?m"
    by (intro filter_cong) auto
  moreover have "k = cl_key w out" if "(k, Inl out) \<in> set ?m" for k
    using that o by (simp add: owed_def flip: pending_iff)
  then have "filter (\<lambda>(k, q). q = Inl out \<and> k \<noteq> cl_key w out) ?m = []" by (auto simp: filter_empty_conv)
  ultimately show ?thesis by (auto simp: pending_def)
qed

lemma requestFailed_callbacks:
  assumes "requestFailed io (Some q) rid ex c = (r, c')"
  shows "silent c c' \<and> r = Inr () \<or> silent c c' \<and> (\<exists>f. r = Inl f \<and> (\<forall>e. f \<noteq> Thrown e)) \<or>
    sm_find (sint rid) (conn_requests c) \<noteq> None \<and> (\<exists>f. r = Inl f) \<and> conn_requests c' = sm_erase (sint rid) (conn_requests c) \<and>
      callbacks c' = callbacks c \<or> (\<exists>f. fst (setClosed io ex c) = Inl f)"
proof (cases "setClosed io ex c")
  case (Pair r1 c1)
  have sil: "silent c c1" by (rule silentD [OF silent_setClosed Pair])
  show ?thesis
  proof (cases r1)
    case (Inl f)
    then show ?thesis using Pair by auto
  next
    case (Inr u)
    then show ?thesis using assms Pair sil
      by (auto simp: requestFailed_def abind_def rethrow_def eraseRequest_def silent_def callbacks_def split: option.splits if_splits)
  qed
qed

lemma erased_tab:
  assumes "calls_inv big env w" "(k, q) \<in> set (sm_erase k' (conn_requests (cl_conn w)))"
  shows "\<exists>x. q = Inl x"
  using assms(2) calls_invD(4) [OF assms(1), of k q] by (auto simp: sm_erase_def)

lemma send_failed_step:
  assumes inv: "calls_inv big env w" and pc: "cl_pc w out = CallSendFailed rid ex" and io: "io_ok io"
    and run: "requestFailed io (Some (Inl out)) rid ex (cl_conn w) = (r, c')"
  shows "calls_inv big env (set_pc out (after_failure r) (w\<lparr>cl_conn := c'\<rparr>))" and "fine (outcome r)"
proof -
  let ?w = "set_pc out (after_failure r) (w\<lparr>cl_conn := c'\<rparr>)"
  have key: "cl_key w out = sint rid" using calls_invD(3) [OF inv, of out] pc by (auto simp: call_ok_def)
  have step: "conn_step big bz 0 (cl_conn w, cl_dispatched w) (outcome r) (c', cl_dispatched w)" for bz
    by (rule conn_step.request_failed [OF io run])
  note world = world_step [OF inv step]
  show fine: "fine (outcome r)" by (rule world(2))
  have closed: "\<exists>d. setClosed io ex (cl_conn w) = (Inr (), d)" using setClosed_result [OF calls_invD(2) [OF inv] io] by blast
  consider (kept) "silent (cl_conn w) c'" "r = Inr ()"
    | (erased) f where "sm_find (sint rid) (conn_requests (cl_conn w)) \<noteq> None" "r = Inl f"
        "conn_requests c' = sm_erase (sint rid) (conn_requests (cl_conn w))" "callbacks c' = callbacks (cl_conn w)"
    using requestFailed_callbacks [OF run] closed fine by (fastforce simp: fine_def outcome_def split: failure.splits)
  then show "calls_inv big env ?w"
  proof cases
    case kept
    then have "after_failure r = CallSent" by (simp add: after_failure_def)
    then have "call_ok big env ?w out"
      using pc silent_views [OF kept(1)] by (intro call_ok_pc [OF calls_invD(3) [OF inv]]) auto
    then show ?thesis using world(1) kept pc by (intro thread_moves [OF inv, where out = out]) auto
  next
    case (erased f)
    then have npc: "after_failure r = CallRefused (of_failure f)" by (simp add: after_failure_def)
    from erased(1) obtain q where "sm_find (sint rid) (conn_requests (cl_conn w)) = Some q" by auto
    from entry_owner [OF inv this] obtain x where x: "owed w x" "cl_key w x = sint rid" "in_progress (cl_pc w x)" by metis
    then have o: "owed w out" using calls_invD(5) [OF inv, of x out] key pc by simp
    have pend: "pending ?w y = (if y = out then [] else pending w y)" for y
      using erase_pending [OF inv o, of y] erased(3) key by (simp add: pending_def)
    have ev: "events ?w y = events w y" "untold ?w y = untold w y" for y using erased(4) by (simp_all add: events_def untold_def)
    have "call_ok big env ?w out"
      using o pend [of out] ev [of out] npc pc calls_invD(3) [OF inv, of out] by (simp add: call_defs unanswered_def)
    then show ?thesis using pend ev npc world(1) erased_tab [OF inv] erased(3)
      by (intro one_call_moves [OF inv, where out = out]) auto
  qed
qed

lemma beginRequest_callbacks:
  assumes "beginRequest big io (Some q) os c = (r, c')"
  shows "case r of
      Inr (Inr (rid, os')) \<Rightarrow> conn_requests c' = sm_insert (sint rid) q (conn_requests c) \<and> callbacks c' = callbacks c \<and>
        length os' = length os
    | _ \<Rightarrow> silent c c'"
  using assms
  by (auto simp: beginRequest_def abind_def newRequestId_def Let_def acmReset_def silent_def callbacks_def patchInt_Inr
      split: option.splits if_splits sum.splits)

lemma insert_other: "\<not> P (k, v) \<Longrightarrow> filter P (sm_insert k v m) = filter P m"
  by (induction k v m rule: sm_insert.induct) auto

lemma insert_new: "P (k, v) \<Longrightarrow> filter P m = [] \<Longrightarrow> sm_find k m = None \<Longrightarrow> filter P (sm_insert k v m) = [(k, v)]"
  by (induction k v m rule: sm_insert.induct) (auto split: if_splits)

lemma insert_set: "set (sm_insert k v m) \<subseteq> insert (k, v) (set m)"
  by (induction k v m rule: sm_insert.induct) auto

lemma begin_step:
  assumes inv: "calls_inv big env w" and pc: "cl_pc w out = CallNew" and st: "conn_state (cl_conn w) \<noteq> StateNotValidated"
      "\<not> conn_datagram (cl_conn w)"
    and o': "invokeBegin big (cl_out w out) = Inr o'" and len: "headerSize + 4 \<le> length (buf (out_os o'))"
    and run: "beginRequest big io (Some (Inl out)) (buf (out_os o')) (cl_conn w) = (r, c')"
    and fresh: "\<And>rid os out'. r = Inr (Inr (rid, os)) \<Longrightarrow> in_progress (cl_pc w out') \<Longrightarrow> cl_key w out' \<noteq> sint rid"
    and key: "key = (case r of Inr (Inr (rid, _)) \<Rightarrow> sint rid | _ \<Rightarrow> cl_key w out)"
  shows "calls_inv big env (set_out out o' (set_pc out (after_begin r) (w\<lparr>cl_conn := c', cl_key := (cl_key w)(out := key)\<rparr>)))"
    and "fine (outcome r)"
proof -
  let ?w = "set_out out o' (set_pc out (after_begin r) (w\<lparr>cl_conn := c', cl_key := (cl_key w)(out := key)\<rparr>))"
  have step: "conn_step big bz 0 (cl_conn w, cl_dispatched w) (outcome r) (c', cl_dispatched w)" for bz
    by (rule conn_step.begin_request [OF st(1) len _ run]) (simp add: st)
  note world = world_step [OF inv step]
  show "fine (outcome r)" by (rule world(2))
  have out: "outside w out" using calls_invD(3) [OF inv, of out] pc by (auto simp: call_defs)
  have oo: "out_mode o' = ModeTwoway" "out_exception o' = None" "out_state o' = StateUnsent"
    using o' out calls_invD(3) [OF inv, of out] pc
    by (auto simp: invokeBegin_def call_ok_def outside_def unanswered_def andThen_eq_Inr split: if_splits)
  show "calls_inv big env ?w"
  proof (cases "\<exists>rid os. r = Inr (Inr (rid, os))")
    case True
    then obtain rid os where r: "r = Inr (Inr (rid, os))" by blast
    then have ins: "conn_requests c' = sm_insert (sint rid) (Inl out) (conn_requests (cl_conn w))" "callbacks c' = callbacks (cl_conn w)"
        "length os = length (buf (out_os o'))" using beginRequest_callbacks [OF run] by auto
    have none: "sm_find (sint rid) (conn_requests (cl_conn w)) = None"
      using entry_owner [OF inv] fresh [OF r] by (metis not_None_eq)
    have "filter (\<lambda>(k, q). q = Inl out) (conn_requests (cl_conn w)) = []" using out by (simp add: outside_def pending_def)
    then have pend: "pending ?w y = (if y = out then [sint rid] else pending w y)" for y
      using ins(1) none by (simp add: pending_def insert_other insert_new)
    have ev: "events ?w y = events w y" "untold ?w y = untold w y" for y using ins(2) by (simp_all add: events_def untold_def)
    have "call_ok big env ?w out"
      using pend [of out] ev [of out] out oo r key len ins(3)
      by (auto simp: call_defs unanswered_def after_begin_def pc)
    then show ?thesis
      using pend ev world(1) ins(1) calls_invD(4) [OF inv] insert_set [of "sint rid" "Inl out" "conn_requests (cl_conn w)"] fresh [OF r] r key
      by (intro one_call_moves [OF inv, where out = out]) (auto simp: after_begin_def)
  next
    case False
    then have sil: "silent (cl_conn w) c'" and kw: "key = cl_key w out" and npc: "\<exists>t. after_begin r = CallRefused t"
      using beginRequest_callbacks [OF run] key by (auto simp: after_begin_def split: sum.splits)
    have v: "pending ?w y = pending w y" "events ?w y = events w y" "untold ?w y = untold w y" for y
      using silent_views [OF sil] by simp_all
    have "call_ok big env ?w out"
      using v [of out] out oo npc by (auto simp: call_defs unanswered_def pc)
    then show ?thesis using v world(1) sil calls_invD(4) [OF inv] npc kw
      by (intro one_call_moves [OF inv, where out = out]) (auto simp: silent_def)
  qed
qed

lemma finishedEx_event:
  "out_finishedEx ex x = (Inr (), x') \<Longrightarrow> event_result big env (RequestFailed q ex) = Some (invokeResult x')"
  by (auto simp: out_finishedEx_def invokeResult_def result_of_def split: if_splits)

lemma finished_event:
  assumes "out_finished big env s x = (Inr (), x')" "out_exception x = None"
  shows "event_result big env (RequestReplied q s) = Some (invokeResult x')"
proof -
  from assms(1) obtain st ex s' where r: "readReply big env s = Inr ((st, ex), s')"
      and x': "x' = x\<lparr>out_is := s', out_state := st, out_exception := (case ex of None \<Rightarrow> out_exception x | Some e \<Rightarrow> Some e)\<rparr>"
    by (auto simp: out_finished_def split: if_splits sum.splits prod.splits)
  have "st = StateOK \<or> st = StateUserException \<or> st = StateLocalException"
    using readReply_state(1) [OF r] by (cases st) (auto simp: out_order)
  then show ?thesis using r x' readReply_state(2) [OF r] assms(2) by (auto simp: invokeResult_def result_of_def split: option.splits)
qed

lemma tell_step:
  assumes inv: "calls_inv big env w" and t: "cl_telling w = xs @ (out, ex) # ys" and run: "out_finishedEx ex (cl_out w out) = (r, o')"
  shows "calls_inv big env (set_out out o' (w\<lparr>cl_telling := xs @ ys\<rparr>))" and "fine (outcome r)"
proof -
  let ?w = "set_out out o' (w\<lparr>cl_telling := xs @ ys\<rparr>)"
  have "(out, ex) \<in> set (untold w out)" using t by (simp add: untold_def)
  then have way: "on_its_way w out" "untold w out = [(out, ex)]" "events w out = [RequestFailed (Inl out) ex]"
    using calls_invD(3) [OF inv, of out] by (auto simp: call_defs)
  have unt: "untold ?w y = (if y = out then [] else untold w y)" for y
    using way(2) t by (auto simp: untold_def append_eq_Cons_conv split: if_splits)
  have st: "out_mode (cl_out w out) = ModeTwoway" "out_state (cl_out w out) \<le> StateInProgress"
    using calls_invD(3) [OF inv, of out] way(1) by (auto simp: call_ok_def on_its_way_def unanswered_def out_order)
  then have r: "r = Inr ()" "answered o'" "out_mode o' = ModeTwoway" using finishedEx_result [of "cl_out w out" ex] run by auto
  show "fine (outcome r)" using r by (simp add: fine_def outcome_def)
  have "entered (cl_pc w out)" "\<And>v. cl_pc w out \<noteq> CallReturned v"
    using way(1) by (auto simp: on_its_way_def entered_def in_progress_def split: call_pc.splits)
  then have "call_ok big env ?w out"
    using calls_invD(3) [OF inv, of out] way unt [of out] r finishedEx_event [of ex "cl_out w out" o'] run
    by (auto simp: call_ok_def told_once_def on_its_way_def)
  then show "calls_inv big env ?w"
    using unt calls_invD(1,4) [OF inv] by (intro one_call_moves [OF inv, where out = out]) auto
qed

text \<open>A reply goes to the call with its id.\<close>

lemma new_callbacks_append: "callbacks c' = callbacks c @ evs \<Longrightarrow> new_callbacks c c' = evs"
  by (simp add: new_callbacks_def)

lemma receive_call_step:
  assumes env: "reply_reader env" and bz: "bz_ok bz" and inv: "calls_inv big env w"
    and st: "conn_state (cl_conn w) \<noteq> StateNotValidated" and io: "io_ok io" and s: "message_ok s"
    and run: "receiveMessage big bz fill (accepts big env (cl_out w)) io s (cl_conn w) = (r, c')"
    and k: "k = (case r of Inr (Some p) \<Rightarrow> unat (pm_invokeNum p) | _ \<Rightarrow> 0)" "cl_dispatched w + k < 2147483648"
    and del: "deliver big env (new_callbacks (cl_conn w) c') (cl_out w) = (fo, outs)"
  shows "calls_inv big env (w\<lparr>cl_conn := c', cl_dispatched := cl_dispatched w + k, cl_out := outs\<rparr>)"
    and "fine (if fo = None then outcome r else fo)"
proof -
  let ?w = "w\<lparr>cl_conn := c', cl_dispatched := cl_dispatched w + k, cl_out := outs\<rparr>"
  have acc: "accept_ok (accepts big env (cl_out w))"
    using reply_reader.accepts_ok [OF env, of big "cl_out w"] by (auto simp: accept_ok_def accepts_def split: sum.splits)
  have step: "conn_step big bz fill (cl_conn w, cl_dispatched w) (outcome r) (c', cl_dispatched w + k)"
    using s by (intro conn_step.receive [OF st io acc _ run k]) (simp add: message_ok_def)
  note world = world_step [OF inv step]
  have "silent (cl_conn w) c' \<or> replies_one (accepts big env (cl_out w)) (cl_conn w) c'"
    using receive_callbacks [OF calls_invD(2) [OF inv] bz s, of big fill "accepts big env (cl_out w)" io] run by simp
  then have "calls_inv big env ?w \<and> fo = None"
  proof
    assume sil: "silent (cl_conn w) c'"
    then have d: "fo = None" "outs = cl_out w" using del silent_views(3) [OF sil] by simp_all
    have "call_ok big env ?w x" for x
      using calls_invD(3) [OF inv, of x] call_views [of w ?w x] call_ok_cong [of ?w x w big env] sil d by simp
    then show ?thesis using calls_invD(4,5) [OF inv] world(1) sil d unfolding calls_inv_def by (auto simp: silent_def)
  next
    assume "replies_one (accepts big env (cl_out w)) (cl_conn w) c'"
    then obtain kk q t where q: "sm_find kk (conn_requests (cl_conn w)) = Some q" "accepts big env (cl_out w) q t = None" "at_rest t"
        "conn_requests c' = sm_erase kk (conn_requests (cl_conn w))" "callbacks c' = callbacks (cl_conn w) @ [RequestReplied q t]"
      unfolding replies_one_def by blast
    obtain out where out: "q = Inl out" "owed w out" "cl_key w out = kk" using entry_owner [OF inv q(1)] by metis
    let ?x = "cl_out w out"
    have x: "out_mode ?x = ModeTwoway" "out_state ?x \<le> StateInProgress" "out_exception ?x = None"
      using calls_invD(3) [OF inv, of out] out(2) by (auto simp: call_ok_def owed_def unanswered_def out_order)
    have "\<not> (\<exists>e. fst (out_finished big env t ?x) = Inl (Thrown e))" using q(2) out(1) by (auto simp: accepts_def out_accepts_def)
    then obtain x' where x': "out_finished big env t ?x = (Inr (), x')" "answered x'" "out_mode x' = ModeTwoway"
      using reply_reader.finished_result [OF env q(3) x] by (metis fst_conv)
    have d: "fo = None" "outs = (cl_out w)(out := x')" using del new_callbacks_append [OF q(5)] out(1) x'(1) by auto
    have pend: "pending ?w y = (if y = out then [] else pending w y)" for y
      using erase_pending [OF inv out(2), of y] q(4) out(3) by (simp add: pending_def)
    have ev: "events ?w y = events w y @ (if y = out then [RequestReplied (Inl out) t] else [])" "untold ?w y = untold w y" for y
      using q(5) out(1) by (simp_all add: events_def untold_def)
    have "entered (cl_pc w out)" "\<And>v. cl_pc w out \<noteq> CallReturned v"
      using out(2) by (auto simp: owed_def entered_def in_progress_def split: call_pc.splits)
    then have "call_ok big env ?w out"
      using calls_invD(3) [OF inv, of out] out(2) pend [of out] ev [of out] x' d finished_event [OF x'(1) x(3), of "Inl out"]
      by (auto simp: call_ok_def told_once_def owed_def)
    then have "calls_inv big env ?w"
      using pend ev world(1) d erased_tab [OF inv] q(4) by (intro one_call_moves [OF inv, where out = out]) auto
    then show ?thesis using d by simp
  qed
  then show "calls_inv big env ?w" "fine (if fo = None then outcome r else fo)" using world(2) by simp_all
qed

text \<open>\<open>ConnectionI::finished\<close> owes every call it took out of the table a callback.\<close>

lemma failures_append: "failures_of (xs @ ys) = failures_of xs @ failures_of ys"
  by (induction xs rule: failures_of.induct) auto

lemma failed_events:
  "filter (\<lambda>e. callback_of e = Some (Inl x)) (map (\<lambda>q. RequestFailed q ex) qs) =
     map (\<lambda>q. RequestFailed q ex) (filter (\<lambda>q. q = Inl x) qs)"
  by (induction qs) auto

lemma failed_untold:
  "filter (\<lambda>p. fst p = x) (failures_of (map (\<lambda>q. RequestFailed q ex) qs)) = map (\<lambda>_. (x, ex)) (filter (\<lambda>q. q = Inl x) qs)"
proof (induction qs)
  case (Cons q qs)
  then show ?case by (cases q) auto
qed simp

lemma async_none: "async_named c \<Longrightarrow> filter (\<lambda>q. q = Inl x) (map (fst \<circ> snd) (conn_asyncRequests c)) = []"
  by (auto simp: async_named_def filter_empty_conv)

lemma filter_snd: "filter (\<lambda>q. q = y) (map snd m) = map (\<lambda>_. y) (map fst (filter (\<lambda>(k, q). q = y) m))"
  by (induction m) auto

lemma other_step:
  assumes inv: "calls_inv big env w" and step: "conn_section big bz fill (cl_conn w, cl_dispatched w) fo (c', n')"
    and async: "async_named (cl_conn w)"
  shows "calls_inv big env (w\<lparr>cl_conn := c', cl_dispatched := n', cl_telling := cl_telling w @ failures_of (new_callbacks (cl_conn w) c')\<rparr>)"
    and "fine fo"
proof -
  let ?w = "w\<lparr>cl_conn := c', cl_dispatched := n', cl_telling := cl_telling w @ failures_of (new_callbacks (cl_conn w) c')\<rparr>"
  note world = world_step [OF inv conn_step.of_section [OF step]]
  show "fine fo" by (rule world(2))
  have "silent (cl_conn w) c' \<or> fails_all (cl_conn w) c'"
    using section_callbacks [OF step calls_invD(1) [OF inv]] by simp
  then show "calls_inv big env ?w"
  proof
    assume sil: "silent (cl_conn w) c'"
    then have "call_ok big env ?w x" for x
      using calls_invD(3) [OF inv, of x] silent_views [OF sil] call_ok_cong [of ?w x w big env] call_views [of w ?w x] by simp
    then show ?thesis using calls_invD(4,5) [OF inv] world(1) sil unfolding calls_inv_def by (auto simp: silent_def)
  next
    assume "fails_all (cl_conn w) c'"
    then obtain ex where f: "conn_requests c' = []" "callbacks c' = callbacks (cl_conn w) @
        map (\<lambda>q. RequestFailed q ex) (map snd (conn_requests (cl_conn w)) @ map (fst \<circ> snd) (conn_asyncRequests (cl_conn w)))"
      by (auto simp: fails_all_def)
    have pend: "pending ?w x = []" for x using f(1) by (simp add: pending_def)
    have ev: "events ?w x = events w x @ map (\<lambda>_. RequestFailed (Inl x) ex) (pending w x)" for x
      using f(2) async_none [OF async, of x]
      by (simp add: events_def failed_events filter_snd pending_def del: map_append filter_map map_map)
        (simp add: filter_snd)
    have unt: "untold ?w x = untold w x @ map (\<lambda>_. (x, ex)) (pending w x)" for x
      using new_callbacks_append [OF f(2)] async_none [OF async, of x]
      by (simp add: untold_def failed_untold filter_snd pending_def del: map_append filter_map map_map)
        (simp add: filter_snd)
    have "call_ok big env ?w x" for x
      using calls_invD(3) [OF inv, of x] pend [of x] ev [of x] unt [of x] by (auto simp: call_defs)
    then show ?thesis using calls_invD(5) [OF inv] world(1) f(1) unfolding calls_inv_def by auto
  qed
qed

lemma calls_step:
  assumes env: "reply_reader env" and bz: "bz_ok bz" and inv: "calls_inv big env w" and step: "call_step big bz fill env w fo w'"
  shows "calls_inv big env w' \<and> fine fo"
  using step
proof cases
  case (other c' n') then show ?thesis using other_step [OF inv] by blast
next
  case (receive io s r c' k fo outs)
  note receive_call_step [OF env bz inv receive(3-9)]
  then show ?thesis unfolding receive(1,2) by (rule conjI)
next
  case (swapped out s) then show ?thesis using swapped_step [OF inv] by (simp add: fine_def)
next
  case (tell xs out ex ys r o') then show ?thesis using tell_step [OF inv] by blast
next
  case (call_begin out o' io r c' key)
  note begin_step [OF inv call_begin(3-10)]
  then show ?thesis unfolding call_begin(1,2) by (rule conjI)
next
  case (call_send out rid os io r c') then show ?thesis using send_step [OF inv] by blast
next
  case (call_send_failed out rid ex io r c') then show ?thesis using send_failed_step [OF inv] by blast
next
  case (call_wait out) then show ?thesis using wait_step [OF inv] by (simp add: fine_def)
next
  case (call_timeout out) then show ?thesis using timeout_step [OF inv] by (simp add: fine_def)
next
  case (call_give_up out io r c') then show ?thesis using give_up_step [OF inv] by blast
next
  case (call_return out) then show ?thesis using return_step [OF inv, of out] by (simp add: fine_def)
qed

lemma calls_start_inv: "calls_start w \<Longrightarrow> calls_inv big env w"
  by (auto simp: calls_start_def calls_inv_def call_defs pending_def events_def untold_def unanswered_def callbacks_def
      connection_new_def new_world [unfolded connection_new_def])

lemma calls_reachable_inv: "calls_reachable big bz fill env w \<Longrightarrow> reply_reader env \<Longrightarrow> bz_ok bz \<Longrightarrow> calls_inv big env w"
  by (induction rule: calls_reachable.induct) (use calls_start_inv calls_step in blast)+

end
