(* ===== verification/OutgoingProps.thy ===== *)
theory OutgoingProps imports OutgoingCalls ConnectionProps begin

text \<open>
  What holds for the calls of a client in every reachable state: no assertion fails, every call is answered once,
  and a call on a closed connection comes back.
\<close>

section \<open>A sample call\<close>

text \<open>One call over a connection that has been validated, and a reply with an empty result.\<close>

definition call_start :: "(unit, unit) calls" where
  "call_start =
     \<lparr>cl_conn = connection_new 1000 False False False False 0 0 0 1, cl_dispatched = 0, cl_telling = [], cl_pc = (\<lambda>_. CallNew),
      cl_key = (\<lambda>_. 0),
      cl_out = (\<lambda>_. \<lparr>out_mode = ModeTwoway, out_state = StateUnsent, out_exception = None, out_is = stream_new 1000,
                     out_os = (stream_new 1000)\<lparr>buf := replicate 24 0, writeEncapsStack := [\<lparr>we_start = 18, we_typeIdMap = None, we_typeIdIndex = 0\<rparr>]\<rparr>,
                     out_compress = False\<rparr>)\<rparr>"

definition section_after :: "('o + 'a) connection \<Rightarrow> ('o, 'a) calls \<Rightarrow> ('o, 'a) calls" where
  "section_after c' w =
     w\<lparr>cl_conn := c', cl_dispatched := cl_dispatched w, cl_telling := cl_telling w @ failures_of (new_callbacks (cl_conn w) c')\<rparr>"

definition call_validated :: "(unit, unit) calls" where
  "call_validated = section_after (snd (endValidate False calm_io (cl_conn call_start))) call_start"

definition sample_out :: outgoing where
  "sample_out = (case invokeBegin False (cl_out call_validated ()) of Inr x \<Rightarrow> x | Inl _ \<Rightarrow> cl_out call_validated ())"

definition sample_begin :: "(failure + local_exception + ice_int \<times> byte list) \<times> (unit + unit) connection" where
  "sample_begin = beginRequest False calm_io (Some (Inl ())) (buf (out_os sample_out)) (cl_conn call_validated)"

definition call_sending :: "(unit, unit) calls" where
  "call_sending = set_out () sample_out (set_pc () (after_begin (fst sample_begin))
     (call_validated\<lparr>cl_conn := snd sample_begin, cl_key := (cl_key call_validated)(() := 1)\<rparr>))"

definition sample_reply :: stream where
  "sample_reply = (stream_new 1000)\<lparr>buf := [73, 99, 101, 80, 1, 0, 1, 0, 2, 0, 25, 0, 0, 0, 1, 0, 0, 0, 0, 6, 0, 0, 0, 1, 0], rpos := 25\<rparr>"

definition sample_received :: "(failure + (unit + unit) parsed option) \<times> (unit + unit) connection" where
  "sample_received = receiveMessage False store_bz 0 (accepts False (plain_env False) (cl_out call_sending)) calm_io sample_reply (cl_conn call_sending)"

definition sample_delivered :: "failure option \<times> (unit \<Rightarrow> outgoing)" where
  "sample_delivered = deliver False (plain_env False) (new_callbacks (cl_conn call_sending) (snd sample_received)) (cl_out call_sending)"

text \<open>The reply overtakes the thread that sends: it arrives while the call is still in \<open>sendRequest\<close>.\<close>

definition call_replied :: "(unit, unit) calls" where
  "call_replied = call_sending\<lparr>cl_conn := snd sample_received, cl_dispatched := cl_dispatched call_sending + 0, cl_out := snd sample_delivered\<rparr>"

lemma call_sending_facts:
  "conn_state (cl_conn call_validated) \<noteq> StateNotValidated" "\<not> conn_datagram (cl_conn call_validated)"
  "invokeBegin False (cl_out call_validated ()) = Inr sample_out" "headerSize + 4 \<le> length (buf (out_os sample_out))"
  "cl_pc call_validated () = CallNew" "conn_state (cl_conn call_sending) \<noteq> StateNotValidated"
  "(case fst sample_begin of Inr (Inr (rid, _)) \<Rightarrow> rid = 1 | _ \<Rightarrow> False)"
  by code_simp+

definition call_sent :: "(unit, unit) calls" where
  "call_sent = (let w = call_replied; x = cl_out w (); os = (case cl_pc w () of CallSending _ os \<Rightarrow> os | _ \<Rightarrow> []);
                  (r, c') = transmit False store_bz calm_io RequestMsg (out_compress x) os (cl_conn w)
     in set_out () (with_os (streamAfter False store_bz (out_compress x) os (cl_conn w)) x) (set_pc () (after_transmit 1 r) (w\<lparr>cl_conn := c'\<rparr>)))"

definition call_waiting :: "(unit, unit) calls" where
  "call_waiting = set_out () (enterWait (cl_out call_sent ())) (set_pc () CallWaiting call_sent)"

definition call_returned :: "(unit, unit) calls" where
  "call_returned = set_pc () (CallReturned (invokeResult (cl_out call_waiting ()))) call_waiting"

abbreviation sample_reachable :: "(unit, unit) calls \<Rightarrow> bool" where
  "sample_reachable \<equiv> calls_reachable False store_bz 0 (plain_env False)"

lemma call_validated_reachable: "sample_reachable call_validated"
proof -
  have "sample_reachable call_start"
    by (rule calls_init) (auto simp: calls_start_def call_start_def intro!: exI)
  moreover have "conn_section False store_bz 0 (cl_conn call_start, cl_dispatched call_start)
      (outcome (fst (endValidate False calm_io (cl_conn call_start)))) (snd (endValidate False calm_io (cl_conn call_start)), cl_dispatched call_start)"
    by (rule conn_section.end_validate [OF surjective_pairing])
  moreover have "async_named (cl_conn call_start)" by (simp add: async_named_def call_start_def connection_new_def)
  ultimately show ?thesis unfolding call_validated_def section_after_def by (rule calls_next [OF _ call_step.other])
qed

lemma call_sending_reachable: "sample_reachable call_sending"
proof -
  obtain os where b: "fst sample_begin = Inr (Inr (1, os))"
    using call_sending_facts(7) by (auto split: sum.splits prod.splits)
  have run: "beginRequest False calm_io (Some (Inl ())) (buf (out_os sample_out)) (cl_conn call_validated) = (fst sample_begin, snd sample_begin)"
    by (simp add: sample_begin_def)
  have new: "\<not> in_progress (cl_pc call_validated x)" for x using call_sending_facts(5) by (cases x) simp
  have key: "(1::int) = (case fst sample_begin of Inr (Inr (rid, _)) \<Rightarrow> sint rid | _ \<Rightarrow> cl_key call_validated ())" by (simp add: b)
  show ?thesis unfolding call_sending_def
    by (rule calls_next [OF call_validated_reachable call_step.call_begin [OF call_sending_facts(5,1,2,3,4) run _ key]]) (simp add: new)
qed

lemma call_replied_reachable: "sample_reachable call_replied"
proof -
  have run: "receiveMessage False store_bz 0 (accepts False (plain_env False) (cl_out call_sending)) calm_io sample_reply (cl_conn call_sending) =
      (fst sample_received, snd sample_received)" by (simp add: sample_received_def)
  have "case fst sample_received of Inr (Some p) \<Rightarrow> pm_invokeNum p = 0 | _ \<Rightarrow> False" by code_simp
  then have k: "0 = (case fst sample_received of Inr (Some p) \<Rightarrow> unat (pm_invokeNum p) | _ \<Rightarrow> 0)" by (auto split: sum.splits option.splits)
  have n: "cl_dispatched call_sending + 0 < 2147483648"
    by (simp add: call_sending_def call_validated_def section_after_def call_start_def)
  have msg: "message_ok sample_reply" by (simp add: message_ok_def sample_reply_def headerSize_def stream_new_def)
  have d: "deliver False (plain_env False) (new_callbacks (cl_conn call_sending) (snd sample_received)) (cl_out call_sending) =
      (fst sample_delivered, snd sample_delivered)" by (simp add: sample_delivered_def)
  show ?thesis unfolding call_replied_def
    by (rule calls_next [OF call_sending_reachable call_step.receive [OF call_sending_facts(6) calm_io_ok msg run k n d]])
qed

lemma sample_answered:
  "answered (cl_out call_waiting ())" "invokeResult (cl_out call_waiting ()) = Inr True"
proof -
  have "answered (cl_out call_replied ()) \<and> invokeResult (cl_out call_replied ()) = Inr True" by code_simp
  then have "answered (cl_out call_sent ()) \<and> invokeResult (cl_out call_sent ()) = Inr True"
    by (simp add: call_sent_def Let_def split: prod.splits)
  then show "answered (cl_out call_waiting ())" "invokeResult (cl_out call_waiting ()) = Inr True"
    by (simp_all add: call_waiting_def)
qed

lemma call_returned_reachable: "sample_reachable call_returned"
proof -
  have pc: "case cl_pc call_replied () of CallSending rid _ \<Rightarrow> rid = 1 | _ \<Rightarrow> False" by code_simp
  then obtain os where os: "cl_pc call_replied () = CallSending 1 os" by (auto split: call_pc.splits)
  obtain r c' where run: "transmit False store_bz calm_io RequestMsg (out_compress (cl_out call_replied ())) os (cl_conn call_replied) = (r, c')"
    by fastforce
  have sent: "sample_reachable call_sent" unfolding call_sent_def Let_def os using run
    by (simp add: calls_next [OF call_replied_reachable call_step.call_send [OF os run]])
  have pc: "cl_pc call_sent () = CallSent" by code_simp
  then have wait: "sample_reachable call_waiting" unfolding call_waiting_def by (rule calls_next [OF sent call_step.call_wait])
  have "cl_pc call_waiting () = CallWaiting \<or> cl_pc call_waiting () = CallWaitingAgain" by (simp add: call_waiting_def)
  moreover have "out_state (cl_out call_waiting ()) \<noteq> StateInProgress" using sample_answered by (auto simp: answered_def out_order)
  ultimately show ?thesis unfolding call_returned_def by (rule calls_next [OF wait call_step.call_return])
qed

section \<open>Every call is answered once\<close>

text \<open>
  C4: no thread crashes in a client.  Whatever messages arrive, and however the threads of any number of twoway
  calls, of the connection and of other requests interleave, no assertion of \<open>Outgoing\<close> or of the connection is violated
  and no memory is accessed that is not there: a section returns or throws an exception of the run time.
\<close>

theorem calls_no_crash:
  assumes "reply_reader env" and "bz_ok bz" and "calls_reachable big bz fill env w" and "call_step big bz fill env w fo w'"
  shows "case fo of None \<Rightarrow> True | Some (Thrown _) \<Rightarrow> True | Some _ \<Rightarrow> False"
  using calls_step [OF assms(1,2) calls_reachable_inv [OF assms(3,1,2)] assms(4)] by (simp add: fine_def)

theorem calls_no_crash_witness:
  "\<exists>(w :: (unit, unit) calls) fo w'. call_step False store_bz 0 (plain_env False) w fo w' \<and>
    (case fo of None \<Rightarrow> True | Some (Thrown _) \<Rightarrow> True | Some _ \<Rightarrow> False)"
proof -
  have "out_state (cl_out call_sending ()) \<le> StateInProgress" by code_simp
  from call_step.swapped [where w = call_sending and out = "()" and s = sample_reply, OF this]
  have step: "call_step False store_bz 0 (plain_env False) call_sending None
    (set_out () ((cl_out call_sending ())\<lparr>out_is := sample_reply\<rparr>) call_sending)" .
  from calls_no_crash [OF plain_reader.reply_reader_axioms store_bz_ok call_sending_reachable this] step show ?thesis by blast
qed

text \<open>
  C3: every call is answered exactly once.  A twoway call that has returned got exactly one callback, a reply or an
  exception, and its result is what that callback says; a call whose \<open>sendRequest\<close> threw is not in the
  table and was never called back, so the caller may send it again; and a call in between is either in the table under its
  own request id or has had its callback, never both.
\<close>

theorem call_answered_once:
  assumes "reply_reader env" and "bz_ok bz" and "calls_reachable big bz fill env w"
  shows "(case cl_pc w out of
      CallNew \<Rightarrow> pending w out = [] \<and> events w out = []
    | CallRefused t \<Rightarrow> pending w out = [] \<and> events w out = []
    | CallReturned r \<Rightarrow> pending w out = [] \<and> (\<exists>e. events w out = [e] \<and> event_result big env e = Some r) \<and> (\<forall>f. r \<noteq> Inl (Crashes f))
    | _ \<Rightarrow> pending w out = [cl_key w out] \<and> events w out = [] \<or> pending w out = [] \<and> (\<exists>e. events w out = [e]))"
proof -
  have ok: "call_ok big env w out" using calls_invD(3) [OF calls_reachable_inv [OF assms(3,1,2)]] .
  have ret: "told_once big env w out \<and> r = invokeResult (cl_out w out)" if "cl_pc w out = CallReturned r" for r
    using ok that unfolding call_ok_def by (auto simp: outside_def owed_def on_its_way_def)
  consider "outside w out" | "owed w out" | "on_its_way w out" | "told_once big env w out" using ok by (auto simp: call_ok_def)
  then show ?thesis
    using ret answered_result [of "cl_out w out"]
    by cases (cases "cl_pc w out"; auto simp: outside_def owed_def on_its_way_def told_once_def)+
qed

theorem call_answered_once_witness:
  "calls_reachable False store_bz 0 (plain_env False) call_returned \<and> cl_pc call_returned () = CallReturned (Inr True) \<and>
   pending call_returned () = [] \<and> (\<exists>e. events call_returned () = [e] \<and> event_result False (plain_env False) e = Some (Inr True))"
proof -
  have "cl_pc call_returned () = CallReturned (Inr True)" using sample_answered by (simp add: call_returned_def)
  then show ?thesis
    using call_answered_once [OF plain_reader.reply_reader_axioms store_bz_ok call_returned_reachable, of "()"] call_returned_reachable by simp
qed

end
