(* ===== verification/CallsReturn.thy ===== *)
theory CallsReturn imports OutgoingProps begin

text \<open>
  Twoway calls on a closed connection: whatever state the threads are in, the callbacks that the connection still owes
  let every call return.
\<close>

section \<open>Calls come back\<close>

abbreviation call_steps :: "bool \<Rightarrow> bzip2 \<Rightarrow> byte \<Rightarrow> ('x, 'l, 'c) dispatch_env \<Rightarrow> ('o, 'a) calls \<Rightarrow> ('o, 'a) calls \<Rightarrow> bool" where
  "call_steps big bz fill env \<equiv> (\<lambda>w w'. \<exists>fo. call_step big bz fill env w fo w')\<^sup>*\<^sup>*"

lemma one_step: "call_step big bz fill env w fo w' \<Longrightarrow> call_steps big bz fill env w w'"
  by (rule r_into_rtranclp) blast

lemma answered_told: "calls_inv big env w \<Longrightarrow> in_progress (cl_pc w out) \<Longrightarrow> answered (cl_out w out) \<Longrightarrow> told_once big env w out"
  using calls_invD(3) [of big env w out] unanswered_answered by (auto simp: call_defs entered_def in_progress_def split: call_pc.splits)

text \<open>On a closed connection \<open>finished\<close> still has to run as long as a call is owed an answer.\<close>

lemma closed_owed:
  assumes inv: "calls_inv big env w" and closed: "conn_state (cl_conn w) = StateClosed" and o: "owed w out"
  shows "0 < conn_finishedCount (cl_conn w)"
proof -
  have "conn_requests (cl_conn w) \<noteq> []" using owed_find [OF inv o] by auto
  then have "conn_transceiver (cl_conn w)" using calls_invD(1) [OF inv] by (auto simp: world_inv_def idle_def)
  then show ?thesis using closed calls_invD(2) [OF inv] by (simp add: conn_inv_def life_inv_def)
qed

lemma finished_empties:
  assumes inv: "conn_inv c" and pos: "0 < conn_finishedCount c" and closed: "conn_state c = StateClosed"
  shows "conn_requests (snd (finished_conn io c)) = []"
proof -
  let ?c1 = "c\<lparr>conn_finishedCount := conn_finishedCount c - 1\<rparr>"
  let ?c2 = "?c1\<lparr>conn_transceiver := False, conn_log := conn_log c @ [TransceiverClosed]\<rparr>"
  have *: "conn_requests (snd (failRequests d)) = []" if "conn_state d = StateClosed" for d :: "'a connection"
    using that by (simp add: failRequests_def Let_def split: option.splits)
  have pool: "\<not> conn_threadPerConnection c" and tr: "conn_finishedCount c = 1 \<Longrightarrow> conn_transceiver c"
    using inv pos closed by (auto simp: inv_defs)
  show ?thesis
  proof (cases "conn_finishedCount c = 1")
    case True
    then have "snd (finished_conn io c) = snd (failRequests ?c2)"
      using pool tr closed
      by (auto simp: finished_conn_def Let_def abind_def aret_def afail_def split: prod.splits sum.splits option.splits)
    then show ?thesis using * [of ?c2] closed by simp
  next
    case False
    then have "finished_conn io c = failRequests ?c1" using pool by (simp add: finished_conn_def Let_def)
    then show ?thesis using * [of ?c1] closed by simp
  qed
qed

lemma on_its_way_told:
  assumes inv: "calls_inv big env w" and o: "on_its_way w out"
  shows "\<exists>w'. call_steps big bz fill env w w' \<and> calls_inv big env w' \<and> cl_pc w' out = cl_pc w out \<and> answered (cl_out w' out)"
proof -
  obtain ex where "untold w out = [(out, ex)]" using o by (auto simp: on_its_way_def)
  then have "(out, ex) \<in> set (cl_telling w)" 
    by (metis filter_eq_ConsD in_set_conv_decomp untold_def)
  then obtain xs ys where t: "cl_telling w = xs @ (out, ex) # ys" by (meson split_list)
  obtain r x where run: "out_finishedEx ex (cl_out w out) = (r, x)" by fastforce
  have "out_mode (cl_out w out) = ModeTwoway" "out_state (cl_out w out) \<le> StateInProgress"
    using calls_invD(3) [OF inv, of out] o by (auto simp: call_ok_def on_its_way_def unanswered_def out_order)
  then have "answered x" using finishedEx_result [of "cl_out w out" ex] run by auto
  then show ?thesis using one_step [OF call_step.tell [OF t run]] tell_step(1) [OF inv t run]
    by (intro exI [of _ "set_out out x (w\<lparr>cl_telling := xs @ ys\<rparr>)"]) simp
qed

lemma closed_told:
  assumes env: "reply_reader env" and bz: "bz_ok bz" and inv: "calls_inv big env w"
    and closed: "conn_state (cl_conn w) = StateClosed" and async: "async_named (cl_conn w)" and pc: "in_progress (cl_pc w out)"
  shows "\<exists>w'. call_steps big bz fill env w w' \<and> calls_inv big env w' \<and> cl_pc w' out = cl_pc w out \<and> answered (cl_out w' out)"
proof -
  consider "owed w out" | "on_its_way w out" | "told_once big env w out"
    using calls_invD(3) [OF inv, of out] pc by (auto simp: call_defs entered_def in_progress_def split: call_pc.splits)
  then show ?thesis
  proof cases
    case 1
    let ?c = "snd (finished_conn calm_io (cl_conn w))"
    let ?w = "w\<lparr>cl_conn := ?c, cl_dispatched := cl_dispatched w, cl_telling := cl_telling w @ failures_of (new_callbacks (cl_conn w) ?c)\<rparr>"
    note pos = closed_owed [OF inv closed 1]
    have sec: "conn_section big bz fill (cl_conn w, cl_dispatched w) (outcome (fst (finished_conn calm_io (cl_conn w)))) (?c, cl_dispatched w)"
      by (rule conn_section.finished [OF pos surjective_pairing])
    have inv': "calls_inv big env ?w" by (rule other_step(1) [OF inv sec async])
    have "pending ?w out = []" using finished_empties [OF calls_invD(2) [OF inv] pos closed] by (simp add: pending_def)
    then have "on_its_way ?w out \<or> told_once big env ?w out"
      using calls_invD(3) [OF inv', of out] pc by (auto simp: call_ok_def outside_def owed_def entered_def in_progress_def split: call_pc.splits)
    then have "\<exists>w'. call_steps big bz fill env ?w w' \<and> calls_inv big env w' \<and> cl_pc w' out = cl_pc ?w out \<and> answered (cl_out w' out)"
    proof
      assume "on_its_way ?w out"
      then show ?thesis by (rule on_its_way_told [OF inv'])
    next
      assume "told_once big env ?w out"
      then show ?thesis using inv' by (intro exI [of _ ?w]) (simp add: told_once_def)
    qed
    then obtain w' where "call_steps big bz fill env ?w w'" "calls_inv big env w'" "cl_pc w' out = cl_pc ?w out" "answered (cl_out w' out)"
      by blast
    moreover have "call_steps big bz fill env w ?w" by (rule one_step [OF call_step.other [OF sec async]])
    ultimately show ?thesis by (intro exI [of _ w']) (auto intro: rtranclp_trans)
  next
    case 2
    then show ?thesis using on_its_way_told [OF inv] by blast
  next
    case 3
    then show ?thesis using inv by (auto simp: told_once_def)
  qed
qed

text \<open>Once a call has its answer its thread only has to go on.\<close>

definition comes_back :: "bool \<Rightarrow> bzip2 \<Rightarrow> byte \<Rightarrow> ('x, 'l, 'c) dispatch_env \<Rightarrow> 'o \<Rightarrow> ('o, 'a) calls \<Rightarrow> bool" where
  "comes_back big bz fill env out w \<longleftrightarrow> (\<exists>w' r. call_steps big bz fill env w w' \<and> cl_pc w' out = CallReturned r)"

lemma comes_back_step: "call_step big bz fill env w fo w' \<Longrightarrow> comes_back big bz fill env out w' \<Longrightarrow> comes_back big bz fill env out w"
  unfolding comes_back_def using converse_rtranclp_into_rtranclp by metis

lemma back_from_wait:
  assumes "answered (cl_out w out)" "cl_pc w out = CallWaiting \<or> cl_pc w out = CallWaitingAgain"
  shows "comes_back big bz fill env out w"
proof -
  have "out_state (cl_out w out) \<noteq> StateInProgress" using assms(1) by (auto simp: answered_def out_order)
  from one_step [OF call_step.call_return [OF assms(2) this]] show ?thesis unfolding comes_back_def
    by (intro exI [of _ "set_pc out (CallReturned (invokeResult (cl_out w out))) w"] exI [of _ "invokeResult (cl_out w out)"]) simp
qed

lemma back_from_sent:
  assumes "answered (cl_out w out)" "cl_pc w out = CallSent"
  shows "comes_back big bz fill env out w"
  using assms by (intro comes_back_step [OF call_step.call_wait [OF assms(2)]] back_from_wait) auto

lemma back_from_timeout:
  assumes "answered (cl_out w out)" "cl_pc w out = CallTimedOut"
  shows "comes_back big bz fill env out w"
  using assms
  by (intro comes_back_step [OF call_step.call_give_up [OF assms(2) calm_io_ok surjective_pairing]] back_from_wait) auto

lemma fine_outcome: "fine (outcome r) \<Longrightarrow> r = Inl f \<Longrightarrow> \<exists>e. f = Thrown e"
  by (auto simp: fine_def outcome_def split: failure.splits)

lemma back_from_failure:
  assumes inv: "calls_inv big env w" and a: "answered (cl_out w out)" and pc: "cl_pc w out = CallSendFailed rid ex"
  shows "comes_back big bz fill env out w"
proof -
  let ?run = "requestFailed calm_io (Some (Inl out)) rid ex (cl_conn w)"
  have key: "cl_key w out = sint rid" using calls_invD(3) [OF inv, of out] pc by (auto simp: call_ok_def)
  have closed: "\<exists>d. setClosed calm_io ex (cl_conn w) = (Inr (), d)" using setClosed_result [OF calls_invD(2) [OF inv] calm_io_ok] by blast
  have "\<not> owed w out" using a unanswered_answered by (auto simp: owed_def)
  then have none: "sm_find (sint rid) (conn_requests (cl_conn w)) = None"
    using entry_owner [OF inv] calls_invD(5) [OF inv, of _ out] key pc by (metis not_None_eq pc_simps(12))
  have "fine (outcome (fst ?run))" by (rule send_failed_step(2) [OF inv pc calm_io_ok surjective_pairing])
  then have "after_failure (fst ?run) = CallSent"
    using requestFailed_callbacks [where io = calm_io and q = "Inl out" and rid = rid and ex = ex and c = "cl_conn w", OF surjective_pairing] none closed
    by (auto simp: after_failure_def dest: fine_outcome split: sum.splits)
  then show ?thesis using a
    by (intro comes_back_step [OF call_step.call_send_failed [OF pc calm_io_ok surjective_pairing]] back_from_sent) auto
qed

lemma back_from_sending:
  assumes inv: "calls_inv big env w" and a: "answered (cl_out w out)" and pc: "cl_pc w out = CallSending rid os"
  shows "comes_back big bz fill env out w"
proof -
  let ?run = "transmit big bz calm_io RequestMsg (out_compress (cl_out w out)) os (cl_conn w)"
  let ?bs = "streamAfter big bz (out_compress (cl_out w out)) os (cl_conn w)"
  let ?w = "set_out out (with_os ?bs (cl_out w out)) (set_pc out (after_transmit rid (fst ?run)) (w\<lparr>cl_conn := snd ?run\<rparr>))"
  note inv' = send_step(1) [where bz = bz and io = calm_io and bs = ?bs, OF inv pc surjective_pairing]
  have "fine (outcome (fst ?run))" by (rule send_step(2) [OF inv pc surjective_pairing])
  then have next_pc: "after_transmit rid (fst ?run) = CallSent \<or> (\<exists>ex. after_transmit rid (fst ?run) = CallSendFailed rid ex)"
    by (cases "fst ?run") (auto simp: fine_def outcome_def after_transmit_def split: failure.splits)
  have "comes_back big bz fill env out ?w"
    using next_pc a back_from_sent [of ?w out] back_from_failure [OF inv'] by auto
  then show ?thesis by (rule comes_back_step [OF call_step.call_send [OF pc surjective_pairing]])
qed

text \<open>
  C9: no call is left behind.  When the connection is closed, whatever the threads are doing and whatever they have
  done, every twoway call that is in progress can return: the calls of \<open>finished\<close> that the thread pool owes the
  connection, the callbacks they make and the caller's own steps lead to a state in which it has a result.
\<close>

theorem closed_calls_return:
  assumes "reply_reader env" and "bz_ok bz" and "calls_reachable big bz fill env w"
    and "conn_state (cl_conn w) = StateClosed" and "async_named (cl_conn w)" and "in_progress (cl_pc w out)"
  shows "\<exists>w' r. call_steps big bz fill env w w' \<and> cl_pc w' out = CallReturned r"
proof -
  obtain w' where w': "call_steps big bz fill env w w'" "calls_inv big env w'" "cl_pc w' out = cl_pc w out" "answered (cl_out w' out)"
    using closed_told [OF assms(1,2) calls_reachable_inv [OF assms(3,1,2)] assms(4-6)] by blast
  have "comes_back big bz fill env out w'"
    using w'(3,4) assms(6) back_from_wait [of w' out] back_from_sent [of w' out] back_from_timeout [of w' out]
      back_from_failure [OF w'(2,4)] back_from_sending [OF w'(2,4)]
    by (cases "cl_pc w out") auto
  then show ?thesis using w'(1) unfolding comes_back_def by (meson rtranclp_trans)
qed

text \<open>The connection of the sample call, closed while the request is being sent.\<close>

definition call_closed :: "(unit, unit) calls" where
  "call_closed = section_after (snd (connException calm_io ConnectionLostException (cl_conn call_sending))) call_sending"

theorem closed_calls_return_witness:
  "calls_reachable False store_bz 0 (plain_env False) call_closed \<and>
   (\<exists>w' r. call_steps False store_bz 0 (plain_env False) call_closed w' \<and> cl_pc w' () = CallReturned r)"
proof -
  let ?c = "snd (connException calm_io ConnectionLostException (cl_conn call_sending))"
  have sec: "conn_section False store_bz 0 (cl_conn call_sending, cl_dispatched call_sending)
      (outcome (fst (connException calm_io ConnectionLostException (cl_conn call_sending)))) (?c, cl_dispatched call_sending)"
    by (rule conn_section.exception [OF calm_io_ok surjective_pairing])
  have named: "async_named (cl_conn call_sending) \<and> async_named ?c" by code_simp
  have reach: "sample_reachable call_closed" unfolding call_closed_def section_after_def
    using named by (intro calls_next [OF call_sending_reachable call_step.other [OF sec]]) simp
  have c: "cl_conn call_closed = ?c" "cl_pc call_closed = cl_pc call_sending" by (simp_all add: call_closed_def section_after_def)
  have "conn_state ?c = StateClosed \<and> in_progress (cl_pc call_sending ())" by code_simp
  then show ?thesis
    using closed_calls_return [OF plain_reader.reply_reader_axioms store_bz_ok reach, of "()"] reach named c by simp
qed

end
