(* ===== verification/WireTransfer.thy ===== *)
theory WireTransfer imports Outgoing begin

text \<open>
  The way of one request or reply between two processes: the sender frames the bytes of its stream and may compress
  them (\<open>prepareMessage\<close> in \<^verbatim>\<open>src/Ice-3.1.1/src/Ice/ConnectionI.cpp\<close>), the receiver opens the message and reads the
  request id behind the header, as \<open>parseMessage\<close> does.
\<close>

definition transfer ::
  "bzip2 \<Rightarrow> byte \<Rightarrow> bool \<Rightarrow> int \<Rightarrow> bool \<Rightarrow> byte list \<Rightarrow> bool \<Rightarrow> nat \<Rightarrow> failure + byte \<times> byte \<times> ice_int \<times> stream" where
  "transfer bz fill big level compress bs big' maxSize =
     andThen (snd (prepareMessage big bz level compress bs)) (\<lambda>wire.
     andThen (openMessage big' bz fill ((stream_new maxSize)\<lparr>buf := wire, rpos := int (length wire)\<rparr>)) (\<lambda>((messageType, k), s1).
     andThen (read_Int big' s1) (\<lambda>(requestId, s2). Inr (messageType, k, requestId, s2))))"

lemma openMessage_stack: "openMessage big bz fill s = Inr (r, s') \<Longrightarrow> seqDataStack s' = seqDataStack s"
  by (auto simp: openMessage_def andThen_eq_Inr read_Byte_def split: if_splits)

lemma transfer_arrives:
  assumes bz: "bz_ok bz" and t: "transfer bz fill big level compress bs big' maxSize = Inr (messageType, k, requestId, s)"
    and bs: "length bs = 18 + length rest" "length bs < 2147483648" "length bs \<le> maxSize" "bs ! 9 = 0"
      "drop headerSize bs = le_bytes rid @ rest"
  shows "messageType = bs ! 8" "requestId = rid" "rpos s = 18" "seq_ready s" "drop 18 (buf s) = rest" "length (buf s) = length bs"
proof -
  let ?s0 = "\<lambda>wire. (stream_new maxSize)\<lparr>buf := wire, rpos := int (length wire)\<rparr>"
  from t obtain os' wire s1 where w: "prepareMessage big bz level compress bs = (os', Inr wire)"
      "openMessage big' bz fill (?s0 wire) = Inr ((messageType, k), s1)" "read_Int big' s1 = Inr (requestId, s)"
    by (auto simp: transfer_def andThen_eq_Inr) (metis surjective_pairing)
  have "opened bs (if compress then if length bs \<ge> 100 then 2 else 1 else 0) ((messageType, k), s1)"
    using message_opened [OF bz _ bs(2,4) w(1), of "?s0 wire" big' fill] bs(1,3) w(2) by (auto simp: headerSize_def stream_new_def)
  then have o: "messageType = bs ! 8" "drop headerSize (buf s1) = le_bytes rid @ rest" "length (buf s1) = length bs" "rpos s1 = int headerSize"
    using bs(5) by (auto simp: opened_def)
  have at: "at s1 (take headerSize (buf s1)) (le_bytes rid) rest"
    using o bs(1) by (simp add: at_def headerSize_def flip: o(2))
  have r: "read_Int big' s1 = Inr (rid, skip s1 4)" using read_Int_at [OF at, of big'] by simp
  show "messageType = bs ! 8" by (rule o(1))
  show "requestId = rid" "rpos s = 18" "length (buf s) = length bs" using r w(3) o by (auto simp: headerSize_def)
  have "drop 18 (buf s1) = drop 4 (drop headerSize (buf s1))" by (simp add: headerSize_def)
  then show "drop 18 (buf s) = rest" using r w(3) o(2) by auto
  have "seqDataStack s1 = []" using openMessage_stack [OF w(2)] by (simp add: stream_new_def)
  then show "seq_ready s" using r w(3) o(3) bs(2) by (auto simp: seq_ready_def)
qed

end
