(* ===== verification/Transceiver.thy ===== *)
theory Transceiver imports Protocol begin

text \<open>
  Reading and writing a socket, \<^verbatim>\<open>src/Ice-3.1.1/src/Ice/TcpTransceiver.cpp\<close> and
  \<^verbatim>\<open>src/Ice-3.1.1/src/Ice/UdpTransceiver.cpp\<close>.  The kernel is a script: what it answers to the system calls of a run,
  one after the other, together with what the peer has sent; a run that has used up its script is blocked.
\<close>

section \<open>The kernel\<close>

datatype select_answer = SelReady | SelTimedOut | SelInterrupted | SelFailed

text \<open>
  Answers to \<open>recv\<close> and \<open>send\<close>.  \<open>Data n\<close> transfers up to \<open>n\<close> bytes, and is the end of the connection when there is
  nothing to transfer; \<open>WouldBlock\<close> carries the answers to the calls of \<open>select\<close> that follow.
\<close>

datatype net_answer =
    Data nat
  | Interrupted
  | NoBuffers
  | WouldBlock "select_answer list"
  | Truncated
  | Reset
  | NetFailed

text \<open>Operations on a stream and the outside world: the result, which may be an exception, and both afterwards; \<open>None\<close> if blocked.\<close>

type_synonym ('w, 'a) transfer_op = "stream \<Rightarrow> 'w \<Rightarrow> ((failure + 'a) \<times> stream \<times> 'w) option"

type_synonym 'd net = "'d list \<times> net_answer list"

fun repeatSelect :: "select_answer list \<Rightarrow> (failure + bool) option" where
  "repeatSelect [] = None"
| "repeatSelect (SelReady # _) = Some (Inr True)"
| "repeatSelect (SelTimedOut # _) = Some (Inr False)"
| "repeatSelect (SelInterrupted # as) = repeatSelect as"
| "repeatSelect (SelFailed # _) = Some (throw SocketException)"

text \<open>The room behind the iterator, and bytes stored there.\<close>

definition roomLeft :: "stream \<Rightarrow> nat" where
  "roomLeft s = nat (int (length (buf s)) - rpos s)"

definition storeBytes :: "byte list \<Rightarrow> stream \<Rightarrow> stream" where
  "storeBytes bs s = s\<lparr>buf := overwrite (nat (rpos s)) bs (buf s), rpos := rpos s + int (length bs)\<rparr>"

section \<open>TCP\<close>

fun tcpReadLoop :: "net_answer list \<Rightarrow> nat \<Rightarrow> byte list \<Rightarrow> stream \<Rightarrow> ((failure + unit) \<times> stream \<times> byte net) option" where
  "tcpReadLoop [] packetSize inflow s = (if rpos s = int (length (buf s)) then Some (Inr (), s, inflow, []) else None)"
| "tcpReadLoop (a # as) packetSize inflow s =
     (if rpos s = int (length (buf s)) then Some (Inr (), s, inflow, a # as)
      else case a of
          Data n \<Rightarrow>
            let got = take (min n packetSize) inflow
            in if got = [] then Some (throw ConnectionLostException, s, inflow, as)
               else tcpReadLoop as (min packetSize (roomLeft (storeBytes got s))) (drop (length got) inflow) (storeBytes got s)
        | Interrupted \<Rightarrow> tcpReadLoop as packetSize inflow s
        | NoBuffers \<Rightarrow>
            if packetSize > 1024 then tcpReadLoop as (packetSize div 2) inflow s else Some (throw SocketException, s, inflow, as)
        | WouldBlock sel \<Rightarrow>
            (case repeatSelect sel of
               None \<Rightarrow> None
             | Some (Inl f) \<Rightarrow> Some (Inl f, s, inflow, as)
             | Some (Inr ready) \<Rightarrow> if ready then tcpReadLoop as packetSize inflow s else Some (throw TimeoutException, s, inflow, as))
        | Truncated \<Rightarrow> Some (throw SocketException, s, inflow, as)
        | Reset \<Rightarrow> Some (throw ConnectionLostException, s, inflow, as)
        | NetFailed \<Rightarrow> Some (throw SocketException, s, inflow, as))"

definition tcp_read :: "(byte net, unit) transfer_op" where
  "tcp_read s w = tcpReadLoop (snd w) (roomLeft s) (fst w) s"

text \<open>Writing is the same loop with the bytes going the other way; \<open>sent\<close> is what the kernel has taken.\<close>

fun tcpWriteLoop :: "net_answer list \<Rightarrow> nat \<Rightarrow> byte list \<Rightarrow> stream \<Rightarrow> ((failure + unit) \<times> stream \<times> byte net) option" where
  "tcpWriteLoop [] packetSize sent s = (if rpos s = int (length (buf s)) then Some (Inr (), s, sent, []) else None)"
| "tcpWriteLoop (a # as) packetSize sent s =
     (if rpos s = int (length (buf s)) then Some (Inr (), s, sent, a # as)
      else case a of
          Data n \<Rightarrow>
            let taken = take (min n packetSize) (drop (nat (rpos s)) (buf s))
            in if taken = [] then Some (throw ConnectionLostException, s, sent, as)
               else tcpWriteLoop as (min packetSize (roomLeft (skip s (length taken)))) (sent @ taken) (skip s (length taken))
        | Interrupted \<Rightarrow> tcpWriteLoop as packetSize sent s
        | NoBuffers \<Rightarrow>
            if packetSize > 1024 then tcpWriteLoop as (packetSize div 2) sent s else Some (throw SocketException, s, sent, as)
        | WouldBlock sel \<Rightarrow>
            (case repeatSelect sel of
               None \<Rightarrow> None
             | Some (Inl f) \<Rightarrow> Some (Inl f, s, sent, as)
             | Some (Inr ready) \<Rightarrow> if ready then tcpWriteLoop as packetSize sent s else Some (throw TimeoutException, s, sent, as))
        | Truncated \<Rightarrow> Some (throw SocketException, s, sent, as)
        | Reset \<Rightarrow> Some (throw ConnectionLostException, s, sent, as)
        | NetFailed \<Rightarrow> Some (throw SocketException, s, sent, as))"

definition tcp_write :: "(byte net, unit) transfer_op" where
  "tcp_write s w = tcpWriteLoop (snd w) (roomLeft s) (fst w) s"

section \<open>UDP\<close>

definition udpOverhead :: int where "udpOverhead = 20 + 8"
definition maxPacketSize :: int where "maxPacketSize = 65535 - udpOverhead"

text \<open>
  A datagram is read whole; what does not fit into the buffer is dropped by the kernel, or reported as \<open>Truncated\<close>.
  \<open>doConnect\<close> is what connecting the socket to the first peer throws, when it is to be connected.
\<close>

fun udpReadLoop :: "nat \<Rightarrow> bool \<Rightarrow> local_exception option \<Rightarrow> net_answer list \<Rightarrow> byte list list \<Rightarrow> stream
    \<Rightarrow> ((failure + unit) \<times> stream \<times> byte list net) option" where
  "udpReadLoop packetSize down doConnect as inbox s =
     (if down then Some (throw ConnectionLostException, s, inbox, as)
      else case as of
          [] \<Rightarrow> None
        | Data _ # as' \<Rightarrow>
            (case inbox of
               [] \<Rightarrow> None
             | d # ds \<Rightarrow>
                 (case doConnect of
                    Some ex \<Rightarrow> Some (throw ex, s\<lparr>buf := overwrite 0 (take packetSize d) (buf s)\<rparr>, ds, as')
                  | None \<Rightarrow> Some (Inr (), s\<lparr>buf := take packetSize d, rpos := int (length (take packetSize d))\<rparr>, ds, as')))
        | Interrupted # as' \<Rightarrow> udpReadLoop packetSize down doConnect as' inbox s
        | WouldBlock sel # as' \<Rightarrow>
            (case repeatSelect sel of
               None \<Rightarrow> None
             | Some (Inl f) \<Rightarrow> Some (Inl f, s, inbox, as')
             | Some (Inr _) \<Rightarrow> udpReadLoop packetSize down doConnect as' inbox s)
        | Truncated # as' \<Rightarrow> Some (throw DatagramLimitException, s, drop 1 inbox, as')
        | _ # as' \<Rightarrow> Some (throw SocketException, s, inbox, as'))"

definition udp_read :: "byte \<Rightarrow> int \<Rightarrow> bool \<Rightarrow> local_exception option \<Rightarrow> (byte list net, unit) transfer_op" where
  "udp_read fill rcvSize down doConnect s w =
     (let packetSize = min maxPacketSize (rcvSize - udpOverhead)
      in if rpos s \<noteq> 0 then Some (Inl AssertionFailed, s, w)
         else if packetSize < int (length (buf s)) then Some (throw DatagramLimitException, s, w)
         else udpReadLoop (nat packetSize) down doConnect (snd w) (fst w)
                (s\<lparr>buf := buf s @ replicate (nat packetSize - length (buf s)) fill, rpos := 0\<rparr>))"

fun udpWriteLoop :: "net_answer list \<Rightarrow> byte list list \<Rightarrow> stream \<Rightarrow> ((failure + unit) \<times> stream \<times> byte list net) option" where
  "udpWriteLoop [] sent s = None"
| "udpWriteLoop (a # as) sent s =
     (case a of
        Data n \<Rightarrow>
          if n < length (buf s) then Some (Inl AssertionFailed, s, sent, as)
          else Some (Inr (), s\<lparr>rpos := int (length (buf s))\<rparr>, sent @ [buf s], as)
      | Interrupted \<Rightarrow> udpWriteLoop as sent s
      | WouldBlock sel \<Rightarrow>
          (case repeatSelect sel of
             None \<Rightarrow> None
           | Some (Inl f) \<Rightarrow> Some (Inl f, s, sent, as)
           | Some (Inr _) \<Rightarrow> udpWriteLoop as sent s)
      | _ \<Rightarrow> Some (throw SocketException, s, sent, as))"

definition udp_write :: "int \<Rightarrow> (byte list net, unit) transfer_op" where
  "udp_write sndSize s w =
     (if rpos s \<noteq> 0 then Some (Inl AssertionFailed, s, w)
      else if min maxPacketSize (sndSize - udpOverhead) < int (length (buf s)) then Some (throw DatagramLimitException, s, w)
      else udpWriteLoop (snd w) (fst w) s)"

end
