(* ===== verification/PoolRead.thy ===== *)
theory PoolRead imports Transceiver begin

text \<open>
  \<open>ThreadPool::read\<close> (\<^verbatim>\<open>src/Ice-3.1.1/src/Ice/ThreadPool.cpp\<close>): how the bytes of a socket become one message in the
  stream of an event handler, across any number of interrupted attempts.
\<close>

section \<open>Model\<close>

definition tret :: "'a \<Rightarrow> ('w, 'a) transfer_op" where
  "tret x s w = Some (Inr x, s, w)"

definition tfail :: "failure \<Rightarrow> ('w, 'a) transfer_op" where
  "tfail f s w = Some (Inl f, s, w)"

definition tbind :: "('w, 'a) transfer_op \<Rightarrow> ('a \<Rightarrow> ('w, 'b) transfer_op) \<Rightarrow> ('w, 'b) transfer_op" where
  "tbind m f s w =
     (case m s w of
        None \<Rightarrow> None
      | Some (Inl e, s1, w1) \<Rightarrow> Some (Inl e, s1, w1)
      | Some (Inr x, s1, w1) \<Rightarrow> f x s1 w1)"

text \<open>A read of the stream that is known to succeed.\<close>

definition treader :: "'a reader \<Rightarrow> ('w, 'a) transfer_op" where
  "treader rd s w = (case rd s of Inl e \<Rightarrow> Some (Inl e, s, w) | Inr (x, s') \<Rightarrow> Some (Inr x, s', w))"

text \<open>\<open>handler->read(stream)\<close> when the stream is not full, with the assertion behind it.\<close>

definition fillStream :: "('w, unit) transfer_op \<Rightarrow> ('w, unit) transfer_op" where
  "fillStream hread s w =
     (if rpos s \<noteq> int (length (buf s)) then
        tbind hread (\<lambda>_ s1 w1. if rpos s1 \<noteq> int (length (buf s1)) then tfail AssertionFailed s1 w1 else tret () s1 w1) s w
      else tret () s w)"

definition grow :: "byte \<Rightarrow> nat \<Rightarrow> stream \<Rightarrow> stream" where
  "grow fill n s = s\<lparr>buf := buf s @ replicate (n - length (buf s)) fill\<rparr>"

text \<open>The checks of the header; the result is the size of the message.\<close>

definition readHeader :: "bool \<Rightarrow> ('w, ice_int) transfer_op" where
  "readHeader big =
     tbind (treader (readBlob 4)) (\<lambda>m.
       if m \<noteq> magic then tfail (Thrown (BadMagicException m))
       else tbind (treader read_Byte) (\<lambda>pMajor. tbind (treader read_Byte) (\<lambda>pMinor.
         if pMajor \<noteq> protocolMajor \<or> unat pMinor > unat protocolMinor then tfail (Thrown (UnsupportedProtocolException pMajor pMinor))
         else tbind (treader read_Byte) (\<lambda>eMajor. tbind (treader read_Byte) (\<lambda>eMinor.
           if eMajor \<noteq> encodingMajor \<or> unat eMinor > unat encodingMinor then tfail (Thrown (UnsupportedEncodingException eMajor eMinor))
           else tbind (treader read_Byte) (\<lambda>messageType. tbind (treader read_Byte) (\<lambda>compress.
             treader (read_Int big))))))))"

text \<open>What happens after the stream has been filled for the first time.\<close>

definition pool_finish :: "bool \<Rightarrow> byte \<Rightarrow> bool \<Rightarrow> bool \<Rightarrow> ('w, unit) transfer_op \<Rightarrow> ('w, unit) transfer_op" where
  "pool_finish big fill datagram warnUdp hread s =
     tbind (readHeader big) (\<lambda>size s1.
       if sint size < int headerSize then tfail (Thrown IllegalMessageSizeException) s1
       else if sint size > sint (word_of_nat (messageSizeMax s1) :: ice_int) then tfail (Thrown MemoryLimitException) s1
       else let s2 = (if sint size > int (length (buf s1)) then grow fill (nat (sint size)) s1 else s1)\<lparr>rpos := rpos s\<rparr>
            in if rpos s \<noteq> int (length (buf s2)) then
                 if datagram then
                   tfail (Thrown DatagramLimitException) (if warnUdp then s2\<lparr>buf := [], rpos := 0\<rparr> else s2)
                 else fillStream hread s2
               else tret () s2)
       (s\<lparr>rpos := 0\<rparr>)"

definition prepareStream :: "byte \<Rightarrow> stream \<Rightarrow> stream" where
  "prepareStream fill s = (if length (buf s) = 0 then (grow fill headerSize s)\<lparr>rpos := 0\<rparr> else s)"

definition pool_read :: "bool \<Rightarrow> byte \<Rightarrow> bool \<Rightarrow> bool \<Rightarrow> ('w, unit) transfer_op \<Rightarrow> ('w, unit) transfer_op" where
  "pool_read big fill datagram warnUdp hread s =
     tbind (fillStream hread) (\<lambda>_ s1.
       if rpos s1 < int headerSize then tfail (Thrown IllegalMessageSizeException) s1
       else pool_finish big fill datagram warnUdp hread s1) (prepareStream fill s)"

lemmas transfer_defs = tret_def tfail_def tbind_def treader_def

section \<open>One attempt to fill the stream\<close>

text \<open>
  \<open>arriving msg rest s inflow\<close>: the first bytes of the message are in the stream, the others and what follows the message
  are still to be received.
\<close>

definition arriving :: "byte list \<Rightarrow> byte list \<Rightarrow> stream \<Rightarrow> byte list \<Rightarrow> bool" where
  "arriving msg rest s inflow \<longleftrightarrow>
     0 \<le> rpos s \<and> rpos s \<le> int (length (buf s)) \<and> length (buf s) \<le> length msg \<and>
     take (nat (rpos s)) (buf s) = take (nat (rpos s)) msg \<and> inflow = drop (nat (rpos s)) msg @ rest"

text \<open>What a transceiver that gives up leaves behind.\<close>

definition net_failure :: "failure \<Rightarrow> bool" where
  "net_failure f \<longleftrightarrow> f = Thrown TimeoutException \<or> f = Thrown SocketException \<or> f = Thrown ConnectionLostException"

lemma repeatSelect_outcome: "repeatSelect sel = Some r \<Longrightarrow> r = throw SocketException \<or> (\<exists>b. r = Inr b)"
  by (induction sel rule: repeatSelect.induct) auto

lemma arriving_more:
  assumes "arriving msg rest s inflow" and "n \<le> roomLeft s"
  shows "arriving msg rest (storeBytes (take n inflow) s) (drop (length (take n inflow)) inflow)"
    and "length (buf (storeBytes (take n inflow) s)) = length (buf s)"
proof -
  obtain k where k: "rpos s = int k" using assms(1) nonneg_int_cases by (auto simp: arriving_def)
  have a: "k \<le> length (buf s)" "length (buf s) \<le> length msg" "take k (buf s) = take k msg" "inflow = drop k msg @ rest"
    using assms(1) k by (auto simp: arriving_def)
  have n: "n \<le> length (buf s) - k" using assms(2) k by (simp add: roomLeft_def)
  then have got: "take n inflow = take n (drop k msg)" and len: "length (take n inflow) = n" using a by simp_all
  show l: "length (buf (storeBytes (take n inflow) s)) = length (buf s)" using a len n k by (simp add: storeBytes_def)
  have "take (k + n) (overwrite k (take n inflow) (buf s)) = take k (buf s) @ take n inflow"
    using a len n by (simp add: overwrite_def)
  also have "\<dots> = take (k + n) msg" using a(3) got by (simp add: take_add)
  finally show "arriving msg rest (storeBytes (take n inflow) s) (drop (length (take n inflow)) inflow)"
    using a len n k l by (auto simp: arriving_def storeBytes_def nat_int_add add.commute)
qed

text \<open>What one call of the loop does, whether it succeeds or not.\<close>

definition attempt :: "byte list \<Rightarrow> byte list \<Rightarrow> stream \<Rightarrow> net_answer list \<Rightarrow> (failure + unit) \<times> stream \<times> byte net \<Rightarrow> bool" where
  "attempt msg rest s as res \<longleftrightarrow>
     (case res of (r, s', inflow', as') \<Rightarrow>
        arriving msg rest s' inflow' \<and> length (buf s') = length (buf s) \<and> rpos s \<le> rpos s' \<and> messageSizeMax s' = messageSizeMax s \<and>
        length as' \<le> length as \<and>
        (if r = Inr () then rpos s' = int (length (buf s')) else length as' < length as \<and> (\<exists>f. r = Inl f \<and> net_failure f)))"

lemma attempt_later:
  "attempt msg rest s1 later res \<Longrightarrow> length (buf s1) = length (buf s) \<Longrightarrow> rpos s \<le> rpos s1 \<Longrightarrow> messageSizeMax s1 = messageSizeMax s \<Longrightarrow>
     length later \<le> length as \<Longrightarrow> attempt msg rest s as res"
  by (auto simp: attempt_def split: prod.splits if_splits)

lemma attempt_failed:
  "arriving msg rest s inflow \<Longrightarrow> net_failure f \<Longrightarrow> length as' < length as \<Longrightarrow> attempt msg rest s as (Inl f, s, inflow, as')"
  by (simp add: attempt_def)

lemma tcpReadLoop_attempt:
  assumes "tcpReadLoop as packetSize inflow s = Some res" and "arriving msg rest s inflow" and "packetSize \<le> roomLeft s"
  shows "attempt msg rest s as res"
  using assms
proof (induction as packetSize inflow s rule: tcpReadLoop.induct)
  case (1 packetSize inflow s)
  then show ?case by (auto simp: attempt_def split: if_splits)
next
  case (2 a as packetSize inflow s)
  show ?case
  proof (cases "rpos s = int (length (buf s))")
    case True
    then show ?thesis using 2 by (auto simp: attempt_def)
  next
    case False
    note step = "2.prems"(1) [unfolded tcpReadLoop.simps(2) if_not_P [OF False]]
    note again = attempt_later [where s = s and as = "a # as" and later = as] and failed = attempt_failed [OF "2.prems"(2)]
    have same: "attempt msg rest s as res \<Longrightarrow> attempt msg rest s (a # as) res" by (erule again) simp_all
    show ?thesis
    proof (cases a)
      case (Data n)
      let ?got = "take (min n packetSize) inflow"
      note more = arriving_more [OF "2.prems"(2), of "min n packetSize"]
      show ?thesis
      proof (cases "?got = []")
        case True
        then show ?thesis using step Data by (auto simp: Let_def net_failure_def simp del: take_eq_Nil intro!: failed)
      next
        case F: False
        have "tcpReadLoop as (min packetSize (roomLeft (storeBytes ?got s))) (drop (length ?got) inflow) (storeBytes ?got s) = Some res"
          using step F unfolding Data Let_def by (simp del: take_eq_Nil)
        then have "attempt msg rest (storeBytes ?got s) as res"
          by (rule "2.IH"(1) [OF False Data refl F]) (use more(1) "2.prems"(3) in simp_all)
        then show ?thesis by (rule again) (use more(2) "2.prems"(3) in \<open>simp_all add: storeBytes_def\<close>)
      qed
    next
      case Interrupted
      then have "attempt msg rest s as res" using "2.IH"(2) [OF False Interrupted] "2.prems"(2,3) step by simp
      then show ?thesis by (rule same)
    next
      case NoBuffers
      have "packetSize div 2 \<le> roomLeft s" using "2.prems"(3) by simp
      then show ?thesis using "2.IH"(3) [OF False NoBuffers] step NoBuffers "2.prems"(2) same
        by (cases "packetSize > 1024") (auto simp: net_failure_def intro!: failed)
    next
      case (WouldBlock sel)
      then show ?thesis
        using "2.IH"(4) [OF False WouldBlock] step "2.prems"(2,3) repeatSelect_outcome [of sel] same
        by (auto simp: net_failure_def split: option.splits sum.splits if_splits intro!: failed)
    qed (use step in \<open>auto simp: net_failure_def intro!: failed\<close>)
  qed
qed

lemma fillStream_attempt:
  assumes "fillStream tcp_read s (inflow, as) = Some res" and "arriving msg rest s inflow"
  shows "attempt msg rest s as res"
proof (cases "rpos s = int (length (buf s))")
  case True
  then show ?thesis using assms by (auto simp: fillStream_def transfer_defs attempt_def)
next
  case False
  obtain r s1 inflow1 as1 where r: "tcp_read s (inflow, as) = Some (r, s1, inflow1, as1)"
    using assms(1) False by (auto simp: fillStream_def transfer_defs split: option.splits)
  have "attempt msg rest s as (r, s1, inflow1, as1)"
    using r assms(2) by (intro tcpReadLoop_attempt [where packetSize = "roomLeft s"]) (auto simp: tcp_read_def)
  then show ?thesis
    using r False assms(1)
    by (cases r) (auto simp: fillStream_def transfer_defs attempt_def)
qed

section \<open>One message\<close>

text \<open>The message as the peer has framed it, and the bytes of its header.\<close>

definition framed :: "nat \<Rightarrow> byte list \<Rightarrow> bool" where
  "framed maxSize msg \<longleftrightarrow> headerSize \<le> length msg \<and> length msg \<le> maxSize \<and> maxSize < 2147483648 \<and>
     take 4 msg = magic \<and> msg ! 4 = protocolMajor \<and> unat (msg ! 5) \<le> unat protocolMinor \<and>
     msg ! 6 = encodingMajor \<and> unat (msg ! 7) \<le> unat encodingMinor \<and> take 4 (drop 10 msg) = le_bytes (word_of_nat (length msg) :: ice_int)"

lemma readHeader_framed:
  assumes "framed maxSize msg" and "take headerSize (buf s) = take headerSize msg" and "headerSize \<le> length (buf s)" and "rpos s = 0"
  shows "readHeader big s w = Some (Inr (word_of_nat (length msg)), s\<lparr>rpos := 14\<rparr>, w)"
proof -
  have n: "buf s ! i = msg ! i" if "i < 14" for i
    using assms(2) that by (metis headerSize_def nth_take)
  have f: "take 4 msg = magic" "msg ! 4 = protocolMajor" "unat (msg ! 5) \<le> unat protocolMinor"
     "msg ! 6 = encodingMajor" "unat (msg ! 7) \<le> unat encodingMinor" using assms(1) by (simp_all add: framed_def)
  have l: "14 \<le> length (buf s)" using assms(3) by (simp add: headerSize_def)
  have t: "take 14 (buf s) = take 14 msg" using assms(2) by (simp add: headerSize_def)
  from arg_cong [OF t, of "take 4"] have "take 4 (buf s) = take 4 msg" by simp
  then have m: "readBlob 4 s = Inr (magic, s\<lparr>rpos := 4\<rparr>)" using f(1) l assms(4) by (simp add: readBlob_def takeBytes_def)
  have "buf s = take 10 (buf s) @ take 4 (drop 10 (buf s)) @ drop 14 (buf s)"
    using append_take_drop_id [of 10 "buf s"] append_take_drop_id [of 4 "drop 10 (buf s)"] by simp
  moreover from arg_cong [OF t, of "drop 10"] have "take 4 (drop 10 (buf s)) = take 4 (drop 10 msg)" by (simp add: drop_take)
  ultimately have at: "at (s\<lparr>rpos := 10\<rparr>) (take 10 (buf s)) (le_bytes (word_of_nat (length msg) :: ice_int)) (drop 14 (buf s))"
    using assms(1) l by (simp add: at_def framed_def)
  show ?thesis
    using m n f l read_Int_at [OF at, of big]
    by (simp add: readHeader_def transfer_defs read_Byte_def skip_def numeral_eq_Suc)
qed

text \<open>Between two attempts the stream is empty, holds part of the header, or holds the header and part of the rest.\<close>

definition incoming :: "byte list \<Rightarrow> byte list \<Rightarrow> stream \<Rightarrow> byte list \<Rightarrow> bool" where
  "incoming msg rest s inflow \<longleftrightarrow> arriving msg rest s inflow \<and>
     (buf s = [] \<or> length (buf s) = headerSize \<or> length (buf s) = length msg \<and> int headerSize \<le> rpos s)"

definition delivered :: "byte list \<Rightarrow> byte list \<Rightarrow> stream \<Rightarrow> byte list \<Rightarrow> bool" where
  "delivered msg rest s inflow \<longleftrightarrow> buf s = msg \<and> rpos s = int (length msg) \<and> inflow = rest"

text \<open>What one call of \<open>ThreadPool::read\<close> may end with.\<close>

definition progress :: "byte list \<Rightarrow> byte list \<Rightarrow> stream \<Rightarrow> net_answer list \<Rightarrow> (failure + unit) \<times> stream \<times> byte net \<Rightarrow> bool" where
  "progress msg rest s as res \<longleftrightarrow>
     (case res of (r, s', inflow', as') \<Rightarrow>
        messageSizeMax s' = messageSizeMax s \<and>
        (if r = Inr () then delivered msg rest s' inflow'
         else incoming msg rest s' inflow' \<and> length as' < length as \<and> (\<exists>f. r = Inl f \<and> net_failure f)))"

lemma arriving_grow:
  assumes "arriving msg rest s inflow" and "n \<le> length msg"
  shows "arriving msg rest (grow fill n s) inflow"
  using assms by (auto simp: arriving_def grow_def)

lemma attempt_body:
  assumes "attempt msg rest s as res" and "length (buf s) = length msg" and "int headerSize \<le> rpos s"
  shows "progress msg rest s as res"
proof -
  obtain r s' inflow' as' where res: "res = (r, s', inflow', as')" by (metis prod_cases4)
  have a: "arriving msg rest s' inflow'" "length (buf s') = length msg" "rpos s \<le> rpos s'" "messageSizeMax s' = messageSizeMax s"
      "if r = Inr () then rpos s' = int (length (buf s')) else length as' < length as \<and> (\<exists>f. r = Inl f \<and> net_failure f)"
    using assms(1,2) by (auto simp: attempt_def res)
  show ?thesis
  proof (cases "r = Inr ()")
    case True
    then show ?thesis using a by (auto simp: progress_def res delivered_def arriving_def)
  next
    case False
    then show ?thesis using a assms(3) by (auto simp: progress_def res incoming_def)
  qed
qed

lemma progress_from:
  "progress msg rest s1 later res \<Longrightarrow> messageSizeMax s1 = messageSizeMax s \<Longrightarrow> length later \<le> length as \<Longrightarrow> progress msg rest s as res"
  by (auto simp: progress_def split: prod.splits if_splits)

lemma pool_finish_full:
  assumes f: "framed (messageSizeMax s) msg" and full: "rpos s = int (length (buf s))" and a: "arriving msg rest s inflow"
    and len: "length (buf s) = headerSize \<or> length (buf s) = length msg"
  shows "pool_finish big fill False warnUdp hread s w =
    (if length (buf s) = length msg then Some (Inr (), s, w) else fillStream hread (grow fill (length msg) s) w)"
proof -
  have m: "14 \<le> length msg" "length msg \<le> messageSizeMax s" "messageSizeMax s < 2147483648"
    using f by (auto simp: framed_def headerSize_def)
  have size: "sint (word_of_nat (length msg) :: ice_int) = int (length msg)"
      "sint (word_of_nat (messageSizeMax s) :: ice_int) = int (messageSizeMax s)"
    using m by (auto intro!: sint_word_of_nat)
  have bytes: "buf s = take (length (buf s)) msg" using a full by (auto simp: arriving_def)
  have "14 \<le> length (buf s)" using len m by (auto simp: headerSize_def)
  moreover from this have "take headerSize (buf s) = take headerSize msg"
    using bytes by (metis headerSize_def min.absorb1 take_take)
  ultimately have hdr: "readHeader big (s\<lparr>rpos := 0\<rparr>) w = Some (Inr (word_of_nat (length msg)), s\<lparr>rpos := 14\<rparr>, w)"
    using readHeader_framed [OF f, of "s\<lparr>rpos := 0\<rparr>" big w] by (simp add: headerSize_def)
  have eq: "(grow fill (length msg) (s\<lparr>rpos := 14\<rparr>))\<lparr>rpos := int (length (buf s))\<rparr> = grow fill (length msg) s"
    using full by (simp add: grow_def)
  show ?thesis
    using hdr size m full len eq by (auto simp: pool_finish_def transfer_defs headerSize_def Let_def)
       (simp_all add: grow_def)
qed

lemma pool_finish_framed:
  assumes f: "framed (messageSizeMax s) msg" and full: "rpos s = int (length (buf s))" and a: "arriving msg rest s inflow"
    and len: "length (buf s) = headerSize \<or> length (buf s) = length msg"
    and run: "pool_finish big fill False warnUdp tcp_read s (inflow, as) = Some res"
  shows "progress msg rest s as res"
proof (cases "length (buf s) = length msg")
  case True
  then show ?thesis
    using run full a by (auto simp: pool_finish_full [OF f full a len] progress_def delivered_def arriving_def)
next
  case False
  let ?s = "grow fill (length msg) s"
  have g: "length (buf ?s) = length msg" "int headerSize \<le> rpos ?s" "messageSizeMax ?s = messageSizeMax s"
    using False len full a by (auto simp: grow_def arriving_def)
  have "fillStream tcp_read ?s (inflow, as) = Some res" using run False by (simp add: pool_finish_full [OF f full a len])
  then have "attempt msg rest ?s as res" by (rule fillStream_attempt [OF _ arriving_grow [OF a]]) simp
  then have "progress msg rest ?s as res" by (rule attempt_body [OF _ g(1,2)])
  then show ?thesis by (rule progress_from) (simp_all add: g)
qed

lemma pool_read_progress:
  assumes f: "framed (messageSizeMax s) msg" and a: "incoming msg rest s inflow"
    and run: "pool_read big fill False warnUdp tcp_read s (inflow, as) = Some res"
  shows "progress msg rest s as res"
proof -
  have m: "14 \<le> length msg" using f by (auto simp: framed_def headerSize_def)
  define t where "t = prepareStream fill s"
  have t: "arriving msg rest t inflow" "messageSizeMax t = messageSizeMax s"
      "length (buf t) = headerSize \<or> length (buf t) = length msg \<and> int headerSize \<le> rpos t"
    using a m arriving_grow [of msg rest s inflow headerSize fill]
    by (auto simp: t_def prepareStream_def incoming_def arriving_def grow_def headerSize_def)
  have run': "tbind (fillStream tcp_read) (\<lambda>_ s1. if rpos s1 < int headerSize then tfail (Thrown IllegalMessageSizeException) s1
      else pool_finish big fill False warnUdp tcp_read s1) t (inflow, as) = Some res"
    using run by (simp add: pool_read_def t_def)
  then obtain r s1 inflow1 as1 where 1: "fillStream tcp_read t (inflow, as) = Some (r, s1, inflow1, as1)"
    by (auto simp: tbind_def split: option.splits)
  note att = fillStream_attempt [OF 1 t(1)]
  show ?thesis
  proof (cases "r = Inr ()")
    case True
    have s1: "arriving msg rest s1 inflow1" "rpos s1 = int (length (buf s1))" "length (buf s1) = length (buf t)"
        "messageSizeMax s1 = messageSizeMax s" "length as1 \<le> length as"
      using att True t(2) by (auto simp: attempt_def)
    have "pool_finish big fill False warnUdp tcp_read s1 (inflow1, as1) = Some res"
      using run' 1 True s1(2,3) t(3) m by (auto simp: tbind_def headerSize_def)
    then have "progress msg rest s1 as1 res"
      using f s1 t(3) by (intro pool_finish_framed) auto
    then show ?thesis using s1(4,5) by (rule progress_from)
  next
    case False
    then have "res = (r, s1, inflow1, as1)" using run' 1 att by (auto simp: tbind_def attempt_def)
    then show ?thesis using att False t by (auto simp: attempt_def progress_def incoming_def)
  qed
qed

section \<open>Any fragmentation\<close>

text \<open>A kernel that has something to deliver every time it is asked.\<close>

definition flowing :: "net_answer list \<Rightarrow> bool" where
  "flowing as \<longleftrightarrow> (\<forall>a \<in> set as. \<exists>n. a = Data (Suc n))"

lemma roomLeft_store: "0 \<le> rpos s \<Longrightarrow> length bs \<le> roomLeft s \<Longrightarrow> roomLeft (storeBytes bs s) = roomLeft s - length bs"
  by (cases "bs = []") (auto simp: roomLeft_def storeBytes_def overwrite_def)

lemma tcpReadLoop_flows:
  assumes "flowing as" and "roomLeft s \<le> length as" and "roomLeft s \<le> length inflow" and "0 \<le> rpos s" and "rpos s \<le> int (length (buf s))"
    and "packetSize \<le> roomLeft s" and "0 < roomLeft s \<Longrightarrow> 0 < packetSize"
  shows "\<exists>s' inflow' as'. tcpReadLoop as packetSize inflow s = Some (Inr (), s', inflow', as') \<and> flowing as' \<and> length as \<le> length as' + roomLeft s"
  using assms
proof (induction as packetSize inflow s rule: tcpReadLoop.induct)
  case (1 packetSize inflow s)
  then show ?case by (auto simp: roomLeft_def flowing_def)
next
  case (2 a as packetSize inflow s)
  show ?case
  proof (cases "rpos s = int (length (buf s))")
    case True
    then show ?thesis using "2.prems"(1) by auto
  next
    case False
    then have room: "0 < roomLeft s" using "2.prems"(5) by (simp add: roomLeft_def)
    obtain n where a: "a = Data (Suc n)" using "2.prems"(1) by (auto simp: flowing_def)
    let ?got = "take (min (Suc n) packetSize) inflow"
    let ?t = "storeBytes ?got s"
    have got: "?got \<noteq> []" "length ?got \<le> roomLeft s" "0 < length ?got" using room "2.prems"(3,6,7) by auto
    have left: "roomLeft ?t = roomLeft s - length ?got" by (rule roomLeft_store [OF "2.prems"(4) got(2)])
    have len: "length (buf ?t) = length (buf s)" "rpos ?t = rpos s + int (length ?got)"
      using got(2) "2.prems"(4,5) by (auto simp: storeBytes_def roomLeft_def)
    have ih: "\<exists>s' inflow' as'. tcpReadLoop as (min packetSize (roomLeft ?t)) (drop (length ?got) inflow) ?t = Some (Inr (), s', inflow', as') \<and>
        flowing as' \<and> length as \<le> length as' + roomLeft ?t"
    proof (rule "2.IH"(1) [OF False a refl got(1)])
      show "flowing as" using "2.prems"(1) by (simp add: flowing_def)
      show "roomLeft ?t \<le> length as" using left got(3) "2.prems"(2) by (simp del: length_take length_greater_0_conv)
      show "roomLeft ?t \<le> length (drop (length ?got) inflow)" using left "2.prems"(3) by (simp add: diff_le_mono del: length_take)
      show "0 \<le> rpos ?t" "rpos ?t \<le> int (length (buf ?t))" using len got(2) "2.prems"(4,5) by (auto simp: roomLeft_def)
    qed (use room "2.prems"(7) in auto)
    have step: "tcpReadLoop (a # as) packetSize inflow s = tcpReadLoop as (min packetSize (roomLeft ?t)) (drop (length ?got) inflow) ?t"
      using False got(1) unfolding a tcpReadLoop.simps Let_def by (simp del: take_eq_Nil)
    have "length as \<le> k + roomLeft ?t \<Longrightarrow> length (a # as) \<le> k + roomLeft s" for k using left got(2,3) unfolding list.size(4) by linarith
    then show ?thesis using ih unfolding step by blast
  qed
qed

lemma fillStream_flows:
  assumes "flowing as" and "roomLeft s \<le> length as" and "arriving msg rest s inflow"
  shows "\<exists>s' inflow' as'. fillStream tcp_read s (inflow, as) = Some (Inr (), s', inflow', as') \<and> flowing as' \<and>
    length as \<le> length as' + roomLeft s"
proof (cases "rpos s = int (length (buf s))")
  case False
  have r: "0 \<le> rpos s" "rpos s \<le> int (length (buf s))" "roomLeft s \<le> length inflow"
    using assms(3) by (auto simp: arriving_def roomLeft_def)
  obtain s' inflow' as' where run: "tcpReadLoop as (roomLeft s) inflow s = Some (Inr (), s', inflow', as')" "flowing as'"
      "length as \<le> length as' + roomLeft s"
    using tcpReadLoop_flows [OF assms(1,2) r(3,1,2) order.refl] by blast
  moreover have "rpos s' = int (length (buf s'))"
    using tcpReadLoop_attempt [OF run(1) assms(3) order.refl] by (simp add: attempt_def)
  ultimately show ?thesis using False by (auto simp: fillStream_def tcp_read_def transfer_defs)
qed (use assms(1) in \<open>auto simp: fillStream_def tret_def\<close>)

text \<open>Nothing but a kernel that does not deliver keeps a message from being read in one go.\<close>

lemma pool_read_flows:
  assumes f: "framed (messageSizeMax s) msg" and a: "incoming msg rest s inflow" and as: "flowing as" "length msg \<le> length as"
  shows "\<exists>s' inflow' as'. pool_read big fill False warnUdp tcp_read s (inflow, as) = Some (Inr (), s', inflow', as')"
proof -
  have m: "14 \<le> length msg" "length msg \<le> messageSizeMax s" "messageSizeMax s < 2147483648"
    using f by (auto simp: framed_def headerSize_def)
  define t where "t = prepareStream fill s"
  have t: "arriving msg rest t inflow" "messageSizeMax t = messageSizeMax s"
      "length (buf t) = 14 \<or> length (buf t) = length msg \<and> 14 \<le> rpos t"
    using a m arriving_grow [of msg rest s inflow headerSize fill]
    by (auto simp: t_def prepareStream_def incoming_def arriving_def grow_def headerSize_def)
  have room: "roomLeft t \<le> 14 \<or> length (buf t) = length msg" "roomLeft t \<le> length msg"
    using t(1,3) m by (auto simp: roomLeft_def arriving_def)
  obtain s1 inflow1 as1 where 1: "fillStream tcp_read t (inflow, as) = Some (Inr (), s1, inflow1, as1)" "flowing as1"
      "length as \<le> length as1 + roomLeft t"
    using fillStream_flows [OF as(1) _ t(1)] room(2) as(2) by force
  have s1: "arriving msg rest s1 inflow1" "rpos s1 = int (length (buf s1))" "length (buf s1) = length (buf t)"
      "messageSizeMax s1 = messageSizeMax s"
    using fillStream_attempt [OF 1(1) t(1)] t(2) by (auto simp: attempt_def)
  have len: "length (buf s1) = headerSize \<or> length (buf s1) = length msg" using t(3) s1(3) by (auto simp: headerSize_def)
  note fin = pool_finish_full [OF _ s1(2,1) len, of big fill warnUdp tcp_read "(inflow1, as1)", unfolded s1(4), OF f]
  have "\<exists>res. pool_finish big fill False warnUdp tcp_read s1 (inflow1, as1) = Some (Inr (), res)"
  proof (cases "length (buf s1) = length msg")
    case False
    then have short: "length (buf s1) = 14" "roomLeft t \<le> 14" using len room s1(3) by (auto simp: headerSize_def)
    have "roomLeft (grow fill (length msg) s1) = length msg - 14" using short s1(2) m by (simp add: roomLeft_def grow_def)
    then have "\<exists>res. fillStream tcp_read (grow fill (length msg) s1) (inflow1, as1) = Some (Inr (), res)"
      using fillStream_flows [OF 1(2) _ arriving_grow [OF s1(1), of "length msg" fill]] 1(3) short(2) as(2) by force
    then show ?thesis using False by (simp add: fin)
  qed (simp add: fin)
  moreover have "int headerSize \<le> rpos s1" using s1(2) len m by (auto simp: headerSize_def)
  ultimately show ?thesis
    using 1(1) by (auto simp: pool_read_def tbind_def simp flip: t_def)
qed

text \<open>The attempts of a thread pool to read one message: whenever one times out, the loop of \<open>run\<close> tries again later.\<close>

inductive read_attempts :: "bool \<Rightarrow> byte \<Rightarrow> bool \<Rightarrow> stream \<times> byte net \<Rightarrow> stream \<times> byte net \<Rightarrow> bool" for big fill warnUdp where
  first: "read_attempts big fill warnUdp x x"
| again: "read_attempts big fill warnUdp x (s, w) \<Longrightarrow> pool_read big fill False warnUdp tcp_read s w = Some (throw TimeoutException, s', w') \<Longrightarrow>
    read_attempts big fill warnUdp x (s', w')"

lemma attempts_incoming:
  assumes "read_attempts big fill warnUdp x y" and "x = (stream_new maxSize, msg @ rest, as)" and "framed maxSize msg"
  shows "case y of (s, inflow, as') \<Rightarrow> incoming msg rest s inflow \<and> messageSizeMax s = maxSize"
  using assms
proof (induction rule: read_attempts.induct)
  case (first x)
  then show ?case by (auto simp: incoming_def arriving_def stream_new_def)
next
  case (again x s w s' w')
  obtain inflow as1 inflow' as2 where w: "w = (inflow, as1)" "w' = (inflow', as2)" by (metis surj_pair)
  have a: "incoming msg rest s inflow" "messageSizeMax s = maxSize" using again.IH [OF again.prems] w by auto
  have "progress msg rest s as1 (throw TimeoutException, s', inflow', as2)"
    using again.hyps(2) again.prems(2) a w by (intro pool_read_progress) auto
  then show ?case using w a by (auto simp: progress_def)
qed

text \<open>
  C15: the peer's bytes become messages whatever the network does to them.  However the kernel cuts the bytes into pieces, and
  however often reading times out in between and is tried again, a message that is framed correctly is read exactly:
  when \<open>ThreadPool::read\<close> returns, the stream holds the bytes of the message and nothing of what follows it, which is still
  to be received; otherwise it ends with a timeout or a failure of the socket, never with a protocol error or a failed
  assertion.  And it does return as soon as the kernel delivers at least one byte for every call.
\<close>

theorem messages_are_framed:
  assumes "framed maxSize msg" and "read_attempts big fill warnUdp (stream_new maxSize, msg @ rest, as) (s, inflow, as1)"
  shows "(\<forall>r s' inflow' as'. pool_read big fill False warnUdp tcp_read s (inflow, as1) = Some (r, s', inflow', as') \<longrightarrow>
       (if r = Inr () then buf s' = msg \<and> rpos s' = int (length msg) \<and> inflow' = rest
        else r \<in> {throw TimeoutException, throw SocketException, throw ConnectionLostException})) \<and>
    (flowing as1 \<longrightarrow> length msg \<le> length as1 \<longrightarrow>
       (\<exists>s' as'. pool_read big fill False warnUdp tcp_read s (inflow, as1) = Some (Inr (), s', rest, as') \<and> buf s' = msg))"
proof -
  have inc: "incoming msg rest s inflow" "framed (messageSizeMax s) msg"
    using attempts_incoming [OF assms(2) refl assms(1)] assms(1) by auto
  note p = pool_read_progress [OF inc(2,1)]
  show ?thesis
  proof (rule conjI; intro allI impI)
    fix r s' inflow' as'
    assume "pool_read big fill False warnUdp tcp_read s (inflow, as1) = Some (r, s', inflow', as')"
    from p [OF this] show "if r = Inr () then buf s' = msg \<and> rpos s' = int (length msg) \<and> inflow' = rest
        else r \<in> {throw TimeoutException, throw SocketException, throw ConnectionLostException}"
      by (auto simp: progress_def delivered_def net_failure_def)
  next
    assume "flowing as1" "length msg \<le> length as1"
    then obtain s' inflow' as' where r: "pool_read big fill False warnUdp tcp_read s (inflow, as1) = Some (Inr (), s', inflow', as')"
      using pool_read_flows [OF inc(2,1)] by blast
    from p [OF this] r show "\<exists>s' as'. pool_read big fill False warnUdp tcp_read s (inflow, as1) = Some (Inr (), s', rest, as') \<and> buf s' = msg"
      by (auto simp: progress_def delivered_def)
  qed
qed

theorem messages_are_framed_witness:
  "(let msg = headerMessage False validateConnectionMsg 0; sel = [Data 3, WouldBlock [SelInterrupted, SelTimedOut]] @ replicate 14 (Data 1)
    in \<exists>s w. pool_read False 9 False False tcp_read (stream_new 100) (msg @ [1, 2], sel) = Some (throw TimeoutException, s, w) \<and>
       (\<exists>s' as'. pool_read False 9 False False tcp_read s w = Some (Inr (), s', [1, 2], as') \<and> buf s' = msg))"
proof -
  let ?msg = "headerMessage False validateConnectionMsg 0" and ?more = "replicate 14 (Data 1)"
  let ?sel = "[Data 3, WouldBlock [SelInterrupted, SelTimedOut]] @ ?more"
  have msg: "?msg = [0x49, 0x63, 0x65, 0x50, 1, 0, 1, 0, 3, 0, 14, 0, 0, 0]" by code_simp
  have "le_bytes (word_of_nat 14 :: ice_int) = [14, 0, 0, 0]" by code_simp
  then have f: "framed 100 ?msg"
    by (simp add: framed_def msg headerSize_def magic_def protocolMajor_def protocolMinor_def encodingMajor_def encodingMinor_def)
  have "(case pool_read False 9 False False tcp_read (stream_new 100) (?msg @ [1, 2], ?sel) of
      Some (r, s, inflow, as) \<Rightarrow> r = throw TimeoutException \<and> as = ?more | None \<Rightarrow> False)" by code_simp
  then obtain s inflow where r: "pool_read False 9 False False tcp_read (stream_new 100) (?msg @ [1, 2], ?sel) =
      Some (throw TimeoutException, s, inflow, ?more)" by (auto split: option.splits)
  have "read_attempts False 9 False (stream_new 100, ?msg @ [1, 2], ?sel) (s, inflow, ?more)"
    by (rule read_attempts.again [OF read_attempts.first r])
  from messages_are_framed [OF f this] have "\<exists>s' as'. pool_read False 9 False False tcp_read s (inflow, ?more) = Some (Inr (), s', [1, 2], as') \<and> buf s' = ?msg"
    by (auto simp: flowing_def)
  then show ?thesis using r unfolding Let_def by blast
qed

section \<open>Bad datagrams\<close>

lemma udp_fill:
  assumes "int headerSize \<le> min maxPacketSize (rcvSize - udpOverhead)" and "int (length d) \<le> min maxPacketSize (rcvSize - udpOverhead)"
  shows "fillStream (udp_read fill rcvSize False None) (prepareStream fill (stream_new maxSize)) (d # inbox, Data n # as) =
    Some (Inr (), (stream_new maxSize)\<lparr>buf := d, rpos := int (length d)\<rparr>, inbox, as)"
proof -
  define packetSize where "packetSize = min maxPacketSize (rcvSize - udpOverhead)"
  have "14 \<le> packetSize" using assms(1) by (simp add: packetSize_def headerSize_def)
  moreover have "length d \<le> nat packetSize" using assms(2) unfolding packetSize_def by linarith
  ultimately show ?thesis
    by (simp add: fillStream_def prepareStream_def grow_def stream_new_def headerSize_def udp_read_def transfer_defs Let_def
        flip: packetSize_def)
qed

text \<open>
  C26: what is left of a bad datagram.  A datagram that is shorter than a header makes \<open>ThreadPool::read\<close> throw, as the
  comment there expects, but its bytes stay in the stream of the handler, and since the stream is full, every later call
  throws again without receiving anything: the endpoint is deaf from then on, and the loop of \<open>run\<close> spins as soon as
  another datagram is waiting.  After a datagram with a bad magic number the stream is neither full nor at its
  beginning, and the next call violates the assertion of \<open>UdpTransceiver::read\<close>.
\<close>

theorem bad_datagram_sticks:
  assumes "int headerSize \<le> min maxPacketSize (rcvSize - udpOverhead)" and "int (length d) \<le> min maxPacketSize (rcvSize - udpOverhead)"
    and "0 < length d" and "length d < headerSize \<or> take 4 d \<noteq> magic"
  shows "\<exists>s1. pool_read big fill True warnUdp (udp_read fill rcvSize False None) (stream_new maxSize) (d # inbox, Data n # as) =
      Some (throw (if length d < headerSize then IllegalMessageSizeException else BadMagicException (take 4 d)), s1, inbox, as) \<and>
    (\<forall>w. pool_read big fill True warnUdp (udp_read fill rcvSize False None) s1 w =
      Some (if length d < headerSize then throw IllegalMessageSizeException else Inl AssertionFailed, s1, w))"
proof (cases "length d < headerSize")
  case True
  let ?s = "(stream_new maxSize)\<lparr>buf := d, rpos := int (length d)\<rparr>"
  have "pool_read big fill True warnUdp (udp_read fill rcvSize False None) (stream_new maxSize) (d # inbox, Data n # as) =
      Some (throw IllegalMessageSizeException, ?s, inbox, as)"
    using True by (simp add: pool_read_def tbind_def [of "fillStream f" for f] udp_fill [OF assms(1,2)] tfail_def)
  moreover have "pool_read big fill True warnUdp (udp_read fill rcvSize False None) ?s w = Some (throw IllegalMessageSizeException, ?s, w)" for w
    using True assms(3) by (simp add: pool_read_def transfer_defs fillStream_def prepareStream_def)
  ultimately show ?thesis using True by auto
next
  case False
  let ?s = "(stream_new maxSize)\<lparr>buf := d, rpos := 4\<rparr>"
  have len: "14 \<le> length d" "d \<noteq> []" using False assms(3) by (simp_all add: headerSize_def)
  have "readBlob 4 ((stream_new maxSize)\<lparr>buf := d, rpos := 0\<rparr>) = Inr (take 4 d, ?s)"
    using len by (simp add: readBlob_def takeBytes_def stream_new_def)
  then have "pool_read big fill True warnUdp (udp_read fill rcvSize False None) (stream_new maxSize) (d # inbox, Data n # as) =
      Some (throw (BadMagicException (take 4 d)), ?s, inbox, as)"
    using False assms(4) by (simp add: pool_read_def tbind_def [of "fillStream f" for f] udp_fill [OF assms(1,2)] pool_finish_def readHeader_def transfer_defs)
  moreover have "pool_read big fill True warnUdp (udp_read fill rcvSize False None) ?s w = Some (Inl AssertionFailed, ?s, w)" for w
    using len by (simp add: pool_read_def transfer_defs fillStream_def prepareStream_def udp_read_def)
  ultimately show ?thesis using False by auto
qed

theorem bad_datagram_sticks_witness:
  "\<exists>s1. pool_read False 0 True False (udp_read 0 65535 False None) (stream_new 100) ([[1], headerMessage False validateConnectionMsg 0], [Data 1]) =
      Some (throw IllegalMessageSizeException, s1, [headerMessage False validateConnectionMsg 0], []) \<and>
    (\<forall>w. pool_read False 0 True False (udp_read 0 65535 False None) s1 w = Some (throw IllegalMessageSizeException, s1, w))"
  using bad_datagram_sticks [of 65535 "[1]" False 0 False 100 "[headerMessage False validateConnectionMsg 0]" 1 "[]"]
  by (simp add: headerSize_def maxPacketSize_def udpOverhead_def)

end
