(* ===== verification/ThreadPool.thy ===== *)
theory ThreadPool imports StdMap LocalException Properties begin

text \<open>
  The thread pool, \<^verbatim>\<open>src/Ice-3.1.1/src/Ice/ThreadPool.cpp\<close>: its state, the operations other objects call, and the critical
  sections of \<open>run\<close>, which every thread of the pool executes.  One thread at a time is the leader: it waits in
  \<open>select\<close> for the descriptors of all handlers and for the pipe by which the others interrupt it.  What \<open>select\<close> and the
  creation of a thread answer, and the arithmetic of \<open>double\<close>, are parameters.
\<close>

section \<open>State\<close>

type_synonym fd = int

definition INVALID_SOCKET :: fd where "INVALID_SOCKET = -1"

record ('h, 't, 'd) pool =
  tp_destroyed :: bool
  tp_maxFd :: fd
  tp_minFd :: fd
  tp_lastFd :: fd
  tp_fdIntrRead :: fd
  tp_fdSet :: "fd set"
  tp_pipe :: nat                                   \<comment> \<open>bytes between \<open>_fdIntrWrite\<close> and \<open>_fdIntrRead\<close>\<close>
  tp_changes :: "(fd \<times> 'h option) list"
  tp_handlerMap :: "(fd, 'h) smap"
  tp_timeout :: int
  tp_size :: int
  tp_sizeMax :: int
  tp_sizeWarn :: int
  tp_threads :: "'t list"
  tp_running :: int
  tp_inUse :: int
  tp_load :: 'd
  tp_promote :: bool

text \<open>What the code computes with \<open>double\<close>: comparison with a number of threads, conversion, decay, rounding.\<close>

record 'd doubles =
  dbl_less :: "'d \<Rightarrow> int \<Rightarrow> bool"
  dbl_of :: "int \<Rightarrow> 'd"
  dbl_decay :: "'d \<Rightarrow> int \<Rightarrow> 'd"
  dbl_round :: "'d \<Rightarrow> int"

section \<open>Construction\<close>

text \<open>The sizes come from the properties; \<open>sizeMax * 80 / 100\<close> is \<open>int\<close> arithmetic, which may wrap.\<close>

definition c_div :: "int \<Rightarrow> int \<Rightarrow> int" where
  "c_div a b = sgn a * sgn b * (\<bar>a\<bar> div \<bar>b\<bar>)"

definition pool_sizes :: "properties \<Rightarrow> string \<Rightarrow> int \<times> int \<times> int" where
  "pool_sizes ps prefix =
     (let size0 = getPropertyAsIntWithDefault (prefix @ ''.Size'') 1 ps;
          size = (if size0 < 1 then 1 else size0);
          sizeMax0 = getPropertyAsIntWithDefault (prefix @ ''.SizeMax'') size ps;
          sizeMax = (if sizeMax0 < size then size else sizeMax0);
          sizeWarn0 = getPropertyAsIntWithDefault (prefix @ ''.SizeWarn'') (c_div (sint (word_of_int sizeMax * 80 :: ice_int)) 100) ps;
          sizeWarn = (if sizeWarn0 > sizeMax then sizeMax else sizeWarn0)
      in (size, sizeMax, sizeWarn))"

definition pool_init :: "'d doubles \<Rightarrow> properties \<Rightarrow> string \<Rightarrow> int \<Rightarrow> fd \<Rightarrow> ('h, 't, 'd) pool" where
  "pool_init dbl ps prefix timeout intr =
     (case pool_sizes ps prefix of (sz, szMax, szWarn) \<Rightarrow>
        \<lparr>tp_destroyed = False, tp_maxFd = intr, tp_minFd = intr, tp_lastFd = INVALID_SOCKET, tp_fdIntrRead = intr, tp_fdSet = {intr},
         tp_pipe = 0, tp_changes = [], tp_handlerMap = [], tp_timeout = timeout, tp_size = sz, tp_sizeMax = szMax,
         tp_sizeWarn = szWarn, tp_threads = [], tp_running = 0, tp_inUse = 0, tp_load = dbl_of dbl 1, tp_promote = True\<rparr>)"

text \<open>A thread that has been started.\<close>

definition startThread :: "'t \<Rightarrow> ('h, 't, 'd) pool \<Rightarrow> ('h, 't, 'd) pool" where
  "startThread t p = p\<lparr>tp_threads := tp_threads p @ [t], tp_running := tp_running p + 1\<rparr>"

section \<open>Operations\<close>

text \<open>System calls on the pipe: \<open>ok\<close> says whether they succeed; reading does not block.\<close>

definition setInterrupt :: "bool \<Rightarrow> ('h, 't, 'd) pool \<Rightarrow> (failure + unit) \<times> ('h, 't, 'd) pool" where
  "setInterrupt ok p = (if ok then (Inr (), p\<lparr>tp_pipe := tp_pipe p + 1\<rparr>) else (throw SyscallExn, p))"

definition clearInterrupt :: "bool \<Rightarrow> ('h, 't, 'd) pool \<Rightarrow> failure + ('h, 't, 'd) pool" where
  "clearInterrupt ok p = (if ok \<and> 0 < tp_pipe p then Inr (p\<lparr>tp_pipe := tp_pipe p - 1\<rparr>) else throw SyscallExn)"

definition pool_destroy :: "bool \<Rightarrow> ('h, 't, 'd) pool \<Rightarrow> (failure + unit) \<times> ('h, 't, 'd) pool" where
  "pool_destroy ok p =
     (if tp_destroyed p \<or> tp_handlerMap p \<noteq> [] \<or> tp_changes p \<noteq> [] then (Inl AssertionFailed, p)
      else setInterrupt ok (p\<lparr>tp_destroyed := True\<rparr>))"

text \<open>
  The loop of the constructor; \<open>create i\<close> is the thread that the \<open>i\<close>-th creation gives, unless it fails.  Then the pool is
  destroyed, the threads are joined, and the constructor throws: the result is whether it returns.
\<close>

primrec startThreads :: "bool \<Rightarrow> (nat \<Rightarrow> 't option) \<Rightarrow> nat list \<Rightarrow> ('h, 't, 'd) pool \<Rightarrow> bool \<times> ('h, 't, 'd) pool" where
  "startThreads ok create [] p = (True, p)"
| "startThreads ok create (i # is) p =
     (case create i of
        Some t \<Rightarrow> startThreads ok create is (startThread t p)
      | None \<Rightarrow> (False, snd (pool_destroy ok p)))"

definition pool_new :: "bool \<Rightarrow> (nat \<Rightarrow> 't option) \<Rightarrow> 'd doubles \<Rightarrow> properties \<Rightarrow> string \<Rightarrow> int \<Rightarrow> fd \<Rightarrow> bool \<times> ('h, 't, 'd) pool" where
  "pool_new ok create dbl ps prefix timeout intr =
     startThreads ok create [0..<nat (fst (pool_sizes ps prefix))] (pool_init dbl ps prefix timeout intr)"

definition pool_register :: "bool \<Rightarrow> fd \<Rightarrow> 'h \<Rightarrow> ('h, 't, 'd) pool \<Rightarrow> (failure + unit) \<times> ('h, 't, 'd) pool" where
  "pool_register ok fd handler p =
     (if tp_destroyed p then (Inl AssertionFailed, p)
      else setInterrupt ok (p\<lparr>tp_changes := tp_changes p @ [(fd, Some handler)]\<rparr>))"

definition pool_unregister :: "bool \<Rightarrow> fd \<Rightarrow> ('h, 't, 'd) pool \<Rightarrow> (failure + unit) \<times> ('h, 't, 'd) pool" where
  "pool_unregister ok fd p =
     (if tp_destroyed p then (Inl AssertionFailed, p)
      else setInterrupt ok (p\<lparr>tp_changes := tp_changes p @ [(fd, None)]\<rparr>))"

text \<open>\<open>promoteFollower\<close>; \<open>new\<close> is the thread it creates when it has to, unless that fails.\<close>

definition promoteFollower :: "'t option \<Rightarrow> ('h, 't, 'd) pool \<Rightarrow> failure + ('h, 't, 'd) pool" where
  "promoteFollower new p =
     (if tp_sizeMax p > 1 then
        if tp_promote p then Inl AssertionFailed
        else let p1 = p\<lparr>tp_promote := True\<rparr>
             in if tp_destroyed p1 then Inr p1
                else if tp_inUse p1 < 0 then Inl AssertionFailed
                else let p2 = p1\<lparr>tp_inUse := tp_inUse p1 + 1\<rparr>
                     in if tp_inUse p2 > tp_running p2 then Inl AssertionFailed
                        else if tp_inUse p2 < tp_sizeMax p2 \<and> tp_inUse p2 = tp_running p2 then
                          (case new of Some t \<Rightarrow> Inr (startThread t p2) | None \<Rightarrow> Inr p2)
                        else Inr p2
      else Inr p)"

section \<open>The loop\<close>

text \<open>Waiting to be promoted; enabled when \<open>_promote\<close> is set.\<close>

definition becomeLeader :: "('h, 't, 'd) pool \<Rightarrow> ('h, 't, 'd) pool" where
  "becomeLeader p = p\<lparr>tp_promote := False\<rparr>"

text \<open>What \<open>select\<close> returns, and what the thread does next.\<close>

datatype select_result = SelectError | SelectTimeout | SelectReady "fd set"

datatype 'h next_action = Continue | ReturnTrue | Shutdown | CallFinished 'h | CallMessage 'h

text \<open>The search for the next descriptor, round robin: the descriptor and the number of times it wrapped around.\<close>

function roundRobin :: "fd set \<Rightarrow> fd \<Rightarrow> fd \<Rightarrow> fd \<Rightarrow> nat \<Rightarrow> fd \<times> nat" where
  "roundRobin ready minFd maxFd lastFd loops =
     (let lastFd' = (if lastFd + 1 > maxFd then minFd else lastFd + 1);
          loops' = (if lastFd + 1 > maxFd then loops + 1 else loops)
      in if lastFd' \<notin> ready \<and> loops' \<le> 1 then roundRobin ready minFd maxFd lastFd' loops' else (lastFd', loops'))"
  by pat_completeness auto
termination
  by (relation "measures [\<lambda>(ready, minFd, maxFd, lastFd, loops). 2 - loops, \<lambda>(ready, minFd, maxFd, lastFd, loops). nat (maxFd - lastFd)]")
     (auto split: if_splits)

declare roundRobin.simps [simp del]

definition pickFd :: "fd set \<Rightarrow> fd \<Rightarrow> fd \<Rightarrow> fd \<Rightarrow> fd \<times> nat" where
  "pickFd ready minFd maxFd lastFd =
     roundRobin ready minFd maxFd (if lastFd < minFd - 1 \<or> lastFd = INVALID_SOCKET then minFd - 1 else lastFd) 0"

text \<open>
  A handler is added with its descriptor.  The set has no bound: \<open>FD_SET\<close> is undefined for descriptors of
  \<open>FD_SETSIZE\<close> or more, which are not modelled.
\<close>

definition addHandler :: "fd \<Rightarrow> 'h \<Rightarrow> ('h, 't, 'd) pool \<Rightarrow> ('h, 't, 'd) pool" where
  "addHandler fd h p =
     p\<lparr>tp_handlerMap := sm_insert fd h (tp_handlerMap p), tp_fdSet := insert fd (tp_fdSet p),
       tp_maxFd := max (tp_maxFd p) fd, tp_minFd := min (tp_minFd p) fd\<rparr>"

definition removeHandler :: "fd \<Rightarrow> ('h, 't, 'd) pool \<Rightarrow> ('h, 't, 'd) pool" where
  "removeHandler fd p =
     (let m = sm_erase fd (tp_handlerMap p)
      in p\<lparr>tp_handlerMap := m, tp_fdSet := tp_fdSet p - {fd},
           tp_maxFd := (if m = [] then tp_fdIntrRead p else max (tp_fdIntrRead p) (fst (last m))),
           tp_minFd := (if m = [] then tp_fdIntrRead p else min (tp_fdIntrRead p) (fst (hd m)))\<rparr>)"

text \<open>The section behind \<open>select\<close>; \<open>ok\<close> is whether the pipe can be read.\<close>

definition afterSelect :: "bool \<Rightarrow> select_result \<Rightarrow> ('h, 't, 'd) pool \<Rightarrow> failure + 'h next_action \<times> ('h, 't, 'd) pool" where
  "afterSelect ok ret p =
     (case ret of
        SelectError \<Rightarrow> Inr (Continue, p)
      | SelectTimeout \<Rightarrow> if tp_timeout p > 0 then Inr (Shutdown, p\<lparr>tp_timeout := 0\<rparr>) else Inl AssertionFailed
      | SelectReady fdSet \<Rightarrow>
          if tp_fdIntrRead p \<in> fdSet then
            if tp_destroyed p then Inr (ReturnTrue, p)
            else andThen (clearInterrupt ok p) (\<lambda>p1.
              case tp_changes p1 of
                [] \<Rightarrow> Inl AssertionFailed
              | (fd, change) # changes \<Rightarrow>
                  let p2 = p1\<lparr>tp_changes := changes\<rparr>
                  in (case change of
                        Some handler \<Rightarrow> Inr (Continue, addHandler fd handler p2)
                      | None \<Rightarrow>
                          (case sm_find fd (tp_handlerMap p2) of
                             None \<Rightarrow> Inl AssertionFailed
                           | Some handler \<Rightarrow> Inr (CallFinished handler, removeHandler fd p2))))
          else (case pickFd fdSet (tp_minFd p) (tp_maxFd p) (tp_lastFd p) of (fd, loops) \<Rightarrow>
            let p1 = p\<lparr>tp_lastFd := fd\<rparr>
            in if loops > 1 then Inr (Continue, p1)
               else if fd = tp_fdIntrRead p1 then Inl AssertionFailed
               else (case sm_find fd (tp_handlerMap p1) of
                       None \<Rightarrow> Inr (Continue, p1)
                     | Some handler \<Rightarrow> Inr (CallMessage handler, p1))))"

text \<open>
  The section behind the call of a handler: reap threads that have ended, update the load, and give up the thread when
  there are too many.  The result is whether the thread stays.  The order in which \<open>partition\<close> leaves the living threads is
  not significant.
\<close>

definition newLoad :: "'d doubles \<Rightarrow> ('h, 't, 'd) pool \<Rightarrow> 'd" where
  "newLoad dbl p = (if dbl_less dbl (tp_load p) (tp_inUse p) then dbl_of dbl (tp_inUse p) else dbl_decay dbl (tp_load p) (tp_inUse p))"

definition afterCall :: "'d doubles \<Rightarrow> ('t \<Rightarrow> bool) \<Rightarrow> ('h, 't, 'd) pool \<Rightarrow> failure + bool \<times> ('h, 't, 'd) pool" where
  "afterCall dbl isAlive p =
     (if tp_sizeMax p > 1 \<and> \<not> tp_destroyed p then
        let sz = int (length (tp_threads p))
        in if tp_running p > sz then Inl AssertionFailed
           else let p1 = (if tp_running p < sz then p\<lparr>tp_threads := filter isAlive (tp_threads p)\<rparr> else p);
                    p2 = p1\<lparr>tp_load := newLoad dbl p1\<rparr>
                in if tp_running p2 > tp_size p2 \<and> dbl_round dbl (tp_load p2) + 1 < tp_running p2 then
                     if \<not> 0 < tp_inUse p2 \<or> \<not> 0 < tp_running p2 then Inl AssertionFailed
                     else Inr (False, p2\<lparr>tp_inUse := tp_inUse p2 - 1, tp_running := tp_running p2 - 1\<rparr>)
                   else if \<not> 0 < tp_inUse p2 then Inl AssertionFailed
                   else Inr (True, p2\<lparr>tp_inUse := tp_inUse p2 - 1\<rparr>)
      else Inr (True, p))"

text \<open>The end of \<open>EventHandlerThread::run\<close>: when \<open>run\<close> returned \<open>true\<close> or threw.\<close>

definition leaveThread :: "bool \<Rightarrow> ('h, 't, 'd) pool \<Rightarrow> failure + ('h, 't, 'd) pool" where
  "leaveThread promote p =
     (if promote \<and> tp_sizeMax p > 1 then
        if tp_promote p then Inl AssertionFailed else Inr (p\<lparr>tp_promote := True\<rparr>)
      else Inr p)"

definition pool_dtor :: "('h, 't, 'd) pool \<Rightarrow> failure + unit" where
  "pool_dtor p = (if tp_destroyed p then Inr () else Inl AssertionFailed)"

section \<open>Round robin\<close>

text \<open>The descriptor whose turn it is: the next greater one that is ready, or else the least.\<close>

definition turn :: "fd set \<Rightarrow> fd \<Rightarrow> fd" where
  "turn ready lastFd = (if \<exists>fd \<in> ready. lastFd < fd then Min {fd \<in> ready. lastFd < fd} else Min ready)"

lemma Min_turn:
  assumes "finite ready" and "fd \<in> ready" and "lastFd < fd"
  shows "turn ready lastFd \<in> ready" "lastFd < turn ready lastFd" "turn ready lastFd \<le> fd"
    "fd' \<in> ready \<Longrightarrow> lastFd < fd' \<Longrightarrow> turn ready lastFd \<le> fd'"
proof -
  let ?S = "{fd \<in> ready. lastFd < fd}"
  have t: "turn ready lastFd = Min ?S" using assms by (auto simp: turn_def)
  have S: "finite ?S" "fd \<in> ?S" using assms by auto
  then have "Min ?S \<in> ?S" by (intro Min_in) auto
  then show "turn ready lastFd \<in> ready" "lastFd < turn ready lastFd" unfolding t by auto
  show "turn ready lastFd \<le> fd" unfolding t using S by simp
  show "turn ready lastFd \<le> fd'" if "fd' \<in> ready" "lastFd < fd'" unfolding t using S(1) that by simp
qed

lemma turn_wraps: "finite ready \<Longrightarrow> \<forall>fd \<in> ready. fd \<le> lastFd \<Longrightarrow> turn ready lastFd = Min ready"
  by (auto simp: turn_def)

lemma roundRobin_ahead:
  assumes "finite ready" and "fd \<in> ready" and "lastFd < fd" and "ready \<subseteq> {minFd..maxFd}" and "loops \<le> 1"
  shows "roundRobin ready minFd maxFd lastFd loops = (turn ready lastFd, loops)"
  using assms(3)
proof (induction "nat (maxFd - lastFd)" arbitrary: lastFd rule: less_induct)
  case less
  have le: "lastFd + 1 \<le> maxFd" using less.prems assms(2,4) by force
  note t = Min_turn [OF assms(1,2) less.prems]
  show ?case
  proof (cases "lastFd + 1 \<in> ready")
    case True
    then have "turn ready lastFd = lastFd + 1" using t(2) t(4) [of "lastFd + 1"] by simp
    then show ?thesis using True le by (simp add: roundRobin.simps [of _ _ _ lastFd])
  next
    case False
    then have "fd \<noteq> lastFd + 1" using assms(2) by blast
    then have fd: "lastFd + 1 < fd" using less.prems by simp
    note t' = Min_turn [OF assms(1,2) fd]
    have "turn ready (lastFd + 1) = turn ready lastFd"
    proof (rule order_antisym)
      have "turn ready lastFd \<noteq> lastFd + 1" using t(1) False by metis
      then show "turn ready (lastFd + 1) \<le> turn ready lastFd" using t(2) by (intro t'(4) t(1)) simp
      show "turn ready lastFd \<le> turn ready (lastFd + 1)" using t'(2) by (intro t(4) t'(1)) simp
    qed
    then show ?thesis using less.hyps [OF _ fd] False le assms(5) by (simp add: roundRobin.simps [of _ _ _ lastFd])
  qed
qed

lemma roundRobin_behind:
  assumes "finite ready" and "ready \<noteq> {}" and "\<forall>fd \<in> ready. fd \<le> lastFd" and "ready \<subseteq> {minFd..maxFd}"
  shows "roundRobin ready minFd maxFd lastFd 0 = (turn ready lastFd, 1)"
  using assms(3)
proof (induction "nat (maxFd - lastFd)" arbitrary: lastFd rule: less_induct)
  case less
  have m: "Min ready \<in> ready" using assms(1,2) by simp
  have t: "turn ready lastFd = Min ready" by (rule turn_wraps [OF assms(1) less.prems])
  show ?case
  proof (cases "lastFd + 1 > maxFd")
    case True
    show ?thesis
    proof (cases "minFd \<in> ready")
      case in_ready: True
      have "Min ready = minFd" using in_ready m assms(1,4) by (meson Min_le atLeastAtMost_iff order_antisym subsetD)
      then show ?thesis using True in_ready t by (simp add: roundRobin.simps [of _ _ _ lastFd])
    next
      case False
      then have lt: "minFd < Min ready" using m assms(4) by (metis atLeastAtMost_iff order_less_le subsetD)
      have "turn ready minFd = Min ready"
        using Min_turn [OF assms(1) m lt] assms(1) by (meson Min_le order_antisym)
      then show ?thesis using True False t roundRobin_ahead [OF assms(1) m lt assms(4), of 1] by (simp add: roundRobin.simps [of _ _ _ lastFd])
    qed
  next
    case False
    have n: "lastFd + 1 \<notin> ready" using less.prems by force
    have later: "\<forall>fd \<in> ready. fd \<le> lastFd + 1" using less.prems by force
    show ?thesis
      using less.hyps [OF _ later] False n t turn_wraps [OF assms(1) later] by (simp add: roundRobin.simps [of _ _ _ lastFd])
  qed
qed

text \<open>The loop of the code finds the descriptor whose turn it is, whenever one is ready.\<close>

lemma pickFd_turn:
  assumes "finite ready" and "ready \<noteq> {}" and "ready \<subseteq> {minFd..maxFd}" and "0 \<le> minFd" and "INVALID_SOCKET \<le> lastFd"
  shows "fst (pickFd ready minFd maxFd lastFd) = turn ready lastFd" "snd (pickFd ready minFd maxFd lastFd) \<le> 1"
proof -
  define l where "l = (if lastFd < minFd - 1 \<or> lastFd = INVALID_SOCKET then minFd - 1 else lastFd)"
  have eq: "(lastFd < fd) = (l < fd)" if "fd \<in> ready" for fd
    using that assms(3,4,5) by (auto simp: l_def INVALID_SOCKET_def)
  have t: "turn ready lastFd = turn ready l" unfolding turn_def using eq by (metis (mono_tags, lifting) Collect_cong)
  have p: "pickFd ready minFd maxFd lastFd = roundRobin ready minFd maxFd l 0" by (simp add: pickFd_def l_def)
  show "fst (pickFd ready minFd maxFd lastFd) = turn ready lastFd" "snd (pickFd ready minFd maxFd lastFd) \<le> 1"
    using roundRobin_ahead [OF assms(1) _ _ assms(3), of _ l 0] roundRobin_behind [OF assms(1,2) _ assms(3), of l] unfolding p t
    by (metis fst_conv not_le zero_le_one, metis order.refl not_le snd_conv zero_le_one)
qed

section \<open>Fairness\<close>

text \<open>
  The descriptors that are picked in a sequence of rounds, each with the descriptors that are ready in it and the bounds
  that hold at the time, since handlers come and go in between.
\<close>

fun rounds :: "fd \<Rightarrow> (fd set \<times> fd \<times> fd) list \<Rightarrow> fd list" where
  "rounds lastFd [] = []"
| "rounds lastFd ((ready, minFd, maxFd) # rs) =
     (let fd = fst (pickFd ready minFd maxFd lastFd) in fd # rounds fd rs)"

definition round_ok :: "fd \<Rightarrow> fd set \<Rightarrow> fd set \<times> fd \<times> fd \<Rightarrow> bool" where
  "round_ok fd fds r \<longleftrightarrow> (case r of (ready, minFd, maxFd) \<Rightarrow> fd \<in> ready \<and> ready \<subseteq> fds \<and> ready \<subseteq> {minFd..maxFd} \<and> 0 \<le> minFd)"

lemma round_picks:
  assumes "finite fds" and "round_ok fd fds (ready, minFd, maxFd)" and "INVALID_SOCKET \<le> lastFd"
  shows "fst (pickFd ready minFd maxFd lastFd) = turn ready lastFd" "finite ready" "fd \<in> ready" "ready \<subseteq> fds"
  using pickFd_turn(1) [of ready minFd maxFd lastFd] assms finite_subset by (auto simp: round_ok_def)

lemma length_rounds: "length (rounds lastFd rs) = length rs"
  by (induction lastFd rs rule: rounds.induct) (auto simp: Let_def)

text \<open>While the turn has not come to \<open>fd\<close>, the picks approach it from below, or move away upwards and wrap around once.\<close>

definition before :: "fd \<Rightarrow> fd list \<Rightarrow> fd list" where
  "before fd fds = takeWhile (\<lambda>x. x \<noteq> fd) fds"

lemma rounds_below:
  assumes "finite fds" and "\<forall>r \<in> set rs. round_ok fd fds r" and "INVALID_SOCKET \<le> lastFd" and "lastFd < fd"
  shows "sorted_wrt (<) (before fd (rounds lastFd rs)) \<and> set (before fd (rounds lastFd rs)) \<subseteq> {lastFd<..<fd} \<inter> fds"
  using assms(2-4)
proof (induction lastFd rs rule: rounds.induct)
  case (1 lastFd)
  then show ?case by (simp add: before_def)
next
  case (2 lastFd ready minFd maxFd rs)
  have ok: "round_ok fd fds (ready, minFd, maxFd)" using "2.prems"(1) by simp
  note r = round_picks [OF assms(1) ok "2.prems"(2)]
  note t = Min_turn [OF r(2,3) "2.prems"(3)]
  show ?case
  proof (cases "turn ready lastFd = fd")
    case False
    then have "sorted_wrt (<) (before fd (rounds (turn ready lastFd) rs)) \<and>
        set (before fd (rounds (turn ready lastFd) rs)) \<subseteq> {turn ready lastFd<..<fd} \<inter> fds"
      using "2.IH" [OF refl] "2.prems" t r(1) by simp
    then show ?thesis using False t r by (auto simp: Let_def before_def)
  qed (simp add: r(1) Let_def before_def)
qed

lemma rounds_above:
  assumes "finite fds" and "\<forall>r \<in> set rs. round_ok fd fds r" and "INVALID_SOCKET \<le> lastFd" and "fd \<le> lastFd"
  shows "\<exists>xs ys. before fd (rounds lastFd rs) = xs @ ys \<and> sorted_wrt (<) xs \<and> set xs \<subseteq> {lastFd<..} \<inter> fds \<and>
    sorted_wrt (<) ys \<and> set ys \<subseteq> {..<fd} \<inter> fds"
  using assms(2-4)
proof (induction lastFd rs rule: rounds.induct)
  case (1 lastFd)
  then show ?case by (simp add: before_def)
next
  case (2 lastFd ready minFd maxFd rs)
  have ok: "round_ok fd fds (ready, minFd, maxFd)" using "2.prems"(1) by simp
  note r = round_picks [OF assms(1) ok "2.prems"(2)]
  show ?case
  proof (cases "\<exists>x \<in> ready. lastFd < x")
    case True
    then obtain x where x: "x \<in> ready" "lastFd < x" by blast
    note t = Min_turn [OF r(2) x]
    have "\<exists>xs ys. before fd (rounds (turn ready lastFd) rs) = xs @ ys \<and> sorted_wrt (<) xs \<and> set xs \<subseteq> {turn ready lastFd<..} \<inter> fds \<and>
        sorted_wrt (<) ys \<and> set ys \<subseteq> {..<fd} \<inter> fds"
      using "2.IH" [OF refl] "2.prems" t r(1) by simp
    then obtain xs ys where ih: "before fd (rounds (turn ready lastFd) rs) = xs @ ys" "sorted_wrt (<) xs"
        "set xs \<subseteq> {turn ready lastFd<..} \<inter> fds" "sorted_wrt (<) ys" "set ys \<subseteq> {..<fd} \<inter> fds" by blast
    have "before fd (rounds lastFd ((ready, minFd, maxFd) # rs)) = (turn ready lastFd # xs) @ ys"
      using ih(1) t(2) "2.prems"(3) by (simp add: r(1) Let_def before_def)
    moreover have "sorted_wrt (<) (turn ready lastFd # xs)" "set (turn ready lastFd # xs) \<subseteq> {lastFd<..} \<inter> fds"
      using ih(2,3) t(1,2) r(4) by auto
    ultimately show ?thesis using ih(4,5) by blast
  next
    case False
    then have t: "turn ready lastFd = Min ready" by (intro turn_wraps [OF r(2)]) force
    have "Min ready \<in> ready" using r(2,3) by (intro Min_in) auto
    moreover have "ready \<subseteq> {minFd..maxFd}" "0 \<le> minFd" using ok by (simp_all add: round_ok_def)
    ultimately have m: "Min ready \<le> fd" "Min ready \<in> fds" "INVALID_SOCKET \<le> Min ready"
      using r(2-4) by (auto simp: INVALID_SOCKET_def)
    show ?thesis
    proof (cases "Min ready = fd")
      case True
      then show ?thesis by (intro exI [of _ "[]"]) (simp add: r(1) t Let_def before_def)
    next
      case F: False
      then have "sorted_wrt (<) (before fd (rounds (Min ready) rs)) \<and> set (before fd (rounds (Min ready) rs)) \<subseteq> {Min ready<..<fd} \<inter> fds"
        using rounds_below [OF assms(1), of rs fd "Min ready"] "2.prems"(1) m by simp
      then show ?thesis
        using F m by (intro exI [of _ "[]"] exI [of _ "Min ready # before fd (rounds (Min ready) rs)"]) (auto simp: r(1) t Let_def before_def)
    qed
  qed
qed

text \<open>
  C28: no connection starves.  A descriptor that stays ready is picked within as many rounds as there are descriptors, and
  no other one is picked twice before it, however the sets of descriptors, of ready descriptors and the bounds change
  in between.
\<close>

theorem round_robin_fair:
  assumes "finite fds" and "\<forall>r \<in> set rs. round_ok fd fds r" and "INVALID_SOCKET \<le> lastFd"
  shows "distinct (before fd (rounds lastFd rs)) \<and> (card fds \<le> length rs \<longrightarrow> rs \<noteq> [] \<longrightarrow> fd \<in> set (rounds lastFd rs))"
proof -
  have d: "distinct (before fd (rounds lastFd rs)) \<and> set (before fd (rounds lastFd rs)) \<subseteq> fds"
  proof (cases "lastFd < fd")
    case True
    then show ?thesis using rounds_below [OF assms] strict_sorted_iff by blast
  next
    case False
    then obtain xs ys where "before fd (rounds lastFd rs) = xs @ ys" "sorted_wrt (<) xs" "set xs \<subseteq> {lastFd<..} \<inter> fds"
        "sorted_wrt (<) ys" "set ys \<subseteq> {..<fd} \<inter> fds" using rounds_above [OF assms] by auto
    moreover have "set xs \<inter> set ys = {}" using calculation False by fastforce
    ultimately show ?thesis using strict_sorted_iff by auto
  qed
  have "fd \<in> set (rounds lastFd rs)" if "card fds \<le> length rs" "rs \<noteq> []"
  proof (rule ccontr)
    assume n: "fd \<notin> set (rounds lastFd rs)"
    then have "before fd (rounds lastFd rs) = rounds lastFd rs" unfolding before_def by (intro takeWhile_eq_all_conv [THEN iffD2]) auto
    then have "distinct (rounds lastFd rs)" "set (rounds lastFd rs) \<subseteq> fds - {fd}" using d n by auto
    then have "length (rounds lastFd rs) \<le> card (fds - {fd})" using assms(1) by (metis card_mono distinct_card finite_Diff)
    moreover have "fd \<in> fds" using assms(2) that(2) by (cases rs) (auto simp: round_ok_def)
    ultimately show False using that(1) assms(1) by (metis card_Diff1_less length_rounds not_le order_less_le_trans)
  qed
  then show ?thesis using d by blast
qed

theorem round_robin_fair_witness:
  "rounds 5 [({4, 7}, 3, 9), ({4, 6, 9}, 3, 9), ({4, 6}, 3, 9)] = [7, 9, 4] \<and>
   4 \<in> set (rounds 5 [({4, 7}, 3, 9), ({4, 6, 9}, 3, 9), ({4, 6}, 3, 9), ({4, 6}, 3, 9)])"
proof -
  have "finite {4, 6, 7, 9 :: int}" "INVALID_SOCKET \<le> 5"
    "\<forall>r \<in> set [({4, 7}, 3, 9), ({4, 6, 9}, 3, 9), ({4, 6}, 3, 9), ({4, 6}, 3, 9)]. round_ok 4 {4, 6, 7, 9} r"
    by (auto simp: INVALID_SOCKET_def round_ok_def)
  from round_robin_fair [OF this(1,3,2)] have "4 \<in> set (rounds 5 [({4, 7}, 3, 9), ({4, 6, 9}, 3, 9), ({4, 6}, 3, 9), ({4, 6}, 3, 9)])"
    by simp
  moreover have "rounds 5 [({4, 7}, 3, 9), ({4, 6, 9}, 3, 9), ({4, 6}, 3, 9)] = [7, 9, 4]" by code_simp
  ultimately show ?thesis by blast
qed

end
