(* ===== verification/PoolSteps.thy ===== *)
theory PoolSteps imports ThreadPool begin

text \<open>
  The threads of a thread pool and everybody who uses it, interleaved at the critical sections of
  \<^verbatim>\<open>src/Ice-3.1.1/src/Ice/ThreadPool.cpp\<close>.
\<close>

section \<open>Steps\<close>

datatype 'h task = TaskMessage 'h | TaskFinished 'h | TaskShutdown

text \<open>Where a thread is in \<open>EventHandlerThread::run\<close>.\<close>

datatype 'h thread_pc =
    NotStarted
  | Starting                       \<comment> \<open>before the first section of \<open>run\<close>\<close>
  | Leading                        \<comment> \<open>in the loop around \<open>select\<close>\<close>
  | Calling "'h task"              \<comment> \<open>in a handler that has not promoted a follower yet\<close>
  | Promoted                       \<comment> \<open>in a handler that has\<close>
  | Following                      \<comment> \<open>waiting to be promoted\<close>
  | Leaving bool                   \<comment> \<open>\<open>run\<close> has returned: whether to promote a follower\<close>
  | Dead

text \<open>
  The pool, its threads, and two records of the past: the handlers whose \<open>finished\<close> has been called, and those that have been
  unregistered.
\<close>

record ('h, 'd) pool_sys =
  ps_pool :: "('h, nat, 'd) pool"
  ps_pc :: "nat \<Rightarrow> 'h thread_pc"
  ps_finished :: "'h list"
  ps_unregistered :: "'h list"

text \<open>What the pending changes come to.\<close>

fun net_map :: "(fd \<rightharpoonup> 'h) \<Rightarrow> (fd \<times> 'h option) list \<Rightarrow> (fd \<rightharpoonup> 'h)" where
  "net_map m [] = m"
| "net_map m ((fd, c) # cs) = net_map (m(fd := c)) cs"

definition handlers :: "('h, 't, 'd) pool \<Rightarrow> (fd \<rightharpoonup> 'h)" where
  "handlers p = (\<lambda>fd. sm_find fd (tp_handlerMap p))"

definition registered :: "('h, 't, 'd) pool \<Rightarrow> (fd \<rightharpoonup> 'h)" where
  "registered p = net_map (handlers p) (tp_changes p)"

text \<open>What the kernel may answer: descriptors of the set that are readable, the pipe only when there is something in it.\<close>

definition select_may :: "('h, 't, 'd) pool \<Rightarrow> select_result \<Rightarrow> bool" where
  "select_may p ret =
     (case ret of
        SelectError \<Rightarrow> True
      | SelectTimeout \<Rightarrow> tp_timeout p > 0
      | SelectReady R \<Rightarrow> R \<noteq> {} \<and> R \<subseteq> tp_fdSet p \<and> (tp_fdIntrRead p \<in> R \<longrightarrow> 0 < tp_pipe p))"

fun action_pc :: "'h next_action \<Rightarrow> 'h thread_pc" where
  "action_pc Continue = Leading"
| "action_pc ReturnTrue = Leaving True"
| "action_pc Shutdown = Calling TaskShutdown"
| "action_pc (CallFinished h) = Calling (TaskFinished h)"
| "action_pc (CallMessage h) = Calling (TaskMessage h)"

fun finished_by :: "'h next_action \<Rightarrow> 'h list" where
  "finished_by (CallFinished h) = [h]"
| "finished_by _ = []"

definition set_thread :: "nat \<Rightarrow> 'h thread_pc \<Rightarrow> ('h, 'd) pool_sys \<Rightarrow> ('h, 'd) pool_sys" where
  "set_thread t pc w = w\<lparr>ps_pc := (ps_pc w)(t := pc)\<rparr>"

definition failed :: "failure + 'a \<Rightarrow> failure option" where
  "failed r = (case r of Inl f \<Rightarrow> Some f | Inr _ \<Rightarrow> None)"

text \<open>
  The steps, labelled with the failure of their section, if any.  Users register descriptors that are not registered and
  unregister those that are, and destroy the pool when it has no handlers left.  A handler calls \<open>promoteFollower\<close> once, before
  it returns; an exception of a handler that is no \<open>LocalException\<close> leaves \<open>run\<close>, which the discipline \<open>d\<close> excludes.
  System calls on the pipe succeed.
\<close>

inductive pool_step :: "bool \<Rightarrow> 'd doubles \<Rightarrow> ('h, 'd) pool_sys \<Rightarrow> failure option \<Rightarrow> ('h, 'd) pool_sys \<Rightarrow> bool" for d dbl where
  lead: "ps_pc w t = Starting \<or> ps_pc w t = Following \<Longrightarrow> \<not> 1 < tp_sizeMax (ps_pool w) \<or> tp_promote (ps_pool w) \<Longrightarrow>
    pool_step d dbl w None
      (set_thread t Leading (w\<lparr>ps_pool := if 1 < tp_sizeMax (ps_pool w) then becomeLeader (ps_pool w) else ps_pool w\<rparr>))"
| select: "ps_pc w t = Leading \<Longrightarrow> select_may (ps_pool w) ret \<Longrightarrow> afterSelect True ret (ps_pool w) = Inr (act, p') \<Longrightarrow>
    pool_step d dbl w None (set_thread t (action_pc act) (w\<lparr>ps_pool := p', ps_finished := ps_finished w @ finished_by act\<rparr>))"
| select_fails: "ps_pc w t = Leading \<Longrightarrow> select_may (ps_pool w) ret \<Longrightarrow> afterSelect True ret (ps_pool w) = Inl f \<Longrightarrow>
    pool_step d dbl w (Some f) (set_thread t (Leaving True) w)"
| no_factory: "ps_pc w t = Calling TaskShutdown \<Longrightarrow> pool_step d dbl w None (set_thread t Leading w)"
| not_read: "ps_pc w t = Calling (TaskMessage h) \<Longrightarrow> pool_step d dbl w None (set_thread t Leading w)"
| promote: "ps_pc w t = Calling task \<Longrightarrow> promoteFollower None (ps_pool w) = Inr p' \<Longrightarrow>
    pool_step d dbl w None (set_thread t Promoted (w\<lparr>ps_pool := p'\<rparr>))"
| promote_new: "ps_pc w t = Calling task \<Longrightarrow> ps_pc w n = NotStarted \<Longrightarrow> promoteFollower (Some n) (ps_pool w) = Inr p' \<Longrightarrow>
    tp_threads p' = tp_threads (ps_pool w) @ [n] \<Longrightarrow>
    pool_step d dbl w None (set_thread n Starting (set_thread t Promoted (w\<lparr>ps_pool := p'\<rparr>)))"
| promote_fails: "ps_pc w t = Calling task \<Longrightarrow> promoteFollower new (ps_pool w) = Inl f \<Longrightarrow>
    pool_step d dbl w (Some f) (set_thread t (Leaving True) w)"
| worked: "ps_pc w t = Promoted \<Longrightarrow> afterCall dbl (\<lambda>u. ps_pc w u \<noteq> Dead) (ps_pool w) = Inr (stay, p') \<Longrightarrow>
    pool_step d dbl w None (set_thread t (if stay then Following else Leaving False) (w\<lparr>ps_pool := p'\<rparr>))"
| worked_fails: "ps_pc w t = Promoted \<Longrightarrow> afterCall dbl (\<lambda>u. ps_pc w u \<noteq> Dead) (ps_pool w) = Inl f \<Longrightarrow>
    pool_step d dbl w (Some f) (set_thread t (Leaving True) w)"
| escape: "\<not> d \<Longrightarrow> ps_pc w t = Promoted \<Longrightarrow> pool_step d dbl w None (set_thread t (Leaving True) w)"
| leave: "ps_pc w t = Leaving b \<Longrightarrow> leaveThread b (ps_pool w) = Inr p' \<Longrightarrow>
    pool_step d dbl w None (set_thread t Dead (w\<lparr>ps_pool := p'\<rparr>))"
| leave_fails: "ps_pc w t = Leaving b \<Longrightarrow> leaveThread b (ps_pool w) = Inl f \<Longrightarrow> pool_step d dbl w (Some f) (set_thread t Dead w)"
| reg: "\<not> tp_destroyed (ps_pool w) \<Longrightarrow> registered (ps_pool w) fd = None \<Longrightarrow> 0 \<le> fd \<Longrightarrow> fd \<noteq> tp_fdIntrRead (ps_pool w) \<Longrightarrow>
    pool_register True fd h (ps_pool w) = (r, p') \<Longrightarrow> pool_step d dbl w (failed r) (w\<lparr>ps_pool := p'\<rparr>)"
| unreg: "\<not> tp_destroyed (ps_pool w) \<Longrightarrow> registered (ps_pool w) fd = Some h \<Longrightarrow> pool_unregister True fd (ps_pool w) = (r, p') \<Longrightarrow>
    pool_step d dbl w (failed r) (w\<lparr>ps_pool := p', ps_unregistered := ps_unregistered w @ [h]\<rparr>)"
| destroy: "\<not> tp_destroyed (ps_pool w) \<Longrightarrow> tp_handlerMap (ps_pool w) = [] \<Longrightarrow> tp_changes (ps_pool w) = [] \<Longrightarrow>
    pool_destroy True (ps_pool w) = (r, p') \<Longrightarrow> pool_step d dbl w (failed r) (w\<lparr>ps_pool := p'\<rparr>)"

text \<open>
  The pool when its constructor has tried to start its threads.  The operating system lets it create up to \<open>k\<close> of them; if
  that is not enough, the constructor has destroyed the pool and waits in \<open>joinWithAllThreads\<close>.
\<close>

definition pool_start :: "'d doubles \<Rightarrow> properties \<Rightarrow> string \<Rightarrow> int \<Rightarrow> fd \<Rightarrow> nat \<Rightarrow> ('h, 'd) pool_sys" where
  "pool_start dbl ps prefix timeout intr k =
     \<lparr>ps_pool = snd (pool_new True (\<lambda>i. if i < k then Some i else None) dbl ps prefix timeout intr),
      ps_pc = (\<lambda>t. if t < min k (nat (fst (pool_sizes ps prefix))) then Starting else NotStarted), ps_finished = [], ps_unregistered = []\<rparr>"

inductive pool_reachable :: "bool \<Rightarrow> 'd doubles \<Rightarrow> ('h, 'd) pool_sys \<Rightarrow> bool" for d dbl where
  pool_init: "0 \<le> intr \<Longrightarrow> pool_reachable d dbl (pool_start dbl ps prefix timeout intr k)"
| pool_next: "pool_reachable d dbl w \<Longrightarrow> pool_step d dbl w fo w' \<Longrightarrow> pool_reachable d dbl w'"

section \<open>Counting threads\<close>

definition count :: "('h thread_pc \<Rightarrow> bool) \<Rightarrow> (nat \<Rightarrow> 'h thread_pc) \<Rightarrow> nat" where
  "count P pc = card {t. P (pc t)}"

definition few :: "(nat \<Rightarrow> 'h thread_pc) \<Rightarrow> bool" where
  "few pc \<longleftrightarrow> finite {t. pc t \<noteq> NotStarted}"

lemma few_upd [simp]: "few (pc(t := x)) = few pc"
proof -
  have "{u. (pc(t := x)) u \<noteq> NotStarted} \<subseteq> insert t {u. pc u \<noteq> NotStarted}"
    "{u. pc u \<noteq> NotStarted} \<subseteq> insert t {u. (pc(t := x)) u \<noteq> NotStarted}" by auto
  then show ?thesis unfolding few_def by (metis (no_types, lifting) finite_insert finite_subset)
qed

lemma few_finite: "few pc \<Longrightarrow> \<not> P NotStarted \<Longrightarrow> finite {t. P (pc t)}"
  unfolding few_def by (rule finite_subset [of _ "{t. pc t \<noteq> NotStarted}"]) auto

lemma count_upd:
  assumes "few pc" and "\<not> P NotStarted"
  shows "int (count P (pc(t := x))) = int (count P pc) - (if P (pc t) then 1 else 0) + (if P x then 1 else 0)"
proof -
  have fin: "finite {u. P (pc u)}" using few_finite [of pc P] assms by simp
  let ?rest = "{u. P (pc u)} - {t}"
  have upd: "{u. P ((pc(t := x)) u)} = (if P x then insert t ?rest else ?rest)" by auto
  have "int (card {u. P ((pc(t := x)) u)}) = int (card ?rest) + (if P x then 1 else 0)" unfolding upd using fin card_insert_disjoint [of ?rest t]
    by (auto simp del: insert_Diff_single)
  moreover have "int (card {u. P (pc u)}) = int (card ?rest) + (if P (pc t) then 1 else 0)"
    using fin card_Suc_Diff1 [of "{u. P (pc u)}" t] by auto
  ultimately show ?thesis by (simp add: count_def)
qed

lemma count_pos: "few pc \<Longrightarrow> \<not> P NotStarted \<Longrightarrow> P (pc t) \<Longrightarrow> 0 < count P pc"
  using few_finite [of pc P] by (auto simp: count_def card_gt_0_iff)

lemma count_0: "few pc \<Longrightarrow> \<not> P NotStarted \<Longrightarrow> count P pc = 0 \<longleftrightarrow> (\<forall>t. \<not> P (pc t))"
  using few_finite [of pc P] by (auto simp: count_def)

lemma count_mono: "few pc \<Longrightarrow> \<not> Q NotStarted \<Longrightarrow> (\<And>x. P x \<Longrightarrow> Q x) \<Longrightarrow> count P pc \<le> count Q pc"
  unfolding count_def using few_finite [of pc Q] by (intro card_mono) auto

lemma count_one:
  assumes "few pc" and "\<not> P NotStarted" and "count P pc \<le> 1" and "P (pc t)" and "P (pc u)"
  shows "t = u"
  using assms few_finite [of pc P] card_le_Suc0_iff_eq [of "{t. P (pc t)}"] by (auto simp: count_def)

section \<open>Threads\<close>

text \<open>The threads that hold the leadership, those at work, and those the pool counts as running.\<close>

fun holder :: "'h thread_pc \<Rightarrow> bool" where
  "holder Leading \<longleftrightarrow> True"
| "holder (Calling task) \<longleftrightarrow> True"
| "holder (Leaving b) \<longleftrightarrow> b"
| "holder _ \<longleftrightarrow> False"

definition busy :: "'h thread_pc \<Rightarrow> bool" where
  "busy pc \<longleftrightarrow> pc = Promoted"

fun working :: "'h thread_pc \<Rightarrow> bool" where
  "working Starting \<longleftrightarrow> True"
| "working Leading \<longleftrightarrow> True"
| "working (Calling task) \<longleftrightarrow> True"
| "working Promoted \<longleftrightarrow> True"
| "working Following \<longleftrightarrow> True"
| "working _ \<longleftrightarrow> False"

definition threads_ok :: "('h, nat, 'd) pool \<Rightarrow> (nat \<Rightarrow> 'h thread_pc) \<Rightarrow> bool" where
  "threads_ok p pc \<longleftrightarrow> few pc \<and> distinct (tp_threads p) \<and>
     (\<forall>t \<in> set (tp_threads p). pc t \<noteq> NotStarted) \<and> (\<forall>t. pc t \<noteq> NotStarted \<longrightarrow> pc t \<noteq> Dead \<longrightarrow> t \<in> set (tp_threads p))"

definition leader_ok :: "('h, nat, 'd) pool \<Rightarrow> (nat \<Rightarrow> 'h thread_pc) \<Rightarrow> bool" where
  "leader_ok p pc \<longleftrightarrow>
     (if 1 < tp_sizeMax p then int (count holder pc) = (if tp_promote p then 0 else 1)
      else count (\<lambda>x. x \<noteq> NotStarted) pc \<le> 1)"

definition sizes_ok :: "('h, nat, 'd) pool \<Rightarrow> (nat \<Rightarrow> 'h thread_pc) \<Rightarrow> bool" where
  "sizes_ok p pc \<longleftrightarrow> 1 \<le> tp_size p \<and> tp_size p \<le> tp_sizeMax p \<and>
     (\<not> tp_destroyed p \<longrightarrow> (\<forall>t. pc t \<noteq> Leaving True) \<and> tp_running p = int (count working pc) \<and> tp_size p \<le> tp_running p \<and>
        tp_running p \<le> tp_sizeMax p \<and> (1 < tp_sizeMax p \<longrightarrow> tp_inUse p = int (count busy pc)))"

definition crew_ok :: "('h, nat, 'd) pool \<Rightarrow> (nat \<Rightarrow> 'h thread_pc) \<Rightarrow> bool" where
  "crew_ok p pc \<longleftrightarrow> threads_ok p pc \<and> leader_ok p pc \<and> sizes_ok p pc"

lemmas crew_defs = crew_ok_def threads_ok_def leader_ok_def sizes_ok_def

lemma not_busy_NotStarted [simp]: "\<not> busy NotStarted"
  by (simp add: busy_def)

lemma busy_simps [simp]:
  "busy Promoted" "\<not> busy Starting" "\<not> busy Leading" "\<not> busy (Calling task)" "\<not> busy Following" "\<not> busy (Leaving b)" "\<not> busy Dead"
  by (simp_all add: busy_def)

lemma crew_few: "crew_ok p pc \<Longrightarrow> few pc"
  by (simp add: crew_defs)

lemma counts_upd:
  assumes "few pc"
  shows "int (count holder (pc(t := x))) = int (count holder pc) - (if holder (pc t) then 1 else 0) + (if holder x then 1 else 0)"
    "int (count busy (pc(t := x))) = int (count busy pc) - (if busy (pc t) then 1 else 0) + (if busy x then 1 else 0)"
    "int (count working (pc(t := x))) = int (count working pc) - (if working (pc t) then 1 else 0) + (if working x then 1 else 0)"
    "int (count (\<lambda>x. x \<noteq> NotStarted) (pc(t := x))) =
       int (count (\<lambda>x. x \<noteq> NotStarted) pc) - (if pc t \<noteq> NotStarted then 1 else 0) + (if x \<noteq> NotStarted then 1 else 0)"
  using assms by (simp_all add: count_upd)

text \<open>The operations on the pool see only these fields of the crew.\<close>

definition same_crew :: "('h, nat, 'd) pool \<Rightarrow> ('h, nat, 'd) pool \<Rightarrow> bool" where
  "same_crew p p' \<longleftrightarrow> tp_destroyed p' = tp_destroyed p \<and> tp_sizeMax p' = tp_sizeMax p \<and> tp_size p' = tp_size p \<and>
     tp_threads p' = tp_threads p \<and> tp_running p' = tp_running p \<and> tp_inUse p' = tp_inUse p \<and> tp_promote p' = tp_promote p"

lemma same_crew_ok: "same_crew p p' \<Longrightarrow> crew_ok p' pc = crew_ok p pc"
  by (simp add: same_crew_def crew_defs)

lemma threads_ok_move:
  assumes "threads_ok p pc" and "pc t \<noteq> NotStarted" and "pc t \<noteq> Dead" and "x \<noteq> NotStarted"
  shows "threads_ok p (pc(t := x))"
  using assms by (auto simp: threads_ok_def)

text \<open>A thread that moves without changing a count.\<close>

lemma crew_move:
  assumes "crew_ok p pc" and "pc t \<noteq> NotStarted" and "pc t \<noteq> Dead" and "x \<noteq> NotStarted"
    and "holder x = holder (pc t)" and "tp_destroyed p \<or> working x = working (pc t)" and "busy x = busy (pc t)" and "x = Leaving True \<longrightarrow> tp_destroyed p"
  shows "crew_ok p (pc(t := x))"
  using assms threads_ok_move [of p pc t x] counts_upd [OF crew_few [OF assms(1)], of t x]
  by (auto simp: crew_ok_def leader_ok_def sizes_ok_def)

lemma afterSelect_crew:
  assumes "afterSelect ok ret p = Inr (act, p')"
  shows "same_crew p p'"
  using assms
  by (auto simp: afterSelect_def clearInterrupt_def addHandler_def removeHandler_def same_crew_def andThen_eq_Inr Let_def
      split: select_result.splits if_splits list.splits option.splits prod.splits)

lemma becomeLeader_ok [simp]: "threads_ok (becomeLeader p) pc = threads_ok p pc" "sizes_ok (becomeLeader p) pc = sizes_ok p pc"
  by (simp_all add: threads_ok_def sizes_ok_def becomeLeader_def)

lemma crew_lead:
  assumes c: "crew_ok p pc" and t: "pc t = Starting \<or> pc t = Following" and l: "\<not> 1 < tp_sizeMax p \<or> tp_promote p"
  shows "crew_ok (if 1 < tp_sizeMax p then becomeLeader p else p) (pc(t := Leading))"
proof -
  note up = counts_upd [OF crew_few [OF c], of t Leading]
  have u: "int (count holder (pc(t := Leading))) = int (count holder pc) + 1" "count busy (pc(t := Leading)) = count busy pc"
      "count working (pc(t := Leading)) = count working pc" "count (\<lambda>x. x \<noteq> NotStarted) (pc(t := Leading)) = count (\<lambda>x. x \<noteq> NotStarted) pc"
    using up t by (elim disjE; simp)+
  have "threads_ok p (pc(t := Leading))" using c t by (intro threads_ok_move) (auto simp: crew_ok_def)
  moreover have "leader_ok (if 1 < tp_sizeMax p then becomeLeader p else p) (pc(t := Leading))"
    using c l u(1,4) by (cases "1 < tp_sizeMax p") (auto simp: crew_ok_def leader_ok_def becomeLeader_def)
  moreover have "sizes_ok p (pc(t := Leading))" using c u(2,3) by (auto simp: crew_ok_def sizes_ok_def)
  ultimately show ?thesis by (simp add: crew_ok_def)
qed

lemma busy_below:
  assumes "few pc" and "working (pc t)" and "\<not> busy (pc t)"
  shows "count busy pc + 1 \<le> count working pc"
proof -
  have "count busy (pc(t := Dead)) \<le> count working (pc(t := Dead))"
    using assms(1) by (intro count_mono) (auto simp: busy_def)
  then show ?thesis using counts_upd(2,3) [OF assms(1), of t Dead] assms(2,3) by simp
qed

lemma crew_promote:
  assumes c: "crew_ok p pc" and t: "pc t = Calling task"
  shows "\<exists>p'. promoteFollower new p = Inr p' \<and> handlers p' = handlers p \<and> tp_changes p' = tp_changes p"
    and "promoteFollower None p = Inr p' \<Longrightarrow> crew_ok p' (pc(t := Promoted))"
    and "promoteFollower (Some n) p = Inr p' \<Longrightarrow> tp_threads p' = tp_threads p @ [n] \<Longrightarrow> pc n = NotStarted \<Longrightarrow>
      crew_ok p' (pc(t := Promoted, n := Starting))"
proof -
  note few = crew_few [OF c]
  have pos: "0 < count holder pc" using t few by (intro count_pos [of pc holder t]) auto
  have b: "int (count busy pc) + 1 \<le> int (count working pc)" using busy_below [OF few, of t] t by simp
  have hold: "1 < tp_sizeMax p \<Longrightarrow> \<not> tp_promote p" using c pos by (auto simp: crew_ok_def leader_ok_def)
  have sz: "\<not> tp_destroyed p \<Longrightarrow> 1 < tp_sizeMax p \<Longrightarrow> tp_inUse p = int (count busy pc) \<and> tp_running p = int (count working pc)"
    using c by (auto simp: crew_ok_def sizes_ok_def)
  show "\<exists>p'. promoteFollower new p = Inr p' \<and> handlers p' = handlers p \<and> tp_changes p' = tp_changes p"
    using hold sz b by (auto simp: promoteFollower_def Let_def startThread_def handlers_def split: option.splits)
  note up = counts_upd [OF few, of t Promoted, unfolded t, simplified]
  have th: "threads_ok p (pc(t := Promoted))" using c t by (intro threads_ok_move) (auto simp: crew_ok_def)
  show "crew_ok p' (pc(t := Promoted))" if r: "promoteFollower None p = Inr p'"
  proof (cases "1 < tp_sizeMax p")
    case True
    have p': "p' = (if tp_destroyed p then p\<lparr>tp_promote := True\<rparr> else p\<lparr>tp_promote := True, tp_inUse := tp_inUse p + 1\<rparr>)"
      using r True by (simp add: promoteFollower_def Let_def split: if_splits)
    have "leader_ok p' (pc(t := Promoted))" using c True hold [OF True] up(1) by (simp add: crew_ok_def leader_ok_def p')
    moreover have "sizes_ok p' (pc(t := Promoted))" using c True up(2,3) by (auto simp: crew_ok_def sizes_ok_def p')
    ultimately show ?thesis using th by (simp add: crew_ok_def threads_ok_def p')
  next
    case False
    then have "p' = p" using r by (simp add: promoteFollower_def)
    then show ?thesis using c th up(3,4) False by (auto simp: crew_ok_def leader_ok_def sizes_ok_def)
  qed
  show "crew_ok p' (pc(t := Promoted, n := Starting))"
    if r: "promoteFollower (Some n) p = Inr p'" and new: "tp_threads p' = tp_threads p @ [n]" and n: "pc n = NotStarted"
  proof -
    have nt: "n \<noteq> t" using n t by auto
    have few': "few (pc(t := Promoted))" using few by simp
    note up' = counts_upd [OF few', of n Starting, simplified, unfolded up, simplified]
    have p': "1 < tp_sizeMax p" "\<not> tp_destroyed p" "tp_inUse p + 1 < tp_sizeMax p" "tp_inUse p + 1 = tp_running p"
        "p' = startThread n (p\<lparr>tp_promote := True, tp_inUse := tp_inUse p + 1\<rparr>)"
      using r new by (auto simp: promoteFollower_def Let_def split: if_splits)
    have "threads_ok p' (pc(t := Promoted, n := Starting))"
      using c t n nt by (auto simp: crew_ok_def threads_ok_def p'(5) startThread_def)
    moreover have "leader_ok p' (pc(t := Promoted, n := Starting))"
      using c p'(1) hold [OF p'(1)] up'(1) n nt by (simp add: crew_ok_def leader_ok_def p'(5) startThread_def)
    moreover have "sizes_ok p' (pc(t := Promoted, n := Starting))"
      using c p'(1-4) up'(2,3) n nt by (auto simp: crew_ok_def sizes_ok_def p'(5) startThread_def)
    ultimately show ?thesis by (simp add: crew_ok_def)
  qed
qed

text \<open>The number of threads that are counted does not exceed the number of threads there are.\<close>

lemma working_threads:
  assumes "threads_ok p pc"
  shows "count working pc \<le> length (tp_threads p)"
proof -
  have "{t. working (pc t)} \<subseteq> set (tp_threads p)" using assms by (auto simp: threads_ok_def) (metis working.simps(6,8))
  then have "count working pc \<le> card (set (tp_threads p))" unfolding count_def by (intro card_mono) auto
  then show ?thesis using assms distinct_card by (fastforce simp: threads_ok_def)
qed

lemma crew_worked:
  assumes c: "crew_ok p pc" and t: "pc t = Promoted"
  shows "\<exists>stay p'. afterCall dbl (\<lambda>u. pc u \<noteq> Dead) p = Inr (stay, p')"
    and "afterCall dbl (\<lambda>u. pc u \<noteq> Dead) p = Inr (stay, p') \<Longrightarrow>
      crew_ok p' (pc(t := if stay then Following else Leaving False)) \<and> handlers p' = handlers p \<and> tp_changes p' = tp_changes p"
proof -
  note few = crew_few [OF c]
  have pos: "0 < count busy pc" "0 < count working pc" using t few by (auto intro!: count_pos [of pc _ t])
  have le: "count working pc \<le> length (tp_threads p)" using c working_threads by (auto simp: crew_ok_def)
  have sz: "tp_inUse p = int (count busy pc)" "tp_running p = int (count working pc)" "\<forall>t. pc t \<noteq> Leaving True"
      "tp_size p \<le> tp_running p" "tp_running p \<le> tp_sizeMax p" if "\<not> tp_destroyed p" "1 < tp_sizeMax p"
    using c that by (auto simp: crew_ok_def sizes_ok_def)
  show "\<exists>stay p'. afterCall dbl (\<lambda>u. pc u \<noteq> Dead) p = Inr (stay, p')"
    using pos le sz by (auto simp: afterCall_def Let_def)
  assume r: "afterCall dbl (\<lambda>u. pc u \<noteq> Dead) p = Inr (stay, p')"
  show "crew_ok p' (pc(t := if stay then Following else Leaving False)) \<and> handlers p' = handlers p \<and> tp_changes p' = tp_changes p"
  proof (cases "1 < tp_sizeMax p \<and> \<not> tp_destroyed p")
    case True
    note s = sz [OF conjunct2 [OF True] conjunct1 [OF True]]
    let ?x = "if stay then Following else Leaving False"
    note up = counts_upd [OF few, of t ?x, unfolded t, simplified]
    have p': "tp_inUse p' = tp_inUse p - 1" "tp_running p' = (if stay then tp_running p else tp_running p - 1)"
        "stay \<or> tp_size p < tp_running p" "tp_sizeMax p' = tp_sizeMax p" "tp_size p' = tp_size p" "tp_promote p' = tp_promote p"
        "tp_destroyed p' = tp_destroyed p" "tp_threads p' = tp_threads p \<or> tp_threads p' = filter (\<lambda>u. pc u \<noteq> Dead) (tp_threads p)"
        "handlers p' = handlers p" "tp_changes p' = tp_changes p"
      using r True by (auto simp: afterCall_def Let_def handlers_def split: if_splits)
    have "threads_ok p' (pc(t := ?x))"
      using c t p'(8) by (auto simp: crew_ok_def threads_ok_def)
    moreover have "leader_ok p' (pc(t := ?x))" using c True up(1) by (simp add: crew_ok_def leader_ok_def p')
    moreover have "sizes_ok p' (pc(t := ?x))"
      using c s p'(1-7) up(2,3) True by (cases stay) (auto simp: crew_ok_def sizes_ok_def)
    ultimately show ?thesis using p'(9,10) by (simp add: crew_ok_def)
  next
    case False
    then have p': "p' = p" "stay" using r by (auto simp: afterCall_def)
    note up = counts_upd [OF few, of t Following, unfolded t, simplified]
    have "threads_ok p (pc(t := Following))" using c t by (intro threads_ok_move) (auto simp: crew_ok_def)
    moreover have "leader_ok p (pc(t := Following))" using c up(1,4) by (cases "1 < tp_sizeMax p") (auto simp: crew_ok_def leader_ok_def)
    moreover have "sizes_ok p (pc(t := Following))" using c up(3) False by (auto simp: crew_ok_def sizes_ok_def)
    ultimately show ?thesis using p' by (simp add: crew_ok_def)
  qed
qed

lemma crew_leave:
  assumes c: "crew_ok p pc" and t: "pc t = Leaving b"
  shows "\<exists>p'. leaveThread b p = Inr p'"
    and "leaveThread b p = Inr p' \<Longrightarrow> crew_ok p' (pc(t := Dead)) \<and> handlers p' = handlers p \<and> tp_changes p' = tp_changes p"
proof -
  note few = crew_few [OF c]
  have hold: "b \<Longrightarrow> 1 < tp_sizeMax p \<Longrightarrow> \<not> tp_promote p"
    using count_pos [of pc holder t] t few c by (auto simp: crew_ok_def leader_ok_def)
  then show "\<exists>p'. leaveThread b p = Inr p'" by (auto simp: leaveThread_def)
  assume r: "leaveThread b p = Inr p'"
  then have p': "p' = (if b \<and> 1 < tp_sizeMax p then p\<lparr>tp_promote := True\<rparr> else p)" by (auto simp: leaveThread_def split: if_splits)
  note up = counts_upd [OF few, of t Dead, unfolded t, simplified]
  have "threads_ok p (pc(t := Dead))" using c t by (intro threads_ok_move) (auto simp: crew_ok_def)
  moreover have "leader_ok p' (pc(t := Dead))"
    using c up(1,4) hold by (cases "1 < tp_sizeMax p") (auto simp: crew_ok_def leader_ok_def p')
  moreover have "sizes_ok p (pc(t := Dead))" using c up(2,3) by (auto simp: crew_ok_def sizes_ok_def)
  ultimately show "crew_ok p' (pc(t := Dead)) \<and> handlers p' = handlers p \<and> tp_changes p' = tp_changes p"
    by (auto simp: crew_ok_def threads_ok_def sizes_ok_def handlers_def p')
qed

section \<open>Handlers\<close>

fun changes_ok :: "(fd \<rightharpoonup> 'h) \<Rightarrow> (fd \<times> 'h option) list \<Rightarrow> bool" where
  "changes_ok m [] \<longleftrightarrow> True"
| "changes_ok m ((fd, c) # cs) \<longleftrightarrow> (m fd = None) = (c \<noteq> None) \<and> changes_ok (m(fd := c)) cs"

text \<open>The handlers that the pending changes will remove.\<close>

fun removals :: "(fd \<rightharpoonup> 'h) \<Rightarrow> (fd \<times> 'h option) list \<Rightarrow> 'h list" where
  "removals m [] = []"
| "removals m ((fd, c) # cs) = (case (c, m fd) of (None, Some h) \<Rightarrow> [h] | _ \<Rightarrow> []) @ removals (m(fd := c)) cs"

lemma net_map_snoc [simp]: "net_map m (cs @ [(fd, c)]) = (net_map m cs)(fd := c)"
  by (induction cs arbitrary: m) (auto simp del: fun_upd_apply)

lemma changes_ok_snoc: "changes_ok m (cs @ [(fd, c)]) \<longleftrightarrow> changes_ok m cs \<and> (net_map m cs fd = None) = (c \<noteq> None)"
  by (induction cs arbitrary: m) (auto simp del: fun_upd_apply)

lemma removals_snoc:
  "removals m (cs @ [(fd, c)]) = removals m cs @ (case (c, net_map m cs fd) of (None, Some h) \<Rightarrow> [h] | _ \<Rightarrow> [])"
  by (induction cs arbitrary: m) (auto simp del: fun_upd_apply split: option.splits)

lemma length_removals: "changes_ok m cs \<Longrightarrow> length (removals m cs) = length (filter (\<lambda>(fd, c). c = None) cs)"
  by (induction cs arbitrary: m) (auto simp del: fun_upd_apply split: option.splits)

definition handlers_ok :: "('h, 't, 'd) pool \<Rightarrow> bool" where
  "handlers_ok p \<longleftrightarrow> sm_ok (tp_handlerMap p) \<and> 0 \<le> tp_fdIntrRead p \<and> INVALID_SOCKET \<le> tp_lastFd p \<and>
     (\<forall>fd h. handlers p fd = Some h \<longrightarrow> 0 \<le> fd \<and> fd \<noteq> tp_fdIntrRead p) \<and> tp_fdSet p = insert (tp_fdIntrRead p) (dom (handlers p)) \<and>
     tp_maxFd p = Max (tp_fdSet p) \<and> tp_minFd p = Min (tp_fdSet p)"

definition registry_ok :: "('h, 't, 'd) pool \<Rightarrow> 'h list \<Rightarrow> 'h list \<Rightarrow> bool" where
  "registry_ok p fin unreg \<longleftrightarrow> handlers_ok p \<and> changes_ok (handlers p) (tp_changes p) \<and>
     (\<forall>(fd, c) \<in> set (tp_changes p). 0 \<le> fd \<and> fd \<noteq> tp_fdIntrRead p) \<and>
     tp_pipe p = length (tp_changes p) + (if tp_destroyed p then 1 else 0) \<and>
     (tp_destroyed p \<longrightarrow> tp_handlerMap p = [] \<and> tp_changes p = []) \<and> unreg = fin @ removals (handlers p) (tp_changes p)"

lemma dom_handlers: "dom (handlers p) = fst ` set (tp_handlerMap p)"
  by (auto simp: handlers_def dom_def) (metis sm_find_None image_eqI fst_conv option.distinct(1), metis not_None_eq sm_find_None image_eqI fst_conv)

lemma finite_handlers [simp]: "finite (dom (handlers p))"
  by (simp add: dom_handlers)

lemma sm_ok_hd_last:
  assumes "sm_ok m" and "m \<noteq> []"
  shows "Min (fst ` set m) = fst (hd m)" "Max (fst ` set m) = fst (last m)"
proof -
  have s: "sorted (map fst m)" using assms(1) by (simp add: sm_ok_def strict_sorted_iff)
  have "fst (hd m) = hd (map fst m)" "fst (last m) = last (map fst m)" using assms(2) by (simp_all add: hd_map last_map)
  moreover have "\<forall>x \<in> set (map fst m). hd (map fst m) \<le> x" using s by (cases m) auto
  moreover have "\<forall>x \<in> set (map fst m). x \<le> last (map fst m)"
  proof
    fix x
    assume "x \<in> set (map fst m)"
    then obtain i where "i < length (map fst m)" "x = map fst m ! i" by (metis in_set_conv_nth)
    moreover have "last (map fst m) = map fst m ! (length m - 1)" using assms(2) by (simp add: last_conv_nth)
    ultimately show "x \<le> last (map fst m)" using sorted_nth_mono [OF s, of i "length m - 1"] by simp
  qed
  moreover have "hd (map fst m) \<in> set (map fst m)" "last (map fst m) \<in> set (map fst m)" using assms(2) by (simp_all add: hd_map last_map)
  ultimately show "Min (fst ` set m) = fst (hd m)" "Max (fst ` set m) = fst (last m)"
    by (auto intro!: Min_eqI Max_eqI)
qed

lemma turn_in:
  assumes "finite ready" and "ready \<noteq> {}"
  shows "turn ready lastFd \<in> ready"
proof (cases "\<exists>fd \<in> ready. lastFd < fd")
  case True
  then show ?thesis using Min_turn(1) [OF assms(1)] by blast
next
  case False
  then have "\<forall>fd \<in> ready. fd \<le> lastFd" by force
  then show ?thesis using turn_wraps [OF assms(1)] assms Min_in by metis
qed

lemma handlers_add:
  assumes "handlers_ok p" and "handlers p fd = None" and "0 \<le> fd" and "fd \<noteq> tp_fdIntrRead p"
  shows "handlers_ok (addHandler fd h p)" "handlers (addHandler fd h p) = (handlers p)(fd \<mapsto> h)"
proof -
  have ok: "sm_ok (tp_handlerMap p)" using assms(1) by (simp add: handlers_ok_def)
  show eq: "handlers (addHandler fd h p) = (handlers p)(fd \<mapsto> h)"
    using assms(2) ok by (auto simp: handlers_def addHandler_def)
  have fin: "finite (tp_fdSet p)" "tp_fdSet p \<noteq> {}" using assms(1) by (auto simp: handlers_ok_def)
  show "handlers_ok (addHandler fd h p)"
    using assms ok fin unfolding handlers_ok_def eq by (auto simp: addHandler_def max.commute min.commute)
qed

lemma handlers_remove:
  assumes "handlers_ok p" and "handlers p fd = Some h"
  shows "handlers_ok (removeHandler fd p)" "handlers (removeHandler fd p) = (handlers p)(fd := None)"
proof -
  let ?m = "sm_erase fd (tp_handlerMap p)" and ?i = "tp_fdIntrRead p"
  have ok: "sm_ok ?m" "fd \<noteq> ?i" "tp_fdSet p = insert ?i (dom (handlers p))" using assms by (auto simp: handlers_ok_def)
  show eq: "handlers (removeHandler fd p) = (handlers p)(fd := None)"
    by (auto simp: handlers_def removeHandler_def Let_def)
  have set: "tp_fdSet (removeHandler fd p) = insert ?i (fst ` set ?m)"
    using ok eq dom_handlers [of "removeHandler fd p"] by (auto simp: removeHandler_def Let_def)
  have b: "tp_maxFd (removeHandler fd p) = Max (insert ?i (fst ` set ?m))" "tp_minFd (removeHandler fd p) = Min (insert ?i (fst ` set ?m))"
    using sm_ok_hd_last [OF ok(1)] by (auto simp: removeHandler_def Let_def)
  have "insert ?i (fst ` set ?m) = insert ?i (dom ((handlers p)(fd := None)))"
    using set ok(2,3) by (auto simp: removeHandler_def Let_def)
  then show "handlers_ok (removeHandler fd p)"
    using assms ok(1) b set unfolding handlers_ok_def eq by (auto simp: removeHandler_def Let_def)
qed

end
