(* ===== verification/PoolProps.thy ===== *)
theory PoolProps imports PoolSteps begin

text \<open>
  What holds in every reachable state of a thread pool (\<^verbatim>\<open>src/Ice-3.1.1/src/Ice/ThreadPool.cpp\<close>) whose handlers keep their
  side of the contract, and what happens when one does not.
\<close>

section \<open>The invariant\<close>

lemma select_registry:
  assumes r: "registry_ok p fin unreg" and may: "select_may p ret"
  shows "\<exists>act p'. afterSelect True ret p = Inr (act, p') \<and> registry_ok p' (fin @ finished_by act) unreg \<and> (act = ReturnTrue \<longrightarrow> tp_destroyed p)"
proof (cases ret)
  case SelectError
  then show ?thesis using r by (simp add: afterSelect_def)
next
  case SelectTimeout
  then show ?thesis using r may by (auto simp: afterSelect_def select_may_def registry_ok_def handlers_ok_def handlers_def)
next
  case (SelectReady R)
  have h: "handlers_ok p" using r by (simp add: registry_ok_def)
  have R: "R \<noteq> {}" "R \<subseteq> tp_fdSet p" "tp_fdIntrRead p \<in> R \<Longrightarrow> 0 < tp_pipe p" using may SelectReady by (auto simp: select_may_def)
  show ?thesis
  proof (cases "tp_fdIntrRead p \<in> R")
    case intr: True
    show ?thesis
    proof (cases "tp_destroyed p")
      case True
      then show ?thesis using SelectReady intr r by (simp add: afterSelect_def)
    next
      case False
      then obtain fd c cs where ch: "tp_changes p = (fd, c) # cs" using R(3) [OF intr] r by (cases "tp_changes p") (auto simp: registry_ok_def)
      let ?p = "p\<lparr>tp_pipe := tp_pipe p - 1, tp_changes := cs\<rparr>"
      have fd: "0 \<le> fd" "fd \<noteq> tp_fdIntrRead p" "(handlers p fd = None) = (c \<noteq> None)" "changes_ok ((handlers p)(fd := c)) cs"
        using r by (auto simp: registry_ok_def ch)
      have same: "handlers ?p = handlers p" "handlers_ok ?p" using h by (simp_all add: handlers_def handlers_ok_def)
      have run: "afterSelect True ret p =
          (case c of Some hdl \<Rightarrow> Inr (Continue, addHandler fd hdl ?p)
           | None \<Rightarrow> (case handlers ?p fd of None \<Rightarrow> Inl AssertionFailed | Some hdl \<Rightarrow> Inr (CallFinished hdl, removeHandler fd ?p)))"
        using SelectReady intr False R(3) [OF intr] by (cases c; cases "sm_find fd (tp_handlerMap p)") (simp_all add: afterSelect_def clearInterrupt_def ch handlers_def Let_def)
      show ?thesis
      proof (cases c)
        case (Some hdl)
        have "handlers ?p fd = None" "fd \<noteq> tp_fdIntrRead ?p" using fd same Some by simp_all
        note add = handlers_add [OF same(2) this(1) fd(1) this(2), of hdl]
        have "registry_ok (addHandler fd hdl ?p) fin unreg"
          using r add fd False Some same(1) by (auto simp: registry_ok_def ch addHandler_def split: option.splits)
        then show ?thesis using run Some by simp
      next
        case None
        then obtain hdl where hdl: "handlers ?p fd = Some hdl" using fd(3) same by auto
        note rem = handlers_remove [OF same(2) hdl]
        have "registry_ok (removeHandler fd ?p) (fin @ [hdl]) unreg"
          using r rem fd False None same(1) hdl by (auto simp: registry_ok_def ch removeHandler_def Let_def)
        then show ?thesis using run None hdl by simp
      qed
    qed
  next
    case False
    have fin: "finite (tp_fdSet p)" "tp_minFd p = Min (tp_fdSet p)" "tp_maxFd p = Max (tp_fdSet p)" "\<forall>fd \<in> tp_fdSet p. 0 \<le> fd"
      "tp_fdSet p \<noteq> {}" using h by (auto simp: handlers_ok_def)
    have f: "finite R" "R \<subseteq> {tp_minFd p..tp_maxFd p}" "0 \<le> tp_minFd p" "INVALID_SOCKET \<le> tp_lastFd p"
    proof -
      show "finite R" by (rule finite_subset [OF R(2) fin(1)])
      show "R \<subseteq> {tp_minFd p..tp_maxFd p}" using R(2) fin(1) unfolding fin(2,3) by auto
      show "0 \<le> tp_minFd p" unfolding fin(2) using fin(1,4,5) by simp
      show "INVALID_SOCKET \<le> tp_lastFd p" using h by (simp add: handlers_ok_def)
    qed
    note pick = pickFd_turn [OF f(1) R(1) f(2-4)]
    have t: "turn R (tp_lastFd p) \<in> R" by (rule turn_in [OF f(1) R(1)])
    then have "turn R (tp_lastFd p) \<in> dom (handlers p)" "turn R (tp_lastFd p) \<noteq> tp_fdIntrRead p"
      using False R(2) h by (auto simp: handlers_ok_def)
    then obtain hdl where hdl: "handlers p (turn R (tp_lastFd p)) = Some hdl" "turn R (tp_lastFd p) \<noteq> tp_fdIntrRead p" by auto
    have "afterSelect True ret p = Inr (CallMessage hdl, p\<lparr>tp_lastFd := turn R (tp_lastFd p)\<rparr>)"
      using SelectReady False pick hdl by (auto simp: afterSelect_def handlers_def split: prod.splits)
    moreover have "INVALID_SOCKET \<le> turn R (tp_lastFd p)" using hdl(1) h by (auto simp: handlers_ok_def INVALID_SOCKET_def)
    then have "registry_ok (p\<lparr>tp_lastFd := turn R (tp_lastFd p)\<rparr>) fin unreg"
      using r by (auto simp: registry_ok_def handlers_ok_def handlers_def)
    ultimately show ?thesis by simp
  qed
qed

definition pool_inv :: "('h, 'd) pool_sys \<Rightarrow> bool" where
  "pool_inv w \<longleftrightarrow> crew_ok (ps_pool w) (ps_pc w) \<and> registry_ok (ps_pool w) (ps_finished w) (ps_unregistered w)"

text \<open>The fields that the bookkeeping of handlers is about.\<close>

definition same_registry :: "('h, 't, 'd) pool \<Rightarrow> ('h, 't, 'd) pool \<Rightarrow> bool" where
  "same_registry p p' \<longleftrightarrow> tp_handlerMap p' = tp_handlerMap p \<and> tp_changes p' = tp_changes p \<and> tp_pipe p' = tp_pipe p \<and>
     tp_destroyed p' = tp_destroyed p \<and> tp_fdSet p' = tp_fdSet p \<and> tp_fdIntrRead p' = tp_fdIntrRead p \<and> tp_lastFd p' = tp_lastFd p \<and>
     tp_maxFd p' = tp_maxFd p \<and> tp_minFd p' = tp_minFd p"

lemma same_registry_ok: "same_registry p p' \<Longrightarrow> registry_ok p' fin unreg = registry_ok p fin unreg"
  by (simp add: same_registry_def registry_ok_def handlers_ok_def handlers_def)

lemma crew_ops_registry:
  "same_registry p (becomeLeader p)" "promoteFollower new p = Inr p' \<Longrightarrow> same_registry p p'"
  "afterCall dbl isAlive p = Inr (stay, p') \<Longrightarrow> same_registry p p'" "leaveThread b p = Inr p' \<Longrightarrow> same_registry p p'"
  by (auto simp: same_registry_def becomeLeader_def promoteFollower_def afterCall_def leaveThread_def startThread_def Let_def
      split: if_splits option.splits)

lemma registry_reg:
  assumes "registry_ok p fin unreg" and "\<not> tp_destroyed p" and "registered p fd = None" and "0 \<le> fd" and "fd \<noteq> tp_fdIntrRead p"
  shows "\<exists>p'. pool_register True fd h p = (Inr (), p') \<and> registry_ok p' fin unreg \<and> same_crew p p'"
  using assms
  by (auto simp: pool_register_def setInterrupt_def registry_ok_def handlers_ok_def handlers_def registered_def same_crew_def
      changes_ok_snoc removals_snoc)

lemma registry_unreg:
  assumes "registry_ok p fin unreg" and "\<not> tp_destroyed p" and "registered p fd = Some h"
  shows "\<exists>p'. pool_unregister True fd p = (Inr (), p') \<and> registry_ok p' fin (unreg @ [h]) \<and> same_crew p p'"
proof -
  have "0 \<le> fd \<and> fd \<noteq> tp_fdIntrRead p"
  proof (cases "\<exists>c. (fd, c) \<in> set (tp_changes p)")
    case True
    then show ?thesis using assms(1) by (auto simp: registry_ok_def)
  next
    case False
    have "net_map m cs fd = m fd" if "\<nexists>c. (fd, c) \<in> set cs" for m :: "fd \<rightharpoonup> 'a" and cs
      using that by (induction m cs rule: net_map.induct) auto
    then have "handlers p fd = Some h" using assms(3) False by (simp add: registered_def)
    then show ?thesis using assms(1) by (auto simp: registry_ok_def handlers_ok_def)
  qed
  then show ?thesis
    using assms
    by (auto simp: pool_unregister_def setInterrupt_def registry_ok_def handlers_ok_def handlers_def registered_def same_crew_def
        changes_ok_snoc removals_snoc)
qed

lemma registry_destroy:
  assumes "registry_ok p fin unreg" and "crew_ok p pc" and "\<not> tp_destroyed p" and "tp_handlerMap p = []" and "tp_changes p = []"
  shows "\<exists>p'. pool_destroy True p = (Inr (), p') \<and> registry_ok p' fin unreg \<and> crew_ok p' pc"
  using assms
  by (auto simp: pool_destroy_def setInterrupt_def registry_ok_def handlers_ok_def handlers_def crew_ok_def threads_ok_def
      leader_ok_def sizes_ok_def)

lemma action_pc_crew:
  assumes "crew_ok p pc" and "pc t = Leading" and "act = ReturnTrue \<longrightarrow> tp_destroyed p"
  shows "crew_ok p (pc(t := action_pc act))"
proof (rule crew_move [OF assms(1)])
  show "pc t \<noteq> NotStarted" "pc t \<noteq> Dead" using assms(2) by simp_all
  show "action_pc act \<noteq> NotStarted" "holder (action_pc act) = holder (pc t)" "busy (action_pc act) = busy (pc t)"
    using assms(2) by (cases act; simp)+
  show "tp_destroyed p \<or> working (action_pc act) = working (pc t)" using assms(2,3) by (cases act) simp_all
  show "action_pc act = Leaving True \<longrightarrow> tp_destroyed p" using assms(3) by (cases act) simp_all
qed

lemma pool_step_inv:
  assumes "pool_step d dbl w fo w'" and d and "pool_inv w"
  shows "fo = None \<and> pool_inv w'"
  using assms
proof (induction rule: pool_step.induct)
  case (lead w t)
  then show ?case
    using crew_lead [of "ps_pool w" "ps_pc w" t] same_registry_ok [OF crew_ops_registry(1), of "ps_pool w"]
    by (auto simp: pool_inv_def set_thread_def)
next
  case (select w t ret act p')
  then have "same_crew (ps_pool w) p'" "registry_ok p' (ps_finished w @ finished_by act) (ps_unregistered w)"
      "act = ReturnTrue \<longrightarrow> tp_destroyed (ps_pool w)"
    using afterSelect_crew select_registry [of "ps_pool w" "ps_finished w" "ps_unregistered w" ret] by (auto simp: pool_inv_def)
  then show ?case
    using select action_pc_crew [of "ps_pool w" "ps_pc w" t act] same_crew_ok [of "ps_pool w" p']
    by (simp add: pool_inv_def set_thread_def)
next
  case (select_fails w t ret f)
  then show ?case using select_registry [of "ps_pool w" "ps_finished w" "ps_unregistered w" ret] by (auto simp: pool_inv_def)
next
  case (no_factory w t)
  then show ?case using crew_move [of "ps_pool w" "ps_pc w" t Leading] by (simp add: pool_inv_def set_thread_def)
next
  case (not_read w t h)
  then show ?case using crew_move [of "ps_pool w" "ps_pc w" t Leading] by (simp add: pool_inv_def set_thread_def)
next
  case (promote w t task p')
  then show ?case
    using crew_promote(2) [of "ps_pool w" "ps_pc w" t task p'] same_registry_ok [OF crew_ops_registry(2) [OF promote(2)]]
    by (simp add: pool_inv_def set_thread_def)
next
  case (promote_new w t task n p')
  then show ?case
    using crew_promote(3) [of "ps_pool w" "ps_pc w" t task n p'] same_registry_ok [OF crew_ops_registry(2) [OF promote_new(3)]]
    by (simp add: pool_inv_def set_thread_def)
next
  case (promote_fails w t task new f)
  then show ?case using crew_promote(1) [of "ps_pool w" "ps_pc w" t task new] by (auto simp: pool_inv_def)
next
  case (worked w t stay p')
  then show ?case
    using crew_worked(2) [of "ps_pool w" "ps_pc w" t dbl stay p'] same_registry_ok [OF crew_ops_registry(3) [OF worked(2)]]
    by (simp add: pool_inv_def set_thread_def)
next
  case (worked_fails w t f)
  then show ?case using crew_worked(1) [of "ps_pool w" "ps_pc w" t dbl] by (auto simp: pool_inv_def)
next
  case (escape w t)
  then show ?case by simp
next
  case (leave w t b p')
  then show ?case
    using crew_leave(2) [of "ps_pool w" "ps_pc w" t b p'] same_registry_ok [OF crew_ops_registry(4) [OF leave(2)]]
    by (simp add: pool_inv_def set_thread_def)
next
  case (leave_fails w t b f)
  then show ?case using crew_leave(1) [of "ps_pool w" "ps_pc w" t b] by (auto simp: pool_inv_def)
next
  case (reg w fd h r p')
  then show ?case
    using registry_reg [of "ps_pool w" "ps_finished w" "ps_unregistered w" fd h] same_crew_ok [of "ps_pool w" p']
    by (auto simp: pool_inv_def failed_def)
next
  case (unreg w fd h r p')
  then show ?case
    using registry_unreg [of "ps_pool w" "ps_finished w" "ps_unregistered w" fd h] same_crew_ok [of "ps_pool w" p']
    by (auto simp: pool_inv_def failed_def)
next
  case (destroy w r p')
  then show ?case
    using registry_destroy [of "ps_pool w" "ps_finished w" "ps_unregistered w" "ps_pc w"] by (auto simp: pool_inv_def failed_def)
qed

text \<open>The pool when its constructor has returned.\<close>

lemma pool_sizes_ok: "pool_sizes ps prefix = (sz, szMax, szWarn) \<Longrightarrow> 1 \<le> sz \<and> sz \<le> szMax \<and> szWarn \<le> szMax"
  by (auto simp: pool_sizes_def Let_def split: if_splits)

lemma fold_startThread:
  "fold startThread ts p = p\<lparr>tp_threads := tp_threads p @ ts, tp_running := tp_running p + int (length ts)\<rparr>"
  by (induction ts arbitrary: p) (simp_all add: startThread_def)

lemma startThreads_created:
  "\<forall>i \<in> set is. create i = Some i \<Longrightarrow> startThreads ok create (is @ js) p = startThreads ok create js (fold startThread is p)"
  by (induction "is" arbitrary: p) simp_all

text \<open>The constructor starts the threads it needs, or destroys the pool.\<close>

lemma pool_new_eq:
  assumes "pool_sizes ps prefix = (sz, szMax, szWarn)" and "p = pool_init dbl ps prefix timeout intr"
  shows "pool_new True (\<lambda>i. if i < k then Some i else None) dbl ps prefix timeout intr =
    (if k < nat sz then (False, (fold startThread [0..<k] p)\<lparr>tp_destroyed := True, tp_pipe := 1\<rparr>) else (True, fold startThread [0..<nat sz] p))"
proof -
  let ?create = "\<lambda>i. if i < k then Some i else None"
  have "startThreads True ?create [0..<nat sz] p =
      (if k < nat sz then (False, (fold startThread [0..<k] p)\<lparr>tp_destroyed := True, tp_pipe := 1\<rparr>) else (True, fold startThread [0..<nat sz] p))"
  proof (cases "k < nat sz")
    case True
    then have "[0..<nat sz] = [0..<k] @ k # [Suc k..<nat sz]" by (metis less_imp_le_nat upt_add_eq_append le_add_diff_inverse upt_conv_Cons zero_le)
    moreover have "snd (pool_destroy True (fold startThread [0..<k] p)) = (fold startThread [0..<k] p)\<lparr>tp_destroyed := True, tp_pipe := 1\<rparr>"
      using assms by (simp add: pool_destroy_def setInterrupt_def fold_startThread pool_init_def)
    ultimately show ?thesis using True startThreads_created [of "[0..<k]" ?create True "k # [Suc k..<nat sz]" p] by simp
  next
    case False
    then show ?thesis using startThreads_created [of "[0..<nat sz]" ?create True "[]" p] by simp
  qed
  then show ?thesis using assms by (simp add: pool_new_def)
qed

lemma pool_start_inv:
  assumes "0 \<le> intr"
  shows "pool_inv (pool_start dbl ps prefix timeout intr k :: ('h, 'd) pool_sys)"
proof -
  obtain sz szMax szWarn where s: "pool_sizes ps prefix = (sz, szMax, szWarn)" by (metis prod_cases3)
  note b = pool_sizes_ok [OF s]
  let ?n = "min k (nat sz)"
  let ?pc = "\<lambda>t. if t < ?n then Starting else NotStarted :: 'h thread_pc"
  let ?p = "snd (pool_new True (\<lambda>i. if i < k then Some i else None) dbl ps prefix timeout intr) :: ('h, nat, 'd) pool"
  note new = pool_new_eq [OF s refl, of k dbl timeout intr]
  have c: "count holder ?pc = 0" "count working ?pc = ?n" "count busy ?pc = 0" "count (\<lambda>x. x \<noteq> NotStarted) ?pc = ?n" "few ?pc"
    by (simp_all add: count_def few_def Collect_conv_if if_distrib [of holder] if_distrib [of working] if_distrib [of busy] del: min_less_iff_conj cong: if_cong)
  have "crew_ok ?p ?pc"
    using b c unfolding new by (auto simp: crew_ok_def threads_ok_def leader_ok_def sizes_ok_def fold_startThread pool_init_def s split: if_splits)
  moreover have "registry_ok ?p [] []"
    using assms unfolding new by (auto simp: registry_ok_def handlers_ok_def handlers_def fold_startThread pool_init_def s INVALID_SOCKET_def)
  ultimately show ?thesis by (simp add: pool_inv_def pool_start_def s)
qed

lemma pool_reachable_inv: "pool_reachable d dbl w \<Longrightarrow> d \<Longrightarrow> pool_inv w"
  by (induction rule: pool_reachable.induct) (auto simp: pool_start_inv dest: pool_step_inv)

section \<open>Safety\<close>

text \<open>
  C5: no thread of a pool violates an assertion or throws, whatever the interleaving of its threads, of the answers of
  \<open>select\<close> and of the calls of its users, and however many threads it may have, as long as every handler calls
  \<open>promoteFollower\<close> once and lets no exception but a \<open>LocalException\<close> escape.
\<close>

theorem pool_no_crash:
  assumes "pool_reachable True dbl w" and "pool_step True dbl w fo w'"
  shows "fo = None"
  using pool_step_inv [OF assms(2)] pool_reachable_inv [OF assms(1)] by simp

text \<open>
  C6: one leader.  In every reachable state at most one thread is between its promotion and the promotion of its successor,
  which is what the unlocked access of \<open>run\<close> to the set of descriptors relies on; with more than one thread there is
  such a thread exactly when \<open>_promote\<close> is not set, so that the leadership is never lost.  As long as the pool is not
  destroyed the two counters are exact, and the number of running threads is between \<open>Size\<close> and \<open>SizeMax\<close>.
\<close>

theorem pool_one_leader:
  assumes "pool_reachable True dbl w" and "p = ps_pool w"
  shows "(\<forall>t u. holder (ps_pc w t) \<longrightarrow> holder (ps_pc w u) \<longrightarrow> t = u) \<and>
    (1 < tp_sizeMax p \<longrightarrow> (\<exists>t. holder (ps_pc w t)) = (\<not> tp_promote p)) \<and>
    (\<not> tp_destroyed p \<longrightarrow> tp_running p = int (card {t. working (ps_pc w t)}) \<and> tp_size p \<le> tp_running p \<and> tp_running p \<le> tp_sizeMax p \<and>
       (1 < tp_sizeMax p \<longrightarrow> tp_inUse p = int (card {t. ps_pc w t = Promoted})))"
proof (intro conjI)
  let ?pc = "ps_pc w"
  have c: "crew_ok p ?pc" using pool_reachable_inv [OF assms(1)] assms(2) by (simp add: pool_inv_def)
  note few = crew_few [OF c]
  have "count holder ?pc \<le> 1 \<or> \<not> 1 < tp_sizeMax p" using c by (auto simp: crew_ok_def leader_ok_def split: if_splits)
  moreover have "\<not> 1 < tp_sizeMax p \<Longrightarrow> count (\<lambda>x. x \<noteq> NotStarted) ?pc \<le> 1" using c by (simp add: crew_ok_def leader_ok_def)
  ultimately show "\<forall>t u. holder (?pc t) \<longrightarrow> holder (?pc u) \<longrightarrow> t = u"
    using count_one [OF few, of holder] count_one [OF few, of "\<lambda>x. x \<noteq> NotStarted"] by (metis holder.simps(4))
  show "1 < tp_sizeMax p \<longrightarrow> (\<exists>t. holder (?pc t)) = (\<not> tp_promote p)"
    using c count_0 [OF few, of holder] by (cases "tp_promote p") (auto simp: crew_ok_def leader_ok_def)
  show "\<not> tp_destroyed p \<longrightarrow> tp_running p = int (card {t. working (?pc t)}) \<and> tp_size p \<le> tp_running p \<and> tp_running p \<le> tp_sizeMax p \<and>
       (1 < tp_sizeMax p \<longrightarrow> tp_inUse p = int (card {t. ?pc t = Promoted}))"
    using c by (auto simp: crew_ok_def sizes_ok_def count_def busy_def)
qed

text \<open>
  \<open>finished\<close> is called once for every handler that is unregistered, and in the order in which they are: the handlers
  that have been unregistered are those that have been finished, followed by one for every removal that is still
  pending.  This is what a connection counts on with \<open>_finishedCount\<close>.
\<close>

lemma finished_once:
  assumes "pool_inv w"
  shows "\<exists>owed. ps_unregistered w = ps_finished w @ owed \<and> length owed = length (filter (\<lambda>(fd, c). c = None) (tp_changes (ps_pool w)))"
proof -
  have r: "registry_ok (ps_pool w) (ps_finished w) (ps_unregistered w)" using assms by (simp add: pool_inv_def)
  then have "changes_ok (handlers (ps_pool w)) (tp_changes (ps_pool w))"
    "ps_unregistered w = ps_finished w @ removals (handlers (ps_pool w)) (tp_changes (ps_pool w))" by (simp_all add: registry_ok_def)
  then show ?thesis using length_removals by blast
qed

end
