(* ===== verification/PoolEnds.thy ===== *)
theory PoolEnds imports PoolProps begin

text \<open>
  What a thread pool (\<^verbatim>\<open>src/Ice-3.1.1/src/Ice/ThreadPool.cpp\<close>) can always do: finish the handlers that have been unregistered,
  and end its threads when it has been destroyed.
\<close>

abbreviation pool_steps :: "'d doubles \<Rightarrow> ('h, 'd) pool_sys \<Rightarrow> ('h, 'd) pool_sys \<Rightarrow> bool" where
  "pool_steps dbl \<equiv> (\<lambda>w w'. pool_step True dbl w None w')\<^sup>*\<^sup>*"

section \<open>How far the threads are from their end\<close>

fun weight :: "'h thread_pc \<Rightarrow> nat" where
  "weight NotStarted = 0"
| "weight Dead = 0"
| "weight (Leaving b) = 1"
| "weight Leading = 2"
| "weight Starting = 3"
| "weight Following = 3"
| "weight Promoted = 4"
| "weight (Calling task) = 5"

definition effort :: "(nat \<Rightarrow> 'h thread_pc) \<Rightarrow> nat" where
  "effort pc = (\<Sum>t | pc t \<noteq> NotStarted. weight (pc t))"

lemma effort_upd:
  assumes "few pc" and "pc t \<noteq> NotStarted" and "x \<noteq> NotStarted"
  shows "effort (pc(t := x)) + weight (pc t) = effort pc + weight x"
proof -
  let ?S = "{t. pc t \<noteq> NotStarted}"
  have fin: "finite ?S" "t \<in> ?S" using assms by (auto simp: few_def)
  have "{u. (pc(t := x)) u \<noteq> NotStarted} = ?S" using assms(2,3) by auto
  then have "effort (pc(t := x)) = (\<Sum>u \<in> ?S. weight ((pc(t := x)) u))" by (simp add: effort_def)
  also have "\<dots> = weight x + (\<Sum>u \<in> ?S - {t}. weight ((pc(t := x)) u))" using fin by (simp add: sum.remove)
  also have "(\<Sum>u \<in> ?S - {t}. weight ((pc(t := x)) u)) = (\<Sum>u \<in> ?S - {t}. weight (pc u))" by (rule sum.cong) auto
  finally show ?thesis using fin by (simp add: effort_def sum.remove [of ?S t])
qed

lemma effort_less:
  "few pc \<Longrightarrow> pc t \<noteq> NotStarted \<Longrightarrow> x \<noteq> NotStarted \<Longrightarrow> weight x < weight (pc t) \<Longrightarrow> effort (pc(t := x)) < effort pc"
  using effort_upd [of pc t x] by linarith

section \<open>Steps that can always be taken\<close>

text \<open>A step that brings a thread nearer to its end and leaves the handlers alone.\<close>

definition nearer :: "'d doubles \<Rightarrow> ('h, 'd) pool_sys \<Rightarrow> ('h, 'd) pool_sys \<Rightarrow> bool" where
  "nearer dbl w w' \<longleftrightarrow> pool_step True dbl w None w' \<and> effort (ps_pc w') < effort (ps_pc w) \<and> same_registry (ps_pool w) (ps_pool w') \<and>
     ps_finished w' = ps_finished w \<and> ps_unregistered w' = ps_unregistered w"

lemma same_registry_refl [simp]: "same_registry p p"
  by (simp add: same_registry_def)

lemma nearerI:
  assumes "pool_step True dbl w None (set_thread t x (w\<lparr>ps_pool := p'\<rparr>))" and "pool_inv w" and "ps_pc w t \<noteq> NotStarted"
    and "x \<noteq> NotStarted" and "weight x < weight (ps_pc w t)" and "same_registry (ps_pool w) p'"
  shows "\<exists>w'. nearer dbl w w'"
proof
  have "few (ps_pc w)" using assms(2) crew_few by (auto simp: pool_inv_def)
  then show "nearer dbl w (set_thread t x (w\<lparr>ps_pool := p'\<rparr>))"
    using assms(1,3-6) effort_less [of "ps_pc w" t x] by (simp add: nearer_def set_thread_def)
qed

lemma calling_nearer:
  assumes inv: "pool_inv w" and t: "ps_pc w t = Calling task"
  shows "\<exists>w'. nearer dbl w w'"
proof -
  have c: "crew_ok (ps_pool w) (ps_pc w)" using inv by (simp add: pool_inv_def)
  obtain p' where p': "promoteFollower None (ps_pool w) = Inr p'" using crew_promote(1) [OF c t, of None] by blast
  show ?thesis
    by (rule nearerI [OF pool_step.promote [OF t p'] inv _ _ _ crew_ops_registry(2) [OF p']]) (simp_all add: t)
qed

lemma promoted_nearer:
  assumes inv: "pool_inv w" and t: "ps_pc w t = Promoted"
  shows "\<exists>w'. nearer dbl w w'"
proof -
  have c: "crew_ok (ps_pool w) (ps_pc w)" using inv by (simp add: pool_inv_def)
  obtain stay p' where p': "afterCall dbl (\<lambda>u. ps_pc w u \<noteq> Dead) (ps_pool w) = Inr (stay, p')" using crew_worked(1) [OF c t] by blast
  show ?thesis
    by (rule nearerI [OF pool_step.worked [OF t p'] inv _ _ _ crew_ops_registry(3) [OF p']]) (simp_all add: t)
qed

lemma leaving_nearer:
  assumes inv: "pool_inv w" and t: "ps_pc w t = Leaving b"
  shows "\<exists>w'. nearer dbl w w'"
proof -
  have c: "crew_ok (ps_pool w) (ps_pc w)" using inv by (simp add: pool_inv_def)
  obtain p' where p': "leaveThread b (ps_pool w) = Inr p'" using crew_leave(1) [OF c t] by blast
  show ?thesis
    by (rule nearerI [OF pool_step.leave [OF t p'] inv _ _ _ crew_ops_registry(4) [OF p']]) (simp_all add: t)
qed

text \<open>When no thread leads, a thread that waits may lead.\<close>

lemma waiting_nearer:
  assumes inv: "pool_inv w" and t: "ps_pc w t = Starting \<or> ps_pc w t = Following" and none: "\<forall>u. \<not> holder (ps_pc w u)"
  shows "\<exists>w'. nearer dbl w w'"
proof -
  have c: "crew_ok (ps_pool w) (ps_pc w)" using inv by (simp add: pool_inv_def)
  have l: "\<not> 1 < tp_sizeMax (ps_pool w) \<or> tp_promote (ps_pool w)"
    using c none count_0 [OF crew_few [OF c], of holder] by (auto simp: crew_ok_def leader_ok_def split: if_splits)
  show ?thesis
    by (rule nearerI [OF pool_step.lead [OF t l] inv]) (use t crew_ops_registry(1) [of "ps_pool w"] in auto)
qed

section \<open>Unregistered handlers are finished\<close>

lemma leader_nearer:
  assumes inv: "pool_inv w" and up: "\<not> tp_destroyed (ps_pool w)" and none: "\<forall>t. ps_pc w t \<noteq> Leading"
  shows "\<exists>w'. nearer dbl w w'"
proof -
  have c: "crew_ok (ps_pool w) (ps_pc w)" using inv by (simp add: pool_inv_def)
  then have "0 < int (count working (ps_pc w))" "\<forall>t. ps_pc w t \<noteq> Leaving True" using up by (auto simp: crew_ok_def sizes_ok_def)
  then obtain t where t: "working (ps_pc w t)" using count_0 [OF crew_few [OF c], of working] by auto
  show ?thesis
  proof (cases "\<exists>u task. ps_pc w u = Calling task \<or> ps_pc w u = Promoted")
    case True
    then show ?thesis using calling_nearer [OF inv] promoted_nearer [OF inv] by blast
  next
    case False
    then have "\<not> holder (ps_pc w u)" for u using none \<open>\<forall>t. ps_pc w t \<noteq> Leaving True\<close> by (cases "ps_pc w u") auto
    moreover have "ps_pc w t = Starting \<or> ps_pc w t = Following" using False none t by (cases "ps_pc w t") auto
    ultimately show ?thesis using waiting_nearer [OF inv] by blast
  qed
qed

lemma nearer_inv: "nearer dbl w w' \<Longrightarrow> pool_inv w \<Longrightarrow> pool_inv w'"
  using pool_step_inv [of True dbl w None w'] by (simp add: nearer_def)

lemma leader_comes:
  assumes "pool_inv w" and "\<not> tp_destroyed (ps_pool w)"
  shows "\<exists>w' t. pool_steps dbl w w' \<and> pool_inv w' \<and> ps_pc w' t = Leading \<and> same_registry (ps_pool w) (ps_pool w') \<and>
    ps_finished w' = ps_finished w \<and> ps_unregistered w' = ps_unregistered w"
  using assms
proof (induction "effort (ps_pc w)" arbitrary: w rule: less_induct)
  case less
  show ?case
  proof (cases "\<exists>t. ps_pc w t = Leading")
    case True
    then show ?thesis using less.prems(1) by (metis rtranclp.rtrancl_refl same_registry_refl)
  next
    case False
    then obtain w1 where w1: "nearer dbl w w1" using leader_nearer [OF less.prems] by blast
    have "\<not> tp_destroyed (ps_pool w1)" using w1 less.prems(2) by (simp add: nearer_def same_registry_def)
    then obtain w' t where ih: "pool_steps dbl w1 w'" "pool_inv w'" "ps_pc w' t = Leading" "same_registry (ps_pool w1) (ps_pool w')"
        "ps_finished w' = ps_finished w1" "ps_unregistered w' = ps_unregistered w1"
      using less.hyps [of w1] w1 nearer_inv [OF w1 less.prems(1)] by (auto simp: nearer_def)
    have "pool_steps dbl w w'" using w1 ih(1) by (auto simp: nearer_def intro: converse_rtranclp_into_rtranclp)
    moreover have "same_registry (ps_pool w) (ps_pool w')" using w1 ih(4) by (auto simp: nearer_def same_registry_def)
    ultimately show ?thesis using w1 ih(2,3,5,6) by (auto simp: nearer_def)
  qed
qed

lemma interrupt_taken:
  assumes inv: "pool_inv w" and t: "ps_pc w t = Leading" and up: "\<not> tp_destroyed (ps_pool w)" and ch: "tp_changes (ps_pool w) = c # cs"
  shows "\<exists>w'. pool_step True dbl w None w' \<and> tp_changes (ps_pool w') = cs \<and> \<not> tp_destroyed (ps_pool w') \<and> ps_unregistered w' = ps_unregistered w"
proof -
  let ?p = "ps_pool w" and ?ret = "SelectReady {tp_fdIntrRead (ps_pool w)}"
  have r: "registry_ok ?p (ps_finished w) (ps_unregistered w)" using inv by (simp add: pool_inv_def)
  then have may: "select_may ?p ?ret" by (auto simp: select_may_def registry_ok_def handlers_ok_def ch)
  obtain act p' where s: "afterSelect True ?ret ?p = Inr (act, p')" using select_registry [OF r may] by blast
  then have "tp_changes p' = cs \<and> \<not> tp_destroyed p'"
    using up ch by (cases c) (auto simp: afterSelect_def clearInterrupt_def andThen_eq_Inr addHandler_def removeHandler_def Let_def
        split: if_splits option.splits)
  then show ?thesis
    by (intro exI [of _ "set_thread t (action_pc act) (w\<lparr>ps_pool := p', ps_finished := ps_finished w @ finished_by act\<rparr>)"])
       (use pool_step.select [OF t may s, of True dbl] in \<open>simp add: set_thread_def\<close>)
qed

lemma changes_run_out:
  assumes "pool_inv w" and "\<not> tp_destroyed (ps_pool w)"
  shows "\<exists>w'. pool_steps dbl w w' \<and> tp_changes (ps_pool w') = [] \<and> ps_unregistered w' = ps_unregistered w \<and> ps_finished w' = ps_unregistered w"
  using assms
proof (induction "tp_changes (ps_pool w)" arbitrary: w)
  case Nil
  have "ps_finished w = ps_unregistered w" using Nil by (auto simp: pool_inv_def registry_ok_def simp flip: Nil.hyps)
  then show ?case using Nil.hyps by (intro exI [of _ w]) simp
next
  case (Cons c cs)
  obtain w1 t where w1: "pool_steps dbl w w1" "pool_inv w1" "ps_pc w1 t = Leading" "same_registry (ps_pool w) (ps_pool w1)"
      "ps_unregistered w1 = ps_unregistered w"
    using leader_comes [OF Cons.prems] by blast
  obtain w2 where w2: "pool_step True dbl w1 None w2" "tp_changes (ps_pool w2) = cs" "\<not> tp_destroyed (ps_pool w2)"
      "ps_unregistered w2 = ps_unregistered w1"
    using interrupt_taken [OF w1(2,3), of c cs dbl] w1(4) Cons.hyps(2) Cons.prems(2) by (auto simp: same_registry_def)
  have "pool_inv w2" using pool_step_inv [OF w2(1)] w1(2) by simp
  then obtain w3 where "pool_steps dbl w2 w3" "tp_changes (ps_pool w3) = []" "ps_unregistered w3 = ps_unregistered w2"
      "ps_finished w3 = ps_unregistered w2"
    using Cons.hyps(1) [of w2] w2(2,3) by blast
  moreover have "pool_steps dbl w w2" using w1(1) w2(1) by (rule rtranclp.rtrancl_into_rtrancl)
  ultimately show ?case using w1(5) w2(4) by (metis rtranclp_trans)
qed

text \<open>
  C16: no unregistered handler is forgotten, and none is finished twice.  In every reachable state the handlers that have been
  unregistered are those for which \<open>finished\<close> has been called, in the same order, followed by one for every removal that is
  still pending.  And as long as the pool is not destroyed its own threads can go on, without anybody's help, to a state in
  which no change is pending and \<open>finished\<close> has been called for all of them.  This is what a connection counts on with
  \<open>_finishedCount\<close>.
\<close>

theorem unregistered_are_finished:
  assumes "pool_reachable True dbl w"
  shows "(\<exists>owed. ps_unregistered w = ps_finished w @ owed \<and> length owed = length (filter (\<lambda>(fd, c). c = None) (tp_changes (ps_pool w)))) \<and>
    (\<not> tp_destroyed (ps_pool w) \<longrightarrow> (\<exists>w'. pool_steps dbl w w' \<and> tp_changes (ps_pool w') = [] \<and>
       ps_unregistered w' = ps_unregistered w \<and> ps_finished w' = ps_unregistered w))"
  using finished_once changes_run_out pool_reachable_inv [OF assms] by blast

section \<open>Threads end\<close>

lemma destroyed_nearer:
  assumes inv: "pool_inv w" and down: "tp_destroyed (ps_pool w)" and t: "ps_pc w t \<noteq> NotStarted" "ps_pc w t \<noteq> Dead"
  shows "\<exists>w'. nearer dbl w w'"
proof -
  have c: "crew_ok (ps_pool w) (ps_pc w)" using inv by (simp add: pool_inv_def)
  show ?thesis
  proof (cases "\<exists>u. holder (ps_pc w u)")
    case True
    then obtain u where u: "holder (ps_pc w u)" by blast
    show ?thesis
    proof (cases "ps_pc w u")
      case Leading
      let ?ret = "SelectReady {tp_fdIntrRead (ps_pool w)}"
      have may: "select_may (ps_pool w) ?ret" using inv down by (simp add: select_may_def pool_inv_def registry_ok_def handlers_ok_def)
      have s: "afterSelect True ?ret (ps_pool w) = Inr (ReturnTrue, ps_pool w)" using down by (simp add: afterSelect_def)
      have "pool_step True dbl w None (set_thread u (Leaving True) (w\<lparr>ps_pool := ps_pool w\<rparr>))"
        using pool_step.select [OF Leading may s, of True dbl] by simp
      then show ?thesis by (rule nearerI [OF _ inv]) (simp_all add: Leading)
    qed (use u calling_nearer [OF inv] leaving_nearer [OF inv] in auto)
  next
    case False
    have "ps_pc w t \<noteq> Leading" "\<And>task. ps_pc w t \<noteq> Calling task" using False by (metis holder.simps(1), metis holder.simps(2))
    then show ?thesis
      using t waiting_nearer [OF inv, of t] promoted_nearer [OF inv, of t] leaving_nearer [OF inv, of t] False by (cases "ps_pc w t") auto
  qed
qed

lemma threads_run_out:
  assumes "pool_inv w" and "tp_destroyed (ps_pool w)"
  shows "\<exists>w'. pool_steps dbl w w' \<and> (\<forall>t. ps_pc w' t = NotStarted \<or> ps_pc w' t = Dead)"
  using assms
proof (induction "effort (ps_pc w)" arbitrary: w rule: less_induct)
  case less
  show ?case
  proof (cases "\<forall>t. ps_pc w t = NotStarted \<or> ps_pc w t = Dead")
    case False
    then obtain w1 where w1: "nearer dbl w w1" using destroyed_nearer [OF less.prems] by blast
    then obtain w' where "pool_steps dbl w1 w'" "\<forall>t. ps_pc w' t = NotStarted \<or> ps_pc w' t = Dead"
      using less.hyps [of w1] nearer_inv [OF w1 less.prems(1)] less.prems(2) by (auto simp: nearer_def same_registry_def)
    then show ?thesis using w1 by (auto simp: nearer_def intro: converse_rtranclp_into_rtranclp)
  qed blast
qed

text \<open>
  C29: a destroyed pool can be joined.  From every reachable state of a pool that has been destroyed, its threads can all come
  to their end: the byte that \<open>destroy\<close> leaves in the pipe wakes one leader after the other.  This includes the pool that its
  own constructor destroys because it cannot start a thread.
\<close>

theorem destroyed_pool_ends:
  assumes "pool_reachable True dbl w" and "tp_destroyed (ps_pool w)"
  shows "\<exists>w'. pool_steps dbl w w' \<and> (\<forall>t. ps_pc w' t = NotStarted \<or> ps_pc w' t = Dead)"
  using threads_run_out [OF pool_reachable_inv [OF assms(1)] assms(2)] by simp

end
