(* ===== verification/PoolSample.thy ===== *)
theory PoolSample imports Complex_Main PoolEnds begin

text \<open>
  Runs of a pool with three threads (\<^verbatim>\<open>src/Ice-3.1.1/src/Ice/ThreadPool.cpp\<close>), among them those in which a handler lets an
  exception escape.
\<close>

section \<open>A pool of three threads\<close>

text \<open>Its state, with at most one handler, registered for the descriptor 7, and the pipe at 3.\<close>

definition sample :: "'d doubles \<Rightarrow> (fd \<times> nat option) list \<Rightarrow> (fd, nat) smap \<Rightarrow> fd \<Rightarrow> int \<Rightarrow> bool \<Rightarrow> bool \<Rightarrow> nat list
    \<Rightarrow> nat thread_pc list \<Rightarrow> (nat, 'd) pool_sys" where
  "sample dbl changes hm lastFd inUse promote destroyed unreg pcs =
     \<lparr>ps_pool =
        \<lparr>tp_destroyed = destroyed, tp_maxFd = (if hm = [] then 3 else 7), tp_minFd = 3, tp_lastFd = lastFd, tp_fdIntrRead = 3,
         tp_fdSet = insert 3 (fst ` set hm), tp_pipe = length changes + (if destroyed then 1 else 0), tp_changes = changes,
         tp_handlerMap = hm, tp_timeout = 0, tp_size = 3, tp_sizeMax = 3, tp_sizeWarn = 2, tp_threads = [0, 1, 2], tp_running = 3,
         tp_inUse = inUse, tp_load = dbl_of dbl 1, tp_promote = promote\<rparr>,
      ps_pc = (\<lambda>t. if t < 3 then pcs ! t else NotStarted), ps_finished = [], ps_unregistered = unreg\<rparr>"

lemma sample_thread [simp]:
  assumes "t < 3" and "length pcs = 3"
  shows "set_thread t x (sample dbl changes hm lastFd inUse promote destroyed unreg pcs) =
    sample dbl changes hm lastFd inUse promote destroyed unreg (pcs[t := x])"
  using assms by (auto simp: sample_def set_thread_def fun_eq_iff nth_list_update)

lemma sample_pc [simp]: "t < 3 \<Longrightarrow> ps_pc (sample dbl changes hm lastFd inUse promote destroyed unreg pcs) t = pcs ! t"
  by (simp add: sample_def)

lemma sample_start: "pool_reachable d dbl (sample dbl [] [] (-1) 0 True False [] [Starting, Starting, Starting])"
proof -
  have s: "pool_sizes [(''P.Size'', ''3'')] ''P'' = (3, 3, 2)" by code_simp
  have n: "[0..<3] = [0, 1, 2 :: nat]" by (simp add: upt_rec)
  have eq: "pool_start dbl [(''P.Size'', ''3'')] ''P'' 0 3 3 = sample dbl [] [] (-1) 0 True False [] [Starting, Starting, Starting]"
    unfolding pool_start_def pool_new_eq [OF s refl]
    by (auto simp: s pool_init_def startThread_def sample_def INVALID_SOCKET_def n fun_eq_iff nth_Cons' numeral_eq_Suc less_Suc_eq)
  show ?thesis by (subst eq [symmetric], rule pool_init) simp
qed

lemma sample_lead:
  assumes "pool_reachable d dbl (sample dbl changes hm lastFd inUse True destroyed unreg pcs)" and "t < 3" and "length pcs = 3"
    and "pcs ! t = Starting \<or> pcs ! t = Following"
  shows "pool_reachable d dbl (sample dbl changes hm lastFd inUse False destroyed unreg (pcs[t := Leading]))"
proof -
  let ?w = "sample dbl changes hm lastFd inUse True destroyed unreg pcs"
  have "pool_step d dbl ?w None (set_thread t Leading
      (?w\<lparr>ps_pool := if 1 < tp_sizeMax (ps_pool ?w) then becomeLeader (ps_pool ?w) else ps_pool ?w\<rparr>))"
    using assms(2,4) by (intro pool_step.lead) (simp_all add: sample_def)
  moreover have "?w\<lparr>ps_pool := if 1 < tp_sizeMax (ps_pool ?w) then becomeLeader (ps_pool ?w) else ps_pool ?w\<rparr> =
      sample dbl changes hm lastFd inUse False destroyed unreg pcs" by (simp add: sample_def becomeLeader_def)
  ultimately show ?thesis using pool_next [OF assms(1)] assms(2,3) by simp
qed

lemma sample_register:
  assumes "pool_reachable d dbl (sample dbl [] [] (-1) 0 promote False unreg pcs)"
  shows "pool_reachable d dbl (sample dbl [(7, Some 42)] [] (-1) 0 promote False unreg pcs)"
proof -
  let ?w = "sample dbl [] [] (-1) 0 promote False unreg pcs"
  have "pool_step d dbl ?w (failed (fst (pool_register True 7 42 (ps_pool ?w)))) (?w\<lparr>ps_pool := snd (pool_register True 7 42 (ps_pool ?w))\<rparr>)"
    by (rule pool_step.reg) (simp_all add: sample_def registered_def handlers_def)
  moreover have "?w\<lparr>ps_pool := snd (pool_register True 7 42 (ps_pool ?w))\<rparr> = sample dbl [(7, Some 42)] [] (-1) 0 promote False unreg pcs"
    by (simp add: sample_def pool_register_def setInterrupt_def)
  ultimately show ?thesis using pool_next [OF assms] by simp
qed

lemma sample_added:
  assumes "pool_reachable d dbl (sample dbl [(7, Some 42)] [] (-1) 0 False False unreg pcs)" and "t < 3" and "length pcs = 3" and "pcs ! t = Leading"
  shows "pool_reachable d dbl (sample dbl [] [(7, 42)] (-1) 0 False False unreg pcs)"
proof -
  let ?w = "sample dbl [(7, Some 42)] [] (-1) 0 False False unreg pcs"
  let ?v = "sample dbl [] [(7, 42)] (-1) 0 False False unreg pcs"
  have s: "afterSelect True (SelectReady {3}) (ps_pool ?w) = Inr (Continue, ps_pool ?v)"
    by (simp add: afterSelect_def sample_def clearInterrupt_def addHandler_def insert_commute)
  have "pool_step d dbl ?w None (set_thread t (action_pc Continue) (?w\<lparr>ps_pool := ps_pool ?v, ps_finished := ps_finished ?w @ finished_by Continue\<rparr>))"
    using assms(2,4) by (intro pool_step.select [OF _ _ s]) (simp_all add: select_may_def sample_def)
  moreover have "?w\<lparr>ps_pool := ps_pool ?v, ps_finished := ps_finished ?w @ finished_by Continue\<rparr> = ?v" by (simp add: sample_def)
  moreover have "pcs[t := Leading] = pcs" using assms(4) by (metis list_update_id)
  ultimately show ?thesis using pool_next [OF assms(1)] assms(2,3) by simp
qed

text \<open>The first thread is in a handler and has promoted a follower.\<close>

lemma sample_promoted: "pool_reachable d dbl (sample dbl [] [(7, 42)] 7 1 True False [] [Promoted, Starting, Starting])"
proof -
  let ?w = "sample dbl [] [(7, 42)] (-1) 0 False False [] [Leading, Starting, Starting]"
  let ?v = "sample dbl [] [(7, 42)] 7 0 False False [] [Calling (TaskMessage 42), Starting, Starting]"
  let ?u = "sample dbl [] [(7, 42)] 7 1 True False [] [Promoted, Starting, Starting]"
  have 1: "pool_reachable d dbl ?w"
    using sample_added [OF sample_register, of d dbl "[]" "[Leading, Starting, Starting]" 0] sample_lead [OF sample_start, of 0 d dbl] by simp
  have "pickFd {7} 3 7 (-1) = (7, 0)" by code_simp
  then have s: "afterSelect True (SelectReady {7}) (ps_pool ?w) = Inr (CallMessage 42, ps_pool ?v)"
    by (simp add: afterSelect_def sample_def)
  have "pool_step d dbl ?w None (set_thread 0 (action_pc (CallMessage 42))
      (?w\<lparr>ps_pool := ps_pool ?v, ps_finished := ps_finished ?w @ finished_by (CallMessage 42)\<rparr>))"
    by (intro pool_step.select [OF _ _ s]) (simp_all add: select_may_def sample_def)
  moreover have "?w\<lparr>ps_pool := ps_pool ?v, ps_finished := ps_finished ?w @ finished_by (CallMessage 42)\<rparr> =
      sample dbl [] [(7, 42)] 7 0 False False [] [Leading, Starting, Starting]" by (simp add: sample_def)
  ultimately have 2: "pool_reachable d dbl ?v" using pool_next [OF 1] by simp
  have "promoteFollower None (ps_pool ?v) = Inr (ps_pool ?u)" by (simp add: promoteFollower_def sample_def)
  then have "pool_step d dbl ?v None (set_thread 0 Promoted (?v\<lparr>ps_pool := ps_pool ?u\<rparr>))"
    by (intro pool_step.promote [where task = "TaskMessage 42"]) simp_all
  moreover have "?v\<lparr>ps_pool := ps_pool ?u\<rparr> = sample dbl [] [(7, 42)] 7 1 True False [] [Calling (TaskMessage 42), Starting, Starting]"
    by (simp add: sample_def)
  ultimately show ?thesis using pool_next [OF 2] by simp
qed

section \<open>The theorems at work\<close>

text \<open>The state in which the handler has been unregistered but not yet finished, and the destroyed pool.\<close>

lemma sample_unregistered: "pool_reachable d dbl (sample dbl [(7, None)] [(7, 42)] 7 1 True False [42] [Promoted, Starting, Starting])"
proof -
  let ?w = "sample dbl [] [(7, 42)] 7 1 True False [] [Promoted, Starting, Starting]"
  have "pool_step d dbl ?w (failed (fst (pool_unregister True 7 (ps_pool ?w))))
      (?w\<lparr>ps_pool := snd (pool_unregister True 7 (ps_pool ?w)), ps_unregistered := ps_unregistered ?w @ [42]\<rparr>)"
    by (rule pool_step.unreg) (simp_all add: sample_def registered_def handlers_def)
  moreover have "?w\<lparr>ps_pool := snd (pool_unregister True 7 (ps_pool ?w)), ps_unregistered := ps_unregistered ?w @ [42]\<rparr> =
      sample dbl [(7, None)] [(7, 42)] 7 1 True False [42] [Promoted, Starting, Starting]"
    by (simp add: sample_def pool_unregister_def setInterrupt_def)
  ultimately show ?thesis using pool_next [OF sample_promoted] by simp
qed

lemma sample_destroyed: "pool_reachable d dbl (sample dbl [] [] (-1) 0 True True [] [Starting, Starting, Starting])"
proof -
  let ?w = "sample dbl [] [] (-1) 0 True False [] [Starting, Starting, Starting]"
  have "pool_step d dbl ?w (failed (fst (pool_destroy True (ps_pool ?w)))) (?w\<lparr>ps_pool := snd (pool_destroy True (ps_pool ?w))\<rparr>)"
    by (rule pool_step.destroy) (simp_all add: sample_def)
  moreover have "?w\<lparr>ps_pool := snd (pool_destroy True (ps_pool ?w))\<rparr> = sample dbl [] [] (-1) 0 True True [] [Starting, Starting, Starting]"
    by (simp add: sample_def pool_destroy_def setInterrupt_def)
  ultimately show ?thesis using pool_next [OF sample_start] by simp
qed

text \<open>A pool with exact arithmetic.\<close>

definition rat_doubles :: "rat doubles" where
  "rat_doubles = \<lparr>dbl_less = (\<lambda>l n. l < of_int n), dbl_of = of_int, dbl_decay = (\<lambda>l n. l * (19 / 20) + of_int n / 20), dbl_round = (\<lambda>l. \<lfloor>l + 1 / 2\<rfloor>)\<rparr>"

theorem pool_no_crash_witness:
  "(let w = sample rat_doubles [] [(7, 42)] 7 1 True False [] [Promoted, Starting, Starting]
    in \<exists>r p'. pool_unregister True 7 (ps_pool w) = (r, p') \<and> failed r = None)"
proof -
  let ?w = "sample rat_doubles [] [(7, 42)] 7 1 True False [] [Promoted, Starting, Starting]"
  obtain r p' where u: "pool_unregister True 7 (ps_pool ?w) = (r, p')" by (meson surj_pair)
  have "pool_step True rat_doubles ?w (failed r) (?w\<lparr>ps_pool := p', ps_unregistered := ps_unregistered ?w @ [42]\<rparr>)"
    by (rule pool_step.unreg [OF _ _ u]) (simp_all add: sample_def registered_def handlers_def)
  from pool_no_crash [OF sample_promoted this] u show ?thesis by simp
qed

theorem pool_one_leader_witness:
  "tp_inUse (ps_pool (sample rat_doubles [] [(7, 42)] 7 1 True False [] [Promoted, Starting, Starting])) =
     int (card {t. ps_pc (sample rat_doubles [] [(7, 42)] 7 1 True False [] [Promoted, Starting, Starting]) t = Promoted})"
proof -
  let ?w = "sample rat_doubles [] [(7, 42)] 7 1 True False [] [Promoted, Starting, Starting]"
  have "\<not> tp_destroyed (ps_pool ?w)" "1 < tp_sizeMax (ps_pool ?w)" by (simp_all add: sample_def)
  then show ?thesis using pool_one_leader [OF sample_promoted refl, of rat_doubles] by blast
qed

theorem unregistered_are_finished_witness:
  "\<exists>w'. pool_steps rat_doubles (sample rat_doubles [(7, None)] [(7, 42)] 7 1 True False [42] [Promoted, Starting, Starting]) w' \<and>
     tp_changes (ps_pool w') = [] \<and> ps_finished w' = [42]"
proof -
  let ?w = "sample rat_doubles [(7, None)] [(7, 42)] 7 1 True False [42] [Promoted, Starting, Starting]"
  have "\<not> tp_destroyed (ps_pool ?w)" "ps_unregistered ?w = [42]" by (simp_all add: sample_def)
  then show ?thesis using unregistered_are_finished [OF sample_unregistered, of rat_doubles] by auto
qed

theorem destroyed_pool_ends_witness:
  "\<exists>w'. pool_steps rat_doubles (sample rat_doubles [] [] (-1) 0 True True [] [Starting, Starting, Starting]) w' \<and>
     (\<forall>t. ps_pc w' t = NotStarted \<or> ps_pc w' t = Dead)"
proof -
  have "tp_destroyed (ps_pool (sample rat_doubles [] [] (-1) 0 True True [] [Starting, Starting, Starting]))" by (simp add: sample_def)
  then show ?thesis by (rule destroyed_pool_ends [OF sample_destroyed])
qed

section \<open>Exceptions that escape\<close>

text \<open>
  C27: let a handler that has promoted a follower let an exception escape which \<open>run\<close> does not catch, such
  as the \<open>ThreadLockedException\<close> of a connection that locks its own monitor, in any reachable state of a
  pool.  The thread leaves \<open>run\<close>.  With at most one thread in the pool nothing else happens.  With more,
  the end of the thread promotes a follower once more: when the first one has not taken over yet, that
  violates an assertion, and the thread can end in no other way; when it has, a waiting thread is
  promoted while another thread leads, and takes the lead as well.
\<close>

theorem escaped_exception_two_leaders:
  fixes w :: "('h, 'd) pool_sys"
  assumes "pool_reachable False dbl w" and "ps_pc w t = Promoted"
  shows "let w1 = set_thread t (Leaving True) w; p = ps_pool w
    in pool_step False dbl w None w1 \<and> pool_reachable False dbl w1 \<and> ps_pc w1 t = Leaving True \<and>
      (\<not> 1 < tp_sizeMax p \<longrightarrow> leaveThread True p = Inr p) \<and>
      (1 < tp_sizeMax p \<and> tp_promote p \<longrightarrow>
         leaveThread True p = Inl AssertionFailed \<and> pool_step False dbl w1 (Some AssertionFailed) (set_thread t Dead w1)) \<and>
      (1 < tp_sizeMax p \<and> \<not> tp_promote p \<longrightarrow>
         leaveThread True p = Inr (p\<lparr>tp_promote := True\<rparr>) \<and>
         (\<forall>u v. ps_pc w u = Leading \<and> (ps_pc w v = Starting \<or> ps_pc w v = Following) \<longrightarrow>
            (\<exists>w2 w3. pool_step False dbl w1 None w2 \<and> ps_pool w2 = p\<lparr>tp_promote := True\<rparr> \<and>
               pool_step False dbl w2 None w3 \<and> pool_reachable False dbl w3 \<and>
               u \<noteq> v \<and> ps_pc w3 u = Leading \<and> ps_pc w3 v = Leading)))"
proof -
  let ?w1 = "set_thread t (Leaving True) w" and ?p = "ps_pool w"
  have e: "pool_step False dbl w None ?w1" using assms(2) by (intro pool_step.escape) simp_all
  note r1 = pool_next [OF assms(1) e]
  have pc: "ps_pc ?w1 t = Leaving True" and same: "ps_pool ?w1 = ?p" by (simp_all add: set_thread_def)
  have bad: "pool_step False dbl ?w1 (Some AssertionFailed) (set_thread t Dead ?w1)" if "leaveThread True ?p = Inl AssertionFailed"
    using pool_step.leave_fails [OF pc, of AssertionFailed False dbl] that same by simp
  have two: "\<exists>w2 w3. pool_step False dbl ?w1 None w2 \<and> ps_pool w2 = ?p\<lparr>tp_promote := True\<rparr> \<and>
        pool_step False dbl w2 None w3 \<and> pool_reachable False dbl w3 \<and> u \<noteq> v \<and> ps_pc w3 u = Leading \<and> ps_pc w3 v = Leading"
    if l: "leaveThread True ?p = Inr (?p\<lparr>tp_promote := True\<rparr>)" and u: "ps_pc w u = Leading"
      and v: "ps_pc w v = Starting \<or> ps_pc w v = Following" for u v
  proof -
    let ?w2 = "set_thread t Dead (?w1\<lparr>ps_pool := ?p\<lparr>tp_promote := True\<rparr>\<rparr>)"
    let ?w3 = "set_thread v Leading (?w2\<lparr>ps_pool := if 1 < tp_sizeMax (ps_pool ?w2) then becomeLeader (ps_pool ?w2) else ps_pool ?w2\<rparr>)"
    have ne: "u \<noteq> v" "u \<noteq> t" "v \<noteq> t" using u v assms(2) by auto
    have 2: "pool_step False dbl ?w1 None ?w2" using pool_step.leave [OF pc] l same by simp
    have "ps_pc ?w2 v = Starting \<or> ps_pc ?w2 v = Following" and "tp_promote (ps_pool ?w2)"
      using v ne by (simp_all add: set_thread_def)
    then have 3: "pool_step False dbl ?w2 None ?w3" by (intro pool_step.lead) simp_all
    have "ps_pc ?w3 u = Leading" "ps_pc ?w3 v = Leading" using u ne by (simp_all add: set_thread_def)
    moreover have "ps_pool ?w2 = ?p\<lparr>tp_promote := True\<rparr>" by (simp add: set_thread_def)
    ultimately show ?thesis using 2 3 pool_next [OF pool_next [OF r1 2] 3] ne by blast
  qed
  show ?thesis unfolding Let_def using e r1 pc bad two by (auto simp: leaveThread_def)
qed

theorem escaped_exception_two_leaders_witness:
  "\<exists>w t u. pool_reachable False rat_doubles (w :: (nat, rat) pool_sys) \<and> t \<noteq> u \<and> ps_pc w t = Leading \<and> ps_pc w u = Leading"
proof -
  let ?w = "sample rat_doubles [] [(7, 42)] 7 1 False False [] [Promoted, Leading, Starting]"
  have r: "pool_reachable False rat_doubles ?w" using sample_lead [OF sample_promoted, of 1 False rat_doubles] by simp
  have "ps_pc ?w 0 = Promoted" "ps_pc ?w 1 = Leading" "ps_pc ?w 2 = Starting" "1 < tp_sizeMax (ps_pool ?w)" "\<not> tp_promote (ps_pool ?w)"
    by (simp_all add: sample_def)
  then show ?thesis using escaped_exception_two_leaders [OF r, of 0] unfolding Let_def by blast
qed

end
