(* ===== verification/ClassGraph.thy ===== *)
theory ClassGraph imports StreamEncaps StdMap begin

text \<open>
  Class instances on the stream (\<^verbatim>\<open>src/Ice-3.1.1/src/Ice/BasicStream.cpp\<close>): every object of a graph is written once, under an
  index, and a pointer to it is written as the negated index.  The reader creates the objects and patches the pointers when
  it knows where they point to.  The code that the Slice compiler generates for a class is given by the data members of its
  slices: it writes and reads them one after the other, and ends with the slice of \<open>Ice::Object\<close>
  (\<^verbatim>\<open>src/Ice-3.1.1/src/Ice/Object.cpp\<close>).  The marshaling of data members that are no pointers, and the factories of
  classes, are parameters.
\<close>

section \<open>Objects\<close>

definition object_id :: string where "object_id = ''::Ice::Object''"

text \<open>
  A data member holds a value, of a type \<open>'k\<close>, or a pointer to a class.  An object has a class, named by its most derived
  type id, and per slice a type id and the data members.  In memory, pointers are addresses \<open>'o\<close>.
\<close>

datatype 'k field = Plain 'k | Pointer string

datatype ('k, 'v, 'o) slot = Value 'k 'v | Ref string "'o option"

type_synonym ('k, 'v, 'o) instance_of = "string \<times> (string \<times> ('k, 'v, 'o) slot list) list"

fun field_of :: "('k, 'v, 'o) slot \<Rightarrow> 'k field" where
  "field_of (Value k x) = Plain k"
| "field_of (Ref t p) = Pointer t"

text \<open>
  What is generated or registered for classes: the members' operations, the layout of a class, whether a class is derived
  from another, the factories of the application, by the type id they are registered for and the one they are asked for,
  and the static factories.
\<close>

record ('k, 'v) class_env =
  ce_write :: "'k \<Rightarrow> 'v \<Rightarrow> writer"
  ce_read :: "'k \<Rightarrow> 'v reader"
  ce_layout :: "string \<Rightarrow> (string \<times> 'k field list) list"
  ce_isA :: "string \<Rightarrow> string \<Rightarrow> bool"
  ce_user :: "string \<Rightarrow> string \<Rightarrow> string option"
  ce_static :: "string \<Rightarrow> string option"
  ce_slice :: bool                                 \<comment> \<open>\<open>_sliceObjects\<close>\<close>

section \<open>Writing\<close>

text \<open>
  The maps of the current encapsulation, \<open>False\<close> in \<open>wg_live\<close> as long as they are not allocated.  A \<open>std::map\<close> of pointers is
  in the order of the addresses.
\<close>

record 'o write_graph =
  wg_live :: bool
  wg_writeIndex :: ice_int
  wg_toBeMarshaled :: "('o, ice_int) smap"
  wg_marshaled :: "('o, ice_int) smap"

type_synonym 'o write_state = "stream \<times> 'o write_graph"
type_synonym 'o graph_writer = "'o write_state \<Rightarrow> failure + 'o write_state"

definition write_graph_new :: "'o write_graph" where
  "write_graph_new = \<lparr>wg_live = False, wg_writeIndex = 0, wg_toBeMarshaled = [], wg_marshaled = []\<rparr>"

definition onStream :: "writer \<Rightarrow> 'o graph_writer" where
  "onStream wr st = andThen (wr (fst st)) (\<lambda>s. Inr (s, snd st))"

text \<open>The lazy initialization of the encapsulation and its maps.\<close>

definition beginWrite :: "'o write_state \<Rightarrow> 'o write_state" where
  "beginWrite st =
     (let s = fst st; g = snd st;
          encs = (case writeEncapsStack s of
                    [] \<Rightarrow> [\<lparr>we_start = length (buf s), we_typeIdMap = None, we_typeIdIndex = 0\<rparr>]
                  | encs \<Rightarrow> encs)
      in if wg_live g then (s\<lparr>writeEncapsStack := encs\<rparr>, g)
         else (s\<lparr>writeEncapsStack := (hd encs)\<lparr>we_typeIdMap := Some []\<rparr> # tl encs\<rparr>,
               g\<lparr>wg_live := True, wg_toBeMarshaled := [], wg_marshaled := []\<rparr>))"

text \<open>The index of an object, a new one if it has none.\<close>

definition indexOf :: "'o::linorder \<Rightarrow> 'o write_graph \<Rightarrow> ice_int \<times> 'o write_graph" where
  "indexOf p g =
     (case sm_find p (wg_toBeMarshaled g) of
        Some i \<Rightarrow> (i, g)
      | None \<Rightarrow>
          (case sm_find p (wg_marshaled g) of
             Some i \<Rightarrow> (i, g)
           | None \<Rightarrow>
               let i = wg_writeIndex g + 1
               in (i, g\<lparr>wg_writeIndex := i, wg_toBeMarshaled := sm_insert p i (wg_toBeMarshaled g)\<rparr>)))"

definition write_ObjectPtr :: "bool \<Rightarrow> 'o::linorder option \<Rightarrow> 'o graph_writer" where
  "write_ObjectPtr big v st =
     (case beginWrite st of (s, g) \<Rightarrow>
        (case v of
           None \<Rightarrow> onStream (write_Int big 0) (s, g)
         | Some p \<Rightarrow> (case indexOf p g of (i, g') \<Rightarrow> onStream (write_Int big (- i)) (s, g'))))"

text \<open>The generated \<open>__write\<close>.\<close>

fun writeMembers :: "bool \<Rightarrow> ('k, 'v) class_env \<Rightarrow> ('k, 'v, 'o::linorder) slot list \<Rightarrow> 'o graph_writer" where
  "writeMembers big env [] st = Inr st"
| "writeMembers big env (Value k x # slots) st = andThen (onStream (ce_write env k x) st) (writeMembers big env slots)"
| "writeMembers big env (Ref t p # slots) st = andThen (write_ObjectPtr big p st) (writeMembers big env slots)"

definition object_write :: "bool \<Rightarrow> writer" where
  "object_write big s =
     andThen (writeTypeId big object_id s) (\<lambda>s1. andThen (startWriteSlice big s1) (\<lambda>s2.
     andThen (writeSize big 0 s2) (endWriteSlice big)))"

fun writeSlices :: "bool \<Rightarrow> ('k, 'v) class_env \<Rightarrow> (string \<times> ('k, 'v, 'o::linorder) slot list) list \<Rightarrow> 'o graph_writer" where
  "writeSlices big env [] st = onStream (object_write big) st"
| "writeSlices big env ((tid, slots) # slices) st =
     andThen (onStream (writeTypeId big tid) st) (\<lambda>st1. andThen (onStream (startWriteSlice big) st1) (\<lambda>st2.
     andThen (writeMembers big env slots st2) (\<lambda>st3. andThen (onStream (endWriteSlice big) st3) (writeSlices big env slices))))"

text \<open>\<open>heap\<close> gives the object at an address when it is written, after its \<open>ice_preMarshal\<close>.\<close>

definition writeInstance ::
  "bool \<Rightarrow> ('k, 'v) class_env \<Rightarrow> ('o::linorder \<Rightarrow> ('k, 'v, 'o) instance_of) \<Rightarrow> 'o \<Rightarrow> ice_int \<Rightarrow> 'o graph_writer" where
  "writeInstance big env heap p i st = andThen (onStream (write_Int big i) st) (writeSlices big env (snd (heap p)))"

fun writePass ::
  "bool \<Rightarrow> ('k, 'v) class_env \<Rightarrow> ('o::linorder \<Rightarrow> ('k, 'v, 'o) instance_of) \<Rightarrow> ('o, ice_int) smap \<Rightarrow> 'o graph_writer" where
  "writePass big env heap [] st = Inr st"
| "writePass big env heap ((p, i) # saved) (s, g) =
     andThen (writeInstance big env heap p i (s, g\<lparr>wg_marshaled := sm_insert p i (wg_marshaled g)\<rparr>)) (writePass big env heap saved)"

definition set_difference :: "('o, ice_int) smap \<Rightarrow> ('o, ice_int) smap \<Rightarrow> ('o, ice_int) smap" where
  "set_difference m m' = filter (\<lambda>x. x \<notin> set m') m"

partial_function (option) writeLoop ::
  "bool \<Rightarrow> ('k, 'v) class_env \<Rightarrow> ('o::linorder \<Rightarrow> ('k, 'v, 'o) instance_of) \<Rightarrow> 'o write_state \<Rightarrow> (failure + 'o write_state) option" where
  "writeLoop big env heap st =
     (let saved = wg_toBeMarshaled (snd st)
      in if saved = [] then Some (Inr st)
         else case andThen (onStream (writeSize big (word_of_nat (length saved))) st) (writePass big env heap saved) of
                Inl f \<Rightarrow> Some (Inl f)
              | Inr (s, g) \<Rightarrow>
                  writeLoop big env heap (s, g\<lparr>wg_toBeMarshaled := set_difference (wg_toBeMarshaled g) saved\<rparr>))"

definition writePendingObjects ::
  "bool \<Rightarrow> ('k, 'v) class_env \<Rightarrow> ('o::linorder \<Rightarrow> ('k, 'v, 'o) instance_of) \<Rightarrow> 'o write_state \<Rightarrow> (failure + 'o write_state) option" where
  "writePendingObjects big env heap st =
     (case (if writeEncapsStack (fst st) \<noteq> [] \<and> wg_live (snd st) then writeLoop big env heap st else Some (Inr st)) of
        None \<Rightarrow> None
      | Some r \<Rightarrow> Some (andThen r (onStream (writeSize big 0))))"

text \<open>A user exception; \<open>body\<close> is its generated \<open>__write\<close>.\<close>

definition write_UserException ::
  "bool \<Rightarrow> ('k, 'v) class_env \<Rightarrow> ('o::linorder \<Rightarrow> ('k, 'v, 'o) instance_of) \<Rightarrow> bool \<Rightarrow> 'o graph_writer \<Rightarrow> 'o write_state
     \<Rightarrow> (failure + 'o write_state) option" where
  "write_UserException big env heap usesClasses body st =
     (case andThen (onStream (write_bool usesClasses) st) body of
        Inl f \<Rightarrow> Some (Inl f)
      | Inr st' \<Rightarrow> if usesClasses then writePendingObjects big env heap st' else Some (Inr st'))"

section \<open>Reading\<close>

text \<open>
  Where a pointer is: among the parameters, or in a member of a new object, given by its object, slice and position.
  Objects are numbered in the order of their creation, which is also the order of \<open>_objectList\<close>; \<open>rg_told\<close> are those whose
  \<open>ice_postUnmarshal\<close> has been called.
\<close>

datatype patch_addr = Root nat | Member nat nat nat

record 'v read_graph =
  rg_live :: bool
  rg_patchMap :: "(ice_int, (string \<times> patch_addr) list) smap"
  rg_unmarshaled :: "(ice_int, nat) smap"
  rg_classes :: "string list"
  rg_refs :: "patch_addr \<Rightarrow> nat option"
  rg_values :: "patch_addr \<Rightarrow> 'v option"
  rg_told :: "nat list"

type_synonym 'v read_state = "stream \<times> 'v read_graph"
type_synonym 'v graph_reader = "'v read_state \<Rightarrow> failure + 'v read_state"

definition read_graph_new :: "'v read_graph" where
  "read_graph_new =
     \<lparr>rg_live = False, rg_patchMap = [], rg_unmarshaled = [], rg_classes = [], rg_refs = (\<lambda>_. None), rg_values = (\<lambda>_. None), rg_told = []\<rparr>"

definition beginRead :: "'v read_state \<Rightarrow> 'v read_state" where
  "beginRead st =
     (let s = fst st; g = snd st;
          encs = (case readEncapsStack s of
                    [] \<Rightarrow> [\<lparr>re_start = 0, re_sz = 0, re_typeIdMap = None, re_typeIdIndex = 0\<rparr>]
                  | encs \<Rightarrow> encs)
      in if rg_live g then (s\<lparr>readEncapsStack := encs\<rparr>, g)
         else (s\<lparr>readEncapsStack := (hd encs)\<lparr>re_typeIdMap := Some []\<rparr> # tl encs\<rparr>,
               g\<lparr>rg_live := True, rg_patchMap := [], rg_unmarshaled := []\<rparr>))"

text \<open>
  The generated patch function for a declared type.  When the object is not of that type, the code stores a null pointer
  before it throws; here the exception takes the place of the graph, which nobody uses after it.
\<close>

definition patch :: "('k, 'v) class_env \<Rightarrow> nat \<Rightarrow> string \<times> patch_addr \<Rightarrow> 'v read_graph \<Rightarrow> failure + 'v read_graph" where
  "patch env n entry g =
     (case entry of (t, a) \<Rightarrow>
        if ce_isA env (rg_classes g ! n) t then Inr (g\<lparr>rg_refs := (rg_refs g)(a := Some n)\<rparr>)
        else throw (NoObjectFactoryException [] t))"

fun patchAll :: "('k, 'v) class_env \<Rightarrow> nat \<Rightarrow> (string \<times> patch_addr) list \<Rightarrow> 'v read_graph \<Rightarrow> failure + 'v read_graph" where
  "patchAll env n [] g = Inr g"
| "patchAll env n (entry # entries) g = andThen (patch env n entry g) (patchAll env n entries)"

definition patchPointers :: "('k, 'v) class_env \<Rightarrow> ice_int \<Rightarrow> 'v read_graph \<Rightarrow> failure + 'v read_graph" where
  "patchPointers env index g =
     (case sm_find index (rg_patchMap g) of
        None \<Rightarrow> Inr g
      | Some entries \<Rightarrow>
          (case sm_find index (rg_unmarshaled g) of
             None \<Rightarrow> Inr g
           | Some n \<Rightarrow>
               if entries = [] then Inl AssertionFailed
               else andThen (patchAll env n entries g) (\<lambda>g'. Inr (g'\<lparr>rg_patchMap := sm_erase index (rg_patchMap g')\<rparr>))))"

text \<open>Adding a patch entry, which creates the list of the index if there is none.\<close>

definition addPatch :: "ice_int \<Rightarrow> string \<times> patch_addr \<Rightarrow> 'v read_graph \<Rightarrow> 'v read_graph" where
  "addPatch index entry g =
     (case sm_find index (rg_patchMap g) of
        None \<Rightarrow> g\<lparr>rg_patchMap := sm_insert index [entry] (rg_patchMap g)\<rparr>
      | Some entries \<Rightarrow> g\<lparr>rg_patchMap := sm_update index (entries @ [entry]) (rg_patchMap g)\<rparr>)"

text \<open>The search for a factory, and slicing down to a type id that has one.\<close>

definition createObject :: "('k, 'v) class_env \<Rightarrow> string \<Rightarrow> string option" where
  "createObject env tid =
     (case ce_user env tid tid of
        Some c \<Rightarrow> Some c
      | None \<Rightarrow> (case ce_user env [] tid of Some c \<Rightarrow> Some c | None \<Rightarrow> ce_static env tid))"

lemma readTypeId_moves:
  assumes "readTypeId big s = Inr (tid, s')"
  shows "buf s' = buf s" and "rpos s < rpos s'" and "rpos s < int (length (buf s))"
proof -
  obtain b where b: "read_bool s = Inr (b, skip s 1)" "rpos s < int (length (buf s))"
    using assms by (auto simp: readTypeId_def rbind_def andThen_eq_Inr read_bool_def skip_def split: if_splits)
  have "\<exists>n. buf s' = buf s \<and> rpos s' = rpos s + 1 + int n"
  proof (cases b)
    case True
    then have "case readSize big (skip s 1) of Inl _ \<Rightarrow> False | Inr (i, s1) \<Rightarrow> s' = s1"
      using assms b(1)
      by (cases "readSize big (skip s 1)") (auto simp: readTypeId_def rbind_def split: list.splits option.splits)
    then show ?thesis using readSize_moves [of big "skip s 1"] by (fastforce split: sum.splits)
  next
    case False
    then have "case read_string big None False (skip s 1) of Inl _ \<Rightarrow> False | Inr (t, s1) \<Rightarrow> buf s' = buf s1 \<and> rpos s' = rpos s1"
      using assms b(1)
      by (cases "read_string big None False (skip s 1)") (auto simp: readTypeId_def rbind_def Let_def split: list.splits option.splits)
    then show ?thesis using read_string_moves [of big False "skip s 1"] by (fastforce split: sum.splits)
  qed
  then show "buf s' = buf s" "rpos s < rpos s'" by auto
  show "rpos s < int (length (buf s))" by (rule b(2))
qed

function findClass :: "bool \<Rightarrow> ('k, 'v) class_env \<Rightarrow> string \<Rightarrow> string \<Rightarrow> string reader" where
  "findClass big env mostDerivedId tid s =
     (if tid = object_id then
        throw (NoObjectFactoryException ''class sliced to ::Ice::Object, which is abstract'' mostDerivedId)
      else case createObject env tid of
             Some c \<Rightarrow> Inr (c, s)
           | None \<Rightarrow>
               if ce_slice env then
                 andThen (skipSlice big s) (\<lambda>s1. andThen (readTypeId big s1) (\<lambda>(tid', s2). findClass big env mostDerivedId tid' s2))
               else throw (NoObjectFactoryException [] tid))"
  by pat_completeness auto

lemma slicing_consumes:
  assumes "skipSlice big s = Inr s1" and "readTypeId big s1 = Inr (tid, s2)"
  shows "nat (int (length (buf s2)) - rpos s2) < nat (int (length (buf s)) - rpos s)"
proof -
  obtain n where "s1 = skip s n" using skipSlice_moves [OF assms(1)] by blast
  then show ?thesis using readTypeId_moves [OF assms(2)] by auto
qed

termination findClass
  by (relation "measure (\<lambda>(big, env, mostDerivedId, tid, s). nat (int (length (buf s)) - rpos s))") (auto dest: slicing_consumes)

declare findClass.simps [simp del]

text \<open>
  Members or parameters, which are at the addresses \<open>a k\<close> and following; \<open>rd\<close> reads a pointer.
\<close>

fun readMembers ::
  "('k, 'v) class_env \<Rightarrow> ((string \<times> patch_addr) option \<Rightarrow> 'v graph_reader) \<Rightarrow> (nat \<Rightarrow> patch_addr) \<Rightarrow> nat \<Rightarrow> 'k field list \<Rightarrow> 'v graph_reader" where
  "readMembers env rd a k [] st = Inr st"
| "readMembers env rd a k (Plain ty # members) (s, g) =
     andThen (ce_read env ty s) (\<lambda>(x, s').
       readMembers env rd a (Suc k) members (s', g\<lparr>rg_values := (rg_values g)(a k := Some x)\<rparr>))"
| "readMembers env rd a k (Pointer t # members) st =
     andThen (rd (Some (t, a k)) st) (readMembers env rd a (Suc k) members)"

text \<open>The generated \<open>__read\<close> of object \<open>n\<close>; \<open>rid\<close> is whether the type id of the slice is still to be read.\<close>

definition skipTypeId :: "bool \<Rightarrow> bool \<Rightarrow> writer" where
  "skipTypeId big rid s = (if rid then andThen (readTypeId big s) (\<lambda>(_, s'). Inr s') else Inr s)"

definition object_read :: "bool \<Rightarrow> bool \<Rightarrow> writer" where
  "object_read big rid s =
     andThen (skipTypeId big rid s) (\<lambda>s1. andThen (startReadSlice big s1) (\<lambda>s2.
     andThen (readSize big s2) (\<lambda>(sz, s3). if sz \<noteq> 0 then throw MarshalException else endReadSlice s3)))"

definition onBuffer :: "writer \<Rightarrow> 'v graph_reader" where
  "onBuffer rd st = andThen (rd (fst st)) (\<lambda>s. Inr (s, snd st))"

fun readSlices ::
  "bool \<Rightarrow> ('k, 'v) class_env \<Rightarrow> ((string \<times> patch_addr) option \<Rightarrow> 'v graph_reader) \<Rightarrow> bool \<Rightarrow> nat \<Rightarrow> nat
     \<Rightarrow> (string \<times> 'k field list) list \<Rightarrow> 'v graph_reader" where
  "readSlices big env rd rid n j [] st = onBuffer (object_read big rid) st"
| "readSlices big env rd rid n j ((tid, members) # slices) st =
     andThen (onBuffer (skipTypeId big rid) st) (\<lambda>st1. andThen (onBuffer (startReadSlice big) st1) (\<lambda>st2.
     andThen (readMembers env rd (Member n j) 0 members st2) (\<lambda>st3. andThen (onBuffer endReadSlice st3)
       (readSlices big env rd True n (Suc j) slices))))"

text \<open>
  \<open>read(PatchFunc, void*)\<close>; the target is \<open>None\<close> for the null pointers that \<open>readPendingObjects\<close> passes.  A positive index is
  followed by the object, also where a pointer is expected, so that the calls nest; \<open>d\<close> is the number of nested calls
  for which the stack of the thread has room.
\<close>

primrec read_ObjectPtr ::
  "nat \<Rightarrow> bool \<Rightarrow> ('k, 'v) class_env \<Rightarrow> (string \<times> patch_addr) option \<Rightarrow> 'v graph_reader" where
  "read_ObjectPtr 0 big env target st = Inl MemoryFault"
| "read_ObjectPtr (Suc d) big env target st =
     (case beginRead st of (s, g) \<Rightarrow>
        andThen (read_Int big s) (\<lambda>(index, s1).
          if index = 0 then
            (case target of
               None \<Rightarrow> Inl MemoryFault
             | Some (t, a) \<Rightarrow> Inr (s1, g\<lparr>rg_refs := (rg_refs g)(a := None)\<rparr>))
          else if sint index < 0 \<and> target \<noteq> None then
            andThen (patchPointers env (- index) (addPatch (- index) (the target) g)) (\<lambda>g'. Inr (s1, g'))
          else if \<not> 0 < sint index then Inl AssertionFailed
          else
            andThen (readTypeId big s1) (\<lambda>(mostDerivedId, s2).
            andThen (findClass big env mostDerivedId mostDerivedId s2) (\<lambda>(c, s3).
              let n = length (rg_classes g);
                  g1 = g\<lparr>rg_classes := rg_classes g @ [c], rg_unmarshaled := sm_insert index n (rg_unmarshaled g)\<rparr>
              in andThen (readSlices big env (read_ObjectPtr d big env) False n 0 (ce_layout env c) (s3, g1)) (\<lambda>(s4, g4).
                 andThen (patchPointers env index g4) (\<lambda>g5. Inr (s4, g5)))))))"

primrec readInstances :: "nat \<Rightarrow> bool \<Rightarrow> ('k, 'v) class_env \<Rightarrow> nat \<Rightarrow> 'v graph_reader" where
  "readInstances d big env 0 st = Inr st"
| "readInstances d big env (Suc k) st = andThen (read_ObjectPtr d big env None st) (readInstances d big env k)"

partial_function (option) readLoop ::
  "nat \<Rightarrow> bool \<Rightarrow> ('k, 'v) class_env \<Rightarrow> 'v read_state \<Rightarrow> (failure + 'v read_state) option" where
  "readLoop d big env st =
     (case readSize big (fst st) of
        Inl f \<Rightarrow> Some (Inl f)
      | Inr (num, s1) \<Rightarrow>
          (case readInstances d big env (nat (sint num)) (s1, snd st) of
             Inl f \<Rightarrow> Some (Inl f)
           | Inr st2 \<Rightarrow> if num \<noteq> 0 then readLoop d big env st2 else Some (Inr st2)))"

text \<open>The objects are told at the end; what \<open>ice_postUnmarshal\<close> throws is ignored.\<close>

definition readPendingObjects ::
  "nat \<Rightarrow> bool \<Rightarrow> ('k, 'v) class_env \<Rightarrow> 'v read_state \<Rightarrow> (failure + 'v read_state) option" where
  "readPendingObjects d big env st =
     map_option (\<lambda>r. andThen r (\<lambda>(s, g). Inr (s, g\<lparr>rg_told := rg_told g @ [0..<length (rg_classes g)]\<rparr>))) (readLoop d big env st)"

end
