(* ===== verification/ClassWrite.thy ===== *)
theory ClassWrite imports ClassGraph begin

text \<open>
  What writing a graph of objects puts into the stream: the bytes as a function of the graph, of the numbers the objects are
  given, and of the order in which they come; and that it ends.
\<close>

section \<open>Type ids on the wire\<close>

text \<open>The map of type ids in the order of insertion, last first, is the only state of the encoding.\<close>

fun numbered :: "(string \<times> ice_int) list \<Rightarrow> bool" where
  "numbered [] \<longleftrightarrow> True"
| "numbered ((tid, i) # m) \<longleftrightarrow> i = word_of_nat (Suc (length m)) \<and> map_of m tid = None \<and> numbered m"

definition tid_next :: "(string \<times> ice_int) list \<Rightarrow> string \<Rightarrow> (string \<times> ice_int) list" where
  "tid_next m tid = (if map_of m tid = None then (tid, word_of_nat (Suc (length m))) # m else m)"

definition tid_bytes :: "(string \<times> ice_int) list \<Rightarrow> string \<Rightarrow> byte list" where
  "tid_bytes m tid = (case map_of m tid of Some i \<Rightarrow> 1 # size_bytes i | None \<Rightarrow> 0 # string_bytes tid)"

lemma numbered_next [simp]: "numbered m \<Longrightarrow> numbered (tid_next m tid)"
  by (simp add: tid_next_def)

definition wtop :: "stream \<Rightarrow> (string \<times> ice_int) list \<Rightarrow> bool" where
  "wtop s m \<longleftrightarrow> numbered m \<and> (\<exists>e es. writeEncapsStack s = e # es \<and> we_typeIdMap e = Some m \<and> we_typeIdIndex e = word_of_nat (length m))"

lemma wtop_buf [simp]: "wtop (s\<lparr>buf := bs\<rparr>) m = wtop s m" "wtop (s\<lparr>writeSlice := n\<rparr>) m = wtop s m"
  by (simp_all add: wtop_def)

lemma write_bool_eq: "write_bool v s = Inr (s\<lparr>buf := buf s @ [if v then 1 else 0]\<rparr>)"
  by (simp add: write_bool_def)

lemma writeSize_Inr: "writeSize big v s = Inr s' \<Longrightarrow> 0 \<le> sint v \<and> s' = s\<lparr>buf := buf s @ size_bytes v\<rparr>"
  by (cases "sint v < 0") (simp add: writeSize_def, auto simp: writeSize_eq split: if_splits)

lemma write_Int_Inr: "write_Int big v s = Inr s' \<Longrightarrow> s' = s\<lparr>buf := buf s @ le_bytes v\<rparr>"
  by (auto simp: write_Int_eq appendBytes_Inr split: if_splits)

lemma writeTypeId_Inr:
  assumes "wtop s m" and "writeTypeId big tid s = Inr s'" and "length tid < 2147483648"
  shows "wtop s' (tid_next m tid)" "buf s' = buf s @ tid_bytes m tid"
    "map_of m tid = Some i \<Longrightarrow> 0 \<le> sint i"
proof -
  obtain e es where e: "writeEncapsStack s = e # es" "we_typeIdMap e = Some m" "we_typeIdIndex e = word_of_nat (length m)"
    using assms(1) by (auto simp: wtop_def)
  have n: "numbered m" using assms(1) by (simp add: wtop_def)
  have "wtop s' (tid_next m tid) \<and> buf s' = buf s @ tid_bytes m tid \<and> (map_of m tid = Some i \<longrightarrow> 0 \<le> sint i)"
  proof (cases "map_of m tid")
    case None
    define s1 where "s1 = s\<lparr>writeEncapsStack := e\<lparr>we_typeIdIndex := we_typeIdIndex e + 1, we_typeIdMap := Some (tid_next m tid)\<rparr> # es,
        buf := buf s @ [0]\<rparr>"
    have "write_string big None False tid s1 = Inr s'"
      using assms(2) e None by (simp add: writeTypeId_def Let_def write_bool_eq s1_def map_insert_def tid_next_def add.commute)
    then have "s' = s1\<lparr>buf := buf s1 @ string_bytes tid\<rparr>" by (rule string_codec.write_appends [OF assms(3)])
    then show ?thesis using None n e by (simp add: s1_def wtop_def tid_bytes_def tid_next_def add.commute)
  next
    case (Some j)
    then have "writeSize big j (s\<lparr>buf := buf s @ [1]\<rparr>) = Inr s'"
      using assms(2) e by (simp add: writeTypeId_def write_bool_eq)
    from writeSize_Inr [OF this] show ?thesis using Some n e by (auto simp: wtop_def tid_bytes_def tid_next_def)
  qed
  then show "wtop s' (tid_next m tid)" "buf s' = buf s @ tid_bytes m tid" "map_of m tid = Some i \<Longrightarrow> 0 \<le> sint i" by auto
qed

section \<open>The bytes of a graph\<close>

definition ref_bytes :: "('o \<Rightarrow> nat) \<Rightarrow> 'o option \<Rightarrow> byte list" where
  "ref_bytes num p = le_bytes (case p of None \<Rightarrow> 0 :: ice_int | Some v \<Rightarrow> - word_of_nat (num v))"

fun member_bytes :: "('k \<Rightarrow> 'v \<Rightarrow> byte list) \<Rightarrow> ('o \<Rightarrow> nat) \<Rightarrow> ('k, 'v, 'o) slot \<Rightarrow> byte list" where
  "member_bytes enc num (Value k x) = enc k x"
| "member_bytes enc num (Ref t p) = ref_bytes num p"

definition body_bytes :: "('k \<Rightarrow> 'v \<Rightarrow> byte list) \<Rightarrow> ('o \<Rightarrow> nat) \<Rightarrow> ('k, 'v, 'o) slot list \<Rightarrow> byte list" where
  "body_bytes enc num slots = concat (map (member_bytes enc num) slots)"

fun tids_next :: "(string \<times> ice_int) list \<Rightarrow> (string \<times> 'a) list \<Rightarrow> (string \<times> ice_int) list" where
  "tids_next m [] = tid_next m object_id"
| "tids_next m ((tid, _) # slices) = tids_next (tid_next m tid) slices"

fun slices_bytes ::
  "('k \<Rightarrow> 'v \<Rightarrow> byte list) \<Rightarrow> ('o \<Rightarrow> nat) \<Rightarrow> (string \<times> ice_int) list \<Rightarrow> (string \<times> ('k, 'v, 'o) slot list) list \<Rightarrow> byte list" where
  "slices_bytes enc num m [] = tid_bytes m object_id @ slice_bytes [0]"
| "slices_bytes enc num m ((tid, slots) # slices) =
     tid_bytes m tid @ slice_bytes (body_bytes enc num slots) @ slices_bytes enc num (tid_next m tid) slices"

fun objects_bytes where
  "objects_bytes enc num heap m [] = []"
| "objects_bytes enc num heap m (p # ps) =
     le_bytes (word_of_nat (num p) :: ice_int) @ slices_bytes enc num m (snd (heap p)) @
     objects_bytes enc num heap (tids_next m (snd (heap p))) ps"

definition objects_next :: "('o \<Rightarrow> ('k, 'v, 'o) instance_of) \<Rightarrow> (string \<times> ice_int) list \<Rightarrow> 'o list \<Rightarrow> (string \<times> ice_int) list" where
  "objects_next heap m ps = fold (\<lambda>p m. tids_next m (snd (heap p))) ps m"

fun rounds_bytes where
  "rounds_bytes enc num heap m [] = []"
| "rounds_bytes enc num heap m (ps # rounds) =
     size_bytes (word_of_nat (length ps)) @ objects_bytes enc num heap m ps @ rounds_bytes enc num heap (objects_next heap m ps) rounds"

lemma numbered_tids [simp]: "numbered m \<Longrightarrow> numbered (tids_next m slices)"
  by (induction m slices rule: tids_next.induct) simp_all

lemma numbered_objects [simp]: "numbered m \<Longrightarrow> numbered (objects_next heap m ps)"
  by (induction ps arbitrary: m) (simp_all add: objects_next_def)

section \<open>Well-formed graphs\<close>

text \<open>What generated code gives: slices with type ids, members whose values can be marshaled.\<close>

definition slots_ok :: "('k \<Rightarrow> 'v \<Rightarrow> bool) \<Rightarrow> ('k, 'v, 'o) slot list \<Rightarrow> bool" where
  "slots_ok valid slots \<longleftrightarrow> (\<forall>k x. Value k x \<in> set slots \<longrightarrow> valid k x)"

definition slices_ok :: "('k \<Rightarrow> 'v \<Rightarrow> bool) \<Rightarrow> (string \<times> ('k, 'v, 'o) slot list) list \<Rightarrow> bool" where
  "slices_ok valid slices \<longleftrightarrow> (\<forall>(tid, slots) \<in> set slices. length tid < 2147483648 \<and> slots_ok valid slots)"

text \<open>The objects that a list of members or of slices points to.\<close>

definition targets :: "('k, 'v, 'o) slot list \<Rightarrow> 'o set" where
  "targets slots = {v. \<exists>t. Ref t (Some v) \<in> set slots}"

definition pointers :: "(string \<times> ('k, 'v, 'o) slot list) list \<Rightarrow> 'o set" where
  "pointers slices = (\<Union>(tid, slots) \<in> set slices. targets slots)"

lemma targets_simps [simp]:
  "targets [] = {}" "targets (Value k x # slots) = targets slots" "targets (Ref t p # slots) = set_option p \<union> targets slots"
  by (auto simp: targets_def)

lemma pointers_simps [simp]: "pointers [] = {}" "pointers ((tid, slots) # slices) = targets slots \<union> pointers slices"
  by (auto simp: pointers_def)

section \<open>Numbers of objects\<close>

abbreviation toBe :: "'o write_graph \<Rightarrow> 'o set" where
  "toBe g \<equiv> fst ` set (wg_toBeMarshaled g)"

abbreviation marshaled :: "'o write_graph \<Rightarrow> 'o set" where
  "marshaled g \<equiv> fst ` set (wg_marshaled g)"

definition items :: "'o write_graph \<Rightarrow> ('o \<times> ice_int) set" where
  "items g = set (wg_toBeMarshaled g) \<union> set (wg_marshaled g)"

definition named :: "('o \<Rightarrow> nat) \<Rightarrow> 'o write_graph \<Rightarrow> bool" where
  "named num g \<longleftrightarrow> (\<forall>(p, i) \<in> items g. i = word_of_nat (num p))"

definition known :: "'o write_graph \<Rightarrow> 'o set" where
  "known g = fst ` items g"

definition numbers_ok :: "'o::linorder write_graph \<Rightarrow> bool" where
  "numbers_ok g \<longleftrightarrow> sm_ok (wg_toBeMarshaled g) \<and> sm_ok (wg_marshaled g) \<and> wg_writeIndex g = word_of_nat (card (known g)) \<and>
     (\<exists>num. named num g \<and> bij_betw num (known g) {1..card (known g)})"

definition writing :: "(string \<times> ice_int) list \<Rightarrow> 'o::linorder write_state \<Rightarrow> bool" where
  "writing m st \<longleftrightarrow> wtop (fst st) m \<and> wg_live (snd st) \<and> numbers_ok (snd st)"

text \<open>How the maps and the stream develop.\<close>

definition grows :: "'o write_state \<Rightarrow> 'o write_state \<Rightarrow> bool" where
  "grows st st' \<longleftrightarrow>
     set (wg_toBeMarshaled (snd st)) \<subseteq> set (wg_toBeMarshaled (snd st')) \<and> toBe (snd st') \<subseteq> toBe (snd st) \<union> - marshaled (snd st) \<and>
     marshaled (snd st) \<subseteq> marshaled (snd st') \<and> items (snd st) \<subseteq> items (snd st') \<and>
     card (known (snd st')) + length (buf (fst st)) \<le> card (known (snd st)) + length (buf (fst st'))"

lemma grows_refl [simp]: "grows st st"
  by (auto simp: grows_def)

lemma growsD:
  assumes "grows st st'"
  shows "set (wg_toBeMarshaled (snd st)) \<subseteq> set (wg_toBeMarshaled (snd st'))" "toBe (snd st') \<subseteq> toBe (snd st) \<union> - marshaled (snd st)"
    "marshaled (snd st) \<subseteq> marshaled (snd st')" "items (snd st) \<subseteq> items (snd st')"
    "card (known (snd st')) + length (buf (fst st)) \<le> card (known (snd st)) + length (buf (fst st'))"
  using assms by (simp_all add: grows_def)

lemma grows_trans:
  assumes "grows st st1" and "grows st1 st2"
  shows "grows st st2"
proof -
  note a = growsD [OF assms(1)] and b = growsD [OF assms(2)]
  have "toBe (snd st2) \<subseteq> toBe (snd st) \<union> - marshaled (snd st)" using a(2,3) b(2) by blast
  then show ?thesis unfolding grows_def using a(5) b(5) order_trans [OF a(1) b(1)] order_trans [OF a(3) b(3)] order_trans [OF a(4) b(4)] by simp
qed

lemma named_sub: "named num g' \<Longrightarrow> items g \<subseteq> items g' \<Longrightarrow> named num g"
  by (auto simp: named_def)

lemma grows_named: "named num (snd st') \<Longrightarrow> grows st st' \<Longrightarrow> named num (snd st)"
  by (rule named_sub [OF _ growsD(4)])

lemma finite_items [simp]: "finite (items g)" "finite (known g)"
  by (simp_all add: items_def known_def)

lemma known_alt: "known g = toBe g \<union> marshaled g"
  by (auto simp: known_def items_def)

lemma grows_stream: "length (buf s) \<le> length (buf s') \<Longrightarrow> grows (s, g) (s', g)"
  by (auto simp: grows_def)

lemma begin_live: "writing m (s, g) \<Longrightarrow> beginWrite (s, g) = (s, g)"
  by (auto simp: writing_def wtop_def beginWrite_def)

lemma sm_insert_bounds: "set (sm_insert k v m) \<subseteq> insert (k, v) (set m) \<and> set m \<subseteq> set (sm_insert k v m)"
  by (induction k v m rule: sm_insert.induct) auto

lemma set_sm_insert: "sm_ok m \<Longrightarrow> sm_find k m = None \<Longrightarrow> set (sm_insert k v m) = insert (k, v) (set m)"
  by (induction k v m rule: sm_insert.induct) (auto split: if_splits)

text \<open>A pointer is written as its number, and a new object gets the next one.\<close>

lemma indexOf_spec:
  fixes g :: "'o::linorder write_graph"
  assumes "numbers_ok g" and "indexOf p g = (i, g')"
  shows "numbers_ok g'" "p \<in> known g'" "known g' = insert p (known g)" "named num g' \<Longrightarrow> i = word_of_nat (num p)"
    "set (wg_toBeMarshaled g) \<subseteq> set (wg_toBeMarshaled g')" "toBe g' \<subseteq> toBe g \<union> - marshaled g" "marshaled g' = marshaled g"
    "items g \<subseteq> items g'" "wg_live g' = wg_live g" "wg_marshaled g' = wg_marshaled g"
proof -
  have all: "numbers_ok g' \<and> p \<in> known g' \<and> known g' = insert p (known g) \<and> (\<forall>num. named num g' \<longrightarrow> i = word_of_nat (num p)) \<and>
      set (wg_toBeMarshaled g) \<subseteq> set (wg_toBeMarshaled g') \<and> toBe g' \<subseteq> toBe g \<union> - marshaled g \<and> wg_marshaled g' = wg_marshaled g \<and>
      items g \<subseteq> items g' \<and> wg_live g' = wg_live g"
  proof (cases "p \<in> known g")
    case True
    have "sm_find p (wg_toBeMarshaled g) = Some j \<Longrightarrow> (p, j) \<in> items g" "sm_find p (wg_marshaled g) = Some j \<Longrightarrow> (p, j) \<in> items g" for j
      by (auto simp: items_def sm_find_map_of dest: map_of_SomeD)
    moreover have "\<not> (sm_find p (wg_toBeMarshaled g) = None \<and> sm_find p (wg_marshaled g) = None)"
      using True by (auto simp: sm_find_None known_alt)
    ultimately have "g' = g \<and> (p, i) \<in> items g" using assms(2) by (auto simp: indexOf_def split: option.splits)
    then show ?thesis using assms(1) True by (auto simp: named_def)
  next
    case False
    then have none: "sm_find p (wg_toBeMarshaled g) = None" "sm_find p (wg_marshaled g) = None" by (auto simp: sm_find_None known_alt)
    then have g': "i = wg_writeIndex g + 1" "g' = g\<lparr>wg_writeIndex := i, wg_toBeMarshaled := sm_insert p i (wg_toBeMarshaled g)\<rparr>"
      using assms(2) by (auto simp: indexOf_def Let_def)
    have ok: "sm_ok (wg_toBeMarshaled g)" using assms(1) by (simp add: numbers_ok_def)
    have items: "items g' = insert (p, i) (items g)" using g'(2) by (auto simp: items_def set_sm_insert [OF ok none(1)])
    then have known: "known g' = insert p (known g)" by (simp add: known_def)
    then have card: "card (known g') = Suc (card (known g))" using False by simp
    obtain num where num: "named num g" "bij_betw num (known g) {1..card (known g)}" using assms(1) by (auto simp: numbers_ok_def)
    let ?num = "num(p := Suc (card (known g)))"
    have "bij_betw ?num (known g) {1..card (known g)}" using num(2) False by (subst bij_betw_cong [of _ _ num]) auto
    then have "bij_betw ?num (insert p (known g)) ({1..card (known g)} \<union> {?num p})" using notIn_Un_bij_betw [OF False, of ?num "{1..card (known g)}"] by simp
    then have b: "bij_betw ?num (known g') {1..card (known g')}" unfolding known card [unfolded known] by (simp add: atLeastAtMostSuc_conv insert_commute)
    have i: "i = word_of_nat (Suc (card (known g)))" using g'(1) assms(1) by (simp add: numbers_ok_def add.commute)
    have "fst x \<noteq> p" if "x \<in> items g" for x using False that by (auto simp: known_def)
    have name: "\<forall>num. named num g' \<longrightarrow> i = word_of_nat (num p)" using items by (auto simp: named_def)
    have "named ?num g'" using \<open>\<And>x. x \<in> items g \<Longrightarrow> fst x \<noteq> p\<close> num(1) i items by (fastforce simp: named_def)
    moreover have "wg_writeIndex g' = word_of_nat (card (known g'))" using i g'(2) card by simp
    ultimately have "numbers_ok g'"
      using b g'(2) assms(1) by (auto simp: numbers_ok_def)
    moreover have "set (wg_toBeMarshaled g') = insert (p, i) (set (wg_toBeMarshaled g))" "wg_marshaled g' = wg_marshaled g" "wg_live g' = wg_live g"
      using g'(2) set_sm_insert [OF ok none(1), of i] by simp_all
    moreover have "p \<notin> marshaled g" using False by (simp add: known_alt)
    ultimately show ?thesis using name known items by simp blast
  qed
  then show "numbers_ok g'" "p \<in> known g'" "known g' = insert p (known g)" "named num g' \<Longrightarrow> i = word_of_nat (num p)"
    "set (wg_toBeMarshaled g) \<subseteq> set (wg_toBeMarshaled g')" "toBe g' \<subseteq> toBe g \<union> - marshaled g" "marshaled g' = marshaled g"
    "items g \<subseteq> items g'" "wg_live g' = wg_live g" "wg_marshaled g' = wg_marshaled g" by auto
qed

lemma write_ObjectPtr_Inr:
  assumes "writing m (s, g)" and "write_ObjectPtr big v (s, g) = Inr (s', g')"
  shows "writing m (s', g')" "grows (s, g) (s', g')" "known g' = known g \<union> set_option v" "wg_marshaled g' = wg_marshaled g"
    "\<exists>bs. s' = s\<lparr>buf := buf s @ bs\<rparr>" "named num g' \<Longrightarrow> buf s' = buf s @ ref_bytes num v"
proof -
  have live: "beginWrite (s, g) = (s, g)" by (rule begin_live [OF assms(1)])
  have ok: "numbers_ok g" "wtop s m" "wg_live g" using assms(1) by (simp_all add: writing_def)
  have "writing m (s', g') \<and> grows (s, g) (s', g') \<and> known g' = known g \<union> set_option v \<and> wg_marshaled g' = wg_marshaled g \<and>
      (\<exists>bs. s' = s\<lparr>buf := buf s @ bs\<rparr>) \<and> (named num g' \<longrightarrow> buf s' = buf s @ ref_bytes num v)"
  proof (cases v)
    case None
    then have "s' = s\<lparr>buf := buf s @ le_bytes (0 :: ice_int)\<rparr>" "g' = g"
      using assms(2) live by (auto simp: write_ObjectPtr_def onStream_def andThen_eq_Inr dest: write_Int_Inr)
    then show ?thesis using None ok by (auto simp: writing_def ref_bytes_def intro: grows_stream)
  next
    case (Some p)
    obtain i where i: "indexOf p g = (i, g')" "write_Int big (- i) s = Inr s'"
      using assms(2) live Some by (auto simp: write_ObjectPtr_def onStream_def andThen_eq_Inr split: prod.splits)
    note x = indexOf_spec [OF ok(1) i(1)]
    have s': "s' = s\<lparr>buf := buf s @ le_bytes (- i)\<rparr>" by (rule write_Int_Inr [OF i(2)])
    have "card (known g') \<le> Suc (card (known g))" unfolding x(3) by (simp add: card_insert_if)
    then have "grows (s, g) (s', g')" using x(5-8) s' by (auto simp: grows_def)
    then show ?thesis using x(1-4,9,10) s' Some ok by (auto simp: writing_def ref_bytes_def)
  qed
  then show "writing m (s', g')" "grows (s, g) (s', g')" "known g' = known g \<union> set_option v" "wg_marshaled g' = wg_marshaled g"
    "\<exists>bs. s' = s\<lparr>buf := buf s @ bs\<rparr>" "named num g' \<Longrightarrow> buf s' = buf s @ ref_bytes num v" by auto
qed

text \<open>The contract of the operations on members, for the writer and, later, the reader.\<close>

locale member_codec =
  fixes valid :: "'k \<Rightarrow> 'v \<Rightarrow> bool"
    and enc :: "'k \<Rightarrow> 'v \<Rightarrow> byte list"
    and env :: "('k, 'v) class_env"
  assumes codec: "wire_codec (valid k) (enc k) (ce_write env k) (ce_read env k) (\<lambda>_. True)"
begin

lemma writeMembers_Inr:
  assumes "writing m (s, g)" and "slots_ok valid slots" and "writeMembers big env slots (s, g) = Inr (s', g')"
  shows "writing m (s', g') \<and> grows (s, g) (s', g') \<and> known g' = known g \<union> targets slots \<and> wg_marshaled g' = wg_marshaled g \<and>
    (\<exists>bs. s' = s\<lparr>buf := buf s @ bs\<rparr>) \<and> (\<forall>num. named num g' \<longrightarrow> buf s' = buf s @ body_bytes enc num slots)"
  using assms
proof (induction slots arbitrary: s g)
  case Nil
  then show ?case by (auto simp: body_bytes_def intro: exI [of _ "[]"])
next
  case (Cons slot slots)
  have ok: "slots_ok valid slots" using Cons.prems(2) by (auto simp: slots_ok_def)
  show ?case
  proof (cases slot)
    case (Value k x)
    have v: "valid k x" using Cons.prems(2) Value by (auto simp: slots_ok_def)
    obtain s1 where w: "ce_write env k x s = Inr s1" "writeMembers big env slots (s1, g) = Inr (s', g')"
      using Cons.prems(3) Value by (auto simp: onStream_def andThen_eq_Inr)
    have s1: "s1 = s\<lparr>buf := buf s @ enc k x\<rparr>" by (rule wire_codec.write_appends [OF codec v w(1)])
    have "writing m (s1, g)" "grows (s, g) (s1, g)" using Cons.prems(1) s1 by (auto simp: writing_def intro: grows_stream)
    from Cons.IH [OF this(1) ok w(2)] grows_trans [OF this(2)] show ?thesis
      unfolding Value s1 by (auto simp: body_bytes_def)
  next
    case (Ref t p)
    obtain s1 g1 where w: "write_ObjectPtr big p (s, g) = Inr (s1, g1)" "writeMembers big env slots (s1, g1) = Inr (s', g')"
      using Cons.prems(3) Ref by (auto simp: andThen_eq_Inr)
    note r = write_ObjectPtr_Inr [OF Cons.prems(1) w(1)]
    note ih = Cons.IH [OF r(1) ok w(2)]
    have "named num g1" if "named num g'" for num using grows_named [of num "(s', g')" "(s1, g1)"] ih that by simp
    then have "\<forall>num. named num g' \<longrightarrow> buf s' = buf s @ body_bytes enc num (slot # slots)"
      using ih r(6) by (auto simp: Ref body_bytes_def)
    then show ?thesis using ih r(3-5) grows_trans [OF r(2)] Ref by auto
  qed
qed

text \<open>A slice: the size in front is filled in at the end.\<close>

lemma startWriteSlice_Inr:
  "startWriteSlice big s = Inr s' \<Longrightarrow> s' = s\<lparr>buf := buf s @ le_bytes (0 :: ice_int), writeSlice := length (buf s) + 4\<rparr>"
  by (auto simp: startWriteSlice_def andThen_eq_Inr dest!: write_Int_Inr)

lemma slice_written:
  assumes "s1 = s\<lparr>buf := buf s @ le_bytes (0 :: ice_int), writeSlice := length (buf s) + 4\<rparr>" and "s2 = s1\<lparr>buf := buf s1 @ body\<rparr>"
    and "endWriteSlice big s2 = Inr s3"
  shows "s3 = s\<lparr>buf := buf s @ slice_bytes body, writeSlice := length (buf s) + 4\<rparr>"
proof -
  have "overwrite (length (buf s)) (le_bytes (word_of_nat (4 + length body) :: ice_int)) (buf s @ le_bytes (0 :: ice_int) @ body) =
      buf s @ slice_bytes body"
    unfolding slice_bytes_def by (rule overwrite_middle) simp
  then show ?thesis using assms by (auto simp: endWriteSlice_def Let_def marshal_Int add.commute)
qed

lemma object_write_Inr:
  assumes "wtop s m" and "object_write big s = Inr s'"
  shows "wtop s' (tid_next m object_id)" "buf s' = buf s @ tid_bytes m object_id @ slice_bytes [0]"
proof -
  obtain s1 s2 s3 where w: "writeTypeId big object_id s = Inr s1" "startWriteSlice big s1 = Inr s2" "writeSize big 0 s2 = Inr s3"
      "endWriteSlice big s3 = Inr s'"
    using assms(2) by (auto simp: object_write_def andThen_eq_Inr)
  have "length object_id < 2147483648" by (simp add: object_id_def)
  note t = writeTypeId_Inr [OF assms(1) w(1) this]
  have "s3 = s2\<lparr>buf := buf s2 @ [0]\<rparr>" using writeSize_Inr [OF w(3)] by (simp add: size_bytes_def)
  from slice_written [OF startWriteSlice_Inr [OF w(2)] this w(4)] t
  show "wtop s' (tid_next m object_id)" "buf s' = buf s @ tid_bytes m object_id @ slice_bytes [0]" by simp_all
qed

lemma writeSlices_Inr:
  assumes "writing m (s, g)" and "slices_ok valid slices" and "writeSlices big env slices (s, g) = Inr (s', g')"
  shows "writing (tids_next m slices) (s', g') \<and> grows (s, g) (s', g') \<and> known g' = known g \<union> pointers slices \<and>
    wg_marshaled g' = wg_marshaled g \<and> (\<forall>num. named num g' \<longrightarrow> buf s' = buf s @ slices_bytes enc num m slices)"
  using assms
proof (induction m slices arbitrary: s g rule: tids_next.induct)
  case (1 m)
  obtain s1 where w: "object_write big s = Inr s1" "s' = s1" "g' = g" using "1.prems"(3) by (auto simp: onStream_def andThen_eq_Inr)
  have "wtop s m" using "1.prems"(1) by (simp add: writing_def)
  note o = object_write_Inr [OF this w(1)]
  have "grows (s, g) (s', g)" by (rule grows_stream) (simp add: o(2) w(2))
  then show ?case using "1.prems"(1) o w by (simp add: writing_def)
next
  case (2 m tid slots slices)
  obtain s1 s2 st3 st4 where w: "writeTypeId big tid s = Inr s1" "startWriteSlice big s1 = Inr s2" "writeMembers big env slots (s2, g) = Inr st3"
      "onStream (endWriteSlice big) st3 = Inr st4" "writeSlices big env slices st4 = Inr (s', g')"
    using "2.prems"(3) by (auto simp: onStream_def andThen_eq_Inr)
  obtain s3 g1 where st3: "st3 = (s3, g1)" by (cases st3)
  obtain s4 where s4: "endWriteSlice big s3 = Inr s4" "st4 = (s4, g1)" using w(4) st3 by (auto simp: onStream_def andThen_eq_Inr)
  have ok: "length tid < 2147483648" "slots_ok valid slots" "slices_ok valid slices" using "2.prems"(2) by (auto simp: slices_ok_def)
  have st: "wtop s m" "wg_live g" "numbers_ok g" using "2.prems"(1) by (simp_all add: writing_def)
  note t = writeTypeId_Inr [OF st(1) w(1) ok(1)]
  note s2 = startWriteSlice_Inr [OF w(2)]
  have "writing (tid_next m tid) (s2, g)" using st t(1) by (simp add: writing_def s2)
  note mem = writeMembers_Inr [OF this ok(2) w(3) [unfolded st3]]
  obtain bs where bs: "s3 = s2\<lparr>buf := buf s2 @ bs\<rparr>" using mem by blast
  have body: "bs = body_bytes enc num slots" if "named num g1" for num using mem that bs by auto
  note s4' = slice_written [OF s2 bs s4(1)]
  have wr: "writing (tid_next m tid) (s4, g1)" using mem t(1) s2 s4' bs by (auto simp: writing_def wtop_def)
  have gr: "grows (s, g) (s4, g1)"
    using mem unfolding grows_def s4' t(2) bs s2 by (auto simp: slice_bytes_def)
  note ih = "2.IH" [OF wr ok(3) w(5) [unfolded s4(2)]]
  have "named num g1" if "named num g'" for num using grows_named [of num "(s', g')" "(s4, g1)"] ih that by simp
  then have "\<forall>num. named num g' \<longrightarrow> buf s' = buf s @ slices_bytes enc num m ((tid, slots) # slices)"
    using ih body s4' t(2) by auto
  then show ?case using ih grows_trans [OF gr] mem by auto
qed

lemma writePass_Inr:
  assumes "writing m (s, g)" and "\<forall>p \<in> fst ` set ps. slices_ok valid (snd (heap p))" and "set ps \<subseteq> set (wg_toBeMarshaled g)"
    and "writePass big env heap ps (s, g) = Inr (s', g')"
  shows "writing (objects_next heap m (map fst ps)) (s', g') \<and> grows (s, g) (s', g') \<and>
    known g' = known g \<union> (\<Union>p \<in> fst ` set ps. pointers (snd (heap p))) \<and> marshaled g' = marshaled g \<union> fst ` set ps \<and>
    (\<forall>num. named num g' \<longrightarrow> buf s' = buf s @ objects_bytes enc num heap m (map fst ps))"
  using assms
proof (induction ps arbitrary: m s g)
  case Nil
  then show ?case by (auto simp: objects_next_def)
next
  case (Cons x ps)
  obtain p i where x: "x = (p, i)" by (cases x)
  define g0 where "g0 = g\<lparr>wg_marshaled := sm_insert p i (wg_marshaled g)\<rparr>"
  obtain s1 s2 g2 where w: "write_Int big i s = Inr s1" "writeSlices big env (snd (heap p)) (s1, g0) = Inr (s2, g2)"
      "writePass big env heap ps (s2, g2) = Inr (s', g')"
    using Cons.prems(4) x by (auto simp: writeInstance_def onStream_def andThen_eq_Inr g0_def)
  have s1: "s1 = s\<lparr>buf := buf s @ le_bytes i\<rparr>" by (rule write_Int_Inr [OF w(1)])
  note sm_insert_bounds [of p i "wg_marshaled g"]
  moreover have "(p, i) \<in> set (wg_toBeMarshaled g)" using Cons.prems(3) x by simp
  ultimately have items: "items g0 = items g" by (auto simp: items_def g0_def)
  have m0: "marshaled g0 = insert p (marshaled g)" by (simp add: g0_def fst_sm_insert)
  have toBe0: "wg_toBeMarshaled g0 = wg_toBeMarshaled g" by (simp add: g0_def)
  have "known g0 = known g" "named num g0 = named num g" for num using items by (simp_all add: known_def named_def)
  then have "numbers_ok g0"
    using Cons.prems(1) by (simp add: writing_def numbers_ok_def toBe0) (simp add: g0_def)
  then have wr: "writing m (s1, g0)" using Cons.prems(1) s1 by (simp add: writing_def g0_def)
  have gr: "grows (s, g) (s1, g0)" using items m0 toBe0 s1 by (auto simp: grows_def known_def)
  have ok: "slices_ok valid (snd (heap p))" using Cons.prems(2) x by simp
  note sl = writeSlices_Inr [OF wr ok w(2)]
  have sub: "set ps \<subseteq> set (wg_toBeMarshaled g2)" using sl Cons.prems(3) toBe0 by (auto simp: grows_def)
  have okps: "\<forall>p \<in> fst ` set ps. slices_ok valid (snd (heap p))" using Cons.prems(2) by simp
  note ih = Cons.IH [OF conjunct1 [OF sl] okps sub w(3)]
  have bytes: "buf s' = buf s @ objects_bytes enc num heap m (map fst (x # ps))" if n: "named num g'" for num
  proof -
    have n2: "named num g2" using grows_named [of num "(s', g')" "(s2, g2)"] ih n by simp
    have "grows (s, g) (s2, g2)" using grows_trans [OF gr] sl by blast
    then have "named num g" using grows_named [of num "(s2, g2)" "(s, g)"] n2 by simp
    then have "i = word_of_nat (num p)" using \<open>(p, i) \<in> set (wg_toBeMarshaled g)\<close> by (auto simp: named_def items_def)
    moreover have "buf s' = buf s2 @ objects_bytes enc num heap (tids_next m (snd (heap p))) (map fst ps)" using ih n by blast
    moreover have "buf s2 = buf s1 @ slices_bytes enc num m (snd (heap p))" using sl n2 by blast
    ultimately show ?thesis using s1 by (simp add: x)
  qed
  have "grows (s, g) (s', g')" using grows_trans [OF grows_trans [OF gr conjunct1 [OF conjunct2 [OF sl]]] conjunct1 [OF conjunct2 [OF ih]]] .
  moreover have "known g' = known g \<union> (\<Union>p \<in> fst ` set (x # ps). pointers (snd (heap p)))"
  proof -
    have "known g' = known g2 \<union> (\<Union>p \<in> fst ` set ps. pointers (snd (heap p)))" using ih by blast
    moreover have "known g2 = known g \<union> pointers (snd (heap p))" using sl items by (simp add: known_def)
    ultimately show ?thesis by (simp add: x Un_assoc)
  qed
  moreover have "marshaled g' = marshaled g \<union> fst ` set (x # ps)" using ih sl m0 by (simp add: x)
  moreover have "writing (objects_next heap m (map fst (x # ps))) (s', g')" using ih by (simp add: x objects_next_def)
  ultimately show ?case using bytes by blast
qed

end

section \<open>The passes\<close>

lemma items_functional:
  assumes "numbers_ok g" and "(p, i) \<in> items g" and "(p, j) \<in> items g"
  shows "i = j"
proof -
  obtain num where "named num g" using assms(1) by (auto simp: numbers_ok_def)
  then have "i = word_of_nat (num p)" "j = word_of_nat (num p)" using assms(2,3) unfolding named_def by blast+
  then show ?thesis by simp
qed

lemma card_Diff_Un_less:
  assumes "finite C" and "T \<noteq> {}" and "T \<inter> M = {}" and "T \<subseteq> C"
  shows "card (C - (M \<union> T)) < card (C - M)"
proof (rule psubset_card_mono)
  show "C - (M \<union> T) \<subset> C - M" using assms(2-4) by blast
qed (simp add: assms(1))

lemma sm_ok_filter: "sm_ok m \<Longrightarrow> sm_ok (filter P m)"
  by (induction m) auto

text \<open>What is left to be marshaled after a pass is what has been added in it.\<close>

lemma after_pass:
  assumes "writing m (s', g1)" and "grows (s, g) (s', g1)" and "marshaled g1 = marshaled g \<union> toBe g"
    and "g' = g1\<lparr>wg_toBeMarshaled := set_difference (wg_toBeMarshaled g1) (wg_toBeMarshaled g)\<rparr>"
  shows "writing m (s', g')" "items g' = items g1" "toBe g' \<inter> marshaled g' = {}" "marshaled g' = marshaled g \<union> toBe g"
proof -
  have ok: "numbers_ok g1" using assms(1) by (simp add: writing_def)
  note gr = growsD [OF assms(2), unfolded fst_conv snd_conv]
  have "(p, i) \<in> set (wg_marshaled g1)" if "(p, i) \<in> set (wg_toBeMarshaled g)" for p i
  proof -
    have "p \<in> marshaled g1" using that assms(3) by force
    then obtain j where "(p, j) \<in> set (wg_marshaled g1)" by force
    moreover have "i = j" using items_functional [OF ok, of p i j] calculation that gr(1) by (auto simp: items_def)
    ultimately show ?thesis by simp
  qed
  then show items: "items g' = items g1" using assms(4) by (auto simp: items_def set_difference_def)
  have "p \<notin> toBe g \<union> marshaled g" if p: "(p, i) \<in> set (wg_toBeMarshaled g1)" "(p, i) \<notin> set (wg_toBeMarshaled g)" for p i
  proof -
    have "p \<notin> toBe g"
    proof
      assume "p \<in> toBe g"
      then obtain j where j: "(p, j) \<in> set (wg_toBeMarshaled g)" by force
      then have "i = j" using items_functional [OF ok, of p i j] p(1) gr(1) by (auto simp: items_def)
      then show False using j p(2) by simp
    qed
    moreover have "p \<in> toBe g1" using p(1) by force
    ultimately show ?thesis using gr(2) by blast
  qed
  then have "p \<notin> toBe g \<union> marshaled g" if "p \<in> toBe g'" for p using that assms(4) by (force simp: set_difference_def)
  then show "toBe g' \<inter> marshaled g' = {}" using assms(3,4) by auto
  show "marshaled g' = marshaled g \<union> toBe g" using assms(3,4) by simp
  have k: "known g' = known g1" "named num g' = named num g1" for num using items by (simp_all add: known_def named_def)
  have "sm_ok (wg_toBeMarshaled g1)" using ok by (simp add: numbers_ok_def)
  then have "sm_ok (wg_toBeMarshaled g')" using assms(4) by (simp add: set_difference_def sm_ok_filter)
  then show "writing m (s', g')" using assms(1,4) k by (simp add: writing_def numbers_ok_def)
qed

text \<open>
  The loop ends when the objects that can be reached are finitely many, and then it has written each of them once, in
  rounds.
\<close>

definition written :: "('o::linorder \<Rightarrow> ('k, 'v, 'o) instance_of) \<Rightarrow> ('k \<Rightarrow> 'v \<Rightarrow> byte list) \<Rightarrow> (string \<times> ice_int) list
    \<Rightarrow> 'o write_state \<Rightarrow> 'o write_state \<Rightarrow> 'o list list \<Rightarrow> bool" where
  "written heap enc m st st' rounds \<longleftrightarrow>
     distinct (concat rounds) \<and> [] \<notin> set rounds \<and> known (snd st') = marshaled (snd st) \<union> set (concat rounds) \<and>
     marshaled (snd st) \<inter> set (concat rounds) = {} \<and>
     numbers_ok (snd st') \<and> items (snd st) \<subseteq> items (snd st') \<and>
     card (known (snd st')) + length (buf (fst st)) \<le> card (known (snd st)) + length (buf (fst st')) \<and>
     (\<forall>p \<in> set (concat rounds). pointers (snd (heap p)) \<subseteq> known (snd st')) \<and>
     (\<forall>num. named num (snd st') \<longrightarrow> buf (fst st') = buf (fst st) @ rounds_bytes enc num heap m rounds)"

text \<open>One more round in front.\<close>

lemma written_round:
  assumes "writing m (s, g)" and "toBe g \<inter> marshaled g = {}" and "wg_toBeMarshaled g \<noteq> []"
    and s1: "s1 = s\<lparr>buf := buf s @ size_bytes (word_of_nat (length (wg_toBeMarshaled g)))\<rparr>"
    and pass: "writing m2 (s2, g2) \<and> grows (s1, g) (s2, g2) \<and> known g2 = K \<and> marshaled g2 = M \<and>
      (\<forall>num. named num g2 \<longrightarrow> buf s2 = buf s1 @ objects_bytes enc num heap m (map fst (wg_toBeMarshaled g)))"
    and after: "writing m3 (s2, g3)" "items g3 = items g2" "toBe g3 \<inter> marshaled g3 = {}" "marshaled g3 = marshaled g \<union> toBe g"
    and known: "known g3 = known g \<union> (\<Union>p \<in> toBe g. pointers (snd (heap p)))"
    and rest: "written heap enc (objects_next heap m (map fst (wg_toBeMarshaled g))) (s2, g3) st' rounds"
  shows "written heap enc m (s, g) st' (map fst (wg_toBeMarshaled g) # rounds)"
proof -
  let ?ps = "map fst (wg_toBeMarshaled g)"
  have r: "distinct (concat rounds)" "[] \<notin> set rounds" "known (snd st') = marshaled g3 \<union> set (concat rounds)"
      "marshaled g3 \<inter> set (concat rounds) = {}" "numbers_ok (snd st')" "items g3 \<subseteq> items (snd st')"
      "card (known (snd st')) + length (buf s2) \<le> card (known g3) + length (buf (fst st'))"
      "\<forall>p \<in> set (concat rounds). pointers (snd (heap p)) \<subseteq> known (snd st')"
      "\<And>num. named num (snd st') \<Longrightarrow> buf (fst st') = buf s2 @ rounds_bytes enc num heap (objects_next heap m ?ps) rounds"
    using rest unfolding written_def fst_conv snd_conv by blast+
  have gr: "grows (s1, g) (s2, g2)" using pass by blast
  note gr' = growsD [OF gr, unfolded fst_conv snd_conv]
  have k3: "known g3 = known g2" using after(2) by (simp add: known_def)
  have sub: "known g3 \<subseteq> known (snd st')" using r(6) by (auto simp: known_def)
  have "sm_ok (wg_toBeMarshaled g)" using assms(1) by (simp add: writing_def numbers_ok_def)
  then have "distinct ?ps" by (simp add: sm_ok_def strict_sorted_iff)
  then have d: "distinct (concat (?ps # rounds))" using r(1,4) after(4) by auto
  have b: "buf (fst st') = buf s @ rounds_bytes enc num heap m (?ps # rounds)" if n: "named num (snd st')" for num
  proof -
    have "named num g2" using named_sub [OF n] r(6) after(2) by simp
    then have "buf s2 = buf s1 @ objects_bytes enc num heap m ?ps" using pass by blast
    then show ?thesis using r(9) [OF n] s1 by simp
  qed
  have c: "card (known (snd st')) + length (buf s) \<le> card (known g) + length (buf (fst st'))"
    using r(7) gr'(5) s1 k3 by simp
  have p: "\<forall>p \<in> set (concat (?ps # rounds)). pointers (snd (heap p)) \<subseteq> known (snd st')" using r(8) known sub by auto
  have "known (snd st') = marshaled g \<union> set (concat (?ps # rounds))" "marshaled g \<inter> set (concat (?ps # rounds)) = {}"
    using r(3,4) after(4) assms(2) by auto
  moreover have "items g \<subseteq> items (snd st')" using gr'(4) r(6) after(2) by simp
  moreover have "[] \<notin> set (?ps # rounds)" using r(2) assms(3) by simp
  ultimately show ?thesis unfolding written_def using d b c p r(5) by simp
qed

context member_codec
begin

lemma writeLoop_ends:
  assumes "finite C" and "\<forall>p \<in> C. slices_ok valid (snd (heap p)) \<and> pointers (snd (heap p)) \<subseteq> C"
    and "writing m (s, g)" and "known g \<subseteq> C" and "toBe g \<inter> marshaled g = {}"
  shows "\<exists>r. writeLoop big env heap (s, g) = Some r \<and>
    (\<forall>st'. r = Inr st' \<longrightarrow> known (snd st') \<subseteq> C \<and> (\<exists>rounds. written heap enc m (s, g) st' rounds))"
  using assms(3-5)
proof (induction "card (C - marshaled g)" arbitrary: m s g rule: less_induct)
  case less
  let ?saved = "wg_toBeMarshaled g"
  show ?case
  proof (cases "?saved = []")
    case True
    then have "written heap enc m (s, g) (s, g) []" using less.prems(1) by (simp add: written_def writing_def known_alt)
    then show ?thesis using True less.prems(2) by (subst writeLoop.simps) (auto simp: Let_def)
  next
    case False
    let ?body = "andThen (onStream (writeSize big (word_of_nat (length ?saved))) (s, g)) (writePass big env heap ?saved)"
    show ?thesis
    proof (cases ?body)
      case (Inl f)
      then show ?thesis using False by (subst writeLoop.simps) (simp add: Let_def)
    next
      case (Inr st2)
      obtain s2 g2 where st2: "st2 = (s2, g2)" by (cases st2)
      obtain s1 where w: "writeSize big (word_of_nat (length ?saved)) s = Inr s1" "writePass big env heap ?saved (s1, g) = Inr (s2, g2)"
        using Inr st2 by (auto simp: onStream_def andThen_eq_Inr)
      have s1: "s1 = s\<lparr>buf := buf s @ size_bytes (word_of_nat (length ?saved))\<rparr>" using writeSize_Inr [OF w(1)] by simp
      have wr: "writing m (s1, g)" using less.prems(1) s1 by (simp add: writing_def)
      have ok: "\<forall>p \<in> fst ` set ?saved. slices_ok valid (snd (heap p)) \<and> pointers (snd (heap p)) \<subseteq> C"
        using less.prems(2) assms(2) by (auto simp: known_alt)
      then have "\<forall>p \<in> fst ` set ?saved. slices_ok valid (snd (heap p))" by blast
      note pass = writePass_Inr [OF wr this subset_refl w(2)]
      define g3 where "g3 = g2\<lparr>wg_toBeMarshaled := set_difference (wg_toBeMarshaled g2) ?saved\<rparr>"
      note after = after_pass [OF conjunct1 [OF pass] conjunct1 [OF conjunct2 [OF pass]]
          conjunct1 [OF conjunct2 [OF conjunct2 [OF conjunct2 [OF pass]]]] g3_def]
      have "known g2 = known g \<union> (\<Union>p \<in> toBe g. pointers (snd (heap p)))" using pass by blast
      then have known: "known g3 = known g \<union> (\<Union>p \<in> toBe g. pointers (snd (heap p)))" unfolding known_def after(2) .
      have sub: "known g3 \<subseteq> C" unfolding known using less.prems(2) ok by (intro Un_least UN_least) blast+
      have "toBe g \<noteq> {}" "toBe g \<inter> marshaled g = {}" "toBe g \<subseteq> C" using False less.prems(2,3) by (auto simp: known_alt)
      then have "card (C - marshaled g3) < card (C - marshaled g)" unfolding after(4) by (rule card_Diff_Un_less [OF assms(1)])
      from less.hyps [OF this after(1) sub after(3)] obtain r where r: "writeLoop big env heap (s2, g3) = Some r"
          "\<And>st'. r = Inr st' \<Longrightarrow> known (snd st') \<subseteq> C \<and>
             (\<exists>rounds. written heap enc (objects_next heap m (map fst ?saved)) (s2, g3) st' rounds)" by blast
      have "writeLoop big env heap (s, g) = Some r" using False Inr st2 r(1) by (subst writeLoop.simps) (simp add: Let_def g3_def)
      moreover have "known (snd st') \<subseteq> C \<and> (\<exists>rounds. written heap enc m (s, g) st' rounds)" if st': "r = Inr st'" for st'
      proof -
        obtain rounds where rd: "known (snd st') \<subseteq> C" "written heap enc (objects_next heap m (map fst ?saved)) (s2, g3) st' rounds"
          using r(2) [OF st'] by blast
        have "written heap enc m (s, g) st' (map fst ?saved # rounds)"
          using written_round [OF less.prems(1,3) False s1 pass after known rd(2)] .
        then show ?thesis using rd(1) by blast
      qed
      ultimately show ?thesis by blast
    qed
  qed
qed

end

end
