(* ===== verification/ClassRead.thy ===== *)
theory ClassRead imports ClassWrite begin

text \<open>
  What reading makes of the bytes of a graph: while objects are created, every pointer that has been read either points to
  its object already or is in the patch list of its index.
\<close>

section \<open>Input that is left\<close>

definition left :: "stream \<Rightarrow> byte list \<Rightarrow> bool" where
  "left s bs \<longleftrightarrow> at s (take (nat (rpos s)) (buf s)) bs []"

lemma at_left: "at s pre bs post \<Longrightarrow> left s (bs @ post)"
  by (auto simp: left_def at_def)

lemma left_at: "left s (x @ y) \<Longrightarrow> at s (take (nat (rpos s)) (buf s)) x y"
  by (simp add: left_def at_def)

lemma left_skip:
  assumes "left s (x @ y)"
  shows "left (skip s (length x)) y"
  using at_left [OF at_next [of s _ x y "[]"]] assms by (simp add: left_def)

text \<open>The type ids read so far are those written so far, with their indices.\<close>

definition ready :: "stream \<Rightarrow> (string \<times> ice_int) list \<Rightarrow> byte list \<Rightarrow> bool" where
  "ready s m bs \<longleftrightarrow> left s bs \<and> numbered m \<and> length m + length bs < 2147483648 \<and>
     (\<exists>e es. readEncapsStack s = e # es \<and> re_typeIdMap e = Some (map prod.swap m) \<and> re_typeIdIndex e = word_of_nat (length m))"

lemma ready_left: "ready s m bs \<Longrightarrow> left s bs"
  by (simp add: ready_def)

lemma ready_skip: "ready s m (x @ y) \<Longrightarrow> ready (skip s (length x)) m y"
  using left_skip [of s x y] by (auto simp: ready_def)

lemma ready_slice: "ready s m bs \<Longrightarrow> ready (s\<lparr>readSlice := n\<rparr>) m bs"
  by (simp add: ready_def left_def at_def)

lemma ready_Int: "ready s m (le_bytes (v :: ice_int) @ y) \<Longrightarrow> read_Int big s = Inr (v, skip s 4) \<and> ready (skip s 4) m y"
  using read_Int_at [OF left_at [OF ready_left]] ready_skip [of s m "le_bytes v" y] by simp

lemma ready_Size:
  "ready s m (size_bytes v @ y) \<Longrightarrow> 0 \<le> sint v \<Longrightarrow> \<exists>s'. readSize big s = Inr (v, s') \<and> ready s' m y"
  using readSize_at [OF left_at [OF ready_left]] ready_skip [of s m "size_bytes v" y] by blast

lemma ready_Slice:
  assumes "ready s m (slice_bytes body @ y)"
  shows "\<exists>s'. startReadSlice big s = Inr s' \<and> ready s' m (body @ y)"
proof -
  let ?sz = "word_of_nat (4 + length body) :: ice_int"
  have len: "4 + length body < 2147483648" using assms by (simp add: ready_def slice_bytes_def)
  have sz: "0 \<le> sint ?sz" unfolding sint_word_of_nat [OF len] by simp
  have r: "ready s m (le_bytes ?sz @ (body @ y))" using assms by (simp add: slice_bytes_def)
  have "readCount big s = Inr (?sz, skip s 4)" by (rule readCount_at [OF left_at [OF ready_left [OF r]] sz])
  then show ?thesis using ready_slice [OF conjunct2 [OF ready_Int [OF r]]] by (simp add: startReadSlice_def)
qed

lemma numbered_lookup:
  assumes "numbered m" and "Suc (length m) < 2147483648"
  shows "map_of m tid = Some i \<Longrightarrow> map_of (map prod.swap m) i = Some tid \<and> 0 < sint i"
    "length m \<le> n \<Longrightarrow> Suc n < 2147483648 \<Longrightarrow> map_of (map prod.swap m) (word_of_nat (Suc n)) = None"
proof -
  have neq: "(word_of_nat a :: ice_int) \<noteq> word_of_nat b" if "a < b" "b < 2147483648" for a b
    using that by (simp add: word_of_nat_eq_iff take_bit_nat_eq_self)
  have none: "map_of (map prod.swap m) (word_of_nat (Suc n)) = None" if "length m \<le> n" "Suc n < 2147483648" "numbered m" for m n
    using that
  proof (induction m)
    case (Cons x m)
    then show ?case using neq [of "Suc (length m)" "Suc n"] by (cases x) auto
  qed simp
  show "length m \<le> n \<Longrightarrow> Suc n < 2147483648 \<Longrightarrow> map_of (map prod.swap m) (word_of_nat (Suc n)) = None" using none assms(1) by blast
  show "map_of (map prod.swap m) i = Some tid \<and> 0 < sint i" if "map_of m tid = Some i"
    using assms that
  proof (induction m)
    case (Cons x m)
    obtain t j where x: "x = (t, j)" by (cases x)
    have j: "sint j = int (Suc (length m))" using Cons.prems(1,2) x sint_word_of_nat [of "Suc (length m)"] by simp
    show ?case
    proof (cases "t = tid")
      case False
      then have ih: "map_of (map prod.swap m) i = Some tid \<and> 0 < sint i" using Cons x by simp
      have "map_of (map prod.swap m) j = None" using none [of m "length m"] Cons.prems x by simp
      then have "i \<noteq> j" using ih by auto
      then show ?thesis using ih x by simp
    qed (use Cons.prems x j in simp)
  qed simp
qed

lemma ready_TypeId:
  assumes "ready s m (tid_bytes m tid @ y)" and "length tid < 2147483648"
  shows "\<exists>s'. readTypeId big s = Inr (tid, s') \<and> ready s' (tid_next m tid) y"
proof -
  obtain e es where e: "readEncapsStack s = e # es" "re_typeIdMap e = Some (map prod.swap m)" "re_typeIdIndex e = word_of_nat (length m)"
    using assms(1) by (auto simp: ready_def)
  have n: "numbered m" using assms(1) by (simp add: ready_def)
  have "1 \<le> length (tid_bytes m tid)" by (auto simp: tid_bytes_def split: option.splits)
  moreover have "length m + (length (tid_bytes m tid) + length y) < 2147483648" using assms(1) by (simp add: ready_def)
  ultimately have len: "Suc (length m) < 2147483648" "Suc (length m) + length y < 2147483648" by linarith+
  note look = numbered_lookup [OF n len(1)]
  show ?thesis
  proof (cases "map_of m tid")
    case None
    have r: "ready s m ([0] @ (string_bytes tid @ y))" using assms(1) None by (simp add: tid_bytes_def)
    have b: "read_bool s = Inr (False, skip s 1)" using read_bool_at [OF left_at [OF ready_left [OF r]]] by simp
    have r1: "ready (skip s 1) m (string_bytes tid @ y)" using ready_skip [OF r] by simp
    let ?s2 = "skip (skip s 1) (length (string_bytes tid))"
    have t: "read_string big None False (skip s 1) = Inr (tid, ?s2)"
      by (rule string_codec.read_back [OF assms(2) TrueI left_at [OF ready_left [OF r1]]])
    let ?e = "e\<lparr>re_typeIdIndex := re_typeIdIndex e + 1, re_typeIdMap := Some (map prod.swap (tid_next m tid))\<rparr>"
    have "readTypeId big s = Inr (tid, ?s2\<lparr>readEncapsStack := ?e # es\<rparr>)"
      using b t e None look(2) [of "length m"] len(1)
      by (simp add: readTypeId_def rbind_def Let_def map_insert_def tid_next_def add.commute)
    moreover have "left (?s2\<lparr>readEncapsStack := ?e # es\<rparr>) y" using ready_left [OF ready_skip [OF r1]] by (simp add: left_def at_def)
    ultimately show ?thesis using n len e None by (auto simp: ready_def tid_next_def add.commute)
  next
    case (Some i)
    have i: "map_of (map prod.swap m) i = Some tid" "0 \<le> sint i" using look(1) [OF Some] by auto
    have r: "ready s m ([1] @ (size_bytes i @ y))" using assms(1) Some by (simp add: tid_bytes_def)
    have b: "read_bool s = Inr (True, skip s 1)" using read_bool_at [OF left_at [OF ready_left [OF r]]] by simp
    have r1: "ready (skip s 1) m (size_bytes i @ y)" using ready_skip [OF r] by simp
    then have z: "readSize big (skip s 1) = Inr (i, skip (skip s 1) (length (size_bytes i)))"
      by (intro readSize_at [OF left_at [OF ready_left] i(2)])
    then have "readTypeId big s = Inr (tid, skip (skip s 1) (length (size_bytes i)))"
      using b e i(1) by (simp add: readTypeId_def rbind_def)
    then show ?thesis using ready_skip [OF r1] Some by (auto simp: tid_next_def)
  qed
qed

section \<open>Pointers\<close>

text \<open>The number of an object is its place among those that have been created.\<close>

definition pos :: "'o list \<Rightarrow> 'o \<Rightarrow> nat" where
  "pos done v = length (takeWhile (\<lambda>u. u \<noteq> v) done)"

lemma pos_append: "v \<in> set done \<Longrightarrow> pos (done @ us) v = pos done v"
  by (induction "done") (auto simp: pos_def)

lemma pos_new: "v \<notin> set done \<Longrightarrow> pos (done @ v # us) v = length done"
  by (induction "done") (auto simp: pos_def)

lemma pos_nth: "v \<in> set done \<Longrightarrow> pos done v < length done \<and> done ! pos done v = v"
  by (induction "done") (auto simp: pos_def)

text \<open>What has been read at an address is in memory, or waits for its object.\<close>

fun in_place :: "('o \<Rightarrow> ice_int) \<Rightarrow> 'o list \<Rightarrow> 'v read_graph \<Rightarrow> patch_addr \<times> ('k, 'v, 'o) slot \<Rightarrow> bool" where
  "in_place idx done g (a, Value k y) \<longleftrightarrow> rg_values g a = Some y"
| "in_place idx done g (a, Ref t None) \<longleftrightarrow> rg_refs g a = None"
| "in_place idx done g (a, Ref t (Some v)) \<longleftrightarrow>
     v \<in> set done \<and> rg_refs g a = Some (pos done v) \<or>
     (\<exists>entries. sm_find (idx v) (rg_patchMap g) = Some entries \<and> (t, a) \<in> set entries)"

text \<open>A patch list belongs to an object that does not exist yet, or is in \<open>D\<close>.\<close>

definition patches_ok :: "('k, 'v) class_env \<Rightarrow> ('o \<Rightarrow> ('k, 'v, 'o) instance_of) \<Rightarrow> ('o \<Rightarrow> ice_int) \<Rightarrow> 'o set \<Rightarrow> 'o list
    \<Rightarrow> (patch_addr \<times> ('k, 'v, 'o) slot) set \<Rightarrow> 'o set \<Rightarrow> 'v read_graph \<Rightarrow> bool" where
  "patches_ok env heap idx objs done E D g \<longleftrightarrow>
     (\<forall>i entries. sm_find i (rg_patchMap g) = Some entries \<longrightarrow> entries \<noteq> [] \<and>
        (\<exists>v \<in> objs. i = idx v \<and> (v \<in> set done \<longrightarrow> v \<in> D) \<and>
           (\<forall>(t, a) \<in> set entries. (a, Ref t (Some v)) \<in> E \<and> ce_isA env (fst (heap v)) t)))"

definition created_ok :: "('o \<Rightarrow> ('k, 'v, 'o) instance_of) \<Rightarrow> ('o \<Rightarrow> ice_int) \<Rightarrow> 'o set \<Rightarrow> 'o list \<Rightarrow> 'v read_graph \<Rightarrow> bool" where
  "created_ok heap idx objs done g \<longleftrightarrow>
     set done \<subseteq> objs \<and> rg_classes g = map (fst \<circ> heap) done \<and> rg_told g = [] \<and> sm_ok (rg_unmarshaled g) \<and>
     (\<forall>v \<in> objs. sm_find (idx v) (rg_unmarshaled g) = (if v \<in> set done then Some (pos done v) else None))"

definition graph_inv :: "('k, 'v) class_env \<Rightarrow> ('o \<Rightarrow> ('k, 'v, 'o) instance_of) \<Rightarrow> ('o \<Rightarrow> ice_int) \<Rightarrow> 'o set \<Rightarrow> 'o list
    \<Rightarrow> (patch_addr \<times> ('k, 'v, 'o) slot) set \<Rightarrow> 'o set \<Rightarrow> 'v read_graph \<Rightarrow> bool" where
  "graph_inv env heap idx objs done E D g \<longleftrightarrow>
     rg_live g \<and> sm_ok (rg_patchMap g) \<and> (\<forall>a x y. (a, x) \<in> E \<longrightarrow> (a, y) \<in> E \<longrightarrow> x = y) \<and>
     (\<forall>x \<in> E. in_place idx done g x) \<and> patches_ok env heap idx objs done E D g \<and> created_ok heap idx objs done g"

lemmas graph_defs = graph_inv_def patches_ok_def created_ok_def

lemma graph_inv_mono: "graph_inv env heap idx objs done E D g \<Longrightarrow> D \<subseteq> D' \<Longrightarrow> graph_inv env heap idx objs done E D' g"
  unfolding graph_inv_def patches_ok_def by blast

text \<open>Patching sets the pointers in the list and nothing else.\<close>

lemma patchAll_Inr:
  assumes "\<forall>(t, a) \<in> set entries. ce_isA env (rg_classes g ! n) t"
  shows "patchAll env n entries g =
    Inr (g\<lparr>rg_refs := (\<lambda>a. if a \<in> snd ` set entries then Some n else rg_refs g a)\<rparr>)"
  using assms
proof (induction entries arbitrary: g)
  case (Cons x entries)
  obtain t a where x: "x = (t, a)" by (cases x)
  have "patchAll env n (x # entries) g = patchAll env n entries (g\<lparr>rg_refs := (rg_refs g)(a := Some n)\<rparr>)"
    using Cons.prems x by (simp add: patch_def)
  also have "\<dots> = Inr (g\<lparr>rg_refs := (\<lambda>b. if b \<in> snd ` set entries then Some n else ((rg_refs g)(a := Some n)) b)\<rparr>)"
    using Cons.IH [of "g\<lparr>rg_refs := (rg_refs g)(a := Some n)\<rparr>"] Cons.prems by (simp cong: if_cong)
  also have "(\<lambda>b. if b \<in> snd ` set entries then Some n else ((rg_refs g)(a := Some n)) b) =
      (\<lambda>b. if b \<in> snd ` set (x # entries) then Some n else rg_refs g b)" by (auto simp: x fun_eq_iff)
  finally show ?case .
qed simp

lemma patchPointers_inv:
  assumes inv: "graph_inv env heap idx objs done E D g" and v: "v \<in> objs" and inj: "inj_on idx objs"
  shows "\<exists>g'. patchPointers env (idx v) g = Inr g' \<and> graph_inv env heap idx objs done E (D - {v}) g'"
proof (cases "sm_find (idx v) (rg_patchMap g)")
  case None
  then have "graph_inv env heap idx objs done E (D - {v}) g" using inv unfolding graph_inv_def patches_ok_def by fastforce
  then show ?thesis using None by (simp add: patchPointers_def)
next
  case (Some entries)
  have e: "entries \<noteq> []" "\<forall>(t, a) \<in> set entries. (a, Ref t (Some v)) \<in> E \<and> ce_isA env (fst (heap v)) t" "v \<in> set done \<longrightarrow> v \<in> D"
  proof -
    obtain u where "u \<in> objs" "idx v = idx u" "\<forall>(t, a) \<in> set entries. (a, Ref t (Some u)) \<in> E \<and> ce_isA env (fst (heap u)) t"
        "u \<in> set done \<longrightarrow> u \<in> D" "entries \<noteq> []"
      using inv Some unfolding graph_inv_def patches_ok_def by blast
    moreover have "u = v" using inj_onD [OF inj] calculation v by metis
    ultimately show "entries \<noteq> []" "\<forall>(t, a) \<in> set entries. (a, Ref t (Some v)) \<in> E \<and> ce_isA env (fst (heap v)) t" "v \<in> set done \<longrightarrow> v \<in> D"
      by blast+
  qed
  have unm: "sm_find (idx v) (rg_unmarshaled g) = (if v \<in> set done then Some (pos done v) else None)"
    using inv v by (simp add: graph_inv_def created_ok_def)
  show ?thesis
  proof (cases "v \<in> set done")
    case False
    then have "graph_inv env heap idx objs done E (D - {v}) g" using inv unfolding graph_inv_def patches_ok_def by fastforce
    then show ?thesis using Some unm False by (simp add: patchPointers_def)
  next
    case True
    let ?n = "pos done v" and ?as = "snd ` set entries"
    define g' where "g' = g\<lparr>rg_refs := (\<lambda>a. if a \<in> ?as then Some ?n else rg_refs g a), rg_patchMap := sm_erase (idx v) (rg_patchMap g)\<rparr>"
    have "rg_classes g ! ?n = fst (heap v)" using inv pos_nth [OF True] by (simp add: graph_inv_def created_ok_def)
    then have "\<forall>(t, a) \<in> set entries. ce_isA env (rg_classes g ! ?n) t" using e(2) by auto
    from patchAll_Inr [OF this] have "patchPointers env (idx v) g = Inr g'"
      using Some unm True e(1) by (simp add: patchPointers_def g'_def)
    moreover have "graph_inv env heap idx objs done E (D - {v}) g'"
    proof -
      have E: "\<And>a x y. (a, x) \<in> E \<Longrightarrow> (a, y) \<in> E \<Longrightarrow> x = y" "\<And>x. x \<in> E \<Longrightarrow> in_place idx done g x"
        using inv unfolding graph_inv_def by blast+
      have "in_place idx done g' x" if x: "x \<in> E" for x
      proof -
        obtain a slot where ax: "x = (a, slot)" by (cases x)
        show ?thesis
        proof (cases "a \<in> ?as")
          case in_list: True
          then obtain t where "(a, Ref t (Some v)) \<in> E" using e(2) by auto
          then have "slot = Ref t (Some v)" using E(1) x ax by blast
          then show ?thesis using ax True in_list by (simp add: g'_def)
        next
          case False
          have "\<not> (\<exists>u t. slot = Ref t (Some u) \<and> idx u = idx v \<and> (t, a) \<in> set entries)" using False by force
          then show ?thesis using E(2) [OF x] False Some unfolding ax by (cases "(idx, done, g, (a, slot))" rule: in_place.cases) (auto simp: g'_def)
        qed
      qed
      moreover have "patches_ok env heap idx objs done E (D - {v}) g'"
        unfolding patches_ok_def
      proof (intro allI impI)
        fix i es
        assume "sm_find i (rg_patchMap g') = Some es"
        then have i: "i \<noteq> idx v" "sm_find i (rg_patchMap g) = Some es" by (auto simp: g'_def split: if_splits)
        have "patches_ok env heap idx objs done E D g" using inv by (simp add: graph_inv_def)
        then obtain u where "u \<in> objs" "i = idx u" "u \<in> set done \<longrightarrow> u \<in> D" "es \<noteq> []"
            "\<forall>(t, a) \<in> set es. (a, Ref t (Some u)) \<in> E \<and> ce_isA env (fst (heap u)) t"
          using i(2) unfolding patches_ok_def by blast
        then show "es \<noteq> [] \<and> (\<exists>v' \<in> objs. i = idx v' \<and> (v' \<in> set done \<longrightarrow> v' \<in> D - {v}) \<and>
            (\<forall>(t, a) \<in> set es. (a, Ref t (Some v')) \<in> E \<and> ce_isA env (fst (heap v')) t))"
          using i(1) by (intro conjI bexI [of _ u]) auto
      qed
      ultimately show ?thesis using inv unfolding graph_inv_def created_ok_def by (simp add: g'_def)
    qed
    ultimately show ?thesis by blast
  qed
qed

lemma functional_insert:
  "\<forall>b x y. (b, x) \<in> E \<longrightarrow> (b, y) \<in> E \<longrightarrow> x = y \<Longrightarrow> a \<notin> fst ` E \<Longrightarrow>
    \<forall>b x y. (b, x) \<in> insert (a, z) E \<longrightarrow> (b, y) \<in> insert (a, z) E \<longrightarrow> x = y"
  by (force simp: image_iff)

lemma addPatch_find:
  assumes "sm_ok (rg_patchMap g)"
  shows "sm_find j (rg_patchMap (addPatch i x g)) =
      (if j = i then Some ((case sm_find i (rg_patchMap g) of None \<Rightarrow> [] | Some es \<Rightarrow> es) @ [x]) else sm_find j (rg_patchMap g))"
    "sm_ok (rg_patchMap (addPatch i x g))"
  using assms by (auto simp: addPatch_def split: option.splits)

lemma addPatch_same [simp]:
  "rg_live (addPatch i x g) = rg_live g" "rg_refs (addPatch i x g) = rg_refs g" "rg_values (addPatch i x g) = rg_values g"
  "rg_classes (addPatch i x g) = rg_classes g" "rg_unmarshaled (addPatch i x g) = rg_unmarshaled g" "rg_told (addPatch i x g) = rg_told g"
  by (auto simp: addPatch_def split: option.splits)

lemma addPatch_inv:
  assumes inv: "graph_inv env heap idx objs done E D g" and v: "v \<in> objs" and a: "a \<notin> fst ` E" and t: "ce_isA env (fst (heap v)) t"
    and inj: "inj_on idx objs"
  shows "graph_inv env heap idx objs done (insert (a, Ref t (Some v)) E) (insert v D) (addPatch (idx v) (t, a) g)"
proof -
  let ?g = "addPatch (idx v) (t, a) g"
  have ok: "sm_ok (rg_patchMap g)" using inv by (simp add: graph_inv_def)
  note f = addPatch_find [OF ok]
  have place: "in_place idx done ?g x" if "in_place idx done g x" for x
    using that by (cases "(idx, done, g, x)" rule: in_place.cases) (auto simp: f)
  have "\<And>x. x \<in> E \<Longrightarrow> in_place idx done g x" using inv by (simp add: graph_inv_def)
  then have "\<And>x. x \<in> E \<Longrightarrow> in_place idx done ?g x" using place by blast
  then have "\<forall>x \<in> insert (a, Ref t (Some v)) E. in_place idx done ?g x" by (auto simp: f)
  moreover have "patches_ok env heap idx objs done (insert (a, Ref t (Some v)) E) (insert v D) ?g"
    unfolding patches_ok_def
  proof (intro allI impI)
    fix i es
    assume i: "sm_find i (rg_patchMap ?g) = Some es"
    have old: "\<exists>u \<in> objs. j = idx u \<and> (u \<in> set done \<longrightarrow> u \<in> D) \<and> (\<forall>(t, a) \<in> set es. (a, Ref t (Some u)) \<in> E \<and> ce_isA env (fst (heap u)) t)"
      and ne: "es \<noteq> []" if "sm_find j (rg_patchMap g) = Some es" for j es
      using inv that unfolding graph_inv_def patches_ok_def by blast+
    show "es \<noteq> [] \<and> (\<exists>u \<in> objs. i = idx u \<and> (u \<in> set done \<longrightarrow> u \<in> insert v D) \<and>
        (\<forall>(t', a') \<in> set es. (a', Ref t' (Some u)) \<in> insert (a, Ref t (Some v)) E \<and> ce_isA env (fst (heap u)) t'))"
    proof (cases "i = idx v \<and> sm_find i (rg_patchMap g) = None")
      case True
      then have "es = [(t, a)]" using i by (auto simp: f)
      then show ?thesis using True v t by (intro conjI bexI [of _ v]) auto
    next
      case False
      then obtain es0 where es0: "sm_find i (rg_patchMap g) = Some es0" "set es \<subseteq> insert (t, a) (set es0)" "i \<noteq> idx v \<longrightarrow> es = es0" "es \<noteq> []"
        using i ne by (fastforce simp: f split: if_splits option.splits)
      obtain u where u: "u \<in> objs" "i = idx u" "u \<in> set done \<longrightarrow> u \<in> D" "\<forall>(t, a) \<in> set es0. (a, Ref t (Some u)) \<in> E \<and> ce_isA env (fst (heap u)) t"
        using old [OF es0(1)] by blast
      show ?thesis
      proof (cases "i = idx v")
        case False
        then show ?thesis using u es0 by (intro conjI bexI [of _ u]) auto
      next
        case True
        then have "u = v" using inj_onD [OF inj, of u v] u(1,2) v by simp
        then show ?thesis using True u es0(2,4) v t by (intro conjI bexI [of _ v]) auto
      qed
    qed
  qed
  moreover have "\<forall>b x y. (b, x) \<in> insert (a, Ref t (Some v)) E \<longrightarrow> (b, y) \<in> insert (a, Ref t (Some v)) E \<longrightarrow> x = y"
    by (rule functional_insert [OF _ a]) (use inv graph_inv_def in blast)
  ultimately show ?thesis using inv f(2) unfolding graph_inv_def created_ok_def by simp
qed

lemma null_inv:
  assumes inv: "graph_inv env heap idx objs done E D g" and a: "a \<notin> fst ` E"
  shows "graph_inv env heap idx objs done (insert (a, Ref t None) E) D (g\<lparr>rg_refs := (rg_refs g)(a := None)\<rparr>)"
proof -
  have "in_place idx done (g\<lparr>rg_refs := (rg_refs g)(a := None)\<rparr>) x" if "x \<in> E" for x
  proof -
    have "fst x \<noteq> a" "in_place idx done g x" using that a inv by (auto simp: graph_inv_def)
    then show ?thesis by (cases "(idx, done, g, x)" rule: in_place.cases) auto
  qed
  then show ?thesis using inv a unfolding graph_inv_def patches_ok_def created_ok_def by (auto simp: image_iff)
qed

lemma value_inv:
  assumes inv: "graph_inv env heap idx objs done E D g" and a: "a \<notin> fst ` E"
  shows "graph_inv env heap idx objs done (insert (a, Value k x) E) D (g\<lparr>rg_values := (rg_values g)(a := Some x)\<rparr>)"
proof -
  have "in_place idx done (g\<lparr>rg_values := (rg_values g)(a := Some x)\<rparr>) y" if "y \<in> E" for y
  proof -
    have "fst y \<noteq> a" "in_place idx done g y" using that a inv by (auto simp: graph_inv_def)
    then show ?thesis by (cases "(idx, done, g, y)" rule: in_place.cases) auto
  qed
  then show ?thesis using inv a unfolding graph_inv_def patches_ok_def created_ok_def by (auto simp: image_iff)
qed

lemma created_inv:
  assumes inv: "graph_inv env heap idx objs done E D g" and p: "p \<in> objs" "p \<notin> set done" and inj: "inj_on idx objs"
  shows "graph_inv env heap idx objs (done @ [p]) E (insert p D)
    (g\<lparr>rg_classes := rg_classes g @ [fst (heap p)], rg_unmarshaled := sm_insert (idx p) (length (rg_classes g)) (rg_unmarshaled g)\<rparr>)"
proof -
  let ?g = "g\<lparr>rg_classes := rg_classes g @ [fst (heap p)], rg_unmarshaled := sm_insert (idx p) (length (rg_classes g)) (rg_unmarshaled g)\<rparr>"
  have c: "created_ok heap idx objs done g" using inv by (simp add: graph_inv_def)
  have "sm_find (idx v) (rg_unmarshaled ?g) = (if v \<in> set (done @ [p]) then Some (pos (done @ [p]) v) else None)" if "v \<in> objs" for v
  proof (cases "v = p")
    case True
    then show ?thesis using c p by (simp add: created_ok_def pos_new [of p "done" "[]", simplified])
  next
    case False
    then have "idx v \<noteq> idx p" using inj_onD [OF inj] that p(1) by metis
    then show ?thesis using c that False by (auto simp: created_ok_def pos_append)
  qed
  then have "created_ok heap idx objs (done @ [p]) ?g" using c p by (simp add: created_ok_def)
  moreover have "in_place idx (done @ [p]) ?g x" if "in_place idx done g x" for x
    using that by (cases "(idx, done, g, x)" rule: in_place.cases) (auto simp: pos_append)
  moreover have "patches_ok env heap idx objs (done @ [p]) E (insert p D) ?g"
    using inv unfolding graph_inv_def patches_ok_def by auto blast
  ultimately show ?thesis using inv unfolding graph_inv_def by (intro conjI ballI) (simp_all, blast)
qed

section \<open>Pointers and members from the stream\<close>

lemma sint_minus:
  assumes "0 < sint (w :: ice_int)"
  shows "sint (- w) = - sint w"
proof -
  have "sint w < 2 ^ 31" using sint_lt [of w] by simp
  then show ?thesis using assms by (simp add: sint_word_ariths signed_take_bit_int_eq_self)
qed

abbreviation index_of :: "('o \<Rightarrow> nat) \<Rightarrow> 'o \<Rightarrow> ice_int" where
  "index_of num v \<equiv> word_of_nat (num v)"

text \<open>The numbers of the writer are different positive indices.\<close>

definition indices_ok :: "('o \<Rightarrow> nat) \<Rightarrow> 'o set \<Rightarrow> bool" where
  "indices_ok num objs \<longleftrightarrow> inj_on (index_of num) objs \<and> (\<forall>v \<in> objs. 0 < sint (index_of num v))"

text \<open>Pointers to objects of the graph whose class is the declared one or derived from it.\<close>

definition typed :: "('k, 'v) class_env \<Rightarrow> ('o \<Rightarrow> ('k, 'v, 'o) instance_of) \<Rightarrow> 'o set \<Rightarrow> ('k, 'v, 'o) slot list \<Rightarrow> bool" where
  "typed env heap objs slots \<longleftrightarrow> (\<forall>t v. Ref t (Some v) \<in> set slots \<longrightarrow> v \<in> objs \<and> ce_isA env (fst (heap v)) t)"

lemma beginRead_live: "ready s m bs \<Longrightarrow> rg_live g \<Longrightarrow> beginRead (s, g) = (s, g)"
  by (auto simp: ready_def beginRead_def)

lemma read_pointer:
  assumes rd: "ready s m (ref_bytes num p @ y)" and inv: "graph_inv env heap (index_of num) objs done E D g" and a: "a \<notin> fst ` E"
    and num: "indices_ok num objs" and t: "typed env heap objs [Ref t p]"
  shows "\<exists>g'. read_ObjectPtr (Suc d) big env (Some (t, a)) (s, g) = Inr (skip s 4, g') \<and> ready (skip s 4) m y \<and>
    graph_inv env heap (index_of num) objs done (insert (a, Ref t p) E) D g'"
proof -
  have "rg_live g" using inv by (simp add: graph_inv_def)
  then have b: "beginRead (s, g) = (s, g)" by (rule beginRead_live [OF rd])
  let ?i = "case p of None \<Rightarrow> 0 :: ice_int | Some v \<Rightarrow> - index_of num v"
  have i: "read_Int big s = Inr (?i, skip s 4)" "ready (skip s 4) m y" using ready_Int [of s m ?i y big] rd by (simp_all add: ref_bytes_def)
  show ?thesis
  proof (cases p)
    case None
    then show ?thesis using b i null_inv [OF inv a, of t] by simp
  next
    case (Some v)
    have v: "v \<in> objs" "ce_isA env (fst (heap v)) t" using t Some by (auto simp: typed_def)
    have pos: "0 < sint (index_of num v)" and inj: "inj_on (index_of num) objs" using num v(1) by (auto simp: indices_ok_def)
    have neg: "sint (- index_of num v) < 0" using sint_minus [OF pos] pos by simp
    then have ne: "- index_of num v \<noteq> (0 :: ice_int)" by (metis signed_0 less_irrefl)
    obtain g' where g': "patchPointers env (index_of num v) (addPatch (index_of num v) (t, a) g) = Inr g'"
        "graph_inv env heap (index_of num) objs done (insert (a, Ref t (Some v)) E) (insert v D - {v}) g'"
      using patchPointers_inv [OF addPatch_inv [OF inv v(1) a v(2) inj] v(1) inj] by blast
    have "read_ObjectPtr (Suc d) big env (Some (t, a)) (s, g) = Inr (skip s 4, g')"
      using b i(1) Some neg ne g'(1) by simp
    then show ?thesis using i(2) Some graph_inv_mono [OF g'(2), of D] by blast
  qed
qed

text \<open>What has been read when members, slices and objects are at their addresses.\<close>

fun placed :: "(nat \<Rightarrow> patch_addr) \<Rightarrow> nat \<Rightarrow> ('k, 'v, 'o) slot list \<Rightarrow> (patch_addr \<times> ('k, 'v, 'o) slot) set" where
  "placed a k [] = {}"
| "placed a k (slot # slots) = insert (a k, slot) (placed a (Suc k) slots)"

fun slices_placed :: "nat \<Rightarrow> nat \<Rightarrow> (string \<times> ('k, 'v, 'o) slot list) list \<Rightarrow> (patch_addr \<times> ('k, 'v, 'o) slot) set" where
  "slices_placed n j [] = {}"
| "slices_placed n j ((tid, slots) # slices) = placed (Member n j) 0 slots \<union> slices_placed n (Suc j) slices"

lemma placed_at: "k < length slots \<Longrightarrow> (a (i + k), slots ! k) \<in> placed a i slots"
proof (induction slots arbitrary: i k)
  case (Cons slot slots)
  then show ?case using Cons.IH [of "k - 1" "Suc i"] by (cases k) auto
qed simp

lemma placedD: "(b, x) \<in> placed a i slots \<Longrightarrow> \<exists>k \<ge> i. b = a k"
  by (induction a i slots rule: placed.induct) (auto dest: Suc_leD)

lemma slices_placed_at:
  "j < length slices \<Longrightarrow> k < length (snd (slices ! j)) \<Longrightarrow> (Member n (i + j) k, snd (slices ! j) ! k) \<in> slices_placed n i slices"
proof (induction slices arbitrary: i j)
  case (Cons slice slices)
  obtain tid slots where slice: "slice = (tid, slots)" by (cases slice)
  show ?case
  proof (cases j)
    case 0
    then show ?thesis using Cons.prems slice placed_at [of k slots "Member n i" 0] by simp
  next
    case (Suc j')
    then show ?thesis using Cons.prems slice Cons.IH [of j' "Suc i"] by simp
  qed
qed simp

lemma slices_placedD: "(b, x) \<in> slices_placed n i slices \<Longrightarrow> \<exists>j \<ge> i. \<exists>k. b = Member n j k"
proof (induction n i slices rule: slices_placed.induct)
  case (2 n i tid slots slices)
  then show ?case by (auto dest: placedD Suc_leD)
qed simp

context member_codec
begin

lemma readMembers_inv:
  assumes "ready s m (body_bytes enc num slots @ y)" and "graph_inv env heap (index_of num) objs done E D g"
    and "\<forall>k' \<ge> k. a k' \<notin> fst ` E" and "inj a" and "indices_ok num objs" and "typed env heap objs slots" and "slots_ok valid slots"
  shows "\<exists>s' g'. readMembers env (read_ObjectPtr (Suc d) big env) a k (map field_of slots) (s, g) = Inr (s', g') \<and> ready s' m y \<and>
    graph_inv env heap (index_of num) objs done (E \<union> placed a k slots) D g'"
  using assms
proof (induction slots arbitrary: s E g k)
  case Nil
  then show ?case by (simp add: body_bytes_def)
next
  case (Cons slot slots)
  let ?E = "insert (a k, slot) E"
  have fresh: "a k \<notin> fst ` E" "\<forall>k' \<ge> Suc k. a k' \<notin> fst ` ?E" using Cons.prems(3,4) by (auto dest: injD)
  have ok: "typed env heap objs slots" "slots_ok valid slots" using Cons.prems(6,7) by (auto simp: typed_def slots_ok_def)
  have bytes: "ready s m (member_bytes enc num slot @ (body_bytes enc num slots @ y))" using Cons.prems(1) by (simp add: body_bytes_def)
  have step: "\<exists>s1 g1. readMembers env (read_ObjectPtr (Suc d) big env) a k (map field_of (slot # slots)) (s, g) =
      readMembers env (read_ObjectPtr (Suc d) big env) a (Suc k) (map field_of slots) (s1, g1) \<and>
      ready s1 m (body_bytes enc num slots @ y) \<and> graph_inv env heap (index_of num) objs done ?E D g1"
  proof (cases slot)
    case (Value ty x)
    have v: "valid ty x" using Cons.prems(7) Value by (auto simp: slots_ok_def)
    have "ce_read env ty s = Inr (x, skip s (length (enc ty x)))"
      using wire_codec.read_back [OF codec v TrueI left_at [OF ready_left]] bytes Value by fastforce
    then show ?thesis using value_inv [OF Cons.prems(2) fresh(1), of ty x] ready_skip [of s m "enc ty x"] bytes Value by fastforce
  next
    case (Ref t p)
    have "typed env heap objs [Ref t p]" using Cons.prems(6) Ref by (auto simp: typed_def)
    from read_pointer [OF _ Cons.prems(2) fresh(1) Cons.prems(5) this, of s m _ d big] bytes Ref show ?thesis by fastforce
  qed
  then obtain s1 g1 where s1: "readMembers env (read_ObjectPtr (Suc d) big env) a k (map field_of (slot # slots)) (s, g) =
      readMembers env (read_ObjectPtr (Suc d) big env) a (Suc k) (map field_of slots) (s1, g1)"
      "ready s1 m (body_bytes enc num slots @ y)" "graph_inv env heap (index_of num) objs done ?E D g1" by blast
  have eq: "?E \<union> placed a (Suc k) slots = E \<union> placed a k (slot # slots)" by simp
  show ?case unfolding s1(1) by (rule Cons.IH [OF s1(2,3) fresh(2) Cons.prems(4,5) ok, unfolded eq])
qed

end

context member_codec
begin

lemma readSlice_inv:
  assumes "ready s m (slice_bytes (body_bytes enc num slots) @ y)" and "graph_inv env heap (index_of num) objs done E D g"
    and "\<forall>k. Member n j k \<notin> fst ` E" and "indices_ok num objs" and "typed env heap objs slots" and "slots_ok valid slots"
  shows "\<exists>s1 s2 g2. startReadSlice big s = Inr s1 \<and>
    readMembers env (read_ObjectPtr (Suc d) big env) (Member n j) 0 (map field_of slots) (s1, g) = Inr (s2, g2) \<and> ready s2 m y \<and>
    graph_inv env heap (index_of num) objs done (E \<union> placed (Member n j) 0 slots) D g2"
proof -
  obtain s1 where s1: "startReadSlice big s = Inr s1" "ready s1 m (body_bytes enc num slots @ y)" using ready_Slice [OF assms(1)] by blast
  have "inj (Member n j)" by (simp add: inj_def)
  from readMembers_inv [OF s1(2) assms(2) _ this assms(4-6), of 0 d big] s1(1) assms(3) show ?thesis by blast
qed

lemma object_read_inv:
  assumes "ready s m (tid_bytes m object_id @ slice_bytes [0] @ y)"
  shows "\<exists>s'. object_read big True s = Inr s' \<and> ready s' (tid_next m object_id) y"
proof -
  have "length object_id < 2147483648" by (simp add: object_id_def)
  from ready_TypeId [OF assms this] obtain s1 where s1: "readTypeId big s = Inr (object_id, s1)" "ready s1 (tid_next m object_id) (slice_bytes [0] @ y)"
    by blast
  obtain s2 where s2: "startReadSlice big s1 = Inr s2" "ready s2 (tid_next m object_id) ([0] @ y)" using ready_Slice [OF s1(2)] by blast
  have "size_bytes 0 = [0]" by (simp add: size_bytes_def)
  then obtain s3 where "readSize big s2 = Inr (0, s3)" "ready s3 (tid_next m object_id) y"
    using ready_Size [of s2 "tid_next m object_id" 0 y big] s2(2) by auto
  then show ?thesis using s1(1) s2(1) by (simp add: object_read_def skipTypeId_def endReadSlice_def)
qed

lemma readSlices_inv:
  assumes "ready s m (slices_bytes enc num m slices @ y)" and "graph_inv env heap (index_of num) objs done E D g"
    and "\<forall>j' \<ge> j. \<forall>k. Member n j' k \<notin> fst ` E" and "indices_ok num objs"
    and "\<forall>(tid, slots) \<in> set slices. typed env heap objs slots" and "slices_ok valid slices"
  shows "\<exists>s' g'. readSlices big env (read_ObjectPtr (Suc d) big env) True n j (map (\<lambda>(tid, slots). (tid, map field_of slots)) slices) (s, g) =
      Inr (s', g') \<and> ready s' (tids_next m slices) y \<and>
    graph_inv env heap (index_of num) objs done (E \<union> slices_placed n j slices) D g'"
  using assms
proof (induction m slices arbitrary: s E g j rule: tids_next.induct)
  case (1 m)
  then show ?case using object_read_inv [of s m y big] by (auto simp: onBuffer_def)
next
  case (2 m tid slots slices)
  have tid: "length tid < 2147483648" and ok: "typed env heap objs slots" "slots_ok valid slots" "slices_ok valid slices"
      "\<forall>(tid, slots) \<in> set slices. typed env heap objs slots"
    using "2.prems"(5,6) by (auto simp: slices_ok_def)
  have "ready s m (tid_bytes m tid @ (slice_bytes (body_bytes enc num slots) @ slices_bytes enc num (tid_next m tid) slices @ y))"
    using "2.prems"(1) by simp
  from ready_TypeId [OF this tid] obtain s1 where s1: "readTypeId big s = Inr (tid, s1)"
      "ready s1 (tid_next m tid) (slice_bytes (body_bytes enc num slots) @ slices_bytes enc num (tid_next m tid) slices @ y)" by blast
  have "\<forall>k. Member n j k \<notin> fst ` E" using "2.prems"(3) by simp
  from readSlice_inv [OF s1(2) "2.prems"(2) this "2.prems"(4) ok(1,2), of big d] obtain s2 s3 g3 where
    s3: "startReadSlice big s1 = Inr s2" "readMembers env (read_ObjectPtr (Suc d) big env) (Member n j) 0 (map field_of slots) (s2, g) = Inr (s3, g3)"
      "ready s3 (tid_next m tid) (slices_bytes enc num (tid_next m tid) slices @ y)"
      "graph_inv env heap (index_of num) objs done (E \<union> placed (Member n j) 0 slots) D g3" by blast
  have "\<forall>j' \<ge> Suc j. \<forall>k. Member n j' k \<notin> fst ` (E \<union> placed (Member n j) 0 slots)"
    using "2.prems"(3) by (auto dest!: placedD) (metis Suc_leD fst_conv image_eqI)
  from "2.IH" [OF s3(3,4) this "2.prems"(4) ok(4,3)] obtain s' g' where
    r: "readSlices big env (read_ObjectPtr (Suc d) big env) True n (Suc j) (map (\<lambda>(tid, slots). (tid, map field_of slots)) slices) (s3, g3) = Inr (s', g')"
      "ready s' (tids_next (tid_next m tid) slices) y"
      "graph_inv env heap (index_of num) objs done (E \<union> placed (Member n j) 0 slots \<union> slices_placed n (Suc j) slices) D g'" by blast
  have "readSlices big env (read_ObjectPtr (Suc d) big env) True n j (map (\<lambda>(tid, slots). (tid, map field_of slots)) ((tid, slots) # slices)) (s, g) = Inr (s', g')"
    using s1(1) s3(1,2) r(1) by (simp add: onBuffer_def skipTypeId_def endReadSlice_def del: read_ObjectPtr.simps)
  then show ?case using r(2,3) by (auto simp: Un_assoc simp del: read_ObjectPtr.simps)
qed

end

text \<open>
  What the reader has to know of an object: its most derived type id gives its class, whose layout is that of the object, and
  its pointers point to objects of their declared types.
\<close>

definition object_fits :: "('k, 'v) class_env \<Rightarrow> ('k \<Rightarrow> 'v \<Rightarrow> bool) \<Rightarrow> ('o \<Rightarrow> ('k, 'v, 'o) instance_of) \<Rightarrow> 'o set \<Rightarrow> 'o \<Rightarrow> bool" where
  "object_fits env valid heap objs p \<longleftrightarrow>
     (case heap p of (c, slices) \<Rightarrow>
        slices \<noteq> [] \<and> fst (hd slices) \<noteq> object_id \<and> createObject env (fst (hd slices)) = Some c \<and>
        ce_layout env c = map (\<lambda>(tid, slots). (tid, map field_of slots)) slices \<and>
        slices_ok valid slices \<and> (\<forall>(tid, slots) \<in> set slices. typed env heap objs slots))"

text \<open>The contents of the objects that have been created.\<close>

definition objects_placed :: "('o \<Rightarrow> ('k, 'v, 'o) instance_of) \<Rightarrow> nat \<Rightarrow> 'o list \<Rightarrow> (patch_addr \<times> ('k, 'v, 'o) slot) set" where
  "objects_placed heap n ps = (\<Union>i < length ps. slices_placed (n + i) 0 (snd (heap (ps ! i))))"

lemma objects_placed_Cons: "objects_placed heap n (p # ps) = slices_placed n 0 (snd (heap p)) \<union> objects_placed heap (Suc n) ps"
  by (simp add: objects_placed_def lessThan_Suc_eq_insert_0 image_image UN_extend_simps(10) del: UN_insert)

lemma objects_placed_append:
  "objects_placed heap n (ps @ us) = objects_placed heap n ps \<union> objects_placed heap (n + length ps) us"
proof (induction ps arbitrary: n)
  case Nil
  then show ?case by (simp add: objects_placed_def)
next
  case (Cons p ps)
  then show ?case using Cons.IH [of "Suc n"] by (simp add: objects_placed_Cons Un_assoc)
qed

context member_codec
begin

lemma read_object_inv:
  assumes "ready s m (le_bytes (index_of num p) @ slices_bytes enc num m (snd (heap p)) @ y)"
    and "graph_inv env heap (index_of num) objs done E {} g" and "\<forall>n \<ge> length done. \<forall>j k. Member n j k \<notin> fst ` E"
    and "indices_ok num objs" and p: "p \<in> objs" "p \<notin> set done" and fits: "object_fits env valid heap objs p"
  shows "\<exists>s' g'. read_ObjectPtr (Suc (Suc d)) big env None (s, g) = Inr (s', g') \<and> ready s' (tids_next m (snd (heap p))) y \<and>
    graph_inv env heap (index_of num) objs (done @ [p]) (E \<union> slices_placed (length done) 0 (snd (heap p))) {} g'"
proof -
  obtain c tid slots slices where h: "heap p = (c, (tid, slots) # slices)"
    using fits by (cases "heap p"; cases "snd (heap p)") (auto simp: object_fits_def)
  have f: "tid \<noteq> object_id" "createObject env tid = Some c"
      "ce_layout env c = (tid, map field_of slots) # map (\<lambda>(tid, slots). (tid, map field_of slots)) slices"
      "length tid < 2147483648" "slots_ok valid slots" "slices_ok valid slices" "typed env heap objs slots"
      "\<forall>(tid, slots) \<in> set slices. typed env heap objs slots"
    using fits h by (auto simp: object_fits_def slices_ok_def)
  let ?n = "length done" and ?i = "index_of num p"
  have pos: "0 < sint ?i" and inj: "inj_on (index_of num) objs" using assms(4) p(1) by (auto simp: indices_ok_def)
  have live: "rg_live g" "length (rg_classes g) = ?n" using assms(2) by (auto simp: graph_inv_def created_ok_def)
  have b: "beginRead (s, g) = (s, g)" by (rule beginRead_live [OF assms(1) live(1)])
  note i = ready_Int [OF assms(1), of big]
  have "ready (skip s 4) m (tid_bytes m tid @ (slice_bytes (body_bytes enc num slots) @ slices_bytes enc num (tid_next m tid) slices @ y))"
    using i h by simp
  from ready_TypeId [OF this f(4)] obtain s1 where s1: "readTypeId big (skip s 4) = Inr (tid, s1)"
      "ready s1 (tid_next m tid) (slice_bytes (body_bytes enc num slots) @ slices_bytes enc num (tid_next m tid) slices @ y)" by blast
  have cls: "findClass big env tid tid s1 = Inr (c, s1)" using f(1,2) by (simp add: findClass.simps [of big env tid tid])
  define g1 where "g1 = g\<lparr>rg_classes := rg_classes g @ [c], rg_unmarshaled := sm_insert ?i ?n (rg_unmarshaled g)\<rparr>"
  have inv1: "graph_inv env heap (index_of num) objs (done @ [p]) E {p} g1"
    using created_inv [OF assms(2) p inj] live(2) h by (simp add: g1_def)
  have fresh: "\<forall>k. Member ?n 0 k \<notin> fst ` E" using assms(3) by simp
  from readSlice_inv [OF s1(2) inv1 fresh assms(4) f(7,5), of big d] obtain s2 s3 g3 where
    s3: "startReadSlice big s1 = Inr s2" "readMembers env (read_ObjectPtr (Suc d) big env) (Member ?n 0) 0 (map field_of slots) (s2, g1) = Inr (s3, g3)"
      "ready s3 (tid_next m tid) (slices_bytes enc num (tid_next m tid) slices @ y)"
      "graph_inv env heap (index_of num) objs (done @ [p]) (E \<union> placed (Member ?n 0) 0 slots) {p} g3" by blast
  have "\<forall>j' \<ge> Suc 0. \<forall>k. Member ?n j' k \<notin> fst ` (E \<union> placed (Member ?n 0) 0 slots)"
    using assms(3) by (auto dest!: placedD)
  from readSlices_inv [OF s3(3,4) this assms(4) f(8,6), of big d] obtain s4 g4 where
    s4: "readSlices big env (read_ObjectPtr (Suc d) big env) True ?n (Suc 0) (map (\<lambda>(tid, slots). (tid, map field_of slots)) slices) (s3, g3) = Inr (s4, g4)"
      "ready s4 (tids_next (tid_next m tid) slices) y"
      "graph_inv env heap (index_of num) objs (done @ [p]) (E \<union> placed (Member ?n 0) 0 slots \<union> slices_placed ?n (Suc 0) slices) {p} g4" by blast
  obtain g5 where g5: "patchPointers env ?i g4 = Inr g5"
      "graph_inv env heap (index_of num) objs (done @ [p]) (E \<union> placed (Member ?n 0) 0 slots \<union> slices_placed ?n (Suc 0) slices) ({p} - {p}) g5"
    using patchPointers_inv [OF s4(3) p(1) inj] by blast
  have "readSlices big env (read_ObjectPtr (Suc d) big env) False ?n 0 (ce_layout env c) (s1, g1) = Inr (s4, g4)"
    using s3(1,2) s4(1) f(3) by (simp add: onBuffer_def skipTypeId_def endReadSlice_def del: read_ObjectPtr.simps)
  moreover have "?i \<noteq> 0" "\<not> sint ?i < 0" using pos by auto
  ultimately have "read_ObjectPtr (Suc (Suc d)) big env None (s, g) = Inr (s4, g5)"
    unfolding read_ObjectPtr.simps(2) [of "Suc d"]
    using b i s1(1) cls pos live(2) g5(1) by (simp add: g1_def del: read_ObjectPtr.simps)
  then show ?thesis using s4(2) g5(2) h by (auto simp: Un_assoc simp del: read_ObjectPtr.simps)
qed

lemma readInstances_inv:
  assumes "ready s m (objects_bytes enc num heap m ps @ y)" and "graph_inv env heap (index_of num) objs done E {} g"
    and "\<forall>n \<ge> length done. \<forall>j k. Member n j k \<notin> fst ` E" and "indices_ok num objs"
    and "set ps \<subseteq> objs" and "distinct ps" and "set ps \<inter> set done = {}" and "\<forall>p \<in> set ps. object_fits env valid heap objs p"
  shows "\<exists>s' g'. readInstances (Suc (Suc d)) big env (length ps) (s, g) = Inr (s', g') \<and> ready s' (objects_next heap m ps) y \<and>
    graph_inv env heap (index_of num) objs (done @ ps) (E \<union> objects_placed heap (length done) ps) {} g'"
  using assms
proof (induction ps arbitrary: s m g E "done")
  case Nil
  then show ?case by (simp add: objects_next_def objects_placed_def)
next
  case (Cons p ps)
  have "ready s m (le_bytes (index_of num p) @ slices_bytes enc num m (snd (heap p)) @ (objects_bytes enc num heap (tids_next m (snd (heap p))) ps @ y))"
    using Cons.prems(1) by simp
  from read_object_inv [OF this Cons.prems(2,3,4), of d big] Cons.prems(5,7,8) obtain s1 g1 where
    s1: "read_ObjectPtr (Suc (Suc d)) big env None (s, g) = Inr (s1, g1)"
      "ready s1 (tids_next m (snd (heap p))) (objects_bytes enc num heap (tids_next m (snd (heap p))) ps @ y)"
      "graph_inv env heap (index_of num) objs (done @ [p]) (E \<union> slices_placed (length done) 0 (snd (heap p))) {} g1" by auto
  have fresh: "\<forall>n \<ge> length (done @ [p]). \<forall>j k. Member n j k \<notin> fst ` (E \<union> slices_placed (length done) 0 (snd (heap p)))"
    using Cons.prems(3) by (auto dest!: slices_placedD) (metis Suc_leD fst_conv image_eqI)
  have rest: "set ps \<subseteq> objs" "distinct ps" "set ps \<inter> set (done @ [p]) = {}" "\<forall>p \<in> set ps. object_fits env valid heap objs p"
    using Cons.prems(5-8) by auto
  from Cons.IH [OF s1(2,3) fresh Cons.prems(4) rest] obtain s2 g2 where
    "readInstances (Suc (Suc d)) big env (length ps) (s1, g1) = Inr (s2, g2)" "ready s2 (objects_next heap (tids_next m (snd (heap p))) ps) y"
    "graph_inv env heap (index_of num) objs ((done @ [p]) @ ps)
       (E \<union> slices_placed (length done) 0 (snd (heap p)) \<union> objects_placed heap (length (done @ [p])) ps) {} g2" by blast
  then show ?case using s1(1)
    by (simp add: objects_next_def objects_placed_Cons Un_assoc del: read_ObjectPtr.simps)
qed

lemma length_objects_bytes: "length ps \<le> length (objects_bytes enc num heap m ps)"
  by (induction enc num heap m ps rule: objects_bytes.induct) auto

lemma readLoop_inv:
  assumes "ready s m (rounds_bytes enc num heap m rounds @ [0] @ y)" and "graph_inv env heap (index_of num) objs done E {} g"
    and "\<forall>n \<ge> length done. \<forall>j k. Member n j k \<notin> fst ` E" and "indices_ok num objs"
    and "set (concat rounds) \<subseteq> objs" and "distinct (concat rounds)" and "set (concat rounds) \<inter> set done = {}"
    and "\<forall>p \<in> set (concat rounds). object_fits env valid heap objs p" and "[] \<notin> set rounds"
  shows "\<exists>s' g'. readLoop (Suc (Suc d)) big env (s, g) = Some (Inr (s', g')) \<and> left s' y \<and>
    graph_inv env heap (index_of num) objs (done @ concat rounds) (E \<union> objects_placed heap (length done) (concat rounds)) {} g'"
  using assms
proof (induction rounds arbitrary: s m g E "done")
  case Nil
  have "size_bytes 0 = [0]" by (simp add: size_bytes_def)
  then obtain s1 where "readSize big s = Inr (0, s1)" "ready s1 m y" using ready_Size [of s m 0 y big] Nil.prems(1) by auto
  then show ?case using Nil.prems(2) ready_left by (subst readLoop.simps) (fastforce simp: objects_placed_def)
next
  case (Cons ps rounds)
  let ?k = "word_of_nat (length ps) :: ice_int" and ?rest = "rounds_bytes enc num heap (objects_next heap m ps) rounds @ [0] @ y"
  have r: "ready s m (size_bytes ?k @ (objects_bytes enc num heap m ps @ ?rest))" using Cons.prems(1) by simp
  then have "length (objects_bytes enc num heap m ps) < 2147483648" by (simp add: ready_def)
  then have len: "length ps < 2147483648" using length_objects_bytes [of ps num heap m] by linarith
  have k: "sint ?k = int (length ps)" by (rule sint_word_of_nat [OF len])
  have "ps \<noteq> []" using Cons.prems(9) by auto
  then have ne: "?k \<noteq> 0" using k by (metis length_0_conv of_nat_0_eq_iff signed_0)
  from ready_Size [OF r] k obtain s1 where s1: "readSize big s = Inr (?k, s1)" "ready s1 m (objects_bytes enc num heap m ps @ ?rest)" by auto
  have ps: "set ps \<subseteq> objs" "distinct ps" "set ps \<inter> set done = {}" "\<forall>p \<in> set ps. object_fits env valid heap objs p"
    using Cons.prems(5-8) by auto
  from readInstances_inv [OF s1(2) Cons.prems(2,3,4) ps, of d big] obtain s2 g2 where
    s2: "readInstances (Suc (Suc d)) big env (length ps) (s1, g) = Inr (s2, g2)" "ready s2 (objects_next heap m ps) ?rest"
      "graph_inv env heap (index_of num) objs (done @ ps) (E \<union> objects_placed heap (length done) ps) {} g2" by blast
  have fresh: "\<forall>n \<ge> length (done @ ps). \<forall>j k. Member n j k \<notin> fst ` (E \<union> objects_placed heap (length done) ps)"
    using Cons.prems(3) by (auto simp: objects_placed_def dest!: slices_placedD) (metis add_leD1 fst_conv image_eqI)
  have rest: "set (concat rounds) \<subseteq> objs" "distinct (concat rounds)" "set (concat rounds) \<inter> set (done @ ps) = {}"
      "\<forall>p \<in> set (concat rounds). object_fits env valid heap objs p" "[] \<notin> set rounds"
    using Cons.prems(5-9) by auto
  from Cons.IH [OF s2(2,3) fresh Cons.prems(4) rest] obtain s3 g3 where
    s3: "readLoop (Suc (Suc d)) big env (s2, g2) = Some (Inr (s3, g3))" "left s3 y"
      "graph_inv env heap (index_of num) objs ((done @ ps) @ concat rounds)
         (E \<union> objects_placed heap (length done) ps \<union> objects_placed heap (length (done @ ps)) (concat rounds)) {} g3" by blast
  have "readLoop (Suc (Suc d)) big env (s, g) = Some (Inr (s3, g3))"
    using s1(1) k ne s2(1) s3(1) by (subst readLoop.simps) simp
  then show ?case using s3(2,3) by (simp add: objects_placed_append Un_assoc)
qed

end

end
