(* ===== verification/ClassTransfer.thy ===== *)
theory ClassTransfer imports ClassRead begin

text \<open>
  A graph of objects from the sender to the receiver, with the members of Slice's basic types as an instance; and what
  messages that no sender produces do to the receiver.
\<close>

section \<open>Members of basic types\<close>

datatype basic_type = ByteT | BoolT | ShortT | IntT | LongT | FloatT | DoubleT | StringT

datatype basic_value =
    ByteV byte | BoolV bool | ShortV ice_short | IntV ice_int | LongV ice_long | FloatV "32 word" | DoubleV "64 word" | StringV string

fun basic_valid :: "basic_type \<Rightarrow> basic_value \<Rightarrow> bool" where
  "basic_valid ByteT (ByteV x) \<longleftrightarrow> True"
| "basic_valid BoolT (BoolV x) \<longleftrightarrow> True"
| "basic_valid ShortT (ShortV x) \<longleftrightarrow> True"
| "basic_valid IntT (IntV x) \<longleftrightarrow> True"
| "basic_valid LongT (LongV x) \<longleftrightarrow> True"
| "basic_valid FloatT (FloatV x) \<longleftrightarrow> True"
| "basic_valid DoubleT (DoubleV x) \<longleftrightarrow> True"
| "basic_valid StringT (StringV x) \<longleftrightarrow> length x < 2147483648"
| "basic_valid _ _ \<longleftrightarrow> False"

fun basic_bytes :: "basic_type \<Rightarrow> basic_value \<Rightarrow> byte list" where
  "basic_bytes _ (ByteV x) = [x]"
| "basic_bytes _ (BoolV x) = [if x then 1 else 0]"
| "basic_bytes _ (ShortV x) = le_bytes x"
| "basic_bytes _ (IntV x) = le_bytes x"
| "basic_bytes _ (LongV x) = le_bytes x"
| "basic_bytes _ (FloatV x) = le_bytes x"
| "basic_bytes _ (DoubleV x) = le_bytes x"
| "basic_bytes _ (StringV x) = string_bytes x"

fun basic_write :: "bool \<Rightarrow> basic_type \<Rightarrow> basic_value \<Rightarrow> writer" where
  "basic_write big _ (ByteV x) = write_Byte x"
| "basic_write big _ (BoolV x) = write_bool x"
| "basic_write big _ (ShortV x) = write_Short big x"
| "basic_write big _ (IntV x) = write_Int big x"
| "basic_write big _ (LongV x) = write_Long big x"
| "basic_write big _ (FloatV x) = write_Float big x"
| "basic_write big _ (DoubleV x) = write_Double big x"
| "basic_write big _ (StringV x) = write_string big None True x"

fun basic_read :: "bool \<Rightarrow> basic_type \<Rightarrow> basic_value reader" where
  "basic_read big ByteT = rbind read_Byte (\<lambda>x. rret (ByteV x))"
| "basic_read big BoolT = rbind read_bool (\<lambda>x. rret (BoolV x))"
| "basic_read big ShortT = rbind (read_Short big) (\<lambda>x. rret (ShortV x))"
| "basic_read big IntT = rbind (read_Int big) (\<lambda>x. rret (IntV x))"
| "basic_read big LongT = rbind (read_Long big) (\<lambda>x. rret (LongV x))"
| "basic_read big FloatT = rbind (read_Float big) (\<lambda>x. rret (FloatV x))"
| "basic_read big DoubleT = rbind (read_Double big) (\<lambda>x. rret (DoubleV x))"
| "basic_read big StringT = rbind (read_string big None True) (\<lambda>x. rret (StringV x))"

lemma basic_cases:
  assumes "basic_valid ty v"
  obtains (Byte) x where "ty = ByteT" "v = ByteV x" | (Bool) x where "ty = BoolT" "v = BoolV x"
    | (Short) x where "ty = ShortT" "v = ShortV x" | (Int) x where "ty = IntT" "v = IntV x"
    | (Long) x where "ty = LongT" "v = LongV x" | (Float) x where "ty = FloatT" "v = FloatV x"
    | (Double) x where "ty = DoubleT" "v = DoubleV x" | (String) x where "ty = StringT" "v = StringV x" "length x < 2147483648"
  using assms by (cases "(ty, v)" rule: basic_valid.cases) auto

lemmas basic_fits =
  byte_codec.write_fits bool_codec.write_fits short_codec.write_fits int_codec.write_fits long_codec.write_fits
  float_codec.write_fits double_codec.write_fits string_codec.write_fits

lemma basic_codec: "wire_codec (basic_valid ty) (basic_bytes ty) (basic_write big ty) (basic_read big ty) (\<lambda>_. True)"
proof unfold_locales
  fix v and s s' :: stream
  assume v: "basic_valid ty v"
  show "length (buf s) + length (basic_bytes ty v) \<le> messageSizeMax s \<Longrightarrow> basic_write big ty v s = Inr (s\<lparr>buf := buf s @ basic_bytes ty v\<rparr>)"
    using v by (cases rule: basic_cases) (simp_all add: basic_fits)
  show "basic_write big ty v s = Inr s' \<Longrightarrow> s' = s\<lparr>buf := buf s @ basic_bytes ty v\<rparr>"
    using v
    by (cases rule: basic_cases)
      (auto dest: byte_codec.write_appends [OF TrueI] bool_codec.write_appends [OF TrueI] short_codec.write_appends [OF TrueI]
        int_codec.write_appends [OF TrueI] long_codec.write_appends [OF TrueI] float_codec.write_appends [OF TrueI]
        double_codec.write_appends [OF TrueI] string_codec.write_appends)
next
  fix v s pre post
  assume v: "basic_valid ty v" and at: "at s pre (basic_bytes ty v) post"
  show "basic_read big ty s = Inr (v, skip s (length (basic_bytes ty v)))"
    using v
  proof (cases rule: basic_cases)
    case (Byte x)
    then show ?thesis using byte_codec.read_back [OF TrueI TrueI, of s pre x post] at by (simp add: rbind_def rret_def)
  next
    case (Bool x)
    then show ?thesis using bool_codec.read_back [OF TrueI TrueI, of s pre x post] at by (simp add: rbind_def rret_def)
  next
    case (Short x)
    then show ?thesis using short_codec.read_back [OF TrueI TrueI, of s pre x post big] at by (simp add: rbind_def rret_def)
  next
    case (Int x)
    then show ?thesis using int_codec.read_back [OF TrueI TrueI, of s pre x post big] at by (simp add: rbind_def rret_def)
  next
    case (Long x)
    then show ?thesis using long_codec.read_back [OF TrueI TrueI, of s pre x post big] at by (simp add: rbind_def rret_def)
  next
    case (Float x)
    then show ?thesis using float_codec.read_back [OF TrueI TrueI, of s pre x post big] at by (simp add: rbind_def rret_def)
  next
    case (Double x)
    then show ?thesis using double_codec.read_back [OF TrueI TrueI, of s pre x post big] at by (simp add: rbind_def rret_def)
  next
    case (String x)
    then show ?thesis using string_codec.read_back [OF _ TrueI, of x s pre post big True] at by (simp add: rbind_def rret_def)
  qed
qed simp

text \<open>Classes with members of basic types and pointers; static factories only.\<close>

definition basic_env ::
  "bool \<Rightarrow> (string \<Rightarrow> (string \<times> basic_type field list) list) \<Rightarrow> (string \<Rightarrow> string \<Rightarrow> bool) \<Rightarrow> (string \<Rightarrow> string option)
     \<Rightarrow> (basic_type, basic_value) class_env" where
  "basic_env big layout isA static =
     \<lparr>ce_write = basic_write big, ce_read = basic_read big, ce_layout = layout, ce_isA = isA, ce_user = (\<lambda>_ _. None),
      ce_static = static, ce_slice = True\<rparr>"

interpretation basic_members: member_codec basic_valid basic_bytes "basic_env big layout isA static" for big layout isA static
  by (rule member_codec.intro) (simp add: basic_env_def basic_codec)

section \<open>The first pointer\<close>

text \<open>The maps are allocated by the first pointer among the parameters; allocating them before changes nothing.\<close>

definition fresh_writer :: "stream \<Rightarrow> bool" where
  "fresh_writer s \<longleftrightarrow> (\<forall>e es. writeEncapsStack s = e # es \<longrightarrow> we_typeIdIndex e = 0)"

definition fresh_reader :: "stream \<Rightarrow> bool" where
  "fresh_reader s \<longleftrightarrow> (\<forall>e es. readEncapsStack s = e # es \<longrightarrow> re_typeIdIndex e = 0)"

lemma beginWrite_new:
  fixes g :: "'o::linorder write_graph"
  assumes "fresh_writer s" and "beginWrite (s, write_graph_new) = (s', g)"
  shows "writing [] (s', g)" "buf s' = buf s" "known g = {}" "items g = {}" "beginWrite (s', g) = (s', g)"
proof -
  have g: "g = write_graph_new\<lparr>wg_live := True\<rparr>" "buf s' = buf s" "wtop s' []"
    using assms by (auto simp: beginWrite_def Let_def write_graph_new_def fresh_writer_def wtop_def split: list.splits)
  have i: "items g = {}" using g(1) by (simp add: items_def write_graph_new_def)
  have "writing [] (s', g)"
    using g i by (auto simp: writing_def numbers_ok_def named_def known_def write_graph_new_def bij_betw_def)
  then show "writing [] (s', g)" "buf s' = buf s" "known g = {}" "items g = {}" "beginWrite (s', g) = (s', g)"
    using g(2) i begin_live by (auto simp: known_def)
qed

context member_codec
begin

lemma writeParams_Inr:
  fixes slots :: "('k, 'v, 'o::linorder) slot list"
  assumes "fresh_writer s" and "slots_ok valid slots" and "Ref t p \<in> set slots"
    and "writeMembers big env slots (s, write_graph_new) = Inr (s', g')"
  shows "writing [] (s', g') \<and> known g' = targets slots \<and> wg_marshaled g' = [] \<and> card (known g') + length (buf s) \<le> length (buf s') \<and>
    (\<forall>num. named num g' \<longrightarrow> buf s' = buf s @ body_bytes enc num slots)"
  using assms
proof (induction slots arbitrary: s)
  case (Cons slot slots)
  have ok: "slots_ok valid slots" using Cons.prems(2) by (auto simp: slots_ok_def)
  show ?case
  proof (cases slot)
    case (Value k x)
    have v: "valid k x" using Cons.prems(2) Value by (auto simp: slots_ok_def)
    obtain s1 where w: "ce_write env k x s = Inr s1" "writeMembers big env slots (s1, write_graph_new) = Inr (s', g')"
      using Cons.prems(4) Value by (auto simp: onStream_def andThen_eq_Inr)
    have s1: "s1 = s\<lparr>buf := buf s @ enc k x\<rparr>" by (rule wire_codec.write_appends [OF codec v w(1)])
    have "fresh_writer s1" "Ref t p \<in> set slots" using Cons.prems(1,3) s1 Value by (simp_all add: fresh_writer_def)
    from Cons.IH [OF this(1) ok this(2) w(2)] show ?thesis unfolding Value s1 by (auto simp: body_bytes_def)
  next
    case (Ref t' p')
    obtain s0 g0 where b: "beginWrite (s, write_graph_new :: 'o write_graph) = (s0, g0)" by (cases "beginWrite (s, write_graph_new :: 'o write_graph)")
    note n = beginWrite_new [OF Cons.prems(1) b]
    obtain s1 g1 where w: "write_ObjectPtr big p' (s, write_graph_new) = Inr (s1, g1)" "writeMembers big env slots (s1, g1) = Inr (s', g')"
      using Cons.prems(4) Ref by (auto simp: andThen_eq_Inr)
    have "write_ObjectPtr big p' (s0, g0) = Inr (s1, g1)" using w(1) b n(5) by (simp add: write_ObjectPtr_def)
    note r = write_ObjectPtr_Inr [OF n(1) this]
    note m = writeMembers_Inr [OF r(1) ok w(2)]
    have gr: "grows (s0, g0) (s', g')" using grows_trans [OF r(2)] m by blast
    have "wg_marshaled g0 = []" using n(4) by (simp add: items_def)
    then have mar: "wg_marshaled g' = []" using m r(4) by simp
    have kn: "known g' = targets (slot # slots)" using m r(3) n(3) Ref by auto
    have bytes: "buf s' = buf s @ body_bytes enc num (slot # slots)" if "named num g'" for num
    proof -
      have "named num g1" using grows_named [of num "(s', g')" "(s1, g1)"] m that by simp
      then show ?thesis using m that r(6) n(2) by (simp add: Ref body_bytes_def)
    qed
    have "card (known g') + length (buf s) \<le> length (buf s')"
      using growsD(5) [OF gr] n(2,3) by simp
    then show ?thesis using m mar kn bytes by blast
  qed
qed simp

end

lemma beginRead_new:
  assumes "fresh_reader s" and "beginRead (s, read_graph_new) = (s', g)" and "left s bs" and "length bs < 2147483648"
  shows "ready s' [] bs" "graph_inv env heap idx objs [] {} {} g"
proof -
  have g: "g = read_graph_new\<lparr>rg_live := True\<rparr>" "buf s' = buf s" "rpos s' = rpos s"
      "\<exists>e es. readEncapsStack s' = e # es \<and> re_typeIdMap e = Some [] \<and> re_typeIdIndex e = 0"
    using assms(1,2) by (auto simp: beginRead_def Let_def read_graph_new_def fresh_reader_def split: list.splits)
  have "left s' bs" using assms(3) g(2,3) by (simp add: left_def at_def)
  then show "ready s' [] bs" using g(4) assms(4) by (auto simp: ready_def)
  show "graph_inv env heap idx objs [] {} {} g" using g(1) by (simp add: graph_defs read_graph_new_def)
qed

lemma read_ObjectPtr_begin: "read_ObjectPtr d big env target (beginRead st) = read_ObjectPtr d big env target st"
proof -
  have "beginRead (beginRead st) = beginRead st" by (auto simp: beginRead_def Let_def split: list.splits)
  then show ?thesis by (cases d) simp_all
qed

context member_codec
begin

lemma readMembers_begin:
  assumes "left s (body_bytes enc num slots @ y)" and "slots_ok valid slots" and "Ref t p \<in> set slots"
  shows "readMembers env (read_ObjectPtr d big env) a k (map field_of slots) (beginRead (s, g)) =
    readMembers env (read_ObjectPtr d big env) a k (map field_of slots) (s, g)"
  using assms
proof (induction slots arbitrary: s g k)
  case (Cons slot slots)
  show ?case
  proof (cases slot)
    case (Ref t' p')
    then show ?thesis by (simp add: read_ObjectPtr_begin)
  next
    case (Value ty x)
    have v: "valid ty x" and ok: "slots_ok valid slots" "Ref t p \<in> set slots" using Cons.prems(2,3) Value by (auto simp: slots_ok_def)
    obtain s' g' where b: "beginRead (s, g) = (s', g')" by (cases "beginRead (s, g)")
    let ?n = "length (enc ty x)" and ?g = "g\<lparr>rg_values := (rg_values g)(a k := Some x)\<rparr>" and ?g' = "g'\<lparr>rg_values := (rg_values g')(a k := Some x)\<rparr>"
    have l: "left s (enc ty x @ (body_bytes enc num slots @ y))" using Cons.prems(1) Value by (simp add: body_bytes_def)
    have "buf s' = buf s" "rpos s' = rpos s" using b by (auto simp: beginRead_def Let_def split: if_splits)
    then have l': "left s' (enc ty x @ (body_bytes enc num slots @ y))" using l by (simp add: left_def at_def)
    have r: "ce_read env ty s = Inr (x, skip s ?n)" "ce_read env ty s' = Inr (x, skip s' ?n)"
      using wire_codec.read_back [OF codec v TrueI left_at [OF l]] wire_codec.read_back [OF codec v TrueI left_at [OF l']] by auto
    have "beginRead (skip s ?n, ?g) = (skip s' ?n, ?g')"
      using b by (auto simp: beginRead_def Let_def skip_def split: if_splits list.splits)
    then have "readMembers env (read_ObjectPtr d big env) a (Suc k) (map field_of slots) (skip s' ?n, ?g') =
        readMembers env (read_ObjectPtr d big env) a (Suc k) (map field_of slots) (skip s ?n, ?g)"
      using Cons.IH [OF left_skip [OF l] ok, of "Suc k" ?g] by simp
    then show ?thesis using r b Value by simp
  qed
qed simp

end

section \<open>The theorem\<close>

text \<open>
  What it means that a graph has arrived: \<open>f\<close> gives the new object for every old one that can be reached, each is new
  object of one old, classes are the same, values are the same, and pointers point to the new objects for those they
  pointed to; every new object has been told once.
\<close>

definition same_slot :: "('o \<Rightarrow> nat) \<Rightarrow> 'o set \<Rightarrow> 'v read_graph \<Rightarrow> patch_addr \<Rightarrow> ('k, 'v, 'o) slot \<Rightarrow> bool" where
  "same_slot f R g a slot \<longleftrightarrow>
     (case slot of Value ty x \<Rightarrow> rg_values g a = Some x | Ref t p \<Rightarrow> set_option p \<subseteq> R \<and> rg_refs g a = map_option f p)"

definition copied :: "('o \<Rightarrow> ('k, 'v, 'o) instance_of) \<Rightarrow> ('k, 'v, 'o) slot list \<Rightarrow> ('o \<Rightarrow> nat) \<Rightarrow> 'o set \<Rightarrow> 'v read_graph \<Rightarrow> bool" where
  "copied heap params f R g \<longleftrightarrow>
     bij_betw f R {..<length (rg_classes g)} \<and> rg_told g = [0..<length (rg_classes g)] \<and>
     (\<forall>k < length params. same_slot f R g (Root k) (params ! k)) \<and>
     (\<forall>p \<in> R. rg_classes g ! f p = fst (heap p) \<and>
        (\<forall>j < length (snd (heap p)). \<forall>k < length (snd (snd (heap p) ! j)).
           same_slot f R g (Member (f p) j k) (snd (snd (heap p) ! j) ! k)))"

lemma settled:
  assumes inv: "graph_inv env heap idx (set done) done E {} g" and x: "(a, slot) \<in> E"
  shows "same_slot (pos done) (set done) g a slot"
proof -
  have "sm_find i (rg_patchMap g) = None" for i
  proof (cases "sm_find i (rg_patchMap g)")
    case (Some entries)
    moreover have "patches_ok env heap idx (set done) done E {} g" using inv by (simp add: graph_inv_def)
    ultimately show ?thesis unfolding patches_ok_def by blast
  qed
  moreover have "in_place idx done g (a, slot)" using inv x by (simp add: graph_inv_def)
  ultimately show ?thesis by (cases "(idx, done, g, a, slot)" rule: in_place.cases) (auto simp: same_slot_def)
qed

lemma pos_bij:
  assumes "distinct ps"
  shows "bij_betw (pos ps) (set ps) {..<length ps}"
proof (rule bij_betw_imageI)
  show "inj_on (pos ps) (set ps)" using pos_nth by (metis inj_onI)
  show "pos ps ` set ps = {..<length ps}"
  proof
    show "pos ps ` set ps \<subseteq> {..<length ps}" by (auto dest: pos_nth)
    show "{..<length ps} \<subseteq> pos ps ` set ps"
    proof
      fix i assume "i \<in> {..<length ps}"
      then have i: "ps ! i \<in> set ps" "i < length ps" by auto
      then have "pos ps (ps ! i) = i" using pos_nth [OF i(1)] nth_eq_iff_index_eq [OF assms] by blast
      then show "i \<in> pos ps ` set ps" using i(1) by (metis image_eqI)
    qed
  qed
qed

lemma arrived:
  assumes inv: "graph_inv env heap idx (set ps) ps (placed Root 0 params \<union> objects_placed heap 0 ps) {} g" and d: "distinct ps"
  shows "copied heap params (pos ps) (set ps) (g\<lparr>rg_told := rg_told g @ [0..<length (rg_classes g)]\<rparr>)"
proof -
  let ?g = "g\<lparr>rg_told := rg_told g @ [0..<length (rg_classes g)]\<rparr>"
  have c: "rg_classes g = map (fst \<circ> heap) ps" "rg_told g = []" using inv by (simp_all add: graph_inv_def created_ok_def)
  have same: "same_slot (pos ps) (set ps) ?g a slot" if "(a, slot) \<in> placed Root 0 params \<union> objects_placed heap 0 ps" for a slot
    using settled [OF inv that] by (cases slot) (simp_all add: same_slot_def)
  have "same_slot (pos ps) (set ps) ?g (Root k) (params ! k)" if "k < length params" for k
    using same placed_at [OF that, of Root 0] by simp
  moreover have "rg_classes ?g ! pos ps p = fst (heap p)" if "p \<in> set ps" for p using c(1) pos_nth [OF that] by simp
  moreover have "same_slot (pos ps) (set ps) ?g (Member (pos ps p) j k) (snd (snd (heap p) ! j) ! k)"
    if p: "p \<in> set ps" and jk: "j < length (snd (heap p))" "k < length (snd (snd (heap p) ! j))" for p j k
  proof (rule same)
    have "(Member (pos ps p) j k, snd (snd (heap p) ! j) ! k) \<in> slices_placed (pos ps p) 0 (snd (heap (ps ! pos ps p)))"
      using slices_placed_at [OF jk, of "pos ps p" 0] pos_nth [OF p] by simp
    then show "(Member (pos ps p) j k, snd (snd (heap p) ! j) ! k) \<in> placed Root 0 params \<union> objects_placed heap 0 ps"
      unfolding objects_placed_def using pos_nth [OF p] by (intro UnI2 UN_I [of "pos ps p"]) auto
  qed
  ultimately show ?thesis using pos_bij [OF d] c by (simp add: copied_def)
qed

lemma same_numbers:
  assumes "inj_on num R" and "\<forall>v \<in> R. 0 < num v \<and> num v < 2147483648"
  shows "indices_ok num R"
proof -
  have sint: "sint (index_of num v) = int (num v)" if "v \<in> R" for v
  proof (rule sint_word_of_nat)
    show "num v < 2147483648" using assms(2) that by blast
  qed
  have "inj_on (index_of num) R"
  proof (rule inj_onI)
    fix u v assume u: "u \<in> R" and v: "v \<in> R" and eq: "index_of num u = index_of num v"
    have "int (num u) = int (num v)" using sint [OF u] sint [OF v] unfolding eq by (rule trans [OF sym])
    then show "u = v" using inj_onD [OF assms(1) _ u v] by simp
  qed
  then show ?thesis unfolding indices_ok_def using sint assms(2) by auto
qed

lemma typed_sub: "typed env heap objs slots \<Longrightarrow> targets slots \<subseteq> R \<Longrightarrow> typed env heap R slots"
  unfolding typed_def targets_def by blast

lemma fits_sub:
  assumes "object_fits env valid heap objs p" and "pointers (snd (heap p)) \<subseteq> R"
  shows "object_fits env valid heap R p"
proof -
  obtain c slices where h: "heap p = (c, slices)" by (cases "heap p")
  have "typed env heap R slots" if "(tid, slots) \<in> set slices" for tid slots
  proof (rule typed_sub)
    show "typed env heap objs slots" using assms(1) h that by (auto simp: object_fits_def)
    show "targets slots \<subseteq> R" using assms(2) h that by (auto simp: pointers_def)
  qed
  then show ?thesis using assms(1) h by (auto simp: object_fits_def)
qed

lemma fits_closed:
  assumes "object_fits env valid heap objs p"
  shows "slices_ok valid (snd (heap p))" "pointers (snd (heap p)) \<subseteq> objs"
  using assms by (auto simp: object_fits_def pointers_def targets_def typed_def split: prod.splits)

text \<open>What is sent: the rounds of a numbering of the objects that can be reached.\<close>

definition sent :: "('o \<Rightarrow> ('k, 'v, 'o) instance_of) \<Rightarrow> ('k, 'v, 'o) slot list \<Rightarrow> ('o \<Rightarrow> nat) \<Rightarrow> 'o list list \<Rightarrow> bool" where
  "sent heap params num rounds \<longleftrightarrow>
     (let R = set (concat rounds)
      in distinct (concat rounds) \<and> [] \<notin> set rounds \<and> bij_betw num R {1..card R} \<and> targets params \<subseteq> R \<and>
         (\<forall>p \<in> R. pointers (snd (heap p)) \<subseteq> R))"

context member_codec
begin

lemma graph_sent:
  fixes heap :: "'o::linorder \<Rightarrow> ('k, 'v, 'o) instance_of"
  assumes "finite objs" and "\<forall>p \<in> objs. slices_ok valid (snd (heap p)) \<and> pointers (snd (heap p)) \<subseteq> objs"
    and "slots_ok valid params" and "Ref t q \<in> set params" and "targets params \<subseteq> objs" and "fresh_writer s0"
    and "writeMembers big env params (s0, write_graph_new) = Inr (s1, g1)"
  shows "\<exists>r. writePendingObjects big env heap (s1, g1) = Some r \<and>
    (\<forall>s2 g2. r = Inr (s2, g2) \<longrightarrow> (\<exists>num rounds. sent heap params num rounds \<and> set (concat rounds) \<subseteq> objs \<and>
       card (set (concat rounds)) \<le> length (buf s2) \<and>
       buf s2 = buf s0 @ body_bytes enc num params @ rounds_bytes enc num heap [] rounds @ [0]))"
proof -
  have w: "writing [] (s1, g1)" "known g1 = targets params" "wg_marshaled g1 = []" "card (known g1) + length (buf s0) \<le> length (buf s1)"
      "\<And>num. named num g1 \<Longrightarrow> buf s1 = buf s0 @ body_bytes enc num params"
    using writeParams_Inr [OF assms(6,3,4,7)] by blast+
  have "known g1 \<subseteq> objs" "toBe g1 \<inter> marshaled g1 = {}" using w(2,3) assms(5) by auto
  from writeLoop_ends [OF assms(1,2) w(1) this, of big] obtain r where r: "writeLoop big env heap (s1, g1) = Some r"
      "\<And>st'. r = Inr st' \<Longrightarrow> known (snd st') \<subseteq> objs \<and> (\<exists>rounds. written heap enc [] (s1, g1) st' rounds)" by blast
  have "writePendingObjects big env heap (s1, g1) = Some (andThen r (onStream (writeSize big 0)))"
    using w(1) r(1) by (auto simp: writePendingObjects_def writing_def wtop_def)
  moreover have "\<exists>num rounds. sent heap params num rounds \<and> set (concat rounds) \<subseteq> objs \<and>
       card (set (concat rounds)) \<le> length (buf s2) \<and>
       buf s2 = buf s0 @ body_bytes enc num params @ rounds_bytes enc num heap [] rounds @ [0]"
    if last: "andThen r (onStream (writeSize big 0)) = Inr (s2, g2)" for s2 g2
  proof -
    obtain st' where st': "r = Inr st'" "onStream (writeSize big 0) st' = Inr (s2, g2)" using last by (auto simp: andThen_eq_Inr)
    obtain s' where s': "r = Inr (s', g2)" "writeSize big 0 s' = Inr s2"
      using st' by (cases st') (auto simp: onStream_def andThen_eq_Inr)
    have z: "buf s2 = buf s' @ [0]" using writeSize_Inr [OF s'(2)] by (simp add: size_bytes_def)
    obtain rounds where k: "known g2 \<subseteq> objs" and wr: "written heap enc [] (s1, g1) (s', g2) rounds" using r(2) [OF s'(1)] by auto
    have empty: "marshaled g1 = {}" using w(3) by simp
    have rd: "distinct (concat rounds)" "[] \<notin> set rounds" "known g2 = set (concat rounds)" "numbers_ok g2" "items g1 \<subseteq> items g2"
        "card (known g2) + length (buf s1) \<le> card (known g1) + length (buf s')"
        "\<forall>p \<in> set (concat rounds). pointers (snd (heap p)) \<subseteq> known g2"
        "\<And>num. named num g2 \<Longrightarrow> buf s' = buf s1 @ rounds_bytes enc num heap [] rounds"
      using wr unfolding written_def fst_conv snd_conv empty Un_empty_left by blast+
    obtain num where num: "named num g2" "bij_betw num (known g2) {1..card (known g2)}" using rd(4) by (auto simp: numbers_ok_def)
    have "known g1 \<subseteq> known g2" using rd(5) by (auto simp: known_def)
    then have "sent heap params num rounds" using rd(1,2,7) num(2) w(2) unfolding sent_def Let_def rd(3) by blast
    moreover have "buf s' = (buf s0 @ body_bytes enc num params) @ rounds_bytes enc num heap [] rounds"
      using rd(8) [OF num(1)] w(5) [OF named_sub [OF num(1) rd(5)]] by simp
    moreover have "card (set (concat rounds)) \<le> length (buf s2)" using rd(6) w(4) z unfolding rd(3) by simp
    ultimately show ?thesis using k z unfolding rd(3) by auto
  qed
  ultimately show ?thesis by blast
qed

lemma graph_arrives:
  assumes "sent heap params num rounds" and "card (set (concat rounds)) < 2147483648"
    and "set (concat rounds) \<subseteq> objs" and fits: "\<forall>p \<in> objs. object_fits env valid heap objs p" and "typed env heap objs params"
    and "slots_ok valid params" and "Ref t q \<in> set params" and "fresh_reader s"
    and bytes: "left s (body_bytes enc num params @ rounds_bytes enc num heap [] rounds @ [0] @ y)"
    and "length (body_bytes enc num params @ rounds_bytes enc num heap [] rounds @ [0] @ y) < 2147483648"
  shows "\<exists>st s' g' f. readMembers env (read_ObjectPtr 2 big env) Root 0 (map field_of params) (s, read_graph_new) = Inr st \<and>
    readPendingObjects 2 big env st = Some (Inr (s', g')) \<and> left s' y \<and> copied heap params f (set (concat rounds)) g'"
proof -
  define ps where "ps = concat rounds"
  have sent: "distinct ps" "[] \<notin> set rounds" "bij_betw num (set ps) {1..card (set ps)}" "targets params \<subseteq> set ps"
      "\<forall>p \<in> set ps. pointers (snd (heap p)) \<subseteq> set ps"
    using assms(1) unfolding sent_def Let_def ps_def by blast+
  have idx: "indices_ok num (set ps)"
  proof (rule same_numbers)
    show "inj_on num (set ps)" using sent(3) by (rule bij_betw_imp_inj_on)
    have "num v \<in> {1..card (set ps)}" if "v \<in> set ps" for v using sent(3) that by (rule bij_betwE [rule_format])
    then show "\<forall>v \<in> set ps. 0 < num v \<and> num v < 2147483648" using assms(2) unfolding ps_def by fastforce
  qed
  have fits': "\<forall>p \<in> set ps. object_fits env valid heap (set ps) p"
  proof
    fix p assume p: "p \<in> set ps"
    show "object_fits env valid heap (set ps) p"
    proof (rule fits_sub)
      show "object_fits env valid heap objs p" using fits assms(3) p unfolding ps_def by blast
      show "pointers (snd (heap p)) \<subseteq> set ps" using sent(5) p by blast
    qed
  qed
  have typed': "typed env heap (set ps) params" by (rule typed_sub [OF assms(5) sent(4)])
  obtain s1 and g1 :: "'v read_graph" where b: "beginRead (s, read_graph_new) = (s1, g1)" by (rule prod.exhaust)
  note n = beginRead_new [OF assms(8) b bytes assms(10)]
  have injRoot: "inj Root" by (simp add: inj_def)
  obtain s2 g2 where m: "readMembers env (read_ObjectPtr 2 big env) Root 0 (map field_of params) (s1, g1) = Inr (s2, g2)"
      "ready s2 [] (rounds_bytes enc num heap [] rounds @ [0] @ y)"
      "graph_inv env heap (index_of num) (set ps) [] ({} \<union> placed Root 0 params) {} g2"
    using readMembers_inv [OF n(1) n(2) _ injRoot idx typed' assms(6), of 0 "Suc 0" big] unfolding numeral_2_eq_2
    by (simp del: read_ObjectPtr.simps) blast
  have fresh: "\<forall>n \<ge> length []. \<forall>j k. Member n j k \<notin> fst ` ({} \<union> placed Root 0 params)" by (auto dest!: placedD)
  obtain s3 g3 where l: "readLoop 2 big env (s2, g2) = Some (Inr (s3, g3))" "left s3 y"
      "graph_inv env heap (index_of num) (set ps) ps (placed Root 0 params \<union> objects_placed heap 0 ps) {} g3"
    using readLoop_inv [OF m(2,3) fresh idx _ _ _ _ sent(2), of 0 big] sent(1) fits' unfolding ps_def numeral_2_eq_2
    by (simp del: read_ObjectPtr.simps) blast
  have "readMembers env (read_ObjectPtr 2 big env) Root 0 (map field_of params) (s, read_graph_new) = Inr (s2, g2)"
    using m(1) unfolding b [symmetric] readMembers_begin [OF bytes assms(6,7)] .
  moreover have "readPendingObjects 2 big env (s2, g2) = Some (Inr (s3, g3\<lparr>rg_told := rg_told g3 @ [0..<length (rg_classes g3)]\<rparr>))"
    using l(1) by (simp add: readPendingObjects_def)
  ultimately show ?thesis using l(2) arrived [OF l(3) sent(1)] unfolding ps_def by blast
qed

end

text \<open>
  C17: a graph of objects, cycles and shared objects included, survives the wire: after parameters with pointers into the
  graph have been written, \<open>writePendingObjects\<close> returns, and if it did not throw, a receiver that knows the classes reads
  the parameters and the pending objects without an error up to the end of the bytes, and then has exactly one new object
  for each object that could be reached, with its class and its values, every pointer pointing to the new object for the
  one it pointed to, and \<open>ice_postUnmarshal\<close> called once on each.
\<close>

theorem object_graph_roundtrip:
  fixes heap :: "'o::linorder \<Rightarrow> ('k, 'v, 'o) instance_of"
  assumes sender: "member_codec valid enc env" and receiver: "member_codec valid enc env'"
    and "finite objs" and fits: "\<forall>p \<in> objs. object_fits env' valid heap objs p"
    and typed: "typed env' heap objs params" and ok: "slots_ok valid params" and ref: "Ref t q \<in> set params"
    and fresh: "fresh_writer s0" and params: "writeMembers big env params (s0, write_graph_new) = Inr st1"
  shows "\<exists>r. writePendingObjects big env heap st1 = Some r \<and>
    (\<forall>s2 g2. r = Inr (s2, g2) \<longrightarrow> length (buf s2) < 2147483648 \<longrightarrow>
       (\<exists>bs. buf s2 = buf s0 @ bs \<and>
          (\<forall>s y. left s (bs @ y) \<longrightarrow> length (bs @ y) < 2147483648 \<longrightarrow> fresh_reader s \<longrightarrow>
             (\<exists>st s' g' f R.
                readMembers env' (read_ObjectPtr 2 big' env') Root 0 (map field_of params) (s, read_graph_new) = Inr st \<and>
                readPendingObjects 2 big' env' st = Some (Inr (s', g')) \<and> left s' y \<and>
                R \<subseteq> objs \<and> copied heap params f R g'))))"
proof -
  obtain s1 g1 where st1: "st1 = (s1, g1)" by (cases st1)
  have "\<forall>p \<in> objs. slices_ok valid (snd (heap p)) \<and> pointers (snd (heap p)) \<subseteq> objs"
  proof
    fix p assume "p \<in> objs"
    then have "object_fits env' valid heap objs p" using fits by blast
    from fits_closed [OF this] show "slices_ok valid (snd (heap p)) \<and> pointers (snd (heap p)) \<subseteq> objs" ..
  qed
  moreover have "targets params \<subseteq> objs" using typed by (auto simp: typed_def targets_def)
  ultimately obtain r where r: "writePendingObjects big env heap (s1, g1) = Some r"
      "\<And>s2 g2. r = Inr (s2, g2) \<Longrightarrow> \<exists>num rounds. sent heap params num rounds \<and> set (concat rounds) \<subseteq> objs \<and>
         card (set (concat rounds)) \<le> length (buf s2) \<and>
         buf s2 = buf s0 @ body_bytes enc num params @ rounds_bytes enc num heap [] rounds @ [0]"
    using member_codec.graph_sent [OF sender assms(3) _ ok ref _ fresh params [unfolded st1]] by blast
  have "\<exists>bs. buf s2 = buf s0 @ bs \<and> (\<forall>s y. left s (bs @ y) \<longrightarrow> length (bs @ y) < 2147483648 \<longrightarrow> fresh_reader s \<longrightarrow>
      (\<exists>st s' g' f R. readMembers env' (read_ObjectPtr 2 big' env') Root 0 (map field_of params) (s, read_graph_new) = Inr st \<and>
         readPendingObjects 2 big' env' st = Some (Inr (s', g')) \<and> left s' y \<and> R \<subseteq> objs \<and> copied heap params f R g'))"
    if s2: "r = Inr (s2, g2)" and len: "length (buf s2) < 2147483648" for s2 g2
  proof -
    obtain num rounds where w: "sent heap params num rounds" "set (concat rounds) \<subseteq> objs" "card (set (concat rounds)) \<le> length (buf s2)"
        "buf s2 = buf s0 @ body_bytes enc num params @ rounds_bytes enc num heap [] rounds @ [0]" using r(2) [OF s2] by blast
    have c: "card (set (concat rounds)) < 2147483648" using w(3) len by linarith
    have "\<exists>st s' g' f R. readMembers env' (read_ObjectPtr 2 big' env') Root 0 (map field_of params) (s, read_graph_new) = Inr st \<and>
         readPendingObjects 2 big' env' st = Some (Inr (s', g')) \<and> left s' y \<and> R \<subseteq> objs \<and> copied heap params f R g'"
      if s: "left s ((body_bytes enc num params @ rounds_bytes enc num heap [] rounds @ [0]) @ y)" "fresh_reader s"
        and short: "length ((body_bytes enc num params @ rounds_bytes enc num heap [] rounds @ [0]) @ y) < 2147483648" for s y
      using member_codec.graph_arrives [OF receiver w(1) c w(2) fits typed ok ref s(2), of y big'] s(1) short w(2)
      unfolding append_assoc by blast
    then show ?thesis using w(4) by blast
  qed
  then show ?thesis unfolding st1 using r(1) by blast
qed

theorem object_graph_roundtrip_witness:
  "let env = basic_env False (\<lambda>_. [(''::A'', [Plain IntT, Pointer ''::A''])]) (=) Some;
       heap = \<lambda>p :: nat. (''::A'', [(''::A'', [Value IntT (IntV 7), Ref ''::A'' (Some (3 - p))])]);
       params = [Ref ''::A'' (Some 1)]
   in (case writeMembers False env params (stream_new 1000, write_graph_new) of
         Inl _ \<Rightarrow> False
       | Inr st1 \<Rightarrow> \<exists>r. writePendingObjects False env heap st1 = Some r \<and>
           (\<forall>s2 g2. r = Inr (s2, g2) \<longrightarrow> length (buf s2) < 2147483648 \<longrightarrow>
              (\<exists>bs. buf s2 = bs \<and>
                 (\<forall>s y. left s (bs @ y) \<longrightarrow> length (bs @ y) < 2147483648 \<longrightarrow> fresh_reader s \<longrightarrow>
                    (\<exists>st s' g' f R. readMembers env (read_ObjectPtr 2 True env) Root 0 [Pointer ''::A''] (s, read_graph_new) = Inr st \<and>
                       readPendingObjects 2 True env st = Some (Inr (s', g')) \<and> left s' y \<and>
                       R \<subseteq> {1, 2} \<and> copied heap params f R g')))))"
proof -
  let ?env = "basic_env False (\<lambda>_. [(''::A'', [Plain IntT, Pointer ''::A''])]) (=) Some"
  let ?heap = "\<lambda>p :: nat. (''::A'', [(''::A'', [Value IntT (IntV 7), Ref ''::A'' (Some (3 - p))])])"
  let ?params = "[Ref ''::A'' (Some 1)] :: (basic_type, basic_value, nat) slot list"
  have env: "ce_isA ?env = (=)" "createObject ?env tid = Some tid" "ce_layout ?env c = [(''::A'', [Plain IntT, Pointer ''::A''])]" for tid c
    by (simp_all add: createObject_def basic_env_def)
  have fits: "\<forall>p \<in> {1, 2}. object_fits ?env basic_valid ?heap {1, 2} p"
    by (simp add: object_fits_def env object_id_def slices_ok_def slots_ok_def typed_def)
  have typed: "typed ?env ?heap {1, 2} ?params" by (simp add: typed_def env)
  have fresh: "fresh_writer (stream_new 1000)" by (simp add: fresh_writer_def stream_new_def)
  obtain st1 where st1: "writeMembers False ?env ?params (stream_new 1000, write_graph_new) = Inr st1"
    by (simp add: write_ObjectPtr_def beginWrite_def indexOf_def onStream_def write_Int_eq appendBytes_def write_graph_new_def
        stream_new_def stream_resize_def Let_def)
  have "finite {1, 2 :: nat}" "slots_ok basic_valid ?params" "Ref ''::A'' (Some 1) \<in> set ?params" by (simp_all add: slots_ok_def)
  note object_graph_roundtrip [OF basic_members.member_codec_axioms basic_members.member_codec_axioms this(1) fits typed this(2,3) fresh st1,
      of True]
  moreover have "buf (stream_new 1000) = []" by (simp add: stream_new_def)
  ultimately show ?thesis unfolding Let_def st1 sum.case list.map field_of.simps by (simp only: append_Nil)
qed

text \<open>
  C20: an index in the pending objects that no sender writes is not rejected as malformed data: zero makes the receiver
  call the null pointer that \<open>readPendingObjects\<close> passes for the patch function, and a negative index violates the
  assertion that follows.
\<close>

theorem bad_object_indices:
  assumes "left s ([1] @ le_bytes (i :: ice_int) @ y)" and "sint i \<le> 0"
  shows "readPendingObjects (Suc d) big env (s, g) = Some (Inl (if i = 0 then MemoryFault else AssertionFailed))"
proof -
  have one: "size_bytes 1 = [1]" by (simp add: size_bytes_def)
  have sz: "readSize big s = Inr (1, skip s 1)"
    using readSize_at [OF left_at [OF assms(1) [folded one]], of big] by (simp add: one)
  obtain s1 g1 where b: "beginRead (skip s 1, g) = (s1, g1)" by (rule prod.exhaust)
  have "buf s1 = buf (skip s 1)" "rpos s1 = rpos (skip s 1)" using b by (auto simp: beginRead_def Let_def split: if_splits)
  moreover have "left (skip s 1) (le_bytes i @ y)" using left_skip [of s "[1]" "le_bytes i @ y"] assms(1) by simp
  ultimately have "left s1 (le_bytes i @ y)" by (simp add: left_def at_def)
  then have i: "read_Int big s1 = Inr (i, skip s1 4)" by (rule read_Int_at [OF left_at])
  have "read_ObjectPtr (Suc d) big env None (skip s 1, g) = Inl (if i = 0 then MemoryFault else AssertionFailed)"
    using b i assms(2) by simp
  then have "readInstances (Suc d) big env (nat (sint (1 :: ice_int))) (skip s 1, g) = Inl (if i = 0 then MemoryFault else AssertionFailed)"
    by simp
  then have "readLoop (Suc d) big env (s, g) = Some (Inl (if i = 0 then MemoryFault else AssertionFailed))"
    using sz by (subst readLoop.simps) simp
  then show ?thesis by (simp add: readPendingObjects_def)
qed

theorem bad_object_indices_witness:
  "readPendingObjects 1 False (basic_env False (\<lambda>_. []) (=) Some) ((stream_new 100)\<lparr>buf := [1, 255, 255, 255, 255]\<rparr>, read_graph_new) =
    Some (Inl AssertionFailed)"
proof -
  let ?s = "(stream_new 100)\<lparr>buf := [1, 255, 255, 255, 255]\<rparr>"
  have "le_bytes (- 1 :: ice_int) = [255, 255, 255, 255]" by code_simp
  then have "left ?s ([1] @ le_bytes (- 1 :: ice_int) @ [])" by (simp add: left_def at_def stream_new_def)
  from bad_object_indices [OF this, of 0 False "basic_env False (\<lambda>_. []) (=) Some" read_graph_new] show ?thesis by simp
qed

section \<open>Objects within objects\<close>

text \<open>The beginning of an object whose first member is a pointer, where a pointer is expected.\<close>

definition object_start :: "string \<Rightarrow> byte list" where
  "object_start tid = le_bytes (1 :: ice_int) @ [0] @ string_bytes tid @ le_bytes (4 :: ice_int)"

lemma length_object_start: "length (object_start tid) = 9 + length (string_bytes tid)"
  by (simp add: object_start_def)

lemma readTypeId_new:
  assumes "left s ([0] @ string_bytes tid @ y)" and "length tid < 2147483648"
    and "readEncapsStack s = e # es" and "re_typeIdMap e = Some m"
  shows "\<exists>s' e' m'. readTypeId big s = Inr (tid, s') \<and> left s' y \<and> readEncapsStack s' = e' # es \<and> re_typeIdMap e' = Some m'"
proof -
  have b: "read_bool s = Inr (False, skip s 1)" using read_bool_at [OF left_at [OF assms(1)]] by simp
  have l: "left (skip s 1) (string_bytes tid @ y)" using left_skip [OF assms(1)] by simp
  let ?s = "skip (skip s 1) (length (string_bytes tid))"
  have "read_string big None False (skip s 1) = Inr (tid, ?s)" by (rule string_codec.read_back [OF assms(2) TrueI left_at [OF l]])
  then have "readTypeId big s = Inr (tid, ?s\<lparr>readEncapsStack := e\<lparr>re_typeIdIndex := re_typeIdIndex e + 1,
      re_typeIdMap := Some (map_insert (re_typeIdIndex e + 1) tid m)\<rparr> # es\<rparr>)"
    using b assms(3,4) by (simp add: readTypeId_def rbind_def Let_def)
  moreover have "left (?s\<lparr>readEncapsStack := es'\<rparr>) y" for es' using left_skip [OF l] by (simp add: left_def at_def)
  ultimately show ?thesis by simp
qed

lemma nested_fault:
  assumes "createObject env tid = Some c" and "tid \<noteq> object_id" and "length tid < 2147483648"
    and "ce_layout env c = (tid', Pointer t # members) # slices"
  shows "left s (concat (replicate d (object_start tid)) @ y) \<Longrightarrow> rg_live g \<Longrightarrow> readEncapsStack s = e # es \<Longrightarrow> re_typeIdMap e = Some m \<Longrightarrow>
    read_ObjectPtr d big env target (s, g) = Inl MemoryFault"
proof (induction d arbitrary: s g target e m)
  case (Suc d)
  let ?y = "concat (replicate d (object_start tid)) @ y"
  have b: "beginRead (s, g) = (s, g)" using Suc.prems(2-4) by (simp add: beginRead_def)
  have l: "left s (le_bytes (1 :: ice_int) @ ([0] @ string_bytes tid @ le_bytes (4 :: ice_int) @ ?y))"
    using Suc.prems(1) by (simp add: object_start_def)
  have i: "read_Int big s = Inr (1, skip s 4)" by (rule read_Int_at [OF left_at [OF l]])
  have l1: "left (skip s 4) ([0] @ string_bytes tid @ (le_bytes (4 :: ice_int) @ ?y))" using left_skip [OF l] by simp
  have "readEncapsStack (skip s 4) = e # es" using Suc.prems(3) by (simp add: skip_def)
  from readTypeId_new [OF l1 assms(3) this Suc.prems(4)] obtain s1 e1 m1 where s1: "readTypeId big (skip s 4) = Inr (tid, s1)"
      "left s1 (le_bytes (4 :: ice_int) @ ?y)" "readEncapsStack s1 = e1 # es" "re_typeIdMap e1 = Some m1" by blast
  let ?s2 = "skip s1 4\<lparr>readSlice := rpos (skip s1 4)\<rparr>"
  have "readCount big s1 = Inr (4, skip s1 4)" by (rule readCount_at [OF left_at [OF s1(2)]]) simp
  then have s2: "startReadSlice big s1 = Inr ?s2" by (simp add: startReadSlice_def)
  have "left ?s2 ?y" using left_skip [OF s1(2)] by (simp add: left_def at_def)
  moreover have "readEncapsStack ?s2 = e1 # es" using s1(3) by (simp add: skip_def)
  ultimately have "read_ObjectPtr d big env target' (?s2, g') = Inl MemoryFault" if "rg_live g'" for target' g'
    using Suc.IH that s1(4) by blast
  then show ?case
    using b i s1(1) s2 assms Suc.prems(2) by (simp add: findClass.simps [of big env tid tid] onBuffer_def skipTypeId_def Let_def)
qed simp

text \<open>
  C19: an object is also accepted where a pointer is expected, and is then read by a nested call, so that the sender
  decides on the use of the stack: for a class whose first member is a pointer, no depth of the stack is enough for the
  messages that follow, which have a few bytes per nested call.
\<close>

theorem nested_objects_exhaust_stack:
  assumes "createObject env tid = Some c" and "tid \<noteq> object_id" and "length tid < 2147483648"
    and "ce_layout env c = (tid', Pointer t # members) # slices"
    and "left s (concat (replicate d (object_start tid)) @ y)"
  shows "length (concat (replicate d (object_start tid))) = d * (9 + length (string_bytes tid)) \<and>
    read_ObjectPtr d big env target (s, read_graph_new) = Inl MemoryFault"
proof
  show "length (concat (replicate d (object_start tid))) = d * (9 + length (string_bytes tid))"
    by (induction d) (simp_all add: length_object_start)
  obtain s1 and g1 :: "'b read_graph" where b: "beginRead (s, read_graph_new) = (s1, g1)" by (rule prod.exhaust)
  obtain e es m where 1: "rg_live g1" "readEncapsStack s1 = e # es" "re_typeIdMap e = Some m" "buf s1 = buf s" "rpos s1 = rpos s"
    using b by (auto simp: beginRead_def Let_def read_graph_new_def split: list.splits)
  have "left s1 (concat (replicate d (object_start tid)) @ y)" using assms(5) 1(4,5) by (simp add: left_def at_def)
  from nested_fault [OF assms(1-4) this 1(1-3)] show "read_ObjectPtr d big env target (s, read_graph_new) = Inl MemoryFault"
    using read_ObjectPtr_begin [of d big env target "(s, read_graph_new)"] unfolding b by simp
qed

theorem nested_objects_exhaust_stack_witness:
  "read_ObjectPtr 3 False (basic_env False (\<lambda>_. [(''::A'', [Pointer ''::A''])]) (=) Some) None
     ((stream_new 100)\<lparr>buf := concat (replicate 3 (object_start ''::A''))\<rparr>, read_graph_new) = Inl MemoryFault"
proof -
  let ?env = "basic_env False (\<lambda>_. [(''::A'', [Pointer ''::A''])]) (=) Some"
  let ?s = "(stream_new 100)\<lparr>buf := concat (replicate 3 (object_start ''::A''))\<rparr>"
  have env: "createObject ?env ''::A'' = Some ''::A''" "ce_layout ?env ''::A'' = [(''::A'', [Pointer ''::A''])]"
    by (simp_all add: createObject_def basic_env_def)
  have "left ?s (concat (replicate 3 (object_start ''::A'')) @ [])" by (simp add: left_def at_def stream_new_def)
  from nested_objects_exhaust_stack [OF env(1) _ _ env(2) this] show ?thesis by (simp add: object_id_def)
qed

end
