(* ===== verification/Spec2Isabelle.thy ===== *)
theory Spec2Isabelle
  imports Base64 ConnectionDispatch ConnectionUsers AdapterEndpoints Server CallsReturn WireTransfer PoolRead PoolSample ClassTransfer
begin

text \<open>
  This development verifies the serial port server of \<^verbatim>\<open>src/src\<close> together with the parts of the Ice 3.1.1 run
  time (\<^verbatim>\<open>src/Ice-3.1.1\<close>) that carry its requests.

  \<^bold>\<open>The program.\<close>  \<open>main\<close> (\<^verbatim>\<open>src/src/main.cpp\<close>) creates an object adapter, registers the servants
  \<open>SerialPort\<close> and \<open>Driver\<close>, activates it and waits.  The threads of a thread pool wait in \<open>select\<close> for the
  sockets of all connections; one of them reads a message through the transceiver of its connection and hands it
  to the connection, which keeps the protocol state, frames and compresses messages, and hands requests
  to \<open>Incoming\<close>; that reads the header with the marshaling engine, asks the servant manager of the adapter for
  the servant and marshals the reply, which the connection sends.  On the side of the client, \<open>Outgoing\<close> marshals
  a request, gives it to the connection and waits until the connection calls it back with the reply.  Shutdown goes
  from the communicator's adapter factory to the adapters and their servant managers.

  \<^bold>\<open>Theories and sources\<close> (under \<^verbatim>\<open>src/Ice-3.1.1/src\<close> unless said otherwise).
  \<^item> \<open>Ice_Prelude\<close>: C++ integers as words, results as sums, searches of \<open>std::string\<close>, byte order.
    \<open>StdMap\<close>: \<open>std::map\<close> with its iterators.  \<open>LocalException\<close>: the exceptions, and assertions, bad
    memory accesses, null handles and self-locking as further failures.
  \<^item> \<open>StringUtil\<close>, \<open>Base64\<close> (\<^verbatim>\<open>IceUtil\<close>), \<open>Identity\<close> (\<^verbatim>\<open>Ice/IdentityUtil.cpp\<close>): escaping, wildcard matching,
    Base64, stringified identities; round trips and the inputs on which they fail.
  \<^item> \<open>Buffer\<close>, \<open>BasicStream\<close>, \<open>WireCodec\<close>, \<open>StreamString\<close>, \<open>StreamEncaps\<close> (\<^verbatim>\<open>Ice/Buffer\<close>, \<^verbatim>\<open>Ice/BasicStream\<close>): the byte
    container, which refines a sequence, and the marshaling engine on it.  The locale \<open>wire_codec\<close> is the
    contract of a marshaled type; its interpretations give the round trips, also between machines of
    different byte order.  Reading untrusted bytes stays inside the message.
  \<^item> \<open>ClassGraph\<close>, \<open>ClassWrite\<close>, \<open>ClassRead\<close>, \<open>ClassTransfer\<close> (\<^verbatim>\<open>Ice/BasicStream.cpp\<close>, \<^verbatim>\<open>Ice/Object.cpp\<close>, and the code that
    \<^verbatim>\<open>slice2cpp/Gen.cpp\<close> generates for classes): graphs of objects on the stream; the bytes that are written, in rounds that end;
    an invariant of the patch lists while objects are created; a graph arrives as it was sent; and messages that crash the reader.
    The locale \<open>member_codec\<close> is the contract of the members that are no pointers.
  \<^item> \<open>ServantManager\<close> (\<^verbatim>\<open>Ice/ServantManager.cpp\<close>): servants and locators with their hints, against the
    locale \<open>servant_registry\<close>.
  \<^item> \<open>Incoming\<close> (\<^verbatim>\<open>Ice/Incoming.cpp\<close>): dispatch of one request with every exception handler.  Servants and
    locators are parameters.
  \<^item> \<open>Protocol\<close>, \<open>Compression\<close>, \<open>ConnectionState\<close>, \<open>ConnectionIO\<close>, \<open>ConnectionReceive\<close>, \<open>ConnectionSteps\<close>,
    \<open>ConnectionProps\<close>, \<open>ConnectionMessages\<close>, \<open>ConnectionDispatch\<close> (\<^verbatim>\<open>Ice/ConnectionI.cpp\<close>): headers and
    framing; the state machine; sending requests, batches and responses; receiving; the relation
    \<open>conn_step\<close> of all critical sections, with an invariant of all reachable states; what becomes of
    single messages; and \<open>invokeAll\<close>, where a connection and the dispatcher meet.
    \<open>ConnectionRobust\<close>, \<open>ConnectionUsers\<close>: the same sections with a transceiver that may fail in any way, called by
    threads that follow their protocols (\<open>use_step\<close>); such threads satisfy the conditions of \<open>conn_step\<close>
    (\<open>use_is_reachable\<close>), and no section crashes but for two that are named.
  \<^item> \<open>ObjectAdapter\<close>, \<open>AdapterEndpoints\<close>, \<open>AdapterSteps\<close>, \<open>AdapterProps\<close> (\<^verbatim>\<open>Ice/ObjectAdapterI.cpp\<close>),
    \<open>AdapterFactory\<close> (\<^verbatim>\<open>Ice/ObjectAdapterFactory.cpp\<close>): adapters, their endpoint lists against splitting at
    colons, the relation \<open>oa_step\<close> of the critical sections of any number of threads, and shutdown.
    An adapter that is not deactivated is a \<open>servant_registry\<close> again.
  \<^item> \<open>Outgoing\<close>, \<open>RequestCallbacks\<close>, \<open>OutgoingCalls\<close>, \<open>OutgoingProps\<close>, \<open>CallsReturn\<close>, \<open>WireTransfer\<close>
    (\<^verbatim>\<open>Ice/Outgoing.cpp\<close>): one request of a client; what the sections of a connection tell the requests that
    wait for it; the relation \<open>call_step\<close> of any number of twoway calls and everybody else who uses the connection,
    in which every call is answered once and comes back when the connection is closed; and the way of one message
    between two processes.  The locale \<open>reply_reader\<close> says that reading a reply does not crash.
  \<^item> \<open>Transceiver\<close> (\<^verbatim>\<open>Ice/TcpTransceiver.cpp\<close>, \<^verbatim>\<open>Ice/UdpTransceiver.cpp\<close>), \<open>PoolRead\<close> (\<open>ThreadPool::read\<close>): reading and
    writing a socket against a script of what the kernel answers; messages come out of the bytes whole, and bad
    datagrams get stuck.
  \<^item> \<open>ThreadPool\<close>, \<open>PoolSteps\<close>, \<open>PoolProps\<close>, \<open>PoolEnds\<close>, \<open>PoolSample\<close> (\<^verbatim>\<open>Ice/ThreadPool.cpp\<close>): the pool and its round
    robin; the relation \<open>pool_step\<close> of its threads and its users, with an invariant; one leader, no crash; every
    unregistered handler is finished once, and a destroyed pool ends; sample runs.
  \<^item> \<open>Properties\<close> (\<^verbatim>\<open>Ice/PropertiesI.cpp\<close>): the configuration, its syntax and its sources.
  \<^item> \<open>Server\<close> (\<^verbatim>\<open>src/src/main.cpp\<close>, \<^verbatim>\<open>src/src/device.c\<close>): the servants, \<open>deviceInfo\<close> and \<open>main\<close>.
  \<^item> This theory: what the started server does with a request, from the call of a client to the exception it throws.

  \<^bold>\<open>How the code is read.\<close>  A function that may throw returns a sum whose left side is a \<open>failure\<close>; a method
  that changes an object returns the changed record; calls that leave the model (sockets,
  notifications, other objects) are events in a log or a result list.  A function that gives up its
  monitor is split into its critical sections, which the step relations interleave.  Loops are recursive
  functions with termination proofs.  The loop over the slices of a user exception has fuel, since a stream that is
  read twice at the same place would repeat it; \<open>throwLoop_terminates\<close> shows that the length of the stream
  is enough.  Writing and reading the pending objects of a graph are partial functions, \<open>object_graph_roundtrip\<close> shows that
  both return; the nesting of objects on the stack of the reader has a depth, of which two is enough for what senders write.
  A loop around a system call ends with the script of the kernel, and \<open>None\<close> means that it blocks.  Machine integers keep their width where they can
  overflow, and the theorems that need it bound the number of simultaneous requests or calls by
  $2^{31}$, since the counters are signed 32-bit integers.

  \<^bold>\<open>Parameters and their hypotheses.\<close>  The transceiver (\<open>io\<close>; \<open>io_ok\<close>: closing and shutting down a socket do
  not fail, which \<open>conn_step\<close> needs and \<open>use_step\<close> does not), libbz2 (\<open>bzip2\<close>, decompression inverts compression and reports the size), the allocator, string
  converters, servants, locators, endpoint factories and properties (\<open>adapter_env\<close>), the locator
  registry, the operating system (\<open>os\<close>; \<open>posix_ok\<close>: \<open>open\<close>, \<open>read\<close> and \<open>write\<close> of the device may fail, return less than they were
  asked for, and have a peer at the other end of the line; \<open>select_may\<close>: \<open>select\<close> answers with
  descriptors it was asked for), classes (\<open>class_env\<close>: the layout of their slices, their factories and the marshaling of their
  members), the arithmetic of \<open>double\<close> (\<open>doubles\<close>, of which nothing is assumed), and how the
  communicator starts and ends.  Every theorem with such a hypothesis has a witness with a concrete function in its place.
  \<open>conn_step\<close>, \<open>call_step\<close> and \<open>pool_step\<close> let a section run only when its callers may call it; the conditions are listed
  there, and for connections \<open>use_step\<close> derives them from what each caller did before.  \<open>call_step\<close> does not use a request id again while it is in use, and in \<open>pool_step\<close> the pipe of the pool works
  and handlers promote a follower once.  \<open>oa_step\<close> and \<open>pool_step\<close> have a switch for the discipline under which no
  thread crashes; without it, interleavings that do are exhibited.

  \<^bold>\<open>Not modelled.\<close>  Proxies, references, asynchronous invocations and retries (\<^verbatim>\<open>Ice/Proxy.cpp\<close>, \<^verbatim>\<open>Ice/Reference.cpp\<close>), which choose
  a connection before \<open>Outgoing\<close> uses it; connection establishment, whose effects on a connection are the
  environment's choice of steps; the thread per connection mode beyond the branches of the shared functions; logging and
  tracing; descriptors of \<open>FD_SETSIZE\<close> or more, for which \<open>FD_SET\<close> is undefined (the set of the pool has no bound); reverse proxies; opening and closing of sockets and the primitives of threads, which are system calls; the
  services and tools of the Ice distribution that the server does not use.  The skeletons that the
  Slice compiler generates are not in the repository.
\<close>

section \<open>The running server\<close>

text \<open>The servant a request is for, by its identity and facet.\<close>

definition server_target :: "current \<Rightarrow> server_object option" where
  "server_target cur =
     (if cur_facet cur \<noteq> [] then None
      else if cur_id cur = serialPort_id then Some SerialPortI
      else if cur_id cur = driver_id then Some DriverI else None)"

text \<open>A dispatcher for the server: identities marshaled field by field, servants that answer with nothing.\<close>

definition server_env :: "(server_object, nat, nat) dispatch_env" where
  "server_env =
     \<lparr>readIdentity = readIdentity (plain_env False), writeIdentity = writeIdentity (plain_env False),
      dispatch = (\<lambda>obj cur istr ostr. (Inr DispatchOK, istr, ostr)),
      locate = (\<lambda>l cur. Inr (None, 0)), finished = (\<lambda>l cur obj c. None), converter_of = None\<rparr>"

text \<open>What dispatch finds in the servant manager of the started server.\<close>

lemma server_manager:
  fixes a :: "(server_object, 'l, 'e::linorder) adapter"
  assumes "adapter_new env reg (uuid, ProcessI) ''ServerAdapter'' ''default -p 10000'' None = (Inr a, evs)"
    and "env_getProperty env ''ServerAdapter.AdapterId'' = []" and "env_getPropertyAsInt env ''ServerAdapter.RegisterProcess'' \<le> 0"
  obtains fac' a' where "startServer env reg uuid (adapter_factory_new :: ('l, 'e) server) = Inr fac'"
    "sm_find ''ServerAdapter'' (af_adapters fac') = Some a'" "manager_ok (oa_servantManager a')"
    "\<And>cur. servants (oa_servantManager a') (ident_key (cur_id cur), cur_facet cur) = server_target cur"
    "\<And>cat. locators (oa_servantManager a') cat = None"
proof -
  obtain fac' a' where up: "startServer env reg uuid (adapter_factory_new :: ('l, 'e) server) = Inr fac'"
      "sm_find ''ServerAdapter'' (af_adapters fac') = Some a'" "serving a'"
      "adapter_look a' = [(serialPort_id, []) \<mapsto> SerialPortI, (driver_id, []) \<mapsto> DriverI]"
      "locators (oa_servantManager a') = Map.empty"
    using server_up [OF assms] by blast
  have "servants (oa_servantManager a') (ident_key (cur_id cur), cur_facet cur) = adapter_look a' (cur_id cur, cur_facet cur)" for cur
    by (simp add: adapter_look_def manager_look_def)
  also have "adapter_look a' (cur_id cur, cur_facet cur) = server_target cur" for cur
    unfolding up(4) by (auto simp: server_target_def serialPort_id_def driver_id_def)
  finally show thesis using that up serving_manager [OF up(3)] by simp
qed

text \<open>
  C23: where the running server sends a request.  After start-up the dispatcher hands every request for the
  identity \<open>SerialPort\<close> to the serial port servant and every request for \<open>Driver\<close> to the device servant,
  as long as it names no facet, and finds nobody for any other request.
\<close>

theorem server_routes:
  fixes a :: "(server_object, 'l, 'e::linorder) adapter"
  assumes "adapter_new env reg (uuid, ProcessI) ''ServerAdapter'' ''default -p 10000'' None = (Inr a, evs)"
    and "env_getProperty env ''ServerAdapter.AdapterId'' = []" and "env_getPropertyAsInt env ''ServerAdapter.RegisterProcess'' \<le> 0"
  shows "\<exists>fac' a'. startServer env reg uuid (adapter_factory_new :: ('l, 'e) server) = Inr fac' \<and>
    sm_find ''ServerAdapter'' (af_adapters fac') = Some a' \<and>
    (\<exists>mgr'. findTarget denv cur (Some (oa_servantManager a')) = Inr (Inr (server_target cur, None), Some mgr'))"
proof -
  obtain fac' a' where up: "startServer env reg uuid (adapter_factory_new :: ('l, 'e) server) = Inr fac'"
      "sm_find ''ServerAdapter'' (af_adapters fac') = Some a'" "manager_ok (oa_servantManager a')"
      "\<And>cur. servants (oa_servantManager a') (ident_key (cur_id cur), cur_facet cur) = server_target cur"
      "\<And>cat. locators (oa_servantManager a') cat = None"
    using server_manager [OF assms] by blast
  have "\<exists>mgr'. findTarget denv cur (Some (oa_servantManager a')) = Inr (Inr (server_target cur, None), Some mgr')"
  proof (cases "server_target cur")
    case None
    then show ?thesis using findTarget_nothing [OF up(3), of cur denv] up(4,5) by auto
  next
    case (Some obj)
    then show ?thesis using findServant_spec [OF up(3), of "cur_id cur" "cur_facet cur"] up(4) by (auto simp: findTarget_def)
  qed
  then show ?thesis using up(1,2) by blast
qed

theorem server_routes_witness:
  "\<exists>fac' a'. startServer calm_env deaf_registry [] (adapter_factory_new :: (nat, nat) server) = Inr fac' \<and>
    sm_find ''ServerAdapter'' (af_adapters fac') = Some a' \<and>
    (\<exists>mgr'. findTarget server_env
       \<lparr>cur_id = driver_id, cur_facet = [], cur_operation = ''readInfoFromDevice'', cur_mode = 0, cur_ctx = [], cur_requestId = 1\<rparr>
       (Some (oa_servantManager a')) = Inr (Inr (Some DriverI, None), Some mgr'))"
proof -
  obtain a :: "(server_object, nat, nat) adapter"
    where a: "adapter_new calm_env deaf_registry ([], ProcessI) ''ServerAdapter'' ''default -p 10000'' None = (Inr a, [])"
    using sample_server_adapter by blast
  have "env_getProperty calm_env ''ServerAdapter.AdapterId'' = []" "env_getPropertyAsInt calm_env ''ServerAdapter.RegisterProcess'' \<le> 0"
    by (simp_all add: calm_env_def)
  from server_routes [OF a this, of server_env "\<lparr>cur_id = driver_id, cur_facet = [], cur_operation = ''readInfoFromDevice'', cur_mode = 0, cur_ctx = [], cur_requestId = 1\<rparr>"]
  show ?thesis by (simp add: server_target_def driver_id_def serialPort_id_def)
qed

text \<open>
  A request for an object the server does not have.  From the bytes of a well-formed twoway request to the
  bytes of the reply: the running server answers a request whose identity is neither of its two with the
  status \<open>ObjectNotExist\<close> and the identity, facet and operation of the request, and keeps its servants.
\<close>

lemma server_refuses:
  fixes a :: "(server_object, 'l, 'e::linorder) adapter"
  assumes start: "adapter_new env reg (uuid, ProcessI) ''ServerAdapter'' ''default -p 10000'' None = (Inr a, evs)"
      "env_getProperty env ''ServerAdapter.AdapterId'' = []" "env_getPropertyAsInt env ''ServerAdapter.RegisterProcess'' \<le> 0"
    and codec: "wire_codec valid enc (writeIdentity denv) (readIdentity denv) (\<lambda>_. True)" "converter_of denv = None"
    and hdr: "readCurrent big denv requestId istr = Inr (cur, is1)" "startReadEncaps big is1 = Inr is2"
    and cur: "valid (cur_id cur)" "length (cur_facet cur) < 2147483648" "length (cur_operation cur) < 2147483648"
    and unknown: "cur_id cur \<notin> {serialPort_id, driver_id}"
    and os: "length (buf os) = headerSize + 4"
      "25 + length (enc (cur_id cur) @ facet_bytes (cur_facet cur) @ string_bytes (cur_operation cur)) \<le> messageSizeMax os"
  shows "\<exists>fac' a' mgr' os' istr'. startServer env reg uuid (adapter_factory_new :: ('l, 'e) server) = Inr fac' \<and>
    sm_find ''ServerAdapter'' (af_adapters fac') = Some a' \<and>
    invoke big denv True compress requestId istr os (Some (oa_servantManager a')) = Inr ([SendResponse os' compress], istr', Some mgr') \<and>
    same_contents (oa_servantManager a') mgr' \<and>
    buf os' = buf os @ [status_byte DispatchObjectNotExist] @
      enc (cur_id cur) @ facet_bytes (cur_facet cur) @ string_bytes (cur_operation cur)"
proof -
  obtain fac' a' where up: "startServer env reg uuid (adapter_factory_new :: ('l, 'e) server) = Inr fac'"
      "sm_find ''ServerAdapter'' (af_adapters fac') = Some a'" "manager_ok (oa_servantManager a')"
      "\<And>cur. servants (oa_servantManager a') (ident_key (cur_id cur), cur_facet cur) = server_target cur"
      "\<And>cat. locators (oa_servantManager a') cat = None"
    using server_manager [OF start] by blast
  have none: "servants (oa_servantManager a') (ident_key (cur_id cur), f) = None" for f
    using up(4) [of "cur\<lparr>cur_facet := f\<rparr>"] unknown by (simp add: server_target_def)
  from invoke_missing [OF codec hdr cur up(3) none up(5,5) os, of compress] none show ?thesis using up(1,2) by auto
qed

section \<open>A call from end to end\<close>

text \<open>What a request looks like in the stream of the caller, with the request id filled in.\<close>

lemma request_patched:
  assumes "buf (out_os out) = requestHdr @ body" and "patchInt big rid headerSize (buf (out_os out)) = Inr bs"
  shows "length bs = 18 + length body" "bs ! 8 = requestMsg" "bs ! 9 = 0" "drop headerSize bs = le_bytes rid @ body"
proof -
  have "bs = overwrite headerSize (le_bytes rid) (requestHdr @ body)" using assms by (simp add: patchInt_Inr)
  then have b: "bs = take headerSize requestHdr @ le_bytes rid @ body"
    by (simp add: overwrite_def headerSize_def requestHdr_def magic_def)
  then show "length bs = 18 + length body" "bs ! 8 = requestMsg" "bs ! 9 = 0" "drop headerSize bs = le_bytes rid @ body"
    by (simp_all add: headerSize_def requestHdr_def magic_def nth_append)
qed

lemma reply_header:
  assumes "andThen (writeBlob replyHdr (stream_new maxSize)) (write_Int big rid) = Inr os"
  shows "buf os = replyHdr @ le_bytes rid" "messageSizeMax os = maxSize"
  using assms
  by (auto simp: andThen_eq_Inr writeBlob_def write_Int_eq appendBytes_Inr replyHdr_def magic_def stream_new_def split: if_splits)

text \<open>
  C7: a call to an object the server does not have, from the client and back.  A client constructs a twoway request for
  an identity that is neither of the server's two, with any facet, operation, context and parameters, and sends it,
  compressed or not.  When the message has been opened by the server, it is a request with the caller's request id; the
  running server answers it; and when the framed answer has been opened by the client, it is a reply with the same id whose
  \<open>finished\<close> makes \<open>invoke\<close> throw \<open>ObjectNotExistException\<close> with the identity, facet and operation of the call.
  Client and server may differ in byte order.
\<close>

theorem unknown_object_call:
  fixes a :: "(server_object, 'l, 'e::linorder) adapter"
  assumes start: "adapter_new env reg (uuid, ProcessI) ''ServerAdapter'' ''default -p 10000'' None = (Inr a, evs)"
      "env_getProperty env ''ServerAdapter.AdapterId'' = []" "env_getPropertyAsInt env ''ServerAdapter.RegisterProcess'' \<le> 0"
    and bz: "bz_ok bz"
    and codec: "wire_codec valid enc (writeIdentity cenv) (readIdentity cenv) (\<lambda>_. True)" "converter_of cenv = None"
    and scodec: "wire_codec valid enc (writeIdentity denv) (readIdentity denv) (\<lambda>_. True)" "converter_of denv = None"
    and ok: "request_valid valid ident facet operation ctx" and unknown: "ident \<notin> {serialPort_id, driver_id}"
    and new: "outgoing_new cbig cenv io cmax ModeTwoway ident facet operation mode ctx ccompress c = Some (Inr out, c')"
    and fits: "18 + length (request_bytes enc ident facet operation mode ctx) \<le> cmax"
    and sent: "invokeBegin cbig (out\<lparr>out_os := (out_os out)\<lparr>buf := buf (out_os out) @ body\<rparr>\<rparr>) = Inr out2"
    and fill: "patchInt cbig rid headerSize (buf (out_os out2)) = Inr bs"
    and up: "transfer bz x cbig level ccompress bs sbig smax = Inr (t1, k1, id1, s)" "length bs < 2147483648" "length bs \<le> smax"
    and os: "andThen (writeBlob replyHdr (stream_new smax)) (write_Int sbig id1) = Inr os"
    and room: "25 + length (enc ident @ facet_bytes facet @ string_bytes operation) \<le> min smax (min cmax 2147483647)"
  shows "t1 = requestMsg \<and> id1 = rid \<and> (\<exists>fac' a' mgr' os' istr'.
    startServer env reg uuid (adapter_factory_new :: ('l, 'e) server) = Inr fac' \<and>
    sm_find ''ServerAdapter'' (af_adapters fac') = Some a' \<and>
    invoke sbig denv True k1 id1 s os (Some (oa_servantManager a')) = Inr ([SendResponse os' k1], istr', Some mgr') \<and>
    buf os' = replyHdr @ le_bytes rid @ [status_byte DispatchObjectNotExist] @ enc ident @ facet_bytes facet @ string_bytes operation \<and>
    (\<forall>level' t2 k2 id2 r. transfer bz y sbig level' (k1 > 0) (buf os') cbig cmax = Inr (t2, k2, id2, r) \<longrightarrow>
       t2 = replyMsg \<and> id2 = rid \<and>
       (\<exists>out3. out_finished cbig cenv r out2 = (Inr (), out3) \<and>
          invokeResult out3 = Inl (Throws (RequestFailedEx ObjectNotExistException ident facet operation)))))"
proof -
  let ?req = "request_bytes enc ident facet operation mode ctx"
  let ?fail = "enc ident @ facet_bytes facet @ string_bytes operation"
  have bytes: "buf (out_os out2) = requestHdr @ (?req @ encaps_bytes body)"
    using request_sent [OF codec ok new fits refl sent] by simp
  note patched = request_patched [OF bytes fill]
  note arrived = transfer_arrives [OF bz up(1) patched(1) up(2,3) patched(3,4)]
  have v: "valid ident" "length facet < 2147483648" "length operation < 2147483648" using ok by (simp_all add: request_valid_def)
  have fresh: "out_exception out = None \<and> out_mode out = ModeTwoway" using outgoing_new_twoway [OF new] by metis
  have "buf s = take 18 (buf s) @ ?req @ encaps_bytes body" using arrived(5) by (metis append_take_drop_id)
  moreover have "rpos s = int (length (take 18 (buf s)))" using arrived(3,6) patched(1) by simp
  ultimately obtain cur is1 is2 where cur: "readCurrent sbig denv id1 s = Inr (cur, is1)" "startReadEncaps sbig is1 = Inr is2"
      "cur_id cur = ident" "cur_facet cur = facet" "cur_operation cur = operation"
    using request_received [OF scodec ok _ _ arrived(4)] by blast
  note hdr = reply_header [OF os]
  obtain fac' a' mgr' os' istr' where srv: "startServer env reg uuid (adapter_factory_new :: ('l, 'e) server) = Inr fac'"
      "sm_find ''ServerAdapter'' (af_adapters fac') = Some a'"
      "invoke sbig denv True k1 id1 s os (Some (oa_servantManager a')) = Inr ([SendResponse os' k1], istr', Some mgr')"
      "buf os' = buf os @ [status_byte DispatchObjectNotExist] @ ?fail"
    using server_refuses [OF start scodec cur(1,2), of os k1] v cur unknown hdr room by (auto simp: headerSize_def)
  have reply: "buf os' = replyHdr @ le_bytes rid @ ([status_byte DispatchObjectNotExist] @ ?fail)"
    using srv(4) hdr(1) arrived(2) by simp
  have returned: "t2 = replyMsg \<and> id2 = rid \<and> (\<exists>out3. out_finished cbig cenv r out2 = (Inr (), out3) \<and>
      invokeResult out3 = Inl (Throws (RequestFailedEx ObjectNotExistException ident facet operation)))"
    if reply_sent: "transfer bz y sbig level' (k1 > 0) (buf os') cbig cmax = Inr (t2, k2, id2, r)" for level' t2 k2 id2 r
  proof -
    have len: "length (buf os') = 18 + length ([status_byte DispatchObjectNotExist] @ ?fail)" using reply by simp
    have h: "buf os' ! 8 = replyMsg" "buf os' ! 9 = 0" "drop headerSize (buf os') = le_bytes rid @ ([status_byte DispatchObjectNotExist] @ ?fail)"
      unfolding reply by (simp_all add: replyHdr_def magic_def headerSize_def nth_append)
    have room': "length (buf os') < 2147483648" "length (buf os') \<le> cmax" using len room by simp_all
    note b = transfer_arrives [OF bz reply_sent len room' h(2,3)]
    have at: "BasicStream.at r (take 18 (buf r)) ([status_byte DispatchObjectNotExist] @ ?fail) []"
      using b(3,5,6) len append_take_drop_id [of 18 "buf r"] by (simp add: at_def)
    have "read_Byte r = Inr (status_byte DispatchObjectNotExist, skip r 1)" by (rule read_Byte_at [OF at_append [OF at]])
    moreover have "readFailedRequest cbig cenv ObjectNotExistException (skip r 1) =
        Inr ((StateLocalException, Some (RequestFailedEx ObjectNotExistException ident facet operation)), skip (skip r 1) (length ?fail))"
      using at_next [OF at] b(4) by (intro readFailedRequest_at [OF codec v]) simp_all
    ultimately have "readReply cbig cenv r =
        Inr ((StateLocalException, Some (RequestFailedEx ObjectNotExistException ident facet operation)), skip (skip r 1) (length ?fail))"
      by (simp add: readReply_def rbind_def)
    moreover have "out_state out2 = StateUnsent" "out_mode out2 = ModeTwoway" "out_exception out2 = None"
      using fresh sent by (auto simp: invokeBegin_def andThen_eq_Inr split: if_splits)
    ultimately show ?thesis using b(1,2) h(1) by (simp add: out_finished_def out_order invokeResult_def)
  qed
  show ?thesis using arrived(1,2) patched(2) srv(1-3) reply returned by (intro conjI exI [of _ fac'] exI [of _ a'] exI [of _ mgr'] exI [of _ os'] exI [of _ istr']) auto
qed

theorem unknown_object_call_witness:
  "let i = \<lparr>name = ''A'', category = []\<rparr>
   in \<exists>out out2 bs k1 s os fac' a' mgr' os' istr' k2 r out3.
     outgoing_new True (plain_env True) calm_io 200 ModeTwoway i [] ''op'' 0 [] False
       (connection_new 200 False False False False 0 0 0 1 :: nat connection) =
       Some (Inr out, connection_new 200 False False False False 0 0 0 1) \<and>
     invokeBegin True out = Inr out2 \<and> patchInt True 7 headerSize (buf (out_os out2)) = Inr bs \<and>
     transfer store_bz 0 True 1 False bs False 200 = Inr (requestMsg, k1, 7, s) \<and>
     startServer calm_env deaf_registry [] (adapter_factory_new :: (nat, nat) server) = Inr fac' \<and>
     sm_find ''ServerAdapter'' (af_adapters fac') = Some a' \<and>
     invoke False server_env True k1 7 s os (Some (oa_servantManager a')) = Inr ([SendResponse os' k1], istr', Some mgr') \<and>
     transfer store_bz 0 False 1 (k1 > 0) (buf os') True 200 = Inr (replyMsg, k2, 7, r) \<and>
     out_finished True (plain_env True) r out2 = (Inr (), out3) \<and>
     invokeResult out3 = Inl (Throws (RequestFailedEx ObjectNotExistException i [] ''op''))"
proof -
  let ?i = "\<lparr>name = ''A'', category = []\<rparr>" and ?c = "connection_new 200 False False False False 0 0 0 1 :: nat connection"
  let ?new = "outgoing_new True (plain_env True) calm_io 200 ModeTwoway ?i [] ''op'' 0 [] False ?c"
  let ?bs = "take 14 requestHdr @ [7, 0, 0, 0, 1, 65, 0, 0, 2, 111, 112, 0, 0, 6, 0, 0, 0, 1, 0]"
  have "case ?new of Some (Inr out, _) \<Rightarrow>
      (case invokeBegin True out of Inr out2 \<Rightarrow> patchInt True 7 headerSize (buf (out_os out2)) = Inr ?bs | Inl _ \<Rightarrow> False) | _ \<Rightarrow> False"
    by code_simp
  then obtain out c' out2 where n: "?new = Some (Inr out, c')" and i: "invokeBegin True out = Inr out2"
      and p: "patchInt True 7 headerSize (buf (out_os out2)) = Inr ?bs"
    by (auto split: option.splits prod.splits sum.splits)
  have c': "c' = ?c" using outgoing_new_twoway [OF n] by metis
  have "case transfer store_bz 0 True 1 False ?bs False 200 of Inl _ \<Rightarrow> False | Inr (t, k, rid, s) \<Rightarrow> t = requestMsg \<and> k = 0 \<and> rid = 7" by code_simp
  then obtain s where up: "transfer store_bz 0 True 1 False ?bs False 200 = Inr (requestMsg, 0, 7, s)" by (auto split: sum.splits prod.splits)
  have "case andThen (writeBlob replyHdr (stream_new 200)) (write_Int False 7) of Inl _ \<Rightarrow> False | Inr _ \<Rightarrow> True" by code_simp
  then obtain os where os: "andThen (writeBlob replyHdr (stream_new 200)) (write_Int False 7) = Inr os" by (auto split: sum.splits)
  obtain a :: "(server_object, nat, nat) adapter"
    where a: "adapter_new calm_env deaf_registry ([], ProcessI) ''ServerAdapter'' ''default -p 10000'' None = (Inr a, [])"
    using sample_server_adapter by blast
  have e: "env_getProperty calm_env ''ServerAdapter.AdapterId'' = []" "env_getPropertyAsInt calm_env ''ServerAdapter.RegisterProcess'' \<le> 0"
    by (simp_all add: calm_env_def)
  have cd: "wire_codec identity_valid identity_bytes (writeIdentity server_env) (readIdentity server_env) (\<lambda>_. True)"
    using plain_identity.wire_codec_axioms [of False] by (simp add: server_env_def)
  have cv: "converter_of (plain_env True) = None" "converter_of server_env = None" by (simp_all add: plain_env_def server_env_def)
  have v: "request_valid identity_valid ?i [] ''op'' []" "?i \<notin> {serialPort_id, driver_id}"
    by (simp_all add: request_valid_def identity_valid_def serialPort_id_def driver_id_def)
  have l: "length (request_bytes identity_bytes ?i [] ''op'' 0 []) = 9" by code_simp
  have b: "identity_bytes ?i = [1, 65, 0]" "facet_bytes [] = [0]" "string_bytes ''op'' = [2, 111, 112]" by code_simp+
  have room: "25 + length (identity_bytes ?i @ facet_bytes [] @ string_bytes ''op'') \<le> min 200 (min 200 2147483647)" unfolding b by simp
  have i': "invokeBegin True (out\<lparr>out_os := (out_os out)\<lparr>buf := buf (out_os out) @ []\<rparr>\<rparr>) = Inr out2" using i by simp
  obtain fac' a' mgr' os' istr' where srv: "startServer calm_env deaf_registry [] (adapter_factory_new :: (nat, nat) server) = Inr fac'"
      "sm_find ''ServerAdapter'' (af_adapters fac') = Some a'"
      "invoke False server_env True 0 7 s os (Some (oa_servantManager a')) = Inr ([SendResponse os' 0], istr', Some mgr')"
      "buf os' = replyHdr @ le_bytes (7 :: ice_int) @ [status_byte DispatchObjectNotExist] @ identity_bytes ?i @ facet_bytes [] @ string_bytes ''op''"
      "\<And>t2 k2 id2 r. transfer store_bz 0 False 1 (0 < (0 :: byte)) (buf os') True 200 = Inr (t2, k2, id2, r) \<Longrightarrow> t2 = replyMsg \<and> id2 = 7 \<and>
         (\<exists>out3. out_finished True (plain_env True) r out2 = (Inr (), out3) \<and>
            invokeResult out3 = Inl (Throws (RequestFailedEx ObjectNotExistException ?i [] ''op'')))"
    using unknown_object_call [OF a e store_bz_ok plain_identity.wire_codec_axioms [of True] cv(1) cd cv(2) v n _ i' p up _ _ os room, where y = 0] l
    by (fastforce simp: requestHdr_def magic_def)
  have "case transfer store_bz 0 False 1 (0 < (0 :: byte)) (replyHdr @ le_bytes (7 :: ice_int) @ [status_byte DispatchObjectNotExist] @
      identity_bytes ?i @ facet_bytes [] @ string_bytes ''op'') True 200 of Inl _ \<Rightarrow> False | Inr _ \<Rightarrow> True" by code_simp
  then obtain t2 k2 id2 r where down: "transfer store_bz 0 False 1 (0 < (0 :: byte)) (buf os') True 200 = Inr (t2, k2, id2, r)"
    unfolding srv(4) by (auto split: sum.splits)
  from srv(5) [OF down] down n i p up srv(1-3) show ?thesis unfolding Let_def c' by blast
qed

end
